(* ===== verification/Leg_Prelude.thy ===== *)
theory Leg_Prelude
  imports Main "HOL-Library.Word"
begin

unbundle bit_operations_syntax

text \<open>
  The prelude of the library. It names the machine types of \<^verbatim>\<open>include/types.h\<close>, the outcome of
  a kernel routine that may panic, the collections of simplification rules that the
  components share, and the generic facts on words (alignment, addition without wrap-around,
  naturals read as 32-bit words) on which the component proofs rest.
\<close>

section \<open>Machine types\<close>

type_synonym u8 = "8 word"
type_synonym u16 = "16 word"
type_synonym u32 = "32 word"
type_synonym u64 = "64 word"

abbreviation (input) U32_MAX :: u32 where
  "U32_MAX \<equiv> 0xFFFFFFFF"

text \<open>The bytes of a string literal, without the terminator.\<close>

definition ascii :: "string \<Rightarrow> u8 list" where
  "ascii cs = map (\<lambda>c. of_nat (of_char c)) cs"

text \<open>
  A routine either returns a value or ends in \<^verbatim>\<open>panic\<close> (the macro \<^verbatim>\<open>ASSERT\<close> of
  \<^verbatim>\<open>include/utils.h\<close>), which powers the machine off and never returns. Routines whose loops
  may run forever are partial functions into \<open>'a outcome option\<close>, with \<open>None\<close> for a run that
  does not end.
\<close>

datatype 'a outcome = Returns 'a | Panics string

fun bind_out :: "'a outcome option \<Rightarrow> ('a \<Rightarrow> 'b outcome option) \<Rightarrow> 'b outcome option" where
  "bind_out None f = None"
| "bind_out (Some (Panics e)) f = Some (Panics e)"
| "bind_out (Some (Returns a)) f = f a"

section \<open>Collections of facts\<close>

named_theorems mem_simps \<open>reads of memory after writes\<close>
named_theorems align_simps \<open>alignment of addresses\<close>
named_theorems wnat_simps \<open>naturals read as 32-bit words\<close>

section \<open>Naturals and words\<close>

abbreviation w32 :: "nat \<Rightarrow> u32" where
  "w32 \<equiv> of_nat"

lemma unat_w32 [wnat_simps]: "n < 2 ^ 32 \<Longrightarrow> unat (w32 n) = n"
  by (simp add: unat_of_nat take_bit_nat_eq_self)

lemma w32_eq_iff [wnat_simps]: "m < 2 ^ 32 \<Longrightarrow> n < 2 ^ 32 \<Longrightarrow> w32 m = w32 n \<longleftrightarrow> m = n"
  by (metis unat_w32)

lemma w32_less_iff [wnat_simps]: "m < 2 ^ 32 \<Longrightarrow> n < 2 ^ 32 \<Longrightarrow> w32 m < w32 n \<longleftrightarrow> m < n"
  by (simp add: word_less_nat_alt unat_w32)

lemma w32_le_iff [wnat_simps]: "m < 2 ^ 32 \<Longrightarrow> n < 2 ^ 32 \<Longrightarrow> w32 m \<le> w32 n \<longleftrightarrow> m \<le> n"
  by (simp add: word_le_nat_alt unat_w32)

lemma w32_eq_0_iff [wnat_simps]: "n < 2 ^ 32 \<Longrightarrow> w32 n = 0 \<longleftrightarrow> n = 0"
  using w32_eq_iff [of n 0] by simp

lemma w32_unat [simp]: "w32 (unat a) = a"
  by simp

lemma unat_2p: "k < 32 \<Longrightarrow> unat (2 ^ k :: u32) = 2 ^ k"
  using unat_w32 [of "2 ^ k"] power_strict_increasing [of k 32 "2 :: nat"] by simp

lemma unat_lt_32: "unat (a :: u32) < 2 ^ 32"
  using unsigned_less [of a] by simp

lemma unat_lt_32_numeral [simp]: "unat (a :: u32) < 4294967296"
  using unat_lt_32 [of a] by simp

lemma unat_add_no_wrap: "unat a + unat b < 2 ^ 32 \<Longrightarrow> unat (a + b :: u32) = unat a + unat b"
  by (simp add: unat_word_ariths)

lemma unat_drop_bit_div: "unat (drop_bit k w) = unat w div 2 ^ k"
  unfolding unat_drop_bit_eq by (simp only: drop_bit_eq_div)

lemma unat_Suc_less:
  assumes "(i :: u32) < n"
  shows "unat (i + 1) = Suc (unat i)"
proof -
  have "unat i < unat n" using assms by (simp add: word_less_nat_alt)
  then have "unat i + 1 < 2 ^ 32" using unat_lt_32 [of n] by linarith
  then show ?thesis using unat_add_no_wrap [of i 1] by simp
qed

text \<open>Positions of a ring of \<open>n\<close> entries.\<close>

lemma add_mod_inj:
  fixes a i j n :: nat
  assumes "i < n" "j < n"
  shows "(a + i) mod n = (a + j) mod n \<longleftrightarrow> i = j"
proof -
  have "i = j" if "i \<le> j" "j < n" "(a + i) mod n = (a + j) mod n" for i j
  proof -
    have "n dvd (a + j) - (a + i)" using that mod_eq_dvd_iff_nat [of "a + i" "a + j" n] by simp
    then show ?thesis using that dvd_imp_le [of n "j - i"] by fastforce
  qed
  then show ?thesis using assms by (metis nat_le_linear)
qed

section \<open>Four-byte alignment\<close>

text \<open>The alignment predicate is closed under the 32-bit additions of header and field offsets.\<close>

definition al4 :: "u32 \<Rightarrow> bool" where
  "al4 a \<longleftrightarrow> 4 dvd unat a"

lemma unat_add_mod4: "unat (a + b :: u32) mod 4 = (unat a + unat b) mod 4"
proof -
  have "unat (a + b) = (unat a + unat b) mod (4 * 2 ^ 30)"
    by (simp add: unat_word_ariths)
  then show ?thesis
    by (simp only: mod_mod_cancel dvd_triv_left)
qed

lemma al4_add [align_simps]: "al4 a \<Longrightarrow> al4 (a + b) \<longleftrightarrow> al4 b"
  unfolding al4_def dvd_eq_mod_eq_0 unat_add_mod4 by presburger

lemma al4_w32 [align_simps]: "al4 (w32 n) \<longleftrightarrow> 4 dvd n"
proof -
  have "n mod 2 ^ 32 mod 4 = n mod 4"
    by (rule mod_mod_cancel) simp
  then show ?thesis
    by (simp add: al4_def unat_of_nat take_bit_nat_def dvd_eq_mod_eq_0)
qed

lemma al4_consts [align_simps]: "al4 0" "al4 4" "al4 8" "al4 12"
  by (simp_all add: al4_def)

lemma al4_unat_add:
  assumes "al4 a" "i < 4"
  shows "unat (a + w32 i) = unat a + i"
proof -
  obtain k where k: "unat a = 4 * k" using assms(1) by (auto simp: al4_def)
  have "4 * k < 4294967296" using unat_lt_32 [of a] k by simp
  then have "k < 2 ^ 30" by simp
  then have "unat a + i < 2 ^ 32" using k assms(2) by simp
  moreover have "unat (w32 i) = i" using assms(2) by (simp add: unat_w32)
  ultimately show ?thesis by (metis unat_add_no_wrap)
qed

lemma al4_offset_eq:
  assumes "al4 a" "al4 b" "i < 4" "j < 4"
  shows "a + w32 i = b + w32 j \<longleftrightarrow> a = b \<and> i = j"
proof
  assume "a + w32 i = b + w32 j"
  then have eq: "unat a + i = unat b + j"
    using assms by (metis al4_unat_add)
  have "unat a mod 4 = 0" "unat b mod 4 = 0"
    using assms(1,2) by (auto simp: al4_def)
  with eq assms(3,4) have "unat a = unat b \<and> i = j"
    by presburger
  then show "a = b \<and> i = j" by (simp add: word_unat_eq_iff)
qed simp

end
