(* ===== verification/Leg_Memory.thy ===== *)
theory Leg_Memory
  imports Leg_Prelude
begin

text \<open>
  The byte memory of the machine and the block operations of \<^verbatim>\<open>src/libc/builtins.c\<close>.
  A memory is a function from 32-bit addresses to bytes; a 32-bit load or store touches four
  bytes, little-endian as ARMv7 runs here. Pointer arithmetic is 32-bit and wraps, so every
  statement that needs a region without wrap-around says so. The block operations copy and fill
  byte by byte in the order of the source loops.
\<close>

section \<open>Loads and stores\<close>

type_synonym mem = "u32 \<Rightarrow> u8"

definition rd32 :: "mem \<Rightarrow> u32 \<Rightarrow> u32" where
  "rd32 m a = ucast (m a) OR push_bit 8 (ucast (m (a + 1)))
     OR push_bit 16 (ucast (m (a + 2))) OR push_bit 24 (ucast (m (a + 3)))"

definition wr32 :: "mem \<Rightarrow> u32 \<Rightarrow> u32 \<Rightarrow> mem" where
  "wr32 m a v = m(a := ucast v, a + 1 := ucast (drop_bit 8 v),
     a + 2 := ucast (drop_bit 16 v), a + 3 := ucast (drop_bit 24 v))"

lemma bytes_of_word32:
  "ucast (ucast v :: u8) OR push_bit 8 (ucast (ucast (drop_bit 8 v) :: u8))
   OR push_bit 16 (ucast (ucast (drop_bit 16 v) :: u8))
   OR push_bit 24 (ucast (ucast (drop_bit 24 v) :: u8)) = (v :: u32)"
proof (rule bit_word_eqI)
  fix n assume "n < LENGTH(32)"
  then consider "n < 8" | "8 \<le> n" "n < 16" | "16 \<le> n" "n < 24" | "24 \<le> n" "n < 32"
    by fastforce
  then show "bit (ucast (ucast v :: u8) OR push_bit 8 (ucast (ucast (drop_bit 8 v) :: u8))
      OR push_bit 16 (ucast (ucast (drop_bit 16 v) :: u8))
      OR push_bit 24 (ucast (ucast (drop_bit 24 v) :: u8)) :: u32) n = bit v n"
    by cases (auto simp: bit_simps)
qed

lemma rd32_wr32_same [simp]: "rd32 (wr32 m a v) a = v"
  unfolding rd32_def wr32_def by (simp add: bytes_of_word32)

lemma wr32_apply_other:
  assumes "b \<noteq> a" "b \<noteq> a + 1" "b \<noteq> a + 2" "b \<noteq> a + 3"
  shows "wr32 m a v b = m b"
  using assms by (simp add: wr32_def)

lemma al4_offsets_distinct:
  assumes "al4 a" "al4 b" "a \<noteq> b" "i < 4" "j < 4"
  shows "b + w32 i \<noteq> a + w32 j"
  using al4_offset_eq [OF assms(2,1,4,5)] assms(3) by auto

lemma wr32_aligned_other:
  assumes "al4 a" "al4 b" "a \<noteq> b" "i < 4"
  shows "wr32 m a v (b + w32 i) = m (b + w32 i)"
  using al4_offsets_distinct [OF assms(1-4), of 0] al4_offsets_distinct [OF assms(1-4), of 1]
    al4_offsets_distinct [OF assms(1-4), of 2] al4_offsets_distinct [OF assms(1-4), of 3]
  by (intro wr32_apply_other) simp_all

text \<open>Aligned words are disjoint cells: the law every heap and bitmap proof rests on.\<close>

lemma rd32_wr32 [mem_simps]:
  assumes "al4 a" "al4 b"
  shows "rd32 (wr32 m a v) b = (if a = b then v else rd32 m b)"
proof (cases "a = b")
  case False
  note o = wr32_aligned_other [OF assms False, of _ m v]
  show ?thesis
    using False o [of 0] o [of 1] o [of 2] o [of 3] by (simp add: rd32_def)
qed simp

lemma rd32_cong:
  assumes "\<And>i. i < 4 \<Longrightarrow> m' (a + w32 i) = m (a + w32 i)"
  shows "rd32 m' a = rd32 m a"
  using assms [of 0] assms [of 1] assms [of 2] assms [of 3] by (simp add: rd32_def)

section \<open>Block operations\<close>

fun copy_up :: "nat \<Rightarrow> u32 \<Rightarrow> u32 \<Rightarrow> mem \<Rightarrow> mem" where
  "copy_up 0 dp sp m = m"
| "copy_up (Suc n) dp sp m = copy_up n (dp + 1) (sp + 1) (m(dp := m sp))"

definition memcpy :: "u32 \<Rightarrow> u32 \<Rightarrow> u32 \<Rightarrow> mem \<Rightarrow> u32 \<times> mem" where
  "memcpy dst src len m = (if dst = src then (0, m) else (dst, copy_up (unat len) dst src m))"

fun copy_down :: "nat \<Rightarrow> u32 \<Rightarrow> u32 \<Rightarrow> mem \<Rightarrow> mem" where
  "copy_down 0 dp sp m = m"
| "copy_down (Suc n) dp sp m = copy_down n (dp - 1) (sp - 1) (m(dp := m sp))"

definition revcpy :: "u32 \<Rightarrow> u32 \<Rightarrow> u32 \<Rightarrow> mem \<Rightarrow> u32 \<times> mem" where
  "revcpy dst src len m =
     (if dst = src then (0, m)
      else (dst, copy_down (unat len) (dst + len - 1) (src + len - 1) m))"

definition memmove :: "u32 \<Rightarrow> u32 \<Rightarrow> u32 \<Rightarrow> mem \<Rightarrow> u32 \<times> mem" where
  "memmove dst src len m =
     (if dst < src then memcpy dst src len m
      else if dst > src then revcpy dst src len m
      else (dst, m))"

fun fill_up :: "nat \<Rightarrow> u32 \<Rightarrow> u8 \<Rightarrow> mem \<Rightarrow> mem" where
  "fill_up 0 dp c m = m"
| "fill_up (Suc n) dp c m = fill_up n (dp + 1) c (m(dp := c))"

definition memset :: "u32 \<Rightarrow> u32 \<Rightarrow> u32 \<Rightarrow> mem \<Rightarrow> u32 \<times> mem" where
  "memset dst c len m = (dst, fill_up (unat len) dst (ucast c) m)"

definition memclr :: "u32 \<Rightarrow> u32 \<Rightarrow> mem \<Rightarrow> u32 \<times> mem" where
  "memclr dst len m = memset dst 0 len m"

section \<open>Regions and what the loops do to them\<close>

definition in_region :: "u32 \<Rightarrow> nat \<Rightarrow> u32 \<Rightarrow> bool" where
  "in_region d n a \<longleftrightarrow> unat d \<le> unat a \<and> unat a < unat d + n"

lemma in_region_0 [simp]: "\<not> in_region d 0 a"
  by (simp add: in_region_def)

lemma unat_plus_1: "unat d + n \<le> 2 ^ 32 \<Longrightarrow> 0 < n \<Longrightarrow> n \<noteq> 1 \<Longrightarrow> unat (d + 1 :: u32) = unat d + 1"
  using unat_add_no_wrap [of d 1] by simp

lemma in_region_Suc:
  assumes "unat d + Suc n \<le> 2 ^ 32"
  shows "in_region d (Suc n) a \<longleftrightarrow> a = d \<or> in_region (d + 1) n a"
proof (cases n)
  case 0
  then show ?thesis by (auto simp: in_region_def word_unat_eq_iff)
next
  case (Suc k)
  then have "unat (d + 1) = unat d + 1"
    using unat_plus_1 [OF assms] by simp
  then show ?thesis by (auto simp: in_region_def word_unat_eq_iff)
qed

lemma fill_up_apply:
  "unat d + n \<le> 2 ^ 32 \<Longrightarrow> fill_up n d c m a = (if in_region d n a then c else m a)"
proof (induction n arbitrary: d m)
  case (Suc n)
  have "unat (d + 1) + n \<le> 2 ^ 32"
  proof (cases "n = 0")
    case True
    then show ?thesis using less_imp_le [OF unat_lt_32 [of "d + 1"]] by simp
  next
    case False
    then show ?thesis using Suc.prems unat_plus_1 [OF Suc.prems] by simp
  qed
  from Suc.IH [OF this] show ?case
    using in_region_Suc [OF Suc.prems, of a] by auto
qed simp

lemma unat_region_offset:
  assumes "in_region d n a" "unat s + n \<le> 2 ^ 32"
  shows "unat (a - d + s) = unat a - unat d + unat s"
proof -
  have le: "unat d \<le> unat a" and lt: "unat a < unat d + n"
    using assms(1) by (auto simp: in_region_def)
  have "unat (a - d) = unat a - unat d"
    using le by (simp add: unat_sub word_le_nat_alt)
  moreover have "unat a - unat d + unat s < 2 ^ 32"
    using le lt assms(2) by linarith
  ultimately show ?thesis
    using unat_add_no_wrap [of "a - d" s] by simp
qed

lemma copy_up_apply:
  "unat d + n \<le> 2 ^ 32 \<Longrightarrow> unat s + n \<le> 2 ^ 32 \<Longrightarrow> unat d < unat s \<or> unat s + n \<le> unat d \<Longrightarrow>
   copy_up n d s m a = (if in_region d n a then m (a - d + s) else m a)"
proof (induction n arbitrary: d s m)
  case (Suc n)
  note region = in_region_Suc [OF Suc.prems(1)]
  show ?case
  proof (cases "n = 0")
    case True
    then show ?thesis using region by simp
  next
    case False
    have d1: "unat (d + 1) = unat d + 1" and s1: "unat (s + 1) = unat s + 1"
      using unat_plus_1 [OF Suc.prems(1)] unat_plus_1 [OF Suc.prems(2)] False by auto
    have IH: "copy_up n (d + 1) (s + 1) (m(d := m s)) a =
      (if in_region (d + 1) n a then (m(d := m s)) (a - d + s) else (m(d := m s)) a)"
    proof -
      have shift: "a - (d + 1) + (s + 1) = a - d + s" by simp
      show ?thesis
        by (rule Suc.IH [of "d + 1" "s + 1", unfolded shift]) (use Suc.prems d1 s1 in auto)
    qed
    have "a - d + s \<noteq> d" if "in_region (d + 1) n a"
    proof -
      have "in_region d (Suc n) a" "unat a > unat d"
        using region that d1 by (auto simp: in_region_def)
      then have "unat (a - d + s) > unat s" "unat (a - d + s) < unat s + Suc n"
        using unat_region_offset [of d "Suc n" a s] Suc.prems(2) by (auto simp: in_region_def)
      then have "unat (a - d + s) \<noteq> unat d" using Suc.prems(3) by linarith
      then show ?thesis by metis
    qed
    then show ?thesis
      using IH region d1 by (auto simp: in_region_def)
  qed
qed simp

lemma in_region_snoc:
  assumes "unat d + Suc n \<le> 2 ^ 32"
  shows "in_region d (Suc n) a \<longleftrightarrow> a = d + w32 n \<or> in_region d n a"
proof -
  have "unat (d + w32 n) = unat d + n"
    using assms unat_add_no_wrap [of d "w32 n"] by (simp add: unat_w32)
  then show ?thesis by (auto simp: in_region_def word_unat_eq_iff)
qed

lemma copy_down_apply:
  "unat d + n \<le> 2 ^ 32 \<Longrightarrow> unat s + n \<le> 2 ^ 32 \<Longrightarrow> unat s < unat d \<or> unat d + n \<le> unat s \<Longrightarrow>
   copy_down n (d + w32 n - 1) (s + w32 n - 1) m a =
     (if in_region d n a then m (a - d + s) else m a)"
proof (induction n arbitrary: m)
  case (Suc n)
  have dn: "unat (d + w32 n) = unat d + n"
    using Suc.prems(1) unat_add_no_wrap [of d "w32 n"] by (simp add: unat_w32)
  have IH: "copy_down n (d + w32 n - 1) (s + w32 n - 1) (m(d + w32 n := m (s + w32 n))) a =
    (if in_region d n a then (m(d + w32 n := m (s + w32 n))) (a - d + s)
     else (m(d + w32 n := m (s + w32 n))) a)"
    by (rule Suc.IH) (use Suc.prems in auto)
  have "a - d + s \<noteq> d + w32 n" if "in_region d n a"
  proof -
    have "unat (a - d + s) \<ge> unat s" "unat (a - d + s) < unat s + n"
      using unat_region_offset [OF that] that Suc.prems(2) by (auto simp: in_region_def)
    then have "unat (a - d + s) \<noteq> unat (d + w32 n)" using Suc.prems(3) dn by linarith
    then show ?thesis by metis
  qed
  then show ?case
    using IH in_region_snoc [OF Suc.prems(1)] dn
    by (auto simp: in_region_def algebra_simps)
qed simp

text \<open>
  \<open>memmove\<close> moves a region to any other place, overlapping or not: the copy upwards is used
  exactly when the destination lies below the source, the copy downwards when it lies above.
\<close>

lemma memmove_bytes:
  assumes "unat dst + unat len \<le> 2 ^ 32" "unat src + unat len \<le> 2 ^ 32"
  shows "snd (memmove dst src len m) a =
    (if in_region dst (unat len) a then m (a - dst + src) else m a)"
proof -
  consider "dst < src" | "src < dst" | "dst = src" by force
  then show ?thesis
  proof cases
    case 1
    then show ?thesis
      using copy_up_apply [OF assms] by (simp add: memmove_def memcpy_def word_less_nat_alt)
  next
    case 2
    then show ?thesis
      using copy_down_apply [OF assms] by (auto simp: memmove_def revcpy_def word_less_nat_alt)
  next
    case 3
    then show ?thesis by (simp add: memmove_def)
  qed
qed

lemma memset_bytes:
  assumes "unat dst + unat len \<le> 2 ^ 32"
  shows "snd (memset dst c len m) a = (if in_region dst (unat len) a then ucast c else m a)"
  using fill_up_apply [OF assms] by (simp add: memset_def)

lemma memcpy_bytes:
  assumes "unat dst + unat len \<le> 2 ^ 32" "unat src + unat len \<le> 2 ^ 32"
    and "unat src + unat len \<le> unat dst \<or> unat dst \<le> unat src"
  shows "snd (memcpy dst src len m) a =
    (if in_region dst (unat len) a then m (a - dst + src) else m a)"
proof (cases "dst = src")
  case False
  then have "unat dst < unat src \<or> unat src + unat len \<le> unat dst"
    using assms(3) by (auto simp: word_unat_eq_iff)
  then show ?thesis
    using copy_up_apply [OF assms(1,2)] False by (simp add: memcpy_def)
qed (simp add: memcpy_def)

end
