(* ===== verification/Leg_Utils.thy ===== *)
theory Leg_Utils
  imports Leg_Memory
begin

text \<open>
  The arithmetic helpers of \<^verbatim>\<open>include/utils.h\<close> and the byte-order helpers of
  \<^verbatim>\<open>include/libc/bswap.h\<close>. Alignment is 32-bit arithmetic: rounding up wraps near the top of the
  address space, so \<open>unat_align_up\<close> carries the bound under which it does not.
\<close>

section \<open>Alignment\<close>

definition align_up :: "u32 \<Rightarrow> u32 \<Rightarrow> u32" where
  "align_up x algn = (x + algn - 1) AND NOT (algn - 1)"

definition align_down :: "u32 \<Rightarrow> u32 \<Rightarrow> u32" where
  "align_down x algn = x AND NOT (algn - 1)"

definition align :: "u32 \<Rightarrow> u8 \<Rightarrow> u32" where
  "align ptr alignment = (- ucast alignment) AND (ptr + ucast alignment - 1)"

definition div_round_up :: "u32 \<Rightarrow> u32 \<Rightarrow> u32" where
  "div_round_up a b = (a + b - 1) div b"

definition get_bits :: "u32 \<Rightarrow> nat \<Rightarrow> nat \<Rightarrow> u32" where
  "get_bits data high low = drop_bit low (data AND NOT (push_bit (high + 1) 0xFFFFFFFF))"

definition get_high_bits :: "u32 \<Rightarrow> nat \<Rightarrow> u32" where
  "get_high_bits data n_bits = drop_bit (32 - n_bits) data"

lemma and_not_mask_unat:
  "unat (x AND NOT (mask k) :: u32) = unat x - unat x mod 2 ^ k"
proof -
  have "NOT x AND take_bit k x = 0"
    by (rule bit_word_eqI) (auto simp: bit_simps)
  then have "x - take_bit k x = x AND NOT (take_bit k x)"
    by (rule disjunctive_diff_eq_and_not)
  also have "\<dots> = x AND NOT (mask k)"
    by (rule bit_word_eqI) (auto simp: bit_simps)
  finally have "x AND NOT (mask k) = x - take_bit k x" ..
  moreover have "unat (take_bit k x) = unat x mod 2 ^ k"
    by (simp add: unsigned_take_bit_eq flip: take_bit_eq_mod)
  ultimately show ?thesis
    by (simp add: unat_sub word_le_nat_alt)
qed

lemma unat_align_down:
  "unat (align_down x (2 ^ k)) = unat x - unat x mod 2 ^ k"
  unfolding align_down_def by (simp add: and_not_mask_unat flip: mask_eq_exp_minus_1)

lemma unat_align_up:
  assumes "k < 32" "unat x + 2 ^ k \<le> 2 ^ 32"
  shows "unat (align_up x (2 ^ k)) = (unat x + 2 ^ k - 1) - (unat x + 2 ^ k - 1) mod 2 ^ k"
proof -
  have "unat (x + 2 ^ k - 1) = unat x + 2 ^ k - 1"
  proof -
    have "1 \<le> unat x + 2 ^ k" by (simp add: Suc_le_eq)
    then have "x + 2 ^ k - 1 = w32 (unat x + 2 ^ k - 1)"
      by (simp only: of_nat_diff) simp
    moreover have "unat x + 2 ^ k - 1 < 2 ^ 32"
      using assms(2) by (simp add: Suc_le_eq)
    ultimately show ?thesis by (simp only: unat_w32)
  qed
  then show ?thesis
    unfolding align_up_def by (simp add: and_not_mask_unat flip: mask_eq_exp_minus_1)
qed

text \<open>Rounding up gives the least multiple of the alignment that is not below the argument.\<close>

lemma align_up_least:
  assumes "k < 32" "unat x + 2 ^ k \<le> 2 ^ 32"
  shows "2 ^ k dvd unat (align_up x (2 ^ k))" (is ?multiple)
    and "unat x \<le> unat (align_up x (2 ^ k))" (is ?above)
    and "unat (align_up x (2 ^ k)) < unat x + 2 ^ k" (is ?least)
proof -
  let ?s = "unat x + 2 ^ k - 1"
  have eq: "unat (align_up x (2 ^ k)) = ?s - ?s mod 2 ^ k"
    by (rule unat_align_up [OF assms])
  have pos: "(0 :: nat) < 2 ^ k" by simp
  have "?s mod 2 ^ k < 2 ^ k" by simp
  moreover have "?s mod 2 ^ k \<le> ?s" by (rule mod_less_eq_dividend)
  ultimately show ?above ?least
    unfolding eq using pos by linarith+
  show ?multiple
    unfolding eq by (rule dvd_minus_mod)
qed

lemma align_down_greatest:
  shows "2 ^ k dvd unat (align_down x (2 ^ k))"
    and "unat (align_down x (2 ^ k)) \<le> unat x"
    and "unat x < unat (align_down x (2 ^ k)) + 2 ^ k"
  using mod_less_divisor [of "2 ^ k" "unat x"]
  by (auto simp: unat_align_down dvd_minus_mod simp del: mod_less_divisor)

lemma unat_div_round_up:
  assumes "unat a + unat b \<le> 2 ^ 32" "b \<noteq> 0"
  shows "unat (div_round_up a b) = (unat a + unat b - 1) div unat b"
proof -
  have pos: "unat b > 0" using assms(2) by (simp add: unat_gt_0)
  have "a + b - 1 = w32 (unat a + unat b - 1)"
    using pos by (simp add: of_nat_diff Suc_le_eq)
  moreover have "unat a + unat b - 1 < 2 ^ 32"
    using assms(1) pos by linarith
  ultimately have "unat (a + b - 1) = unat a + unat b - 1"
    by (simp only: unat_w32)
  then show ?thesis by (simp add: div_round_up_def unat_div_distrib)
qed

lemma unat_div_round_up_32:
  assumes "unat a + 32 \<le> 2 ^ 32"
  shows "unat (div_round_up a 32) = (unat a + 31) div 32"
  using unat_div_round_up [of a 32] assms by simp

section \<open>Byte order\<close>

definition bswap16 :: "u16 \<Rightarrow> u16" where
  "bswap16 x =
     (let lo = drop_bit 8 x AND 0xFF; hi = push_bit 8 (x AND 0xFF) in hi OR lo)"

definition bswap32 :: "u32 \<Rightarrow> u32" where
  "bswap32 x =
     (let b0 = push_bit 24 (x AND 0x000000FF);
          b1 = push_bit 8 (x AND 0x0000FF00);
          b2 = drop_bit 8 (x AND 0x00FF0000);
          b3 = drop_bit 24 (x AND 0xFF000000)
      in b0 OR b1 OR b2 OR b3)"

definition bswap64 :: "u64 \<Rightarrow> u64" where
  "bswap64 x =
     (let hi = push_bit 32 (ucast (bswap32 (ucast x)));
          lo = ucast (bswap32 (ucast (drop_bit 32 x)))
      in hi OR lo)"

definition be32_read :: "mem \<Rightarrow> u32 \<Rightarrow> u32" where
  "be32_read m p = push_bit 24 (ucast (m p)) OR push_bit 16 (ucast (m (p + 1)))
     OR push_bit 8 (ucast (m (p + 2))) OR ucast (m (p + 3))"

definition be64_read :: "mem \<Rightarrow> u32 \<Rightarrow> u64" where
  "be64_read m p =
     (let hi = push_bit 32 (ucast (be32_read m p)); lo = ucast (be32_read m (p + 4))
      in hi OR lo)"

lemma byte_masks:
  "(0x000000FF :: u32) = mask 8"
  "(0x0000FF00 :: u32) = push_bit 8 (mask 8)"
  "(0x00FF0000 :: u32) = push_bit 16 (mask 8)"
  "(0xFF000000 :: u32) = push_bit 24 (mask 8)"
  "(0xFF :: u16) = mask 8"
  by (simp_all add: mask_eq_exp_minus_1)

text \<open>A bit of a 32-bit word is bit \<open>k\<close> of one of its four bytes.\<close>

lemma word32_byte_cases:
  assumes "n < LENGTH(32)"
  obtains k where "k < 8" "n = k" | k where "k < 8" "n = k + 8"
    | k where "k < 8" "n = k + 16" | k where "k < 8" "n = k + 24"
proof -
  have "n < 32" using assms by simp
  then have "n < 8 \<or> (\<exists>k < 8. n = k + 8) \<or> (\<exists>k < 8. n = k + 16) \<or> (\<exists>k < 8. n = k + 24)"
    by presburger
  then show ?thesis using that by blast
qed

text \<open>Byte \<open>i\<close> of the swapped word is byte \<open>3 - i\<close> of the argument.\<close>

lemma bit_bswap32:
  assumes "k < 8"
  shows "bit (bswap32 x) k = bit x (k + 24)" "bit (bswap32 x) (k + 8) = bit x (k + 16)"
    "bit (bswap32 x) (k + 16) = bit x (k + 8)" "bit (bswap32 x) (k + 24) = bit x k"
  unfolding bswap32_def Let_def byte_masks
  using assms by (simp_all add: bit_simps add.commute)

lemma bswap32_bswap32 [simp]: "bswap32 (bswap32 x) = x"
proof (rule bit_word_eqI)
  fix n assume "n < LENGTH(32)"
  then show "bit (bswap32 (bswap32 x)) n = bit x n"
    by (cases rule: word32_byte_cases) (simp_all add: bit_bswap32)
qed

lemma bit_u8_beyond [simp]: "8 \<le> n \<Longrightarrow> \<not> bit (b :: u8) n"
  using bit_imp_le_length [of b n] by auto

lemma be32_read_bswap32: "be32_read m p = bswap32 (rd32 m p)"
proof (rule bit_word_eqI)
  fix n assume "n < LENGTH(32)"
  then show "bit (be32_read m p) n = bit (bswap32 (rd32 m p)) n"
    by (cases rule: word32_byte_cases)
       (simp_all add: bit_bswap32 be32_read_def rd32_def bit_simps)
qed

end
