(* ===== verification/Leg_Mm_State.thy ===== *)
theory Leg_Mm_State
  imports Leg_Utils
begin

text \<open>
  The state of \<^verbatim>\<open>src/kernel/mem/alloc.c\<close>: its two static structs, the byte memory in which
  the page bitmap and the block headers live, and the constants of \<^verbatim>\<open>alloc.c\<close>,
  \<^verbatim>\<open>include/kernel/mem/alloc.h\<close> and \<^verbatim>\<open>include/kernel/dev/memory.h\<close>. The page allocator
  (\<open>Leg_Pmm\<close>) and the heap (\<open>Leg_Kheap\<close>) are state transformers on \<open>mm_state\<close>.
\<close>

section \<open>Constants\<close>

abbreviation (input) PAGE_SIZE :: u32 where "PAGE_SIZE \<equiv> 4096"
abbreviation (input) PAGE_SHIFT :: nat where "PAGE_SHIFT \<equiv> 12"
abbreviation (input) PAGE_MASK :: u32 where "PAGE_MASK \<equiv> NOT (PAGE_SIZE - 1)"
abbreviation (input) KHEAP_SIZE :: u32 where "KHEAP_SIZE \<equiv> 2 * 1024 * 1024"
abbreviation (input) BM_BITS :: u32 where "BM_BITS \<equiv> 32"

abbreviation (input) KHEAP_MIN_SPLIT :: u32 where "KHEAP_MIN_SPLIT \<equiv> 32"
abbreviation (input) KHEAP_ALIGN :: u32 where "KHEAP_ALIGN \<equiv> 8"
abbreviation (input) KHEAP_MAGIC_FREE :: u32 where "KHEAP_MAGIC_FREE \<equiv> 0xCAFE"
abbreviation (input) KHEAP_MAGIC_USED :: u32 where "KHEAP_MAGIC_USED \<equiv> 0xBEEF"
abbreviation (input) KHEAP_MAGIC_DEAD :: u32 where "KHEAP_MAGIC_DEAD \<equiv> 0xDEAD"
abbreviation (input) ALIGN_TAG :: u32 where "ALIGN_TAG \<equiv> 0xA11F"
abbreviation (input) HDR_SIZE :: u32 where "HDR_SIZE \<equiv> 12"
abbreviation (input) META_SIZE :: u32 where "META_SIZE \<equiv> 8"

section \<open>State\<close>

record kheap_t =
  kh_base :: u32
  kh_capacity :: u32
  kh_used :: u32
  free_list :: u32

record phys_mm_t =
  ram_base :: u32
  ram_end :: u32
  total_pages :: u32
  bitmap :: u32
  bitmap_words :: u32
  free_pages :: u32
  reserved_pages :: u32
  next_hint :: u32

record mm_state =
  mem :: mem
  g_pmm :: phys_mm_t
  g_kheap :: kheap_t

datatype mm_err_t = MM_OK | MM_ERR_OOM | MM_ERR_ALIGN | MM_ERR_RANGE | MM_ERR_INUSE | MM_ERR_FREE

fun mm_err_code :: "mm_err_t \<Rightarrow> int" where
  "mm_err_code MM_OK = 0"
| "mm_err_code MM_ERR_OOM = -1"
| "mm_err_code MM_ERR_ALIGN = -2"
| "mm_err_code MM_ERR_RANGE = -3"
| "mm_err_code MM_ERR_INUSE = -4"
| "mm_err_code MM_ERR_FREE = -5"

text \<open>The error codes are ordered by their numeric value, as the C enumeration is.\<close>

instantiation mm_err_t :: linorder
begin

definition less_eq_mm_err_t :: "mm_err_t \<Rightarrow> mm_err_t \<Rightarrow> bool" where
  "less_eq_mm_err_t a b \<longleftrightarrow> mm_err_code a \<le> mm_err_code b"

definition less_mm_err_t :: "mm_err_t \<Rightarrow> mm_err_t \<Rightarrow> bool" where
  "less_mm_err_t a b \<longleftrightarrow> mm_err_code a < mm_err_code b"

instance
proof
  fix a b :: mm_err_t
  show "a \<le> b \<Longrightarrow> b \<le> a \<Longrightarrow> a = b"
    by (cases a; cases b) (simp_all add: less_eq_mm_err_t_def)
qed (auto simp: less_eq_mm_err_t_def less_mm_err_t_def)

end

record mm_stats_t =
  st_total_pages :: u32
  st_free_pages :: u32
  st_reserved_pages :: u32
  st_heap_base :: u32
  st_heap_end :: u32
  st_heap_used :: u32

section \<open>Kernel addresses\<close>

abbreviation (input) KERNEL_VA :: u32 where "KERNEL_VA \<equiv> 0xC0000000"

definition virt_to_phys :: "u32 \<Rightarrow> u32 \<Rightarrow> u32" where
  "virt_to_phys kernel_phys_base v =
     (if v \<ge> KERNEL_VA then kernel_phys_base + (v - KERNEL_VA) else v)"

definition phys_to_virt :: "u32 \<Rightarrow> u32 \<Rightarrow> u32" where
  "phys_to_virt kernel_phys_base pa = pa - kernel_phys_base + KERNEL_VA"

lemma phys_to_virt_to_phys:
  "KERNEL_VA \<le> v \<Longrightarrow> phys_to_virt kpb (virt_to_phys kpb v) = v"
  by (simp add: phys_to_virt_def virt_to_phys_def)

end
