(* ===== verification/Leg_Bitmap.thy ===== *)
theory Leg_Bitmap
  imports Leg_Mm_State
begin

text \<open>
  The page bitmap of \<^verbatim>\<open>alloc.c\<close>: one bit per page in an array of 32-bit words, and the search
  for a run of free bits. The locale \<open>bit_array\<close> is the interface the page allocator relies on
  (a bit array of a given length with test, set and clear); it is interpreted on the words in
  memory, and the facts on the set of free indices are proved once inside it.
\<close>

section \<open>The bitmap in memory\<close>

definition bm_set :: "mem \<Rightarrow> u32 \<Rightarrow> u32 \<Rightarrow> mem" where
  "bm_set m bm i =
     (let a = bm + 4 * (i div BM_BITS)
      in wr32 m a (rd32 m a OR push_bit (unat (i mod BM_BITS)) 1))"

definition bm_clear :: "mem \<Rightarrow> u32 \<Rightarrow> u32 \<Rightarrow> mem" where
  "bm_clear m bm i =
     (let a = bm + 4 * (i div BM_BITS)
      in wr32 m a (rd32 m a AND NOT (push_bit (unat (i mod BM_BITS)) 1)))"

definition bm_test :: "mem \<Rightarrow> u32 \<Rightarrow> u32 \<Rightarrow> bool" where
  "bm_test m bm i \<longleftrightarrow>
     drop_bit (unat (i mod BM_BITS)) (rd32 m (bm + 4 * (i div BM_BITS))) AND 1 \<noteq> 0"

function bm_scan :: "mem \<Rightarrow> u32 \<Rightarrow> u32 \<Rightarrow> u32 \<Rightarrow> u32 \<Rightarrow> u32 \<Rightarrow> u32 \<Rightarrow> u32 option" where
  "bm_scan m bm n lim i run_start run_len =
     (if i < lim then
        if \<not> bm_test m bm i then
          let run_start' = (if run_len = 0 then i else run_start);
              run_len' = run_len + 1
          in if run_len' = n then Some run_start'
             else bm_scan m bm n lim (i + 1) run_start' run_len'
        else bm_scan m bm n lim (i + 1) run_start 0
      else None)"
  by pat_completeness auto
termination
  by (relation "measure (\<lambda>(m, bm, n, lim, i, rs, rl). unat lim - unat i)")
     (auto simp: unat_Suc_less word_less_nat_alt)

declare bm_scan.simps [simp del]

definition bm_find_free_run :: "mem \<Rightarrow> u32 \<Rightarrow> u32 \<Rightarrow> u32 \<Rightarrow> u32 \<Rightarrow> u32" where
  "bm_find_free_run m bm total_bits start_bit n =
     (case bm_scan m bm n total_bits start_bit start_bit 0 of
        Some run_start \<Rightarrow> run_start
      | None \<Rightarrow>
          if start_bit > 0 then
            (case bm_scan m bm n start_bit 0 start_bit 0 of
               Some run_start \<Rightarrow> run_start
             | None \<Rightarrow> U32_MAX)
          else U32_MAX)"

section \<open>The interface: an array of bits\<close>

locale bit_array =
  fixes tst :: "'m \<Rightarrow> 'd \<Rightarrow> nat \<Rightarrow> bool"
    and st :: "'m \<Rightarrow> 'd \<Rightarrow> nat \<Rightarrow> 'm"
    and cl :: "'m \<Rightarrow> 'd \<Rightarrow> nat \<Rightarrow> 'm"
    and len :: "'d \<Rightarrow> nat"
    and wf :: "'d \<Rightarrow> bool"
  assumes tst_st: "wf d \<Longrightarrow> i < len d \<Longrightarrow> j < len d \<Longrightarrow> tst (st m d i) d j \<longleftrightarrow> i = j \<or> tst m d j"
    and tst_cl: "wf d \<Longrightarrow> i < len d \<Longrightarrow> j < len d \<Longrightarrow> tst (cl m d i) d j \<longleftrightarrow> i \<noteq> j \<and> tst m d j"
begin

definition free :: "'m \<Rightarrow> 'd \<Rightarrow> nat set" where
  "free m d = {i. i < len d \<and> \<not> tst m d i}"

lemma finite_free [simp]: "finite (free m d)"
  by (simp add: free_def)

lemma free_st: "wf d \<Longrightarrow> i < len d \<Longrightarrow> free (st m d i) d = free m d - {i}"
  by (auto simp: free_def tst_st)

lemma free_cl: "wf d \<Longrightarrow> i < len d \<Longrightarrow> free (cl m d i) d = insert i (free m d)"
  by (auto simp: free_def tst_cl)

lemma free_st_list:
  "wf d \<Longrightarrow> \<forall>i \<in> set is. i < len d \<Longrightarrow> free (fold (\<lambda>i m. st m d i) is m) d = free m d - set is"
  by (induction "is" arbitrary: m) (auto simp: free_st)

lemma free_cl_list:
  "wf d \<Longrightarrow> \<forall>i \<in> set is. i < len d \<Longrightarrow> free (fold (\<lambda>i m. cl m d i) is m) d = free m d \<union> set is"
  by (induction "is" arbitrary: m) (auto simp: free_cl)

lemma card_free_st: "wf d \<Longrightarrow> i \<in> free m d \<Longrightarrow> card (free (st m d i) d) = card (free m d) - 1"
  by (subst free_st) (simp_all add: free_def card_Diff_singleton_if)

lemma card_free_cl:
  "wf d \<Longrightarrow> i < len d \<Longrightarrow> tst m d i \<Longrightarrow> card (free (cl m d i) d) = Suc (card (free m d))"
  by (subst free_cl) (auto simp: free_def)

lemma st_cl_free: "wf d \<Longrightarrow> i \<in> free m d \<Longrightarrow> free (cl (st m d i) d i) d = free m d"
  by (subst free_cl, simp, simp add: free_def, subst free_st) (auto simp: free_def)

end

section \<open>The bitmap implements the interface\<close>

type_synonym bm_desc = "u32 \<times> nat"

fun bm_wf :: "bm_desc \<Rightarrow> bool" where
  "bm_wf (bm, n) \<longleftrightarrow> al4 bm \<and> n < 2 ^ 32 \<and> unat bm + 4 * ((n + 31) div 32) \<le> 2 ^ 32"

fun bm_tst :: "mem \<Rightarrow> bm_desc \<Rightarrow> nat \<Rightarrow> bool" where
  "bm_tst m (bm, n) i = bm_test m bm (w32 i)"

fun bm_st :: "mem \<Rightarrow> bm_desc \<Rightarrow> nat \<Rightarrow> mem" where
  "bm_st m (bm, n) i = bm_set m bm (w32 i)"

fun bm_cl :: "mem \<Rightarrow> bm_desc \<Rightarrow> nat \<Rightarrow> mem" where
  "bm_cl m (bm, n) i = bm_clear m bm (w32 i)"

lemma unat_w32_div_mod:
  assumes "i < 2 ^ 32"
  shows "unat (w32 i div 32) = i div 32" "unat (w32 i mod 32) = i mod 32"
  using assms by (simp_all add: unat_div_distrib unat_mod_distrib unat_w32)

lemma bm_addr_w32:
  assumes "i < 2 ^ 32"
  shows "bm + 4 * (w32 i div 32) = bm + w32 (4 * (i div 32))"
proof -
  have "w32 i div 32 = w32 (unat (w32 i div 32))" by simp
  then show ?thesis
    by (simp only: unat_w32_div_mod [OF assms] of_nat_mult of_nat_numeral)
qed

lemma bm_addr_eq_iff:
  assumes "i < 2 ^ 32" "j < 2 ^ 32"
  shows "bm + 4 * (w32 i div 32) = bm + 4 * (w32 j div 32) \<longleftrightarrow> i div 32 = j div 32"
proof -
  have "4 * (i div 32) < 2 ^ 32" "4 * (j div 32) < 2 ^ 32" using assms by auto
  then show ?thesis
    by (simp only: bm_addr_w32 [OF assms(1)] bm_addr_w32 [OF assms(2)] add_left_cancel w32_eq_iff)
       simp
qed

lemma bm_addr_al4:
  assumes "al4 bm" "i < 2 ^ 32"
  shows "al4 (bm + 4 * (w32 i div 32))"
  by (simp only: bm_addr_w32 [OF assms(2)] al4_add [OF assms(1)] al4_w32) simp

lemma bm_test_bit:
  "i < 2 ^ 32 \<Longrightarrow> bm_test m bm (w32 i) \<longleftrightarrow> bit (rd32 m (bm + 4 * (w32 i div 32))) (i mod 32)"
  by (simp add: bm_test_def unat_w32_div_mod bit_iff_odd_drop_bit and_one_eq odd_iff_mod_2_eq_one)

lemma mod_32_eqD: "i div 32 = j div 32 \<Longrightarrow> i mod 32 = j mod 32 \<Longrightarrow> i = (j :: nat)"
  by (metis mod_div_decomp)

text \<open>A word of the bitmap after a write to the word of another index.\<close>

lemma rd32_bm_word:
  assumes "al4 bm" "i < 2 ^ 32" "j < 2 ^ 32"
  shows "rd32 (wr32 m (bm + 4 * (w32 i div 32)) v) (bm + 4 * (w32 j div 32)) =
    (if i div 32 = j div 32 then v else rd32 m (bm + 4 * (w32 j div 32)))"
  using rd32_wr32 [OF bm_addr_al4 [OF assms(1,2)] bm_addr_al4 [OF assms(1,3)]]
  by (simp only: bm_addr_eq_iff [OF assms(2,3)])

lemma bm_test_set:
  assumes "al4 bm" "i < 2 ^ 32" "j < 2 ^ 32"
  shows "bm_test (bm_set m bm (w32 i)) bm (w32 j) \<longleftrightarrow> i = j \<or> bm_test m bm (w32 j)"
proof (cases "i div 32 = j div 32")
  case True
  then have eq: "w32 i div 32 = w32 j div 32"
    by (simp only: word_unat_eq_iff unat_w32_div_mod [OF assms(2)] unat_w32_div_mod [OF assms(3)])
  have "i = j \<longleftrightarrow> i mod 32 = j mod 32"
    using mod_32_eqD [OF True] by auto
  then show ?thesis
    unfolding bm_test_bit [OF assms(3)] bm_set_def Let_def rd32_bm_word [OF assms]
      unat_w32_div_mod [OF assms(2)]
    by (simp add: True eq bit_simps) (metis mod_less_divisor zero_less_numeral)
next
  case False
  then show ?thesis
    unfolding bm_test_bit [OF assms(3)] bm_set_def Let_def rd32_bm_word [OF assms] by auto
qed

lemma bm_test_clear:
  assumes "al4 bm" "i < 2 ^ 32" "j < 2 ^ 32"
  shows "bm_test (bm_clear m bm (w32 i)) bm (w32 j) \<longleftrightarrow> i \<noteq> j \<and> bm_test m bm (w32 j)"
proof (cases "i div 32 = j div 32")
  case True
  then have eq: "w32 i div 32 = w32 j div 32"
    by (simp only: word_unat_eq_iff unat_w32_div_mod [OF assms(2)] unat_w32_div_mod [OF assms(3)])
  have "i = j \<longleftrightarrow> i mod 32 = j mod 32"
    using mod_32_eqD [OF True] by auto
  then show ?thesis
    unfolding bm_test_bit [OF assms(3)] bm_clear_def Let_def rd32_bm_word [OF assms]
      unat_w32_div_mod [OF assms(2)]
    by (simp add: True eq bit_simps) (metis mod_less_divisor zero_less_numeral)
next
  case False
  then show ?thesis
    unfolding bm_test_bit [OF assms(3)] bm_clear_def Let_def rd32_bm_word [OF assms] by auto
qed

interpretation bits: bit_array bm_tst bm_st bm_cl snd bm_wf
proof
  fix d :: bm_desc and i j m
  assume "bm_wf d" "i < snd d" "j < snd d"
  then show "bm_tst (bm_st m d i) d j \<longleftrightarrow> i = j \<or> bm_tst m d j"
    and "bm_tst (bm_cl m d i) d j \<longleftrightarrow> i \<noteq> j \<and> bm_tst m d j"
    by (cases d; auto simp: bm_test_set bm_test_clear)+
qed

text \<open>Setting and clearing write only the words of the bitmap.\<close>

definition bm_bytes :: "bm_desc \<Rightarrow> u32 \<Rightarrow> bool" where
  "bm_bytes d = in_region (fst d) (4 * ((snd d + 31) div 32))"

lemma wr32_in_region:
  assumes "al4 a" "in_region b n a" "in_region b n (a + 3)" "\<not> in_region b n c"
  shows "wr32 m a v c = m c"
proof -
  have "unat (a + w32 i) = unat a + i" if "i < 4" for i
    using al4_unat_add [OF assms(1) that] .
  from this [of 1] this [of 2] this [of 3]
  have "unat (a + 1) = unat a + 1" "unat (a + 2) = unat a + 2" "unat (a + 3) = unat a + 3"
    by simp_all
  then show ?thesis
    using assms(2-4) by (intro wr32_apply_other) (auto simp: in_region_def)
qed

lemma bm_word_in_bytes:
  assumes "bm_wf (bm, n)" "i < n" "k < 4"
  shows "in_region bm (4 * ((n + 31) div 32)) (bm + 4 * (w32 i div 32) + w32 k)"
proof -
  have wf: "al4 bm" "n < 2 ^ 32" "unat bm + 4 * ((n + 31) div 32) \<le> 2 ^ 32" using assms(1) by auto
  have i: "i < 2 ^ 32" using wf(2) assms(2) by linarith
  have lt: "4 * (i div 32) + 4 \<le> 4 * ((n + 31) div 32)"
    using div_le_mono [of "i + 32" "n + 31" 32] assms(2) div_add_self2 [of 32 i] by linarith
  have "4 * (i div 32) < 2 ^ 32" using i by linarith
  then have "unat (w32 (4 * (i div 32))) = 4 * (i div 32)" by (rule unat_w32)
  moreover have "unat bm + 4 * (i div 32) < 2 ^ 32" using wf(3) lt by linarith
  ultimately have "unat (bm + w32 (4 * (i div 32))) = unat bm + 4 * (i div 32)"
    by (metis unat_add_no_wrap)
  then have "unat (bm + 4 * (w32 i div 32) + w32 k) = unat bm + 4 * (i div 32) + k"
    using al4_unat_add [OF bm_addr_al4 [OF wf(1) i] assms(3)] bm_addr_w32 [OF i, of bm] by simp
  then show ?thesis using lt assms(3) by (simp add: in_region_def)
qed

lemma bm_write_frame:
  assumes "bm_wf (bm, n)" "i < n" "\<not> bm_bytes (bm, n) a"
  shows "bm_set m bm (w32 i) a = m a" "bm_clear m bm (w32 i) a = m a"
proof -
  have "al4 (bm + 4 * (w32 i div 32))"
    using assms(1,2) by (intro bm_addr_al4) auto
  from wr32_in_region [OF this] bm_word_in_bytes [OF assms(1,2), of 0]
    bm_word_in_bytes [OF assms(1,2), of 3] assms(3)
  show "bm_set m bm (w32 i) a = m a" "bm_clear m bm (w32 i) a = m a"
    by (simp_all add: bm_set_def bm_clear_def Let_def bm_bytes_def)
qed

section \<open>The search for a run\<close>

definition run_free :: "mem \<Rightarrow> u32 \<Rightarrow> nat \<Rightarrow> nat \<Rightarrow> bool" where
  "run_free m bm r n \<longleftrightarrow> (\<forall>k < n. \<not> bm_test m bm (w32 (r + k)))"

definition first_run :: "mem \<Rightarrow> u32 \<Rightarrow> nat \<Rightarrow> nat \<Rightarrow> nat \<Rightarrow> nat \<Rightarrow> bool" where
  "first_run m bm n lo lim r \<longleftrightarrow>
     lo \<le> r \<and> r + n \<le> lim \<and> run_free m bm r n \<and> (\<forall>r'. lo \<le> r' \<and> r' < r \<longrightarrow> \<not> run_free m bm r' n)"

lemma bm_scan_w32:
  assumes "lim < 2 ^ 32" "i < 2 ^ 32" "n < 2 ^ 32" "rl < n"
  shows "bm_scan m bm (w32 n) (w32 lim) (w32 i) (w32 rs) (w32 rl) =
    (if i < lim then
       if \<not> bm_test m bm (w32 i) then
         if Suc rl = n then Some (w32 (if rl = 0 then i else rs))
         else bm_scan m bm (w32 n) (w32 lim) (w32 (Suc i)) (w32 (if rl = 0 then i else rs)) (w32 (Suc rl))
       else bm_scan m bm (w32 n) (w32 lim) (w32 (Suc i)) (w32 rs) (w32 0)
     else None)"
proof -
  have "Suc rl < 2 ^ 32" "rl < 2 ^ 32" using assms by linarith+
  then have eq: "w32 rl + 1 = w32 n \<longleftrightarrow> Suc rl = n" "w32 rl = 0 \<longleftrightarrow> rl = 0"
    using w32_eq_iff [of "Suc rl" n] assms(3) w32_eq_0_iff [of rl] by (auto simp: add.commute)
  show ?thesis
    unfolding bm_scan.simps [of m bm "w32 n" "w32 lim" "w32 i"] Let_def eq
      w32_less_iff [OF assms(2,1)]
    by (simp add: add.commute)
qed

lemma bm_scan_correct:
  assumes "lim < 2 ^ 32" "n < 2 ^ 32"
  shows "i \<le> lim \<Longrightarrow> lo + rl \<le> i \<Longrightarrow> rl < n \<Longrightarrow>
    (\<forall>k. i - rl \<le> k \<and> k < i \<longrightarrow> \<not> bm_test m bm (w32 k)) \<Longrightarrow> (0 < rl \<longrightarrow> rs = i - rl) \<Longrightarrow>
    (\<forall>r. lo \<le> r \<and> r < i - rl \<longrightarrow> \<not> run_free m bm r n) \<Longrightarrow>
    (case bm_scan m bm (w32 n) (w32 lim) (w32 i) (w32 rs) (w32 rl) of
       Some v \<Rightarrow> \<exists>r. v = w32 r \<and> first_run m bm n lo lim r
     | None \<Rightarrow> \<forall>r. lo \<le> r \<and> r + n \<le> lim \<longrightarrow> \<not> run_free m bm r n)"
proof (induction "lim - i" arbitrary: i rs rl)
  case 0
  have "\<forall>r. lo \<le> r \<and> r + n \<le> lim \<longrightarrow> \<not> run_free m bm r n"
    using 0 by auto
  moreover have "bm_scan m bm (w32 n) (w32 lim) (w32 i) (w32 rs) (w32 rl) = None"
    using 0 assms by (simp add: bm_scan_w32)
  ultimately show ?case by simp
next
  case (Suc x)
  have lt: "i < lim" and "i < 2 ^ 32" and x: "x = lim - Suc i"
    using Suc.hyps(2) assms(1) by auto
  show ?case
  proof (cases "bm_test m bm (w32 i)")
    case True
    have "\<not> run_free m bm r n" if r: "lo \<le> r" "r < Suc i" for r
    proof (cases "r < i - rl")
      case False
      then have "i - r < n" and "r + (i - r) = i" using Suc.prems(3) r by auto
      with True show ?thesis unfolding run_free_def by metis
    qed (use Suc.prems(6) r in auto)
    then have "case bm_scan m bm (w32 n) (w32 lim) (w32 (Suc i)) (w32 rs) (w32 0) of
       Some v \<Rightarrow> \<exists>r. v = w32 r \<and> first_run m bm n lo lim r
     | None \<Rightarrow> \<forall>r. lo \<le> r \<and> r + n \<le> lim \<longrightarrow> \<not> run_free m bm r n"
      using Suc.prems lt by (intro Suc.hyps(1) [OF x]) auto
    then show ?thesis
      using True lt Suc.prems(3) \<open>i < 2 ^ 32\<close> assms by (simp add: bm_scan_w32)
  next
    case False
    define rs' where "rs' = (if rl = 0 then i else rs)"
    have rs': "rs' = Suc i - Suc rl" using Suc.prems(5) by (simp add: rs'_def)
    have free: "\<forall>k. Suc i - Suc rl \<le> k \<and> k < Suc i \<longrightarrow> \<not> bm_test m bm (w32 k)"
      using Suc.prems(4) False by (auto simp: less_Suc_eq)
    show ?thesis
    proof (cases "Suc rl = n")
      case True
      have "run_free m bm rs' n"
        unfolding run_free_def
        by (intro allI impI free [rule_format]) (use rs' True Suc.prems(2) in auto)
      then have "first_run m bm n lo lim rs'"
        using Suc.prems lt True rs' by (auto simp: first_run_def)
      then show ?thesis
        using False lt True Suc.prems(3) \<open>i < 2 ^ 32\<close> assms by (auto simp: bm_scan_w32 rs'_def)
    next
      case len: False
      have "case bm_scan m bm (w32 n) (w32 lim) (w32 (Suc i)) (w32 rs') (w32 (Suc rl)) of
         Some v \<Rightarrow> \<exists>r. v = w32 r \<and> first_run m bm n lo lim r
       | None \<Rightarrow> \<forall>r. lo \<le> r \<and> r + n \<le> lim \<longrightarrow> \<not> run_free m bm r n"
        using Suc.prems lt len rs' free by (intro Suc.hyps(1) [OF x]) auto
      then show ?thesis
        using False lt len Suc.prems(3) \<open>i < 2 ^ 32\<close> assms by (simp add: bm_scan_w32 rs'_def)
    qed
  qed
qed

definition no_run :: "mem \<Rightarrow> u32 \<Rightarrow> nat \<Rightarrow> nat \<Rightarrow> nat \<Rightarrow> bool" where
  "no_run m bm n lo lim \<longleftrightarrow> (\<forall>r. lo \<le> r \<and> r + n \<le> lim \<longrightarrow> \<not> run_free m bm r n)"

lemma bm_scan_from:
  assumes "lim < 2 ^ 32" "n < 2 ^ 32" "0 < n" "lo \<le> lim"
  shows "case bm_scan m bm (w32 n) (w32 lim) (w32 lo) (w32 rs) 0 of
       Some v \<Rightarrow> \<exists>r. v = w32 r \<and> first_run m bm n lo lim r
     | None \<Rightarrow> no_run m bm n lo lim"
  unfolding no_run_def
  by (rule bm_scan_correct [OF assms(1,2), of lo lo 0 m bm rs, simplified])
     (use assms(3,4) in auto)

text \<open>
  The search returns the first run at or after the start; only when there is none does it wrap
  to the runs that end before the start; and \<open>U32_MAX\<close> means that neither part has one.
\<close>

lemma bm_find_free_run_cases:
  assumes "tot < 2 ^ 32" "n < 2 ^ 32" "0 < n" "start \<le> tot"
  obtains (found) r where "bm_find_free_run m bm (w32 tot) (w32 start) (w32 n) = w32 r"
      "first_run m bm n start tot r"
  | (wrapped) r where "bm_find_free_run m bm (w32 tot) (w32 start) (w32 n) = w32 r"
      "no_run m bm n start tot" "first_run m bm n 0 start r"
  | (none) "bm_find_free_run m bm (w32 tot) (w32 start) (w32 n) = U32_MAX"
      "no_run m bm n start tot" "no_run m bm n 0 start"
proof (cases "bm_scan m bm (w32 n) (w32 tot) (w32 start) (w32 start) 0")
  case (Some v)
  then show ?thesis
    using bm_scan_from [OF assms, of m bm start] found by (auto simp: bm_find_free_run_def)
next
  case None
  then have hi: "no_run m bm n start tot"
    using bm_scan_from [OF assms, of m bm start] by simp
  have lt: "start < 2 ^ 32" using assms by linarith
  show ?thesis
  proof (cases "start = 0")
    case True
    then have "no_run m bm n 0 start" using assms(3) by (simp add: no_run_def)
    then show ?thesis
      using None hi True by (intro none) (simp_all add: bm_find_free_run_def)
  next
    case False
    then have pos: "(0 :: u32) < w32 start"
      using lt by (simp add: word_less_nat_alt unat_w32)
    have lo: "case bm_scan m bm (w32 n) (w32 start) 0 (w32 start) 0 of
         Some v \<Rightarrow> \<exists>r. v = w32 r \<and> first_run m bm n 0 start r
       | None \<Rightarrow> no_run m bm n 0 start"
      using bm_scan_from [OF lt assms(2,3), of 0 m bm start] by simp
    show ?thesis
    proof (cases "bm_scan m bm (w32 n) (w32 start) 0 (w32 start) 0")
      case None2: None
      then show ?thesis
        using None hi lo pos by (intro none) (simp_all add: bm_find_free_run_def)
    next
      case (Some v)
      then obtain r where "v = w32 r" "first_run m bm n 0 start r" using lo by auto
      then show ?thesis
        using None hi pos Some by (intro wrapped [of r]) (simp_all add: bm_find_free_run_def)
    qed
  qed
qed

lemma first_run_not_max:
  assumes "first_run m bm n lo lim r" "lim < 2 ^ 32" "0 < n"
  shows "w32 r \<noteq> U32_MAX"
proof -
  have "r < 2 ^ 32 - 1" using assms by (auto simp: first_run_def)
  then show ?thesis
    using w32_eq_iff [of r "2 ^ 32 - 1"] by simp
qed

end
