(* ===== verification/Leg_Page_Interface.thy ===== *)
theory Leg_Page_Interface
  imports Main
begin

text \<open>
  What the rest of the kernel relies on when it asks for pages. The locale \<open>page_allocator\<close>
  states the contract of one allocation and one release over an abstract state; a client that
  performs a sequence of allocations (\<open>process_create\<close>, \<open>process_fork\<close> and \<open>llf_load\<close> do)
  gets pairwise different pages, and giving them back restores the set of available pages.
\<close>

section \<open>Sequences of requests\<close>

primrec alloc_seq :: "('s \<Rightarrow> 'p \<times> 's) \<Rightarrow> nat \<Rightarrow> 's \<Rightarrow> 'p list \<times> 's" where
  "alloc_seq al 0 s = ([], s)"
| "alloc_seq al (Suc k) s =
     (case al s of (p, s') \<Rightarrow> case alloc_seq al k s' of (ps, s'') \<Rightarrow> (p # ps, s''))"

primrec free_seq :: "('p \<Rightarrow> 's \<Rightarrow> 'e \<times> 's) \<Rightarrow> 'p list \<Rightarrow> 's \<Rightarrow> 'e list \<times> 's" where
  "free_seq fr [] s = ([], s)"
| "free_seq fr (p # ps) s =
     (case fr p s of (e, s') \<Rightarrow> case free_seq fr ps s' of (es, s'') \<Rightarrow> (e # es, s''))"

section \<open>The contract\<close>

locale page_allocator =
  fixes inv :: "'s \<Rightarrow> bool"
    and pages :: "'s \<Rightarrow> 'p set"
    and avail :: "'s \<Rightarrow> 'p set"
    and null :: 'p
    and al :: "'s \<Rightarrow> 'p \<times> 's"
    and fr :: "'p \<Rightarrow> 's \<Rightarrow> 'e \<times> 's"
    and ok :: 'e
  assumes finite_avail: "inv s \<Longrightarrow> finite (avail s)"
    and avail_pages: "inv s \<Longrightarrow> avail s \<subseteq> pages s"
    and null_not_page: "inv s \<Longrightarrow> null \<notin> pages s"
    and al_page: "inv s \<Longrightarrow> avail s \<noteq> {} \<Longrightarrow> al s = (p, s') \<Longrightarrow>
      p \<in> avail s \<and> avail s' = avail s - {p} \<and> pages s' = pages s \<and> inv s'"
    and al_empty: "inv s \<Longrightarrow> avail s = {} \<Longrightarrow> al s = (null, s)"
    and fr_page: "inv s \<Longrightarrow> p \<in> pages s - avail s \<Longrightarrow> fr p s = (e, s') \<Longrightarrow>
      e = ok \<and> avail s' = insert p (avail s) \<and> pages s' = pages s \<and> inv s'"
    and fr_other: "inv s \<Longrightarrow> p \<notin> pages s - avail s \<Longrightarrow> fr p s = (e, s') \<Longrightarrow> e \<noteq> ok \<and> s' = s"
begin

lemma al_null_iff: "inv s \<Longrightarrow> fst (al s) = null \<longleftrightarrow> avail s = {}"
  using al_page [of s "fst (al s)" "snd (al s)"] al_empty [of s] avail_pages null_not_page
  by (cases "avail s = {}") auto

lemma alloc_seq_pages:
  "inv s \<Longrightarrow> k \<le> card (avail s) \<Longrightarrow> alloc_seq al k s = (ps, s') \<Longrightarrow>
   length ps = k \<and> distinct ps \<and> set ps \<subseteq> avail s \<and> avail s' = avail s - set ps \<and>
   pages s' = pages s \<and> inv s'"
proof (induction k arbitrary: s ps)
  case (Suc k)
  obtain p s1 where p: "al s = (p, s1)" by fastforce
  obtain qs where qs: "alloc_seq al k s1 = (qs, s')" "ps = p # qs"
    using Suc.prems(3) p by (auto split: prod.splits)
  have ne: "avail s \<noteq> {}" using Suc.prems(2) by auto
  note step = al_page [OF Suc.prems(1) ne p]
  have "k \<le> card (avail s1)"
    using Suc.prems step finite_avail by (simp add: card_Diff_singleton)
  with Suc.IH [OF _ _ qs(1)] step qs(2) show ?case by auto
qed simp

lemma free_seq_pages:
  "inv s \<Longrightarrow> distinct ps \<Longrightarrow> set ps \<subseteq> pages s - avail s \<Longrightarrow> free_seq fr ps s = (es, s') \<Longrightarrow>
   set es \<subseteq> {ok} \<and> avail s' = avail s \<union> set ps \<and> pages s' = pages s \<and> inv s'"
proof (induction ps arbitrary: s es)
  case (Cons p ps)
  obtain e s1 where e: "fr p s = (e, s1)" by fastforce
  obtain fs where fs: "free_seq fr ps s1 = (fs, s')" "es = e # fs"
    using Cons.prems(4) e by (auto split: prod.splits)
  have "p \<in> pages s - avail s" using Cons.prems(3) by simp
  note step = fr_page [OF Cons.prems(1) this e]
  have "set ps \<subseteq> pages s1 - avail s1" using step Cons.prems(2,3) by auto
  with Cons.IH [OF _ _ _ fs(1)] step Cons.prems(2) fs(2) show ?case by auto
qed simp

text \<open>Taking pages and giving them back, in any order, restores what is available.\<close>

lemma alloc_free_seq:
  assumes "inv s" "k \<le> card (avail s)" "alloc_seq al k s = (ps, s')"
    and "distinct qs" "set qs = set ps" "free_seq fr qs s' = (es, s'')"
  shows "set es \<subseteq> {ok} \<and> avail s'' = avail s \<and> inv s''"
proof -
  note a = alloc_seq_pages [OF assms(1-3)]
  have "set qs \<subseteq> pages s' - avail s'" using a assms(5) avail_pages [OF assms(1)] by auto
  from free_seq_pages [OF _ assms(4) this assms(6)] a assms(5) show ?thesis by auto
qed

lemma double_free:
  assumes "inv s" "fr p s = (ok, s')" shows "fst (fr p s') \<noteq> ok \<and> snd (fr p s') = s'"
proof -
  have p: "p \<in> pages s - avail s" using fr_other [OF assms(1) _ assms(2)] by blast
  from fr_page [OF assms(1) p assms(2)] have "inv s'" "p \<notin> pages s' - avail s'" by auto
  then show ?thesis by (metis fr_other prod.collapse)
qed

end

end
