(* ===== verification/Leg_Pmm.thy ===== *)
theory Leg_Pmm
  imports Leg_Bitmap Leg_Page_Interface
begin

text \<open>
  The physical page allocator of \<^verbatim>\<open>src/kernel/mem/alloc.c\<close>: translation between page indices and
  physical addresses, reservation, allocation of one page, of a contiguous run and of an aligned
  run, freeing, and the statistics. The invariant \<open>pmm_inv\<close> ties the page counter to the bitmap
  and the roving hint to the range of pages. The loops whose 32-bit counters could wrap are
  partial functions.
\<close>

section \<open>Indices and addresses\<close>

definition pa_to_idx :: "phys_mm_t \<Rightarrow> u32 \<Rightarrow> u32" where
  "pa_to_idx p pa = drop_bit PAGE_SHIFT (pa - ram_base p)"

definition idx_to_pa :: "phys_mm_t \<Rightarrow> u32 \<Rightarrow> u32" where
  "idx_to_pa p idx = ram_base p + push_bit PAGE_SHIFT idx"

definition pa_in_range :: "phys_mm_t \<Rightarrow> u32 \<Rightarrow> bool" where
  "pa_in_range p pa \<longleftrightarrow> pa \<ge> ram_base p \<and> pa < ram_end p"

definition pa_aligned :: "u32 \<Rightarrow> bool" where
  "pa_aligned pa \<longleftrightarrow> pa AND (PAGE_SIZE - 1) = 0"

section \<open>Reservation\<close>

partial_function (option) reserve_loop :: "u32 \<Rightarrow> u32 \<Rightarrow> mm_state \<Rightarrow> mm_state option" where
  "reserve_loop pa end_pa s =
     (if pa < end_pa then
        let p = g_pmm s; idx = pa_to_idx p pa
        in reserve_loop (pa + PAGE_SIZE) end_pa
             (if \<not> bm_test (mem s) (bitmap p) idx
              then s\<lparr>mem := bm_set (mem s) (bitmap p) idx,
                     g_pmm := p\<lparr>reserved_pages := reserved_pages p + 1,
                       free_pages := (if free_pages p > 0 then free_pages p - 1 else free_pages p)\<rparr>\<rparr>
              else s)
      else Some s)"

declare reserve_loop.simps [code]

definition reserve_range :: "u32 \<Rightarrow> u32 \<Rightarrow> mm_state \<Rightarrow> mm_state option" where
  "reserve_range base end_pa s =
     (let base1 = align_down base PAGE_SIZE;
          end1 = align_up end_pa PAGE_SIZE;
          base2 = (if base1 < ram_base (g_pmm s) then ram_base (g_pmm s) else base1);
          end2 = (if end1 > ram_end (g_pmm s) then ram_end (g_pmm s) else end1)
      in reserve_loop base2 end2 s)"

section \<open>Allocation\<close>

definition mm_page_alloc :: "mm_state \<Rightarrow> u32 \<times> mm_state" where
  "mm_page_alloc s =
     (let p = g_pmm s in
      if free_pages p = 0 then (0, s)
      else let idx = bm_find_free_run (mem s) (bitmap p) (total_pages p) (next_hint p) 1 in
        if idx = U32_MAX then (0, s)
        else (idx_to_pa p idx,
              s\<lparr>mem := bm_set (mem s) (bitmap p) idx,
                g_pmm := p\<lparr>free_pages := free_pages p - 1,
                          next_hint := (idx + 1) mod total_pages p\<rparr>\<rparr>))"

definition bm_set_run :: "mem \<Rightarrow> u32 \<Rightarrow> u32 \<Rightarrow> u32 \<Rightarrow> mem" where
  "bm_set_run m bm idx n = fold (\<lambda>i m. bm_set m bm (idx + w32 i)) [0..<unat n] m"

definition mm_page_alloc_n :: "u32 \<Rightarrow> mm_state \<Rightarrow> u32 \<times> mm_state" where
  "mm_page_alloc_n n s =
     (let p = g_pmm s in
      if n = 0 then (0, s)
      else if free_pages p < n then (0, s)
      else let idx = bm_find_free_run (mem s) (bitmap p) (total_pages p) (next_hint p) n in
        if idx = U32_MAX then (0, s)
        else (idx_to_pa p idx,
              s\<lparr>mem := bm_set_run (mem s) (bitmap p) idx n,
                g_pmm := p\<lparr>free_pages := free_pages p - n,
                          next_hint := (idx + n) mod total_pages p\<rparr>\<rparr>))"

definition bm_run_ok :: "mem \<Rightarrow> u32 \<Rightarrow> u32 \<Rightarrow> u32 \<Rightarrow> bool" where
  "bm_run_ok m bm idx n = list_all (\<lambda>i. \<not> bm_test m bm (idx + w32 i)) [0..<unat n]"

partial_function (option) aligned_pass ::
  "u32 \<Rightarrow> u32 \<Rightarrow> u32 \<Rightarrow> u32 \<Rightarrow> mm_state \<Rightarrow> (u32 \<times> mm_state) option option" where
  "aligned_pass n align_pages idx end_idx s =
     (if idx + n \<le> end_idx then
        let p = g_pmm s in
        if bm_run_ok (mem s) (bitmap p) idx n
        then Some (Some (idx_to_pa p idx,
               s\<lparr>mem := bm_set_run (mem s) (bitmap p) idx n,
                 g_pmm := p\<lparr>free_pages := free_pages p - n,
                           next_hint := (idx + n) mod total_pages p\<rparr>\<rparr>))
        else aligned_pass n align_pages (idx + align_pages) end_idx s
      else Some None)"

declare aligned_pass.simps [code]

definition mm_page_alloc_aligned :: "u32 \<Rightarrow> u32 \<Rightarrow> mm_state \<Rightarrow> (u32 \<times> mm_state) option" where
  "mm_page_alloc_aligned n align_pages s =
     (let p = g_pmm s in
      if n = 0 \<or> align_pages = 0 then Some (0, s)
      else if free_pages p < n then Some (0, s)
      else let hint_aligned = div_round_up (next_hint p) align_pages * align_pages in
        (case aligned_pass n align_pages hint_aligned (total_pages p) s of
           None \<Rightarrow> None
         | Some (Some r) \<Rightarrow> Some r
         | Some None \<Rightarrow>
             (case aligned_pass n align_pages 0 hint_aligned s of
                None \<Rightarrow> None
              | Some (Some r) \<Rightarrow> Some r
              | Some None \<Rightarrow> Some (0, s))))"

section \<open>Freeing and queries\<close>

definition mm_page_free :: "u32 \<Rightarrow> mm_state \<Rightarrow> mm_err_t \<times> mm_state" where
  "mm_page_free pa s =
     (let p = g_pmm s in
      if \<not> pa_aligned pa then (MM_ERR_ALIGN, s)
      else if \<not> pa_in_range p pa then (MM_ERR_RANGE, s)
      else let idx = pa_to_idx p pa in
        if \<not> bm_test (mem s) (bitmap p) idx then (MM_ERR_FREE, s)
        else (MM_OK,
              s\<lparr>mem := bm_clear (mem s) (bitmap p) idx,
                g_pmm := p\<lparr>free_pages := free_pages p + 1,
                          next_hint := (if idx < next_hint p then idx else next_hint p)\<rparr>\<rparr>))"

fun free_n_loop :: "u32 \<Rightarrow> nat list \<Rightarrow> mm_state \<Rightarrow> bool \<times> mm_state" where
  "free_n_loop pa [] s = (True, s)"
| "free_n_loop pa (i # is) s =
     (let p = g_pmm s; idx = pa_to_idx p (pa + w32 i * PAGE_SIZE) in
      if \<not> bm_test (mem s) (bitmap p) idx then (False, s)
      else free_n_loop pa is
             (s\<lparr>mem := bm_clear (mem s) (bitmap p) idx,
                g_pmm := p\<lparr>free_pages := free_pages p + 1\<rparr>\<rparr>))"

definition mm_page_free_n :: "u32 \<Rightarrow> u32 \<Rightarrow> mm_state \<Rightarrow> mm_err_t \<times> mm_state" where
  "mm_page_free_n pa n s =
     (if \<not> pa_aligned pa then (MM_ERR_ALIGN, s)
      else if \<not> pa_in_range (g_pmm s) pa then (MM_ERR_RANGE, s)
      else (case free_n_loop pa [0..<unat n] s of
              (False, s') \<Rightarrow> (MM_ERR_FREE, s')
            | (True, s') \<Rightarrow>
                let p = g_pmm s'; idx = pa_to_idx p pa in
                (MM_OK, if idx < next_hint p then s'\<lparr>g_pmm := p\<lparr>next_hint := idx\<rparr>\<rparr> else s')))"

definition mm_page_is_allocated :: "u32 \<Rightarrow> mm_state \<Rightarrow> bool" where
  "mm_page_is_allocated pa s =
     (if \<not> pa_aligned pa \<or> \<not> pa_in_range (g_pmm s) pa then False
      else bm_test (mem s) (bitmap (g_pmm s)) (pa_to_idx (g_pmm s) pa))"

definition mm_stats :: "mm_state \<Rightarrow> mm_stats_t" where
  "mm_stats s =
     \<lparr>st_total_pages = total_pages (g_pmm s),
      st_free_pages = free_pages (g_pmm s),
      st_reserved_pages = reserved_pages (g_pmm s),
      st_heap_base = kh_base (g_kheap s),
      st_heap_end = kh_base (g_kheap s) + kh_capacity (g_kheap s),
      st_heap_used = kh_used (g_kheap s)\<rparr>"

section \<open>The invariant\<close>

definition bm_of :: "phys_mm_t \<Rightarrow> bm_desc" where
  "bm_of p = (bitmap p, unat (total_pages p))"

definition free_idx :: "mm_state \<Rightarrow> nat set" where
  "free_idx s = bits.free (mem s) (bm_of (g_pmm s))"

definition pmm_geom :: "phys_mm_t \<Rightarrow> bool" where
  "pmm_geom p \<longleftrightarrow>
     4096 dvd unat (ram_base p) \<and> 4096 dvd unat (ram_end p) \<and> ram_base p < ram_end p \<and>
     unat (total_pages p) = (unat (ram_end p) - unat (ram_base p)) div 4096 \<and> bm_wf (bm_of p)"

definition pmm_inv :: "mm_state \<Rightarrow> bool" where
  "pmm_inv s \<longleftrightarrow>
     pmm_geom (g_pmm s) \<and> unat (free_pages (g_pmm s)) = card (free_idx s) \<and>
     next_hint (g_pmm s) < total_pages (g_pmm s)"

lemma free_idx_iff:
  "i \<in> free_idx s \<longleftrightarrow> i < unat (total_pages (g_pmm s)) \<and> \<not> bm_test (mem s) (bitmap (g_pmm s)) (w32 i)"
  by (simp add: free_idx_def bm_of_def bits.free_def)

lemma pmm_geom_counters [simp]:
  "pmm_geom (p\<lparr>next_hint := h\<rparr>) = pmm_geom p" "pmm_geom (p\<lparr>free_pages := f\<rparr>) = pmm_geom p"
  by (simp_all add: pmm_geom_def bm_of_def)

lemma finite_free_idx [simp]: "finite (free_idx s)"
  by (simp add: free_idx_def)

text \<open>The pages partition the managed range.\<close>

lemma pmm_geom_pages:
  assumes "pmm_geom p"
  shows "unat (ram_base p) + 4096 * unat (total_pages p) = unat (ram_end p)"
    and "0 < unat (total_pages p)" and "unat (total_pages p) < 2 ^ 20"
proof -
  obtain b e where b: "unat (ram_base p) = 4096 * b" and e: "unat (ram_end p) = 4096 * e"
    using assms unfolding pmm_geom_def by (elim conjE dvdE)
  have lt: "b < e" using assms b e by (simp add: pmm_geom_def word_less_nat_alt)
  have tot: "unat (total_pages p) = e - b"
    using assms b e lt by (simp add: pmm_geom_def flip: diff_mult_distrib2)
  show "unat (ram_base p) + 4096 * unat (total_pages p) = unat (ram_end p)"
    using tot lt b e by (simp add: diff_mult_distrib2)
  show "0 < unat (total_pages p)" using tot lt by simp
  show "unat (total_pages p) < 2 ^ 20"
    using tot e unat_lt_32 [of "ram_end p"] by simp
qed

lemma pmm_geom_hint:
  "pmm_geom p \<Longrightarrow> unat (total_pages p) < 2 ^ 32"
  using pmm_geom_pages(3) [of p] by simp

lemma idx_to_pa_w32: "idx_to_pa p (w32 i) = w32 (unat (ram_base p) + 4096 * i)"
  by (simp add: idx_to_pa_def push_bit_eq_mult mult.commute)

lemma unat_idx_to_pa:
  assumes "pmm_geom p" "i < unat (total_pages p)"
  shows "unat (idx_to_pa p (w32 i)) = unat (ram_base p) + 4096 * i"
proof -
  have "unat (ram_base p) + 4096 * i < 2 ^ 32"
    using pmm_geom_pages(1) [OF assms(1)] assms(2) unat_lt_32 [of "ram_end p"] by linarith
  then show ?thesis by (simp only: idx_to_pa_w32 unat_w32)
qed

lemma pa_aligned_iff: "pa_aligned pa \<longleftrightarrow> 4096 dvd unat pa"
proof -
  have "pa AND (PAGE_SIZE - 1) = take_bit 12 pa"
    by (simp add: take_bit_eq_mask mask_eq_exp_minus_1)
  moreover have "unat (take_bit 12 pa) = unat pa mod 4096"
    by (simp add: unsigned_take_bit_eq take_bit_nat_def)
  ultimately show ?thesis
    by (metis pa_aligned_def unat_eq_0 dvd_eq_mod_eq_0)
qed

lemma idx_to_pa_valid:
  assumes "pmm_geom p" "i < unat (total_pages p)"
  shows "pa_aligned (idx_to_pa p (w32 i))" "pa_in_range p (idx_to_pa p (w32 i))"
    "pa_to_idx p (idx_to_pa p (w32 i)) = w32 i"
proof -
  note u = unat_idx_to_pa [OF assms]
  show "pa_aligned (idx_to_pa p (w32 i))"
    using assms(1) unfolding pa_aligned_iff u by (simp add: pmm_geom_def)
  show "pa_in_range p (idx_to_pa p (w32 i))"
    unfolding pa_in_range_def word_le_nat_alt word_less_nat_alt u
    using pmm_geom_pages(1) [OF assms(1)] assms(2) by linarith
  have "i < 2 ^ 20" using assms(2) pmm_geom_pages(3) [OF assms(1)] by linarith
  moreover have "push_bit 12 (w32 i) = w32 (4096 * i)"
    by (simp add: push_bit_eq_mult mult.commute)
  moreover have "4096 * i < 2 ^ 32" using \<open>i < 2 ^ 20\<close> by simp
  ultimately have "unat (push_bit 12 (w32 i)) = 4096 * i"
    by (simp only: unat_w32)
  then have "unat (drop_bit 12 (push_bit 12 (w32 i))) = i"
    by (simp only: unat_drop_bit_eq) (simp add: drop_bit_eq_div)
  then have "drop_bit 12 (push_bit 12 (w32 i)) = w32 i"
    by (metis w32_unat)
  then show "pa_to_idx p (idx_to_pa p (w32 i)) = w32 i"
    by (simp add: pa_to_idx_def idx_to_pa_def)
qed

lemma pa_to_idx_valid:
  assumes "pmm_geom p" "pa_aligned pa" "pa_in_range p pa"
  obtains i where "i < unat (total_pages p)" "pa = idx_to_pa p (w32 i)" "pa_to_idx p pa = w32 i"
proof -
  obtain b k where b: "unat (ram_base p) = 4096 * b" and k: "unat pa = 4096 * k"
    using assms(1,2) unfolding pmm_geom_def pa_aligned_iff by (elim conjE dvdE)
  have ge: "unat (ram_base p) \<le> unat pa" and lt: "unat pa < unat (ram_end p)"
    using assms(3) by (auto simp: pa_in_range_def word_le_nat_alt word_less_nat_alt)
  let ?i = "k - b"
  have i: "?i < unat (total_pages p)"
    using pmm_geom_pages(1) [OF assms(1)] ge lt b k by linarith
  have "unat (idx_to_pa p (w32 ?i)) = unat pa"
    unfolding unat_idx_to_pa [OF assms(1) i] using ge b k by simp
  then have "pa = idx_to_pa p (w32 ?i)" by (simp only: word_unat_eq_iff)
  then show ?thesis
    using that [OF i] idx_to_pa_valid(3) [OF assms(1) i] by simp
qed


section \<open>Allocation of a run\<close>

lemma bm_set_run_fold:
  assumes "n < 2 ^ 32"
  shows "bm_set_run m bm (w32 r) (w32 n) = fold (\<lambda>i m. bm_st m (bm, tot) i) [r..<r + n] m"
proof -
  have "[r..<r + n] = map (\<lambda>i. r + i) [0..<n]"
    by (induction n) auto
  then show ?thesis
    using assms by (simp add: bm_set_run_def fold_map comp_def unat_w32)
qed

lemma bits_free_run:
  assumes "bm_wf (bm, tot)" "n < 2 ^ 32" "r + n \<le> tot"
  shows "bits.free (bm_set_run m bm (w32 r) (w32 n)) (bm, tot) = bits.free m (bm, tot) - {r..<r + n}"
  unfolding bm_set_run_fold [OF assms(2), of m bm r tot]
  by (subst bits.free_st_list) (use assms in auto)

lemma run_free_subset:
  "run_free m bm r n \<Longrightarrow> r + n \<le> tot \<Longrightarrow> {r..<r + n} \<subseteq> bits.free m (bm, tot)"
proof
  fix i assume run: "run_free m bm r n" and le: "r + n \<le> tot" and i: "i \<in> {r..<r + n}"
  then have "i - r < n" "r + (i - r) = i" by auto
  with run have "\<not> bm_test m bm (w32 i)" unfolding run_free_def by metis
  then show "i \<in> bits.free m (bm, tot)" using le i by (simp add: bits.free_def)
qed

definition take_run :: "nat \<Rightarrow> nat \<Rightarrow> mm_state \<Rightarrow> mm_state" where
  "take_run r n s =
     (let p = g_pmm s in
      s\<lparr>mem := bm_set_run (mem s) (bitmap p) (w32 r) (w32 n),
        g_pmm := p\<lparr>free_pages := free_pages p - w32 n,
                  next_hint := (w32 r + w32 n) mod total_pages p\<rparr>\<rparr>)"

text \<open>Marking a run of free pages keeps the invariant and takes exactly those pages.\<close>

lemma take_run_inv:
  assumes inv: "pmm_inv s" and run: "run_free (mem s) (bitmap (g_pmm s)) r n"
    and le: "r + n \<le> unat (total_pages (g_pmm s))"
  shows "pmm_inv (take_run r n s)" (is ?inv)
    and "free_idx (take_run r n s) = free_idx s - {r..<r + n}" (is ?free)
    and "{r..<r + n} \<subseteq> free_idx s" (is ?sub)
proof -
  let ?p = "g_pmm s"
  have geom: "pmm_geom ?p" using inv by (simp add: pmm_inv_def)
  then have n: "n < 2 ^ 32" using le pmm_geom_hint [of ?p] by linarith
  have wf: "bm_wf (bitmap ?p, unat (total_pages ?p))"
    using geom unfolding pmm_geom_def bm_of_def by blast
  show free: ?free
    using bits_free_run [OF wf n le] by (simp add: free_idx_def take_run_def bm_of_def Let_def)
  show sub: ?sub
    using run_free_subset [OF run le] by (simp add: free_idx_def bm_of_def)
  have "card (free_idx s - {r..<r + n}) = card (free_idx s) - n"
    using sub by (simp add: card_Diff_subset)
  moreover have "n \<le> card (free_idx s)"
    using card_mono [OF finite_free_idx sub] by simp
  ultimately have "unat (free_pages ?p - w32 n) = card (free_idx s - {r..<r + n})"
    using inv n by (simp add: pmm_inv_def unat_sub word_le_nat_alt unat_w32)
  moreover have "(w32 r + w32 n) mod total_pages ?p < total_pages ?p"
    using pmm_geom_pages(2) [OF geom] by (simp add: word_less_nat_alt unat_mod_distrib)
  ultimately show ?inv
    unfolding pmm_inv_def free using geom by (simp add: take_run_def Let_def)
qed

text \<open>The three ways in which the allocation of a run can end.\<close>

lemma mm_page_alloc_n_cases:
  assumes inv: "pmm_inv s" and n: "n \<noteq> 0"
  obtains (short) "mm_page_alloc_n n s = (0, s)" "free_pages (g_pmm s) < n"
  | (no_run) "mm_page_alloc_n n s = (0, s)" "n \<le> free_pages (g_pmm s)"
      "no_run (mem s) (bitmap (g_pmm s)) (unat n) (unat (next_hint (g_pmm s))) (unat (total_pages (g_pmm s)))"
      "no_run (mem s) (bitmap (g_pmm s)) (unat n) 0 (unat (next_hint (g_pmm s)))"
  | (run) r where
      "mm_page_alloc_n n s = (idx_to_pa (g_pmm s) (w32 r), take_run r (unat n) s)"
      "run_free (mem s) (bitmap (g_pmm s)) r (unat n)" "r + unat n \<le> unat (total_pages (g_pmm s))"
proof (cases "free_pages (g_pmm s) < n")
  case True
  then show ?thesis using short n by (simp add: mm_page_alloc_n_def Let_def)
next
  case False
  let ?p = "g_pmm s" let ?t = "unat (total_pages ?p)" let ?h = "unat (next_hint ?p)"
  have geom: "pmm_geom ?p" and h: "?h \<le> ?t"
    using inv by (auto simp: pmm_inv_def word_less_nat_alt)
  have t: "?t < 2 ^ 32" by (rule pmm_geom_hint [OF geom])
  have pos: "0 < unat n" using n by (simp add: unat_gt_0)
  note alloc = mm_page_alloc_n_def [of n s] and eqs = n False
  show ?thesis
    using t unat_lt_32 [of n] pos h
  proof (cases rule: bm_find_free_run_cases [of ?t "unat n" ?h "mem s" "bitmap ?p"])
    case (found r)
    then have "w32 r \<noteq> U32_MAX" using first_run_not_max t pos by blast
    then show ?thesis
      using found eqs by (intro run [of r]) (auto simp: alloc Let_def take_run_def first_run_def)
  next
    case (wrapped r)
    then have "w32 r \<noteq> U32_MAX" using first_run_not_max [OF wrapped(3)] t h pos by linarith
    then show ?thesis
      using wrapped eqs h
      by (intro run [of r]) (auto simp: alloc Let_def take_run_def first_run_def)
  next
    case none
    then show ?thesis using no_run eqs by (simp add: alloc Let_def not_less)
  qed
qed

lemma mm_page_alloc_eq_alloc_n: "mm_page_alloc s = mm_page_alloc_n 1 s"
proof -
  have "x < 1 \<longleftrightarrow> x = 0" for x :: u32
    by (metis word_less_1)
  then show ?thesis
    by (simp add: mm_page_alloc_def mm_page_alloc_n_def bm_set_run_def Let_def)
qed


text \<open>The page allocator writes only its bitmap and its own struct.\<close>

definition pmm_frame :: "mm_state \<Rightarrow> mm_state \<Rightarrow> bool" where
  "pmm_frame s s' \<longleftrightarrow>
     g_kheap s' = g_kheap s \<and> ram_base (g_pmm s') = ram_base (g_pmm s) \<and>
     ram_end (g_pmm s') = ram_end (g_pmm s) \<and> bm_of (g_pmm s') = bm_of (g_pmm s) \<and>
     (\<forall>a. \<not> bm_bytes (bm_of (g_pmm s)) a \<longrightarrow> mem s' a = mem s a)"

lemma pmm_frame_refl [simp]: "pmm_frame s s"
  by (simp add: pmm_frame_def)

lemma pmm_frame_trans: "pmm_frame s s' \<Longrightarrow> pmm_frame s' s'' \<Longrightarrow> pmm_frame s s''"
  by (simp add: pmm_frame_def)

lemma bm_st_fold_frame:
  assumes "bm_wf (bm, n)" "\<not> bm_bytes (bm, n) a"
  shows "\<forall>i \<in> set is. i < n \<Longrightarrow> fold (\<lambda>i m. bm_st m (bm, n) i) is m a = m a"
  by (induction "is" arbitrary: m) (auto simp: bm_write_frame [OF assms(1) _ assms(2)])

lemma take_run_frame:
  assumes "pmm_inv s" "r + n \<le> unat (total_pages (g_pmm s))"
  shows "pmm_frame s (take_run r n s)"
proof -
  have geom: "pmm_geom (g_pmm s)" using assms(1) by (simp add: pmm_inv_def)
  have n: "n < 2 ^ 32" using assms(2) pmm_geom_hint [OF geom] by linarith
  have wf: "bm_wf (bitmap (g_pmm s), unat (total_pages (g_pmm s)))"
    using geom unfolding pmm_geom_def bm_of_def by blast
  have "mem (take_run r n s) a = mem s a" if "\<not> bm_bytes (bm_of (g_pmm s)) a" for a
    using bm_st_fold_frame [OF wf, of a "[r..<r + n]" "mem s"] that assms(2)
    by (simp add: take_run_def Let_def bm_of_def
        bm_set_run_fold [OF n, of _ _ _ "unat (total_pages (g_pmm s))"])
  then show ?thesis by (simp add: pmm_frame_def take_run_def Let_def bm_of_def)
qed

section \<open>Freeing\<close>

definition clear_page :: "nat \<Rightarrow> mm_state \<Rightarrow> mm_state" where
  "clear_page i s =
     s\<lparr>mem := bm_clear (mem s) (bitmap (g_pmm s)) (w32 i),
       g_pmm := (g_pmm s)\<lparr>free_pages := free_pages (g_pmm s) + 1\<rparr>\<rparr>"

definition lower_hint :: "nat \<Rightarrow> mm_state \<Rightarrow> mm_state" where
  "lower_hint i s =
     s\<lparr>g_pmm := (g_pmm s)\<lparr>next_hint :=
        (if w32 i < next_hint (g_pmm s) then w32 i else next_hint (g_pmm s))\<rparr>\<rparr>"

abbreviation put_page :: "nat \<Rightarrow> mm_state \<Rightarrow> mm_state" where
  "put_page i s \<equiv> lower_hint i (clear_page i s)"

lemma lower_hint_inv:
  shows "pmm_inv s \<Longrightarrow> pmm_inv (lower_hint i s)" "free_idx (lower_hint i s) = free_idx s"
    "pmm_frame s' s \<Longrightarrow> pmm_frame s' (lower_hint i s)"
proof -
  show free: "free_idx (lower_hint i s) = free_idx s"
    by (simp add: free_idx_def lower_hint_def bm_of_def)
  show "pmm_inv s \<Longrightarrow> pmm_inv (lower_hint i s)"
    unfolding pmm_inv_def free by (auto simp: lower_hint_def)
  show "pmm_frame s' s \<Longrightarrow> pmm_frame s' (lower_hint i s)"
    by (simp add: pmm_frame_def lower_hint_def bm_of_def)
qed

lemma clear_page_inv:
  assumes inv: "pmm_inv s" and i: "i < unat (total_pages (g_pmm s))" "i \<notin> free_idx s"
  shows "pmm_inv (clear_page i s)" (is ?inv)
    and "free_idx (clear_page i s) = insert i (free_idx s)" (is ?free)
    and "pmm_frame s (clear_page i s)" (is ?frame)
proof -
  let ?p = "g_pmm s"
  have geom: "pmm_geom ?p" using inv by (simp add: pmm_inv_def)
  have wf: "bm_wf (bitmap ?p, unat (total_pages ?p))"
    using geom unfolding pmm_geom_def bm_of_def by blast
  have "bits.free (bm_clear (mem s) (bitmap ?p) (w32 i)) (bm_of ?p)
      = insert i (bits.free (mem s) (bm_of ?p))"
    using bits.free_cl [OF wf, of i "mem s"] i(1) by (simp add: bm_of_def)
  then show free: ?free
    by (simp add: free_idx_def clear_page_def bm_of_def)
  have "insert i (free_idx s) \<subseteq> {..<unat (total_pages ?p)}"
    using i(1) by (auto simp: free_idx_iff)
  then have "card (insert i (free_idx s)) \<le> unat (total_pages ?p)"
    using card_mono [of "{..<unat (total_pages ?p)}"] by simp
  then have "Suc (unat (free_pages ?p)) < 2 ^ 32"
    using inv i(2) pmm_geom_pages(3) [OF geom] by (simp add: pmm_inv_def)
  then have "unat (free_pages ?p + 1) = card (insert i (free_idx s))"
    using inv i(2) unat_add_no_wrap [of "free_pages ?p" 1] by (simp add: pmm_inv_def)
  then show ?inv
    unfolding pmm_inv_def free using geom inv by (simp add: clear_page_def pmm_inv_def)
  show ?frame
    using bm_write_frame(2) [OF wf i(1)] by (simp add: pmm_frame_def clear_page_def bm_of_def)
qed

lemmas put_page_inv =
  lower_hint_inv(1) [OF clear_page_inv(1)]
  trans [OF lower_hint_inv(2) clear_page_inv(2)]
  lower_hint_inv(3) [OF clear_page_inv(3)]

text \<open>The four branches of \<open>mm_page_free\<close>.\<close>

lemma mm_page_free_cases:
  assumes "pmm_inv s"
  obtains (misaligned) "\<not> pa_aligned pa" "mm_page_free pa s = (MM_ERR_ALIGN, s)"
  | (outside) "pa_aligned pa" "\<not> pa_in_range (g_pmm s) pa" "mm_page_free pa s = (MM_ERR_RANGE, s)"
  | (double) i where "i \<in> free_idx s" "pa = idx_to_pa (g_pmm s) (w32 i)"
      "mm_page_free pa s = (MM_ERR_FREE, s)"
  | (freed) i where "i < unat (total_pages (g_pmm s))" "i \<notin> free_idx s"
      "pa = idx_to_pa (g_pmm s) (w32 i)" "mm_page_free pa s = (MM_OK, put_page i s)"
proof (cases "pa_aligned pa \<and> pa_in_range (g_pmm s) pa")
  case True
  have "pmm_geom (g_pmm s)" using assms by (simp add: pmm_inv_def)
  then obtain i where i: "i < unat (total_pages (g_pmm s))" "pa = idx_to_pa (g_pmm s) (w32 i)"
      "pa_to_idx (g_pmm s) pa = w32 i"
    using pa_to_idx_valid True by blast
  show ?thesis
  proof (cases "i \<in> free_idx s")
    case True2: True
    then show ?thesis
      using True i by (intro double [of i]) (auto simp: mm_page_free_def Let_def free_idx_iff)
  next
    case False
    then show ?thesis
      using True i by (intro freed [of i]) (auto simp: mm_page_free_def lower_hint_def clear_page_def Let_def free_idx_iff)
  qed
qed (use misaligned outside in \<open>auto simp: mm_page_free_def Let_def\<close>)


section \<open>The allocator keeps the contract\<close>

text \<open>
  Pages by their physical address. The address 0 reports a failed allocation, so the contract
  needs RAM that does not start at address 0 (on the \<^verbatim>\<open>virt\<close> board it starts at
  \<^verbatim>\<open>0x40000000\<close>).
\<close>

definition pmm_ok :: "mm_state \<Rightarrow> bool" where
  "pmm_ok s \<longleftrightarrow> pmm_inv s \<and> ram_base (g_pmm s) \<noteq> 0"

definition managed :: "mm_state \<Rightarrow> u32 set" where
  "managed s = {pa. pa_aligned pa \<and> pa_in_range (g_pmm s) pa}"

definition avail :: "mm_state \<Rightarrow> u32 set" where
  "avail s = {pa \<in> managed s. \<not> mm_page_is_allocated pa s}"

lemma pa_index:
  assumes "pmm_geom (g_pmm s)" "pa \<in> managed s"
  obtains i where "i < unat (total_pages (g_pmm s))" "pa = idx_to_pa (g_pmm s) (w32 i)"
    "pa_to_idx (g_pmm s) pa = w32 i" "pa \<in> avail s \<longleftrightarrow> i \<in> free_idx s"
proof -
  have "pa_aligned pa" "pa_in_range (g_pmm s) pa" using assms(2) by (auto simp: managed_def)
  then obtain i where "i < unat (total_pages (g_pmm s))" "pa = idx_to_pa (g_pmm s) (w32 i)"
      "pa_to_idx (g_pmm s) pa = w32 i"
    by (rule pa_to_idx_valid [OF assms(1)])
  then show ?thesis
    using assms(2)
    by (intro that [of i]) (auto simp: avail_def managed_def mm_page_is_allocated_def free_idx_iff)
qed

lemma avail_iff:
  assumes "pmm_geom (g_pmm s)" "i < unat (total_pages (g_pmm s))"
  shows "idx_to_pa (g_pmm s) (w32 i) \<in> avail s \<longleftrightarrow> i \<in> free_idx s"
    and "idx_to_pa (g_pmm s) (w32 i) \<in> managed s"
  using idx_to_pa_valid [OF assms] assms(2)
  by (auto simp: avail_def managed_def mm_page_is_allocated_def free_idx_iff)

lemma avail_image:
  assumes "pmm_geom (g_pmm s)"
  shows "avail s = (\<lambda>i. idx_to_pa (g_pmm s) (w32 i)) ` free_idx s"
proof (intro equalityI subsetI)
  fix pa assume pa: "pa \<in> avail s"
  then have "pa \<in> managed s" by (simp add: avail_def)
  then show "pa \<in> (\<lambda>i. idx_to_pa (g_pmm s) (w32 i)) ` free_idx s"
    by (rule pa_index [OF assms]) (use pa in auto)
next
  fix pa assume "pa \<in> (\<lambda>i. idx_to_pa (g_pmm s) (w32 i)) ` free_idx s"
  then show "pa \<in> avail s" using avail_iff [OF assms] by (auto simp: free_idx_iff)
qed

lemma idx_to_pa_inj:
  assumes "pmm_geom p"
  shows "inj_on (\<lambda>i. idx_to_pa p (w32 i)) {..<unat (total_pages p)}"
proof (rule inj_onI)
  fix i j
  assume ij: "i \<in> {..<unat (total_pages p)}" "j \<in> {..<unat (total_pages p)}"
    and eq: "idx_to_pa p (w32 i) = idx_to_pa p (w32 j)"
  have "unat (ram_base p) + 4096 * i = unat (ram_base p) + 4096 * j"
    using unat_idx_to_pa [OF assms] ij eq by (metis lessThan_iff)
  then show "i = j" by simp
qed

lemma card_avail:
  assumes "pmm_inv s" shows "card (avail s) = unat (free_pages (g_pmm s))"
proof -
  have geom: "pmm_geom (g_pmm s)" using assms by (simp add: pmm_inv_def)
  have "free_idx s \<subseteq> {..<unat (total_pages (g_pmm s))}" by (auto simp: free_idx_iff)
  then have "inj_on (\<lambda>i. idx_to_pa (g_pmm s) (w32 i)) (free_idx s)"
    using idx_to_pa_inj [OF geom] inj_on_subset by blast
  then show ?thesis
    using assms by (simp add: avail_image [OF geom] card_image pmm_inv_def)
qed

lemma pmm_frame_managed: "pmm_frame s s' \<Longrightarrow> managed s' = managed s"
  by (simp add: pmm_frame_def managed_def pa_in_range_def)

lemma pmm_frame_idx_to_pa: "pmm_frame s s' \<Longrightarrow> idx_to_pa (g_pmm s') = idx_to_pa (g_pmm s)"
  by (simp add: fun_eq_iff pmm_frame_def idx_to_pa_def)

text \<open>The available addresses after a change of the set of free indices.\<close>

lemma avail_change:
  assumes "pmm_inv s" "pmm_inv s'" "pmm_frame s s'"
  shows "avail s' = (\<lambda>i. idx_to_pa (g_pmm s) (w32 i)) ` free_idx s'"
  using assms avail_image [of s'] pmm_frame_idx_to_pa [of s s'] by (simp add: pmm_inv_def)

lemma avail_remove:
  assumes inv: "pmm_inv s" "pmm_inv s'" "pmm_frame s s'"
    and I: "free_idx s' = free_idx s - I" "I \<subseteq> free_idx s"
  shows "avail s' = avail s - (\<lambda>i. idx_to_pa (g_pmm s) (w32 i)) ` I"
proof -
  have geom: "pmm_geom (g_pmm s)" using inv(1) by (simp add: pmm_inv_def)
  have "free_idx s \<subseteq> {..<unat (total_pages (g_pmm s))}" by (auto simp: free_idx_iff)
  then show ?thesis
    unfolding avail_change [OF inv] I(1) avail_image [OF geom]
    using inj_on_image_set_diff [OF idx_to_pa_inj [OF geom], of "free_idx s" I] I(2) by blast
qed


lemma no_run_1_empty:
  assumes "no_run (mem s) (bitmap (g_pmm s)) 1 h (unat (total_pages (g_pmm s)))"
    "no_run (mem s) (bitmap (g_pmm s)) 1 0 h"
  shows "free_idx s = {}"
proof -
  have "bm_test (mem s) (bitmap (g_pmm s)) (w32 i)" if "i < unat (total_pages (g_pmm s))" for i
    using assms that by (cases "i < h") (auto simp: no_run_def run_free_def)
  then show ?thesis by (auto simp: free_idx_iff)
qed

lemma managed_not_0: "pmm_ok s \<Longrightarrow> 0 \<notin> managed s"
  by (auto simp: pmm_ok_def managed_def pa_in_range_def word_le_nat_alt unat_eq_0)

lemma pmm_frame_ok: "pmm_ok s \<Longrightarrow> pmm_frame s s' \<Longrightarrow> pmm_inv s' \<Longrightarrow> pmm_ok s'"
  by (simp add: pmm_ok_def pmm_frame_def)

lemma mm_page_alloc_page:
  assumes ok: "pmm_ok s" and ne: "avail s \<noteq> {}" and alloc: "mm_page_alloc s = (p, s')"
  shows "p \<in> avail s \<and> avail s' = avail s - {p} \<and> managed s' = managed s \<and> pmm_ok s'"
    and "pmm_frame s s'"
proof -
  have inv: "pmm_inv s" using ok by (simp add: pmm_ok_def)
  then have geom: "pmm_geom (g_pmm s)" by (simp add: pmm_inv_def)
  have fne: "free_idx s \<noteq> {}" using ne avail_image [OF geom] by auto
  have "(p \<in> avail s \<and> avail s' = avail s - {p} \<and> managed s' = managed s \<and> pmm_ok s') \<and> pmm_frame s s'"
    using inv one_neq_zero
  proof (cases rule: mm_page_alloc_n_cases)
    case short
    then have "free_pages (g_pmm s) = 0" by (metis word_less_1)
    then show ?thesis using inv fne by (simp add: pmm_inv_def)
  next
    case no_run
    then have "free_idx s = {}" by (intro no_run_1_empty) simp_all
    then show ?thesis using fne by simp
  next
    case (run r)
    have res: "p = idx_to_pa (g_pmm s) (w32 r)" "s' = take_run r 1 s"
      using run(1) alloc by (auto simp: mm_page_alloc_eq_alloc_n)
    have r: "r < unat (total_pages (g_pmm s))" using run(3) by simp
    have le: "r + 1 \<le> unat (total_pages (g_pmm s))" using r by simp
    have rf: "run_free (mem s) (bitmap (g_pmm s)) r 1" using run(2) by simp
    note t = take_run_inv [OF inv rf le, folded res(2)]
      and fr = take_run_frame [OF inv le, folded res(2)]
    have "avail s' = avail s - {p}"
      using avail_remove [OF inv t(1) fr t(2,3)] res(1) by simp
    moreover have "p \<in> avail s" using avail_iff(1) [OF geom r] t(3) res(1) by simp
    ultimately show ?thesis
      using fr pmm_frame_managed [OF fr] pmm_frame_ok [OF ok fr t(1)] by simp
  qed
  then show "p \<in> avail s \<and> avail s' = avail s - {p} \<and> managed s' = managed s \<and> pmm_ok s'"
    "pmm_frame s s'" by auto
qed

lemma mm_page_alloc_empty:
  assumes "pmm_inv s" "avail s = {}" shows "mm_page_alloc s = (0, s)"
proof -
  have "unat (free_pages (g_pmm s)) = 0" using card_avail [OF assms(1)] assms(2) by simp
  then have "free_pages (g_pmm s) = 0" by (simp add: unat_eq_0)
  then show ?thesis by (simp add: mm_page_alloc_def)
qed

lemma mm_page_free_page:
  assumes ok: "pmm_ok s" and p: "p \<in> managed s - avail s" and free: "mm_page_free p s = (e, s')"
  shows "e = MM_OK \<and> avail s' = insert p (avail s) \<and> managed s' = managed s \<and> pmm_ok s'"
    and "pmm_frame s s'"
proof -
  have inv: "pmm_inv s" using ok by (simp add: pmm_ok_def)
  then have geom: "pmm_geom (g_pmm s)" by (simp add: pmm_inv_def)
  have p': "pa_aligned p" "pa_in_range (g_pmm s) p" using p by (auto simp: managed_def)
  have "(e = MM_OK \<and> avail s' = insert p (avail s) \<and> managed s' = managed s \<and> pmm_ok s') \<and> pmm_frame s s'"
    using inv
  proof (cases rule: mm_page_free_cases [of s p])
    case (double i)
    then show ?thesis using p avail_iff(1) [OF geom, of i] by (auto simp: free_idx_iff)
  next
    case (freed i)
    note put = put_page_inv [OF inv freed(1,2)]
    have res: "e = MM_OK" "s' = put_page i s" using freed(4) free by auto
    have "avail s' = insert p (avail s)"
      unfolding res(2) avail_change [OF inv put(1,3)] put(2) avail_image [OF geom] freed(3) by simp
    then show ?thesis
      using res put(3) pmm_frame_managed [OF put(3)] pmm_frame_ok [OF ok put(3,1)] by simp
  qed (use p' in simp_all)
  then show "e = MM_OK \<and> avail s' = insert p (avail s) \<and> managed s' = managed s \<and> pmm_ok s'"
    "pmm_frame s s'" by auto
qed

lemma mm_page_free_other:
  assumes "pmm_inv s" "p \<notin> managed s - avail s" "mm_page_free p s = (e, s')"
  shows "e \<noteq> MM_OK \<and> s' = s"
  using assms(1)
proof (cases rule: mm_page_free_cases [of s p])
  case (freed i)
  have "pmm_geom (g_pmm s)" using assms(1) by (simp add: pmm_inv_def)
  from avail_iff [OF this freed(1)] freed assms(2) show ?thesis by simp
qed (use assms in auto)

interpretation pmm: page_allocator pmm_ok managed avail "0 :: u32" mm_page_alloc mm_page_free MM_OK
proof
  fix s assume ok: "pmm_ok s"
  then have geom: "pmm_geom (g_pmm s)" by (simp add: pmm_ok_def pmm_inv_def)
  show "finite (avail s)" using avail_image [OF geom] by simp
  show "avail s \<subseteq> managed s" by (auto simp: avail_def)
  show "0 \<notin> managed s" using managed_not_0 [OF ok] .
  show "mm_page_alloc s = (0, s)" if "avail s = {}"
    using mm_page_alloc_empty that ok by (simp add: pmm_ok_def)
  show "p \<in> avail s \<and> avail s' = avail s - {p} \<and> managed s' = managed s \<and> pmm_ok s'"
    if "avail s \<noteq> {}" "mm_page_alloc s = (p, s')" for p s'
    by (rule mm_page_alloc_page(1) [OF ok that])
  show "e = MM_OK \<and> avail s' = insert p (avail s) \<and> managed s' = managed s \<and> pmm_ok s'"
    if "p \<in> managed s - avail s" "mm_page_free p s = (e, s')" for p e s'
    by (rule mm_page_free_page(1) [OF ok that])
  show "e \<noteq> MM_OK \<and> s' = s"
    if "p \<notin> managed s - avail s" "mm_page_free p s = (e, s')" for p e s'
    using mm_page_free_other [OF _ that] ok by (simp add: pmm_ok_def)
qed

end
