(* ===== verification/Leg_Pmm_Runs.thy ===== *)
theory Leg_Pmm_Runs
  imports Leg_Pmm
begin

text \<open>
  Runs of pages in the allocator of \<^verbatim>\<open>src/kernel/mem/alloc.c\<close>: the release of a run
  (\<open>mm_page_free_n\<close>), and the search for an aligned run (\<open>mm_page_alloc_aligned\<close>), whose two
  passes are shown to end and to find every aligned candidate.
\<close>

section \<open>Releasing a run\<close>

lemma pa_to_idx_run:
  assumes "pmm_geom p" "r + n \<le> unat (total_pages p)" "i < n"
  shows "pa_to_idx p (idx_to_pa p (w32 r) + w32 i * 4096) = w32 (r + i)"
proof -
  have "idx_to_pa p (w32 r) + w32 i * 4096 = idx_to_pa p (w32 (r + i))"
    unfolding idx_to_pa_w32 by (simp add: algebra_simps)
  moreover have "r + i < unat (total_pages p)" using assms(2,3) by simp
  ultimately show ?thesis using idx_to_pa_valid(3) [OF assms(1)] by metis
qed

lemma free_n_loop_run:
  assumes "pmm_inv s" "r + n \<le> unat (total_pages (g_pmm s))" "pa = idx_to_pa (g_pmm s) (w32 r)"
  shows "k \<le> n \<Longrightarrow> {r + (n - k)..<r + n} \<inter> free_idx s = {} \<Longrightarrow>
    \<exists>s'. free_n_loop pa [n - k..<n] s = (True, s') \<and> pmm_inv s' \<and> pmm_frame s s' \<and>
      free_idx s' = free_idx s \<union> {r + (n - k)..<r + n}"
  using assms
proof (induction k arbitrary: s)
  case (Suc k)
  let ?i = "n - Suc k"
  have i: "?i < n" "Suc ?i = n - k" using Suc.prems(1) by auto
  have upt: "[?i..<n] = ?i # [n - k..<n]" using i upt_conv_Cons [of ?i n] by simp
  have geom: "pmm_geom (g_pmm s)" using Suc.prems(3) by (simp add: pmm_inv_def)
  have lt: "r + ?i < unat (total_pages (g_pmm s))" using Suc.prems(4) i by linarith
  have "r + ?i \<in> {r + ?i..<r + n}" using i(1) by simp
  then have used: "r + ?i \<notin> free_idx s" using Suc.prems(2) by blast
  let ?s = "clear_page (r + ?i) s"
  note cl = clear_page_inv [OF Suc.prems(3) lt used]
  have tot: "total_pages (g_pmm ?s) = total_pages (g_pmm s)" by (simp add: clear_page_def)
  have "{r + (n - k)..<r + n} \<inter> free_idx ?s = {}"
  proof -
    have "{r + (n - k)..<r + n} \<subseteq> {r + ?i..<r + n} - {r + ?i}" using i by auto
    then show ?thesis unfolding cl(2) using Suc.prems(2) by blast
  qed
  moreover have "pa = idx_to_pa (g_pmm ?s) (w32 r)"
    using Suc.prems(5) pmm_frame_idx_to_pa [OF cl(3)] by simp
  ultimately obtain s' where s': "free_n_loop pa [n - k..<n] ?s = (True, s')" "pmm_inv s'"
      "pmm_frame ?s s'" "free_idx s' = free_idx ?s \<union> {r + (n - k)..<r + n}"
    using Suc.IH [of ?s] Suc.prems(1,4) cl(1) tot by auto
  have test: "bm_test (mem s) (bitmap (g_pmm s)) (w32 (r + ?i))"
    using used lt by (simp add: free_idx_iff)
  have "free_n_loop pa [?i..<n] s = (True, s')"
    using s'(1) test pa_to_idx_run [OF geom Suc.prems(4) i(1)] Suc.prems(5)
    unfolding upt by (simp add: clear_page_def Let_def)
  moreover have "free_idx s' = free_idx s \<union> {r + ?i..<r + n}"
    unfolding s'(4) cl(2) using i by auto
  ultimately show ?case using s'(2) pmm_frame_trans [OF cl(3) s'(3)] by blast
qed simp

lemma mm_page_free_n_run:
  assumes inv: "pmm_inv s" and le: "r + unat n \<le> unat (total_pages (g_pmm s))" and n: "n \<noteq> 0"
    and used: "{r..<r + unat n} \<inter> free_idx s = {}"
  obtains s' where "mm_page_free_n (idx_to_pa (g_pmm s) (w32 r)) n s = (MM_OK, s')" "pmm_inv s'"
    "pmm_frame s s'" "free_idx s' = free_idx s \<union> {r..<r + unat n}"
proof -
  let ?pa = "idx_to_pa (g_pmm s) (w32 r)"
  have geom: "pmm_geom (g_pmm s)" using inv by (simp add: pmm_inv_def)
  have r: "r < unat (total_pages (g_pmm s))" using le n by (metis add_leD1 le_neq_implies_less
        add_cancel_right_right le_antisym unat_eq_0 le_add1)
  obtain s1 where s1: "free_n_loop ?pa [0..<unat n] s = (True, s1)" "pmm_inv s1" "pmm_frame s s1"
      "free_idx s1 = free_idx s \<union> {r..<r + unat n}"
    using free_n_loop_run [OF inv le refl, of "unat n"] used by auto
  have "pa_to_idx (g_pmm s1) ?pa = w32 r"
    using idx_to_pa_valid(3) [OF geom r] s1(3) by (simp add: pmm_frame_def pa_to_idx_def)
  then have "mm_page_free_n ?pa n s = (MM_OK, lower_hint r s1)"
    using idx_to_pa_valid(1,2) [OF geom r] s1(1)
    by (auto simp: mm_page_free_n_def lower_hint_def Let_def)
  then show ?thesis
    using that s1 lower_hint_inv by metis
qed


section \<open>The search for an aligned run\<close>

lemma bm_run_ok_iff: "bm_run_ok m bm (w32 i) n \<longleftrightarrow> run_free m bm i (unat n)"
  by (auto simp: bm_run_ok_def run_free_def list_all_iff)

text \<open>What one pass over the candidates \<open>i\<close>, \<open>i + al\<close>, \<open>i + 2 * al\<close>, ... below \<open>e\<close> establishes.\<close>

definition pass_result :: "mm_state \<Rightarrow> nat \<Rightarrow> nat \<Rightarrow> nat \<Rightarrow> nat \<Rightarrow> (u32 \<times> mm_state) option \<Rightarrow> bool" where
  "pass_result s n al i e res \<longleftrightarrow>
     (case res of
        None \<Rightarrow> \<forall>k. i + k * al + n \<le> e \<longrightarrow> \<not> run_free (mem s) (bitmap (g_pmm s)) (i + k * al) n
      | Some r \<Rightarrow> \<exists>k. i + k * al + n \<le> e \<and> run_free (mem s) (bitmap (g_pmm s)) (i + k * al) n \<and>
          r = (idx_to_pa (g_pmm s) (w32 (i + k * al)), take_run (i + k * al) n s))"

lemma pass_result_step:
  assumes "pass_result s n al (i + al) e res" "\<not> run_free (mem s) (bitmap (g_pmm s)) i n"
  shows "pass_result s n al i e res"
proof -
  have step: "i + al + k * al = i + Suc k * al" for k by simp
  show ?thesis
  proof (cases res)
    case None
    have "\<not> run_free (mem s) (bitmap (g_pmm s)) (i + k * al) n" if "i + k * al + n \<le> e" for k
      using assms None that unfolding pass_result_def step by (cases k) auto
    then show ?thesis using None by (simp add: pass_result_def)
  next
    case (Some r)
    then show ?thesis
      using assms(1) unfolding pass_result_def step by (simp only: option.case) blast
  qed
qed

lemma aligned_pass_total:
  assumes al: "al \<noteq> 0" and e: "unat e + unat al < 2 ^ 32"
  shows "i + unat n < 2 ^ 32 \<Longrightarrow>
    \<exists>res. aligned_pass n al (w32 i) e s = Some res \<and> pass_result s (unat n) (unat al) i (unat e) res"
proof (induction "unat e - i" arbitrary: i rule: less_induct)
  case less
  have "unat (w32 i) = i" using less.prems by (simp add: unat_w32)
  then have "unat (w32 i + n) = i + unat n"
    using unat_add_no_wrap [of "w32 i" n] less.prems by simp
  then have guard: "w32 i + n \<le> e \<longleftrightarrow> i + unat n \<le> unat e" by (simp add: word_le_nat_alt)
  note unfold = aligned_pass.simps [of n al "w32 i" e s, unfolded guard bm_run_ok_iff Let_def]
  have pos: "0 < unat al" using al by (simp add: unat_gt_0)
  consider (over) "\<not> i + unat n \<le> unat e"
    | (hit) "i + unat n \<le> unat e" "run_free (mem s) (bitmap (g_pmm s)) i (unat n)"
    | (miss) "i + unat n \<le> unat e" "\<not> run_free (mem s) (bitmap (g_pmm s)) i (unat n)"
    by blast
  then show ?case
  proof cases
    case over
    then show ?thesis using unfold by (auto simp: pass_result_def intro: trans_le_add1)
  next
    case hit
    then show ?thesis
      using unfold by (intro exI [of _ "Some (idx_to_pa (g_pmm s) (w32 i), take_run i (unat n) s)"])
        (auto simp: pass_result_def take_run_def Let_def intro!: exI [of _ "0 :: nat"])
  next
    case miss
    have bound: "i + unat al + unat n < 2 ^ 32" using miss(1) e by linarith
    have "unat n \<noteq> 0" using miss(2) by (auto simp: run_free_def)
    then have "unat e - (i + unat al) < unat e - i" using miss(1) pos by linarith
    from less.hyps [OF this bound] obtain res where
      res: "aligned_pass n al (w32 (i + unat al)) e s = Some res" and
      post: "pass_result s (unat n) (unat al) (i + unat al) (unat e) res"
      by blast
    have "aligned_pass n al (w32 i) e s = Some res"
      unfolding unfold using miss res by simp
    then show ?thesis using pass_result_step [OF post miss(2)] by blast
  qed
qed

lemma hint_aligned_unat:
  assumes "unat h + unat al < 2 ^ 32" "al \<noteq> 0"
  shows "unat (div_round_up h al * al) = (unat h + unat al - 1) div unat al * unat al"
proof -
  have pos: "0 < unat al" using assms(2) by (simp add: unat_gt_0)
  have d: "unat (div_round_up h al) = (unat h + unat al - 1) div unat al"
    using assms by (intro unat_div_round_up) auto
  have "(unat h + unat al - 1) div unat al * unat al \<le> unat h + unat al - 1"
    by simp
  then have "unat (div_round_up h al) * unat al < 2 ^ 32" unfolding d using assms(1) pos by linarith
  then show ?thesis by (simp add: unat_word_ariths d)
qed

lemma two_passes_miss:
  assumes p1: "pass_result s n al h e None" and p2: "pass_result s n al 0 h None"
    and h: "al dvd h" and j: "al dvd j" "j + n \<le> e" "n \<le> al"
  shows "\<not> run_free (mem s) (bitmap (g_pmm s)) j n"
proof (cases "h \<le> j")
  case True
  then obtain k where "j = h + k * al"
    using j(1) h by (metis dvd_diff_nat dvd_def le_add_diff_inverse mult.commute)
  then show ?thesis using p1 j(2) by (simp add: pass_result_def)
next
  case False
  then obtain k where k: "j = k * al" using j(1) by (metis dvd_def mult.commute)
  have "j + al \<le> h" using h j(1) False
    by (metis dvd_imp_le dvd_diff_nat le_diff_conv2 less_imp_le_nat not_le zero_less_diff add.commute)
  then show ?thesis using p2 k j(3) by (simp add: pass_result_def)
qed

lemma mm_page_alloc_aligned_cases:
  assumes inv: "pmm_inv s" and n: "n \<noteq> 0" and al: "al \<noteq> 0"
    and bound: "unat (total_pages (g_pmm s)) + unat al + unat n < 2 ^ 32"
    and hint: "unat (div_round_up (next_hint (g_pmm s)) al * al) \<le> unat (total_pages (g_pmm s))"
  obtains (fail) "mm_page_alloc_aligned n al s = Some (0, s)"
      "free_pages (g_pmm s) < n \<or>
       (\<forall>j. unat al dvd j \<and> j + unat n \<le> unat (total_pages (g_pmm s)) \<and> unat n \<le> unat al \<longrightarrow>
          \<not> run_free (mem s) (bitmap (g_pmm s)) j (unat n))"
  | (run) j where "mm_page_alloc_aligned n al s = Some (idx_to_pa (g_pmm s) (w32 j), take_run j (unat n) s)"
      "unat al dvd j" "j + unat n \<le> unat (total_pages (g_pmm s))"
      "run_free (mem s) (bitmap (g_pmm s)) j (unat n)"
proof (cases "free_pages (g_pmm s) < n")
  case True
  then show ?thesis using fail n al by (simp add: mm_page_alloc_aligned_def Let_def)
next
  case False
  let ?p = "g_pmm s" let ?t = "unat (total_pages ?p)" let ?res = "pass_result s (unat n) (unat al)"
  define h where "h = div_round_up (next_hint ?p) al * al"
  have "unat (next_hint ?p) < ?t" using inv by (simp add: pmm_inv_def word_less_nat_alt)
  then have "unat (next_hint ?p) + unat al < 2 ^ 32" using bound by linarith
  then have hal: "unat al dvd unat h" unfolding h_def using hint_aligned_unat [OF _ al] by simp
  have ht: "unat h \<le> ?t" using hint h_def by simp
  note eq = mm_page_alloc_aligned_def [of n al s, unfolded Let_def, folded h_def]
  obtain r1 where r1: "aligned_pass n al (w32 (unat h)) (total_pages ?p) s = Some r1"
    and p1: "?res (unat h) ?t r1"
    using aligned_pass_total [OF al, of "total_pages ?p" "unat h" n s] ht bound by auto
  obtain r2 where r2: "aligned_pass n al (w32 0) h s = Some r2" and p2: "?res 0 (unat h) r2"
    using aligned_pass_total [OF al, of h 0 n s] ht bound by auto
  consider r where "r1 = Some r" | r where "r1 = None" "r2 = Some r" | "r1 = None" "r2 = None"
    by fastforce
  then show ?thesis
  proof cases
    case 1
    then obtain k where "unat h + k * unat al + unat n \<le> ?t"
        "run_free (mem s) (bitmap ?p) (unat h + k * unat al) (unat n)"
        "r = (idx_to_pa ?p (w32 (unat h + k * unat al)), take_run (unat h + k * unat al) (unat n) s)"
      using p1 by (auto simp only: option.case pass_result_def)
    then show ?thesis
      using eq r1 1 n al False hal by (intro run [of "unat h + k * unat al"]) auto
  next
    case 2
    then obtain k where "0 + k * unat al + unat n \<le> unat h"
        "run_free (mem s) (bitmap ?p) (0 + k * unat al) (unat n)"
        "r = (idx_to_pa ?p (w32 (0 + k * unat al)), take_run (0 + k * unat al) (unat n) s)"
      using p2 by (auto simp only: option.case pass_result_def)
    then show ?thesis
      using eq r1 2 r2 n al False ht by (intro run [of "0 + k * unat al"]) auto
  next
    case 3
    then show ?thesis
      using fail eq r1 r2 n al False two_passes_miss [OF _ _ hal] p1 p2 by auto
  qed
qed

end
