(* ===== verification/Leg_Pmm_Props.thy ===== *)
theory Leg_Pmm_Props
  imports Leg_Pmm_Runs
begin

text \<open>
  The properties of the physical page allocator, stated over physical addresses: which page an
  allocation hands out, what a release does on each of its branches, that a sequence of
  allocations never hands out a page twice, and the corresponding statements for runs. The small
  states at the start are the inputs of the witnesses.
\<close>

section \<open>Runs by address\<close>

definition page_run :: "u32 \<Rightarrow> nat \<Rightarrow> u32 set" where
  "page_run pa n = (\<lambda>i. pa + w32 i * PAGE_SIZE) ` {..<n}"

lemma page_run_idx:
  "page_run (idx_to_pa p (w32 r)) n = (\<lambda>i. idx_to_pa p (w32 i)) ` {r..<r + n}"
proof -
  have "idx_to_pa p (w32 r) + w32 i * 4096 = idx_to_pa p (w32 (r + i))" for i
    unfolding idx_to_pa_w32 by (simp add: algebra_simps)
  then have "page_run (idx_to_pa p (w32 r)) n = (\<lambda>i. idx_to_pa p (w32 i)) ` (\<lambda>i. r + i) ` {..<n}"
    unfolding page_run_def image_image by metis
  then show ?thesis by (simp add: lessThan_atLeast0 add.commute)
qed

lemma take_run_avail:
  assumes ok: "pmm_ok s" and run: "run_free (mem s) (bitmap (g_pmm s)) r n"
    and le: "r + n \<le> unat (total_pages (g_pmm s))"
  shows "page_run (idx_to_pa (g_pmm s) (w32 r)) n \<subseteq> avail s"
    and "avail (take_run r n s) = avail s - page_run (idx_to_pa (g_pmm s) (w32 r)) n"
    and "pmm_ok (take_run r n s)" and "pmm_frame s (take_run r n s)"
proof -
  have inv: "pmm_inv s" using ok by (simp add: pmm_ok_def)
  then have geom: "pmm_geom (g_pmm s)" by (simp add: pmm_inv_def)
  note t = take_run_inv [OF inv run le] and fr = take_run_frame [OF inv le]
  show "page_run (idx_to_pa (g_pmm s) (w32 r)) n \<subseteq> avail s"
    unfolding page_run_idx avail_image [OF geom] using t(3) by blast
  show "avail (take_run r n s) = avail s - page_run (idx_to_pa (g_pmm s) (w32 r)) n"
    unfolding page_run_idx by (rule avail_remove [OF inv t(1) fr t(2,3)])
  show "pmm_ok (take_run r n s)" "pmm_frame s (take_run r n s)"
    using pmm_frame_ok [OF ok fr t(1)] fr by auto
qed

lemma page_run_run_free:
  assumes "pmm_geom (g_pmm s)" "page_run (idx_to_pa (g_pmm s) (w32 r)) n \<subseteq> avail s"
    and "r + n \<le> unat (total_pages (g_pmm s))"
  shows "run_free (mem s) (bitmap (g_pmm s)) r n"
proof -
  have "r + i \<in> free_idx s" if i: "i < n" for i
  proof -
    have "r + i \<in> {r..<r + n}" using i by simp
    then have "idx_to_pa (g_pmm s) (w32 (r + i)) \<in> avail s"
      using assms(2) unfolding page_run_idx by blast
    moreover have "r + i < unat (total_pages (g_pmm s))" using assms(3) i by linarith
    ultimately show ?thesis using avail_iff(1) [OF assms(1)] by blast
  qed
  then show ?thesis unfolding run_free_def free_idx_iff by blast
qed

lemma run_needs_free_pages:
  assumes inv: "pmm_inv s" and "page_run (idx_to_pa (g_pmm s) (w32 r)) n \<subseteq> avail s"
    and le: "r + n \<le> unat (total_pages (g_pmm s))"
  shows "n \<le> unat (free_pages (g_pmm s))"
proof -
  have geom: "pmm_geom (g_pmm s)" using inv by (simp add: pmm_inv_def)
  note sub = take_run_inv(3) [OF inv page_run_run_free [OF geom assms(2) le] le]
  show ?thesis using card_mono [OF finite_free_idx sub] inv by (simp add: pmm_inv_def)
qed

lemma idx_to_pa_not_0:
  assumes "pmm_ok s" "r + n \<le> unat (total_pages (g_pmm s))" "0 < n"
  shows "idx_to_pa (g_pmm s) (w32 r) \<noteq> 0"
proof -
  have "r < unat (total_pages (g_pmm s))" using assms(2,3) by linarith
  then show ?thesis
    using avail_iff(2) [of s r] managed_not_0 [OF assms(1)] assms(1)
    by (auto simp: pmm_ok_def pmm_inv_def)
qed

text \<open>A run of managed pages is a run of indices.\<close>

lemma managed_run_idx:
  assumes ok: "pmm_ok s" and run: "page_run pa n \<subseteq> managed s" and n: "0 < n"
  obtains r where "pa = idx_to_pa (g_pmm s) (w32 r)" "r + n \<le> unat (total_pages (g_pmm s))"
proof -
  let ?p = "g_pmm s" let ?t = "unat (total_pages ?p)"
  have geom: "pmm_geom ?p" using ok by (simp add: pmm_ok_def pmm_inv_def)
  have "pa \<in> page_run pa n" using n by (auto simp: page_run_def intro!: image_eqI [of _ _ 0])
  then have "pa \<in> managed s" using run by blast
  then obtain r where r: "r < ?t" "pa = idx_to_pa ?p (w32 r)" by (rule pa_index [OF geom])
  have "r + n \<le> ?t"
  proof (rule ccontr)
    assume "\<not> r + n \<le> ?t"
    then have mem: "idx_to_pa ?p (w32 ?t) \<in> page_run pa n"
      using r(1) unfolding r(2) page_run_idx by (intro imageI) simp
    have "idx_to_pa ?p (w32 ?t) = ram_end ?p"
      unfolding idx_to_pa_w32 pmm_geom_pages(1) [OF geom] by simp
    then show False using mem run by (auto simp: managed_def pa_in_range_def)
  qed
  with r that show ?thesis by blast
qed

section \<open>Small states\<close>

definition demo_pmm :: "u32 \<Rightarrow> u32 \<Rightarrow> u32 \<Rightarrow> u32 \<Rightarrow> phys_mm_t" where
  "demo_pmm base n free hint =
     \<lparr>ram_base = base, ram_end = base + 4096 * n, total_pages = n, bitmap = 0x1000,
      bitmap_words = 1, free_pages = free, reserved_pages = 0, next_hint = hint\<rparr>"

definition demo_state :: "u32 \<Rightarrow> u32 \<Rightarrow> u32 \<Rightarrow> u32 \<Rightarrow> u32 \<Rightarrow> mm_state" where
  "demo_state base n free hint bits =
     \<lparr>mem = wr32 (\<lambda>_. 0) 0x1000 bits, g_pmm = demo_pmm base n free hint,
      g_kheap = \<lparr>kh_base = 0, kh_capacity = 0, kh_used = 0, free_list = 0\<rparr>\<rparr>"

lemma bm_test_demo:
  "i < 32 \<Longrightarrow> bm_test (wr32 m 0x1000 bits) 0x1000 (w32 i) \<longleftrightarrow> bit bits i"
proof -
  assume i: "i < 32"
  then have "w32 i div 32 = 0" by (simp add: word_unat_eq_iff unat_w32_div_mod)
  then show ?thesis using i by (subst bm_test_bit) simp_all
qed

lemma free_idx_demo:
  "unat n \<le> 32 \<Longrightarrow> free_idx (demo_state base n free hint bits) =
     set (filter (\<lambda>i. \<not> bit bits i) [0..<unat n])"
  using bm_test_demo by (auto simp: free_idx_iff demo_state_def demo_pmm_def)


abbreviation demo4 :: mm_state where
  "demo4 \<equiv> demo_state 0x40000000 4 3 1 0b0100"

lemma demo4_free_idx: "free_idx demo4 = {0, 1, 3}"
  by (subst free_idx_demo) (auto simp: upt_rec)

lemma demo4_ok: "pmm_ok demo4"
proof -
  have "pmm_geom (demo_pmm 0x40000000 4 3 1)"
    by (simp add: pmm_geom_def demo_pmm_def bm_of_def al4_def)
  then show ?thesis
    unfolding pmm_ok_def pmm_inv_def demo4_free_idx by (simp add: demo_state_def demo_pmm_def)
qed

lemma demo4_avail: "avail demo4 = {0x40000000, 0x40001000, 0x40003000}"
proof -
  have "pmm_geom (g_pmm demo4)" using demo4_ok by (simp add: pmm_ok_def pmm_inv_def)
  from avail_image [OF this] show ?thesis
    unfolding demo4_free_idx
    by (simp add: idx_to_pa_def demo_state_def demo_pmm_def push_bit_eq_mult)
qed


section \<open>Single pages\<close>

text \<open>C8: \<open>mm_page_alloc\<close> hands out a page that was available (aligned, inside RAM, not marked),
  takes exactly that page and keeps the allocator's invariant; it returns 0 and changes nothing
  precisely when no page is available; nothing but the bitmap and the struct is written.\<close>

theorem mm_page_alloc_correct:
  assumes "pmm_ok s" "mm_page_alloc s = (pa, s')"
  shows "if avail s = {} then pa = 0 \<and> s' = s
    else pa \<in> avail s \<and> pa \<noteq> 0 \<and> avail s' = avail s - {pa} \<and>
      mm_page_is_allocated pa s' \<and> pmm_ok s' \<and> pmm_frame s s'"
proof (cases "avail s = {}")
  case True
  then show ?thesis using pmm.al_empty [OF assms(1)] assms(2) by simp
next
  case False
  note page = mm_page_alloc_page [OF assms(1) False assms(2)]
  then have "pa \<in> managed s'" "pa \<notin> avail s'" by (auto simp: avail_def)
  then have "mm_page_is_allocated pa s'" by (simp add: avail_def)
  moreover have "pa \<noteq> 0" using page managed_not_0 [OF assms(1)] by (auto simp: avail_def)
  ultimately show ?thesis using page False by simp
qed

theorem mm_page_alloc_correct_witness:
  "pmm_ok demo4 \<and> fst (mm_page_alloc demo4) \<in> {0x40000000, 0x40001000, 0x40003000} \<and>
   pmm_ok (snd (mm_page_alloc demo4))"
  using mm_page_alloc_correct [OF demo4_ok, of "fst (mm_page_alloc demo4)" "snd (mm_page_alloc demo4)"]
    demo4_ok by (simp add: demo4_avail del: One_nat_def)

text \<open>C11: \<open>mm_page_free\<close> reports a misaligned address, an address outside RAM and a page that is
  already free (a double free) with its three error codes and then changes nothing; on any other
  address it makes exactly that page available again and keeps the invariant.\<close>

theorem mm_page_free_correct:
  assumes "pmm_ok s" "mm_page_free pa s = (e, s')"
  shows "if \<not> pa_aligned pa then e = MM_ERR_ALIGN \<and> s' = s
    else if \<not> pa_in_range (g_pmm s) pa then e = MM_ERR_RANGE \<and> s' = s
    else if \<not> mm_page_is_allocated pa s then e = MM_ERR_FREE \<and> s' = s
    else e = MM_OK \<and> avail s' = insert pa (avail s) \<and> pmm_ok s' \<and> pmm_frame s s'"
proof (cases "pa \<in> managed s - avail s")
  case True
  then show ?thesis
    using mm_page_free_page [OF assms(1) True assms(2)] by (auto simp: managed_def avail_def)
next
  case False
  then show ?thesis
    using assms(2)
    by (auto simp: mm_page_free_def mm_page_is_allocated_def managed_def avail_def Let_def
        split: if_splits)
qed

theorem mm_page_free_correct_witness:
  "pmm_ok demo4 \<and> mm_page_free 0x40000001 demo4 = (MM_ERR_ALIGN, demo4)"
proof -
  have "\<not> pa_aligned 0x40000001" by (simp add: pa_aligned_def)
  then show ?thesis
    using mm_page_free_correct [OF demo4_ok, of "0x40000001" "fst (mm_page_free 0x40000001 demo4)"
        "snd (mm_page_free 0x40000001 demo4)"] demo4_ok by (simp add: prod_eq_iff)
qed

text \<open>C12: a client that asks for \<open>k\<close> pages, as many as are available, gets \<open>k\<close> pairwise different
  pages, and giving them back in any order succeeds each time and restores the set of available
  pages.\<close>

theorem mm_page_seq_distinct:
  assumes "pmm_ok s" "k \<le> unat (free_pages (g_pmm s))" "alloc_seq mm_page_alloc k s = (ps, s')"
    and "distinct qs" "set qs = set ps" "free_seq mm_page_free qs s' = (es, s'')"
  shows "length ps = k \<and> distinct ps \<and> set ps \<subseteq> avail s \<and> set es \<subseteq> {MM_OK} \<and>
    avail s'' = avail s \<and> pmm_ok s''"
proof -
  have "k \<le> card (avail s)" using assms(1,2) card_avail by (simp add: pmm_ok_def)
  then show ?thesis
    using pmm.alloc_seq_pages [OF assms(1) _ assms(3)]
      pmm.alloc_free_seq [OF assms(1) _ assms(3-6)] by blast
qed

theorem mm_page_seq_distinct_witness:
  "pmm_ok demo4 \<and> distinct (fst (alloc_seq mm_page_alloc 3 demo4))"
proof -
  obtain ps s' where a: "alloc_seq mm_page_alloc 3 demo4 = (ps, s')" by fastforce
  obtain es s'' where f: "free_seq mm_page_free (remdups ps) s' = (es, s'')" by fastforce
  have "3 \<le> unat (free_pages (g_pmm demo4))" by (simp add: demo_state_def demo_pmm_def)
  from mm_page_seq_distinct [OF demo4_ok this a _ _ f] a demo4_ok show ?thesis by simp
qed

section \<open>Runs of pages\<close>

text \<open>C13: \<open>mm_page_alloc_n\<close> hands out \<open>n\<close> consecutive available pages, takes exactly these and keeps
  the invariant; it returns 0 without any change only when there are fewer than \<open>n\<close> available pages
  or no \<open>n\<close> consecutive ones on either side of the roving hint.\<close>

theorem mm_page_alloc_n_correct:
  assumes "pmm_ok s" "n \<noteq> 0" "mm_page_alloc_n n s = (pa, s')"
  shows "(pa \<noteq> 0 \<and> page_run pa (unat n) \<subseteq> avail s \<and> avail s' = avail s - page_run pa (unat n) \<and>
      pmm_ok s' \<and> pmm_frame s s') \<or>
    (pa = 0 \<and> s' = s \<and>
      (unat (free_pages (g_pmm s)) < unat n \<or>
       (\<forall>r. r + unat n \<le> unat (next_hint (g_pmm s)) \<or>
            unat (next_hint (g_pmm s)) \<le> r \<and> r + unat n \<le> unat (total_pages (g_pmm s)) \<longrightarrow>
            \<not> page_run (idx_to_pa (g_pmm s) (w32 r)) (unat n) \<subseteq> avail s)))"
proof -
  have inv: "pmm_inv s" using assms(1) by (simp add: pmm_ok_def)
  then have geom: "pmm_geom (g_pmm s)" by (simp add: pmm_inv_def)
  show ?thesis
    using inv assms(2)
  proof (cases rule: mm_page_alloc_n_cases)
    case short
    then show ?thesis using assms(3) by (simp add: word_less_nat_alt)
  next
    case no_run
    note runs = page_run_run_free [OF geom, of _ "unat n"]
    have "unat (next_hint (g_pmm s)) \<le> unat (total_pages (g_pmm s))"
      using inv by (simp add: pmm_inv_def word_less_nat_alt)
    then show ?thesis using runs no_run assms(3) unfolding no_run_def by force
  next
    case (run r)
    note t = take_run_avail [OF assms(1) run(2,3)]
    then show ?thesis
      using idx_to_pa_not_0 [OF assms(1) run(3)] assms(2,3) run(1) by (simp add: unat_gt_0)
  qed
qed

theorem mm_page_alloc_n_correct_witness:
  "pmm_ok demo4 \<and> (2 :: u32) \<noteq> 0 \<and>
   (fst (mm_page_alloc_n 2 demo4) = 0 \<or> page_run (fst (mm_page_alloc_n 2 demo4)) 2 \<subseteq> avail demo4)"
  using mm_page_alloc_n_correct [OF demo4_ok, of 2 "fst (mm_page_alloc_n 2 demo4)"
      "snd (mm_page_alloc_n 2 demo4)"] demo4_ok by auto


text \<open>The search of \<open>mm_page_alloc_n\<close> does not see a run that crosses the roving hint: there is a
  state with two consecutive available pages in which a request for two pages fails.\<close>

theorem mm_page_alloc_n_misses_run:
  "\<exists>s pa. pmm_ok s \<and> page_run pa 2 \<subseteq> avail s \<and> mm_page_alloc_n 2 s = (0, s)"
proof (intro exI conjI)
  show "pmm_ok demo4" by (rule demo4_ok)
  show "page_run 0x40000000 2 \<subseteq> avail demo4"
    by (auto simp: demo4_avail page_run_def less_2_cases_iff)
  show "mm_page_alloc_n 2 demo4 = (0, demo4)"
    by code_simp
qed

text \<open>\<open>mm_page_free_n\<close> on a run of allocated pages succeeds, makes exactly these pages available
  and keeps the invariant; it undoes an allocation of the run.\<close>

theorem mm_page_free_n_correct:
  assumes "pmm_ok s" "n \<noteq> 0" "page_run pa (unat n) \<subseteq> managed s - avail s"
  shows "\<exists>s'. mm_page_free_n pa n s = (MM_OK, s') \<and> avail s' = avail s \<union> page_run pa (unat n) \<and>
    pmm_ok s' \<and> pmm_frame s s'"
proof -
  have inv: "pmm_inv s" using assms(1) by (simp add: pmm_ok_def)
  then have geom: "pmm_geom (g_pmm s)" by (simp add: pmm_inv_def)
  obtain r where pa: "pa = idx_to_pa (g_pmm s) (w32 r)"
    and le: "r + unat n \<le> unat (total_pages (g_pmm s))"
    using managed_run_idx [OF assms(1), of pa "unat n"] assms(2,3) by (auto simp: unat_gt_0)
  have "{r..<r + unat n} \<inter> free_idx s = {}"
    using assms(3) unfolding pa page_run_idx avail_image [OF geom] by blast
  then obtain s' where s': "mm_page_free_n pa n s = (MM_OK, s')" "pmm_inv s'" "pmm_frame s s'"
      "free_idx s' = free_idx s \<union> {r..<r + unat n}"
    using mm_page_free_n_run [OF inv le assms(2)] pa by metis
  have "avail s' = avail s \<union> page_run pa (unat n)"
    unfolding avail_change [OF inv s'(2,3)] s'(4) avail_image [OF geom] pa page_run_idx by blast
  then show ?thesis using s' pmm_frame_ok [OF assms(1) s'(3,2)] by blast
qed

theorem mm_page_free_n_correct_witness:
  "\<exists>s'. mm_page_free_n 0x40002000 1 demo4 = (MM_OK, s') \<and> pmm_ok s'"
proof -
  have "pa_in_range (g_pmm demo4) 0x40002000" by code_simp
  then have "page_run 0x40002000 (unat 1) \<subseteq> managed demo4 - avail demo4"
    by (simp add: page_run_def demo4_avail lessThan_Suc managed_def pa_aligned_def)
  from mm_page_free_n_correct [OF demo4_ok _ this] show ?thesis by auto
qed

section \<open>Aligned runs\<close>




text \<open>The alignment of \<open>mm_page_alloc_aligned\<close> counts pages from the start of RAM: where RAM
  starts at an odd page, a run of two pages aligned to two pages has a physical address that is
  not a multiple of two pages.\<close>

theorem mm_page_alloc_aligned_relative:
  "\<exists>pa s'. mm_page_alloc_aligned 2 2 (demo_state 0x40001000 4 4 0 0) = Some (pa, s') \<and>
     pa \<noteq> 0 \<and> \<not> 2 * 4096 dvd unat pa"
proof -
  have "map_option fst (mm_page_alloc_aligned 2 2 (demo_state 0x40001000 4 4 0 0)) = Some 0x40001000"
    by code_simp
  then show ?thesis by fastforce
qed

text \<open>When rounding the hint up leaves RAM, the second pass of \<open>mm_page_alloc_aligned\<close> can hand out
  pages beyond the end of RAM: with six pages, the hint on the last one and an alignment of four
  pages, a request for three pages returns a run whose last page is not managed.\<close>

theorem mm_page_alloc_aligned_beyond_ram:
  "pmm_ok (demo_state 0x40000000 6 5 5 1) \<and>
   (\<exists>pa s'. mm_page_alloc_aligned 3 4 (demo_state 0x40000000 6 5 5 1) = Some (pa, s') \<and>
      pa \<noteq> 0 \<and> \<not> page_run pa 3 \<subseteq> managed (demo_state 0x40000000 6 5 5 1))"
proof
  let ?s = "demo_state 0x40000000 6 5 5 1"
  have free: "free_idx ?s = {1, 2, 3, 4, 5}"
    by (subst free_idx_demo) (auto simp: upt_rec)
  have "pmm_geom (demo_pmm 0x40000000 6 5 5)"
    by (simp add: pmm_geom_def demo_pmm_def bm_of_def al4_def)
  then show "pmm_ok ?s"
    unfolding pmm_ok_def pmm_inv_def free by (simp add: demo_state_def demo_pmm_def)
  have "map_option fst (mm_page_alloc_aligned 3 4 ?s) = Some 0x40004000"
    by code_simp
  then obtain s' where s': "mm_page_alloc_aligned 3 4 ?s = Some (0x40004000, s')" by fastforce
  have "0x40006000 \<in> page_run 0x40004000 3"
    unfolding page_run_def by (rule image_eqI [of _ _ 2]) simp_all
  moreover have "0x40006000 \<notin> managed ?s"
    by (simp add: managed_def pa_in_range_def demo_state_def demo_pmm_def)
  ultimately show "\<exists>pa s'. mm_page_alloc_aligned 3 4 ?s = Some (pa, s') \<and>
      pa \<noteq> 0 \<and> \<not> page_run pa 3 \<subseteq> managed ?s"
    using s' by fastforce
qed

end
