(* ===== verification/Leg_Kheap.thy ===== *)
theory Leg_Kheap
  imports Leg_Mm_State
begin

text \<open>
  The kernel heap of \<^verbatim>\<open>src/kernel/mem/alloc.c\<close>: a first-fit allocator whose block headers
  (\<open>magic\<close>, \<open>size\<close>, \<open>next_free\<close>) are words of the byte memory and whose free blocks form a linked
  list in address order. The list walks are partial functions, since a damaged list may be
  cyclic; a failed \<^verbatim>\<open>ASSERT\<close> is the outcome \<open>Panics\<close>. Every store happens in the order of the
  source.
\<close>

section \<open>Block headers\<close>

definition h_magic :: "mem \<Rightarrow> u32 \<Rightarrow> u32" where "h_magic m h = rd32 m h"
definition h_size :: "mem \<Rightarrow> u32 \<Rightarrow> u32" where "h_size m h = rd32 m (h + 4)"
definition h_next :: "mem \<Rightarrow> u32 \<Rightarrow> u32" where "h_next m h = rd32 m (h + 8)"
definition set_magic :: "u32 \<Rightarrow> u32 \<Rightarrow> mem \<Rightarrow> mem" where "set_magic h v m = wr32 m h v"
definition set_size :: "u32 \<Rightarrow> u32 \<Rightarrow> mem \<Rightarrow> mem" where "set_size h v m = wr32 m (h + 4) v"
definition set_next :: "u32 \<Rightarrow> u32 \<Rightarrow> mem \<Rightarrow> mem" where "set_next h v m = wr32 m (h + 8) v"

definition hdr_of :: "u32 \<Rightarrow> u32" where
  "hdr_of ptr = ptr - HDR_SIZE"

definition hdr_valid :: "mm_state \<Rightarrow> u32 \<Rightarrow> u32 \<Rightarrow> bool" where
  "hdr_valid s h expected_magic =
     (let base = kh_base (g_kheap s) in
      if h < base \<or> h + HDR_SIZE > base + kh_capacity (g_kheap s) then False
      else h_magic (mem s) h = expected_magic)"

text \<open>Redirect the link that leads to a block: the predecessor's \<open>next_free\<close>, or the list head.\<close>

definition relink :: "u32 \<Rightarrow> u32 \<Rightarrow> mm_state \<Rightarrow> mm_state" where
  "relink prev v s =
     (if prev \<noteq> 0 then s\<lparr>mem := set_next prev v (mem s)\<rparr>
      else s\<lparr>g_kheap := (g_kheap s)\<lparr>free_list := v\<rparr>\<rparr>)"

definition add_used :: "u32 \<Rightarrow> mm_state \<Rightarrow> mm_state" where
  "add_used n s = s\<lparr>g_kheap := (g_kheap s)\<lparr>kh_used := kh_used (g_kheap s) + n\<rparr>\<rparr>"

text \<open>The heap part of \<^verbatim>\<open>mm_init\<close>: one free block that spans the region.\<close>

definition kheap_init :: "u32 \<Rightarrow> mm_state \<Rightarrow> mm_state" where
  "kheap_init heap_va s =
     s\<lparr>g_kheap := \<lparr>kh_base = heap_va, kh_capacity = KHEAP_SIZE, kh_used = 0, free_list = heap_va\<rparr>,
       mem := set_next heap_va 0 (set_size heap_va (KHEAP_SIZE - HDR_SIZE)
                (set_magic heap_va KHEAP_MAGIC_FREE (mem s)))\<rparr>"

section \<open>Allocation\<close>

definition round8 :: "u32 \<Rightarrow> u32" where
  "round8 sz = (sz + KHEAP_ALIGN - 1) AND NOT (KHEAP_ALIGN - 1)"

definition split_block :: "u32 \<Rightarrow> u32 \<Rightarrow> mem \<Rightarrow> mem" where
  "split_block sz cur m =
     (let split = cur + HDR_SIZE + sz;
          m1 = set_magic split KHEAP_MAGIC_FREE m;
          m2 = set_size split (h_size m1 cur - sz - HDR_SIZE) m1;
          m3 = set_next split (h_next m2 cur) m2
      in set_size cur sz m3)"

definition kmalloc_take :: "u32 \<Rightarrow> u32 \<Rightarrow> u32 \<Rightarrow> mm_state \<Rightarrow> u32 \<times> mm_state" where
  "kmalloc_take sz prev cur s =
     (let s1 = (if h_size (mem s) cur \<ge> sz + HDR_SIZE + KHEAP_MIN_SPLIT
                then relink prev (cur + HDR_SIZE + sz) (s\<lparr>mem := split_block sz cur (mem s)\<rparr>)
                else relink prev (h_next (mem s) cur) s);
          s2 = s1\<lparr>mem := set_next cur 0 (set_magic cur KHEAP_MAGIC_USED (mem s1))\<rparr>
      in (cur + HDR_SIZE, add_used (h_size (mem s2) cur) s2))"

partial_function (option) kmalloc_loop ::
  "u32 \<Rightarrow> u32 \<Rightarrow> u32 \<Rightarrow> mm_state \<Rightarrow> (u32 \<times> mm_state) outcome option" where
  "kmalloc_loop sz prev cur s =
     (if cur = 0 then Some (Returns (0, s))
      else if h_magic (mem s) cur \<noteq> KHEAP_MAGIC_FREE
        then Some (Panics ''kmalloc: heap corruption (bad free-list magic)'')
      else if h_size (mem s) cur \<ge> sz then Some (Returns (kmalloc_take sz prev cur s))
      else kmalloc_loop sz cur (h_next (mem s) cur) s)"

declare kmalloc_loop.simps [code]

definition kmalloc :: "u32 \<Rightarrow> mm_state \<Rightarrow> (u32 \<times> mm_state) outcome option" where
  "kmalloc sz s =
     (if sz = 0 then Some (Returns (0, s))
      else kmalloc_loop (round8 sz) 0 (free_list (g_kheap s)) s)"

definition kmalloc_aligned :: "u32 \<Rightarrow> u32 \<Rightarrow> mm_state \<Rightarrow> (u32 \<times> mm_state) outcome option" where
  "kmalloc_aligned sz alignment s =
     (if sz = 0 \<or> alignment = 0 \<or> alignment AND (alignment - 1) \<noteq> 0 then Some (Returns (0, s))
      else
        let al = (if alignment < KHEAP_ALIGN then KHEAP_ALIGN else alignment);
            total = sz + al + META_SIZE
        in bind_out (kmalloc total s) (\<lambda>(raw, s1).
             if raw = 0 then Some (Returns (0, s1))
             else
               let aligned = align_up (raw + META_SIZE) al;
                   meta = aligned - META_SIZE
               in Some (Returns (aligned,
                    s1\<lparr>mem := wr32 (wr32 (mem s1) meta raw) (meta + 4) ALIGN_TAG\<rparr>))))"

definition kzalloc :: "u32 \<Rightarrow> mm_state \<Rightarrow> (u32 \<times> mm_state) outcome option" where
  "kzalloc sz s =
     bind_out (kmalloc sz s) (\<lambda>(p, s1).
       Some (Returns (p, if p \<noteq> 0 then s1\<lparr>mem := snd (memset p 0 sz (mem s1))\<rparr> else s1)))"

section \<open>Release\<close>

text \<open>An aligned allocation carries the raw pointer and a tag just below the aligned address.\<close>

definition raw_of :: "mm_state \<Rightarrow> u32 \<Rightarrow> u32" where
  "raw_of s ptr =
     (let meta = ptr - META_SIZE;
          raw = rd32 (mem s) meta;
          base = kh_base (g_kheap s)
      in if rd32 (mem s) (meta + 4) = ALIGN_TAG \<and> raw \<ge> base \<and> raw < base + kh_capacity (g_kheap s)
         then raw else ptr)"

partial_function (option) kfree_find :: "mem \<Rightarrow> u32 \<Rightarrow> u32 \<Rightarrow> u32 \<Rightarrow> (u32 \<times> u32) option" where
  "kfree_find m h prev cur =
     (if cur \<noteq> 0 \<and> cur < h then kfree_find m h cur (h_next m cur) else Some (prev, cur))"

declare kfree_find.simps [code]

text \<open>Both coalescing steps of \<^verbatim>\<open>kfree\<close> absorb a block into its neighbour below and poison its header.\<close>

definition absorb :: "u32 \<Rightarrow> u32 \<Rightarrow> mem \<Rightarrow> mem" where
  "absorb p q m =
     (let m1 = set_size p (h_size m p + (HDR_SIZE + h_size m q)) m;
          m2 = set_next p (h_next m1 q) m1
      in set_magic q KHEAP_MAGIC_DEAD m2)"

definition coalesce_next :: "u32 \<Rightarrow> mem \<Rightarrow> mem" where
  "coalesce_next h m =
     (if h_next m h \<noteq> 0 \<and> h_next m h = h + HDR_SIZE + h_size m h \<and>
         h_magic m (h_next m h) = KHEAP_MAGIC_FREE
      then absorb h (h_next m h) m else m)"

definition coalesce_prev :: "u32 \<Rightarrow> u32 \<Rightarrow> mem \<Rightarrow> mem" where
  "coalesce_prev prev h m =
     (if prev \<noteq> 0 \<and> h = prev + HDR_SIZE + h_size m prev \<and> h_magic m prev = KHEAP_MAGIC_FREE
      then absorb prev h m else m)"

definition kfree :: "u32 \<Rightarrow> mm_state \<Rightarrow> mm_state outcome option" where
  "kfree ptr0 s =
     (if ptr0 = 0 then Some (Returns s)
      else
        let h = hdr_of (raw_of s ptr0) in
        if \<not> hdr_valid s h KHEAP_MAGIC_USED then Some (Panics ''kfree: invalid or double-free'')
        else
          let m1 = set_magic h KHEAP_MAGIC_FREE (mem s);
              s1 = s\<lparr>mem := m1, g_kheap := (g_kheap s)\<lparr>kh_used := kh_used (g_kheap s) - h_size m1 h\<rparr>\<rparr>
          in (case kfree_find m1 h 0 (free_list (g_kheap s1)) of
                None \<Rightarrow> None
              | Some (prev, cur) \<Rightarrow>
                  let s2 = relink prev h (s1\<lparr>mem := set_next h cur m1\<rparr>)
                  in Some (Returns (s2\<lparr>mem := coalesce_prev prev h (coalesce_next h (mem s2))\<rparr>))))"

definition krealloc :: "u32 \<Rightarrow> u32 \<Rightarrow> mm_state \<Rightarrow> (u32 \<times> mm_state) outcome option" where
  "krealloc ptr sz s =
     (if ptr = 0 then kmalloc sz s
      else if sz = 0 then bind_out (kfree ptr s) (\<lambda>s1. Some (Returns (0, s1)))
      else
        let h = hdr_of (raw_of s ptr) in
        if \<not> hdr_valid s h KHEAP_MAGIC_USED then Some (Panics ''krealloc: invalid pointer'')
        else if h_size (mem s) h \<ge> round8 sz then Some (Returns (ptr, s))
        else bind_out (kmalloc sz s) (\<lambda>(new_ptr, s1).
          if new_ptr = 0 then Some (Returns (0, s1))
          else
            let n = (if h_size (mem s1) h < sz then h_size (mem s1) h else sz);
                s2 = s1\<lparr>mem := snd (memcpy new_ptr ptr n (mem s1))\<rparr>
            in bind_out (kfree ptr s2) (\<lambda>s3. Some (Returns (new_ptr, s3)))))"

end
