(* ===== verification/Leg_Kheap_Rep.thy ===== *)
theory Leg_Kheap_Rep
  imports Leg_Kheap
begin

text \<open>
  The abstract view of the heap region: a list of blocks (address of the header, payload size,
  whether allocated) that tile the region, and the relation \<open>heap_rep\<close> that says that the headers
  in memory, the free list and the byte counter are those of a block list. Addresses are naturals
  here, so that the layout arguments are linear arithmetic; \<open>cell\<close> and \<open>put\<close> are the aligned
  words of the memory at such addresses.
\<close>

section \<open>Aligned words at natural addresses\<close>

definition cell :: "mem \<Rightarrow> nat \<Rightarrow> u32" where "cell m a = rd32 m (w32 a)"
definition put :: "nat \<Rightarrow> u32 \<Rightarrow> mem \<Rightarrow> mem" where "put a v m = wr32 m (w32 a) v"

definition word_addr :: "nat \<Rightarrow> bool" where
  "word_addr a \<longleftrightarrow> 4 dvd a \<and> a < 2 ^ 32"

lemma word_addr_hdr:
  "4 dvd a \<Longrightarrow> a + 12 < 2 ^ 32 \<Longrightarrow> word_addr a \<and> word_addr (a + 4) \<and> word_addr (a + 8)"
  by (simp add: word_addr_def)

lemma cell_put [mem_simps]:
  assumes "word_addr a" "word_addr b"
  shows "cell (put a v m) b = (if a = b then v else cell m b)"
  using assms by (simp add: cell_def put_def word_addr_def rd32_wr32 al4_w32 w32_eq_iff)

lemma hdr_cells:
  "h_magic m (w32 a) = cell m a" "h_size m (w32 a) = cell m (a + 4)" "h_next m (w32 a) = cell m (a + 8)"
  "set_magic (w32 a) v = put a v" "set_size (w32 a) v = put (a + 4) v" "set_next (w32 a) v = put (a + 8) v"
  by (simp_all add: fun_eq_iff cell_def put_def h_magic_def h_size_def h_next_def
      set_magic_def set_size_def set_next_def)

lemma put_byte:
  assumes "word_addr c" "x < 2 ^ 32" "x < c \<or> c + 4 \<le> x"
  shows "put c v m (w32 x) = m (w32 x)"
proof -
  have "w32 x \<noteq> w32 c + w32 i" if i: "i < 4" for i
  proof -
    obtain d where d: "c = 4 * d" using assms(1) by (auto simp: word_addr_def)
    then have "c + i < 2 ^ 32" using assms(1) i by (auto simp: word_addr_def)
    then have "w32 x = w32 (c + i) \<longleftrightarrow> x = c + i" using assms(2) by (intro w32_eq_iff)
    then show ?thesis using assms(3) i by auto
  qed
  from this [of 0] this [of 1] this [of 2] this [of 3] show ?thesis
    unfolding put_def by (intro wr32_apply_other) simp_all
qed

section \<open>Blocks\<close>

type_synonym block = "nat \<times> nat \<times> bool"

abbreviation used :: "block \<Rightarrow> bool" where "used b \<equiv> snd (snd b)"

fun tiled :: "nat \<Rightarrow> block list \<Rightarrow> nat \<Rightarrow> bool" where
  "tiled a [] e \<longleftrightarrow> a = e"
| "tiled a ((b, k, u) # bs) e \<longleftrightarrow> b = a \<and> 4 dvd k \<and> tiled (a + 12 + k) bs e"

fun nf :: "block list \<Rightarrow> nat \<Rightarrow> nat" where
  "nf [] z = z"
| "nf ((a, k, u) # bs) z = (if u then nf bs z else a)"

fun lf :: "block list \<Rightarrow> nat \<Rightarrow> nat" where
  "lf [] p = p"
| "lf ((a, k, u) # bs) p = lf bs (if u then p else a)"

fun hdrs :: "mem \<Rightarrow> block list \<Rightarrow> nat \<Rightarrow> bool" where
  "hdrs m [] z \<longleftrightarrow> True"
| "hdrs m ((a, k, u) # bs) z \<longleftrightarrow>
     cell m a = (if u then KHEAP_MAGIC_USED else KHEAP_MAGIC_FREE) \<and> cell m (a + 4) = w32 k \<and>
     cell m (a + 8) = w32 (if u then 0 else nf bs z) \<and> hdrs m bs z"

definition used_sum :: "block list \<Rightarrow> nat" where
  "used_sum bs = sum_list (map (\<lambda>(a, k, u). if u then k else 0) bs)"

abbreviation coalesced :: "block list \<Rightarrow> bool" where
  "coalesced bs \<equiv> successively (\<lambda>x y. used x \<or> used y) bs"

text \<open>
  \<open>heap_pre\<close> relates memory and blocks; \<open>heap_rep\<close> adds that no two neighbours are both free, which
  holds between operations.
\<close>

definition heap_pre :: "mm_state \<Rightarrow> block list \<Rightarrow> bool" where
  "heap_pre s bs \<longleftrightarrow>
     (let b = unat (kh_base (g_kheap s)); e = b + unat (kh_capacity (g_kheap s)) in
      4096 \<le> b \<and> 4 dvd b \<and> e < 2 ^ 32 \<and> tiled b bs e \<and> hdrs (mem s) bs 0 \<and>
      free_list (g_kheap s) = w32 (nf bs 0) \<and> kh_used (g_kheap s) = w32 (used_sum bs))"

definition heap_rep :: "mm_state \<Rightarrow> block list \<Rightarrow> bool" where
  "heap_rep s bs \<longleftrightarrow> heap_pre s bs \<and> coalesced bs"

subsection \<open>Layout\<close>

lemma tiled_append: "tiled a (xs @ ys) e \<longleftrightarrow> (\<exists>c. tiled a xs c \<and> tiled c ys e)"
  by (induction a xs e rule: tiled.induct) auto

lemma tiled_le: "tiled a bs e \<Longrightarrow> a \<le> e"
  by (induction a bs e rule: tiled.induct) auto

lemma tiled_dvd: "tiled a bs e \<Longrightarrow> 4 dvd a \<Longrightarrow> 4 dvd e"
  by (induction a bs e rule: tiled.induct) auto

lemma tiled_block:
  "tiled a bs e \<Longrightarrow> (b, k, u) \<in> set bs \<Longrightarrow> 4 dvd a \<Longrightarrow> a \<le> b \<and> b + 12 + k \<le> e \<and> 4 dvd b \<and> 4 dvd k"
proof (induction a bs e rule: tiled.induct)
  case (2 a b' k' u' bs e)
  then show ?case using tiled_le [of "a + 12 + k'" bs e] by fastforce
qed simp

lemma tiled_ge: "tiled a bs e \<Longrightarrow> (b, k, u) \<in> set bs \<Longrightarrow> a \<le> b"
  by (induction a bs e rule: tiled.induct) fastforce+

lemma tiled_used_sum: "tiled a bs e \<Longrightarrow> a + used_sum bs \<le> e"
  by (induction a bs e rule: tiled.induct) (auto simp: used_sum_def)

lemma used_sum_simps [simp]:
  "used_sum [] = 0" "used_sum ((a, k, u) # bs) = (if u then k else 0) + used_sum bs"
  "used_sum (xs @ ys) = used_sum xs + used_sum ys"
  by (simp_all add: used_sum_def)

lemma tiled_disjoint:
  "tiled a bs e \<Longrightarrow> (b, k, u) \<in> set bs \<Longrightarrow> (c, l, v) \<in> set bs \<Longrightarrow>
   b = c \<and> k = l \<and> u = v \<or> b + 12 + k \<le> c \<or> c + 12 + l \<le> b"
proof (induction a bs e rule: tiled.induct)
  case (2 a b' k' u' bs e)
  have "a + 12 + k' \<le> x" if "(x, y, w) \<in> set bs" for x y w
    using tiled_ge [of "a + 12 + k'" bs e] 2(2) that by auto
  then show ?case using 2 by fastforce
qed simp

subsection \<open>Links\<close>

lemma nf_append [simp]: "nf (xs @ ys) z = nf xs (nf ys z)"
  by (induction xs z rule: nf.induct) auto

lemma lf_append [simp]: "lf (xs @ ys) p = lf ys (lf xs p)"
  by (induction xs p rule: lf.induct) auto

lemma hdrs_append [simp]: "hdrs m (xs @ ys) z \<longleftrightarrow> hdrs m xs (nf ys z) \<and> hdrs m ys z"
  by (induction m xs z rule: hdrs.induct) auto

lemma all_used_links:
  assumes "\<forall>b \<in> set bs. used b"
  shows "nf bs z = z" "lf bs p = p" "hdrs m bs z \<longleftrightarrow> hdrs m bs z'"
proof -
  show nf: "nf bs z = z" for z using assms by (induction bs) auto
  show "lf bs p = p" using assms by (induction bs) auto
  show "hdrs m bs z \<longleftrightarrow> hdrs m bs z'" using assms by (induction bs) auto
qed

lemma last_free_cases:
  obtains (none) "\<forall>b \<in> set xs. used b"
  | (some) us a k vs where "xs = us @ (a, k, False) # vs" "\<forall>b \<in> set vs. used b"
proof (cases "\<exists>b \<in> set xs. \<not> used b")
  case True
  then obtain us x vs where "xs = us @ x # vs" "\<not> used x" "\<forall>b \<in> set vs. used b"
    using split_list_last_prop [of xs "\<lambda>b. \<not> used b"] by blast
  moreover obtain a k u where "x = (a, k, u)" by (metis prod_cases3)
  ultimately show ?thesis by (intro some [of us a k vs]) auto
qed (use none in blast)

lemma hdrs_cong:
  assumes "\<And>c. word_addr c \<Longrightarrow> a \<le> c \<Longrightarrow> c < e \<Longrightarrow> cell m' c = cell m c"
    and "tiled a bs e" "4 dvd a" "e \<le> 2 ^ 32"
  shows "hdrs m' bs z \<longleftrightarrow> hdrs m bs z"
  using assms
proof (induction a bs e rule: tiled.induct)
  case (2 a b k u bs e)
  have b: "b = a" and t: "tiled (a + 12 + k) bs e" and k: "4 dvd k" using 2(3) by auto
  have le: "a + 12 + k \<le> e" using tiled_le [OF t] .
  have "4 dvd a + 4" "4 dvd a + 8" using 2(4) by auto
  then have "cell m' a = cell m a" "cell m' (a + 4) = cell m (a + 4)" "cell m' (a + 8) = cell m (a + 8)"
    using le 2(4,5) by (auto intro!: 2(2) simp: word_addr_def)
  moreover have "hdrs m' bs z \<longleftrightarrow> hdrs m bs z"
    using le 2(4,5) k t by (intro 2(1) 2(2)) auto
  ultimately show ?case using b by simp
qed simp


section \<open>What a heap operation may write\<close>

text \<open>
  An operation writes block headers and free payloads only. The bytes of allocated payloads and
  everything outside the heap are \<open>safe\<close>.
\<close>

definition blk_end :: "block \<Rightarrow> nat" where
  "blk_end b = (case b of (a, k, u) \<Rightarrow> if u then a + 12 else a + 12 + k)"

definition writable :: "block list \<Rightarrow> nat \<Rightarrow> bool" where
  "writable bs c \<longleftrightarrow> word_addr c \<and> (\<exists>b \<in> set bs. fst b \<le> c \<and> c + 4 \<le> blk_end b)"

definition safe :: "block list \<Rightarrow> nat \<Rightarrow> bool" where
  "safe bs x \<longleftrightarrow> x < 2 ^ 32 \<and> (\<forall>b \<in> set bs. x < fst b \<or> blk_end b \<le> x)"

definition same_safe :: "block list \<Rightarrow> mem \<Rightarrow> mem \<Rightarrow> bool" where
  "same_safe bs m m' \<longleftrightarrow> (\<forall>x. safe bs x \<longrightarrow> m' (w32 x) = m (w32 x))"

lemma same_safe_refl [simp]: "same_safe bs m m"
  by (simp add: same_safe_def)

lemma same_safe_put:
  assumes "writable bs c" "same_safe bs m m'" shows "same_safe bs m (put c v m')"
  unfolding same_safe_def
proof (intro allI impI)
  fix x assume x: "safe bs x"
  obtain b where "b \<in> set bs" "fst b \<le> c" "c + 4 \<le> blk_end b" "word_addr c"
    using assms(1) by (auto simp: writable_def)
  moreover from this have "x < fst b \<or> blk_end b \<le> x" using x by (auto simp: safe_def)
  ultimately have "put c v m' (w32 x) = m' (w32 x)"
    using x by (intro put_byte) (auto simp: safe_def)
  then show "put c v m' (w32 x) = m (w32 x)" using assms(2) x by (simp add: same_safe_def)
qed

lemma same_safe_trans: "same_safe bs m m' \<Longrightarrow> same_safe bs m' m'' \<Longrightarrow> same_safe bs m m''"
  by (simp add: same_safe_def)

lemma same_safe_mono: "same_safe xs m m' \<Longrightarrow> set xs \<subseteq> set bs \<Longrightarrow> same_safe bs m m'"
  by (auto simp: same_safe_def safe_def)

lemma writable_hdr:
  assumes "(a, k, u) \<in> set bs" "4 dvd a" "a + 12 < 2 ^ 32"
  shows "writable bs a" "writable bs (a + 4)" "writable bs (a + 8)"
  using assms by (auto simp: writable_def word_addr_def blk_end_def intro!: bexI [of _ "(a, k, u)"])

lemma writable_free:
  "(a, k, False) \<in> set bs \<Longrightarrow> word_addr c \<Longrightarrow> a \<le> c \<Longrightarrow> c + 4 \<le> a + 12 + k \<Longrightarrow> writable bs c"
  by (auto simp: writable_def blk_end_def intro!: bexI [of _ "(a, k, False)"])

definition heap_frame :: "block list \<Rightarrow> mm_state \<Rightarrow> mm_state \<Rightarrow> bool" where
  "heap_frame bs s s' \<longleftrightarrow>
     g_pmm s' = g_pmm s \<and> kh_base (g_kheap s') = kh_base (g_kheap s) \<and>
     kh_capacity (g_kheap s') = kh_capacity (g_kheap s) \<and> same_safe bs (mem s) (mem s')"

section \<open>Redirecting the link into a suffix\<close>

lemma relink_links:
  assumes t: "tiled b xs e" and b: "4 dvd b" "0 < b" "e < 2 ^ 32"
    and h: "hdrs (mem s) xs z" and f: "free_list (g_kheap s) = w32 (nf xs z)"
  shows "hdrs (mem (relink (w32 (lf xs 0)) (w32 v) s)) xs v" (is ?h)
    and "free_list (g_kheap (relink (w32 (lf xs 0)) (w32 v) s)) = w32 (nf xs v)" (is ?f)
    and "word_addr c \<Longrightarrow> e \<le> c \<Longrightarrow> cell (mem (relink (w32 (lf xs 0)) (w32 v) s)) c = cell (mem s) c"
    and "same_safe xs (mem s) (mem (relink (w32 (lf xs 0)) (w32 v) s))" (is ?safe)
proof -
  have "?h \<and> ?f \<and> ?safe \<and>
    (word_addr c \<and> e \<le> c \<longrightarrow> cell (mem (relink (w32 (lf xs 0)) (w32 v) s)) c = cell (mem s) c)"
  proof (cases rule: last_free_cases [of xs])
    case none
    then show ?thesis
      using h f all_used_links(3) [OF none, of "mem s" z v] by (simp add: all_used_links relink_def)
  next
    case (some us a k vs)
    have tu: "tiled b us a" and tv: "tiled (a + 12 + k) vs e" and k: "4 dvd k"
      using t some(1) by (auto simp: tiled_append)
    have a: "4 dvd a" "b \<le> a" "a + 12 + k \<le> e"
      using tiled_dvd [OF tu b(1)] tiled_le [OF tu] tiled_le [OF tv] by auto
    have wa: "word_addr (a + 8)" using a b(3) by (simp add: word_addr_def)
    have prev: "lf xs 0 = a" using some all_used_links(2) by simp
    have "w32 a \<noteq> 0" using a b w32_eq_0_iff [of a] by simp
    then have eq: "relink (w32 (lf xs 0)) (w32 v) s = s\<lparr>mem := put (a + 8) (w32 v) (mem s)\<rparr>"
      by (simp add: relink_def prev hdr_cells)
    have hu: "hdrs (put (a + 8) (w32 v) (mem s)) us a"
      using hdrs_cong [OF _ tu b(1), of "put (a + 8) (w32 v) (mem s)" "mem s" a] h some(1) wa a b(3)
      by (simp add: cell_put)
    have hv: "hdrs (put (a + 8) (w32 v) (mem s)) vs v"
      using hdrs_cong [OF _ tv, of "put (a + 8) (w32 v) (mem s)" "mem s" z] h some wa a b(3) k
        all_used_links(3) [OF some(2), of _ z v]
      by (simp add: cell_put)
    have "word_addr a" "word_addr (a + 4)" using a b(3) by (auto simp: word_addr_def)
    then have ?h
      using h some hu hv wa unfolding eq by (simp add: cell_put all_used_links)
    moreover have ?f using f some unfolding eq by (simp add: all_used_links)
    moreover have ?safe
      using writable_hdr(3) [of a k False xs] some(1) a b(3) unfolding eq
      by (auto intro: same_safe_put)
    ultimately show ?thesis using wa a unfolding eq by (auto simp: cell_put)
  qed
  then show ?h ?f ?safe
    "word_addr c \<Longrightarrow> e \<le> c \<Longrightarrow> cell (mem (relink (w32 (lf xs 0)) (w32 v) s)) c = cell (mem s) c"
    by blast+
qed

lemma relink_fields [simp]:
  "g_pmm (relink p v s) = g_pmm s" "kh_base (g_kheap (relink p v s)) = kh_base (g_kheap s)"
  "kh_capacity (g_kheap (relink p v s)) = kh_capacity (g_kheap s)"
  "kh_used (g_kheap (relink p v s)) = kh_used (g_kheap s)"
  by (simp_all add: relink_def)


section \<open>Taking the representation apart and replacing blocks\<close>

lemma heap_preD:
  assumes "heap_pre s (xs @ (a, k, u) # ys)"
  defines "b \<equiv> unat (kh_base (g_kheap s))" and "e \<equiv> unat (kh_base (g_kheap s)) + unat (kh_capacity (g_kheap s))"
  shows "tiled b xs a" "tiled (a + 12 + k) ys e" "4 dvd b" "4096 \<le> b" "b \<le> a" "e < 2 ^ 32"
    "4 dvd a" "4 dvd k" "a + 12 + k \<le> e" "4 dvd e"
    "hdrs (mem s) xs (nf ((a, k, u) # ys) 0)" "hdrs (mem s) ys 0"
    "cell (mem s) a = (if u then KHEAP_MAGIC_USED else KHEAP_MAGIC_FREE)"
    "cell (mem s) (a + 4) = w32 k" "cell (mem s) (a + 8) = w32 (if u then 0 else nf ys 0)"
    "free_list (g_kheap s) = w32 (nf (xs @ (a, k, u) # ys) 0)"
    "kh_used (g_kheap s) = w32 (used_sum (xs @ (a, k, u) # ys))"
proof -
  have rep: "4096 \<le> b" "4 dvd b" "e < 2 ^ 32" "tiled b (xs @ (a, k, u) # ys) e"
    "hdrs (mem s) (xs @ (a, k, u) # ys) 0" "free_list (g_kheap s) = w32 (nf (xs @ (a, k, u) # ys) 0)"
    "kh_used (g_kheap s) = w32 (used_sum (xs @ (a, k, u) # ys))"
    using assms(1) unfolding heap_pre_def Let_def b_def e_def by auto
  then show "tiled b xs a" "tiled (a + 12 + k) ys e" "4 dvd k" by (auto simp: tiled_append)
  then show "b \<le> a" "4 dvd a" "a + 12 + k \<le> e" "4 dvd e"
    using tiled_le tiled_dvd rep(2,4) by blast+
  show "hdrs (mem s) xs (nf ((a, k, u) # ys) 0)" "hdrs (mem s) ys 0"
    "cell (mem s) a = (if u then KHEAP_MAGIC_USED else KHEAP_MAGIC_FREE)"
    "cell (mem s) (a + 4) = w32 k" "cell (mem s) (a + 8) = w32 (if u then 0 else nf ys 0)"
    using rep(5) by (auto simp del: nf.simps)
  show "4 dvd b" "4096 \<le> b" "e < 2 ^ 32" "free_list (g_kheap s) = w32 (nf (xs @ (a, k, u) # ys) 0)"
    "kh_used (g_kheap s) = w32 (used_sum (xs @ (a, k, u) # ys))"
    using rep by auto
qed

lemma heap_preI:
  assumes old: "heap_pre s (xs @ ls @ ys)"
    and same: "kh_base (g_kheap s') = kh_base (g_kheap s)" "kh_capacity (g_kheap s') = kh_capacity (g_kheap s)"
    and t: "tiled (unat (kh_base (g_kheap s))) xs a" "tiled a ms c"
      "tiled c ys (unat (kh_base (g_kheap s)) + unat (kh_capacity (g_kheap s)))"
    and mid: "hdrs (mem s') ms (nf ys 0)"
    and pre: "hdrs (mem s') xs (nf (ms @ ys) 0)"
    and post: "\<And>d. word_addr d \<Longrightarrow> c \<le> d \<Longrightarrow> cell (mem s') d = cell (mem s) d"
    and fl: "free_list (g_kheap s') = w32 (nf (xs @ ms @ ys) 0)"
    and us: "kh_used (g_kheap s') = w32 (used_sum (xs @ ms @ ys))"
  shows "heap_pre s' (xs @ ms @ ys)"
proof -
  let ?b = "unat (kh_base (g_kheap s))" let ?e = "?b + unat (kh_capacity (g_kheap s))"
  have rep: "4096 \<le> ?b" "4 dvd ?b" "?e < 2 ^ 32" "hdrs (mem s) ys 0"
    using old unfolding heap_pre_def Let_def by auto
  have c: "4 dvd c" using tiled_dvd t(1,2) rep(2) by blast
  have "hdrs (mem s') ys 0"
    using hdrs_cong [OF post t(3), of 0] rep(3,4) c by simp
  then have "hdrs (mem s') (xs @ ms @ ys) 0" using pre mid by simp
  moreover have "tiled ?b (xs @ ms @ ys) ?e"
    using t by (auto simp: tiled_append)
  ultimately show ?thesis
    unfolding heap_pre_def Let_def same using rep fl us by simp
qed

end
