(* ===== verification/Leg_Kheap_Alloc.thy ===== *)
theory Leg_Kheap_Alloc
  imports Leg_Kheap_Rep
begin

text \<open>
  \<open>kmalloc\<close> implements first fit on the block list. The abstract operation \<open>amalloc\<close> takes the first
  free block that is large enough and splits it when the rest can hold a header and
  \<^verbatim>\<open>KHEAP_MIN_SPLIT\<close> bytes; the refinement lemmas show that the walk over the linked list in memory
  ends and does exactly this, keeps the representation and writes only headers and free payloads.
\<close>

section \<open>First fit on blocks\<close>

definition take_block :: "nat \<Rightarrow> nat \<Rightarrow> nat \<Rightarrow> block list" where
  "take_block n a k =
     (if n + 44 \<le> k then [(a, n, True), (a + 12 + n, k - n - 12, False)] else [(a, k, True)])"

fun amalloc :: "nat \<Rightarrow> block list \<Rightarrow> (nat \<times> block list) option" where
  "amalloc n [] = None"
| "amalloc n ((a, k, u) # bs) =
     (if \<not> u \<and> n \<le> k then Some (a + 12, take_block n a k @ bs)
      else map_option (\<lambda>(p, bs'). (p, (a, k, u) # bs')) (amalloc n bs))"

lemma amalloc_append:
  "\<forall>(a, k, u) \<in> set xs. u \<or> k < n \<Longrightarrow>
   amalloc n (xs @ ys) = map_option (\<lambda>(p, bs'). (p, xs @ bs')) (amalloc n ys)"
  by (cases "amalloc n ys"; induction xs) auto

lemma amalloc_None: "amalloc n bs = None \<longleftrightarrow> (\<forall>(a, k, u) \<in> set bs. u \<or> k < n)"
  by (induction n bs rule: amalloc.induct) auto

section \<open>Taking a block\<close>

lemma coalesced_middle:
  assumes "coalesced (xs @ (a, k, False) # ys)"
  shows "coalesced (xs @ (a, n, True) # ys)" "coalesced (xs @ [(a, n, True), (b, l, False)] @ ys)"
proof -
  have "ys = [] \<or> used (hd ys)" using assms by (cases ys) (auto simp: successively_append_iff)
  then show "coalesced (xs @ (a, n, True) # ys)" "coalesced (xs @ [(a, n, True), (b, l, False)] @ ys)"
    using assms by (cases ys; auto simp: successively_append_iff)+
qed

lemma kmalloc_take_whole:
  assumes rep: "heap_pre s (xs @ (a, k, False) # ys)" and n: "n \<le> k" "\<not> n + 44 \<le> k"
  shows "\<exists>s'. kmalloc_take (w32 n) (w32 (lf xs 0)) (w32 a) s = (w32 (a + 12), s') \<and>
    heap_pre s' (xs @ [(a, k, True)] @ ys) \<and> heap_frame (xs @ (a, k, False) # ys) s s'"
proof -
  note d = heap_preD [OF rep]
  have lt: "a + 12 + k < 2 ^ 32" using d by linarith
  have wa: "word_addr a" "word_addr (a + 4)" "word_addr (a + 8)"
    using d(7) lt by (auto simp: word_addr_def)
  have "k < 2 ^ 32" "n + 44 < 2 ^ 32" using lt n(1) d(4,5) by linarith+
  then have cond: "\<not> w32 k \<ge> w32 n + 12 + 32"
    using w32_le_iff [of "n + 44" k] n(2) by (simp add: add.commute)
  define s1 where "s1 = relink (w32 (lf xs 0)) (w32 (nf ys 0)) s"
  define s2 where "s2 = s1\<lparr>mem := put (a + 8) 0 (put a KHEAP_MAGIC_USED (mem s1))\<rparr>"
  have "nf ((a, k, False) # ys) 0 = a" by simp
  note r = relink_links [where v = "nf ys 0", OF d(1) d(3) _ _ d(11), folded s1_def]
  have r1: "hdrs (mem s1) xs (nf ys 0)" "free_list (g_kheap s1) = w32 (nf xs (nf ys 0))"
    "\<And>c. word_addr c \<Longrightarrow> a \<le> c \<Longrightarrow> cell (mem s1) c = cell (mem s) c" "same_safe xs (mem s) (mem s1)"
    using r d(4,5,16) lt by auto
  have sz: "cell (put (a + 8) 0 (put a KHEAP_MAGIC_USED (mem s1))) (a + 4) = w32 k"
    using wa r1(3) [of "a + 4"] d(14) by (simp add: cell_put)
  have eq: "kmalloc_take (w32 n) (w32 (lf xs 0)) (w32 a) s = (w32 (a + 12), add_used (w32 k) s2)"
    using cond sz by (simp add: kmalloc_take_def Let_def hdr_cells d(14,15) s1_def [symmetric] s2_def [symmetric])
  let ?s = "add_used (w32 k) s2"
  have "heap_pre ?s (xs @ [(a, k, True)] @ ys)"
  proof (rule heap_preI [where s = s and ls = "[(a, k, False)]" and a = a and c = "a + 12 + k"])
    show "hdrs (mem ?s) xs (nf ([(a, k, True)] @ ys) 0)"
      using hdrs_cong [OF _ d(1,3), of "mem ?s" "mem s1" "nf ys 0"] r1(1) wa lt
      by (simp add: add_used_def s2_def cell_put)
    show "hdrs (mem ?s) [(a, k, True)] (nf ys 0)"
      using wa sz by (simp add: add_used_def s2_def cell_put)
    show "cell (mem ?s) c = cell (mem s) c" if "word_addr c" "a + 12 + k \<le> c" for c
      using that wa r1(3) by (simp add: add_used_def s2_def cell_put)
  qed (use rep d(1,2,8,17) r1(2) in \<open>simp_all add: add_used_def s2_def s1_def\<close>)
  moreover have "heap_frame (xs @ (a, k, False) # ys) s ?s"
    using same_safe_mono [OF r1(4), of "xs @ (a, k, False) # ys"] writable_hdr [of a k False "xs @ (a, k, False) # ys"] d(7) lt
    by (auto simp: heap_frame_def add_used_def s2_def s1_def intro!: same_safe_put)
  ultimately show ?thesis using eq by blast
qed


lemma kmalloc_take_split:
  assumes rep: "heap_pre s (xs @ (a, k, False) # ys)" and n: "n + 44 \<le> k" "4 dvd n"
  shows "\<exists>s'. kmalloc_take (w32 n) (w32 (lf xs 0)) (w32 a) s = (w32 (a + 12), s') \<and>
    heap_pre s' (xs @ [(a, n, True), (a + 12 + n, k - n - 12, False)] @ ys) \<and>
    heap_frame (xs @ (a, k, False) # ys) s s'"
proof -
  note d = heap_preD [OF rep]
  let ?c = "a + 12 + n" and ?bs = "xs @ (a, k, False) # ys"
  have lt: "a + 12 + k < 2 ^ 32" using d by linarith
  have wa: "word_addr a" "word_addr (a + 4)" "word_addr (a + 8)"
    "word_addr ?c" "word_addr (?c + 4)" "word_addr (?c + 8)"
    using d(7) lt n by (auto simp: word_addr_def)
  have "k < 2 ^ 32" "n + 44 < 2 ^ 32" using lt n(1) by linarith+
  then have cond: "w32 k \<ge> w32 n + 12 + 32"
    using w32_le_iff [of "n + 44" k] n(1) by (simp add: add.commute)
  have rest: "w32 k - w32 n - 12 = w32 (k - n - 12)" using n(1) by simp
  have addr: "w32 a + 12 + w32 n = w32 ?c" by simp
  define m1 where "m1 = put (a + 4) (w32 n) (put (?c + 8) (w32 (nf ys 0))
    (put (?c + 4) (w32 (k - n - 12)) (put ?c KHEAP_MAGIC_FREE (mem s))))"
  have split: "split_block (w32 n) (w32 a) (mem s) = m1"
    using wa d(14,15) unfolding split_block_def Let_def addr hdr_cells
    by (simp only: cell_put rest m1_def) (simp only: rest split: if_splits, simp)
  define s1 where "s1 = relink (w32 (lf xs 0)) (w32 ?c) (s\<lparr>mem := m1\<rparr>)"
  define s2 where "s2 = s1\<lparr>mem := put (a + 8) 0 (put a KHEAP_MAGIC_USED (mem s1))\<rparr>"
  have h1: "hdrs m1 xs (nf ((a, k, False) # ys) 0)"
    using hdrs_cong [OF _ d(1,3), of m1 "mem s" "nf ((a, k, False) # ys) 0"] d(11) wa lt
    by (simp add: m1_def cell_put del: nf.simps)
  note r = relink_links [where v = ?c and s = "s\<lparr>mem := m1\<rparr>", OF d(1) d(3), folded s1_def]
  have r1: "hdrs (mem s1) xs ?c" "free_list (g_kheap s1) = w32 (nf xs ?c)"
    "\<And>c. word_addr c \<Longrightarrow> a \<le> c \<Longrightarrow> cell (mem s1) c = cell m1 c" "same_safe xs m1 (mem s1)"
    using r [where z = "nf ((a, k, False) # ys) 0"] h1 d(4,5,16) lt by auto
  note cells = r1(3) [OF wa(2)] r1(3) [OF wa(4)] r1(3) [OF wa(5)] r1(3) [OF wa(6)]
  have sz: "cell (put (a + 8) 0 (put a KHEAP_MAGIC_USED (mem s1))) (a + 4) = w32 n"
    using wa cells by (simp add: cell_put m1_def)
  have eq: "kmalloc_take (w32 n) (w32 (lf xs 0)) (w32 a) s = (w32 (a + 12), add_used (w32 n) s2)"
    using cond sz unfolding kmalloc_take_def Let_def addr hdr_cells d(14) split
    by (simp add: s1_def [symmetric, simplified] s2_def)
  let ?s = "add_used (w32 n) s2" and ?ms = "[(a, n, True), (?c, k - n - 12, False)]"
  have "heap_pre ?s (xs @ ?ms @ ys)"
  proof (rule heap_preI [where s = s and ls = "[(a, k, False)]" and a = a and c = "a + 12 + k"])
    show "hdrs (mem ?s) xs (nf (?ms @ ys) 0)"
      using hdrs_cong [OF _ d(1,3), of "mem ?s" "mem s1" ?c] r1(1) wa lt
      by (simp add: add_used_def s2_def cell_put)
    show "hdrs (mem ?s) ?ms (nf ys 0)"
      using wa sz cells by (simp add: add_used_def s2_def cell_put m1_def)
    show "cell (mem ?s) c = cell (mem s) c" if "word_addr c" "a + 12 + k \<le> c" for c
      using that wa r1(3) n by (simp add: add_used_def s2_def cell_put m1_def)
    show "tiled a ?ms (a + 12 + k)" using n d(8) by (simp add: dvd_diff_nat)
  qed (use rep d(1,2,8,17) r1(2) in \<open>simp_all add: add_used_def s2_def s1_def\<close>)
  moreover have "heap_frame ?bs s ?s"
  proof -
    have "writable ?bs c" if "word_addr c" "a \<le> c" "c + 4 \<le> a + 12 + k" for c
      using that by (intro writable_free [of a k]) auto
    then have "same_safe ?bs (mem s) m1" "writable ?bs a" "writable ?bs (a + 8)"
      using wa n by (auto simp: m1_def intro!: same_safe_put)
    then have "same_safe ?bs (mem s) (mem ?s)"
      using same_safe_mono [OF r1(4), of ?bs]
      by (auto simp: add_used_def s2_def intro!: same_safe_put intro: same_safe_trans)
    then show ?thesis by (simp add: heap_frame_def add_used_def s2_def s1_def)
  qed
  ultimately show ?thesis using eq by blast
qed


lemma kmalloc_take_block:
  assumes "heap_rep s (xs @ (a, k, False) # ys)" "n \<le> k" "4 dvd n"
  shows "\<exists>s'. kmalloc_take (w32 n) (w32 (lf xs 0)) (w32 a) s = (w32 (a + 12), s') \<and>
    heap_rep s' (xs @ take_block n a k @ ys) \<and> heap_frame (xs @ (a, k, False) # ys) s s'"
proof -
  have rep: "heap_pre s (xs @ (a, k, False) # ys)" "coalesced (xs @ (a, k, False) # ys)"
    using assms(1) by (auto simp: heap_rep_def)
  show ?thesis
    using kmalloc_take_whole [OF rep(1)] kmalloc_take_split [OF rep(1)] coalesced_middle [OF rep(2)] assms(2,3)
    unfolding take_block_def heap_rep_def by (cases "n + 44 \<le> k") auto
qed

section \<open>The walk over the free list\<close>

lemma kmalloc_loop_refines:
  assumes "4 dvd n" "n < 2 ^ 32"
  shows "heap_rep s (xs @ ys) \<Longrightarrow>
    (case amalloc n ys of
       None \<Rightarrow> kmalloc_loop (w32 n) (w32 (lf xs 0)) (w32 (nf ys 0)) s = Some (Returns (0, s))
     | Some (p, ys') \<Rightarrow> \<exists>s'.
         kmalloc_loop (w32 n) (w32 (lf xs 0)) (w32 (nf ys 0)) s = Some (Returns (w32 p, s')) \<and>
         heap_rep s' (xs @ ys') \<and> heap_frame (xs @ ys) s s')"
proof (induction ys arbitrary: xs)
  case Nil
  then show ?case by (simp add: kmalloc_loop.simps)
next
  case (Cons b ys)
  obtain a k u where b: "b = (a, k, u)" by (metis prod_cases3)
  have "heap_pre s (xs @ (a, k, u) # ys)" using Cons.prems b by (simp add: heap_rep_def)
  note d = heap_preD [OF this]
  have IH: "case amalloc n ys of
       None \<Rightarrow> kmalloc_loop (w32 n) (w32 (lf (xs @ [b]) 0)) (w32 (nf ys 0)) s = Some (Returns (0, s))
     | Some (p, ys') \<Rightarrow> \<exists>s'.
         kmalloc_loop (w32 n) (w32 (lf (xs @ [b]) 0)) (w32 (nf ys 0)) s = Some (Returns (w32 p, s')) \<and>
         heap_rep s' (xs @ b # ys') \<and> heap_frame (xs @ b # ys) s s'"
    using Cons.IH [of "xs @ [b]", unfolded append_assoc append_Cons append_Nil] Cons.prems by simp
  show ?case
  proof (cases u)
    case True
    then show ?thesis using IH b by (cases "amalloc n ys") auto
  next
    case False
    have lt: "a + 12 + k < 2 ^ 32" using d by linarith
    have a: "w32 a \<noteq> 0" using d(4,5) lt w32_eq_0_iff [of a] by simp
    have size: "w32 k \<ge> w32 n \<longleftrightarrow> n \<le> k" using assms(2) lt by (intro w32_le_iff) auto
    have step: "kmalloc_loop (w32 n) (w32 (lf xs 0)) (w32 a) s =
      (if n \<le> k then Some (Returns (kmalloc_take (w32 n) (w32 (lf xs 0)) (w32 a) s))
       else kmalloc_loop (w32 n) (w32 a) (w32 (nf ys 0)) s)"
      using False a by (subst kmalloc_loop.simps) (simp add: hdr_cells d(13-15) size)
    show ?thesis
    proof (cases "n \<le> k")
      case True
      then show ?thesis
        using kmalloc_take_block [of s xs a k ys n] Cons.prems False b assms(1) step by auto
    next
      case small: False
      then show ?thesis using IH False b step by (cases "amalloc n ys") auto
    qed
  qed
qed

lemma unat_round8:
  assumes "unat sz + 8 \<le> 2 ^ 32"
  shows "8 dvd unat (round8 sz)" "unat sz \<le> unat (round8 sz)" "unat (round8 sz) < unat sz + 8"
proof -
  have "round8 sz = align_up sz (2 ^ 3)" by (simp add: round8_def align_up_def)
  with align_up_least [of 3 sz] assms show "8 dvd unat (round8 sz)" "unat sz \<le> unat (round8 sz)"
    "unat (round8 sz) < unat sz + 8" by simp_all
qed

text \<open>\<open>kmalloc\<close> ends, and is first fit on the blocks for the rounded size.\<close>

lemma kmalloc_refines:
  assumes "heap_rep s bs" "sz \<noteq> 0" "unat sz + 8 \<le> 2 ^ 32"
  shows "case amalloc (unat (round8 sz)) bs of
       None \<Rightarrow> kmalloc sz s = Some (Returns (0, s))
     | Some (p, bs') \<Rightarrow> \<exists>s'. kmalloc sz s = Some (Returns (w32 p, s')) \<and> heap_rep s' bs' \<and> heap_frame bs s s'"
proof -
  have "(4 :: nat) dvd 8" by simp
  then have "4 dvd unat (round8 sz)" using unat_round8(1) [OF assms(3)] dvd_trans by blast
  note loop = kmalloc_loop_refines [OF this unat_lt_32, of s "[]" bs, unfolded append_Nil, OF assms(1)]
  have "free_list (g_kheap s) = w32 (nf bs 0)" using assms(1) by (simp add: heap_rep_def heap_pre_def Let_def)
  then have "kmalloc sz s = kmalloc_loop (w32 (unat (round8 sz))) (w32 (lf [] 0)) (w32 (nf bs 0)) s"
    using assms(2) by (simp add: kmalloc_def)
  then show ?thesis using loop by (simp only:)
qed

end
