(* ===== verification/Leg_Kheap_Free.thy ===== *)
theory Leg_Kheap_Free
  imports Leg_Kheap_Alloc
begin

text \<open>
  \<open>kfree\<close> marks the block free, links it into the address-ordered list and merges it with its free
  neighbours. Its abstract counterpart \<open>afree\<close> marks the block and then merges every pair of free
  neighbours; since the list had none before, the two local merges of the code are enough.
\<close>

section \<open>Merging on blocks\<close>

fun coalesce :: "block list \<Rightarrow> block list" where
  "coalesce ((a, k, u) # (b, l, v) # bs) =
     (if \<not> u \<and> \<not> v then coalesce ((a, k + 12 + l, False) # bs) else (a, k, u) # coalesce ((b, l, v) # bs))"
| "coalesce bs = bs"

definition afree :: "nat \<Rightarrow> block list \<Rightarrow> block list" where
  "afree p bs = coalesce (map (\<lambda>(a, k, u). (a, k, u \<and> a + 12 \<noteq> p)) bs)"

lemma coalesce_id: "coalesced bs \<Longrightarrow> coalesce bs = bs"
  by (induction bs rule: coalesce.induct) auto

lemma coalesce_append:
  "coalesced xs \<Longrightarrow> xs = [] \<or> used (last xs) \<or> ys = [] \<or> used (hd ys) \<Longrightarrow>
   coalesce (xs @ ys) = xs @ coalesce ys"
proof (induction xs rule: induct_list012)
  case (2 x)
  then show ?case by (cases ys; cases x) auto
next
  case (3 x y zs)
  then show ?case by (cases x; cases y) auto
qed simp

definition merge_next :: "nat \<Rightarrow> nat \<Rightarrow> block list \<Rightarrow> block list" where
  "merge_next a k ys =
     (case ys of (b, l, v) # ys' \<Rightarrow> if v then (a, k, False) # ys else (a, k + 12 + l, False) # ys'
      | [] \<Rightarrow> [(a, k, False)])"

lemma merge_next_cases:
  obtains (merge) b l ys' where "ys = (b, l, False) # ys'" "merge_next a k ys = (a, k + 12 + l, False) # ys'"
  | (keep) "ys = [] \<or> used (hd ys)" "merge_next a k ys = (a, k, False) # ys"
  by (cases ys; cases "used (hd ys)") (auto simp: merge_next_def)

lemma merge_next_shift:
  "merge_next a k ys = (a, k', False) # ys' \<Longrightarrow> merge_next p (l + k) ys = (p, l + k', False) # ys'"
  by (auto simp: merge_next_def split: list.splits if_splits)

lemma coalesce_merge_next:
  assumes "coalesced ys"
  shows "coalesce ((a, k, False) # ys) = merge_next a k ys" "coalesced (merge_next a k ys)"
proof -
  have co: "coalesced (merge_next a k ys)"
    using assms by (cases rule: merge_next_cases [of ys a k]) (auto simp: successively_Cons)
  moreover have "coalesce ((a, k, False) # ys) = coalesce (merge_next a k ys)"
    by (cases rule: merge_next_cases [of ys a k]) auto
  ultimately show "coalesce ((a, k, False) # ys) = merge_next a k ys" "coalesced (merge_next a k ys)"
    using coalesce_id by auto
qed

section \<open>Absorbing the block above\<close>

lemma absorb_cells:
  assumes "word_addr p" "word_addr (p + 4)" "word_addr (p + 8)" "word_addr q" "word_addr (q + 4)"
    "word_addr (q + 8)" "p + 12 \<le> q" "word_addr c"
  shows "cell (absorb (w32 p) (w32 q) m) c =
    (if c = p + 4 then cell m (p + 4) + (12 + cell m (q + 4))
     else if c = p + 8 then cell m (q + 8) else if c = q then KHEAP_MAGIC_DEAD else cell m c)"
  using assms by (simp add: absorb_def Let_def hdr_cells cell_put)

lemma absorb_rep:
  assumes rep: "heap_pre s (xs @ (p, l, False) # (q, k, False) # ys)"
  defines "s' \<equiv> s\<lparr>mem := absorb (w32 p) (w32 q) (mem s)\<rparr>"
  shows "heap_pre s' (xs @ (p, l + 12 + k, False) # ys)" (is ?rep)
    and "cell (mem s') q = KHEAP_MAGIC_DEAD" (is ?dead)
    and "cell (mem s') (q + 8) = cell (mem s) (q + 8)" (is ?next)
    and "\<lbrakk>writable bs (p + 4); writable bs (p + 8); writable bs q\<rbrakk> \<Longrightarrow> heap_frame bs s s'"
proof -
  have rep': "heap_pre s ((xs @ [(p, l, False)]) @ (q, k, False) # ys)" using rep by simp
  note d = heap_preD [OF rep] and e = heap_preD [OF rep']
  have q: "q = p + 12 + l" using d(2) by simp
  have lt: "q + 12 + k < 2 ^ 32" using e(6,9) by linarith
  have wa: "word_addr p" "word_addr (p + 4)" "word_addr (p + 8)" "word_addr q" "word_addr (q + 4)"
    "word_addr (q + 8)"
    using word_addr_hdr [OF d(7)] word_addr_hdr [OF e(7)] lt q by auto
  note cells = absorb_cells [OF wa, of _ "mem s"]
  have pq: "p + 12 \<le> q" "p \<le> 2 ^ 32" using q lt by auto
  have "heap_pre s' (xs @ [(p, l + 12 + k, False)] @ ys)"
  proof (rule heap_preI [where s = s and ls = "[(p, l, False), (q, k, False)]" and a = p and c = "q + 12 + k"])
    show "hdrs (mem s') xs (nf ([(p, l + 12 + k, False)] @ ys) 0)"
      using hdrs_cong [OF _ d(1,3), of "mem s'" "mem s" p] d(11) pq
      by (simp add: s'_def cells)
    show "hdrs (mem s') [(p, l + 12 + k, False)] (nf ys 0)"
      using cells wa pq d(13-15) e(14,15) by (simp add: s'_def)
    show "cell (mem s') c = cell (mem s) c" if "word_addr c" "q + 12 + k \<le> c" for c
      using that cells pq by (simp add: s'_def)
    show "tiled p [(p, l + 12 + k, False)] (q + 12 + k)" using d(8) e(8) q by simp
  qed (use rep d(1,16,17) e(2) in \<open>simp_all add: s'_def\<close>)
  then show ?rep by simp
  show ?dead ?next using cells wa pq by (simp_all add: s'_def)
  show "heap_frame bs s s'" if "writable bs (p + 4)" "writable bs (p + 8)" "writable bs q"
    using that by (simp add: heap_frame_def s'_def absorb_def Let_def hdr_cells same_safe_put)
qed


section \<open>The two coalescing steps\<close>

lemma tiled_below: "tiled a bs e \<Longrightarrow> (b, k, u) \<in> set bs \<Longrightarrow> b + 12 + k \<le> e"
  by (induction a bs e rule: tiled.induct) (auto dest: tiled_le)

lemma nf_ge: "tiled a bs e \<Longrightarrow> nf bs 0 = 0 \<or> a \<le> nf bs 0 \<and> nf bs 0 < e"
  by (induction a bs e rule: tiled.induct) (auto dest: tiled_le)

lemma nf_dvd: "tiled a bs e \<Longrightarrow> 4 dvd a \<Longrightarrow> 4 dvd nf bs 0"
  by (induction a bs e rule: tiled.induct) auto

definition hdrs_writable :: "block list \<Rightarrow> block list \<Rightarrow> bool" where
  "hdrs_writable bs xs \<longleftrightarrow>
     (\<forall>b \<in> set xs. writable bs (fst b) \<and> writable bs (fst b + 4) \<and> writable bs (fst b + 8))"

lemma hdrs_writable_simps [simp]:
  "hdrs_writable bs []"
  "hdrs_writable bs ((a, k, u) # xs) \<longleftrightarrow>
     writable bs a \<and> writable bs (a + 4) \<and> writable bs (a + 8) \<and> hdrs_writable bs xs"
  "hdrs_writable bs (xs @ ys) \<longleftrightarrow> hdrs_writable bs xs \<and> hdrs_writable bs ys"
  by (auto simp: hdrs_writable_def)

lemma hdrs_writable_self:
  assumes "heap_pre s bs" shows "hdrs_writable bs bs"
proof -
  let ?b = "unat (kh_base (g_kheap s))" and ?e = "unat (kh_base (g_kheap s)) + unat (kh_capacity (g_kheap s))"
  have t: "tiled ?b bs ?e" "4 dvd ?b" "?e < 2 ^ 32" using assms by (auto simp: heap_pre_def Let_def)
  have "writable bs a \<and> writable bs (a + 4) \<and> writable bs (a + 8)" if "(a, k, u) \<in> set bs" for a k u
    using tiled_block [OF t(1) that t(2)] writable_hdr [OF that] t(3) by auto
  then show ?thesis by (auto simp: hdrs_writable_def)
qed

lemma coalesce_next_rep:
  assumes rep: "heap_pre s (xs @ (a, k, False) # ys)"
  defines "s' \<equiv> s\<lparr>mem := coalesce_next (w32 a) (mem s)\<rparr>"
  shows "heap_pre s' (xs @ merge_next a k ys)" (is ?rep)
    and "hdrs_writable bs ((a, k, False) # ys) \<Longrightarrow> heap_frame bs s s'" (is "?w \<Longrightarrow> ?frame")
proof -
  note d = heap_preD [OF rep]
  have lt: "a + 12 + k < 2 ^ 32" using d by linarith
  have nxt: "h_next (mem s) (w32 a) = w32 (nf ys 0)" "h_size (mem s) (w32 a) = w32 k"
    using d(14,15) by (simp_all add: hdr_cells)
  have "?rep \<and> (?w \<longrightarrow> ?frame)"
  proof (cases rule: merge_next_cases [of ys a k])
    case (merge b l ys')
    have b: "b = a + 12 + k" using d(2) merge(1) by simp
    have rep2: "heap_pre s ((xs @ [(a, k, False)]) @ (b, l, False) # ys')" using rep merge(1) by simp
    note e = heap_preD [OF rep2]
    have "w32 b \<noteq> 0" using e(4,5,6,9) w32_eq_0_iff [of b] by simp
    moreover have "h_magic (mem s) (w32 b) = KHEAP_MAGIC_FREE" using e(13) by (simp add: hdr_cells)
    ultimately have "s' = s\<lparr>mem := absorb (w32 a) (w32 b) (mem s)\<rparr>"
      using nxt merge(1) b by (simp add: s'_def coalesce_next_def)
    then show ?thesis
      using absorb_rep [of s xs a k b l ys'] rep merge by simp
  next
    case keep
    have "nf ys 0 \<noteq> a + 12 + k"
    proof (cases ys)
      case (Cons y zs)
      then obtain b l where y: "y = (b, l, True)" using keep(1) by (cases y) auto
      then have "tiled (b + 12 + l) zs (unat (kh_base (g_kheap s)) + unat (kh_capacity (g_kheap s)))"
        "b = a + 12 + k" using d(2) Cons by auto
      then show ?thesis using nf_ge [of "b + 12 + l" zs] Cons y by auto
    qed (use d(4,5) in simp)
    moreover have "nf ys 0 < 2 ^ 32" using nf_ge [OF d(2)] d(6) by auto
    ultimately have "w32 (nf ys 0) \<noteq> w32 (a + 12 + k)" using lt
      by (simp only: w32_eq_iff not_False_eq_True)
    then have "s' = s" using nxt by (simp add: s'_def coalesce_next_def)
    then show ?thesis using rep keep(2) by (simp add: heap_frame_def)
  qed
  then show ?rep "?w \<Longrightarrow> ?frame" by blast+
qed


definition merge_prev :: "block list \<Rightarrow> nat \<Rightarrow> nat \<Rightarrow> block list \<Rightarrow> block list" where
  "merge_prev xs a k ys =
     (if xs = [] \<or> used (last xs) then xs @ (a, k, False) # ys
      else butlast xs @ (fst (last xs), fst (snd (last xs)) + 12 + k, False) # ys)"

lemma merge_prev_cases:
  obtains (merge) xs' p l where "xs = xs' @ [(p, l, False)]" "merge_prev xs a k ys = xs' @ (p, l + 12 + k, False) # ys"
  | (keep) "xs = [] \<or> used (last xs)" "merge_prev xs a k ys = xs @ (a, k, False) # ys"
  by (cases xs rule: rev_cases; cases "used (last xs)") (auto simp: merge_prev_def)

lemma lf_not_adjacent:
  assumes "tiled b xs a" "xs = [] \<or> used (last xs)" "lf xs 0 \<noteq> 0"
  obtains us p l vs where "xs = us @ (p, l, False) # vs" "lf xs 0 = p" "p + 12 + l < a"
proof (cases rule: last_free_cases [of xs])
  case none
  then show ?thesis using assms(3) all_used_links(2) by simp
next
  case (some us p l vs)
  have "vs \<noteq> []" using assms(2) some(1) by auto
  then obtain c m u vs' where vs: "vs = (c, m, u) # vs'" by (metis list.exhaust prod_cases3)
  have "tiled (p + 12 + l) vs a" using assms(1) some(1) by (auto simp: tiled_append)
  then have "p + 12 + l < a" using vs tiled_le by fastforce
  then show ?thesis using some all_used_links(2) that by simp
qed

lemma coalesce_prev_rep:
  assumes rep: "heap_pre s (xs @ (a, k, False) # ys)"
  defines "s' \<equiv> s\<lparr>mem := coalesce_prev (w32 (lf xs 0)) (w32 a) (mem s)\<rparr>"
  shows "heap_pre s' (merge_prev xs a k ys)" (is ?rep)
    and "cell (mem s') a \<noteq> KHEAP_MAGIC_USED \<and> cell (mem s') (a + 8) = w32 (nf ys 0)" (is ?hdr)
    and "hdrs_writable bs (xs @ [(a, k, False)]) \<Longrightarrow> heap_frame bs s s'" (is "?w \<Longrightarrow> ?frame")
proof -
  note d = heap_preD [OF rep]
  have "?rep \<and> ?hdr \<and> (?w \<longrightarrow> ?frame)"
  proof (cases rule: merge_prev_cases [of xs a k ys])
    case (merge xs' p l)
    have rep2: "heap_pre s (xs' @ (p, l, False) # (a, k, False) # ys)" using rep merge(1) by simp
    note e = heap_preD [OF rep2]
    have "w32 p \<noteq> 0" using e(4,5,6,9) w32_eq_0_iff [of p] by simp
    moreover have "a = p + 12 + l" using e(2) by simp
    moreover have "h_magic (mem s) (w32 p) = KHEAP_MAGIC_FREE" "h_size (mem s) (w32 p) = w32 l"
      using e(13,14) by (auto simp: hdr_cells)
    ultimately have "s' = s\<lparr>mem := absorb (w32 p) (w32 a) (mem s)\<rparr>"
      using merge(1) by (simp add: s'_def coalesce_prev_def)
    then show ?thesis
      using absorb_rep [OF rep2] merge d(15) by simp
  next
    case keep
    have "s' = s"
    proof (cases "lf xs 0 = 0")
      case False
      then obtain us p l vs where p: "xs = us @ (p, l, False) # vs" "lf xs 0 = p" "p + 12 + l < a"
        using lf_not_adjacent [OF d(1) keep(1)] by blast
      have "heap_pre s (us @ (p, l, False) # (vs @ (a, k, False) # ys))" using rep p(1) by simp
      from heap_preD(14) [OF this] have size: "h_size (mem s) (w32 p) = w32 l" by (simp add: hdr_cells)
      have "a < 2 ^ 32" "p + 12 + l < 2 ^ 32" using d p(3) by linarith+
      then have "w32 a \<noteq> w32 (p + 12 + l)" using p(3) w32_eq_iff [of a "p + 12 + l"] by auto
      then show ?thesis using p(2) size by (simp add: s'_def coalesce_prev_def)
    qed (simp add: s'_def coalesce_prev_def)
    then show ?thesis using rep keep(2) d(13,15) by (simp add: heap_frame_def)
  qed
  then show ?rep ?hdr "?w \<Longrightarrow> ?frame" by blast+
qed

section \<open>Linking the block in\<close>

lemma kfree_find_links:
  assumes "a < 2 ^ 32" "z = 0 \<or> a \<le> z" "z < 2 ^ 32"
  shows "tiled c xs a \<Longrightarrow> 0 < c \<Longrightarrow> hdrs m xs z \<Longrightarrow>
    kfree_find m (w32 a) (w32 p) (w32 (nf xs z)) = Some (w32 (lf xs p), w32 z)"
proof (induction xs arbitrary: c p)
  case Nil
  have "\<not> (w32 z \<noteq> 0 \<and> w32 z < w32 a)"
    using assms w32_less_iff [of z a] by auto
  then show ?case by (subst kfree_find.simps) auto
next
  case (Cons x xs)
  obtain b k u where x: "x = (b, k, u)" by (metis prod_cases3)
  have b: "b = c" "tiled (c + 12 + k) xs a" using Cons.prems(1) x by auto
  have IH: "kfree_find m (w32 a) (w32 p) (w32 (nf xs z)) = Some (w32 (lf xs p), w32 z)" for p
    using Cons.IH [OF b(2)] Cons.prems(3) x by simp
  show ?case
  proof (cases u)
    case False
    have "c < a" using tiled_le [OF b(2)] by simp
    then have "w32 b \<noteq> 0 \<and> w32 b < w32 a"
      using b(1) assms(1) Cons.prems(2) w32_eq_0_iff [of c] w32_less_iff [of c a] by auto
    moreover have "h_next m (w32 b) = w32 (nf xs z)"
      using Cons.prems(3) x False by (simp add: hdr_cells)
    ultimately show ?thesis
      using IH [of b] x False by (subst kfree_find.simps) simp
  qed (use IH x in simp)
qed

text \<open>Marking the block and linking it in gives the block list with that block free.\<close>

definition kfree_link :: "u32 \<Rightarrow> u32 \<Rightarrow> u32 \<Rightarrow> mm_state \<Rightarrow> mm_state" where
  "kfree_link h prev cur s =
     (let m1 = set_magic h KHEAP_MAGIC_FREE (mem s);
          s1 = s\<lparr>mem := m1, g_kheap := (g_kheap s)\<lparr>kh_used := kh_used (g_kheap s) - h_size m1 h\<rparr>\<rparr>
      in relink prev h (s1\<lparr>mem := set_next h cur m1\<rparr>))"

lemma kfree_link_rep:
  assumes rep: "heap_pre s (xs @ (a, k, True) # ys)"
  defines "s' \<equiv> kfree_link (w32 a) (w32 (lf xs 0)) (w32 (nf ys 0)) s"
  shows "heap_pre s' (xs @ (a, k, False) # ys)"
    and "heap_frame (xs @ (a, k, True) # ys) s s'"
proof -
  note d = heap_preD [OF rep]
  let ?bs = "xs @ (a, k, True) # ys"
  have lt: "a + 12 + k < 2 ^ 32" using d by linarith
  have wa: "word_addr a" "word_addr (a + 4)" "word_addr (a + 8)"
    using word_addr_hdr [OF d(7)] lt by auto
  define m2 where "m2 = put (a + 8) (w32 (nf ys 0)) (put a KHEAP_MAGIC_FREE (mem s))"
  define s1 where "s1 = s\<lparr>g_kheap := (g_kheap s)\<lparr>kh_used := kh_used (g_kheap s) - w32 k\<rparr>, mem := m2\<rparr>"
  have s': "s' = relink (w32 (lf xs 0)) (w32 a) s1"
    using d(14) wa by (simp add: s'_def kfree_link_def Let_def hdr_cells cell_put s1_def m2_def)
  have h1: "hdrs (mem s1) xs (nf ys 0)"
    using hdrs_cong [OF _ d(1,3), of "mem s1" "mem s" "nf ys 0"] d(11) wa lt
    by (simp add: s1_def m2_def cell_put)
  note r = relink_links [where v = a and s = s1, OF d(1) d(3) _ _ h1, folded s']
  have r1: "hdrs (mem s') xs a" "free_list (g_kheap s') = w32 (nf xs a)"
    "\<And>c. word_addr c \<Longrightarrow> a \<le> c \<Longrightarrow> cell (mem s') c = cell m2 c" "same_safe xs m2 (mem s')"
    using r d(4,5,16) lt by (auto simp: s1_def)
  note cells = r1(3) [OF wa(1)] r1(3) [OF wa(2)] r1(3) [OF wa(3)]
  have "heap_pre s' (xs @ [(a, k, False)] @ ys)"
  proof (rule heap_preI [where s = s and ls = "[(a, k, True)]" and a = a and c = "a + 12 + k"])
    show "hdrs (mem s') [(a, k, False)] (nf ys 0)"
      using cells wa d(14) by (simp add: m2_def cell_put)
    show "cell (mem s') c = cell (mem s) c" if "word_addr c" "a + 12 + k \<le> c" for c
      using that wa r1(3) by (simp add: m2_def cell_put)
    show "kh_used (g_kheap s') = w32 (used_sum (xs @ [(a, k, False)] @ ys))"
      using d(17) by (simp add: s' s1_def)
  qed (use rep d(1,2,8) r1(1,2) in \<open>simp_all add: s' s1_def\<close>)
  then show "heap_pre s' (xs @ (a, k, False) # ys)" by simp
  have "writable ?bs a" "writable ?bs (a + 8)"
    using writable_hdr [of a k True ?bs] d(7) lt by auto
  then have "same_safe ?bs (mem s) m2" by (simp add: m2_def same_safe_put)
  then have "same_safe ?bs (mem s) (mem s')"
    using same_safe_mono [OF r1(4), of ?bs] same_safe_trans by auto
  then show "heap_frame ?bs s s'" by (simp add: heap_frame_def s' s1_def)
qed


section \<open>The whole operation\<close>

lemma heap_frame_trans: "heap_frame bs s s' \<Longrightarrow> heap_frame bs s' s'' \<Longrightarrow> heap_frame bs s s''"
  by (auto simp: heap_frame_def intro: same_safe_trans)

lemma coalesced_append_iff:
  "coalesced (xs @ ys) \<longleftrightarrow> coalesced xs \<and> coalesced ys \<and> (xs = [] \<or> ys = [] \<or> used (last xs) \<or> used (hd ys))"
  by (auto simp: successively_append_iff)

lemma afree_merges:
  assumes t: "tiled b (xs @ (a, k, True) # ys) e" and co: "coalesced (xs @ (a, k, True) # ys)"
    and m: "merge_next a k ys = (a, k', False) # ys'"
  shows "afree (a + 12) (xs @ (a, k, True) # ys) = merge_prev xs a k' ys'"
    and "coalesced (merge_prev xs a k' ys')"
proof -
  have other: "map (\<lambda>(c, k, u). (c, k, u \<and> c \<noteq> a)) zs = zs" if "a \<notin> fst ` set zs" for zs
    using that by (induction zs) auto
  have "c \<noteq> a" if "(c, l, v) \<in> set xs \<or> (c, l, v) \<in> set ys" for c l v
  proof -
    have "(tiled b xs a \<and> tiled (a + 12 + k) ys e)" using t by (auto simp: tiled_append)
    then show ?thesis using that tiled_ge [of "a + 12 + k" ys e c l v] tiled_below [of b xs a c l v] by auto
  qed
  then have "a \<notin> fst ` set xs" "a \<notin> fst ` set ys" by (auto, blast+)
  then have marked: "afree (a + 12) (xs @ (a, k, True) # ys) = coalesce (xs @ (a, k, False) # ys)"
    by (simp add: afree_def other)
  have cx: "coalesced xs" "coalesced ys" "coalesced ((a, k', False) # ys')"
    using co coalesce_merge_next(2) [of ys a k] m by (auto simp: coalesced_append_iff successively_Cons)
  have "coalesce (xs @ (a, k, False) # ys) = merge_prev xs a k' ys' \<and> coalesced (merge_prev xs a k' ys')"
  proof (cases rule: merge_prev_cases [of xs a k' ys'])
    case (merge xs' p l)
    have nx: "merge_next p (l + 12 + k) ys = (p, l + 12 + k', False) # ys'"
      using m merge_next_shift by blast
    have x': "coalesced xs'" "xs' = [] \<or> used (last xs')"
      using cx(1) merge(1) by (auto simp: coalesced_append_iff)
    have "coalesce (xs @ (a, k, False) # ys) = xs' @ coalesce ((p, l + 12 + k, False) # ys)"
      using coalesce_append [OF x'(1), of "(p, l, False) # (a, k, False) # ys"] x'(2) merge(1) by auto
    then have "coalesce (xs @ (a, k, False) # ys) = merge_prev xs a k' ys'"
      using coalesce_merge_next(1) [OF cx(2)] nx merge(2) by simp
    moreover have "coalesced ((p, l + 12 + k', False) # ys')"
      using coalesce_merge_next(2) [OF cx(2), of p "l + 12 + k"] nx by simp
    ultimately show ?thesis using x' merge(2) by (auto simp: coalesced_append_iff)
  next
    case keep
    have "coalesce (xs @ (a, k, False) # ys) = xs @ merge_next a k ys"
      using coalesce_append [OF cx(1), of "(a, k, False) # ys"] keep(1) coalesce_merge_next(1) [OF cx(2)]
      by auto
    then show ?thesis using m keep cx by (auto simp: coalesced_append_iff)
  qed
  then show "afree (a + 12) (xs @ (a, k, True) # ys) = merge_prev xs a k' ys'"
    and "coalesced (merge_prev xs a k' ys')"
    using marked by simp_all
qed

text \<open>A pointer handed out by \<open>kmalloc\<close> carries no tag: the word below it is a cleared link.\<close>

lemma raw_of_block:
  assumes "4 dvd unat (cell (mem s) (a + 8))" shows "raw_of s (w32 (a + 12)) = w32 (a + 12)"
proof -
  have "w32 (a + 12) - 8 + 4 = w32 (a + 8)" by simp
  moreover have "cell (mem s) (a + 8) \<noteq> ALIGN_TAG" using assms by auto
  ultimately have "rd32 (mem s) (w32 (a + 12) - 8 + 4) \<noteq> ALIGN_TAG" by (simp only: cell_def not_False_eq_True)
  then show ?thesis unfolding raw_of_def Let_def by auto
qed

lemma hdr_valid_block:
  assumes "heap_pre s (xs @ (a, k, u) # ys)"
  shows "hdr_valid s (w32 a) v \<longleftrightarrow> cell (mem s) a = v"
proof -
  note d = heap_preD [OF assms]
  have lt: "a + 12 < 2 ^ 32" using d by linarith
  have "unat (kh_base (g_kheap s) + kh_capacity (g_kheap s)) =
      unat (kh_base (g_kheap s)) + unat (kh_capacity (g_kheap s))"
    using d(6) by (rule unat_add_no_wrap)
  moreover have "unat (w32 a) = a" "unat (w32 (a + 12)) = a + 12" using lt by (simp_all only: unat_w32)
  ultimately have "\<not> w32 a < kh_base (g_kheap s)"
    "\<not> w32 (a + 12) > kh_base (g_kheap s) + kh_capacity (g_kheap s)"
    using d(5,9) by (simp_all only: word_less_nat_alt not_less)
  then show ?thesis by (simp add: hdr_valid_def hdr_cells)
qed

lemma kfree_refines:
  assumes rep: "heap_rep s bs" and blk: "(a, k, True) \<in> set bs"
  shows "\<exists>s'. kfree (w32 (a + 12)) s = Some (Returns s') \<and> heap_rep s' (afree (a + 12) bs) \<and>
    heap_frame bs s s' \<and> cell (mem s') a \<noteq> KHEAP_MAGIC_USED \<and> 4 dvd unat (cell (mem s') (a + 8))"
proof -
  obtain xs ys where bs: "bs = xs @ (a, k, True) # ys" using blk by (meson split_list)
  have pre: "heap_pre s (xs @ (a, k, True) # ys)" and co: "coalesced (xs @ (a, k, True) # ys)"
    using rep bs by (auto simp: heap_rep_def)
  note d = heap_preD [OF pre]
  obtain k' ys' where m: "merge_next a k ys = (a, k', False) # ys'"
    using merge_next_cases [of ys a k] by metis
  let ?s1 = "kfree_link (w32 a) (w32 (lf xs 0)) (w32 (nf ys 0)) s"
  let ?s2 = "?s1\<lparr>mem := coalesce_next (w32 a) (mem ?s1)\<rparr>"
  let ?s3 = "?s2\<lparr>mem := coalesce_prev (w32 (lf xs 0)) (w32 a) (mem ?s2)\<rparr>"
  note l1 = kfree_link_rep [OF pre]
  note l2 = coalesce_next_rep [OF l1(1), unfolded m]
  note l3 = coalesce_prev_rep [OF l2(1)]
  have wa: "word_addr a" "word_addr (a + 4)" "word_addr (a + 8)"
    using word_addr_hdr [OF d(7)] d(6,9) by auto
  have hx: "hdrs (put a KHEAP_MAGIC_FREE (mem s)) xs (nf ys 0)"
    using hdrs_cong [OF _ d(1,3), of _ "mem s" "nf ys 0"] d(11) wa d(6,9) by (simp add: cell_put)
  have "nf ys 0 = 0 \<or> a \<le> nf ys 0" "nf ys 0 < 2 ^ 32" "a < 2 ^ 32" "0 < unat (kh_base (g_kheap s))"
    using nf_ge [OF d(2)] d by auto
  from kfree_find_links [OF this(3,1,2) d(1) this(4) hx, of 0]
  have find: "kfree_find (put a KHEAP_MAGIC_FREE (mem s)) (w32 a) 0 (free_list (g_kheap s)) =
      Some (w32 (lf xs 0), w32 (nf ys 0))" using d(16) by simp
  have hdr: "hdr_of (w32 (a + 12)) = w32 a" by (simp add: hdr_of_def)
  have raw: "raw_of s (w32 (a + 12)) = w32 (a + 12)" using raw_of_block d(15) by simp
  have ptr: "w32 (a + 12) \<noteq> 0" using w32_eq_0_iff [of "a + 12"] d by linarith
  have valid: "hdr_valid s (w32 a) KHEAP_MAGIC_USED" using hdr_valid_block [OF pre] d(13) by simp
  have "kfree (w32 (a + 12)) s = Some (Returns ?s3)"
    unfolding kfree_def Let_def raw hdr using ptr valid find
    by (simp add: hdr_cells kfree_link_def Let_def)
  moreover have "heap_rep ?s3 (afree (a + 12) bs)"
  proof -
    have "tiled (unat (kh_base (g_kheap s))) (xs @ (a, k, True) # ys)
        (unat (kh_base (g_kheap s)) + unat (kh_capacity (g_kheap s)))"
      using pre by (simp add: heap_pre_def Let_def)
    from afree_merges [OF this co m] l3(1) bs show ?thesis by (simp add: heap_rep_def)
  qed
  moreover have "heap_frame bs s ?s3"
  proof -
    have "hdrs_writable bs (xs @ (a, k, False) # ys)" using hdrs_writable_self [OF pre] bs by simp
    then have "heap_frame bs ?s1 ?s2" "heap_frame bs ?s2 ?s3"
      using l2(2) [of bs] l3(3) [of bs] by simp_all
    moreover have "heap_frame bs s ?s1" using l1(2) bs by simp
    ultimately show ?thesis by (blast intro: heap_frame_trans)
  qed
  moreover have "4 dvd unat (cell (mem ?s3) (a + 8))"
  proof -
    note e = heap_preD [OF l2(1)]
    have "nf ys' 0 < 2 ^ 32" using nf_ge [OF e(2)] e(6) by auto
    then show ?thesis using l3(2) nf_dvd [OF e(2)] e(7,8) by (simp add: unat_w32)
  qed
  ultimately show ?thesis using l3(2) by blast
qed

end
