(* ===== verification/Leg_Heap_Interface.thy ===== *)
theory Leg_Heap_Interface
  imports Main
begin

text \<open>
  What the clients of the kernel heap (device tree, file system, keyboard, processes) rely on.
  The locale \<open>heap_allocator\<close> states the contract of one allocation and one release: live blocks
  are disjoint, a new block is at least as large as asked for, and neither operation changes a byte
  of another live block. The client lemma is about any sequence of operations.
\<close>

datatype heap_op = Alloc nat | Free nat

fun run_ops :: "(nat \<Rightarrow> 's \<Rightarrow> (nat \<times> 's) option) \<Rightarrow> (nat \<Rightarrow> 's \<Rightarrow> 's option) \<Rightarrow> heap_op list \<Rightarrow> 's \<Rightarrow> 's option" where
  "run_ops al fr [] s = Some s"
| "run_ops al fr (Alloc n # ops) s =
     (case al n s of None \<Rightarrow> run_ops al fr ops s | Some (p, s') \<Rightarrow> run_ops al fr ops s')"
| "run_ops al fr (Free p # ops) s =
     (case fr p s of None \<Rightarrow> None | Some s' \<Rightarrow> run_ops al fr ops s')"

text \<open>A sequence is legal when it asks for admissible sizes and frees live blocks only.\<close>

fun legal_ops ::
  "(nat \<Rightarrow> bool) \<Rightarrow> ('s \<Rightarrow> (nat \<times> nat) set) \<Rightarrow> (nat \<Rightarrow> 's \<Rightarrow> (nat \<times> 's) option) \<Rightarrow>
   (nat \<Rightarrow> 's \<Rightarrow> 's option) \<Rightarrow> heap_op list \<Rightarrow> 's \<Rightarrow> bool" where
  "legal_ops req live al fr [] s \<longleftrightarrow> True"
| "legal_ops req live al fr (Alloc n # ops) s \<longleftrightarrow>
     req n \<and> (case al n s of None \<Rightarrow> legal_ops req live al fr ops s
               | Some (p, s') \<Rightarrow> legal_ops req live al fr ops s')"
| "legal_ops req live al fr (Free p # ops) s \<longleftrightarrow>
     (\<exists>n. (p, n) \<in> live s) \<and>
     (case fr p s of None \<Rightarrow> True | Some s' \<Rightarrow> legal_ops req live al fr ops s')"

locale heap_allocator =
  fixes inv :: "'s \<Rightarrow> bool"
    and live :: "'s \<Rightarrow> (nat \<times> nat) set"
    and byte :: "'s \<Rightarrow> nat \<Rightarrow> 'v"
    and req :: "nat \<Rightarrow> bool"
    and al :: "nat \<Rightarrow> 's \<Rightarrow> (nat \<times> 's) option"
    and fr :: "nat \<Rightarrow> 's \<Rightarrow> 's option"
  assumes live_disjoint: "inv s \<Longrightarrow> (p, n) \<in> live s \<Longrightarrow> (q, m) \<in> live s \<Longrightarrow>
      p = q \<and> n = m \<or> p + n < q \<or> q + m < p"
    and al_block: "inv s \<Longrightarrow> req n \<Longrightarrow> al n s = Some (p, s') \<Longrightarrow>
      inv s' \<and> (\<exists>m \<ge> n. (p, m) \<notin> live s \<and> live s' = insert (p, m) (live s))"
    and al_bytes: "inv s \<Longrightarrow> req n \<Longrightarrow> al n s = Some (p, s') \<Longrightarrow>
      (q, m) \<in> live s \<Longrightarrow> q \<le> x \<Longrightarrow> x < q + m \<Longrightarrow> byte s' x = byte s x"
    and fr_block: "inv s \<Longrightarrow> (p, n) \<in> live s \<Longrightarrow>
      \<exists>s'. fr p s = Some s' \<and> inv s' \<and> live s' = live s - {(p, n)}"
    and fr_bytes: "inv s \<Longrightarrow> (p, n) \<in> live s \<Longrightarrow> fr p s = Some s' \<Longrightarrow>
      (q, m) \<in> live s' \<Longrightarrow> q \<le> x \<Longrightarrow> x < q + m \<Longrightarrow> byte s' x = byte s x"
begin

lemma al_fr_live:
  assumes "inv s" "req n" "al n s = Some (p, s')"
  shows "\<exists>s''. fr p s' = Some s'' \<and> inv s'' \<and> live s'' = live s"
proof -
  obtain m where m: "inv s'" "(p, m) \<notin> live s" "live s' = insert (p, m) (live s)"
    using al_block [OF assms] by blast
  then show ?thesis using fr_block [OF m(1), of p m] by auto
qed

text \<open>
  A legal sequence of operations runs to its end, and a block that it does not free stays live
  with its contents unchanged.
\<close>

lemma run_ops_isolated:
  "inv s \<Longrightarrow> legal_ops req live al fr ops s \<Longrightarrow>
   \<exists>s'. run_ops al fr ops s = Some s' \<and> inv s' \<and>
     ((p, n) \<in> live s \<and> Free p \<notin> set ops \<longrightarrow>
       (p, n) \<in> live s' \<and> (\<forall>x. p \<le> x \<and> x < p + n \<longrightarrow> byte s' x = byte s x))"
proof (induction ops arbitrary: s)
  case (Cons op ops)
  let ?kept = "\<lambda>s s'. (p, n) \<in> live s' \<and> (\<forall>x. p \<le> x \<and> x < p + n \<longrightarrow> byte s' x = byte s x)"
  have step: "\<exists>s'. run_ops al fr (op # ops) s = Some s' \<and> inv s' \<and>
      ((p, n) \<in> live s \<and> Free p \<notin> set (op # ops) \<longrightarrow> ?kept s s')"
    if s1: "inv s1" "legal_ops req live al fr ops s1" "run_ops al fr (op # ops) s = run_ops al fr ops s1"
      "(p, n) \<in> live s \<and> op \<noteq> Free p \<Longrightarrow> ?kept s s1" for s1
    using Cons.IH [OF s1(1,2)] s1(3,4) by auto
  show ?case
  proof (cases op)
    case (Alloc m)
    have req: "req m" using Cons.prems(2) Alloc by simp
    show ?thesis
    proof (cases "al m s")
      case None
      then show ?thesis using step [of s] Cons.prems Alloc by simp
    next
      case (Some r)
      obtain q s1 where r: "al m s = Some (q, s1)" using Some by (cases r) auto
      show ?thesis
        using step [of s1] al_block [OF Cons.prems(1) req r] al_bytes [OF Cons.prems(1) req r]
          Cons.prems(2) Alloc r by auto
    qed
  next
    case (Free q)
    obtain m where m: "(q, m) \<in> live s" using Cons.prems(2) Free by auto
    obtain s1 where s1: "fr q s = Some s1" "inv s1" "live s1 = live s - {(q, m)}"
      using fr_block [OF Cons.prems(1) m] by blast
    have kept: "?kept s s1" if "(p, n) \<in> live s \<and> op \<noteq> Free p"
      using fr_bytes [OF Cons.prems(1) m s1(1)] s1(3) that Free by auto
    show ?thesis
      by (rule step [OF s1(2) _ _ kept]) (use Cons.prems(2) Free s1(1) in simp_all)
  qed
qed simp

end

end
