(* ===== verification/Leg_Kheap_Props.thy ===== *)
theory Leg_Kheap_Props
  imports Leg_Kheap_Free Leg_Heap_Interface
begin

text \<open>
  The contract of the kernel heap. The block list of a memory is unique, so the live blocks are a
  function of the state; \<open>kmalloc\<close> and \<open>kfree\<close> satisfy \<open>heap_allocator\<close>. On top of this stand the
  properties of \<open>kzalloc\<close>, \<open>kmalloc_aligned\<close>, \<open>krealloc\<close> and the detection of a double free.
\<close>

section \<open>The blocks of a state\<close>

lemma hdrs_unique:
  "tiled a bs e \<Longrightarrow> tiled a bs' e \<Longrightarrow> e < 2 ^ 32 \<Longrightarrow> hdrs m bs z \<Longrightarrow> hdrs m bs' z' \<Longrightarrow> bs = bs'"
proof (induction bs arbitrary: a bs')
  case Nil
  then show ?case
  proof (cases bs')
    case (Cons b cs)
    obtain c k u where "b = (c, k, u)" by (metis prod_cases3)
    then have "tiled (a + 12 + k) cs e" using Nil.prems(2) Cons by simp
    then show ?thesis using tiled_le [of "a + 12 + k" cs e] Nil.prems(1) by simp
  qed simp
next
  case (Cons b bs)
  obtain k u where b: "b = (a, k, u)" and t: "tiled (a + 12 + k) bs e"
    using Cons.prems(1) by (cases b) auto
  obtain b' cs where bs': "bs' = b' # cs"
    using Cons.prems(2) b t tiled_le [OF t] by (cases bs') auto
  obtain k' u' where b': "b' = (a, k', u')" and t': "tiled (a + 12 + k') cs e"
    using Cons.prems(2) bs' by (cases b') auto
  have "w32 k = w32 k'" using Cons.prems(4,5) b b' bs' by auto
  moreover have "k < 2 ^ 32" "k' < 2 ^ 32" using tiled_le [OF t] tiled_le [OF t'] Cons.prems(3) by linarith+
  ultimately have k: "k = k'" by (simp only: w32_eq_iff)
  moreover have "u = u'" using Cons.prems(4,5) b b' bs' by (auto split: if_splits)
  ultimately show ?case
    using Cons.IH [OF t _ Cons.prems(3), of cs] t' Cons.prems(4,5) b b' bs' by auto
qed

lemma heap_rep_unique: "heap_rep s bs \<Longrightarrow> heap_rep s bs' \<Longrightarrow> bs = bs'"
  unfolding heap_rep_def heap_pre_def Let_def using hdrs_unique by blast

definition heap_ok :: "mm_state \<Rightarrow> bool" where
  "heap_ok s \<longleftrightarrow> (\<exists>bs. heap_rep s bs)"

definition live :: "mm_state \<Rightarrow> (nat \<times> nat) set" where
  "live s = {(p, n). \<exists>bs a. heap_rep s bs \<and> (a, n, True) \<in> set bs \<and> p = a + 12}"

definition used_blocks :: "block list \<Rightarrow> block set" where
  "used_blocks bs = {b \<in> set bs. used b}"

lemma used_blocks_simps [simp]:
  "used_blocks [] = {}"
  "used_blocks ((a, k, u) # bs) = (if u then insert (a, k, True) (used_blocks bs) else used_blocks bs)"
  "used_blocks (xs @ ys) = used_blocks xs \<union> used_blocks ys"
  by (auto simp: used_blocks_def)

lemma live_rep: "heap_rep s bs \<Longrightarrow> live s = (\<lambda>(a, n, u). (a + 12, n)) ` used_blocks bs"
  unfolding live_def used_blocks_def using heap_rep_unique by force

lemma live_remove:
  assumes "heap_rep s bs" "heap_rep s' bs'" "used_blocks bs' = used_blocks bs - {(a, n, True)}"
  shows "live s' = live s - {(a + 12, n)}"
proof -
  have used: "b \<in> used_blocks bs \<Longrightarrow> snd (snd b)" for b by (auto simp: used_blocks_def)
  then have "inj_on (\<lambda>(a, n, u). (a + 12, n)) (insert (a, n, True) (used_blocks bs))"
    by (auto simp: inj_on_def)
  moreover have "used_blocks bs - {(a, n, True)} \<subseteq> insert (a, n, True) (used_blocks bs)"
    "{(a, n, True)} \<subseteq> insert (a, n, True) (used_blocks bs)" by blast+
  ultimately have "(\<lambda>(a, n, u). (a + 12, n)) ` (used_blocks bs - {(a, n, True)}) =
      (\<lambda>(a, n, u). (a + 12, n)) ` used_blocks bs - (\<lambda>(a, n, u). (a + 12, n)) ` {(a, n, True)}"
    by (rule inj_on_image_set_diff)
  also have "(\<lambda>(a, n, u). (a + 12, n)) ` {(a, n, True)} = {(a + 12, n)}" by simp
  finally show ?thesis by (simp only: live_rep [OF assms(1)] live_rep [OF assms(2)] assms(3))
qed

lemma heap_rep_tiled:
  assumes "heap_rep s bs"
  shows "tiled (unat (kh_base (g_kheap s))) bs (unat (kh_base (g_kheap s)) + unat (kh_capacity (g_kheap s)))"
    "4 dvd unat (kh_base (g_kheap s))" "4096 \<le> unat (kh_base (g_kheap s))"
    "unat (kh_base (g_kheap s)) + unat (kh_capacity (g_kheap s)) < 2 ^ 32"
  using assms by (auto simp: heap_rep_def heap_pre_def Let_def)

section \<open>Used blocks under the abstract operations\<close>

lemma used_blocks_coalesce: "used_blocks (coalesce bs) = used_blocks bs"
  by (induction bs rule: coalesce.induct) auto

lemma used_blocks_afree:
  assumes "tiled b bs e" "(a, k, True) \<in> set bs"
  shows "used_blocks (afree (a + 12) bs) = used_blocks bs - {(a, k, True)}"
proof -
  have same: "l = k" if "(a, l, True) \<in> set bs" for l
    using tiled_disjoint [OF assms(1) that assms(2)] by auto
  have marked: "(c, l, u) \<in> used_blocks (map (\<lambda>(c, k, u). (c, k, u \<and> c + 12 \<noteq> a + 12)) zs) \<longleftrightarrow>
      (c, l, u) \<in> used_blocks zs \<and> c \<noteq> a" for c l u zs
    by (induction zs) (auto split: if_splits)
  have "(c, l, u) \<in> used_blocks bs \<and> c \<noteq> a \<longleftrightarrow> (c, l, u) \<in> used_blocks bs - {(a, k, True)}" for c l u
    using same by (auto simp: used_blocks_def)
  then show ?thesis
    unfolding afree_def used_blocks_coalesce using marked [of _ _ _ bs]
    by (simp only: set_eq_iff split_paired_All) blast
qed

lemma amalloc_used_blocks:
  "amalloc n bs = Some (p, bs') \<Longrightarrow>
   \<exists>a k m. p = a + 12 \<and> n \<le> m \<and> (a, k, False) \<in> set bs \<and> m \<le> k \<and>
     used_blocks bs' = insert (a, m, True) (used_blocks bs) \<and> (n + 44 \<le> k \<longrightarrow> m = n)"
proof (induction n bs arbitrary: bs' rule: amalloc.induct)
  case (2 n a k u bs)
  show ?case
  proof (cases "\<not> u \<and> n \<le> k")
    case True
    then show ?thesis using 2(2)
      by (intro exI [of _ a] exI [of _ k] exI [of _ "if n + 44 \<le> k then n else k"])
         (auto simp: take_block_def split: if_splits)
  next
    case False
    then obtain bs1 where "amalloc n bs = Some (p, bs1)" "bs' = (a, k, u) # bs1"
      using 2(2) by auto
    moreover obtain c l m where "p = c + 12" "n \<le> m" "(c, l, False) \<in> set bs" "m \<le> l"
        "used_blocks bs1 = insert (c, m, True) (used_blocks bs)" "n + 44 \<le> l \<longrightarrow> m = n"
      using 2(1) [OF False calculation(1)] by blast
    ultimately show ?thesis
      by (intro exI [of _ c] exI [of _ l] exI [of _ m]) auto
  qed
qed simp

lemma payload_safe:
  assumes "tiled b bs e" "e < 2 ^ 32" "(a, k, True) \<in> set bs" "a + 12 \<le> x" "x < a + 12 + k"
  shows "safe bs x"
proof -
  have "x < 2 ^ 32" using tiled_below [OF assms(1,3)] assms(2,5) by linarith
  moreover have "x < c \<or> blk_end (c, l, v) \<le> x" if "(c, l, v) \<in> set bs" for c l v
    using tiled_disjoint [OF assms(1,3) that] assms(4,5) by (auto simp: blk_end_def)
  ultimately show ?thesis by (simp add: safe_def Ball_def split_paired_All)
qed


section \<open>The heap keeps the contract\<close>

definition alloc_block :: "nat \<Rightarrow> mm_state \<Rightarrow> (nat \<times> mm_state) option" where
  "alloc_block n s =
     (case kmalloc (w32 n) s of
        Some (Returns (p, s')) \<Rightarrow> if p = 0 then None else Some (unat p, s')
      | _ \<Rightarrow> None)"

definition free_block :: "nat \<Rightarrow> mm_state \<Rightarrow> mm_state option" where
  "free_block p s = (case kfree (w32 p) s of Some (Returns s') \<Rightarrow> Some s' | _ \<Rightarrow> None)"

definition byte_at :: "mm_state \<Rightarrow> nat \<Rightarrow> u8" where
  "byte_at s x = mem s (w32 x)"

definition req_size :: "nat \<Rightarrow> bool" where
  "req_size n \<longleftrightarrow> 0 < n \<and> n + 8 \<le> 2 ^ 32"

text \<open>The outcome of \<open>kmalloc\<close> in terms of live blocks.\<close>

lemma kmalloc_cases:
  assumes "heap_rep s bs" "sz \<noteq> 0" "unat sz + 8 \<le> 2 ^ 32"
  obtains (full) "kmalloc sz s = Some (Returns (0, s))"
      "\<forall>(a, k, u) \<in> set bs. u \<or> k < unat (round8 sz)"
  | (block) a k m bs' s' where "kmalloc sz s = Some (Returns (w32 (a + 12), s'))"
      "heap_rep s' bs'" "heap_frame bs s s'" "(a, k, False) \<in> set bs" "unat (round8 sz) \<le> m" "m \<le> k"
      "used_blocks bs' = insert (a, m, True) (used_blocks bs)" "unat (round8 sz) + 44 \<le> k \<longrightarrow> m = unat (round8 sz)"
proof (cases "amalloc (unat (round8 sz)) bs")
  case None
  then have "kmalloc sz s = Some (Returns (0, s))" using kmalloc_refines [OF assms] by (simp only: option.case)
  then show ?thesis using full None amalloc_None by blast
next
  case (Some r)
  obtain p bs' where r: "r = (p, bs')" by force
  obtain a k m where m: "p = a + 12" "unat (round8 sz) \<le> m" "(a, k, False) \<in> set bs" "m \<le> k"
      "used_blocks bs' = insert (a, m, True) (used_blocks bs)" "unat (round8 sz) + 44 \<le> k \<longrightarrow> m = unat (round8 sz)"
    using amalloc_used_blocks [of _ bs p bs'] Some r by blast
  obtain s' where "kmalloc sz s = Some (Returns (w32 p, s'))" "heap_rep s' bs'" "heap_frame bs s s'"
    using kmalloc_refines [OF assms] Some r by auto
  then show ?thesis using block [of a s' bs' k m] m unfolding m(1) by blast
qed

lemma heap_ptr:
  assumes "heap_rep s bs" "(a, k, u) \<in> set bs"
  shows "w32 (a + 12) \<noteq> 0" "unat (w32 (a + 12)) = a + 12"
proof -
  note t = heap_rep_tiled [OF assms(1)]
  have lt: "a + 12 < 2 ^ 32" using tiled_below [OF t(1) assms(2)] t(4) by linarith
  then show "unat (w32 (a + 12)) = a + 12" by (rule unat_w32)
  then show "w32 (a + 12) \<noteq> 0" by (metis add_is_0 unat_0 zero_neq_numeral)
qed

lemma frame_bytes:
  assumes "heap_rep s bs" "heap_frame bs s s'" "(a, k, True) \<in> set bs" "a + 12 \<le> x" "x < a + 12 + k"
  shows "byte_at s' x = byte_at s x"
proof -
  note t = heap_rep_tiled [OF assms(1)]
  from payload_safe [OF t(1,4) assms(3-5)] assms(2) show ?thesis
    by (simp add: heap_frame_def same_safe_def byte_at_def)
qed

lemma alloc_block_cases:
  assumes "heap_ok s" "req_size n" "alloc_block n s = Some (p, s')"
  obtains bs bs' a m where "heap_rep s bs" "heap_rep s' bs'" "heap_frame bs s s'" "p = a + 12" "n \<le> m"
    "\<forall>k. (a, k, True) \<notin> set bs" "used_blocks bs' = insert (a, m, True) (used_blocks bs)"
proof -
  obtain bs where bs: "heap_rep s bs" using assms(1) by (auto simp: heap_ok_def)
  have n: "unat (w32 n) = n" using assms(2) by (simp add: req_size_def unat_w32)
  have sz: "w32 n \<noteq> 0" "unat (w32 n) + 8 \<le> 2 ^ 32"
    using assms(2) n by (auto simp: req_size_def)
  show ?thesis
    using bs sz
  proof (cases rule: kmalloc_cases)
    case full
    then show ?thesis using assms(3) by (simp add: alloc_block_def)
  next
    case (block a k m bs' s1)
    have "p = a + 12" "s1 = s'"
      using heap_ptr [OF bs block(4)] assms(3) block(1) by (simp_all add: alloc_block_def)
    moreover have "(a, l, True) \<notin> set bs" for l
      using tiled_disjoint [OF heap_rep_tiled(1) [OF bs] block(4), of a l True] by auto
    moreover have "n \<le> m" using unat_round8(2) [OF sz(2)] n block(5) by simp
    ultimately show ?thesis using that bs block by blast
  qed
qed

lemma free_block_live:
  assumes "heap_ok s" "(p, n) \<in> live s"
  obtains bs a s' where "heap_rep s bs" "p = a + 12" "(a, n, True) \<in> set bs" "free_block p s = Some s'"
    "heap_rep s' (afree p bs)" "heap_frame bs s s'" "used_blocks (afree p bs) = used_blocks bs - {(a, n, True)}"
proof -
  obtain bs a where bs: "heap_rep s bs" "(a, n, True) \<in> set bs" "p = a + 12"
    using assms(2) by (auto simp: live_def)
  obtain s' where "kfree (w32 (a + 12)) s = Some (Returns s')" "heap_rep s' (afree (a + 12) bs)"
      "heap_frame bs s s'"
    using kfree_refines [OF bs(1,2)] by blast
  with that bs used_blocks_afree [OF heap_rep_tiled(1) [OF bs(1)] bs(2)] show ?thesis
    by (simp add: free_block_def)
qed

interpretation kheap: heap_allocator heap_ok live byte_at req_size alloc_block free_block
proof
  fix s p n q m
  assume "heap_ok s" and p: "(p, n) \<in> live s" and q: "(q, m) \<in> live s"
  then obtain bs where bs: "heap_rep s bs" by (auto simp: heap_ok_def)
  obtain a c where "(a, n, True) \<in> set bs" "p = a + 12" "(c, m, True) \<in> set bs" "q = c + 12"
    using p q live_rep [OF bs] by (auto simp: used_blocks_def)
  with tiled_disjoint [OF heap_rep_tiled(1) [OF bs]]
  show "p = q \<and> n = m \<or> p + n < q \<or> q + m < p" by fastforce
next
  fix s n p s'
  assume a: "heap_ok s" "req_size n" "alloc_block n s = Some (p, s')"
  show "heap_ok s' \<and> (\<exists>m\<ge>n. (p, m) \<notin> live s \<and> live s' = insert (p, m) (live s))"
    by (rule alloc_block_cases [OF a]) (auto simp: heap_ok_def live_rep used_blocks_def)
  show "byte_at s' x = byte_at s x" if "(q, m) \<in> live s" "q \<le> x" "x < q + m" for q m x
    by (rule alloc_block_cases [OF a]) (use that in \<open>auto simp: live_rep used_blocks_def intro: frame_bytes\<close>)
next
  fix s p n
  assume a: "heap_ok s" "(p, n) \<in> live s"
  show "\<exists>s'. free_block p s = Some s' \<and> heap_ok s' \<and> live s' = live s - {(p, n)}"
    by (rule free_block_live [OF a]) (metis heap_ok_def live_remove)
  show "byte_at s' x = byte_at s x"
    if that: "free_block p s = Some s'" "(q, m) \<in> live s'" "q \<le> x" "x < q + m" for s' q m x
  proof (rule free_block_live [OF a])
    fix bs c s1
    assume b: "heap_rep s bs" "free_block p s = Some s1" "heap_rep s1 (afree p bs)" "heap_frame bs s s1"
      "used_blocks (afree p bs) = used_blocks bs - {(c, n, True)}"
    have s1: "s1 = s'" using that(1) b(2) by simp
    have "(q, m) \<in> (\<lambda>(a, n, u). (a + 12, n)) ` used_blocks bs"
      using that(2) live_rep [OF b(3)] b(5) s1 by blast
    then have "\<exists>d. q = d + 12 \<and> (d, m, True) \<in> set bs" by (auto simp: used_blocks_def)
    then show ?thesis using frame_bytes [OF b(1,4)] s1 that(3,4) by blast
  qed
qed

end
