(* ===== verification/Leg_Heap_Gap.thy ===== *)
theory Leg_Heap_Gap
  imports Leg_Kheap_Props
begin

text \<open>
  When an allocation is bound to succeed. The heap has a gap of \<open>n\<close> bytes when somewhere in its area \<open>n\<close> bytes in a row
  belong to no live block and no header of one. Because neighbouring free blocks are always merged, a gap lies within one
  free block; so first fit finds room for every request that fits into a gap with its header, and it spends a bounded part
  of any gap. Releasing a block never makes a gap smaller.
\<close>

section \<open>Gaps\<close>

definition heap_gap :: "mm_state \<Rightarrow> nat \<Rightarrow> bool" where
  "heap_gap s n \<longleftrightarrow>
     (\<exists>x. unat (kh_base (g_kheap s)) \<le> x \<and> x + n \<le> unat (kh_base (g_kheap s)) + unat (kh_capacity (g_kheap s)) \<and>
        (\<forall>(p, m) \<in> live s. p + m \<le> x \<or> x + n + 12 \<le> p))"

lemma heap_gap_less: "heap_gap s n \<Longrightarrow> n' \<le> n \<Longrightarrow> heap_gap s n'"
  unfolding heap_gap_def by fastforce

text \<open>A step that leaves, of every gap, all but \<open>c\<close> bytes.\<close>

definition spends :: "nat \<Rightarrow> mm_state \<Rightarrow> mm_state \<Rightarrow> bool" where
  "spends c s s' \<longleftrightarrow> (\<forall>n. heap_gap s (n + c) \<longrightarrow> heap_gap s' n)"

lemma spends_gap: "spends c s s' \<Longrightarrow> heap_gap s (n + c) \<Longrightarrow> heap_gap s' n"
  by (simp add: spends_def)

lemma spends_less: "spends c s s' \<Longrightarrow> c \<le> c' \<Longrightarrow> spends c' s s'"
  unfolding spends_def by (meson add_le_mono heap_gap_less order_refl)

lemma spends_trans: "spends c s s' \<Longrightarrow> spends c' s' s'' \<Longrightarrow> spends (c + c') s s''"
  unfolding spends_def by (metis add.assoc add.commute)

lemma spends_live:
  assumes "live s' \<subseteq> live s" "kh_base (g_kheap s') = kh_base (g_kheap s)" "kh_capacity (g_kheap s') = kh_capacity (g_kheap s)"
  shows "spends c s s'"
proof -
  have "spends 0 s s'" unfolding spends_def heap_gap_def assms(2,3) using assms(1) by auto blast
  then show ?thesis by (rule spends_less) simp
qed

lemma spends_refl [simp]: "spends c s s"
  by (rule spends_live) simp_all

section \<open>A gap lies in a free block\<close>

lemma gap_in_block:
  assumes "tiled b bs e" "coalesced bs" "b \<le> x" "x + g \<le> e" "0 < g"
    and "\<forall>(a, k, u) \<in> set bs. u \<longrightarrow> a + 12 + k \<le> x \<or> x + g \<le> a"
  shows "\<exists>a k. (a, k, False) \<in> set bs \<and> a \<le> x \<and> x + g \<le> a + 12 + k"
  using assms
proof (induction b bs e rule: tiled.induct)
  case (2 b a k u bs e)
  show ?case
  proof (cases "b + 12 + k \<le> x")
    case True
    have "coalesced bs" using 2(3) by (cases bs) auto
    then show ?thesis using 2(1) [of] 2(2,5-7) True by auto
  next
    case False
    have free: "\<not> u" using 2(2,4,6,7) False by auto
    have "x + g \<le> b + 12 + k"
    proof (rule ccontr)
      assume n: "\<not> x + g \<le> b + 12 + k"
      then obtain c l v bs' where bs: "bs = (c, l, v) # bs'" using 2(2,5) by (cases bs) auto
      then have "v" "c = b + 12 + k" using 2(2,3) free by auto
      then show False using 2(7) bs False n by auto
    qed
    then show ?thesis using 2(2,4) free by (intro exI [of _ a] exI [of _ k]) auto
  qed
qed simp

lemma gap_free_block:
  assumes "heap_rep s bs" "heap_gap s g" "0 < g"
  obtains x a k where "(a, k, False) \<in> set bs" "a \<le> x" "x + g \<le> a + 12 + k" "\<forall>(p, m) \<in> live s. p + m \<le> x \<or> x + g + 12 \<le> p"
proof -
  note t = heap_rep_tiled [OF assms(1)]
  obtain x where x: "unat (kh_base (g_kheap s)) \<le> x" "x + g \<le> unat (kh_base (g_kheap s)) + unat (kh_capacity (g_kheap s))"
    "\<forall>(p, m) \<in> live s. p + m \<le> x \<or> x + g + 12 \<le> p" using assms(2) unfolding heap_gap_def by blast
  have "a + 12 + k \<le> x \<or> x + g \<le> a" if "(a, k, True) \<in> set bs" for a k
  proof -
    have "(a, k, True) \<in> used_blocks bs" using that by (simp add: used_blocks_def)
    then have "(a + 12, k) \<in> live s" unfolding live_rep [OF assms(1)] by force
    then show ?thesis using x(3) by fastforce
  qed
  then have "\<forall>(a, k, u) \<in> set bs. u \<longrightarrow> a + 12 + k \<le> x \<or> x + g \<le> a" by fastforce
  moreover have "coalesced bs" using assms(1) by (simp add: heap_rep_def)
  ultimately obtain a k where "(a, k, False) \<in> set bs" "a \<le> x" "x + g \<le> a + 12 + k"
    using gap_in_block [OF t(1) _ x(1,2) assms(3)] by blast
  then show ?thesis using that x(3) by blast
qed

section \<open>Allocation in a gap\<close>

lemma full_no_gap:
  assumes "heap_rep s bs" "\<forall>(a, k, u) \<in> set bs. u \<or> k < n" "n + 12 \<le> g"
  shows "\<not> heap_gap s g"
proof
  assume "heap_gap s g"
  moreover have "0 < g" using assms(3) by simp
  ultimately obtain x a k where "(a, k, False) \<in> set bs" "a \<le> x" "x + g \<le> a + 12 + k"
    by (rule gap_free_block [OF assms(1)])
  then show False using assms(2,3) by fastforce
qed

lemma taken_spends:
  assumes rep: "heap_rep s bs" and a: "(a, k, False) \<in> set bs" "m \<le> k" "n + 44 \<le> k \<longrightarrow> m = n"
    and live: "live s' = insert (a + 12, m) (live s)" and area: "kh_base (g_kheap s') = kh_base (g_kheap s)"
      "kh_capacity (g_kheap s') = kh_capacity (g_kheap s)"
  shows "spends (n + 56) s s'"
  unfolding spends_def
proof (intro allI impI)
  fix g assume gap: "heap_gap s (g + (n + 56))"
  have "0 < g + (n + 56)" by simp
  obtain x c l where x: "(c, l, False) \<in> set bs" "c \<le> x" "x + (g + (n + 56)) \<le> c + 12 + l"
    "\<forall>(p, m) \<in> live s. p + m \<le> x \<or> x + (g + (n + 56)) + 12 \<le> p" by (rule gap_free_block [OF rep gap]) simp
  note t = heap_rep_tiled [OF rep]
  define y where "y = (if c = a then max x (a + 12 + n) else x)"
  have y: "x \<le> y" "y + g \<le> x + (g + (n + 56))" using x(2) by (auto simp: y_def)
  have new: "a + 12 + m \<le> y \<or> y + g \<le> a"
  proof (cases "c = a")
    case True
    then have "l = k" using tiled_disjoint [OF t(1) x(1) a(1)] by auto
    then have "n + 44 \<le> k" using x(2,3) True by linarith
    then show ?thesis using a(3) True by (simp add: y_def)
  next
    case False
    then show ?thesis using tiled_disjoint [OF t(1) x(1) a(1)] x(2,3) a(2) by (auto simp: y_def)
  qed
  have b: "unat (kh_base (g_kheap s)) \<le> c" "c + 12 + l \<le> unat (kh_base (g_kheap s)) + unat (kh_capacity (g_kheap s))"
    using tiled_ge [OF t(1) x(1)] tiled_below [OF t(1) x(1)] by simp_all
  show "heap_gap s' g"
    unfolding heap_gap_def area live
    by (rule exI [of _ y]) (use b x(2-4) y new in auto)
qed

end
