(* ===== verification/Leg_Kheap_Ops.thy ===== *)
theory Leg_Kheap_Ops
  imports Leg_Heap_Gap
begin

text \<open>
  The operations built on \<open>kmalloc\<close> and \<open>kfree\<close>: \<open>kzalloc\<close>, \<open>kmalloc_aligned\<close> and \<open>krealloc\<close>. They
  write only into the payload of a live block, which keeps the representation, so their proofs
  combine the refinement lemmas with the byte behaviour of \<open>memset\<close> and \<open>memcpy\<close>.
\<close>

section \<open>Writing into a live block\<close>

lemma cell_bytes:
  assumes "\<And>i. i < 4 \<Longrightarrow> m' (w32 (c + i)) = m (w32 (c + i))"
  shows "cell m' c = cell m c"
  unfolding cell_def by (rule rd32_cong) (use assms in simp)

lemma hdrs_bytes:
  "(\<And>b l v i. (b, l, v) \<in> set bs \<Longrightarrow> i < 12 \<Longrightarrow> m' (w32 (b + i)) = m (w32 (b + i))) \<Longrightarrow>
   hdrs m' bs z \<longleftrightarrow> hdrs m bs z"
proof (induction bs)
  case (Cons x bs)
  obtain b l v where x: "x = (b, l, v)" by (metis prod_cases3)
  have byte: "m' (w32 (b + i)) = m (w32 (b + i))" if "i < 12" for i
    using Cons.prems x that by auto
  have "cell m' (b + j) = cell m (b + j)" if "j \<le> 8" for j
    using byte that by (intro cell_bytes) (simp only: add.assoc)
  moreover have "hdrs m' bs z \<longleftrightarrow> hdrs m bs z"
    by (rule Cons.IH, rule Cons.prems) auto
  ultimately show ?case
    unfolding x using \<open>\<And>j. j \<le> 8 \<Longrightarrow> cell m' (b + j) = cell m (b + j)\<close> [of 0] by simp
qed simp

lemma payload_write_rep:
  assumes rep: "heap_rep s bs" and blk: "(a, k, True) \<in> set bs"
    and m: "\<And>x. x < 2 ^ 32 \<Longrightarrow> x < a + 12 \<or> a + 12 + k \<le> x \<Longrightarrow> m' (w32 x) = mem s (w32 x)"
  shows "heap_rep (s\<lparr>mem := m'\<rparr>) bs"
proof -
  note t = heap_rep_tiled [OF rep]
  have "hdrs m' bs 0 \<longleftrightarrow> hdrs (mem s) bs 0"
  proof (rule hdrs_bytes)
    fix b l v i assume b: "(b, l, v) \<in> set bs" and i: "i < (12 :: nat)"
    have "b + i < 2 ^ 32" using tiled_below [OF t(1) b] t(4) i by linarith
    moreover have "b + i < a + 12 \<or> a + 12 + k \<le> b + i"
      using tiled_disjoint [OF t(1) b blk] i by linarith
    ultimately show "m' (w32 (b + i)) = mem s (w32 (b + i))" by (rule m)
  qed
  then show ?thesis using rep by (simp add: heap_rep_def heap_pre_def Let_def)
qed

lemma live_mem: "heap_rep s bs \<Longrightarrow> heap_rep s' bs \<Longrightarrow> live s' = live s"
  by (simp add: live_rep)

section \<open>The initial heap\<close>

lemma kheap_init_rep:
  assumes "4096 \<le> unat va" "4 dvd unat va" "unat va + 0x200000 < 2 ^ 32"
  shows "heap_rep (kheap_init va s) [(unat va, 0x200000 - 12, False)]"
proof -
  have wa: "word_addr (unat va)" "word_addr (unat va + 4)" "word_addr (unat va + 8)"
    using word_addr_hdr [OF assms(2)] assms(3) by auto
  let ?m = "put (unat va + 8) 0 (put (unat va + 4) 0x1FFFF4 (put (unat va) KHEAP_MAGIC_FREE (mem s)))"
  have m: "mem (kheap_init va s) = ?m"
    using hdr_cells(4-6) [of "unat va"] by (simp add: kheap_init_def)
  have "hdrs ?m [(unat va, 0x200000 - 12, False)] 0"
    using wa by (simp add: cell_put)
  then show ?thesis
    using assms by (simp add: heap_rep_def heap_pre_def m) (simp add: kheap_init_def)
qed


section \<open>Zeroed blocks\<close>

lemma in_region_w32:
  assumes "unat p = q" "x < 2 ^ 32"
  shows "in_region p n (w32 x) \<longleftrightarrow> q \<le> x \<and> x < q + n"
  using assms by (simp add: in_region_def unat_w32)

lemma kmalloc_new:
  assumes rep: "heap_rep s bs" and sz: "sz \<noteq> 0" "unat sz + 8 \<le> 2 ^ 32"
  obtains (full) "kmalloc sz s = Some (Returns (0, s))" "\<not> heap_gap s (unat (round8 sz) + 12)"
  | (block) a m bs' s' where "kmalloc sz s = Some (Returns (w32 (a + 12), s'))"
      "w32 (a + 12) \<noteq> 0" "unat (w32 (a + 12)) = a + 12" "heap_rep s' bs'" "heap_frame bs s s'"
      "(a, m, True) \<in> set bs'" "unat sz \<le> m" "a + 12 + m < 2 ^ 32" "(a + 12, m) \<notin> live s"
      "used_blocks bs' = insert (a, m, True) (used_blocks bs)" "spends (unat (round8 sz) + 56) s s'"
  using rep sz
proof (cases rule: kmalloc_cases)
  case (block a k m bs' s1)
  note t = heap_rep_tiled [OF rep] and t1 = heap_rep_tiled [OF block(2)]
  have m: "unat sz \<le> m" using unat_round8(2) [OF sz(2)] block(5) by linarith
  have blk: "(a, m, True) \<in> set bs'" using block(7) by (auto simp: used_blocks_def)
  have "a + 12 + m < 2 ^ 32" using tiled_below [OF t1(1) blk] t1(4) by linarith
  moreover have "(a + 12, m) \<notin> live s"
    using tiled_disjoint [OF t(1) block(4), of a m True] by (auto simp: live_rep [OF rep] used_blocks_def)
  moreover have "live s1 = insert (a + 12, m) (live s)" using live_rep [OF rep] live_rep [OF block(2)] block(7) by simp
  then have "spends (unat (round8 sz) + 56) s s1"
    using block(3) by (intro taken_spends [OF rep block(4,6,8)]) (simp_all add: heap_frame_def)
  ultimately show ?thesis using that(2) block heap_ptr [OF rep block(4)] m blk by blast
next
  case full
  then show ?thesis using that(1) full_no_gap [OF rep full(2) order_refl] by blast
qed

lemma kzalloc_zeroes:
  assumes rep: "heap_rep s bs" and sz: "sz \<noteq> 0" "unat sz + 8 \<le> 2 ^ 32"
  shows "\<exists>p s'. kzalloc sz s = Some (Returns (p, s')) \<and> heap_ok s' \<and>
    (if p = 0 then s' = s
     else (\<exists>m. unat sz \<le> m \<and> (unat p, m) \<notin> live s \<and> live s' = insert (unat p, m) (live s)) \<and>
       (\<forall>x. unat p \<le> x \<and> x < unat p + unat sz \<longrightarrow> byte_at s' x = 0))"
  using rep sz
proof (cases rule: kmalloc_new)
  case full
  then show ?thesis using rep by (auto simp: kzalloc_def heap_ok_def)
next
  case (block a m bs' s1)
  let ?p = "w32 (a + 12)"
  let ?m = "snd (memset ?p 0 sz (mem s1))"
  note region = in_region_w32 [OF block(3)]
  have byte: "?m x = (if in_region ?p (unat sz) x then 0 else mem s1 x)" for x
    using block(3,7,8) by (subst memset_bytes) simp_all
  have rep': "heap_rep (s1\<lparr>mem := ?m\<rparr>) bs'"
    by (rule payload_write_rep [OF block(4,6)]) (use byte block(7) region in auto)
  have "kzalloc sz s = Some (Returns (?p, s1\<lparr>mem := ?m\<rparr>))"
    using block(1,2) by (simp add: kzalloc_def)
  moreover have "live (s1\<lparr>mem := ?m\<rparr>) = insert (a + 12, m) (live s)"
    using live_rep [OF rep] live_rep [OF rep'] block(10) by simp
  moreover have "?m (w32 x) = 0" if "a + 12 \<le> x" "x < a + 12 + unat sz" for x
    using that byte block(7,8) region [of x] by simp
  ultimately show ?thesis
    using block rep' by (intro exI [of _ ?p] exI [of _ "s1\<lparr>mem := ?m\<rparr>"]) (auto simp: heap_ok_def byte_at_def)
qed

section \<open>Aligned blocks\<close>

text \<open>Releasing an aligned pointer is releasing the raw pointer that its tag records.\<close>

lemma kfree_tagged:
  assumes rep: "heap_rep s bs" and blk: "(a, k, True) \<in> set bs" and p: "p \<noteq> 0" and k: "0 < k"
    and tag: "rd32 (mem s) (p - 8) = w32 (a + 12)" "rd32 (mem s) (p - 4) = ALIGN_TAG"
  shows "kfree p s = kfree (w32 (a + 12)) s"
proof -
  note t = heap_rep_tiled [OF rep] and ptr = heap_ptr [OF rep blk]
  obtain xs ys where bs: "bs = xs @ (a, k, True) # ys" using blk by (meson split_list)
  then have "heap_pre s (xs @ (a, k, True) # ys)" using rep by (simp add: heap_rep_def)
  from heap_preD [OF this] have "cell (mem s) (a + 8) = 0" by simp
  then have plain: "raw_of s (w32 (a + 12)) = w32 (a + 12)" by (intro raw_of_block) simp
  have "unat (kh_base (g_kheap s) + kh_capacity (g_kheap s)) =
      unat (kh_base (g_kheap s)) + unat (kh_capacity (g_kheap s))"
    using t(4) by (rule unat_add_no_wrap)
  then have "kh_base (g_kheap s) \<le> w32 (a + 12)" "w32 (a + 12) < kh_base (g_kheap s) + kh_capacity (g_kheap s)"
    using tiled_below [OF t(1) blk] tiled_ge [OF t(1) blk] ptr(2) k
    unfolding word_le_nat_alt word_less_nat_alt by linarith+
  then have "raw_of s p = w32 (a + 12)"
    using tag unfolding raw_of_def Let_def by simp
  then show ?thesis using plain p ptr(1) by (simp add: kfree_def)
qed

lemma kmalloc_aligned_unfold:
  assumes "sz \<noteq> 0" "k < 32"
  shows "kmalloc_aligned sz (2 ^ k) s =
    bind_out (kmalloc (sz + 2 ^ max 3 k + 8) s) (\<lambda>(raw, s1).
      if raw = 0 then Some (Returns (0, s1))
      else let aligned = align_up (raw + 8) (2 ^ max 3 k)
        in Some (Returns (aligned, s1\<lparr>mem := wr32 (wr32 (mem s1) (aligned - 8) raw) (aligned - 8 + 4) ALIGN_TAG\<rparr>)))"
proof -
  have pow: "(2 ^ k :: u32) AND (2 ^ k - 1) = 0"
    by (rule bit_word_eqI) (simp add: bit_simps flip: mask_eq_exp_minus_1)
  have nz: "(2 ^ k :: u32) \<noteq> 0" using assms(2) by simp
  have al: "(if (2 ^ k :: u32) < 8 then 8 else 2 ^ k) = (2 ^ max 3 k :: u32)"
  proof -
    have "(2 ^ k :: u32) < 8 \<longleftrightarrow> (2 :: nat) ^ k < 2 ^ 3"
      using unat_2p [OF assms(2)] by (simp add: word_less_nat_alt)
    then have "(2 ^ k :: u32) < 8 \<longleftrightarrow> k < 3" by (simp only: power_strict_increasing_iff one_less_numeral_iff semiring_norm)
    then show ?thesis by (auto simp: max_def)
  qed
  show ?thesis unfolding kmalloc_aligned_def Let_def al using assms(1) pow nz by simp
qed


text \<open>
  An aligned request: first fit for the size with the room for the alignment and the tag, the first aligned address behind
  the tag, and the tag written in front of it. The rest of the heap is as first fit leaves it.
\<close>

lemma kmalloc_aligned_block:
  assumes rep: "heap_rep s bs" and sz: "sz \<noteq> 0" and k: "k < 32"
    and bound: "unat sz + 2 ^ max 3 k + 16 \<le> 2 ^ 32"
  defines "N \<equiv> unat (round8 (sz + 2 ^ max 3 k + 8))"
  shows "amalloc N bs = None \<Longrightarrow> kmalloc_aligned sz (2 ^ k) s = Some (Returns (0, s))"
    and "amalloc N bs = Some (q, bs') \<Longrightarrow> \<exists>p s' m. kmalloc_aligned sz (2 ^ k) s = Some (Returns (p, s')) \<and> p \<noteq> 0 \<and>
        2 ^ max 3 k dvd unat p \<and> q + 8 \<le> unat p \<and> unat p < q + 8 + 2 ^ max 3 k \<and> unat p + unat sz \<le> q + m \<and>
        heap_rep s' bs' \<and> (q, m) \<notin> live s \<and> live s' = insert (q, m) (live s) \<and>
        (\<exists>s''. kfree p s' = Some (Returns s'') \<and> heap_rep s'' (afree q bs') \<and> live s'' = live s)"
proof -
  define j where "j = max 3 k"
  have j: "j < 32" "3 \<le> j" "k \<le> j" using k by (auto simp: j_def)
  have uj: "unat (2 ^ j :: u32) = 2 ^ j" by (rule unat_2p [OF j(1)])
  have bj: "unat sz + 2 ^ j + 16 \<le> 2 ^ 32" using bound by (simp only: j_def)
  have "unat (sz + 2 ^ j) = unat sz + 2 ^ j" using unat_add_no_wrap [of sz "2 ^ j"] uj bj by simp
  then have tot: "unat (sz + 2 ^ j + 8) = unat sz + 2 ^ j + 8"
    using unat_add_no_wrap [of "sz + 2 ^ j" 8] bj by simp
  have tot': "sz + 2 ^ j + 8 \<noteq> 0" "unat (sz + 2 ^ j + 8) + 8 \<le> 2 ^ 32"
    using tot bj by (auto simp flip: unat_eq_0)
  note eq = kmalloc_aligned_unfold [OF sz k, of s, folded j_def]
  have N: "N = unat (round8 (sz + 2 ^ j + 8))" by (simp only: N_def j_def)
  note ref = kmalloc_refines [OF rep tot', folded N]
  show "kmalloc_aligned sz (2 ^ k) s = Some (Returns (0, s))" if "amalloc N bs = None"
    using ref that by (simp add: eq)
  assume am: "amalloc N bs = Some (q, bs')"
  obtain a l m where a: "q = a + 12" "N \<le> m" "(a, l, False) \<in> set bs" "used_blocks bs' = insert (a, m, True) (used_blocks bs)"
    using amalloc_used_blocks [OF am] by blast
  obtain s1 where s1: "kmalloc (sz + 2 ^ j + 8) s = Some (Returns (w32 (a + 12), s1))" "heap_rep s1 bs'"
    using ref am a(1) by auto
  have blk: "(a, m, True) \<in> set bs'" using a(4) by (auto simp: used_blocks_def)
  note t = heap_rep_tiled [OF rep] and t1 = heap_rep_tiled [OF s1(2)]
  have lt: "a + 12 + m < 2 ^ 32" using tiled_below [OF t1(1) blk] t1(4) by linarith
  have new: "(a + 12, m) \<notin> live s"
    using tiled_disjoint [OF t(1) a(3), of a m True] by (auto simp: live_rep [OF rep] used_blocks_def)
  have ptr0: "w32 (a + 12) \<noteq> 0" "unat (w32 (a + 12)) = a + 12" using heap_ptr [OF rep a(3)] .
  have m: "unat sz + 2 ^ j + 8 \<le> m" using a(2) unat_round8(2) [OF tot'(2)] tot unfolding N by linarith
  let ?p = "align_up (w32 (a + 12) + 8) (2 ^ j)"
  define r where "r = unat ?p"
  have r8: "unat (w32 (a + 12) + 8) = a + 20" using unat_add_no_wrap [of "w32 (a + 12)" 8] ptr0(2) lt m by simp
  have up: "2 ^ j dvd r" "a + 20 \<le> r" "r < a + 20 + 2 ^ j"
    using align_up_least [OF j(1), of "w32 (a + 12) + 8"] r8 lt m unfolding r_def by simp_all
  have "(8 :: nat) dvd 2 ^ j" using le_imp_power_dvd [OF j(2), of "2 :: nat"] by simp
  then have r8: "8 dvd r" using up(1) dvd_trans by blast
  have in_blk: "a + 20 \<le> r" "r + unat sz < a + 12 + m" using up m by linarith+
  have wa: "word_addr (r - 8)" "word_addr (r - 4)" using r8 in_blk lt by (auto simp: word_addr_def elim!: dvdE)
  have ptr: "?p = w32 r" by (simp add: r_def)
  have sub: "?p - 8 = w32 (r - 8)" "w32 (r - 8) + 4 = w32 (r - 4)" "?p - 4 = w32 (r - 4)"
    using in_blk(1) unfolding ptr by (simp_all add: of_nat_diff)
  define m' where "m' = put (r - 4) ALIGN_TAG (put (r - 8) (w32 (a + 12)) (mem s1))"
  let ?s = "s1\<lparr>mem := m'\<rparr>"
  have res: "kmalloc_aligned sz (2 ^ k) s = Some (Returns (?p, ?s))"
    unfolding eq s1(1) bind_out.simps prod.case Let_def sub m'_def put_def using ptr0(1) by (simp only: if_False)
  have rep': "heap_rep ?s bs'"
  proof (rule payload_write_rep [OF s1(2) blk])
    fix x assume "x < 2 ^ 32" "x < a + 12 \<or> a + 12 + m \<le> x"
    moreover from this in_blk have "x < r - 8 \<or> r - 8 + 4 \<le> x" "x < r - 4 \<or> r - 4 + 4 \<le> x" by linarith+
    ultimately show "m' (w32 x) = mem s1 (w32 x)" using wa by (simp only: m'_def put_byte)
  qed
  have live': "live ?s = insert (a + 12, m) (live s)" using live_rep [OF rep] live_rep [OF rep'] a(4) by simp
  have p0: "?p \<noteq> 0" using r_def in_blk(1) by auto
  have tag: "rd32 (mem ?s) (?p - 8) = w32 (a + 12)" "rd32 (mem ?s) (?p - 4) = ALIGN_TAG"
  proof -
    have "r - 4 \<noteq> r - 8" using in_blk(1) by linarith
    then show "rd32 (mem ?s) (?p - 8) = w32 (a + 12)" "rd32 (mem ?s) (?p - 4) = ALIGN_TAG"
      using wa unfolding sub cell_def [symmetric] by (simp_all add: m'_def cell_put)
  qed
  have fr: "kfree ?p ?s = kfree (w32 (a + 12)) ?s" using kfree_tagged [OF rep' blk p0 _ tag] m by simp
  obtain s2 where s2: "kfree (w32 (a + 12)) ?s = Some (Returns s2)" "heap_rep s2 (afree (a + 12) bs')"
    using kfree_refines [OF rep' blk] by blast
  have "live s2 = live s"
    using live_remove [OF rep' s2(2) used_blocks_afree [OF heap_rep_tiled(1) [OF rep'] blk]] live' new by simp
  then have "\<exists>s''. kfree ?p ?s = Some (Returns s'') \<and> heap_rep s'' (afree q bs') \<and> live s'' = live s"
    using fr s2 a(1) by auto
  then show "\<exists>p s' m. kmalloc_aligned sz (2 ^ k) s = Some (Returns (p, s')) \<and> p \<noteq> 0 \<and>
        2 ^ max 3 k dvd unat p \<and> q + 8 \<le> unat p \<and> unat p < q + 8 + 2 ^ max 3 k \<and> unat p + unat sz \<le> q + m \<and>
        heap_rep s' bs' \<and> (q, m) \<notin> live s \<and> live s' = insert (q, m) (live s) \<and>
        (\<exists>s''. kfree p s' = Some (Returns s'') \<and> heap_rep s'' (afree q bs') \<and> live s'' = live s)"
    unfolding j_def [symmetric] using res p0 up in_blk rep' new live' a(1)
    by (intro exI [of _ ?p] exI [of _ ?s] exI [of _ m]) (simp add: r_def)
qed

text \<open>The test for a power of two.\<close>

lemma power_of_two_test:
  fixes w :: u32
  assumes "w \<noteq> 0" "w AND (w - 1) = 0"
  shows "\<exists>k < 32. w = 2 ^ k"
proof -
  define n where "n = unat w"
  have n: "0 < n" "n < 2 ^ 32" using assms(1) unat_lt_32 [of w] by (simp_all add: n_def unat_gt_0)
  have m1: "unat (w - 1) = n - 1" using n(1) by (simp add: n_def unat_sub word_le_nat_alt Suc_le_eq)
  obtain k where k: "2 ^ k \<le> n" "n < 2 ^ (k + 1)" using ex_power_ivl1 [of 2 n] n(1) by auto
  have k32: "k < 32"
  proof (rule ccontr)
    assume "\<not> k < 32"
    then have "(2 :: nat) ^ 32 \<le> 2 ^ k" by (intro power_increasing) simp_all
    then show False using k(1) n(2) by linarith
  qed
  have "n = 2 ^ k"
  proof (rule ccontr)
    assume "n \<noteq> 2 ^ k"
    then have d: "n div 2 ^ k = 1" "(n - 1) div 2 ^ k = 1" using k by (simp_all add: div_nat_eqI)
    then have "bit (unat w) k" "bit (unat (w - 1)) k" unfolding bit_iff_odd m1 n_def [symmetric] by simp_all
    then have "bit w k" "bit (w - 1) k" by (simp_all add: bit_unsigned_iff)
    then have "bit (w AND (w - 1)) k" by (simp add: bit_and_iff)
    then show False using assms(2) by simp
  qed
  then have "w = 2 ^ k" unfolding n_def using unat_2p [OF k32] by (metis word_unat_eq_iff)
  then show ?thesis using k32 by blast
qed

section \<open>Growing a block\<close>

lemma block_header:
  assumes "heap_rep s bs" "(a, k, True) \<in> set bs"
  shows "hdr_of (raw_of s (w32 (a + 12))) = w32 a" "hdr_valid s (w32 a) KHEAP_MAGIC_USED"
    "h_size (mem s) (w32 a) = w32 k"
proof -
  obtain xs ys where "bs = xs @ (a, k, True) # ys" using assms(2) by (meson split_list)
  then have pre: "heap_pre s (xs @ (a, k, True) # ys)" using assms(1) by (simp add: heap_rep_def)
  show "hdr_of (raw_of s (w32 (a + 12))) = w32 a" "hdr_valid s (w32 a) KHEAP_MAGIC_USED"
    "h_size (mem s) (w32 a) = w32 k"
    using heap_preD(13-15) [OF pre] hdr_valid_block [OF pre] raw_of_block [of s a]
    by (simp_all add: hdr_cells hdr_of_def)
qed

text \<open>Copying between the payloads of two live blocks.\<close>

lemma copy_blocks:
  assumes rep: "heap_rep s bs" and src: "(a, k, True) \<in> set bs" and dst: "(b, m, True) \<in> set bs"
    and "a \<noteq> b" and n: "unat n \<le> k" "unat n \<le> m"
  defines "s' \<equiv> s\<lparr>mem := snd (memcpy (w32 (b + 12)) (w32 (a + 12)) n (mem s))\<rparr>"
  shows "heap_rep s' bs"
    and "i < unat n \<Longrightarrow> byte_at s' (b + 12 + i) = byte_at s (a + 12 + i)"
proof -
  note pa = heap_ptr(2) [OF rep src] and pb = heap_ptr(2) [OF rep dst] and t = heap_rep_tiled [OF rep]
  have lt: "a + 12 + k < 2 ^ 32" "b + 12 + m < 2 ^ 32"
    using tiled_below [OF t(1) src] tiled_below [OF t(1) dst] t(4) by linarith+
  have "a + 12 + k \<le> b \<or> b + 12 + m \<le> a" using tiled_disjoint [OF t(1) src dst] \<open>a \<noteq> b\<close> by auto
  then have byte: "mem s' x = (if in_region (w32 (b + 12)) (unat n) x
      then mem s (x - w32 (b + 12) + w32 (a + 12)) else mem s x)" for x
    unfolding s'_def using pa pb lt n by (subst memcpy_bytes [symmetric]) auto
  note region = in_region_w32 [OF pb]
  show "heap_rep s' bs"
    unfolding s'_def
    by (rule payload_write_rep [OF rep dst]) (use byte region n(2) in \<open>auto simp: s'_def\<close>)
  show "byte_at s' (b + 12 + i) = byte_at s (a + 12 + i)" if "i < unat n"
  proof -
    have "b + 12 + i < 2 ^ 32" using that n(2) lt(2) by linarith
    then have "mem s' (w32 (b + 12 + i)) = mem s (w32 (b + 12 + i) - w32 (b + 12) + w32 (a + 12))"
      unfolding byte using region [of "b + 12 + i" "unat n"] that by (simp del: of_nat_add)
    then show ?thesis by (simp add: byte_at_def algebra_simps)
  qed
qed

lemma krealloc_unfold:
  assumes "heap_rep s bs" "(a, k, True) \<in> set bs" "sz \<noteq> 0" "k < unat (round8 sz)"
  shows "krealloc (w32 (a + 12)) sz s = bind_out (kmalloc sz s) (\<lambda>(new_ptr, s1).
    if new_ptr = 0 then Some (Returns (0, s1))
    else let n = (if h_size (mem s1) (w32 a) < sz then h_size (mem s1) (w32 a) else sz);
             s2 = s1\<lparr>mem := snd (memcpy new_ptr (w32 (a + 12)) n (mem s1))\<rparr>
         in bind_out (kfree (w32 (a + 12)) s2) (\<lambda>s3. Some (Returns (new_ptr, s3))))"
proof -
  note h = block_header [OF assms(1,2)]
  have "k < 2 ^ 32" using assms(4) unat_lt_32 [of "round8 sz"] by linarith
  then have "\<not> h_size (mem s) (w32 a) \<ge> round8 sz"
    unfolding h(3) using assms(4) by (simp add: word_le_nat_alt unat_w32)
  then show ?thesis
    unfolding krealloc_def Let_def h(1) using h(2) heap_ptr(1) [OF assms(1,2)] assms(3) by simp
qed

lemma krealloc_moves:
  assumes rep: "heap_rep s bs" and blk: "(a, k, True) \<in> set bs"
    and sz: "sz \<noteq> 0" "unat sz + 8 \<le> 2 ^ 32" "k < unat (round8 sz)"
  shows "\<exists>p s'. krealloc (w32 (a + 12)) sz s = Some (Returns (p, s')) \<and> heap_ok s' \<and>
    (if p = 0 then s' = s
     else (\<exists>m. unat sz \<le> m \<and> (unat p, m) \<notin> live s \<and>
         live s' = insert (unat p, m) (live s - {(a + 12, k)})) \<and>
       (\<forall>i. i < k \<and> i < unat sz \<longrightarrow> byte_at s' (unat p + i) = byte_at s (a + 12 + i)))"
  using rep sz(1,2)
proof (cases rule: kmalloc_new)
  case full
  then have "krealloc (w32 (a + 12)) sz s = Some (Returns (0, s))"
    unfolding krealloc_unfold [OF rep blk sz(1,3)] by simp
  then show ?thesis using rep by (auto simp: heap_ok_def)
next
  case (block b m bs' s1)
  have live: "(a + 12, k) \<in> live s"
    unfolding live_rep [OF rep] using blk
    by (intro image_eqI [of _ _ "(a, k, True)"]) (simp_all add: used_blocks_def)
  have "(a, k, True) \<in> used_blocks bs" using blk by (simp add: used_blocks_def)
  then have "(a, k, True) \<in> used_blocks bs'" unfolding block(10) by (rule insertI2)
  then have old: "(a, k, True) \<in> set bs'" by (simp add: used_blocks_def)
  have ne: "a \<noteq> b" using tiled_disjoint [OF heap_rep_tiled(1) [OF block(4)] old block(6)] live block(9) by auto
  define n where "n = (if w32 k < sz then w32 k else sz)"
  have "k < 2 ^ 32" using sz(3) unat_lt_32 [of "round8 sz"] by linarith
  then have n: "unat n = min k (unat sz)" by (auto simp: n_def word_less_nat_alt unat_w32)
  define s2 where "s2 = s1\<lparr>mem := snd (memcpy (w32 (b + 12)) (w32 (a + 12)) n (mem s1))\<rparr>"
  have le: "unat n \<le> k" "unat n \<le> m" using n block(7) by auto
  note c = copy_blocks [OF block(4) old block(6) ne le, folded s2_def]
  obtain s3 where s3: "kfree (w32 (a + 12)) s2 = Some (Returns s3)" "heap_rep s3 (afree (a + 12) bs')"
      "heap_frame bs' s2 s3"
    using kfree_refines [OF c(1) old] by blast
  have res: "krealloc (w32 (a + 12)) sz s = Some (Returns (w32 (b + 12), s3))"
    unfolding krealloc_unfold [OF rep blk sz(1,3)] block(1) bind_out.simps prod.case Let_def
      block_header(3) [OF block(4) old] n_def [symmetric] s2_def [symmetric] s3(1)
    using block(2) by (simp only: if_False)
  have "live s3 = live s1 - {(a + 12, k)}"
    using live_remove [OF c(1) s3(2) used_blocks_afree [OF heap_rep_tiled(1) [OF c(1)] old]]
      live_mem [OF block(4) c(1)] by simp
  moreover have "live s1 = insert (b + 12, m) (live s)"
    using live_rep [OF rep] live_rep [OF block(4)] block(10) by simp
  ultimately have live3: "live s3 = insert (b + 12, m) (live s - {(a + 12, k)})" using ne by auto
  have "byte_at s3 (b + 12 + i) = byte_at s (a + 12 + i)" if "i < k" "i < unat sz" for i
  proof -
    have "byte_at s3 (b + 12 + i) = byte_at s2 (b + 12 + i)"
      using that block(7) by (intro frame_bytes [OF c(1) s3(3) block(6)]) auto
    also have "\<dots> = byte_at s1 (a + 12 + i)" using c(2) n that by simp
    also have "\<dots> = byte_at s (a + 12 + i)"
      using that by (intro frame_bytes [OF rep block(5) blk]) auto
    finally show ?thesis .
  qed
  then show ?thesis
    using res live3 block(2,3,7,9) s3(2)
    by (intro exI [of _ "w32 (b + 12)"] exI [of _ s3]) (auto simp: heap_ok_def)
qed

end
