(* ===== verification/Leg_Kheap_Theorems.thy ===== *)
theory Leg_Kheap_Theorems
  imports Leg_Kheap_Ops
begin

text \<open>
  The properties of the kernel heap: \<open>kmalloc\<close> and \<open>kfree\<close> refine first fit and merging on the
  block list, sequences of operations leave other blocks alone, a double free is detected, and the
  derived operations \<open>kzalloc\<close>, \<open>kmalloc_aligned\<close> and \<open>krealloc\<close> do what their callers expect. The
  witnesses run on the heap that \<^verbatim>\<open>mm_init\<close> creates.
\<close>

section \<open>A fresh heap\<close>

definition heap0 :: mm_state where
  "heap0 = kheap_init 0xC0400000
     \<lparr>mem = (\<lambda>_. 0),
      g_pmm = \<lparr>ram_base = 0, ram_end = 0, total_pages = 0, bitmap = 0, bitmap_words = 0,
               free_pages = 0, reserved_pages = 0, next_hint = 0\<rparr>,
      g_kheap = \<lparr>kh_base = 0, kh_capacity = 0, kh_used = 0, free_list = 0\<rparr>\<rparr>"

lemma heap0_rep: "heap_rep heap0 [(0xC0400000, 0x1FFFF4, False)]"
  using kheap_init_rep [of "0xC0400000"] unfolding heap0_def by simp

lemma heap0_kmalloc:
  assumes "sz \<noteq> 0" "unat sz + 8 \<le> 2 ^ 32" "unat (round8 sz) = n" "n + 44 \<le> 0x1FFFF4"
  obtains s where "kmalloc sz heap0 = Some (Returns (0xC040000C, s))"
    "heap_rep s [(0xC0400000, n, True), (0xC040000C + n, 0x1FFFF4 - n - 12, False)]"
  using kmalloc_refines [OF heap0_rep assms(1,2)] assms(3,4) by (auto simp: take_block_def)

lemma heap0_kmalloc_100:
  obtains s where "kmalloc 100 heap0 = Some (Returns (0xC040000C, s))"
    "heap_rep s [(0xC0400000, 104, True), (0xC0400074, 0x1FFF80, False)]"
  using heap0_kmalloc [of 100 104] by (auto simp: round8_def)

section \<open>Allocation and release\<close>

text \<open>C3: \<open>kmalloc\<close> ends without a panic and implements first fit for the size rounded up to a
  multiple of 8: it returns null and changes nothing when no free block is large enough, and
  otherwise takes the first one, split when the rest can hold a header and 32 bytes; payloads of
  other blocks are untouched.\<close>

theorem kmalloc_first_fit:
  assumes "heap_rep s bs" "sz \<noteq> 0" "unat sz + 8 \<le> 2 ^ 32"
  shows "case amalloc (unat (round8 sz)) bs of
       None \<Rightarrow> kmalloc sz s = Some (Returns (0, s))
     | Some (p, bs') \<Rightarrow> \<exists>s'. kmalloc sz s = Some (Returns (w32 p, s')) \<and> heap_rep s' bs' \<and> heap_frame bs s s'"
  by (rule kmalloc_refines [OF assms])

theorem kmalloc_first_fit_witness:
  "\<exists>s'. kmalloc 100 heap0 = Some (Returns (0xC040000C, s')) \<and>
     heap_rep s' [(0xC0400000, 104, True), (0xC0400074, 0x1FFF80, False)]"
  using kmalloc_first_fit [OF heap0_rep, of 100] by (auto simp: take_block_def round8_def)

text \<open>C7: \<open>kfree\<close> on a live pointer ends without a panic and implements marking the block free and
  merging all free neighbours, so that no two neighbouring blocks are ever both free; no byte
  of any payload changes.\<close>

theorem kfree_coalesces:
  assumes "heap_rep s bs" "(a, k, True) \<in> set bs"
  shows "\<exists>s'. kfree (w32 (a + 12)) s = Some (Returns s') \<and> heap_rep s' (afree (a + 12) bs) \<and> heap_frame bs s s'"
  using kfree_refines [OF assms] by blast

theorem kfree_coalesces_witness:
  "\<exists>s s'. kmalloc 100 heap0 = Some (Returns (0xC040000C, s)) \<and> kfree 0xC040000C s = Some (Returns s') \<and>
     heap_rep s' [(0xC0400000, 0x1FFFF4, False)]"
proof (rule heap0_kmalloc_100)
  fix s
  assume k: "kmalloc 100 heap0 = Some (Returns (0xC040000C, s))"
    and r: "heap_rep s [(0xC0400000, 104, True), (0xC0400074, 0x1FFF80, False)]"
  from kfree_coalesces [OF r, of "0xC0400000" 104] k show ?thesis by (auto simp: afree_def)
qed

text \<open>Freeing a live pointer and then freeing it again panics, even when the block was merged into
  a neighbour by the first free.\<close>

theorem kfree_twice_panics:
  assumes "heap_rep s bs" "(a, k, True) \<in> set bs"
  shows "\<exists>s'. kfree (w32 (a + 12)) s = Some (Returns s') \<and>
    kfree (w32 (a + 12)) s' = Some (Panics ''kfree: invalid or double-free'')"
proof -
  obtain s' where s': "kfree (w32 (a + 12)) s = Some (Returns s')"
      "cell (mem s') a \<noteq> KHEAP_MAGIC_USED" "4 dvd unat (cell (mem s') (a + 8))"
    using kfree_refines [OF assms] by blast
  have "hdr_of (w32 (a + 12)) = w32 a" by (simp add: hdr_of_def)
  moreover have "\<not> hdr_valid s' (w32 a) KHEAP_MAGIC_USED"
    using s'(2) by (simp add: hdr_valid_def Let_def hdr_cells)
  ultimately have "kfree (w32 (a + 12)) s' = Some (Panics ''kfree: invalid or double-free'')"
    unfolding kfree_def Let_def raw_of_block [OF s'(3)] using heap_ptr(1) [OF assms] by simp
  then show ?thesis using s'(1) by blast
qed

theorem kfree_twice_panics_witness:
  "\<exists>s s'. kmalloc 100 heap0 = Some (Returns (0xC040000C, s)) \<and> kfree 0xC040000C s = Some (Returns s') \<and>
     kfree 0xC040000C s' = Some (Panics ''kfree: invalid or double-free'')"
proof (rule heap0_kmalloc_100)
  fix s
  assume k: "kmalloc 100 heap0 = Some (Returns (0xC040000C, s))"
    and r: "heap_rep s [(0xC0400000, 104, True), (0xC0400074, 0x1FFF80, False)]"
  from kfree_twice_panics [OF r, of "0xC0400000" 104] k show ?thesis by auto
qed

text \<open>C15: any legal sequence of allocations and releases runs to its end, and a block that it does not
  release stays live and keeps every byte of its contents.\<close>

theorem heap_isolation:
  assumes "heap_ok s" "legal_ops req_size live alloc_block free_block ops s"
    and "(p, n) \<in> live s" "Free p \<notin> set ops"
  shows "\<exists>s'. run_ops alloc_block free_block ops s = Some s' \<and> heap_ok s' \<and> (p, n) \<in> live s' \<and>
    (\<forall>x. p \<le> x \<and> x < p + n \<longrightarrow> byte_at s' x = byte_at s x)"
  using kheap.run_ops_isolated [OF assms(1,2), of p n] assms(3,4) by blast

theorem heap_isolation_witness:
  "\<exists>s s'. kmalloc 100 heap0 = Some (Returns (0xC040000C, s)) \<and>
     run_ops alloc_block free_block [Alloc 8] s = Some s' \<and> (0xC040000C, 104) \<in> live s'"
proof (rule heap0_kmalloc_100)
  fix s
  assume k: "kmalloc 100 heap0 = Some (Returns (0xC040000C, s))"
    and r: "heap_rep s [(0xC0400000, 104, True), (0xC0400074, 0x1FFF80, False)]"
  have "heap_ok s" "(0xC040000C, 104) \<in> live s"
    using r by (auto simp: heap_ok_def live_rep)
  moreover have "legal_ops req_size live alloc_block free_block [Alloc 8] s"
    by (auto simp: req_size_def split: option.split)
  ultimately show ?thesis
    using heap_isolation [of s "[Alloc 8]" "0xC040000C" 104] k by auto
qed


section \<open>Derived operations\<close>

text \<open>\<open>kzalloc\<close> is an allocation of at least the requested size whose requested bytes are all 0,
  or null with no change.\<close>

theorem kzalloc_correct:
  assumes "heap_rep s bs" "sz \<noteq> 0" "unat sz + 8 \<le> 2 ^ 32"
  shows "\<exists>p s'. kzalloc sz s = Some (Returns (p, s')) \<and> heap_ok s' \<and>
    (if p = 0 then s' = s
     else (\<exists>m. unat sz \<le> m \<and> (unat p, m) \<notin> live s \<and> live s' = insert (unat p, m) (live s)) \<and>
       (\<forall>x. unat p \<le> x \<and> x < unat p + unat sz \<longrightarrow> byte_at s' x = 0))"
  by (rule kzalloc_zeroes [OF assms])

theorem kzalloc_correct_witness:
  "\<exists>p s'. kzalloc 100 heap0 = Some (Returns (p, s')) \<and> heap_ok s'"
  using kzalloc_correct [OF heap0_rep, of 100] by auto

text \<open>C16: \<open>kmalloc_aligned\<close> returns null and changes nothing for an empty request and for an alignment that is not a power of
  two. For a power of two it fails exactly when no free block can hold the request with the room for the alignment and the
  tag; otherwise it takes the block that first fit takes for that size and returns the first address behind the 8 bytes of
  the tag that is a multiple of the alignment (at least 8), with all requested bytes inside the block; and \<open>kfree\<close> on that
  address releases exactly that block.\<close>

theorem kmalloc_aligned_correct:
  assumes "heap_rep s bs"
  shows "(sz = 0 \<or> (\<forall>k < 32. al \<noteq> 2 ^ k) \<longrightarrow> kmalloc_aligned sz al s = Some (Returns (0, s))) \<and>
    (\<forall>k < 32. sz \<noteq> 0 \<and> al = 2 ^ k \<and> unat sz + 2 ^ max 3 k + 16 \<le> 2 ^ 32 \<longrightarrow>
      (case amalloc (unat (round8 (sz + 2 ^ max 3 k + 8))) bs of
         None \<Rightarrow> kmalloc_aligned sz al s = Some (Returns (0, s))
       | Some (q, bs') \<Rightarrow> \<exists>p s' m. kmalloc_aligned sz al s = Some (Returns (p, s')) \<and> p \<noteq> 0 \<and>
           2 ^ max 3 k dvd unat p \<and> q + 8 \<le> unat p \<and> unat p < q + 8 + 2 ^ max 3 k \<and> unat p + unat sz \<le> q + m \<and>
           heap_rep s' bs' \<and> (q, m) \<notin> live s \<and> live s' = insert (q, m) (live s) \<and>
           (\<exists>s''. kfree p s' = Some (Returns s'') \<and> heap_rep s'' (afree q bs') \<and> live s'' = live s)))"
proof (intro conjI allI impI)
  assume "sz = 0 \<or> (\<forall>k < 32. al \<noteq> 2 ^ k)"
  then have "sz = 0 \<or> al = 0 \<or> al AND (al - 1) \<noteq> 0" using power_of_two_test by blast
  then show "kmalloc_aligned sz al s = Some (Returns (0, s))" by (simp add: kmalloc_aligned_def)
next
  fix k :: nat assume k: "k < 32" "sz \<noteq> 0 \<and> al = 2 ^ k \<and> unat sz + 2 ^ max 3 k + 16 \<le> 2 ^ 32"
  then have sz: "sz \<noteq> 0" "unat sz + 2 ^ max 3 k + 16 \<le> 2 ^ 32" and al: "al = 2 ^ k" by simp_all
  note b = kmalloc_aligned_block [OF assms sz(1) k(1) sz(2)]
  show "case amalloc (unat (round8 (sz + 2 ^ max 3 k + 8))) bs of
         None \<Rightarrow> kmalloc_aligned sz al s = Some (Returns (0, s))
       | Some (q, bs') \<Rightarrow> \<exists>p s' m. kmalloc_aligned sz al s = Some (Returns (p, s')) \<and> p \<noteq> 0 \<and>
           2 ^ max 3 k dvd unat p \<and> q + 8 \<le> unat p \<and> unat p < q + 8 + 2 ^ max 3 k \<and> unat p + unat sz \<le> q + m \<and>
           heap_rep s' bs' \<and> (q, m) \<notin> live s \<and> live s' = insert (q, m) (live s) \<and>
           (\<exists>s''. kfree p s' = Some (Returns s'') \<and> heap_rep s'' (afree q bs') \<and> live s'' = live s)"
    using b unfolding al by (cases "amalloc (unat (round8 (sz + 2 ^ max 3 k + 8))) bs") auto
qed

theorem kmalloc_aligned_correct_witness:
  "(\<exists>s' s''. kmalloc_aligned 64 4096 heap0 = Some (Returns (0xC0401000, s')) \<and> live s' = {(0xC040000C, 4168)} \<and>
      kfree 0xC0401000 s' = Some (Returns s'') \<and> live s'' = {}) \<and>
    kmalloc_aligned 0x1FF000 4096 heap0 = Some (Returns (0, heap0)) \<and> kmalloc_aligned 64 12 heap0 = Some (Returns (0, heap0))"
proof (intro conjI)
  note c = kmalloc_aligned_correct [OF heap0_rep]
  have p12: "(4096 :: u32) = 2 ^ 12" "max 3 12 = (12 :: nat)" by simp_all
  have live0: "live heap0 = {}" using live_rep [OF heap0_rep] by simp
  have n: "unat (round8 (64 + 2 ^ max 3 12 + 8)) = 4168" "unat (round8 (0x1FF000 + 2 ^ max 3 12 + 8)) = 0x200008"
    unfolding p12(2) by (simp_all add: round8_def)
  have am: "amalloc 4168 [(0xC0400000, 0x1FFFF4, False)] = Some (0xC040000C, [(0xC0400000, 4168, True), (0xC0401054, 0x1FEFA0, False)])"
    "amalloc 0x200008 [(0xC0400000, 0x1FFFF4, False)] = None"
    by (simp_all add: take_block_def)
  have "\<forall>k < 32. (12 :: u32) \<noteq> 2 ^ k"
  proof (intro allI impI notI)
    fix k :: nat assume e: "(12 :: u32) = 2 ^ k"
    have "(2 ^ k :: u32) AND (2 ^ k - 1) = 0" by (rule bit_word_eqI) (simp add: bit_simps flip: mask_eq_exp_minus_1)
    then show False unfolding e [symmetric] by simp
  qed
  then show "kmalloc_aligned 64 12 heap0 = Some (Returns (0, heap0))" using c [of 64 12] by blast
  show "kmalloc_aligned 0x1FF000 4096 heap0 = Some (Returns (0, heap0))"
    using c [of "0x1FF000" 4096, THEN conjunct2, rule_format, of 12] unfolding n(2) am(2) by simp
  obtain p s' m where r: "kmalloc_aligned 64 4096 heap0 = Some (Returns (p, s'))" "2 ^ 12 dvd unat p" "0xC040000C + 8 \<le> unat p"
    "unat p < 0xC040000C + 8 + 2 ^ 12" "heap_rep s' [(0xC0400000, 4168, True), (0xC0401054, 0x1FEFA0, False)]"
    "\<exists>s''. kfree p s' = Some (Returns s'') \<and> live s'' = live heap0"
    using c [of 64 4096, THEN conjunct2, rule_format, of 12] unfolding n(1) am(1) unfolding p12(2) by auto
  have "unat p div 4096 = 0xC0401" using r(3,4) r(2) by auto
  then have "unat p = 0xC0401000" using r(2) by auto
  then have "p = 0xC0401000" by (simp add: word_unat_eq_iff)
  moreover have "live s' = {(0xC040000C, 4168)}" using live_rep [OF r(5)] by simp
  ultimately show "\<exists>s' s''. kmalloc_aligned 64 4096 heap0 = Some (Returns (0xC0401000, s')) \<and> live s' = {(0xC040000C, 4168)} \<and>
      kfree 0xC0401000 s' = Some (Returns s'') \<and> live s'' = {}" using r(1,6) live0 by auto
qed

text \<open>\<open>krealloc\<close> on a live pointer returns the same pointer and changes nothing when the block is
  large enough; otherwise it moves the contents to a new block and releases the old one, or returns
  null and leaves the old block alone.\<close>

theorem krealloc_correct:
  assumes "heap_rep s bs" "(a, k, True) \<in> set bs" "sz \<noteq> 0" "unat sz + 8 \<le> 2 ^ 32"
  shows "\<exists>p s'. krealloc (w32 (a + 12)) sz s = Some (Returns (p, s')) \<and> heap_ok s' \<and>
    (if unat (round8 sz) \<le> k then p = w32 (a + 12) \<and> s' = s
     else if p = 0 then s' = s
     else (\<exists>m. unat sz \<le> m \<and> (unat p, m) \<notin> live s \<and>
         live s' = insert (unat p, m) (live s - {(a + 12, k)})) \<and>
       (\<forall>i. i < k \<and> i < unat sz \<longrightarrow> byte_at s' (unat p + i) = byte_at s (a + 12 + i)))"
proof (cases "unat (round8 sz) \<le> k")
  case True
  note t = heap_rep_tiled [OF assms(1)] and h = block_header [OF assms(1,2)]
  have "k < 2 ^ 32" using tiled_below [OF t(1) assms(2)] t(4) by linarith
  then have "h_size (mem s) (w32 a) \<ge> round8 sz"
    unfolding h(3) using True by (simp add: word_le_nat_alt unat_w32)
  then have "krealloc (w32 (a + 12)) sz s = Some (Returns (w32 (a + 12), s))"
    unfolding krealloc_def Let_def h(1) using h(2) heap_ptr(1) [OF assms(1,2)] assms(3) by simp
  then show ?thesis using True assms(1) by (auto simp: heap_ok_def)
next
  case False
  then show ?thesis using krealloc_moves [OF assms] by simp
qed

theorem krealloc_correct_witness:
  "\<exists>s p s'. kmalloc 100 heap0 = Some (Returns (0xC040000C, s)) \<and>
     krealloc 0xC040000C 200 s = Some (Returns (p, s')) \<and> heap_ok s'"
proof (rule heap0_kmalloc_100)
  fix s
  assume k: "kmalloc 100 heap0 = Some (Returns (0xC040000C, s))"
    and r: "heap_rep s [(0xC0400000, 104, True), (0xC0400074, 0x1FFF80, False)]"
  from krealloc_correct [OF r, of "0xC0400000" 104 200] k show ?thesis by auto
qed

section \<open>Limits of the rounding\<close>

text \<open>A request of \<^verbatim>\<open>0xFFFFFFFF\<close> bytes wraps to 0 when it is rounded up, so \<open>kmalloc\<close> answers it
  with a non-null pointer to an empty block.\<close>

theorem kmalloc_wraps:
  "\<exists>s'. kmalloc 0xFFFFFFFF heap0 = Some (Returns (0xC040000C, s')) \<and> live s' = {(0xC040000C, 0)}"
proof -
  have "free_list (g_kheap heap0) = w32 0xC0400000" by (simp add: heap0_def kheap_init_def)
  moreover have "round8 0xFFFFFFFF = 0" by code_simp
  ultimately have eq: "kmalloc 0xFFFFFFFF heap0 = kmalloc_loop (w32 0) (w32 (lf [] 0)) (w32 (nf [(0xC0400000, 0x1FFFF4, False)] 0)) heap0"
    by (simp add: kmalloc_def)
  obtain s' where "kmalloc 0xFFFFFFFF heap0 = Some (Returns (0xC040000C, s'))"
      "heap_rep s' [(0xC0400000, 0, True), (0xC040000C, 0x1FFFE8, False)]"
    unfolding eq using kmalloc_loop_refines [of 0 heap0 "[]" "[(0xC0400000, 0x1FFFF4, False)]"] heap0_rep
    by (auto simp: take_block_def)
  then show ?thesis by (auto simp: live_rep)
qed

text \<open>A pointer from \<open>kmalloc\<close> need not be 8-byte aligned: headers have 12 bytes, so the first
  pointer of a page-aligned heap is 4 modulo 8.\<close>

theorem kmalloc_not_8_aligned:
  "\<exists>s'. kmalloc 8 heap0 = Some (Returns (0xC040000C, s')) \<and> \<not> 8 dvd unat (0xC040000C :: u32)"
  using heap0_kmalloc [of 8 8] by (auto simp: round8_def)

end
