(* ===== verification/Leg_Mm_Init.thy ===== *)
theory Leg_Mm_Init
  imports Leg_Pmm_Props Leg_Kheap_Theorems
begin

text \<open>
  \<open>mm_init\<close>: it clamps the RAM described by the device tree to 32 bits, places and clears the bitmap
  behind the early reservations, reserves the pages of the bitmap and of the heap, and formats the
  heap. It establishes the invariants of both allocators. Virtual and physical addresses index the
  same memory here: the kernel maps RAM one to one below \<^verbatim>\<open>KERNEL_VA\<close> and its heap above.
\<close>

section \<open>The operation\<close>

definition pmm_setup :: "u32 \<Rightarrow> u32 \<Rightarrow> u32 \<Rightarrow> mm_state \<Rightarrow> mm_state" where
  "pmm_setup ram_b ram_e bitmap_pa s =
     (let total = drop_bit PAGE_SHIFT (ram_e - ram_b);
          words = div_round_up total BM_BITS
      in s\<lparr>mem := snd (memset bitmap_pa 0 (words * 4) (mem s)),
           g_pmm := \<lparr>ram_base = ram_b, ram_end = ram_e, total_pages = total, bitmap = bitmap_pa,
             bitmap_words = words, free_pages = total, reserved_pages = 0, next_hint = 0\<rparr>\<rparr>)"

definition clamp_end :: "u32 \<Rightarrow> u64 \<Rightarrow> u32" where
  "clamp_end mem_base mem_size =
     (let end64 = ucast mem_base + mem_size
      in if end64 > ucast U32_MAX then U32_MAX AND PAGE_MASK else ucast end64)"

definition mm_init :: "u32 \<Rightarrow> u32 \<Rightarrow> u64 \<Rightarrow> u32 \<Rightarrow> u32 \<Rightarrow> mm_state \<Rightarrow> mm_state outcome option" where
  "mm_init kernel_phys_base mem_base mem_size reserved_end heap_va s =
     (if \<not> mem_size > 0 then Some (Panics ''mm_init: no RAM info from DTB'')
      else
        let ram_b = align_up mem_base PAGE_SIZE;
            ram_e = align_down (clamp_end mem_base mem_size) PAGE_SIZE in
        if \<not> ram_e > ram_b then Some (Panics ''mm_init: degenerate RAM range'')
        else
          let bitmap_pa = align_up reserved_end PAGE_SIZE;
              bitmap_bytes = div_round_up (drop_bit PAGE_SHIFT (ram_e - ram_b)) BM_BITS * 4 in
          if \<not> bitmap_pa + bitmap_bytes \<le> ram_e then Some (Panics ''mm_init: bitmap overflows RAM'')
          else
            (case reserve_range bitmap_pa (bitmap_pa + bitmap_bytes) (pmm_setup ram_b ram_e bitmap_pa s) of
               None \<Rightarrow> None
             | Some s1 \<Rightarrow>
                 let heap_pa = virt_to_phys kernel_phys_base heap_va in
                 (case reserve_range heap_pa (heap_pa + KHEAP_SIZE) s1 of
                    None \<Rightarrow> None
                  | Some s2 \<Rightarrow> Some (Returns (kheap_init heap_va s2)))))"

section \<open>Reservation\<close>

definition mark_page :: "nat \<Rightarrow> mm_state \<Rightarrow> mm_state" where
  "mark_page i s =
     s\<lparr>mem := bm_set (mem s) (bitmap (g_pmm s)) (w32 i),
       g_pmm := (g_pmm s)\<lparr>reserved_pages := reserved_pages (g_pmm s) + 1,
         free_pages := free_pages (g_pmm s) - 1\<rparr>\<rparr>"

lemma pmm_geom_reserved [simp]: "pmm_geom (p\<lparr>reserved_pages := r\<rparr>) = pmm_geom p"
  by (simp add: pmm_geom_def bm_of_def)

lemma mark_page_inv:
  assumes inv: "pmm_inv s" and i: "i \<in> free_idx s"
  shows "pmm_inv (mark_page i s)" (is ?inv)
    and "free_idx (mark_page i s) = free_idx s - {i}" (is ?free)
    and "pmm_frame s (mark_page i s)" (is ?frame)
proof -
  let ?p = "g_pmm s"
  have geom: "pmm_geom ?p" using inv by (simp add: pmm_inv_def)
  have wf: "bm_wf (bitmap ?p, unat (total_pages ?p))"
    using geom unfolding pmm_geom_def bm_of_def by blast
  have lt: "i < unat (total_pages ?p)" using i by (simp add: free_idx_iff)
  have "bits.free (bm_set (mem s) (bitmap ?p) (w32 i)) (bm_of ?p) = bits.free (mem s) (bm_of ?p) - {i}"
    using bits.free_st [OF wf, of i "mem s"] lt by (simp add: bm_of_def)
  then show free: ?free by (simp add: free_idx_def mark_page_def bm_of_def)
  have "0 < card (free_idx s)" using i by (auto simp: card_gt_0_iff)
  then have "unat (free_pages ?p - 1) = card (free_idx s - {i})"
    using inv i by (simp add: pmm_inv_def unat_sub word_le_nat_alt)
  then show ?inv
    unfolding pmm_inv_def free using geom inv by (simp add: mark_page_def pmm_inv_def)
  show ?frame
    using bm_write_frame(1) [OF wf lt] by (simp add: pmm_frame_def mark_page_def bm_of_def)
qed

lemma reserve_loop_marks:
  assumes "j \<le> unat (total_pages (g_pmm s))" "pmm_inv s"
    and e: "end_pa = w32 (unat (ram_base (g_pmm s)) + 4096 * j)"
  shows "i \<le> j \<Longrightarrow> \<exists>s'. reserve_loop (w32 (unat (ram_base (g_pmm s)) + 4096 * i)) end_pa s = Some s' \<and>
    pmm_inv s' \<and> pmm_frame s s' \<and> free_idx s' = free_idx s - {i..<j}"
  using assms
proof (induction "j - i" arbitrary: i s)
  case 0
  then show ?case by (subst reserve_loop.simps) simp
next
  case (Suc x)
  let ?p = "g_pmm s" let ?b = "unat (ram_base (g_pmm s))"
  have geom: "pmm_geom ?p" using Suc.prems(3) by (simp add: pmm_inv_def)
  have ij: "i < j" and x: "x = j - Suc i" using Suc.hyps(2) by auto
  have lt: "i < unat (total_pages ?p)" using ij Suc.prems(2) by linarith
  have "?b + 4096 * j < 2 ^ 32"
    using pmm_geom_pages(1) [OF geom] Suc.prems(2) unat_lt_32 [of "ram_end ?p"] by linarith
  then have guard: "w32 (?b + 4096 * i) < end_pa"
    unfolding Suc.prems(4) using ij by (subst w32_less_iff) auto
  have idx: "pa_to_idx ?p (w32 (?b + 4096 * i)) = w32 i"
    using idx_to_pa_valid(3) [OF geom lt] by (simp only: idx_to_pa_w32)
  have next_pa: "w32 (?b + 4096 * i) + 4096 = w32 (?b + 4096 * Suc i)" by simp
  define s1 where "s1 = (if i \<in> free_idx s then mark_page i s else s)"
  have free: "\<not> bm_test (mem s) (bitmap ?p) (w32 i) \<longleftrightarrow> i \<in> free_idx s"
    using lt by (simp add: free_idx_iff)
  have pos: "free_pages ?p > 0" if "i \<in> free_idx s"
    using Suc.prems(3) that by (auto simp: pmm_inv_def card_gt_0_iff unat_gt_0 simp flip: word_neq_0_conv)
  have step: "reserve_loop (w32 (?b + 4096 * i)) end_pa s = reserve_loop (w32 (?b + 4096 * Suc i)) end_pa s1"
    by (subst reserve_loop.simps, unfold Let_def idx free next_pa)
       (use guard pos in \<open>simp add: s1_def mark_page_def\<close>)
  have s1: "pmm_inv s1" "pmm_frame s s1" "free_idx s1 = free_idx s - {i}"
    using mark_page_inv [OF Suc.prems(3)] Suc.prems(3) by (auto simp: s1_def)
  have same: "ram_base (g_pmm s1) = ram_base ?p" "total_pages (g_pmm s1) = total_pages ?p"
    by (auto simp: s1_def mark_page_def)
  obtain s' where "reserve_loop (w32 (?b + 4096 * Suc i)) end_pa s1 = Some s'" "pmm_inv s'" "pmm_frame s1 s'"
      "free_idx s' = free_idx s1 - {Suc i..<j}"
    using Suc.hyps(1) [of "Suc i" s1, OF x] ij Suc.prems(2,4) s1(1) unfolding same by auto
  moreover have "free_idx s1 - {Suc i..<j} = free_idx s - {i..<j}" unfolding s1(3) using ij by auto
  ultimately show ?case unfolding step using s1(2) pmm_frame_trans by blast
qed


lemma reserve_range_marks:
  assumes inv: "pmm_inv s" and bound: "unat end_pa + 4096 \<le> 2 ^ 32"
  shows "\<exists>s'. reserve_range base end_pa s = Some s' \<and> pmm_inv s' \<and> pmm_frame s s' \<and>
    free_idx s' = {i \<in> free_idx s. \<not> (unat (align_down base 4096) \<le> unat (ram_base (g_pmm s)) + 4096 * i \<and>
      unat (ram_base (g_pmm s)) + 4096 * i < unat (align_up end_pa 4096))}"
proof -
  let ?p = "g_pmm s" let ?rb = "unat (ram_base (g_pmm s))"
  define B where "B = align_down base 4096"
  define E where "E = align_up end_pa 4096"
  define b2 where "b2 = (if B < ram_base ?p then ram_base ?p else B)"
  define e2 where "e2 = (if E > ram_end ?p then ram_end ?p else E)"
  have eq: "reserve_range base end_pa s = reserve_loop b2 e2 s"
    by (simp add: reserve_range_def Let_def b2_def e2_def B_def E_def)
  have geom: "pmm_geom ?p" using inv by (simp add: pmm_inv_def)
  note pages = pmm_geom_pages [OF geom]
  have "4096 dvd unat B" "4096 dvd unat E"
    using align_down_greatest(1) [of 12 base] align_up_least(1) [of 12 end_pa] bound
    by (simp_all add: B_def E_def)
  then have dvd: "4096 dvd unat b2" "4096 dvd unat e2"
    using geom by (auto simp: b2_def e2_def pmm_geom_def)
  have b2: "unat b2 = max (unat B) ?rb" and e2: "unat e2 = min (unat E) (unat (ram_end ?p))"
    by (auto simp: b2_def e2_def word_less_nat_alt max_def min_def)
  show ?thesis
  proof (cases "b2 < e2")
    case False
    then have "reserve_range base end_pa s = Some s" unfolding eq by (subst reserve_loop.simps) simp
    moreover have "\<not> (unat B \<le> ?rb + 4096 * i \<and> ?rb + 4096 * i < unat E)" if "i \<in> free_idx s" for i
      using that False pages(1) b2 e2 by (auto simp: free_idx_iff word_less_nat_alt)
    ultimately show ?thesis using inv by (auto simp: B_def E_def)
  next
    case True
    obtain b i j where bij: "?rb = 4096 * b" "unat b2 = ?rb + 4096 * i" "unat e2 = ?rb + 4096 * j"
    proof -
      obtain b where b: "?rb = 4096 * b" using geom by (auto simp: pmm_geom_def)
      obtain c d where c: "unat b2 = 4096 * c" and d: "unat e2 = 4096 * d" using dvd by (elim dvdE)
      have "b \<le> c" "b \<le> d" using b c d b2 True by (auto simp: word_less_nat_alt)
      then show ?thesis using that [of b "c - b" "d - b"] b c d by (simp add: diff_mult_distrib2)
    qed
    have ij: "i \<le> j" using True bij by (simp add: word_less_nat_alt)
    have j: "j \<le> unat (total_pages ?p)" using bij(3) e2 pages(1) by linarith
    have words: "b2 = w32 (?rb + 4096 * i)" "e2 = w32 (?rb + 4096 * j)"
      unfolding bij(2,3) [symmetric] by (rule w32_unat [symmetric])+
    obtain s' where s': "reserve_loop b2 e2 s = Some s'" "pmm_inv s'" "pmm_frame s s'"
        "free_idx s' = free_idx s - {i..<j}"
      using reserve_loop_marks [OF j inv words(2) ij] unfolding words(1) by blast
    have "k \<in> {i..<j} \<longleftrightarrow> unat B \<le> ?rb + 4096 * k \<and> ?rb + 4096 * k < unat E" if "k \<in> free_idx s" for k
    proof -
      have "k < unat (total_pages ?p)" using that by (simp add: free_idx_iff)
      then have "?rb + 4096 * k < unat (ram_end ?p)" using pages(1) by linarith
      then have "unat b2 \<le> ?rb + 4096 * k \<and> ?rb + 4096 * k < unat e2 \<longleftrightarrow>
          unat B \<le> ?rb + 4096 * k \<and> ?rb + 4096 * k < unat E" using b2 e2 by linarith
      then show ?thesis unfolding bij(2,3) by auto
    qed
    then have "free_idx s' = {k \<in> free_idx s. \<not> (unat B \<le> ?rb + 4096 * k \<and> ?rb + 4096 * k < unat E)}"
      unfolding s'(4) by blast
    then show ?thesis using s' eq by (auto simp: B_def E_def)
  qed
qed


section \<open>The two allocators side by side\<close>

lemma bm_test_cong:
  assumes "bm_wf (bm, n)" "i < n" "\<And>a. bm_bytes (bm, n) a \<Longrightarrow> m' a = m a"
  shows "bm_test m' bm (w32 i) = bm_test m bm (w32 i)"
proof -
  have "rd32 m' (bm + 4 * (w32 i div 32)) = rd32 m (bm + 4 * (w32 i div 32))"
    using bm_word_in_bytes [OF assms(1,2)] assms(3) by (intro rd32_cong) (auto simp: bm_bytes_def)
  then show ?thesis by (simp add: bm_test_def)
qed

lemma pmm_mem_cong:
  assumes inv: "pmm_inv s" and p: "g_pmm s' = g_pmm s"
    and m: "\<And>a. bm_bytes (bm_of (g_pmm s)) a \<Longrightarrow> mem s' a = mem s a"
  shows "pmm_inv s'" "free_idx s' = free_idx s"
proof -
  have wf: "bm_wf (bitmap (g_pmm s), unat (total_pages (g_pmm s)))"
    using inv unfolding pmm_inv_def pmm_geom_def bm_of_def by blast
  have "bm_test (mem s') (bitmap (g_pmm s)) (w32 i) = bm_test (mem s) (bitmap (g_pmm s)) (w32 i)"
    if "i < unat (total_pages (g_pmm s))" for i
    by (rule bm_test_cong [OF wf that m [unfolded bm_of_def]])
  then show free: "free_idx s' = free_idx s" unfolding set_eq_iff free_idx_iff p by blast
  show "pmm_inv s'" using inv unfolding pmm_inv_def free p .
qed

lemma avail_cong: "pmm_inv s \<Longrightarrow> pmm_inv s' \<Longrightarrow> g_pmm s' = g_pmm s \<Longrightarrow> free_idx s' = free_idx s \<Longrightarrow> avail s' = avail s"
  using avail_image [of s] avail_image [of s'] by (simp add: pmm_inv_def)

section \<open>Initialisation\<close>

definition bitmap_len :: "u32 \<Rightarrow> u32 \<Rightarrow> nat" where
  "bitmap_len ram_b ram_e = 4 * (((unat ram_e - unat ram_b) div 4096 + 31) div 32)"

lemma pmm_setup_bytes:
  assumes "ram_b < ram_e"
  shows "div_round_up (drop_bit 12 (ram_e - ram_b)) 32 * 4 = w32 (bitmap_len ram_b ram_e)"
    and "bitmap_len ram_b ram_e \<le> 0x20000"
proof -
  let ?n = "(unat ram_e - unat ram_b) div 4096"
  have tot: "unat (drop_bit 12 (ram_e - ram_b)) = ?n"
    using assms by (simp only: unat_drop_bit_eq) (simp add: drop_bit_eq_div unat_sub word_less_nat_alt word_le_nat_alt)
  have "unat ram_e - unat ram_b < 4096 * 2 ^ 20"
    using le_less_trans [OF diff_le_self unat_lt_32 [of ram_e]] by simp
  then have n: "?n < 2 ^ 20" by (simp add: div_less_iff_less_mult)
  have "unat (div_round_up (drop_bit 12 (ram_e - ram_b)) 32) = (?n + 31) div 32"
    unfolding tot [symmetric] by (rule unat_div_round_up_32) (use n tot in simp)
  then have "div_round_up (drop_bit 12 (ram_e - ram_b)) 32 = w32 ((?n + 31) div 32)"
    by (metis w32_unat)
  then show "div_round_up (drop_bit 12 (ram_e - ram_b)) 32 * 4 = w32 (bitmap_len ram_b ram_e)"
    by (simp add: bitmap_len_def mult.commute)
  show "bitmap_len ram_b ram_e \<le> 0x20000" using n by (simp add: bitmap_len_def)
qed

lemma pmm_setup_inv:
  fixes s :: mm_state
  assumes lt: "ram_b < ram_e" and dvd: "4096 dvd unat ram_b" "4096 dvd unat ram_e" "4 dvd unat bp"
    and fits: "unat bp + 4 * (((unat ram_e - unat ram_b) div 4096 + 31) div 32) \<le> 2 ^ 32"
  defines "s1 \<equiv> pmm_setup ram_b ram_e bp s"
  shows "pmm_inv s1" "free_idx s1 = {..<(unat ram_e - unat ram_b) div 4096}"
    "bm_of (g_pmm s1) = (bp, (unat ram_e - unat ram_b) div 4096)"
proof -
  let ?n = "(unat ram_e - unat ram_b) div 4096"
  have tot: "unat (drop_bit 12 (ram_e - ram_b)) = ?n"
    using lt by (simp only: unat_drop_bit_eq) (simp add: drop_bit_eq_div unat_sub word_less_nat_alt word_le_nat_alt)
  have n: "0 < ?n" "?n < 2 ^ 20"
  proof -
    obtain b e where be: "unat ram_b = 4096 * b" "unat ram_e = 4096 * e" using dvd by (elim dvdE)
    have "b < e" using lt be by (simp add: word_less_nat_alt)
    moreover have "?n = e - b" using be by (simp flip: diff_mult_distrib2)
    ultimately show "0 < ?n" "?n < 2 ^ 20" using be unat_lt_32 [of ram_e] by auto
  qed
  have words: "unat (div_round_up (drop_bit 12 (ram_e - ram_b)) 32 * 4) = 4 * ((?n + 31) div 32)"
    unfolding pmm_setup_bytes(1) [OF lt]
    using unat_w32 [of "bitmap_len ram_b ram_e"] pmm_setup_bytes(2) [OF lt] by (simp add: bitmap_len_def)
  have g: "total_pages (g_pmm s1) = drop_bit 12 (ram_e - ram_b)" "bitmap (g_pmm s1) = bp"
    by (simp_all add: s1_def pmm_setup_def Let_def)
  show bm: "bm_of (g_pmm s1) = (bp, ?n)" using tot g by (simp add: bm_of_def)
  have wf: "bm_wf (bp, ?n)" using fits dvd(3) n by (simp add: al4_def)
  have "mem s1 a = 0" if "bm_bytes (bp, ?n) a" for a
    using that fits words by (simp add: s1_def pmm_setup_def Let_def memset_bytes bm_bytes_def)
  then have "\<not> bm_test (mem s1) bp (w32 i)" if "i < ?n" for i
    using bm_test_cong [OF wf that, of "mem s1" "\<lambda>_. 0"] by (simp add: bm_test_def rd32_def)
  then show free: "free_idx s1 = {..<?n}" using g tot by (auto simp: free_idx_iff)
  have "pmm_geom (g_pmm s1)"
    unfolding pmm_geom_def bm using wf dvd lt tot by (simp add: s1_def pmm_setup_def Let_def)
  then show "pmm_inv s1"
    unfolding pmm_inv_def free using n tot by (simp add: s1_def pmm_setup_def Let_def word_less_nat_alt)
qed


lemma kheap_init_other:
  assumes "4 dvd unat va" "unat va + 12 < 2 ^ 32" "unat a < unat va \<or> unat va + 12 \<le> unat a"
  shows "mem (kheap_init va s) a = mem s a"
proof -
  have wa: "word_addr (unat va)" "word_addr (unat va + 4)" "word_addr (unat va + 8)"
    using word_addr_hdr [OF assms(1,2)] by auto
  have "mem (kheap_init va s) (w32 (unat a)) = mem s (w32 (unat a))"
    using hdr_cells(4-6) [of "unat va"] put_byte [OF wa(1), of "unat a"] put_byte [OF wa(2), of "unat a"]
      put_byte [OF wa(3), of "unat a"] assms(3) unat_lt_32 [of a]
    by (auto simp: kheap_init_def)
  then show ?thesis by simp
qed

text \<open>The conditions under which boot calls \<open>mm_init\<close>, with the RAM range it computes.\<close>

definition boot_ok :: "u32 \<Rightarrow> u32 \<Rightarrow> u32 \<Rightarrow> u32 \<Rightarrow> u32 \<Rightarrow> bool" where
  "boot_ok ram_b ram_e reserved_end heap_va heap_pa \<longleftrightarrow>
     0 < ram_b \<and> ram_b < ram_e \<and>
     unat reserved_end + 0x30000 \<le> 2 ^ 32 \<and>
     unat (align_up reserved_end 4096) + bitmap_len ram_b ram_e \<le> unat ram_e \<and>
     ram_e \<le> heap_va \<and> 4 dvd unat heap_va \<and> unat heap_va + 0x200000 < 2 ^ 32 \<and>
     unat heap_pa + 0x201000 \<le> 2 ^ 32"

text \<open>The pages that a reservation of a byte range covers.\<close>

definition in_pages :: "u32 \<Rightarrow> u32 \<Rightarrow> u32 \<Rightarrow> bool" where
  "in_pages base end_pa pa \<longleftrightarrow> align_down base 4096 \<le> pa \<and> pa < align_up end_pa 4096"

lemma avail_filter:
  assumes inv: "pmm_inv s"
    and free: "free_idx s = {i. i < unat (total_pages (g_pmm s)) \<and> \<not> R (unat (ram_base (g_pmm s)) + 4096 * i)}"
  shows "avail s = {pa \<in> managed s. \<not> R (unat pa)}"
proof -
  have geom: "pmm_geom (g_pmm s)" using inv by (simp add: pmm_inv_def)
  have "pa \<in> avail s \<longleftrightarrow> \<not> R (unat pa)" if man: "pa \<in> managed s" for pa
  proof -
    obtain i where i: "i < unat (total_pages (g_pmm s))" "pa = idx_to_pa (g_pmm s) (w32 i)"
        "pa \<in> avail s \<longleftrightarrow> i \<in> free_idx s"
      using pa_index [OF geom man] by metis
    have "unat pa = unat (ram_base (g_pmm s)) + 4096 * i" unfolding i(2) by (rule unat_idx_to_pa [OF geom i(1)])
    then show ?thesis using i(1,3) unfolding free by simp
  qed
  then show ?thesis by (auto simp: avail_def)
qed


lemma mm_init_establishes:
  assumes ms: "0 < mem_size" and ok: "boot_ok ram_b ram_e reserved_end heap_va heap_pa"
    and rb: "ram_b = align_up mem_base 4096" "unat mem_base + 4096 \<le> 2 ^ 32"
    and re: "ram_e = align_down (clamp_end mem_base mem_size) 4096"
    and hp: "heap_pa = virt_to_phys kpb heap_va"
    and bp: "bp = align_up reserved_end 4096" and be: "be = bp + w32 (bitmap_len ram_b ram_e)"
  shows "\<exists>s'. mm_init kpb mem_base mem_size reserved_end heap_va s = Some (Returns s') \<and> pmm_ok s' \<and>
    heap_rep s' [(unat heap_va, 0x1FFFF4, False)] \<and>
    ram_base (g_pmm s') = ram_b \<and> ram_end (g_pmm s') = ram_e \<and>
    avail s' = {pa \<in> managed s'. \<not> in_pages bp be pa \<and> \<not> in_pages heap_pa (heap_pa + 0x200000) pa}"
proof -
  let ?len = "bitmap_len ram_b ram_e" let ?n = "(unat ram_e - unat ram_b) div 4096"
  have lt: "ram_b < ram_e" using ok by (simp add: boot_ok_def)
  have dvd: "4096 dvd unat ram_b" "4096 dvd unat ram_e"
    using align_up_least(1) [of 12 mem_base] align_down_greatest(1) [of 12 "clamp_end mem_base mem_size"] rb re
    by simp_all
  note len = pmm_setup_bytes [OF lt]
  have ub: "4096 dvd unat bp" "unat bp < unat reserved_end + 4096"
    using align_up_least [of 12 reserved_end] ok by (simp_all add: bp boot_ok_def)
  have bp4: "4 dvd unat bp" by (rule dvd_trans [OF _ ub(1)]) simp
  have fits: "unat bp + ?len \<le> unat ram_e" using ok by (simp add: boot_ok_def bp)
  have ube: "unat be = unat bp + ?len"
  proof -
    have "unat (w32 ?len) = ?len" using len(2) by (intro unat_w32) simp
    then show ?thesis
      unfolding be using unat_add_no_wrap [of bp "w32 ?len"] le_less_trans [OF fits unat_lt_32] by simp
  qed
  define s0 where "s0 = pmm_setup ram_b ram_e bp s"
  note s0 = pmm_setup_inv [OF lt dvd bp4, of s, folded s0_def bitmap_len_def]
  have i0: "pmm_inv s0" "free_idx s0 = {..<?n}" "bm_of (g_pmm s0) = (bp, ?n)"
    using s0 less_imp_le [OF le_less_trans [OF fits unat_lt_32]] by simp_all
  have g0: "ram_base (g_pmm s0) = ram_b" "ram_end (g_pmm s0) = ram_e"
    by (simp_all add: s0_def pmm_setup_def Let_def)
  have n: "unat (total_pages (g_pmm s0)) = ?n" using i0(3) by (simp add: bm_of_def)
  let ?R = "\<lambda>base e x. unat (align_down base 4096) \<le> x \<and> x < unat (align_up e 4096)"
  obtain s1 where s1: "reserve_range bp be s0 = Some s1" "pmm_inv s1" "pmm_frame s0 s1"
      "free_idx s1 = {i \<in> free_idx s0. \<not> ?R bp be (unat ram_b + 4096 * i)}"
    using reserve_range_marks [OF i0(1), of be bp] ube len(2) ub(2) ok unfolding g0 boot_ok_def by auto
  have g1: "ram_base (g_pmm s1) = ram_b" "ram_end (g_pmm s1) = ram_e" using s1(3) g0 by (auto simp: pmm_frame_def)
  have "unat (heap_pa + 0x200000) = unat heap_pa + 0x200000"
    using unat_add_no_wrap [of heap_pa "0x200000"] ok by (simp add: boot_ok_def)
  then obtain s2 where s2: "reserve_range heap_pa (heap_pa + 0x200000) s1 = Some s2" "pmm_inv s2" "pmm_frame s1 s2"
      "free_idx s2 = {i \<in> free_idx s1. \<not> ?R heap_pa (heap_pa + 0x200000) (unat ram_b + 4096 * i)}"
    using reserve_range_marks [OF s1(2), of "heap_pa + 0x200000" heap_pa] ok unfolding g1 boot_ok_def by auto
  have fr: "pmm_frame s0 s2" by (rule pmm_frame_trans [OF s1(3) s2(3)])
  let ?s = "kheap_init heap_va s2"
  have p: "g_pmm ?s = g_pmm s2" by (simp add: kheap_init_def)
  have bm2: "bm_of (g_pmm s2) = (bp, ?n)" using fr i0(3) by (simp add: pmm_frame_def)
  have same: "mem ?s a = mem s2 a" if "bm_bytes (bm_of (g_pmm s2)) a" for a
  proof (rule kheap_init_other)
    have "unat a < unat bp + ?len"
      using that by (simp add: bm2 bm_bytes_def in_region_def bitmap_len_def)
    then show "unat a < unat heap_va \<or> unat heap_va + 12 \<le> unat a"
      using fits ok by (auto simp: boot_ok_def word_le_nat_alt)
  qed (use ok in \<open>auto simp: boot_ok_def\<close>)
  note fin = pmm_mem_cong [OF s2(2) p same]
  have g2: "ram_base (g_pmm ?s) = ram_b" "ram_end (g_pmm ?s) = ram_e" "unat (total_pages (g_pmm ?s)) = ?n"
    using fr g0 bm2 unfolding p by (auto simp: pmm_frame_def bm_of_def)
  have "avail ?s = {pa \<in> managed ?s. \<not> (?R bp be (unat pa) \<or> ?R heap_pa (heap_pa + 0x200000) (unat pa))}"
    by (rule avail_filter [OF fin(1)]) (auto simp: fin(2) s2(4) s1(4) i0(2) g2)
  then have "avail ?s = {pa \<in> managed ?s. \<not> in_pages bp be pa \<and> \<not> in_pages heap_pa (heap_pa + 0x200000) pa}"
    by (auto simp: in_pages_def word_le_nat_alt word_less_nat_alt)
  moreover have "mm_init kpb mem_base mem_size reserved_end heap_va s = Some (Returns ?s)"
  proof -
    have "be \<le> ram_e" using ube fits by (simp add: word_le_nat_alt)
    then show ?thesis
      unfolding mm_init_def Let_def rb(1) [symmetric] re [symmetric] bp [symmetric] hp [symmetric]
        len(1) be [symmetric] s0_def [symmetric]
      using ms lt s1(1) s2(1) by simp
  qed
  moreover have "heap_rep ?s [(unat heap_va, 0x1FFFF4, False)]"
  proof -
    have "0 < unat ram_e" using lt by (simp add: word_less_nat_alt)
    then have "4096 \<le> unat ram_e" using dvd(2) by (rule dvd_imp_le [rotated])
    then show ?thesis
      using kheap_init_rep [of heap_va s2] ok by (simp add: boot_ok_def word_le_nat_alt)
  qed
  ultimately show ?thesis using fin(1) g2 ok by (auto simp: pmm_ok_def boot_ok_def)
qed


text \<open>Started from any memory contents with a RAM range that has room for the bitmap, \<open>mm_init\<close>
  ends without a panic, establishes the invariants of the page allocator and of the heap (one free
  block spanning the heap region), and leaves available exactly the pages of RAM that neither the
  bitmap nor the heap occupies.\<close>

theorem mm_init_correct:
  assumes "0 < mem_size" "unat mem_base + 4096 \<le> 2 ^ 32"
    and "boot_ok (align_up mem_base 4096) (align_down (clamp_end mem_base mem_size) 4096) reserved_end
      heap_va (virt_to_phys kpb heap_va)"
  shows "\<exists>s'. mm_init kpb mem_base mem_size reserved_end heap_va s = Some (Returns s') \<and> pmm_ok s' \<and>
    heap_rep s' [(unat heap_va, 0x1FFFF4, False)] \<and>
    ram_base (g_pmm s') = align_up mem_base 4096 \<and>
    ram_end (g_pmm s') = align_down (clamp_end mem_base mem_size) 4096 \<and>
    avail s' = {pa \<in> managed s'.
      \<not> in_pages (align_up reserved_end 4096)
          (align_up reserved_end 4096 +
            w32 (bitmap_len (align_up mem_base 4096) (align_down (clamp_end mem_base mem_size) 4096))) pa \<and>
      \<not> in_pages (virt_to_phys kpb heap_va) (virt_to_phys kpb heap_va + KHEAP_SIZE) pa}"
  using mm_init_establishes [OF assms(1,3) refl assms(2) refl refl refl refl, of s] by simp

lemma qemu_boot_ok:
  "boot_ok (align_up 0x40000000 4096) (align_down (clamp_end 0x40000000 0x8000000) 4096) 0x40110000
     0xC0400000 (virt_to_phys 0x40200000 0xC0400000)"
  by (simp add: boot_ok_def bitmap_len_def align_up_def align_down_def clamp_end_def virt_to_phys_def)

theorem mm_init_correct_witness:
  "\<exists>s'. mm_init 0x40200000 0x40000000 0x8000000 0x40110000 0xC0400000 heap0 = Some (Returns s') \<and>
     pmm_ok s' \<and> heap_ok s'"
  using mm_init_correct [OF _ _ qemu_boot_ok, of heap0] by (auto simp: heap_ok_def)

text \<open>The pages below \<open>reserved_end\<close> are not reserved: on the \<^verbatim>\<open>virt\<close> board, where the device
  tree blob lies at the start of RAM, the page allocator owns and can hand out its page.\<close>

theorem mm_init_leaves_dtb_page:
  "\<exists>s'. mm_init 0x40200000 0x40000000 0x8000000 0x40110000 0xC0400000 heap0 = Some (Returns s') \<and>
     pmm_ok s' \<and> 0x40000000 \<in> avail s'"
proof -
  obtain s' where s': "mm_init 0x40200000 0x40000000 0x8000000 0x40110000 0xC0400000 heap0 = Some (Returns s')"
      "pmm_ok s'" "ram_base (g_pmm s') = 0x40000000" "ram_end (g_pmm s') = 0x48000000"
      "avail s' = {pa \<in> managed s'.
        \<not> in_pages 0x40110000 (0x40110000 + w32 (bitmap_len 0x40000000 0x48000000)) pa \<and>
        \<not> in_pages 0x40600000 (0x40600000 + KHEAP_SIZE) pa}"
    using mm_init_establishes [OF _ qemu_boot_ok refl _ refl refl refl refl, of heap0]
    by (simp add: align_up_def align_down_def clamp_end_def virt_to_phys_def)
       blast
  have "0x40000000 \<in> managed s'" using s'(3,4) by (simp add: managed_def pa_aligned_def pa_in_range_def)
  then have "0x40000000 \<in> avail s'" unfolding s'(5) by (simp add: in_pages_def align_up_def align_down_def bitmap_len_def)
  then show ?thesis using s' by blast
qed

end
