(* ===== verification/Leg_Scheduler.thy ===== *)
theory Leg_Scheduler
  imports Leg_Mm_State
begin

text \<open>
  The round-robin scheduler of \<^verbatim>\<open>src/kernel/scheduler.c\<close> and the process struct of
  \<^verbatim>\<open>include/kernel/process.h\<close>. Process structs live in a store indexed by their address, because
  \<open>current_proc\<close> and the table \<open>procs\<close> alias them; 0 is the null pointer. The blocking system
  calls (sleep, join) and the switch to another process are the other steps that touch this state.
\<close>

section \<open>State\<close>

abbreviation (input) MAX_PROCESSES :: nat where "MAX_PROCESSES \<equiv> 8"

record cpu_ctx_t =
  ctx_r :: "u32 list"
  ctx_sp :: u32
  ctx_lr :: u32
  ctx_pc :: u32
  ctx_cpsr :: u32
  ctx_fpscr :: u32
  ctx_vfp :: "u32 list"

record process_t =
  pid :: u32
  pgd :: u32
  p_sp :: u32
  p_entry :: u32
  ctx :: cpu_ctx_t
  suspended :: u32
  wake_tick :: u64
  join_target :: u32
  stack_pt :: u32
  stack_pages :: u32
  heap_end :: u32

record sched_state =
  procs :: "u32 list"
  current_proc :: u32
  pobj :: "u32 \<Rightarrow> process_t"

definition upd_proc :: "u32 \<Rightarrow> (process_t \<Rightarrow> process_t) \<Rightarrow> sched_state \<Rightarrow> sched_state" where
  "upd_proc p f s = s\<lparr>pobj := (pobj s)(p := f (pobj s p))\<rparr>"

section \<open>The table\<close>

fun first_idx :: "('a \<Rightarrow> bool) \<Rightarrow> 'a list \<Rightarrow> nat option" where
  "first_idx P [] = None"
| "first_idx P (x # xs) = (if P x then Some 0 else map_option Suc (first_idx P xs))"

definition sched_add :: "u32 \<Rightarrow> sched_state \<Rightarrow> int \<times> sched_state" where
  "sched_add p s =
     (case first_idx (\<lambda>q. q = 0) (procs s) of
        Some i \<Rightarrow> (int i, (upd_proc p (\<lambda>x. x\<lparr>suspended := 0\<rparr>) s)\<lparr>procs := (procs s)[i := p]\<rparr>)
      | None \<Rightarrow> (-1, s))"

definition has_pid :: "sched_state \<Rightarrow> u32 \<Rightarrow> u32 \<Rightarrow> bool" where
  "has_pid s i p \<longleftrightarrow> p \<noteq> 0 \<and> pid (pobj s p) = i"

definition sched_remove :: "u32 \<Rightarrow> sched_state \<Rightarrow> int \<times> sched_state" where
  "sched_remove i s =
     (case first_idx (has_pid s i) (procs s) of
        Some k \<Rightarrow> (int k, s\<lparr>procs := (procs s)[k := 0]\<rparr>)
      | None \<Rightarrow> (-1, s))"

definition sched_get :: "u32 \<Rightarrow> sched_state \<Rightarrow> u32" where
  "sched_get i s = (case first_idx (has_pid s i) (procs s) of Some k \<Rightarrow> procs s ! k | None \<Rightarrow> 0)"

definition wake_joiner :: "u32 \<Rightarrow> u32 \<Rightarrow> u32 \<Rightarrow> sched_state \<Rightarrow> sched_state" where
  "wake_joiner i code p s =
     (if p \<noteq> 0 \<and> join_target (pobj s p) = i
      then upd_proc p (\<lambda>x. x\<lparr>ctx := (ctx x)\<lparr>ctx_r := (ctx_r (ctx x))[0 := code]\<rparr>,
                             join_target := 0, suspended := 0\<rparr>) s
      else s)"

definition sched_wake_joiners :: "u32 \<Rightarrow> u32 \<Rightarrow> sched_state \<Rightarrow> sched_state" where
  "sched_wake_joiners i code s = fold (wake_joiner i code) (procs s) s"

section \<open>Choosing a process\<close>

definition runnable :: "sched_state \<Rightarrow> u32 \<Rightarrow> bool" where
  "runnable s p \<longleftrightarrow> p \<noteq> 0 \<and> suspended (pobj s p) = 0"

definition slot :: "sched_state \<Rightarrow> nat \<Rightarrow> nat \<Rightarrow> u32" where
  "slot s cur j = procs s ! ((cur + j) mod MAX_PROCESSES)"

definition sched_pick_next :: "sched_state \<Rightarrow> u32" where
  "sched_pick_next s =
     (if current_proc s = 0 then 0
      else
        let cur = (case first_idx (\<lambda>p. p = current_proc s) (procs s) of Some i \<Rightarrow> i | None \<Rightarrow> MAX_PROCESSES)
        in (case find (\<lambda>j. runnable s (slot s cur j)) [1..<MAX_PROCESSES + 1] of
              Some j \<Rightarrow> slot s cur j
            | None \<Rightarrow> 0))"

definition wake_sleeper :: "u64 \<Rightarrow> u32 \<Rightarrow> sched_state \<Rightarrow> sched_state" where
  "wake_sleeper now p s =
     (if p \<noteq> 0 \<and> wake_tick (pobj s p) \<noteq> 0 \<and> now \<ge> wake_tick (pobj s p)
      then upd_proc p (\<lambda>x. x\<lparr>wake_tick := 0, suspended := 0\<rparr>) s
      else s)"

definition wake_sleepers :: "u64 \<Rightarrow> sched_state \<Rightarrow> sched_state" where
  "wake_sleepers now s = fold (wake_sleeper now) (procs s) s"

definition sched_tick :: "u64 \<Rightarrow> sched_state \<Rightarrow> sched_state" where
  "sched_tick now s =
     (if current_proc s = 0 then s
      else
        let s1 = wake_sleepers now s in
        (case first_idx (\<lambda>p. p = current_proc s1) (procs s1) of
           None \<Rightarrow> s1
         | Some cur \<Rightarrow>
             (case find (\<lambda>j. runnable s1 (slot s1 cur j)) [1..<MAX_PROCESSES] of
                None \<Rightarrow> s1
              | Some j \<Rightarrow>
                  (upd_proc (current_proc s1) (\<lambda>x. x\<lparr>suspended := 1\<rparr>) s1)\<lparr>current_proc := slot s1 cur j\<rparr>)))"

text \<open>
  The effect of \<^verbatim>\<open>context_switch_asm\<close> on this state: the chosen process becomes the current one.
\<close>

definition context_switch :: "u32 \<Rightarrow> sched_state \<Rightarrow> sched_state" where
  "context_switch nxt s = s\<lparr>current_proc := nxt\<rparr>"

section \<open>Blocking system calls\<close>

definition svc_join :: "u32 \<Rightarrow> sched_state \<Rightarrow> u32 \<times> sched_state" where
  "svc_join target s =
     (if sched_get target s = 0 then (-1, s)
      else (0, upd_proc (current_proc s) (\<lambda>x. x\<lparr>join_target := target, suspended := 1\<rparr>) s))"

definition svc_sleep :: "u32 \<Rightarrow> u64 \<Rightarrow> u64 \<Rightarrow> sched_state \<Rightarrow> u32 \<times> sched_state" where
  "svc_sleep usec freq now s =
     (let deadline = now + (ucast usec * freq) div 1000000
      in (0, upd_proc (current_proc s) (\<lambda>x. x\<lparr>wake_tick := deadline, suspended := 1\<rparr>) s))"

text \<open>
  The yield path of \<^verbatim>\<open>handle_svc\<close> in \<^verbatim>\<open>trampolines.s\<close>: after a system call that suspended the caller
  the next runnable process takes over; without one the caller waits, still current, for a tick.
  The registers it saves into the context belong to the hardware and are not part of this state.
\<close>

definition svc_yield :: "sched_state \<Rightarrow> sched_state" where
  "svc_yield s =
     (if suspended (pobj s (current_proc s)) = 0 then s
      else let nxt = sched_pick_next s in if nxt = 0 then s else context_switch nxt s)"

definition svc_getpid :: "sched_state \<Rightarrow> u32" where
  "svc_getpid s = pid (pobj s (current_proc s))"

end
