(* ===== verification/Leg_Scheduler_Props.thy ===== *)
theory Leg_Scheduler_Props
  imports Leg_Scheduler
begin

text \<open>
  The properties of the scheduler: the table operations against the table as a set of processes,
  the choice of the next process, the effect of a timer tick and of an exit on sleeping and joining
  processes, and a step relation over all operations with two invariants: the table stays well
  formed, and a process that a tick preempts is never chosen again.
\<close>

section \<open>Searching the table\<close>

lemma first_idx_Some:
  "first_idx P xs = Some i \<longleftrightarrow> i < length xs \<and> P (xs ! i) \<and> (\<forall>j < i. \<not> P (xs ! j))"
proof (induction xs arbitrary: i)
  case (Cons x xs)
  then show ?case by (cases i) (auto simp: All_less_Suc2)
qed simp

lemma first_idx_None: "first_idx P xs = None \<longleftrightarrow> (\<forall>x \<in> set xs. \<not> P x)"
  by (induction xs) auto

text \<open>Looking at the eight slots after a position visits the whole table.\<close>

lemma slots_all:
  assumes "length (procs s) = 8" "cur \<le> 8"
  shows "set (procs s) = slot s cur ` {1..8}"
proof -
  have "{..<8} = (\<lambda>j. (cur + j) mod 8) ` {1..8}"
  proof (intro equalityI subsetI)
    fix i :: nat assume "i \<in> {..<8}"
    then have "i < 8" by simp
    have "(cur + Suc ((15 + i - cur) mod 8)) mod 8 = (cur + Suc (15 + i - cur)) mod 8"
      by (metis add_Suc_right mod_Suc_eq mod_add_right_eq)
    also have "\<dots> = i" using assms(2) \<open>i < 8\<close> by (simp add: mod_if)
    finally show "i \<in> (\<lambda>j. (cur + j) mod 8) ` {1..8}" by (intro image_eqI [of _ _ "Suc ((15 + i - cur) mod 8)"]) auto
  qed auto
  then have "slot s cur ` {1..8} = (!) (procs s) ` {..<8}"
    unfolding slot_def image_image by (metis image_image)
  then show ?thesis using assms(1) nth_image [of 8 "procs s"] by (simp add: lessThan_atLeast0)
qed

lemma find_slot:
  "find P [a..<b] = Some j \<longleftrightarrow> a \<le> j \<and> j < b \<and> P j \<and> (\<forall>i. a \<le> i \<and> i < j \<longrightarrow> \<not> P i)"
proof
  assume "find P [a..<b] = Some j"
  then obtain k where k: "k < length [a..<b]" "P ([a..<b] ! k)" "j = [a..<b] ! k" "\<forall>i < k. \<not> P ([a..<b] ! i)"
    unfolding find_Some_iff by blast
  have "\<not> P i" if i: "a \<le> i" "i < j" for i
    using k(4) [rule_format, of "i - a"] k(1,3) i by auto
  then show "a \<le> j \<and> j < b \<and> P j \<and> (\<forall>i. a \<le> i \<and> i < j \<longrightarrow> \<not> P i)"
    using k(1-3) by auto
next
  assume j: "a \<le> j \<and> j < b \<and> P j \<and> (\<forall>i. a \<le> i \<and> i < j \<longrightarrow> \<not> P i)"
  then show "find P [a..<b] = Some j"
    unfolding find_Some_iff by (intro exI [of _ "j - a"]) auto
qed

section \<open>The loops over the table\<close>

lemma wake_sleeper_fields [simp]:
  "procs (wake_sleeper now p s) = procs s" "current_proc (wake_sleeper now p s) = current_proc s"
  by (simp_all add: wake_sleeper_def upd_proc_def)

definition woken :: "u64 \<Rightarrow> process_t \<Rightarrow> process_t" where
  "woken now x = (if wake_tick x \<noteq> 0 \<and> now \<ge> wake_tick x then x\<lparr>wake_tick := 0, suspended := 0\<rparr> else x)"

lemma wake_sleepers_fold:
  shows "procs (fold (wake_sleeper now) ps s) = procs s"
    and "current_proc (fold (wake_sleeper now) ps s) = current_proc s"
    and "pobj (fold (wake_sleeper now) ps s) p = (if p \<noteq> 0 \<and> p \<in> set ps then woken now (pobj s p) else pobj s p)"
  by (induction ps arbitrary: s) (auto simp: wake_sleeper_def upd_proc_def woken_def)

lemmas wake_sleepers_simps [simp] = wake_sleepers_fold [of now "procs s" s, folded wake_sleepers_def] for now s

definition joined :: "u32 \<Rightarrow> u32 \<Rightarrow> process_t \<Rightarrow> process_t" where
  "joined i code x =
     (if join_target x = i
      then x\<lparr>ctx := (ctx x)\<lparr>ctx_r := (ctx_r (ctx x))[0 := code]\<rparr>, join_target := 0, suspended := 0\<rparr> else x)"

lemma wake_joiners_fold:
  assumes "i \<noteq> 0"
  shows "procs (fold (wake_joiner i code) ps s) = procs s"
    and "current_proc (fold (wake_joiner i code) ps s) = current_proc s"
    and "pobj (fold (wake_joiner i code) ps s) p = (if p \<noteq> 0 \<and> p \<in> set ps then joined i code (pobj s p) else pobj s p)"
  using assms by (induction ps arbitrary: s) (auto simp: wake_joiner_def upd_proc_def joined_def)

lemmas wake_joiners_simps = wake_joiners_fold [of i code "procs s" s, folded sched_wake_joiners_def] for i code s


section \<open>The table as a set of processes\<close>

definition table :: "sched_state \<Rightarrow> u32 set" where
  "table s = set (procs s) - {0}"

text \<open>No process is in two slots.\<close>

definition once :: "u32 list \<Rightarrow> bool" where
  "once xs \<longleftrightarrow> (\<forall>i < length xs. \<forall>j < length xs. xs ! i = xs ! j \<and> xs ! i \<noteq> 0 \<longrightarrow> i = j)"

lemma once_update:
  assumes "once xs" "p = 0 \<or> p \<notin> set xs"
  shows "once (xs[i := p])"
proof -
  have upd: "xs[i := p] ! k = (if k = i then p else xs ! k)" if "k < length xs" for k
    using that by simp
  have new: "p = 0 \<or> xs ! k \<noteq> p" if "k < length xs" for k
    using that assms(2) by auto
  show ?thesis
    unfolding once_def length_list_update
  proof (intro allI impI)
    fix k l assume kl: "k < length xs" "l < length xs" "xs[i := p] ! k = xs[i := p] ! l \<and> xs[i := p] ! k \<noteq> 0"
    then show "k = l"
      using assms(1) new [of k] new [of l] unfolding once_def upd [OF kl(1)] upd [OF kl(2)]
      by (auto split: if_splits)
  qed
qed

lemma table_update:
  assumes "i < length xs" "xs ! i = 0 \<or> (\<forall>j < length xs. j \<noteq> i \<longrightarrow> xs ! j \<noteq> xs ! i)"
  shows "set (xs[i := p]) - {0} = (set xs - {0, xs ! i}) \<union> ({p} - {0})"
  using assms by (auto simp: set_conv_nth nth_list_update)

lemma pick_pos: "(case first_idx P xs of Some i \<Rightarrow> i | None \<Rightarrow> length xs) \<le> length xs"
  by (auto simp: first_idx_Some less_imp_le split: option.split)

lemma sched_pick_next_cases:
  assumes wf: "length (procs s) = 8" and cur: "current_proc s \<noteq> 0"
  obtains (none) "sched_pick_next s = 0" "\<forall>p \<in> set (procs s). \<not> runnable s p"
  | (found) c j where "c \<le> 8" "c = 8 \<or> procs s ! c = current_proc s" "1 \<le> j" "j \<le> 8"
      "sched_pick_next s = slot s c j" "runnable s (slot s c j)" "\<forall>i. 1 \<le> i \<and> i < j \<longrightarrow> \<not> runnable s (slot s c i)"
proof -
  define c where "c = (case first_idx (\<lambda>p. p = current_proc s) (procs s) of Some i \<Rightarrow> i | None \<Rightarrow> 8)"
  have c: "c \<le> 8" "c = 8 \<or> procs s ! c = current_proc s"
    using wf by (auto simp: c_def first_idx_Some less_imp_le split: option.split)
  have eq: "sched_pick_next s = (case find (\<lambda>j. runnable s (slot s c j)) [1..<9] of Some j \<Rightarrow> slot s c j | None \<Rightarrow> 0)"
    using cur by (simp add: sched_pick_next_def Let_def flip: c_def)
  show ?thesis
  proof (cases "find (\<lambda>j. runnable s (slot s c j)) [1..<9]")
    case None
    then have "\<forall>j \<in> {1..8}. \<not> runnable s (slot s c j)" by (auto simp: find_None_iff)
    then have "\<forall>p \<in> set (procs s). \<not> runnable s p" unfolding slots_all [OF wf c(1)] by blast
    then show ?thesis using none eq None by simp
  next
    case (Some j)
    then have "1 \<le> j" "j \<le> 8" "runnable s (slot s c j)" "\<forall>i. 1 \<le> i \<and> i < j \<longrightarrow> \<not> runnable s (slot s c i)"
      by (auto simp: find_slot)
    then show ?thesis using found [OF c] eq Some by simp
  qed
qed

text \<open>The slots of the table in the order of the round: those behind the current process's slot first, its own last. Should
  the current process not be in the table, the round starts behind slot 0.\<close>

definition round_of :: "sched_state \<Rightarrow> u32 list" where
  "round_of s = rotate (Suc (length (takeWhile (\<lambda>p. p \<noteq> current_proc s) (procs s)))) (procs s)"

lemma takeWhile_current:
  assumes "x \<in> set xs"
  shows "length (takeWhile (\<lambda>p. p \<noteq> x) xs) < length xs" "xs ! length (takeWhile (\<lambda>p. p \<noteq> x) xs) = x"
  using assms by (induction xs) auto

lemma first_idx_takeWhile:
  "(case first_idx P xs of Some i \<Rightarrow> i | None \<Rightarrow> length xs) = length (takeWhile (\<lambda>x. \<not> P x) xs)"
proof (induction xs)
  case (Cons x xs)
  then show ?case by (cases "first_idx P xs") auto
qed simp

lemma find_map: "find P (map f xs) = map_option f (find (P \<circ> f) xs)"
  by (induction xs) auto

lemma round_slots:
  assumes "length (procs s) = 8"
  shows "round_of s = map (slot s (length (takeWhile (\<lambda>p. p \<noteq> current_proc s) (procs s)))) [1..<9]"
proof (rule nth_equalityI)
  let ?c = "length (takeWhile (\<lambda>p. p \<noteq> current_proc s) (procs s))"
  show "length (round_of s) = length (map (slot s ?c) [1..<9])" using assms by (simp add: round_of_def)
  fix i assume "i < length (round_of s)"
  then have i: "i < 8" using assms by (simp add: round_of_def)
  have "map (slot s ?c) [1..<9] ! i = procs s ! ((?c + (1 + i)) mod 8)" using i by (simp add: slot_def del: upt_Suc upt_rec_numeral)
  moreover have "round_of s ! i = procs s ! ((Suc ?c + i) mod 8)" unfolding round_of_def using i assms by (subst nth_rotate) simp_all
  ultimately show "round_of s ! i = map (slot s ?c) [1..<9] ! i" by simp
qed

lemma sched_pick_next_find:
  assumes "length (procs s) = MAX_PROCESSES" "current_proc s \<noteq> 0"
  shows "sched_pick_next s = (case find (runnable s) (round_of s) of Some p \<Rightarrow> p | None \<Rightarrow> 0)"
proof -
  let ?c = "length (takeWhile (\<lambda>p. p \<noteq> current_proc s) (procs s))"
  have "(case first_idx (\<lambda>p. p = current_proc s) (procs s) of Some i \<Rightarrow> i | None \<Rightarrow> MAX_PROCESSES) = ?c"
    using first_idx_takeWhile [where P = "\<lambda>p. p = current_proc s" and xs = "procs s", unfolded assms(1)] by simp
  then have "sched_pick_next s = (case find (\<lambda>j. runnable s (slot s ?c j)) [1..<9] of Some j \<Rightarrow> slot s ?c j | None \<Rightarrow> 0)"
    using assms(2) by (simp add: sched_pick_next_def Let_def)
  then show ?thesis using assms(1) by (auto simp: round_slots find_map comp_def split: option.split simp del: upt_rec_numeral)
qed

text \<open>C17: The choice of the next process is a round robin: \<open>sched_pick_next\<close> returns the first runnable process of the
  round that starts in the slot behind the current process and ends with the current process itself, and null if the round,
  which visits every slot of the table, has no runnable process or if there is no current one.\<close>

theorem sched_pick_next_round_robin:
  assumes "length (procs s) = MAX_PROCESSES"
  shows "sched_pick_next s =
      (if current_proc s = 0 then 0 else (case find (runnable s) (round_of s) of Some p \<Rightarrow> p | None \<Rightarrow> 0)) \<and>
    set (round_of s) = set (procs s) \<and> length (round_of s) = MAX_PROCESSES \<and>
    (current_proc s \<in> set (procs s) \<longrightarrow> last (round_of s) = current_proc s)"
proof (intro conjI impI)
  show "sched_pick_next s = (if current_proc s = 0 then 0 else (case find (runnable s) (round_of s) of Some p \<Rightarrow> p | None \<Rightarrow> 0))"
    using sched_pick_next_find [OF assms] by (simp add: sched_pick_next_def)
  assume "current_proc s \<in> set (procs s)"
  let ?c = "length (takeWhile (\<lambda>p. p \<noteq> current_proc s) (procs s))"
  have c: "?c < length (procs s)" "procs s ! ?c = current_proc s"
    using takeWhile_current [OF \<open>current_proc s \<in> set (procs s)\<close>] by simp_all
  have "last (round_of s) = procs s ! ((Suc ?c + 7) mod 8)"
    unfolding round_of_def using assms by (subst last_conv_nth) (auto simp: nth_rotate simp del: rotate_Suc)
  moreover have "(Suc ?c + 7) mod 8 = ?c" using c(1) assms by (simp add: mod_if)
  ultimately show "last (round_of s) = current_proc s" using c(2) by simp
qed (use assms in \<open>simp_all add: round_of_def\<close>)

section \<open>A small table\<close>

definition demo_proc :: "u32 \<Rightarrow> process_t" where
  "demo_proc i =
     \<lparr>pid = i, pgd = 0, p_sp = 0, p_entry = 0,
      ctx = \<lparr>ctx_r = replicate 13 0, ctx_sp = 0, ctx_lr = 0, ctx_pc = 0, ctx_cpsr = 0, ctx_fpscr = 0,
             ctx_vfp = replicate 64 0\<rparr>,
      suspended = 0, wake_tick = 0, join_target = 0, stack_pt = 0, stack_pages = 0, heap_end = 0\<rparr>"

definition demo_sched :: sched_state where
  "demo_sched =
     \<lparr>procs = [0x1000, 0x2000, 0, 0, 0, 0, 0, 0], current_proc = 0x1000,
      pobj = (\<lambda>p. demo_proc (if p = 0x1000 then 1 else if p = 0x2000 then 2 else 3))\<rparr>"

lemma demo_sched_simps [simp]:
  "procs demo_sched = [0x1000, 0x2000, 0, 0, 0, 0, 0, 0]" "current_proc demo_sched = 0x1000"
  "pobj demo_sched p = demo_proc (if p = 0x1000 then 1 else if p = 0x2000 then 2 else 3)"
  by (simp_all add: demo_sched_def)

lemma demo_proc_simps [simp]:
  "pid (demo_proc i) = i" "suspended (demo_proc i) = 0" "wake_tick (demo_proc i) = 0"
  "join_target (demo_proc i) = 0"
  by (simp_all add: demo_proc_def)

text \<open>Three processes that can run and one that sleeps.\<close>

definition round_sched :: "u32 \<Rightarrow> sched_state" where
  "round_sched cur =
     \<lparr>procs = [0x1000, 0, 0x2000, 0x3000, 0, 0x4000, 0, 0], current_proc = cur,
      pobj = (\<lambda>p. if p = 0x3000 then (demo_proc 3)\<lparr>suspended := 1\<rparr> else demo_proc 1)\<rparr>"

theorem sched_pick_next_round_robin_witness:
  "sched_pick_next (round_sched 0x2000) = 0x4000 \<and> sched_pick_next (round_sched 0x4000) = 0x1000 \<and>
    sched_pick_next (round_sched 0x1000) = 0x2000"
proof -
  have r: "runnable (round_sched c) p \<longleftrightarrow> p \<noteq> 0 \<and> p \<noteq> 0x3000" for c p by (simp add: runnable_def round_sched_def)
  have len: "length (procs (round_sched c)) = MAX_PROCESSES" for c by (simp add: round_sched_def)
  have "round_of (round_sched 0x2000) = [0x3000, 0, 0x4000, 0, 0, 0x1000, 0, 0x2000]"
    "round_of (round_sched 0x4000) = [0, 0, 0x1000, 0, 0x2000, 0x3000, 0, 0x4000]"
    "round_of (round_sched 0x1000) = [0, 0x2000, 0x3000, 0, 0x4000, 0, 0, 0x1000]"
    by (simp_all add: round_of_def round_sched_def rotate_drop_take)
  then show ?thesis
    using sched_pick_next_round_robin [OF len, of "0x2000"] sched_pick_next_round_robin [OF len, of "0x4000"]
      sched_pick_next_round_robin [OF len, of "0x1000"] by (simp add: r) (simp add: round_sched_def)
qed

section \<open>The timer tick\<close>

text \<open>C18: a timer tick first wakes every process of the table whose sleep deadline has passed; then,
  if another process is runnable, the next one in circular order becomes current and the preempted
  one is marked suspended, and otherwise the current process stays.\<close>

theorem sched_tick_effect:
  assumes wf: "length (procs s) = MAX_PROCESSES" and cur: "current_proc s \<noteq> 0"
    and c: "c < MAX_PROCESSES" "procs s ! c = current_proc s" "\<forall>i < c. procs s ! i \<noteq> current_proc s"
  shows "let s1 = wake_sleepers now s; s' = sched_tick now s in
    procs s' = procs s \<and>
    (\<forall>p. pobj s1 p = (if p \<in> table s then woken now (pobj s p) else pobj s p)) \<and>
    (if \<exists>j \<in> {1..<MAX_PROCESSES}. runnable s1 (slot s c j)
     then \<exists>j \<in> {1..<MAX_PROCESSES}. current_proc s' = slot s c j \<and> runnable s1 (slot s c j) \<and>
       (\<forall>i \<in> {1..<j}. \<not> runnable s1 (slot s c i)) \<and>
       pobj s' = (pobj s1)(current_proc s := (pobj s1 (current_proc s))\<lparr>suspended := 1\<rparr>)
     else s' = s1)"
proof -
  define s1 where "s1 = wake_sleepers now s"
  have s1: "procs s1 = procs s" "current_proc s1 = current_proc s"
    "pobj s1 p = (if p \<in> table s then woken now (pobj s p) else pobj s p)" for p
    by (simp_all add: s1_def table_def)
  have sl: "slot s1 c j = slot s c j" for j by (simp add: slot_def s1)
  have first: "first_idx (\<lambda>p. p = current_proc s1) (procs s1) = Some c"
    using c wf by (simp add: first_idx_Some s1)
  have eq: "sched_tick now s = (case find (\<lambda>j. runnable s1 (slot s c j)) [1..<8] of
      None \<Rightarrow> s1
    | Some j \<Rightarrow> (upd_proc (current_proc s) (\<lambda>x. x\<lparr>suspended := 1\<rparr>) s1)\<lparr>current_proc := slot s c j\<rparr>)"
    using cur first by (simp add: sched_tick_def Let_def sl s1 flip: s1_def split: option.split)
  show ?thesis
  proof (cases "find (\<lambda>j. runnable s1 (slot s c j)) [1..<8]")
    case None
    then have "\<not> (\<exists>j \<in> {1..<8}. runnable s1 (slot s c j))" by (auto simp: find_None_iff)
    then show ?thesis unfolding Let_def s1_def [symmetric] using eq None s1 by auto
  next
    case (Some j)
    then have j: "j \<in> {1..<8}" "runnable s1 (slot s c j)" "\<forall>i \<in> {1..<j}. \<not> runnable s1 (slot s c i)"
      by (auto simp: find_slot)
    then show ?thesis
      unfolding Let_def s1_def [symmetric] using eq Some s1 by (auto simp: upd_proc_def fun_eq_iff)
  qed
qed

theorem sched_tick_effect_witness:
  "procs (sched_tick 5 demo_sched) = procs demo_sched \<and> length (procs demo_sched) = 8"
  using sched_tick_effect [of demo_sched 0 5] by (simp add: Let_def)


section \<open>Entering and leaving the table\<close>

text \<open>\<open>sched_add\<close> puts a process into a free slot, marks it runnable and leaves the other slots
  alone, or answers -1 and changes nothing exactly when the table is full; the process is then found
  under its identifier, and \<open>sched_remove\<close> takes exactly it out again.\<close>

theorem sched_add_get_remove:
  assumes wf: "length (procs s) = MAX_PROCESSES" and p: "p \<noteq> 0" "p \<notin> table s"
    and fresh: "\<forall>q \<in> table s. pid (pobj s q) \<noteq> pid (pobj s p)"
  shows "case sched_add p s of (r, s') \<Rightarrow>
    if 0 \<notin> set (procs s) then r = -1 \<and> s' = s
    else 0 \<le> r \<and> r < 8 \<and> procs s ! nat r = 0 \<and> procs s' = (procs s)[nat r := p] \<and>
      table s' = insert p (table s) \<and> runnable s' p \<and> sched_get (pid (pobj s p)) s' = p \<and>
      table (snd (sched_remove (pid (pobj s p)) s')) = table s"
proof (cases "first_idx (\<lambda>q. q = 0) (procs s)")
  case None
  then have "0 \<notin> set (procs s)" by (auto simp: first_idx_None)
  then show ?thesis using None by (simp add: sched_add_def)
next
  case (Some i)
  then have i: "i < 8" "procs s ! i = 0" using wf by (auto simp: first_idx_Some)
  define s' where "s' = (upd_proc p (\<lambda>x. x\<lparr>suspended := 0\<rparr>) s)\<lparr>procs := (procs s)[i := p]\<rparr>"
  have add: "sched_add p s = (int i, s')" using Some by (simp add: sched_add_def s'_def)
  have s': "procs s' = (procs s)[i := p]" "pid (pobj s' q) = pid (pobj s q)" for q
    by (simp_all add: s'_def upd_proc_def)
  have tab: "table s' = insert p (table s)"
    using table_update [of i "procs s" p] i p wf by (auto simp: table_def s')
  have other: "procs s ! j \<noteq> p" if "j < 8" for j
    using p that wf by (auto simp: table_def)
  have has: "has_pid s' (pid (pobj s p)) (procs s' ! j) \<longleftrightarrow> j = i" if "j < 8" for j
  proof (cases "j = i")
    case True
    then show ?thesis using i(1) wf p(1) by (simp add: has_pid_def s')
  next
    case False
    then have "procs s' ! j = procs s ! j" by (simp add: s')
    moreover have "procs s ! j = 0 \<or> procs s ! j \<in> table s" using that wf by (auto simp: table_def)
    ultimately show ?thesis using False fresh by (auto simp: has_pid_def s')
  qed
  have find: "first_idx (has_pid s' (pid (pobj s p))) (procs s') = Some i"
  proof -
    have "length (procs s') = 8" using wf by (simp add: s'(1))
    moreover have "\<not> has_pid s' (pid (pobj s p)) (procs s' ! j)" if "j < i" for j
      using has [of j] that i(1) by simp
    ultimately show ?thesis using has [of i] i(1) by (simp add: first_idx_Some)
  qed
  have get: "sched_get (pid (pobj s p)) s' = p" using find i(1) wf by (simp add: sched_get_def s'(1))
  have "(procs s')[i := 0] = procs s" using i wf by (simp add: s'(1)) (metis list_update_id)
  then have "table (snd (sched_remove (pid (pobj s p)) s')) = table s"
    using find by (simp add: sched_remove_def table_def)
  moreover have "runnable s' p" using p(1) by (simp add: runnable_def s'_def upd_proc_def)
  moreover have "0 \<in> set (procs s)" using i wf nth_mem [of i "procs s"] by simp
  ultimately show ?thesis using add tab get i s'(1) by simp
qed

theorem sched_add_get_remove_witness:
  "table (snd (sched_add 0x3000 demo_sched)) = insert 0x3000 (table demo_sched)"
proof -
  have "table demo_sched = {0x1000, 0x2000}" by (auto simp: table_def)
  then show ?thesis using sched_add_get_remove [of demo_sched "0x3000"] by (auto split: prod.splits)
qed

section \<open>Waking joined processes\<close>

text \<open>When a process exits, \<open>sched_wake_joiners\<close> makes every process of the table that waits for it
  runnable again with the exit code in register 0 and clears its wait; no other process changes.\<close>

theorem sched_wake_joiners_effect:
  assumes "i \<noteq> 0"
  shows "procs (sched_wake_joiners i code s) = procs s \<and>
    current_proc (sched_wake_joiners i code s) = current_proc s \<and>
    (\<forall>p. pobj (sched_wake_joiners i code s) p =
       (if p \<in> table s \<and> join_target (pobj s p) = i
        then (pobj s p)\<lparr>ctx := (ctx (pobj s p))\<lparr>ctx_r := (ctx_r (ctx (pobj s p)))[0 := code]\<rparr>,
                        join_target := 0, suspended := 0\<rparr>
        else pobj s p))"
  using wake_joiners_simps [OF assms, of code s] by (auto simp: joined_def table_def)

theorem sched_wake_joiners_effect_witness:
  "procs (sched_wake_joiners 2 7 demo_sched) = procs demo_sched"
  using sched_wake_joiners_effect [of 2 7 demo_sched] by simp

section \<open>The scheduler as a state machine\<close>

text \<open>
  One rule per event: the timer tick, the system calls fork, exit, join, sleep and exec of the
  running process. Fork inserts a struct that is not in the table under an identifier that is neither 0 nor in
  use (\<open>next_pid\<close> starts at 1 and counts up); its other fields are whatever the memory held. Exit goes
  through \<open>sched_remove\<close>, \<open>sched_wake_joiners\<close> and \<open>sched_pick_next\<close>, and powers off when nothing can run. Exec rewrites
  the address space and the context, and none of the fields the scheduler reads.
\<close>

definition running :: "sched_state \<Rightarrow> bool" where
  "running s \<longleftrightarrow> suspended (pobj s (current_proc s)) = 0"

inductive sched_step :: "sched_state \<Rightarrow> sched_state \<Rightarrow> bool" where
  Tick: "sched_step s (sched_tick now s)"
| Fork: "running s \<Longrightarrow> c \<noteq> 0 \<Longrightarrow> c \<notin> table s \<Longrightarrow> pid x \<noteq> 0 \<Longrightarrow> pid x \<notin> (\<lambda>q. pid (pobj s q)) ` table s \<Longrightarrow>
    sched_step s (snd (sched_add c (upd_proc c (\<lambda>_. x) s)))"
| Exit: "running s \<Longrightarrow> i = pid (pobj s (current_proc s)) \<Longrightarrow> s1 = snd (sched_remove i s) \<Longrightarrow>
    s2 = sched_wake_joiners i code s1 \<Longrightarrow> sched_pick_next s2 \<noteq> 0 \<Longrightarrow> sched_step s (context_switch (sched_pick_next s2) s2)"
| Join: "running s \<Longrightarrow> sched_step s (svc_yield (snd (svc_join i s)))"
| Sleep: "running s \<Longrightarrow> sched_step s (svc_yield (snd (svc_sleep usec freq now s)))"
| Exec: "running s \<Longrightarrow> f = (\<lambda>x. x\<lparr>pgd := a, p_entry := e, p_sp := b, ctx := c, heap_end := h, stack_pt := t, stack_pages := n\<rparr>) \<Longrightarrow>
    sched_step s (upd_proc (current_proc s) f s)"

inductive_cases sched_stepE: "sched_step s s'"

definition sched_inv :: "sched_state \<Rightarrow> bool" where
  "sched_inv s \<longleftrightarrow> length (procs s) = MAX_PROCESSES \<and> inj_on (\<lambda>p. pid (pobj s p)) (table s) \<and>
     once (procs s) \<and>
     (\<forall>p \<in> table s. pid (pobj s p) \<noteq> 0) \<and> current_proc s \<in> table s"

text \<open>The invariant only looks at the table and at the identifiers.\<close>

lemma sched_inv_cong:
  assumes "sched_inv s" "procs s' = procs s" "\<And>p. p \<in> table s \<Longrightarrow> pid (pobj s' p) = pid (pobj s p)"
    "current_proc s' \<in> table s"
  shows "sched_inv s'"
proof -
  have "table s' = table s" using assms(2) by (simp add: table_def)
  moreover have "inj_on (\<lambda>p. pid (pobj s' p)) (table s)"
    using assms(1,3) by (auto simp: sched_inv_def inj_on_def)
  ultimately show ?thesis using assms by (simp add: sched_inv_def)
qed

lemma sched_pick_next_table:
  assumes "length (procs s) = 8" "sched_pick_next s \<noteq> 0"
  shows "sched_pick_next s \<in> table s" "runnable s (sched_pick_next s)"
proof -
  have c: "current_proc s \<noteq> 0" using assms(2) by (auto simp: sched_pick_next_def)
  have "sched_pick_next s \<in> table s \<and> runnable s (sched_pick_next s)"
  proof (rule sched_pick_next_cases [OF assms(1) c])
    fix c j
    assume "sched_pick_next s = slot s c j" "runnable s (slot s c j)"
    then show ?thesis using assms by (auto simp: slot_def table_def)
  qed (use assms in simp)
  then show "sched_pick_next s \<in> table s" "runnable s (sched_pick_next s)" by auto
qed

text \<open>A tick either only wakes sleepers or also hands the processor to a runnable process of the table.\<close>

lemma sched_tick_cases:
  assumes "length (procs s) = 8" "current_proc s \<in> table s"
  obtains (keep) "sched_tick now s = wake_sleepers now s"
  | (switch) q where "q \<in> table s" "runnable (wake_sleepers now s) q"
      "sched_tick now s = (upd_proc (current_proc s) (\<lambda>x. x\<lparr>suspended := 1\<rparr>) (wake_sleepers now s))\<lparr>current_proc := q\<rparr>"
proof -
  define s1 where "s1 = wake_sleepers now s"
  have s1: "procs s1 = procs s" "current_proc s1 = current_proc s" by (simp_all add: s1_def)
  have c: "current_proc s \<noteq> 0" using assms(2) by (simp add: table_def)
  obtain cur where cur: "first_idx (\<lambda>p. p = current_proc s1) (procs s1) = Some cur"
    using assms(2) s1 first_idx_None [of "\<lambda>p. p = current_proc s1" "procs s1"] by (cases "first_idx (\<lambda>p. p = current_proc s1) (procs s1)") (auto simp: table_def)
  show ?thesis
  proof (cases "find (\<lambda>j. runnable s1 (slot s1 cur j)) [1..<8]")
    case None
    then show ?thesis using keep cur c by (simp add: sched_tick_def flip: s1_def)
  next
    case (Some j)
    then have r: "runnable s1 (slot s1 cur j)" by (simp add: find_slot)
    then have "slot s1 cur j \<in> table s" using assms(1) s1 by (auto simp: table_def slot_def runnable_def)
    then show ?thesis using switch r Some cur c s1(2) by (simp add: sched_tick_def flip: s1_def)
  qed
qed

lemma sched_remove_current:
  assumes inv: "sched_inv s" and i: "i = pid (pobj s (current_proc s))"
  shows "table (snd (sched_remove i s)) = table s - {current_proc s}" "pobj (snd (sched_remove i s)) = pobj s"
    "length (procs (snd (sched_remove i s))) = 8" "once (procs (snd (sched_remove i s)))"
proof -
  have len: "length (procs s) = 8" and cur: "current_proc s \<in> table s" and o: "once (procs s)"
    using inv by (auto simp: sched_inv_def)
  then have "\<exists>p \<in> set (procs s). has_pid s i p" using i by (auto simp: has_pid_def table_def)
  then obtain k where k: "first_idx (has_pid s i) (procs s) = Some k"
    using first_idx_None [of "has_pid s i" "procs s"] by (cases "first_idx (has_pid s i) (procs s)") auto
  then have k8: "k < length (procs s)" and h: "has_pid s i (procs s ! k)" by (auto simp: first_idx_Some)
  then have "procs s ! k \<in> table s" by (auto simp: has_pid_def table_def)
  then have c: "procs s ! k = current_proc s" using h i cur inv by (auto simp: has_pid_def sched_inv_def inj_on_def)
  have "procs s ! k \<noteq> 0" using h by (simp add: has_pid_def)
  then have "\<forall>j < length (procs s). j \<noteq> k \<longrightarrow> procs s ! j \<noteq> procs s ! k" using o k8 by (auto simp: once_def)
  then have "set ((procs s)[k := 0]) - {0} = set (procs s) - {0, current_proc s}"
    using table_update [OF k8, of 0] c by simp
  then show "table (snd (sched_remove i s)) = table s - {current_proc s}"
    using k by (auto simp: table_def sched_remove_def)
  show "pobj (snd (sched_remove i s)) = pobj s" "length (procs (snd (sched_remove i s))) = 8"
    "once (procs (snd (sched_remove i s)))"
    using k len once_update [OF o] by (simp_all add: sched_remove_def)
qed

lemma sched_add_fresh:
  assumes inv: "sched_inv s" and c: "c \<noteq> 0" "c \<notin> table s" and s': "s' = snd (sched_add c (upd_proc c (\<lambda>_. x) s))"
  shows "table s' = table s \<or> table s' = insert c (table s)" "pobj s' = (pobj s)(c := x) \<or> pobj s' = (pobj s)(c := x\<lparr>suspended := 0\<rparr>)"
    "current_proc s' = current_proc s" "length (procs s') = 8" "once (procs s')"
proof -
  define s0 where "s0 = upd_proc c (\<lambda>_. x) s"
  have s0: "procs s0 = procs s" "current_proc s0 = current_proc s" "pobj s0 = (pobj s)(c := x)"
    by (simp_all add: s0_def upd_proc_def)
  have len: "length (procs s) = 8" and o: "once (procs s)" using inv by (auto simp: sched_inv_def)
  have notin: "c \<notin> set (procs s)" using c by (simp add: table_def)
  have "(table s' = table s \<or> table s' = insert c (table s)) \<and> (pobj s' = (pobj s)(c := x) \<or> pobj s' = (pobj s)(c := x\<lparr>suspended := 0\<rparr>)) \<and>
    current_proc s' = current_proc s \<and> length (procs s') = 8 \<and> once (procs s')"
  proof (cases "first_idx (\<lambda>q. q = 0) (procs s)")
    case None
    then have "s' = s0" by (simp add: s' sched_add_def s0 flip: s0_def)
    then show ?thesis using s0 len o by (simp add: table_def)
  next
    case (Some i)
    then have i: "i < length (procs s)" "procs s ! i = 0" by (auto simp: first_idx_Some)
    have s'': "procs s' = (procs s)[i := c]" "current_proc s' = current_proc s" "pobj s' = (pobj s)(c := x\<lparr>suspended := 0\<rparr>)"
      using Some s0 by (simp_all add: s' sched_add_def upd_proc_def flip: s0_def)
    have "set ((procs s)[i := c]) - {0} = insert c (set (procs s) - {0})"
      using table_update [OF i(1), of c] i(2) c(1) by auto
    then have "table s' = insert c (table s)" by (simp add: table_def s'')
    then show ?thesis using s'' len once_update [OF o] notin by simp
  qed
  then show "table s' = table s \<or> table s' = insert c (table s)" "pobj s' = (pobj s)(c := x) \<or> pobj s' = (pobj s)(c := x\<lparr>suspended := 0\<rparr>)"
    "current_proc s' = current_proc s" "length (procs s') = 8" "once (procs s')" by auto
qed

lemma svc_yield_simps:
  assumes "length (procs s) = 8" "current_proc s \<in> table s"
  shows "procs (svc_yield s) = procs s" "pobj (svc_yield s) = pobj s" "current_proc (svc_yield s) \<in> table s"
    "current_proc (svc_yield s) = current_proc s \<or> runnable s (current_proc (svc_yield s))"
  using assms sched_pick_next_table [OF assms(1)] by (auto simp: svc_yield_def context_switch_def Let_def)

lemma svc_effects [simp]:
  "procs (snd (svc_join i s)) = procs s" "current_proc (snd (svc_join i s)) = current_proc s"
  "procs (snd (svc_sleep u f now s)) = procs s" "current_proc (snd (svc_sleep u f now s)) = current_proc s"
  "pid (pobj (snd (svc_join i s)) p) = pid (pobj s p)" "pid (pobj (snd (svc_sleep u f now s)) p) = pid (pobj s p)"
  "p \<noteq> current_proc s \<Longrightarrow> pobj (snd (svc_join i s)) p = pobj s p"
  "p \<noteq> current_proc s \<Longrightarrow> pobj (snd (svc_sleep u f now s)) p = pobj s p"
  by (simp_all add: svc_join_def svc_sleep_def upd_proc_def Let_def)

lemma table_cong: "procs s = procs t \<Longrightarrow> table s = table t"
  by (simp add: table_def)

lemma svc_yield_inv:
  assumes "sched_inv s" "procs t = procs s" "current_proc t = current_proc s" "\<And>p. pid (pobj t p) = pid (pobj s p)"
  shows "sched_inv (svc_yield t)"
proof -
  have t: "length (procs t) = 8" "current_proc t \<in> table t" "table t = table s"
    using assms by (auto simp: sched_inv_def table_def)
  show ?thesis
    using svc_yield_simps [OF t(1,2)] assms t(3) by (intro sched_inv_cong [OF assms(1)]) simp_all
qed

lemma exit_inv:
  assumes inv: "sched_inv s" and i: "i = pid (pobj s (current_proc s))" and s1: "s1 = snd (sched_remove i s)"
    and s2: "s2 = sched_wake_joiners i code s1" and nxt: "sched_pick_next s2 \<noteq> 0"
  shows "sched_inv (context_switch (sched_pick_next s2) s2)"
proof -
  have i0: "i \<noteq> 0" using inv i by (auto simp: sched_inv_def)
  note r = sched_remove_current [OF inv i, folded s1]
  note w = wake_joiners_simps [OF i0, of code s1, folded s2]
  have tab: "table s2 = table s1" using w(1) by (rule table_cong)
  have pid: "pid (pobj s2 p) = pid (pobj s p)" for p by (simp add: w(3) r(2) joined_def)
  have "length (procs s2) = 8" using w(1) r(3) by simp
  then have "sched_pick_next s2 \<in> table s2" using nxt by (rule sched_pick_next_table)
  moreover have "inj_on (\<lambda>p. pid (pobj s2 p)) (table s2)"
    unfolding tab r(1) pid using inv by (auto simp: sched_inv_def inj_on_def)
  moreover have "\<forall>p \<in> table s2. pid (pobj s2 p) \<noteq> 0" unfolding tab r(1) pid using inv by (auto simp: sched_inv_def)
  ultimately show ?thesis using w(1) r(3,4) by (simp add: sched_inv_def context_switch_def table_def)
qed

lemma fork_inv:
  assumes inv: "sched_inv s" and c: "c \<noteq> 0" "c \<notin> table s" and x: "pid x \<noteq> 0" "pid x \<notin> (\<lambda>q. pid (pobj s q)) ` table s"
  shows "sched_inv (snd (sched_add c (upd_proc c (\<lambda>_. x) s)))"
proof -
  define s' where "s' = snd (sched_add c (upd_proc c (\<lambda>_. x) s))"
  note a = sched_add_fresh [OF inv c s'_def]
  have pid: "pid (pobj s' p) = (if p = c then pid x else pid (pobj s p))" for p using a(2) by auto
  have eq: "pid (pobj s' p) = pid (pobj s p)" if "p \<in> table s" for p using that c(2) pid by auto
  have "inj_on (\<lambda>p. pid (pobj s' p)) (table s)" using inv inj_on_cong [of "table s", OF eq] by (simp add: sched_inv_def)
  moreover have "pid (pobj s' c) \<notin> (\<lambda>p. pid (pobj s' p)) ` table s"
    using x(2) eq pid [of c] by (metis (no_types, lifting) image_cong)
  ultimately have "inj_on (\<lambda>p. pid (pobj s' p)) (insert c (table s))" using c(2) by simp
  moreover have "table s' \<subseteq> insert c (table s)" using a(1) by auto
  ultimately have "inj_on (\<lambda>p. pid (pobj s' p)) (table s')" by (rule inj_on_subset)
  moreover have "\<forall>p \<in> table s'. pid (pobj s' p) \<noteq> 0" using a(1) x(1) inv by (auto simp: pid sched_inv_def)
  moreover have "current_proc s' \<in> table s'" using a(1,3) inv by (auto simp: sched_inv_def)
  ultimately show ?thesis using a(4,5) by (simp add: sched_inv_def flip: s'_def)
qed

lemma tick_inv:
  assumes "sched_inv s"
  shows "sched_inv (sched_tick now s)"
proof -
  have s: "length (procs s) = 8" "current_proc s \<in> table s" using assms by (auto simp: sched_inv_def)
  show ?thesis
  proof (rule sched_tick_cases [OF s, of now])
    assume "sched_tick now s = wake_sleepers now s"
    then show ?thesis using s(2) by (auto intro!: sched_inv_cong [OF assms] simp: woken_def)
  next
    fix q
    assume "q \<in> table s" "sched_tick now s = (upd_proc (current_proc s) (\<lambda>x. x\<lparr>suspended := 1\<rparr>) (wake_sleepers now s))\<lparr>current_proc := q\<rparr>"
    then show ?thesis by (auto intro!: sched_inv_cong [OF assms] simp: woken_def upd_proc_def)
  qed
qed

lemma sched_step_inv: "sched_step s s' \<Longrightarrow> sched_inv s \<Longrightarrow> sched_inv s'"
proof (induction rule: sched_step.induct)
  case (Exec s f a e b c h t n)
  then show ?case by (intro sched_inv_cong [OF \<open>sched_inv s\<close>]) (auto simp: upd_proc_def sched_inv_def)
qed (auto intro: tick_inv fork_inv exit_inv svc_yield_inv)

lemma demo_sched_inv: "sched_inv demo_sched"
proof -
  have "procs demo_sched = (replicate 8 0)[0 := 0x1000, 1 := 0x2000]" by (simp add: numeral_eq_Suc)
  moreover have "once ((replicate 8 0)[0 := 0x1000, 1 := 0x2000])"
    by (intro once_update) (auto simp: once_def nth_list_update set_conv_nth)
  moreover have "table demo_sched = {0x1000, 0x2000}" by (auto simp: table_def)
  ultimately show ?thesis by (simp add: sched_inv_def inj_on_def)
qed

text \<open>C19: the scheduler's table stays well formed through every sequence of ticks, forks, exits, joins, sleeps
  and execs: eight slots, no process in two slots, different nonzero identifiers, and the current
  process always in the table.\<close>

theorem sched_steps_inv:
  assumes "sched_inv s" "sched_step\<^sup>*\<^sup>* s t"
  shows "sched_inv t"
  using assms(2,1) by (induction rule: rtranclp_induct) (auto intro: sched_step_inv)

theorem sched_steps_inv_witness:
  "sched_inv (sched_tick 9 (svc_yield (snd (svc_sleep 1 1 1 demo_sched))))"
proof -
  have "sched_step demo_sched (svc_yield (snd (svc_sleep 1 1 1 demo_sched)))"
    by (rule Sleep) (simp add: running_def demo_proc_def)
  then have "sched_step\<^sup>*\<^sup>* demo_sched (svc_yield (snd (svc_sleep 1 1 1 demo_sched)))" by (rule r_into_rtranclp)
  then have "sched_step\<^sup>*\<^sup>* demo_sched (sched_tick 9 (svc_yield (snd (svc_sleep 1 1 1 demo_sched))))"
    using Tick by (rule rtranclp.rtrancl_into_rtrancl)
  then show ?thesis by (rule sched_steps_inv [OF demo_sched_inv])
qed

section \<open>Preempted processes\<close>

text \<open>A suspended process that waits for nothing: no deadline and no process to join.\<close>

definition starved :: "sched_state \<Rightarrow> u32 \<Rightarrow> bool" where
  "starved s p \<longleftrightarrow> p \<in> table s \<and> p \<noteq> current_proc s \<and> suspended (pobj s p) \<noteq> 0 \<and>
     wake_tick (pobj s p) = 0 \<and> join_target (pobj s p) = 0"

lemma starved_not_runnable: "starved s p \<Longrightarrow> pobj t p = pobj s p \<Longrightarrow> runnable t q \<Longrightarrow> q \<noteq> p"
  by (auto simp: starved_def runnable_def)

lemma starved_cong:
  assumes "starved s p" "p \<in> table t" "pobj t p = pobj s p" "current_proc t \<noteq> p"
  shows "starved t p"
  using assms by (auto simp: starved_def)

lemma starved_yield:
  assumes inv: "sched_inv s" and st: "starved s p" and t: "procs t = procs s" "current_proc t = current_proc s" "pobj t p = pobj s p"
  shows "starved (svc_yield t) p"
proof -
  have tt: "length (procs t) = 8" "current_proc t \<in> table t" "table t = table s"
    using inv t by (auto simp: sched_inv_def table_def)
  note y = svc_yield_simps [OF tt(1,2)]
  have "current_proc (svc_yield t) \<noteq> p"
    using y(4) st starved_not_runnable [OF st t(3)] t(2) by (auto simp: starved_def)
  then show ?thesis using y st tt(3) t(3) by (intro starved_cong [OF st]) (auto simp: table_def starved_def)
qed

lemma starved_exit:
  assumes inv: "sched_inv s" and st: "starved s p" and i: "i = pid (pobj s (current_proc s))"
    and s1: "s1 = snd (sched_remove i s)" and s2: "s2 = sched_wake_joiners i code s1" and nxt: "sched_pick_next s2 \<noteq> 0"
  shows "starved (context_switch (sched_pick_next s2) s2) p"
proof -
  have i0: "i \<noteq> 0" using inv i by (auto simp: sched_inv_def)
  note r = sched_remove_current [OF inv i, folded s1]
  note w = wake_joiners_simps [OF i0, of code s1, folded s2]
  have p: "pobj s2 p = pobj s p" using st i0 by (auto simp: w(3) r(2) joined_def starved_def)
  have "length (procs s2) = 8" using w(1) r(3) by simp
  then have "runnable s2 (sched_pick_next s2)" using nxt by (rule sched_pick_next_table)
  then have "sched_pick_next s2 \<noteq> p" by (rule starved_not_runnable [OF st p])
  moreover have "p \<in> table s2" using st r(1) table_cong [OF w(1)] by (simp add: starved_def)
  ultimately show ?thesis using p by (intro starved_cong [OF st]) (auto simp: context_switch_def table_def)
qed

lemma starved_tick:
  assumes inv: "sched_inv s" and st: "starved s p"
  shows "starved (sched_tick now s) p"
proof -
  have s: "length (procs s) = 8" "current_proc s \<in> table s" using inv by (auto simp: sched_inv_def)
  have p: "pobj (wake_sleepers now s) p = pobj s p" using st by (simp add: woken_def starved_def)
  show ?thesis
  proof (rule sched_tick_cases [OF s, of now])
    assume "sched_tick now s = wake_sleepers now s"
    then show ?thesis using st p by (intro starved_cong [OF st]) (auto simp: starved_def table_def)
  next
    fix q
    assume q: "runnable (wake_sleepers now s) q"
      and eq: "sched_tick now s = (upd_proc (current_proc s) (\<lambda>x. x\<lparr>suspended := 1\<rparr>) (wake_sleepers now s))\<lparr>current_proc := q\<rparr>"
    have "q \<noteq> p" using q by (rule starved_not_runnable [OF st p])
    then show ?thesis
      using st p unfolding eq by (intro starved_cong [OF st]) (auto simp: upd_proc_def starved_def table_def)
  qed
qed

lemma starved_step: "sched_step s s' \<Longrightarrow> sched_inv s \<Longrightarrow> starved s p \<Longrightarrow> starved s' p"
proof (induction rule: sched_step.induct)
  case (Fork s c x)
  note a = sched_add_fresh [OF \<open>sched_inv s\<close> Fork(2,3) refl, of x]
  show ?case using Fork a by (intro starved_cong [OF \<open>starved s p\<close>]) (auto simp: starved_def)
next
  case (Join s i)
  then show ?case by (intro starved_yield [of s]) (auto simp: starved_def)
next
  case (Sleep s usec freq now)
  then show ?case by (intro starved_yield [of s]) (auto simp: starved_def)
next
  case (Exec s f a e b c h t n)
  then show ?case by (intro starved_cong [OF \<open>starved s p\<close>]) (auto simp: starved_def upd_proc_def table_def)
qed (auto intro: starved_tick starved_exit)

text \<open>C20: a process that a timer tick takes the processor from, while it neither sleeps nor joins,
  is never scheduled again: after every further sequence of scheduler events it is still in the table,
  still suspended and not the current process. \<open>sched_tick\<close> marks it suspended and no operation clears
  that mark for a process that waits for nothing.\<close>

theorem sched_tick_starves:
  assumes inv: "sched_inv s" and p: "p = current_proc s" "wake_tick (pobj s p) = 0" "join_target (pobj s p) = 0"
    and preempted: "current_proc (sched_tick now s) \<noteq> p" and run: "sched_step\<^sup>*\<^sup>* (sched_tick now s) t"
  shows "p \<in> table t \<and> suspended (pobj t p) \<noteq> 0 \<and> current_proc t \<noteq> p"
proof -
  have s: "length (procs s) = 8" "current_proc s \<in> table s" using inv by (auto simp: sched_inv_def)
  have start: "starved (sched_tick now s) p"
  proof (rule sched_tick_cases [OF s, of now])
    fix q
    assume "sched_tick now s = (upd_proc (current_proc s) (\<lambda>x. x\<lparr>suspended := 1\<rparr>) (wake_sleepers now s))\<lparr>current_proc := q\<rparr>"
    then show ?thesis using p s(2) preempted by (auto simp: starved_def upd_proc_def table_def woken_def)
  qed (use preempted p in simp)
  have "sched_inv t \<and> starved t p"
    using run by (induction rule: rtranclp_induct) (use start tick_inv [OF inv] in \<open>auto intro: sched_step_inv starved_step\<close>)
  then show ?thesis by (auto simp: starved_def)
qed

theorem sched_tick_starves_witness:
  "0x1000 \<in> table (sched_tick 5 demo_sched) \<and> current_proc (sched_tick 5 demo_sched) \<noteq> 0x1000"
proof -
  have "current_proc (sched_tick 5 demo_sched) = 0x2000" by code_simp
  moreover have "wake_tick (pobj demo_sched 0x1000) = 0" "join_target (pobj demo_sched 0x1000) = 0"
    by (simp_all add: demo_proc_def)
  ultimately show ?thesis
    using sched_tick_starves [OF demo_sched_inv, of "0x1000" 5 "sched_tick 5 demo_sched"] by simp
qed

end
