(* ===== verification/Leg_Cstring.thy ===== *)
theory Leg_Cstring
  imports Leg_Memory
begin

text \<open>
  The string routines of \<^verbatim>\<open>src/libc/cstring.c\<close> on byte memory. Each loop runs until it meets a
  terminator and would run forever on memory without one, so the loops are partial functions into
  \<open>option\<close>; the theorems show that on terminated strings they return, and what they return.
  \<open>char\<close> is unsigned on ARM, and \<open>int\<close> lengths and differences are mathematical integers (their overflow
  is undefined behaviour in C and needs strings of 2 GB).
\<close>

section \<open>The routines\<close>

partial_function (option) strlen_loop :: "mem \<Rightarrow> u32 \<Rightarrow> int \<Rightarrow> int option" where
  "strlen_loop m s len = (if m s \<noteq> 0 then strlen_loop m (s + 1) (len + 1) else Some len)"

definition strlen :: "mem \<Rightarrow> u32 \<Rightarrow> int option" where
  "strlen m s = strlen_loop m s 0"

partial_function (option) strcmp :: "mem \<Rightarrow> u32 \<Rightarrow> u32 \<Rightarrow> int option" where
  "strcmp m s1 s2 =
     (if m s1 \<noteq> 0 \<and> m s1 = m s2 then strcmp m (s1 + 1) (s2 + 1)
      else Some (uint (m s1) - uint (m s2)))"

fun strncmp_loop :: "mem \<Rightarrow> u32 \<Rightarrow> u32 \<Rightarrow> nat \<Rightarrow> int" where
  "strncmp_loop m s1 s2 0 = 0"
| "strncmp_loop m s1 s2 (Suc n) =
     (if m s1 \<noteq> 0 \<and> m s1 = m s2 then strncmp_loop m (s1 + 1) (s2 + 1) n
      else uint (m s1) - uint (m s2))"

definition strncmp :: "mem \<Rightarrow> u32 \<Rightarrow> u32 \<Rightarrow> u32 \<Rightarrow> int" where
  "strncmp m s1 s2 n = strncmp_loop m s1 s2 (unat n)"

partial_function (option) strcpy :: "u32 \<Rightarrow> u32 \<Rightarrow> mem \<Rightarrow> (u32 \<times> mem) option" where
  "strcpy dest src m =
     (let c = m src; m' = m(dest := c)
      in if c \<noteq> 0 then strcpy (dest + 1) (src + 1) m' else Some (dest + 1, m'))"

abbreviation (input) blank :: "u8 \<Rightarrow> bool" where
  "blank c \<equiv> c = 32 \<or> c = 9"

partial_function (option) skip_blanks :: "mem \<Rightarrow> u32 \<Rightarrow> u32 option" where
  "skip_blanks m line = (if blank (m line) then skip_blanks m (line + 1) else Some line)"

partial_function (option) skip_token :: "mem \<Rightarrow> u32 \<Rightarrow> u32 option" where
  "skip_token m line =
     (if m line \<noteq> 0 \<and> \<not> blank (m line) then skip_token m (line + 1) else Some line)"

partial_function (option) str_split_loop ::
  "u32 \<Rightarrow> u32 \<Rightarrow> int \<Rightarrow> int \<Rightarrow> mem \<Rightarrow> (int \<times> mem) option" where
  "str_split_loop line argv max_argc argc m =
     (if m line \<noteq> 0 \<and> argc < max_argc
      then Option.bind (skip_blanks m line) (\<lambda>line.
        if m line = 0 then Some (argc, m)
        else
          let m = wr32 m (argv + 4 * of_int argc) line in
          Option.bind (skip_token m line) (\<lambda>line.
            if m line \<noteq> 0
            then str_split_loop (line + 1) argv max_argc (argc + 1) (m(line := 0))
            else str_split_loop line argv max_argc (argc + 1) m))
      else Some (argc, m))"

definition str_split :: "u32 \<Rightarrow> u32 \<Rightarrow> int \<Rightarrow> mem \<Rightarrow> (int \<times> mem) option" where
  "str_split line argv max_argc m = str_split_loop line argv max_argc 0 m"

abbreviation (input) is_space :: "u8 \<Rightarrow> bool" where
  "is_space c \<equiv> c = 32 \<or> c = 9 \<or> c = 10 \<or> c = 13"

partial_function (option) skip_spaces :: "mem \<Rightarrow> u32 \<Rightarrow> u32 option" where
  "skip_spaces m s = (if is_space (m s) then skip_spaces m (s + 1) else Some s)"

partial_function (option) last_char :: "mem \<Rightarrow> u32 \<Rightarrow> u32 option" where
  "last_char m e = (if m (e + 1) \<noteq> 0 then last_char m (e + 1) else Some e)"

partial_function (option) back_spaces :: "mem \<Rightarrow> u32 \<Rightarrow> u32 \<Rightarrow> u32 option" where
  "back_spaces m s e = (if e > s \<and> is_space (m e) then back_spaces m s (e - 1) else Some e)"

definition trim :: "u32 \<Rightarrow> mem \<Rightarrow> (u32 \<times> mem) option" where
  "trim s m =
     Option.bind (skip_spaces m s) (\<lambda>s.
       if m s = 0 then Some (s, m)
       else Option.bind (last_char m s) (\<lambda>e.
         Option.bind (back_spaces m s e) (\<lambda>e. Some (s, m(e + 1 := 0)))))"

section \<open>Strings in memory\<close>

text \<open>The bytes \<open>xs\<close>, none of them zero, followed by the terminator.\<close>

fun cstr_at :: "mem \<Rightarrow> u32 \<Rightarrow> u8 list \<Rightarrow> bool" where
  "cstr_at m a [] \<longleftrightarrow> m a = 0"
| "cstr_at m a (x # xs) \<longleftrightarrow> x \<noteq> 0 \<and> m a = x \<and> cstr_at m (a + 1) xs"

lemma cstr_at_unique: "cstr_at m a xs \<Longrightarrow> cstr_at m a ys \<Longrightarrow> xs = ys"
proof (induction xs arbitrary: a ys)
  case Nil
  then show ?case by (cases ys) auto
next
  case (Cons x xs)
  then show ?case by (cases ys) auto
qed

lemma cstr_at_nth:
  "cstr_at m a xs \<Longrightarrow> i \<le> length xs \<Longrightarrow> m (a + w32 i) = (if i = length xs then 0 else xs ! i)"
proof (induction xs arbitrary: a i)
  case (Cons x xs)
  then show ?case using Cons.IH [of "a + 1" "i - 1"] by (cases i) (auto simp: algebra_simps)
qed simp

lemma cstr_at_cong:
  assumes "\<And>i. i \<le> length xs \<Longrightarrow> m' (a + w32 i) = m (a + w32 i)"
  shows "cstr_at m' a xs \<longleftrightarrow> cstr_at m a xs"
  using assms
proof (induction xs arbitrary: a)
  case Nil
  then show ?case using Nil [of 0] by simp
next
  case (Cons x xs)
  have "m' (a + 1 + w32 i) = m (a + 1 + w32 i)" if "i \<le> length xs" for i
    using Cons.prems [of "Suc i"] that by (simp add: algebra_simps)
  then show ?case using Cons.IH [of "a + 1"] Cons.prems [of 0] by simp
qed

lemma cstr_at_append:
  "cstr_at m a (xs @ ys) \<longleftrightarrow> (\<forall>i < length xs. xs ! i \<noteq> 0 \<and> m (a + w32 i) = xs ! i) \<and> cstr_at m (a + w32 (length xs)) ys"
proof (induction xs arbitrary: a)
  case (Cons x xs)
  then show ?case by (auto simp: All_less_Suc2 algebra_simps)
qed simp

lemma cstr_at_bytes:
  assumes "\<forall>k < length xs. m (a + w32 k) = xs ! k" "0 \<notin> set xs" "m (a + w32 (length xs)) = 0"
  shows "cstr_at m a xs"
  using assms cstr_at_append [of m a xs "[]"] by (auto simp: in_set_conv_nth)

lemma length_takeWhile_less: "x \<in> set xs \<Longrightarrow> \<not> P x \<Longrightarrow> length (takeWhile P xs) < length xs"
  by (induction xs) auto

section \<open>What the routines return\<close>

lemma strlen_loop_cstr: "cstr_at m a xs \<Longrightarrow> strlen_loop m a n = Some (n + int (length xs))"
  by (induction xs arbitrary: a n) (simp_all add: strlen_loop.simps)

text \<open>The value of \<open>strcmp\<close>: the difference at the first place where the strings differ, the terminator counting as 0.\<close>

fun cmp_bytes :: "u8 list \<Rightarrow> u8 list \<Rightarrow> int" where
  "cmp_bytes [] [] = 0"
| "cmp_bytes [] (y # ys) = - uint y"
| "cmp_bytes (x # xs) [] = uint x"
| "cmp_bytes (x # xs) (y # ys) = (if x = y then cmp_bytes xs ys else uint x - uint y)"

lemma strcmp_cstr: "cstr_at m a xs \<Longrightarrow> cstr_at m b ys \<Longrightarrow> strcmp m a b = Some (cmp_bytes xs ys)"
  by (induction xs ys arbitrary: a b rule: cmp_bytes.induct) (auto simp: strcmp.simps)

lemma strncmp_loop_cstr:
  "cstr_at m a xs \<Longrightarrow> cstr_at m b ys \<Longrightarrow> strncmp_loop m a b n = cmp_bytes (take n xs) (take n ys)"
proof (induction n arbitrary: a b xs ys)
  case (Suc n)
  then show ?case by (cases xs; cases ys) auto
qed simp

lemma uint_u8_eq_0: "uint (x :: u8) = 0 \<longleftrightarrow> x = 0"
  by (simp add: unsigned_eq_0_iff)

lemma uint_u8_eq: "uint (x :: u8) = uint y \<longleftrightarrow> x = y"
  by (auto intro: word_uint_eqI)

lemma cmp_bytes_eq_0: "0 \<notin> set xs \<Longrightarrow> 0 \<notin> set ys \<Longrightarrow> cmp_bytes xs ys = 0 \<longleftrightarrow> xs = ys"
  by (induction xs ys rule: cmp_bytes.induct) (auto simp: uint_u8_eq_0 uint_u8_eq)

lemma cmp_bytes_less_0:
  "0 \<notin> set xs \<Longrightarrow> 0 \<notin> set ys \<Longrightarrow> cmp_bytes xs ys < 0 \<longleftrightarrow> (xs, ys) \<in> lexord {(x, y). x < y}"
proof (induction xs ys rule: cmp_bytes.induct)
  case (2 y ys)
  then have "uint y \<noteq> 0" by (simp add: uint_u8_eq_0)
  moreover have "0 \<le> uint y" by simp
  ultimately show ?case by (simp add: less_le)
next
  case (3 x xs)
  then show ?case by simp
next
  case (4 x xs y ys)
  then show ?case by (auto simp: word_less_def)
qed simp

lemma cstr_at_nonzero: "cstr_at m a xs \<Longrightarrow> 0 \<notin> set xs"
  by (induction xs arbitrary: a) auto

text \<open>On a terminated source that the copy does not overwrite, \<open>strcpy\<close> is the upward copy of the string and its terminator.\<close>

lemma strcpy_copy_up:
  assumes "cstr_at m s xs" "unat d + length xs < 2 ^ 32" "unat s + length xs < 2 ^ 32"
    and "unat d < unat s \<or> unat s + length xs < unat d"
  shows "strcpy d s m = Some (d + w32 (length xs) + 1, copy_up (Suc (length xs)) d s m)"
  using assms
proof (induction xs arbitrary: d s m)
  case Nil
  then show ?case by (simp add: strcpy.simps fun_upd_def)
next
  case (Cons x xs)
  have s1: "unat (s + 1) = unat s + 1" and d1: "unat (d + 1) = unat d + 1"
    using Cons.prems(2,3) unat_add_no_wrap [of s 1] unat_add_no_wrap [of d 1] by simp_all
  have off: "s + 1 + w32 i \<noteq> d" if "i \<le> length xs" for i
  proof -
    have "unat (s + 1 + w32 i) = unat s + 1 + i"
      using that Cons.prems(3) s1 unat_add_no_wrap [of "s + 1" "w32 i"] by (simp add: unat_w32)
    then show ?thesis using Cons.prems(4) that by auto
  qed
  have "cstr_at (m(d := x)) (s + 1) xs \<longleftrightarrow> cstr_at m (s + 1) xs"
    using off by (intro cstr_at_cong) simp
  then have "strcpy (d + 1) (s + 1) (m(d := x)) =
      Some (d + 1 + w32 (length xs) + 1, copy_up (Suc (length xs)) (d + 1) (s + 1) (m(d := x)))"
    using Cons.prems s1 d1 by (intro Cons.IH) (auto simp del: fun_upd_apply)
  then show ?case using Cons.prems(1) by (simp add: strcpy.simps [of d] add.assoc)
qed

section \<open>Trimming\<close>

abbreviation (input) sp :: "u8 \<Rightarrow> bool" where "sp \<equiv> (\<lambda>c. is_space c)"

definition rstrip :: "u8 list \<Rightarrow> u8 list" where
  "rstrip xs = rev (dropWhile sp (rev xs))"

definition strip :: "u8 list \<Rightarrow> u8 list" where
  "strip xs = rstrip (dropWhile sp xs)"

lemma skip_spaces_cstr:
  assumes "cstr_at m a xs"
  shows "skip_spaces m a = Some (a + w32 (length (takeWhile sp xs)))"
    and "cstr_at m (a + w32 (length (takeWhile sp xs))) (dropWhile sp xs)"
proof -
  show "cstr_at m (a + w32 (length (takeWhile sp xs))) (dropWhile sp xs)"
    using assms cstr_at_append [of m a "takeWhile sp xs" "dropWhile sp xs"] by simp
  show "skip_spaces m a = Some (a + w32 (length (takeWhile sp xs)))"
    using assms by (induction xs arbitrary: a) (auto simp: skip_spaces.simps add.assoc)
qed

lemma last_char_cstr: "cstr_at m a (x # xs) \<Longrightarrow> last_char m a = Some (a + w32 (length xs))"
proof (induction xs arbitrary: a x)
  case (Cons y ys)
  then show ?case using Cons.IH [of "a + 1" y] by (subst last_char.simps) (simp add: add.assoc)
qed (simp add: last_char.simps)

lemma rstrip_take_Suc:
  "k < length ys \<Longrightarrow> rstrip (take (Suc k) ys) = (if sp (ys ! k) then rstrip (take k ys) else take (Suc k) ys)"
  by (simp add: rstrip_def take_Suc_conv_app_nth)

lemma back_spaces_cstr:
  assumes "cstr_at m s ys" "unat s + length ys < 2 ^ 32" "k < length ys" "\<not> sp (hd ys)"
  shows "back_spaces m s (s + w32 k) = Some (s + w32 (length (rstrip (take (Suc k) ys)) - 1))"
  using assms(3)
proof (induction k)
  case 0
  then have "\<not> sp (ys ! 0)" using assms(4) by (cases ys) auto
  then show ?case using 0 by (simp add: back_spaces.simps rstrip_take_Suc)
next
  case (Suc k)
  have "unat (s + w32 (Suc k)) = unat s + Suc k"
    using Suc.prems assms(2) unat_add_no_wrap [of s "w32 (Suc k)"] by (simp add: unat_w32 del: of_nat_Suc)
  then have gt: "s < s + w32 (Suc k)" unfolding word_less_nat_alt by linarith
  have chr: "m (s + w32 (Suc k)) = ys ! Suc k" using cstr_at_nth [OF assms(1), of "Suc k"] Suc.prems by simp
  have prv: "s + w32 (Suc k) - 1 = s + w32 k" by simp
  show ?case
  proof (cases "sp (ys ! Suc k)")
    case True
    then have "s < s + w32 (Suc k) \<and> sp (m (s + w32 (Suc k)))" using gt chr by simp
    then have "back_spaces m s (s + w32 (Suc k)) = back_spaces m s (s + w32 k)"
      unfolding back_spaces.simps [of m s "s + w32 (Suc k)"] prv by simp
    then show ?thesis using Suc True rstrip_take_Suc [of "Suc k" ys] by simp
  next
    case False
    moreover have "length (take (Suc (Suc k)) ys) = Suc (Suc k)" using Suc.prems by simp
    ultimately show ?thesis
      using Suc.prems chr rstrip_take_Suc [of "Suc k" ys] unfolding back_spaces.simps [of m s "s + w32 (Suc k)"]
      by (simp del: of_nat_Suc)
  qed
qed

lemma strip_split: "xs = takeWhile sp xs @ strip xs @ drop (length (strip xs)) (dropWhile sp xs)"
proof -
  define ys where "ys = dropWhile sp xs"
  have "rev (rev ys) = rev (dropWhile sp (rev ys)) @ rev (takeWhile sp (rev ys))"
    by (simp flip: rev_append)
  then have "ys = rstrip ys @ rev (takeWhile sp (rev ys))" by (simp add: rstrip_def)
  then have "take (length (rstrip ys)) ys = rstrip ys" using append_eq_conv_conj [of "rstrip ys" "rev (takeWhile sp (rev ys))" ys] by simp
  then have "ys = rstrip ys @ drop (length (rstrip ys)) ys" using append_take_drop_id [of "length (rstrip ys)" ys] by simp
  then have "takeWhile sp xs @ ys = takeWhile sp xs @ rstrip ys @ drop (length (rstrip ys)) ys" by simp
  then show ?thesis by (simp add: strip_def ys_def)
qed

lemma trim_cstr:
  assumes xs: "cstr_at m a xs" and no_wrap: "unat a + length xs < 2 ^ 32"
  defines "p \<equiv> a + w32 (length (takeWhile sp xs))"
  shows "\<exists>m'. trim a m = Some (p, m') \<and> cstr_at m' p (strip xs) \<and> (\<forall>b. b \<noteq> p + w32 (length (strip xs)) \<longrightarrow> m' b = m b)"
proof -
  define ys where "ys = dropWhile sp xs"
  note skip = skip_spaces_cstr [OF xs, folded p_def ys_def]
  have len: "length (takeWhile sp xs) + length ys = length xs"
    unfolding ys_def by (metis length_append takeWhile_dropWhile_id)
  have p: "unat p = unat a + length (takeWhile sp xs)"
    unfolding p_def using no_wrap len unat_add_no_wrap [of a "w32 (length (takeWhile sp xs))"] by (simp add: unat_w32)
  show ?thesis
  proof (cases ys)
    case Nil
    then have "strip xs = []" by (simp add: strip_def rstrip_def flip: ys_def)
    then show ?thesis using skip Nil by (simp add: trim_def)
  next
    case (Cons y zs)
    have hd: "\<not> sp (hd ys)" using Cons hd_dropWhile [of sp xs] by (auto simp: ys_def)
    have y: "m p \<noteq> 0" using skip(2) Cons by simp
    have "back_spaces m p (p + w32 (length zs)) = Some (p + w32 (length (rstrip ys) - 1))"
      using back_spaces_cstr [OF skip(2), of "length zs"] p no_wrap len hd Cons by simp
    moreover have "rstrip ys \<noteq> []"
    proof -
      have "hd ys \<in> set (rev ys)" using Cons by simp
      then show ?thesis using hd unfolding rstrip_def rev_is_Nil_conv dropWhile_eq_Nil_conv by blast
    qed
    ultimately have e: "back_spaces m p (p + w32 (length zs)) = Some (p + w32 (length (strip xs)) - 1)"
      and pos: "0 < length (strip xs)"
      by (simp_all add: strip_def ys_def of_nat_diff Suc_le_eq add_diff_eq)
    have "trim a m = Some (p, m(p + w32 (length (strip xs)) := 0))"
      using skip(1) y last_char_cstr [OF skip(2) [unfolded Cons]] e by (simp add: trim_def)
    moreover have "cstr_at (m(p + w32 (length (strip xs)) := 0)) p (strip xs)"
    proof -
      have split: "ys = strip xs @ drop (length (strip xs)) ys"
      proof -
        have "takeWhile sp xs @ ys = takeWhile sp xs @ strip xs @ drop (length (strip xs)) ys"
          using strip_split [of xs] by (simp add: ys_def)
        then show ?thesis by (simp only: same_append_eq)
      qed
      have other: "p + w32 i \<noteq> p + w32 (length (strip xs))" if "i < length (strip xs)" for i
      proof -
        have "length (strip xs) \<le> length ys" using split by (metis length_append le_add1)
        then show ?thesis using that no_wrap len w32_eq_iff [of i "length (strip xs)"] by simp
      qed
      have "cstr_at m p (strip xs @ drop (length (strip xs)) ys)" using skip(2) split by simp
      then have "\<forall>i < length (strip xs). strip xs ! i \<noteq> 0 \<and> m (p + w32 i) = strip xs ! i"
        by (simp add: cstr_at_append)
      then show ?thesis
        using other cstr_at_append [of "m(p + w32 (length (strip xs)) := 0)" p "strip xs" "[]"] by simp
    qed
    ultimately show ?thesis by simp
  qed
qed

end
