(* ===== verification/Leg_Cstring_Split.thy ===== *)
theory Leg_Cstring_Split
  imports Leg_Cstring
begin

text \<open>
  The tokens that \<open>str_split\<close> of \<^verbatim>\<open>src/libc/cstring.c\<close> finds: a line is cut in place into its
  blank-separated words, and the argument vector points at them.
\<close>

abbreviation (input) nonblank :: "u8 \<Rightarrow> bool" where "nonblank \<equiv> (\<lambda>c. \<not> blank c)"

function tokens :: "u8 list \<Rightarrow> u8 list list" where
  "tokens xs =
     (let ys = dropWhile (\<lambda>c. blank c) xs
      in if ys = [] then [] else takeWhile nonblank ys # tokens (dropWhile nonblank ys))"
  by pat_completeness auto

lemma nonblank_hd: "dropWhile (\<lambda>c. blank c) xs \<noteq> [] \<Longrightarrow> \<not> blank (hd (dropWhile (\<lambda>c. blank c) xs))"
  by (rule hd_dropWhile)

lemma token_shorter:
  assumes "dropWhile (\<lambda>c. blank c) xs = ys" "ys \<noteq> []"
  shows "length (dropWhile nonblank ys) < length xs"
proof -
  have "\<not> blank (hd ys)" using assms nonblank_hd [of xs] by simp
  then have "length (dropWhile nonblank ys) < length ys"
    using assms(2) by (cases ys) (auto simp: length_dropWhile_le less_Suc_eq_le)
  moreover have "length ys \<le> length xs" using assms(1) length_dropWhile_le [of "\<lambda>c. blank c" xs] by simp
  ultimately show ?thesis by simp
qed

termination tokens
proof (relation "measure length")
  fix xs ys :: "u8 list"
  assume "ys = dropWhile (\<lambda>c. blank c) xs" "ys \<noteq> []"
  then show "(dropWhile nonblank ys, xs) \<in> measure length" using token_shorter [of xs ys] by simp
qed simp

declare tokens.simps [simp del]

lemma tokens_blank: "blank c \<Longrightarrow> tokens (c # xs) = tokens xs"
  by (subst (1 2) tokens.simps) auto

lemma skip_blanks_cstr:
  assumes "cstr_at m a xs"
  shows "skip_blanks m a = Some (a + w32 (length (takeWhile (\<lambda>c. blank c) xs)))"
  using assms by (induction xs arbitrary: a) (auto simp: skip_blanks.simps add.assoc)

lemma skip_token_cstr:
  assumes "cstr_at m a xs"
  shows "skip_token m a = Some (a + w32 (length (takeWhile nonblank xs)))"
  using assms by (induction xs arbitrary: a) (auto simp: skip_token.simps add.assoc)

lemma cstr_at_drop:
  assumes "cstr_at m a xs"
  shows "cstr_at m (a + w32 (length (takeWhile P xs))) (dropWhile P xs)"
  using assms cstr_at_append [of m a "takeWhile P xs" "dropWhile P xs"] by simp

section \<open>The argument vector\<close>

lemma argv_cell:
  assumes "unat argv + 4 * n < 2 ^ 32" "k < n" "j < 4"
  shows "unat (argv + 4 * w32 k + w32 j) = unat argv + 4 * k + j"
proof -
  have "4 * k + j < 4 * n" using assms by linarith
  then have "unat (argv + w32 (4 * k + j)) = unat argv + (4 * k + j)"
    using assms unat_add_no_wrap [of argv "w32 (4 * k + j)"] unat_w32 [of "4 * k + j"] by simp
  then show ?thesis by (simp add: add.assoc)
qed

lemma argv_write_other:
  assumes "unat argv + 4 * n < 2 ^ 32" "k < n" "\<not> (unat argv + 4 * k \<le> unat b \<and> unat b < unat argv + 4 * k + 4)"
  shows "wr32 m (argv + 4 * w32 k) v b = m b"
proof -
  note c = argv_cell [OF assms(1,2)]
  have "b \<noteq> argv + 4 * w32 k + w32 j" if "j < 4" for j
    using c [OF that] that assms(3) by auto
  from this [of 0] this [of 1] this [of 2] this [of 3] show ?thesis
    by (intro wr32_apply_other) simp_all
qed

lemma argv_read_cong:
  assumes "unat argv + 4 * n < 2 ^ 32" "k < n"
    and "\<And>b. unat argv + 4 * k \<le> unat b \<Longrightarrow> unat b < unat argv + 4 * k + 4 \<Longrightarrow> m' b = m b"
  shows "rd32 m' (argv + 4 * w32 k) = rd32 m (argv + 4 * w32 k)"
  using argv_cell [OF assms(1,2)] by (intro rd32_cong assms(3)) auto

section \<open>The loop\<close>

definition split_done :: "u32 \<Rightarrow> nat \<Rightarrow> nat \<Rightarrow> u8 list list \<Rightarrow> mem \<Rightarrow> nat \<Rightarrow> bool" where
  "split_done argv k n ts m j \<longleftrightarrow> j = min (n - k) (length ts) \<and>
     (\<forall>i < j. cstr_at m (rd32 m (argv + 4 * w32 (k + i))) (ts ! i))"

text \<open>A string whose bytes keep their values is still there.\<close>

lemma cstr_at_frame:
  assumes "cstr_at m p ts" "unat p + length ts < 2 ^ 32" "\<And>b. unat p \<le> unat b \<Longrightarrow> unat b \<le> unat p + length ts \<Longrightarrow> m' b = m b"
  shows "cstr_at m' p ts"
proof -
  have "m' (p + w32 i) = m (p + w32 i)" if "i \<le> length ts" for i
    using that assms(2) unat_add_no_wrap [of p "w32 i"] by (intro assms(3)) (simp_all add: unat_w32)
  then show ?thesis using cstr_at_cong [of ts m' p m] assms(1) by simp
qed

text \<open>A token that is followed by writes to the rest of the line and to later entries of the vector stays cut.\<close>

lemma split_done_Cons:
  assumes argv: "unat argv + 4 * n < 2 ^ 32" "k < n" and t: "cstr_at m p t" "unat p + length t < 2 ^ 32"
    and entry: "rd32 m (argv + 4 * w32 k) = p"
    and apart: "unat argv + 4 * n \<le> unat p \<or> unat p + length t + 1 + e < unat argv"
    and rest: "split_done argv (Suc k) n ts m' j"
    and frame: "\<And>b. \<not> (unat p + length t < unat b \<and> unat b \<le> unat p + length t + 1 + e) \<Longrightarrow>
      \<not> (unat argv + 4 * Suc k \<le> unat b \<and> unat b < unat argv + 4 * n) \<Longrightarrow> m' b = m b"
  shows "split_done argv k n (t # ts) m' (Suc j)"
proof -
  have "rd32 m' (argv + 4 * w32 k) = rd32 m (argv + 4 * w32 k)"
    using apart argv(2) by (intro argv_read_cong [OF argv] frame) auto
  moreover have "cstr_at m' p t"
    using apart argv(2) by (intro cstr_at_frame [OF t] frame) auto
  ultimately show ?thesis
    using rest entry argv(2) unfolding split_done_def by (auto simp: All_less_Suc2 ac_simps)
qed

text \<open>
  The loop keeps the tokens it has cut: every later write goes to the rest of the line or to a later
  entry of the vector.
\<close>

lemma str_split_loop_cstr:
  assumes "cstr_at m line xs" "unat line + length xs < 2 ^ 32" "unat argv + 4 * n < 2 ^ 32" "k \<le> n"
    and "unat argv + 4 * n \<le> unat line \<or> unat line + length xs < unat argv"
  shows "\<exists>j m'. str_split_loop line argv (int n) (int k) m = Some (int (k + j), m') \<and> split_done argv k n (tokens xs) m' j \<and>
    (\<forall>b. \<not> (unat line \<le> unat b \<and> unat b \<le> unat line + length xs) \<and>
         \<not> (unat argv + 4 * k \<le> unat b \<and> unat b < unat argv + 4 * n) \<longrightarrow> m' b = m b)"
  using assms
proof (induction xs arbitrary: m line k rule: length_induct)
  case (1 xs)
  define ys where "ys = dropWhile (\<lambda>c. blank c) xs"
  define l1 where "l1 = line + w32 (length (takeWhile (\<lambda>c. blank c) xs))"
  have skip: "skip_blanks m line = Some l1" "cstr_at m l1 ys"
    using skip_blanks_cstr [OF "1.prems"(1)] cstr_at_drop [OF "1.prems"(1)] by (auto simp: l1_def ys_def)
  have lxs: "length xs = length (takeWhile (\<lambda>c. blank c) xs) + length ys"
    unfolding ys_def by (metis length_append takeWhile_dropWhile_id)
  have l1: "unat l1 = unat line + length (takeWhile (\<lambda>c. blank c) xs)"
    unfolding l1_def using "1.prems"(2) lxs unat_add_no_wrap [of line "w32 (length (takeWhile (\<lambda>c. blank c) xs))"]
    by (simp add: unat_w32)
  consider (stop) "m line = 0 \<or> k = n" | (none) "m line \<noteq> 0" "k < n" "ys = []" | (token) "m line \<noteq> 0" "k < n" "ys \<noteq> []"
    using "1.prems"(4) by linarith
  then show ?case
  proof cases
    case stop
    then have "xs = [] \<or> k = n" using "1.prems"(1) by (cases xs) auto
    then have "split_done argv k n (tokens xs) m 0" by (auto simp: split_done_def tokens.simps)
    then show ?thesis using stop by (subst str_split_loop.simps) (auto intro!: exI [of _ 0])
  next
    case none
    then have "split_done argv k n (tokens xs) m 0" by (simp add: split_done_def tokens.simps flip: ys_def)
    moreover have "m l1 = 0" using skip(2) none by simp
    ultimately show ?thesis using none skip(1) by (subst str_split_loop.simps) (auto intro!: exI [of _ 0])
  next
    case token
    define t where "t = takeWhile nonblank ys"
    define zs where "zs = dropWhile nonblank ys"
    define m1 where "m1 = wr32 m (argv + 4 * w32 k) l1"
    define l2 where "l2 = l1 + w32 (length t)"
    have toks: "tokens xs = t # tokens zs"
      using token by (subst tokens.simps) (simp add: Let_def t_def zs_def flip: ys_def)
    have lys: "length ys = length t + length zs" unfolding t_def zs_def by (metis length_append takeWhile_dropWhile_id)
    have l2: "unat l2 = unat l1 + length t"
      unfolding l2_def using "1.prems"(2) lxs lys l1 unat_add_no_wrap [of l1 "w32 (length t)"] by (simp add: unat_w32)
    have m1: "m1 b = m b" if "\<not> (unat argv + 4 * k \<le> unat b \<and> unat b < unat argv + 4 * k + 4)" for b
      unfolding m1_def using "1.prems"(3) token(2) that by (rule argv_write_other)
    have ys1: "cstr_at m1 l1 ys"
      using skip(2) "1.prems"(2,5) lxs l1 token(2) by (intro cstr_at_frame [OF skip(2)] m1) auto
    have t1: "cstr_at m1 l2 zs" "skip_token m1 l1 = Some l2"
      using cstr_at_drop [OF ys1] skip_token_cstr [OF ys1] by (auto simp: l2_def t_def zs_def)
    have r1: "rd32 m1 (argv + 4 * w32 k) = l1" by (simp add: m1_def)
    have "m l1 \<noteq> 0" using skip(2) token by (cases ys) auto
    then have loop: "str_split_loop line argv (int n) (int k) m =
      (if m1 l2 \<noteq> 0 then str_split_loop (l2 + 1) argv (int n) (int (Suc k)) (m1(l2 := 0))
       else str_split_loop l2 argv (int n) (int (Suc k)) m1)"
      using token skip(1) t1(2) by (subst str_split_loop.simps) (simp add: Let_def add.commute flip: m1_def)
    show ?thesis
    proof (cases zs)
      case Nil
      then have "str_split_loop line argv (int n) (int k) m = Some (int (k + 1), m1)"
        using loop t1(1) by (simp add: str_split_loop.simps [of l2])
      moreover have "ys = t" using Nil by (metis append_Nil2 t_def takeWhile_dropWhile_id zs_def)
      then have "cstr_at m1 l1 t" using ys1 by simp
      then have "split_done argv k n (tokens xs) m1 1"
        using token(2) r1 by (simp add: split_done_def toks Nil tokens.simps [of "[]"])
      ultimately show ?thesis using m1 token(2) by (intro exI [of _ 1] exI [of _ m1]) auto
    next
      case (Cons c ws)
      have "dropWhile nonblank ys = c # ws" using Cons by (simp add: zs_def)
      then have c: "blank c" using hd_dropWhile [of nonblank ys] by auto
      have ysc: "ys = t @ c # ws" using Cons by (metis t_def takeWhile_dropWhile_id zs_def)
      define m2 where "m2 = m1(l2 := 0)"
      have l3: "unat (l2 + 1) = unat l2 + 1"
        using "1.prems"(2) lxs lys l1 l2 Cons unat_add_no_wrap [of l2 1] by simp
      have ws: "cstr_at m2 (l2 + 1) ws"
      proof (rule cstr_at_frame)
        show "cstr_at m1 (l2 + 1) ws" using t1(1) Cons by simp
      qed (use "1.prems"(2) lxs lys l1 l2 l3 Cons in \<open>auto simp: m2_def\<close>)
      have before: "l1 + w32 i \<noteq> l2" if "i < length t" for i
      proof -
        have "unat (l1 + w32 i) = unat l1 + i"
          using that l2 unat_lt_32 [of l2] unat_add_no_wrap [of l1 "w32 i"] by (simp add: unat_w32)
        then show ?thesis using l2 that by auto
      qed
      have t2: "cstr_at m2 l1 t"
        using ys1 before unfolding ysc cstr_at_append
        using cstr_at_append [of m2 l1 t "[]"] by (simp add: m2_def flip: l2_def)
      have "\<exists>j m'. str_split_loop (l2 + 1) argv (int n) (int (Suc k)) m2 = Some (int (Suc k + j), m') \<and>
        split_done argv (Suc k) n (tokens ws) m' j \<and>
        (\<forall>b. \<not> (unat (l2 + 1) \<le> unat b \<and> unat b \<le> unat (l2 + 1) + length ws) \<and>
             \<not> (unat argv + 4 * Suc k \<le> unat b \<and> unat b < unat argv + 4 * n) \<longrightarrow> m' b = m2 b)"
        using "1.prems" lxs lys l1 l2 l3 Cons token ws
        by (intro "1.IH" [rule_format]) auto
      then obtain j m' where rest: "str_split_loop (l2 + 1) argv (int n) (int (Suc k)) m2 = Some (int (Suc k + j), m')"
          "split_done argv (Suc k) n (tokens ws) m' j"
        and frame: "\<And>b. \<not> (unat l2 < unat b \<and> unat b \<le> unat l2 + 1 + length ws) \<Longrightarrow>
             \<not> (unat argv + 4 * Suc k \<le> unat b \<and> unat b < unat argv + 4 * n) \<Longrightarrow> m' b = m2 b"
        using l3 by (auto simp: Suc_le_eq)
      have end_: "unat l2 + 1 + length ws = unat line + length xs" using lxs lys l1 l2 Cons by simp
      have "rd32 m2 (argv + 4 * w32 k) = rd32 m1 (argv + 4 * w32 k)"
        using "1.prems"(5) l1 l2 end_ token(2)
        by (intro argv_read_cong [OF "1.prems"(3) token(2)]) (auto simp: m2_def)
      then have "split_done argv k n (tokens xs) m' (Suc j)"
        unfolding toks Cons tokens_blank [OF c]
        using "1.prems"(5) r1 l1 l2 end_ unat_lt_32 [of l2]
        by (intro split_done_Cons [OF "1.prems"(3) token(2) t2 _ _ _ rest(2), where e = "length ws"] frame) auto
      moreover have "str_split_loop line argv (int n) (int k) m = Some (int (k + Suc j), m')"
        using loop t1(1) Cons rest(1) by (simp flip: m2_def)
      moreover have "m' b = m b" if "\<not> (unat line \<le> unat b \<and> unat b \<le> unat line + length xs)"
          "\<not> (unat argv + 4 * k \<le> unat b \<and> unat b < unat argv + 4 * n)" for b
      proof -
        have "b \<noteq> l2" using that(1) l1 l2 end_ by auto
        then show ?thesis using frame [of b] m1 [of b] that token(2) l1 l2 end_ by (auto simp: m2_def)
      qed
      ultimately show ?thesis by (intro exI [of _ "Suc j"] exI [of _ m']) auto
    qed
  qed
qed

section \<open>Properties\<close>

text \<open>A line in memory for the witnesses: the bytes of \<^verbatim>\<open>"ls  -l"\<close> at \<^verbatim>\<open>0x100\<close>, zeros elsewhere.\<close>

definition line_mem :: mem where
  "line_mem = (\<lambda>_. 0)(0x100 := 108, 0x101 := 115, 0x102 := 32, 0x103 := 32, 0x104 := 45, 0x105 := 108)"

lemma line_mem_cstr: "cstr_at line_mem 0x100 [108, 115, 32, 32, 45, 108]"
  by (simp add: line_mem_def)

text \<open>C27: on two terminated strings \<open>strcmp\<close> and \<open>strncmp\<close> return; the result is zero exactly when the strings
  (or their first \<open>n\<close> bytes) are equal, and negative exactly when the first is smaller in the lexicographic
  order of unsigned bytes.\<close>

theorem strcmp_orders:
  assumes "cstr_at m a xs" "cstr_at m b ys"
  shows "(\<exists>r. strcmp m a b = Some r \<and> (r = 0 \<longleftrightarrow> xs = ys) \<and> (r < 0 \<longleftrightarrow> (xs, ys) \<in> lexord {(x, y). x < y})) \<and>
    (strncmp m a b n = 0 \<longleftrightarrow> take (unat n) xs = take (unat n) ys) \<and>
    (strncmp m a b n < 0 \<longleftrightarrow> (take (unat n) xs, take (unat n) ys) \<in> lexord {(x, y). x < y})"
proof -
  have nz: "0 \<notin> set xs" "0 \<notin> set ys" using assms by (auto dest: cstr_at_nonzero)
  then have "0 \<notin> set (take (unat n) xs)" "0 \<notin> set (take (unat n) ys)" by (meson in_set_takeD)+
  then show ?thesis
    using nz strcmp_cstr [OF assms] strncmp_loop_cstr [OF assms, of "unat n"]
    by (simp add: strncmp_def cmp_bytes_eq_0 cmp_bytes_less_0)
qed

theorem strcmp_orders_witness:
  "(\<exists>r. strcmp line_mem 0x104 0x100 = Some r \<and> r < 0) \<and> strncmp line_mem 0x104 0x100 0 = 0"
proof -
  have "cstr_at line_mem 0x104 [45, 108]" by (simp add: line_mem_def)
  from strcmp_orders [OF this line_mem_cstr, of 0] show ?thesis by (auto simp: word_less_def)
qed

text \<open>C28: \<open>str_split\<close> cuts a terminated line in place into its blank-separated words: it returns the number of
  words, at most \<open>max_argc\<close>, entry \<open>i\<close> of the vector points to the terminated word \<open>i\<close>, and nothing outside the
  line and the vector is written. The line must not overlap the vector.\<close>

theorem str_split_correct:
  assumes "cstr_at m line xs" "unat line + length xs < 2 ^ 32" "unat argv + 4 * n < 2 ^ 32"
    and "unat argv + 4 * n \<le> unat line \<or> unat line + length xs < unat argv"
  shows "\<exists>m'. str_split line argv (int n) m = Some (int (min n (length (tokens xs))), m') \<and>
    (\<forall>i < min n (length (tokens xs)). cstr_at m' (rd32 m' (argv + 4 * w32 i)) (tokens xs ! i)) \<and>
    (\<forall>b. \<not> (unat line \<le> unat b \<and> unat b \<le> unat line + length xs) \<and>
         \<not> (unat argv \<le> unat b \<and> unat b < unat argv + 4 * n) \<longrightarrow> m' b = m b)"
  using str_split_loop_cstr [OF assms(1-3) _ assms(4), of 0] by (auto simp: str_split_def split_done_def)

theorem str_split_correct_witness:
  "\<exists>m'. str_split 0x100 0x200 8 line_mem = Some (2, m') \<and> cstr_at m' (rd32 m' 0x200) [108, 115]"
proof -
  have t: "tokens [108, 115, 32, 32, 45, 108] = [[108, 115], [45, 108]]"
    by (simp add: tokens.simps Let_def)
  show ?thesis using str_split_correct [OF line_mem_cstr, of "0x200" 8] unfolding t by auto
qed

text \<open>\<open>trim\<close> returns a pointer to the string without its leading and trailing white space, terminated in
  place; only the byte of the new terminator changes.\<close>

theorem trim_correct:
  assumes "cstr_at m a xs" "unat a + length xs < 2 ^ 32"
  shows "\<exists>p m'. trim a m = Some (p, m') \<and> cstr_at m' p (strip xs) \<and>
    p = a + w32 (length (takeWhile (\<lambda>c. is_space c) xs)) \<and> (\<forall>b. b \<noteq> p + w32 (length (strip xs)) \<longrightarrow> m' b = m b)"
  using trim_cstr [OF assms] by auto

theorem trim_correct_witness: "\<exists>p m'. trim 0x102 line_mem = Some (p, m') \<and> p = 0x104 \<and> cstr_at m' p [45, 108]"
proof -
  have "cstr_at line_mem 0x102 [32, 32, 45, 108]" by (simp add: line_mem_def)
  from trim_correct [OF this] show ?thesis by (auto simp: strip_def rstrip_def)
qed

end
