(* ===== verification/Leg_Stdlib.thy ===== *)
theory Leg_Stdlib
  imports Leg_Cstring Leg_Utils
begin

text \<open>
  Number formatting of \<^verbatim>\<open>src/libc/stdlib.c\<close> and the integer logarithm of \<^verbatim>\<open>include/libc/math.h\<close>: the digits
  are written backwards into the caller's buffer. The loops of \<open>log\<close> and \<open>utoa\<close> do not end for radix 1 and
  divide by zero for radix 0, so they are partial functions; the theorems are for radix 2 to 36.
\<close>

section \<open>The routines\<close>

definition get_symbol :: "u8 \<Rightarrow> int" where
  "get_symbol digit = (if digit < 0xA then 48 + uint digit else 97 + uint digit - 0xA)"

partial_function (option) log_loop :: "u32 \<Rightarrow> u8 \<Rightarrow> u32 \<Rightarrow> u32 option" where
  "log_loop value base n =
     (if value \<ge> ucast base then log_loop (value div ucast base) base (n + 1) else Some n)"

definition log_int :: "u32 \<Rightarrow> u8 \<Rightarrow> u32 option" where
  "log_int value base = log_loop value base 0"

partial_function (option) utoa_loop ::
  "u32 \<Rightarrow> u8 \<Rightarrow> u32 \<Rightarrow> u32 \<Rightarrow> u32 \<Rightarrow> mem \<Rightarrow> (u32 \<times> mem) option" where
  "utoa_loop value radix digit_count i buffer m =
     (let digit = (ucast (value mod ucast radix) :: u8);
          m = m(buffer + (digit_count - i) := of_int (get_symbol digit));
          value = value div ucast radix
      in if value \<noteq> 0 then utoa_loop value radix digit_count (i + 1) buffer m else Some (i + 1, m))"

definition utoa :: "u32 \<Rightarrow> u32 \<Rightarrow> u8 \<Rightarrow> mem \<Rightarrow> (u32 \<times> mem) option" where
  "utoa value buffer radix m =
     (if value = 0 then Some (buffer, m(buffer := 48, buffer + 1 := 0))
      else Option.bind (log_int value radix) (\<lambda>digit_count.
        Option.bind (utoa_loop value radix digit_count 0 buffer m) (\<lambda>(i, m).
          Some (buffer, m(buffer + i := 0)))))"

definition itoa :: "32 word \<Rightarrow> u32 \<Rightarrow> u8 \<Rightarrow> mem \<Rightarrow> (u32 \<times> mem) option" where
  "itoa value buffer radix m =
     (let (value, buffer, m) =
        (if sint value < 0 then (- value, buffer + 1, m(buffer := 45)) else (value, buffer, m))
      in Option.bind (utoa value buffer radix m) (\<lambda>(_, m). Some (buffer, m)))"

definition hex8 :: "u8 \<Rightarrow> u16" where
  "hex8 digit = of_int (get_symbol (digit div 16)) OR push_bit 8 (of_int (get_symbol (digit mod 16)))"

definition wr16 :: "mem \<Rightarrow> u32 \<Rightarrow> u16 \<Rightarrow> mem" where
  "wr16 m a v = m(a := ucast v, a + 1 := ucast (drop_bit 8 v))"

definition hex32le :: "u32 \<Rightarrow> u32 \<Rightarrow> mem \<Rightarrow> u32 \<times> mem" where
  "hex32le value str m =
     (let m = wr16 m str (hex8 (ucast (value AND 0xff)));
          m = wr16 m (str + 2) (hex8 (ucast (drop_bit 8 value AND 0xff)));
          m = wr16 m (str + 4) (hex8 (ucast (drop_bit 16 value AND 0xff)));
          m = wr16 m (str + 6) (hex8 (ucast (drop_bit 24 value AND 0xff)))
      in (str, m(str + 8 := 0)))"

definition hex32be :: "u32 \<Rightarrow> u32 \<Rightarrow> mem \<Rightarrow> u32 \<times> mem" where
  "hex32be value str m =
     (let m = wr16 m (str + 6) (hex8 (ucast (value AND 0xff)));
          m = wr16 m (str + 4) (hex8 (ucast (drop_bit 8 value AND 0xff)));
          m = wr16 m (str + 2) (hex8 (ucast (drop_bit 16 value AND 0xff)));
          m = wr16 m str (hex8 (ucast (drop_bit 24 value AND 0xff)))
      in (str, m(str + 8 := 0)))"

section \<open>Digits\<close>

text \<open>The digits of a number, least significant first, and the character of a digit.\<close>

function digits :: "nat \<Rightarrow> nat \<Rightarrow> nat list" where
  "digits r v = (if v < r \<or> r < 2 then [v] else v mod r # digits r (v div r))"
  by pat_completeness auto
termination by (relation "measure snd") auto

declare digits.simps [simp del]

definition digit_char :: "nat \<Rightarrow> u8" where
  "digit_char d = of_nat (if d < 10 then 48 + d else 87 + d)"

definition numeral_bytes :: "nat \<Rightarrow> nat \<Rightarrow> u8 list" where
  "numeral_bytes r v = rev (map digit_char (digits r v))"

text \<open>Reading a numeral back, as a positional number.\<close>

definition char_digit :: "u8 \<Rightarrow> nat" where
  "char_digit c = (if unat c < 58 then unat c - 48 else unat c - 87)"

definition parse_numeral :: "nat \<Rightarrow> u8 list \<Rightarrow> nat" where
  "parse_numeral r cs = foldl (\<lambda>a c. a * r + char_digit c) 0 cs"

lemma digits_bound: "2 \<le> r \<Longrightarrow> d \<in> set (digits r v) \<Longrightarrow> d < r"
proof (induction r v rule: digits.induct)
  case (1 r v)
  then show ?case by (cases "v < r") (auto simp: digits.simps [of r v])
qed

lemma unat_digit_char: "d < 36 \<Longrightarrow> unat (digit_char d) = (if d < 10 then 48 + d else 87 + d)"
  by (auto simp: digit_char_def unat_of_nat take_bit_nat_eq_self)

lemma char_digit_char: "d < 36 \<Longrightarrow> char_digit (digit_char d) = d"
  by (simp add: char_digit_def unat_digit_char)

lemma parse_numeral_bytes:
  assumes "2 \<le> r" "r \<le> 36"
  shows "parse_numeral r (numeral_bytes r v) = v"
  using assms
proof (induction r v rule: digits.induct)
  case (1 r v)
  show ?case
  proof (cases "v < r")
    case True
    then show ?thesis using 1 by (simp add: parse_numeral_def numeral_bytes_def digits.simps [of r v] char_digit_char)
  next
    case False
    then have "parse_numeral r (numeral_bytes r (v div r)) = v div r" using 1 by simp
    moreover have "v mod r < 36" using 1 mod_less_divisor [of r v] by linarith
    ultimately show ?thesis
      using False 1 by (simp add: parse_numeral_def numeral_bytes_def digits.simps [of r v] char_digit_char)
  qed
qed

lemma get_symbol_digit: "d < 36 \<Longrightarrow> of_int (get_symbol (of_nat d)) = digit_char d"
  by (auto simp: get_symbol_def digit_char_def word_less_nat_alt unat_of_nat take_bit_nat_eq_self uint_nat of_nat_diff)

lemma length_digits: "0 < length (digits r v)"
  by (subst digits.simps) auto

lemma length_digits_le:
  assumes "2 \<le> r" "v < 2 ^ n" "0 < n"
  shows "length (digits r v) \<le> n"
  using assms
proof (induction r v arbitrary: n rule: digits.induct)
  case (1 r v)
  show ?case
  proof (cases "v < r")
    case False
    then obtain n' where n: "n = Suc n'" "0 < n'"
      using 1 by (cases n; cases "n - 1") auto
    have "v div r \<le> v div 2" using 1 by (intro div_le_mono2) auto
    also have "v div 2 < 2 ^ n'" using 1 n by auto
    finally show ?thesis using 1 False n by (subst digits.simps) auto
  qed (use 1 in \<open>simp add: digits.simps\<close>)
qed

section \<open>The loops\<close>

lemma unat_radix: "unat (ucast (r :: u8) :: u32) = unat r"
proof -
  have "unat r < 2 ^ 32" using unsigned_less [of r, where 'a = nat] by simp
  then show ?thesis by (simp add: unsigned_ucast_eq take_bit_nat_eq_self)
qed

lemma log_loop_digits:
  assumes "2 \<le> unat radix"
  shows "log_loop v radix n = Some (n + w32 (length (digits (unat radix) (unat v)) - 1))"
proof (induction "unat v" arbitrary: v n rule: less_induct)
  case less
  note ge = word_le_nat_alt [of "ucast radix" v] unat_radix
  show ?case
  proof (cases "unat v < unat radix")
    case True
    then show ?thesis using ge by (simp add: log_loop.simps digits.simps)
  next
    case False
    then have "unat (v div ucast radix) < unat v" using assms by (simp add: unat_div unat_radix)
    from less [OF this, of "n + 1"] show ?thesis
      using False assms ge length_digits [of "unat radix" "unat v div unat radix"]
      by (subst log_loop.simps, subst digits.simps) (simp add: unat_div unat_radix of_nat_diff)
  qed
qed

text \<open>The loop writes the digits from \<open>buffer + (D - I)\<close> down to \<open>buffer\<close>.\<close>

lemma utoa_loop_digits:
  assumes r: "2 \<le> unat radix" "unat radix \<le> 36" and "I + length (digits (unat radix) (unat v)) = Suc D" "D < 32"
  shows "\<exists>m'. utoa_loop v radix (w32 D) (w32 I) buffer m = Some (w32 (Suc D), m') \<and>
    (\<forall>k \<le> D - I. m' (buffer + w32 k) = numeral_bytes (unat radix) (unat v) ! k) \<and>
    (\<forall>b. (\<forall>k \<le> D - I. b \<noteq> buffer + w32 k) \<longrightarrow> m' b = m b)"
  using assms(3)
proof (induction "unat v" arbitrary: v I m rule: less_induct)
  case less
  let ?R = "unat radix"
  define d where "d = unat v mod ?R"
  have I: "I \<le> D" using less.prems length_digits [of ?R "unat v"] by linarith
  have d36: "d < 36" unfolding d_def using r by (intro less_le_trans [OF mod_less_divisor]) auto
  have "(ucast (v mod ucast radix) :: u8) = of_nat d"
  proof -
    have "d = unat (v mod ucast radix)" by (simp add: unat_mod unat_radix d_def)
    then show ?thesis by simp
  qed
  then have sym: "of_int (get_symbol (ucast (v mod ucast radix))) = digit_char d" using get_symbol_digit [OF d36] by simp
  define m1 where "m1 = m(buffer + w32 (D - I) := digit_char d)"
  have pos: "w32 D - w32 I = w32 (D - I)" using I by (simp add: of_nat_diff)
  have q: "unat (v div ucast radix) = unat v div ?R" by (simp add: unat_div unat_radix)
  have step: "utoa_loop v radix (w32 D) (w32 I) buffer m =
    (if v div ucast radix \<noteq> 0 then utoa_loop (v div ucast radix) radix (w32 D) (w32 (Suc I)) buffer m1
     else Some (w32 (Suc I), m1))"
    by (subst utoa_loop.simps) (simp add: Let_def sym pos m1_def add.commute)
  show ?case
  proof (cases "unat v < ?R")
    case True
    then have "v div ucast radix = 0" "I = D" "numeral_bytes ?R (unat v) = [digit_char d]"
      using q less.prems by (simp_all add: unat_eq_0 [symmetric] digits.simps numeral_bytes_def d_def)
    then show ?thesis using step by (auto simp: m1_def)
  next
    case False
    then have lt: "unat (v div ucast radix) < unat v" using r by (simp add: q)
    have ds: "digits ?R (unat v) = d # digits ?R (unat v div ?R)" using False r by (subst digits.simps) (simp add: d_def)
    then have "Suc I + length (digits ?R (unat (v div ucast radix))) = Suc D" using less.prems q by simp
    from less.hyps [OF lt this, of m1] obtain m' where
      rest: "utoa_loop (v div ucast radix) radix (w32 D) (w32 (Suc I)) buffer m1 = Some (w32 (Suc D), m')"
        "\<forall>k \<le> D - Suc I. m' (buffer + w32 k) = numeral_bytes ?R (unat v div ?R) ! k"
        "\<forall>b. (\<forall>k \<le> D - Suc I. b \<noteq> buffer + w32 k) \<longrightarrow> m' b = m1 b"
      unfolding q by auto
    have nz: "v div ucast radix \<noteq> 0" using False r q by (simp add: unat_eq_0 [symmetric] div_eq_0_iff)
    have len: "length (numeral_bytes ?R (unat v div ?R)) = D - I" "I < D"
      using ds less.prems length_digits [of ?R "unat v div ?R"] by (auto simp: numeral_bytes_def)
    have bytes: "numeral_bytes ?R (unat v) = numeral_bytes ?R (unat v div ?R) @ [digit_char d]"
      by (simp add: numeral_bytes_def ds)
    have top: "m' (buffer + w32 (D - I)) = digit_char d"
    proof -
      have "w32 (D - I) \<noteq> w32 k" if "k \<le> D - Suc I" for k
        using that len(2) \<open>D < 32\<close> w32_eq_iff [of "D - I" k] by auto
      then show ?thesis using rest(3) by (simp add: m1_def)
    qed
    have "m' (buffer + w32 k) = numeral_bytes ?R (unat v) ! k" if "k \<le> D - I" for k
      using that rest(2) top len bytes by (cases "k = D - I") (auto simp: nth_append)
    moreover have "m' b = m b" if "\<forall>k \<le> D - I. b \<noteq> buffer + w32 k" for b
      using that rest(3) by (auto simp: m1_def)
    ultimately show ?thesis using step nz rest(1) by auto
  qed
qed

lemma numeral_bytes_nonzero: "2 \<le> r \<Longrightarrow> r \<le> 36 \<Longrightarrow> c \<in> set (numeral_bytes r v) \<Longrightarrow> c \<noteq> 0"
proof -
  assume r: "2 \<le> r" "r \<le> 36" and "c \<in> set (numeral_bytes r v)"
  then obtain d where d: "d \<in> set (digits r v)" "c = digit_char d" by (auto simp: numeral_bytes_def)
  then have "d < 36" using digits_bound [OF r(1)] r(2) by fastforce
  then have "unat c \<noteq> 0" using unat_digit_char [of d] d(2) by (simp split: if_splits)
  then show "c \<noteq> 0" by auto
qed

lemma utoa_digits:
  fixes v :: u32
  assumes r: "2 \<le> unat radix" "unat radix \<le> 36"
  defines "ds \<equiv> numeral_bytes (unat radix) (unat v)"
  shows "length ds \<le> 32 \<and> (\<exists>m'. utoa v buffer radix m = Some (buffer, m') \<and> cstr_at m' buffer ds \<and>
    (\<forall>b. (\<forall>k \<le> length ds. b \<noteq> buffer + w32 k) \<longrightarrow> m' b = m b))"
proof -
  define D where "D = length (digits (unat radix) (unat v)) - 1"
  have len: "length ds = Suc D" using length_digits [of "unat radix" "unat v"] by (simp add: ds_def numeral_bytes_def D_def)
  have "length ds \<le> 32"
    using length_digits_le [OF r(1), of "unat v" 32] by (simp add: ds_def numeral_bytes_def)
  moreover have nz: "0 \<notin> set ds" using numeral_bytes_nonzero [OF r] by (auto simp: ds_def)
  moreover have "\<exists>m'. utoa v buffer radix m = Some (buffer, m') \<and> cstr_at m' buffer ds \<and>
    (\<forall>b. (\<forall>k \<le> length ds. b \<noteq> buffer + w32 k) \<longrightarrow> m' b = m b)"
  proof (cases "v = 0")
    case True
    then have "ds = [48]" using r by (simp add: ds_def numeral_bytes_def digits.simps digit_char_def)
    then show ?thesis using True by (auto simp: utoa_def dest: spec [of _ 0] spec [of _ 1])
  next
    case False
    have "0 + length (digits (unat radix) (unat v)) = Suc D" "D < 32" using len \<open>length ds \<le> 32\<close> by (auto simp: ds_def numeral_bytes_def)
    from utoa_loop_digits [OF r this, of buffer m] obtain m' where
      m': "utoa_loop v radix (w32 D) 0 buffer m = Some (w32 (Suc D), m')"
        "\<forall>k \<le> D. m' (buffer + w32 k) = ds ! k" "\<forall>b. (\<forall>k \<le> D. b \<noteq> buffer + w32 k) \<longrightarrow> m' b = m b"
      by (auto simp: ds_def)
    have "utoa v buffer radix m = Some (buffer, m'(buffer + w32 (length ds) := 0))"
      using False m'(1) log_loop_digits [OF r(1), of v 0] len by (simp add: utoa_def log_int_def D_def)
    moreover have "cstr_at (m'(buffer + w32 (length ds) := 0)) buffer ds"
    proof (rule cstr_at_bytes [OF _ nz])
      have "w32 k \<noteq> w32 (length ds)" if "k < length ds" for k
        using that \<open>length ds \<le> 32\<close> by (simp add: w32_eq_iff del: of_nat_Suc)
      then show "\<forall>k < length ds. (m'(buffer + w32 (length ds) := 0)) (buffer + w32 k) = ds ! k"
        using m'(2) len by simp
    qed simp
    ultimately show ?thesis using m'(3) len by auto
  qed
  ultimately show ?thesis by simp
qed

section \<open>Hexadecimal\<close>

lemma ucast_digit:
  assumes "d < 16"
  shows "(of_int (get_symbol (of_nat d)) :: u16) = ucast (digit_char d)"
proof -
  define c where "c = (if d < 10 then 48 + d else 87 + d)"
  have "(of_int (get_symbol (of_nat d)) :: u16) = of_nat c"
    using assms by (auto simp: get_symbol_def c_def word_less_nat_alt unat_of_nat take_bit_nat_eq_self uint_nat)
  moreover have "c < 256" using assms by (simp add: c_def)
  then have "(of_nat c :: u16) = ucast (of_nat c :: u8)"
    by (simp add: word_unat_eq_iff unsigned_ucast_eq unat_of_nat take_bit_nat_eq_self)
  ultimately show ?thesis by (simp add: digit_char_def c_def)
qed

lemma hex8_bytes:
  "ucast (hex8 b) = digit_char (unat b div 16)" "ucast (drop_bit 8 (hex8 b)) = digit_char (unat b mod 16)"
proof -
  have "unat b div 16 < 16" by (rule less_mult_imp_div_less) (use unsigned_less [of b, where 'a = nat] in simp)
  moreover have "unat b div 16 = unat (b div 16)" "unat b mod 16 = unat (b mod 16)" by (simp_all add: unat_div unat_mod)
  then have "b div 16 = of_nat (unat b div 16)" "b mod 16 = of_nat (unat b mod 16)" by simp_all
  ultimately have "hex8 b = ucast (digit_char (unat b div 16)) OR push_bit 8 (ucast (digit_char (unat b mod 16)))"
    unfolding hex8_def by (simp add: ucast_digit)
  then show "ucast (hex8 b) = digit_char (unat b div 16)" "ucast (drop_bit 8 (hex8 b)) = digit_char (unat b mod 16)"
    by (auto intro!: bit_word_eqI simp: bit_simps)
qed

text \<open>The eight nibbles of a word, most significant first.\<close>

definition nibbles :: "u32 \<Rightarrow> nat list" where
  "nibbles v = map (\<lambda>k. unat v div 16 ^ (7 - k) mod 16) [0..<8]"

lemma ff_mask: "(0xff :: u32) = mask 8"
  by (simp add: mask_eq_exp_minus_1)

lemma byte_nibbles:
  fixes v :: u32
  assumes "k \<le> 24"
  shows "unat (ucast (drop_bit k v AND 0xff) :: u8) div 16 = unat v div 2 ^ (k + 4) mod 16"
    "unat (ucast (drop_bit k v AND 0xff) :: u8) mod 16 = unat v div 2 ^ k mod 16"
proof -
  have "(ucast (drop_bit k v AND 0xff) :: u8) = ucast (drop_bit k v)"
  proof -
    show ?thesis unfolding ff_mask by (rule bit_word_eqI) (auto simp: bit_simps)
  qed
  then have b: "unat (ucast (drop_bit k v AND 0xff) :: u8) = unat v div 2 ^ k mod 256"
    using unat_drop_bit_div [of k v] by (simp add: unsigned_ucast_eq take_bit_eq_mod)
  have "x mod 256 div 16 = x div 16 mod 16" "x mod 256 mod 16 = x mod 16" for x :: nat
    using mod_mult2_eq [of x 16 16] by (simp_all add: mod_mod_cancel)
  then show "unat (ucast (drop_bit k v AND 0xff) :: u8) div 16 = unat v div 2 ^ (k + 4) mod 16"
    "unat (ucast (drop_bit k v AND 0xff) :: u8) mod 16 = unat v div 2 ^ k mod 16"
    unfolding b by (simp_all add: power_add div_mult2_eq)
qed

lemma digit_char_nonzero: "d < 16 \<Longrightarrow> digit_char d \<noteq> 0"
  using unat_digit_char [of d] by (auto split: if_splits)

lemma hex32be_cstr: "cstr_at (snd (hex32be v str m)) str (map digit_char (nibbles v))"
proof -
  note b = hex8_bytes byte_nibbles [of 24] byte_nibbles [of 16] byte_nibbles [of 8] byte_nibbles [of 0, simplified]
  have "nibbles v = [unat v div 2 ^ 28 mod 16, unat v div 2 ^ 24 mod 16, unat v div 2 ^ 20 mod 16, unat v div 2 ^ 16 mod 16,
      unat v div 2 ^ 12 mod 16, unat v div 2 ^ 8 mod 16, unat v div 2 ^ 4 mod 16, unat v mod 16]"
    by (simp add: nibbles_def upt_rec)
  moreover have "digit_char (x mod 16) \<noteq> 0" for x by (rule digit_char_nonzero) simp
  ultimately show ?thesis by (simp add: hex32be_def Let_def wr16_def b add.assoc unat_drop_bit_div flip: div_mult2_eq)
qed

lemma bswap32_bytes:
  "(ucast (bswap32 v AND 0xff) :: u8) = ucast (drop_bit 24 v AND 0xff)"
  "(ucast (drop_bit 8 (bswap32 v) AND 0xff) :: u8) = ucast (drop_bit 16 v AND 0xff)"
  "(ucast (drop_bit 16 (bswap32 v) AND 0xff) :: u8) = ucast (drop_bit 8 v AND 0xff)"
  "(ucast (drop_bit 24 (bswap32 v) AND 0xff) :: u8) = ucast (v AND 0xff)"
  unfolding ff_mask by (auto intro!: bit_word_eqI simp: bit_simps bit_bswap32 add.commute [of _ "_ :: nat"])

lemma hex32le_bswap: "hex32le v str m = hex32be (bswap32 v) str m"
  unfolding hex32le_def hex32be_def bswap32_bytes Let_def by (simp add: wr16_def fun_eq_iff)

section \<open>Properties\<close>

text \<open>C26: for every radix from 2 to 36 \<open>utoa\<close> returns; it leaves at the start of the buffer the terminated
  numeral of the value, which reads back as the value, writes at most 33 bytes and nothing outside them.\<close>

theorem utoa_correct:
  assumes "2 \<le> unat radix" "unat radix \<le> 36"
  shows "\<exists>m' ds. utoa v buffer radix m = Some (buffer, m') \<and> cstr_at m' buffer ds \<and> ds = numeral_bytes (unat radix) (unat v) \<and>
    parse_numeral (unat radix) ds = unat v \<and> length ds \<le> 32 \<and>
    (\<forall>b. (\<forall>k \<le> length ds. b \<noteq> buffer + w32 k) \<longrightarrow> m' b = m b)"
  using utoa_digits [OF assms, of v buffer m] parse_numeral_bytes [OF assms] by auto

theorem utoa_correct_witness:
  "\<exists>m'. utoa 255 0x100 16 (\<lambda>_. 0) = Some (0x100, m') \<and> cstr_at m' 0x100 [102, 102]"
proof -
  have "numeral_bytes 16 255 = [102, 102]" by (simp add: numeral_bytes_def digits.simps digit_char_def)
  then show ?thesis using utoa_correct [of 16 255 "0x100" "\<lambda>_. 0"] by auto
qed

text \<open>\<open>itoa\<close> writes a minus sign before the numeral of a negative value, but the pointer it returns is the one
  behind the sign, so the string the caller receives is that of the absolute value.\<close>

theorem itoa_returns_past_sign:
  assumes "2 \<le> unat radix" "unat radix \<le> 36" "sint v < 0"
  shows "\<exists>m'. itoa v buffer radix m = Some (buffer + 1, m') \<and>
    cstr_at m' (buffer + 1) (numeral_bytes (unat radix) (unat (- v))) \<and>
    cstr_at m' buffer (45 # numeral_bytes (unat radix) (unat (- v)))"
proof -
  obtain m' where m': "utoa (- v) (buffer + 1) radix (m(buffer := 45)) = Some (buffer + 1, m')"
      "cstr_at m' (buffer + 1) (numeral_bytes (unat radix) (unat (- v)))" "length (numeral_bytes (unat radix) (unat (- v))) \<le> 32"
      "\<forall>b. (\<forall>k \<le> length (numeral_bytes (unat radix) (unat (- v))). b \<noteq> buffer + 1 + w32 k) \<longrightarrow> m' b = (m(buffer := 45)) b"
    using utoa_correct [OF assms(1,2), of "- v" "buffer + 1" "m(buffer := 45)"] by auto
  have "1 + w32 k \<noteq> 0" if "k \<le> 32" for k
    using that w32_eq_0_iff [of "Suc k"] by simp
  then have "buffer \<noteq> buffer + 1 + w32 k" if "k \<le> 32" for k using that by (simp add: add.assoc)
  then have "m' buffer = 45" using m'(3,4) by auto
  then show ?thesis using m'(1,2) assms(3) by (simp add: itoa_def)
qed

theorem itoa_returns_past_sign_witness:
  "\<exists>m'. itoa (- 7) 0x100 10 (\<lambda>_. 0) = Some (0x101, m') \<and> cstr_at m' 0x101 [55]"
proof -
  have "numeral_bytes 10 7 = [55]" by (simp add: numeral_bytes_def digits.simps digit_char_def)
  moreover have "sint (- 7 :: 32 word) < 0" by simp
  ultimately show ?thesis using itoa_returns_past_sign [of 10 "- 7" "0x100" "\<lambda>_. 0"] by auto
qed

end
