(* ===== verification/Leg_Uldivmod.thy ===== *)
theory Leg_Uldivmod
  imports Leg_Prelude
begin

text \<open>
  The 64-bit division \<^verbatim>\<open>__aeabi_uldivmod\<close> of \<^verbatim>\<open>src/libc/builtins.c\<close>, an ARM assembly routine on pairs of
  32-bit registers. One iteration of its loop is a function on the register file, in the order of the
  instructions; the flags are written out as comparisons. The refinement goes through the same
  algorithm on 64-bit words, and from there to the quotient and remainder of natural numbers.
\<close>

section \<open>The routine on registers\<close>

record regs =
  r0 :: u32
  r1 :: u32
  r2 :: u32
  r3 :: u32
  r4 :: u32
  r5 :: u32
  r6 :: u32
  r7 :: u32
  r9 :: u32

text \<open>
  The numerator is in r0 (low) and r1, the denominator in r2 and r3, the quotient in r4 and r5, the
  remainder in r6 and r7; \<open>subs\<close> leaves the borrow that \<open>sbc\<close> subtracts.
\<close>

definition shift_in :: "regs \<Rightarrow> regs" where
  "shift_in s =
     (let s = s\<lparr>r9 := drop_bit 31 (r1 s)\<rparr>;
          s = s\<lparr>r1 := push_bit 1 (r1 s)\<rparr>; s = s\<lparr>r1 := r1 s OR drop_bit 31 (r0 s)\<rparr>;
          s = s\<lparr>r0 := push_bit 1 (r0 s)\<rparr>;
          s = s\<lparr>r7 := push_bit 1 (r7 s)\<rparr>; s = s\<lparr>r7 := r7 s OR drop_bit 31 (r6 s)\<rparr>;
          s = s\<lparr>r6 := push_bit 1 (r6 s)\<rparr>; s = s\<lparr>r6 := r6 s OR r9 s\<rparr>;
          s = s\<lparr>r5 := push_bit 1 (r5 s)\<rparr>; s = s\<lparr>r5 := r5 s OR drop_bit 31 (r4 s)\<rparr>
      in s\<lparr>r4 := push_bit 1 (r4 s)\<rparr>)"

definition subtract :: "regs \<Rightarrow> regs" where
  "subtract s =
     (if r7 s > r3 s \<or> (\<not> r7 s < r3 s \<and> \<not> r6 s < r2 s)
      then
        let borrow = (if r6 s < r2 s then 1 else 0);
            s = s\<lparr>r6 := r6 s - r2 s\<rparr>; s = s\<lparr>r7 := r7 s - r3 s - borrow\<rparr>
        in s\<lparr>r4 := r4 s OR 1\<rparr>
      else s)"

definition div_iter :: "regs \<Rightarrow> regs" where
  "div_iter s = subtract (shift_in s)"

definition aeabi_uldivmod :: "u32 \<Rightarrow> u32 \<Rightarrow> u32 \<Rightarrow> u32 \<Rightarrow> (u32 \<times> u32) \<times> (u32 \<times> u32)" where
  "aeabi_uldivmod n_lo n_hi d_lo d_hi =
     (let s = (div_iter ^^ 64)
            \<lparr>r0 = n_lo, r1 = n_hi, r2 = d_lo, r3 = d_hi, r4 = 0, r5 = 0, r6 = 0, r7 = 0, r9 = 0\<rparr>
      in ((r4 s, r5 s), (r6 s, r7 s)))"

section \<open>Register pairs as 64-bit words\<close>

definition pair :: "u32 \<Rightarrow> u32 \<Rightarrow> u64" where
  "pair lo hi = push_bit 32 (ucast hi) OR ucast lo"

lemma bit_u32_less: "bit (a :: u32) n \<Longrightarrow> n < 32"
  using bit_imp_le_length [of a n] by simp

lemma bit_pair: "bit (pair lo hi) n \<longleftrightarrow> (if n < 32 then bit lo n else n < 64 \<and> bit hi (n - 32))"
  unfolding pair_def by (auto simp: bit_simps dest: bit_u32_less)

lemma unat_ucast_64: "unat (ucast (a :: u32) :: u64) = unat a"
proof -
  have "unat a < 2 ^ 64" by (rule less_trans [OF unat_lt_32]) simp
  then show ?thesis by (simp add: unsigned_ucast_eq take_bit_nat_eq_self)
qed

lemma unat_pair: "unat (pair lo hi) = 2 ^ 32 * unat hi + unat lo"
proof -
  have "push_bit 32 (ucast hi) AND ucast lo = (0 :: u64)"
    by (rule bit_word_eqI) (auto simp: bit_simps dest: bit_u32_less)
  then have "pair lo hi = push_bit 32 (ucast hi) + ucast lo"
    unfolding pair_def by (rule disjunctive_add_eq_or [symmetric])
  moreover have "unat (push_bit 32 (ucast hi) :: u64) = 2 ^ 32 * unat hi"
  proof -
    have "2 ^ 32 * unat hi < 2 ^ 64" by simp
    then show ?thesis
      by (simp add: push_bit_eq_mult unat_word_ariths unat_ucast_64)
  qed
  moreover have "2 ^ 32 * unat hi + unat lo < 2 ^ 64"
  proof -
    have "unat hi \<le> 4294967295" "unat lo < 4294967296" using unat_lt_32_numeral [of hi] by (linarith, simp)
    then have "4294967296 * unat hi + unat lo < 18446744073709551616" by linarith
    then show ?thesis by simp
  qed
  ultimately show ?thesis
    by (simp add: unat_word_ariths unat_ucast_64)
qed

lemma pair_shift:
  assumes "b = 0 \<or> b = 1"
  shows "pair (push_bit 1 lo OR b) (push_bit 1 hi OR drop_bit 31 lo) = push_bit 1 (pair lo hi) OR ucast b"
proof (rule bit_word_eqI)
  fix n assume "n < LENGTH(64)"
  then have n: "n < 64" by simp
  have b: "bit b k \<longleftrightarrow> b = 1 \<and> k = 0" for k using assms by (auto simp: bit_1_iff)
  have "n = 0 \<or> 0 < n \<and> n < 32 \<or> n = 32 \<or> 32 < n" by linarith
  then show "bit (pair (push_bit 1 lo OR b) (push_bit 1 hi OR drop_bit 31 lo)) n = bit (push_bit 1 (pair lo hi) OR ucast b) n"
    unfolding bit_pair bit_or_iff bit_push_bit_iff bit_drop_bit_eq bit_unsigned_iff b comp_def
    using n by (auto dest: bit_u32_less simp: Suc_diff_le)
qed

lemma pair_top: "drop_bit 63 (pair lo hi) = ucast (drop_bit 31 hi)"
proof (rule bit_word_eqI)
  fix n
  show "bit (drop_bit 63 (pair lo hi)) n = bit (ucast (drop_bit 31 hi) :: u64) n"
    unfolding bit_drop_bit_eq bit_unsigned_iff comp_def bit_pair by (auto dest: bit_u32_less)
qed

section \<open>The same algorithm on 64-bit words\<close>

definition numer :: "regs \<Rightarrow> u64" where "numer s = pair (r0 s) (r1 s)"
definition denom :: "regs \<Rightarrow> u64" where "denom s = pair (r2 s) (r3 s)"
definition quot :: "regs \<Rightarrow> u64" where "quot s = pair (r4 s) (r5 s)"
definition rema :: "regs \<Rightarrow> u64" where "rema s = pair (r6 s) (r7 s)"

lemmas views = numer_def denom_def quot_def rema_def

definition shifted :: "u64 \<Rightarrow> u64 \<Rightarrow> u64" where
  "shifted r n = push_bit 1 r OR drop_bit 63 n"

lemma drop_31_bit: "drop_bit 31 (a :: u32) = 0 \<or> drop_bit 31 a = 1"
proof -
  have "unat (drop_bit 31 a) = unat a div 2 ^ 31" by (rule unat_drop_bit_div)
  moreover have "unat a div 2 ^ 31 < 2" by (rule less_mult_imp_div_less) simp
  ultimately have "unat (drop_bit 31 a) < 2" by (simp only:)
  then consider "unat (drop_bit 31 a) = 0" | "unat (drop_bit 31 a) = 1" by linarith
  then show ?thesis by cases (simp_all add: word_unat_eq_iff)
qed

lemma shift_in_views:
  "numer (shift_in s) = push_bit 1 (numer s)" "denom (shift_in s) = denom s"
  "quot (shift_in s) = push_bit 1 (quot s)" "rema (shift_in s) = shifted (rema s) (numer s)"
proof -
  show "numer (shift_in s) = push_bit 1 (numer s)"
    using pair_shift [of 0 "r0 s" "r1 s"] by (simp add: shift_in_def Let_def views)
  show "quot (shift_in s) = push_bit 1 (quot s)"
    using pair_shift [of 0 "r4 s" "r5 s"] by (simp add: shift_in_def Let_def views)
  show "rema (shift_in s) = shifted (rema s) (numer s)"
    using pair_shift [OF drop_31_bit, of "r6 s" "r1 s" "r7 s"]
    by (simp add: shift_in_def Let_def views shifted_def pair_top)
qed (simp add: shift_in_def Let_def views)

lemma pair_less: "pair a b < pair c d \<longleftrightarrow> b < d \<or> b = d \<and> a < c"
proof -
  have "2 ^ 32 * unat b + unat a < 2 ^ 32 * unat d + unat c \<longleftrightarrow> unat b < unat d \<or> unat b = unat d \<and> unat a < unat c"
  proof (cases "unat b" "unat d" rule: linorder_cases)
    case less
    then have "2 ^ 32 * unat b + 2 ^ 32 \<le> 2 ^ 32 * unat d" by simp
    then show ?thesis using less unat_lt_32 [of a] by linarith
  next
    case greater
    then have "2 ^ 32 * unat d + 2 ^ 32 \<le> 2 ^ 32 * unat b" by simp
    then show ?thesis using greater unat_lt_32 [of c] by linarith
  qed simp
  then show ?thesis unfolding word_less_nat_alt unat_pair by (simp add: word_unat_eq_iff)
qed

lemma pair_minus: "pair (a - c) (b - d - (if a < c then 1 else 0)) = pair a b - pair c d"
proof -
  have p: "pair x y = of_int (2 ^ 32 * uint y + uint x)" for x y
  proof -
    have "pair x y = of_nat (unat (pair x y))" by simp
    also have "\<dots> = of_int (2 ^ 32 * uint y + uint x)" unfolding unat_pair by (simp add: of_nat_unat)
    finally show ?thesis .
  qed
  have high: "of_int (2 ^ 32 * (x mod 2 ^ 32)) = (of_int (2 ^ 32 * x) :: u64)" for x
    unfolding word_of_int_eq_iff take_bit_eq_mod by (simp add: mult_mod_right)
  define k :: int where "k = (if a < c then 1 else 0)"
  have lo: "uint (a - c) = uint a - uint c + 2 ^ 32 * k"
    using uint_sub_if' [of a c] by (simp add: k_def word_less_def not_less)
  have "uint (b - d - (if a < c then 1 else 0)) = (uint b - uint d - k) mod 2 ^ 32"
    by (simp add: uint_word_ariths k_def mod_diff_left_eq)
  then have "pair (a - c) (b - d - (if a < c then 1 else 0)) =
      of_int (2 ^ 32 * ((uint b - uint d - k) mod 2 ^ 32)) + of_int (uint a - uint c + 2 ^ 32 * k)"
    unfolding p lo by (simp only: of_int_add)
  also have "\<dots> = of_int (2 ^ 32 * (uint b - uint d - k) + (uint a - uint c + 2 ^ 32 * k))"
    unfolding high by (simp only: of_int_add)
  also have "2 ^ 32 * (uint b - uint d - k) + (uint a - uint c + 2 ^ 32 * k) = (2 ^ 32 * uint b + uint a) - (2 ^ 32 * uint d + uint c)"
    by (simp add: algebra_simps)
  finally show ?thesis unfolding p [of a b] p [of c d] by (simp only: of_int_diff)
qed

lemma pair_set_bit:
  assumes "even lo"
  shows "pair (lo OR 1) hi = pair lo hi + 1"
proof -
  have "pair (lo OR 1) hi = pair lo hi OR 1"
    by (rule bit_word_eqI) (auto simp: bit_pair bit_or_iff bit_1_iff)
  moreover have "pair lo hi AND 1 = 0"
  proof -
    have "\<not> bit (pair lo hi) 0" using assms unfolding bit_pair by (simp add: bit_0)
    then show ?thesis by (simp add: bit_0 and_one_eq even_iff_mod_2_eq_zero)
  qed
  ultimately show ?thesis by (simp add: disjunctive_add_eq_or)
qed

lemma subtract_views:
  "numer (subtract s) = numer s" "denom (subtract s) = denom s"
  "rema (subtract s) = (if rema s < denom s then rema s else rema s - denom s)"
  "even (r4 s) \<Longrightarrow> quot (subtract s) = (if rema s < denom s then quot s else quot s + 1)"
proof -
  have c: "r7 s > r3 s \<or> (\<not> r7 s < r3 s \<and> \<not> r6 s < r2 s) \<longleftrightarrow> \<not> rema s < denom s"
    by (auto simp: rema_def denom_def pair_less)
  show "numer (subtract s) = numer s" "denom (subtract s) = denom s"
    by (simp_all add: subtract_def Let_def views)
  show "rema (subtract s) = (if rema s < denom s then rema s else rema s - denom s)"
    unfolding subtract_def c by (simp add: Let_def views pair_minus)
  show "even (r4 s) \<Longrightarrow> quot (subtract s) = (if rema s < denom s then quot s else quot s + 1)"
    unfolding subtract_def c by (simp add: Let_def views pair_set_bit)
qed

section \<open>Quotient and remainder\<close>

lemma unat_shl_1: "unat (push_bit 1 (a :: u64)) = (2 * unat a) mod 2 ^ 64"
  by (simp add: push_bit_eq_mult unat_word_ariths mult.commute)

lemma unat_shifted:
  assumes "unat r < 2 ^ 63"
  shows "unat (shifted r n) = 2 * unat r + unat n div 2 ^ 63"
proof -
  have top: "unat (drop_bit 63 n) = unat n div 2 ^ 63" by (rule unat_drop_bit_div)
  have "push_bit 1 r AND drop_bit 63 n = 0"
  proof (rule bit_word_eqI)
    fix i show "bit (push_bit 1 r AND drop_bit 63 n) i = bit (0 :: u64) i"
      unfolding bit_and_iff bit_push_bit_iff bit_drop_bit_eq comp_def by (auto dest: bit_imp_le_length)
  qed
  then have "shifted r n = push_bit 1 r + drop_bit 63 n"
    unfolding shifted_def by (rule disjunctive_add_eq_or [symmetric])
  moreover have "unat (push_bit 1 r) = 2 * unat r" unfolding unat_shl_1 using assms by simp
  moreover have "unat n div 2 ^ 63 < 2" by (rule less_mult_imp_div_less) (use unsigned_less [of n] in simp)
  then have "2 * unat r + unat n div 2 ^ 63 < 2 ^ 64" using assms by simp
  ultimately show ?thesis using top by (simp add: unat_word_ariths)
qed

text \<open>
  After \<open>k\<close> iterations the top \<open>k\<close> bits of the numerator have been divided. The remainder register never
  overflows on the shift, because what has been brought in is less than \<open>2 ^ k\<close>.
\<close>

definition div_inv :: "u64 \<Rightarrow> u64 \<Rightarrow> nat \<Rightarrow> regs \<Rightarrow> bool" where
  "div_inv n d k s \<longleftrightarrow> denom s = d \<and> unat (numer s) = (unat n * 2 ^ k) mod 2 ^ 64 \<and>
     unat (quot s) = unat n div 2 ^ (64 - k) div unat d \<and> unat (rema s) = unat n div 2 ^ (64 - k) mod unat d"

lemma next_bit:
  fixes n :: nat
  assumes "k < 64" "n < 2 ^ 64"
  shows "n div 2 ^ (64 - Suc k) = 2 * (n div 2 ^ (64 - k)) + ((n * 2 ^ k) mod 2 ^ 64) div 2 ^ 63"
proof -
  define j where "j = 63 - k"
  have k: "k = 63 - j" "j \<le> 63" "64 - Suc k = j" "64 - k = Suc j" using assms(1) by (auto simp: j_def)
  have "(n * 2 ^ k) mod 2 ^ 64 = 2 ^ k * (n mod 2 ^ Suc j)"
    using mult_mod_right [of "2 ^ k" n "2 ^ Suc j"] k by (simp add: mult.commute flip: power_add power_Suc)
  moreover have "(2 :: nat) ^ 63 = 2 ^ k * 2 ^ j" using k by (simp flip: power_add)
  ultimately have "(n * 2 ^ k) mod 2 ^ 64 div 2 ^ 63 = n mod 2 ^ Suc j div 2 ^ j" by (simp only: div_mult_mult1_if) simp
  also have "n mod 2 ^ Suc j = 2 ^ j * (n div 2 ^ j mod 2) + n mod 2 ^ j"
    using mod_mult2_eq [of n "2 ^ j" 2] by (simp only: power_Suc2)
  also have "\<dots> div 2 ^ j = n div 2 ^ j mod 2" by simp
  finally have "(n * 2 ^ k) mod 2 ^ 64 div 2 ^ 63 = n div 2 ^ j mod 2" .
  moreover have "n div 2 ^ Suc j = n div 2 ^ j div 2" by (simp only: power_Suc2 div_mult2_eq)
  ultimately show ?thesis unfolding k(3,4) by (simp only: mult_div_mod_eq)
qed

lemma div_step_nat:
  fixes d :: nat
  assumes "0 < d" "b < 2"
  shows "(2 * m + b) div d = (if 2 * (m mod d) + b < d then 2 * (m div d) else 2 * (m div d) + 1)"
    and "(2 * m + b) mod d = (if 2 * (m mod d) + b < d then 2 * (m mod d) + b else 2 * (m mod d) + b - d)"
proof -
  have eq: "2 * m + b = d * (2 * (m div d)) + (2 * (m mod d) + b)"
    using mult_div_mod_eq [of d m] by (metis add.assoc distrib_left mult.left_commute)
  have lt: "2 * (m mod d) + b < 2 * d" using assms mod_less_divisor [OF assms(1), of m] by linarith
  show "(2 * m + b) div d = (if 2 * (m mod d) + b < d then 2 * (m div d) else 2 * (m div d) + 1)"
    unfolding eq using assms lt by (auto simp: div_nat_eqI)
  show "(2 * m + b) mod d = (if 2 * (m mod d) + b < d then 2 * (m mod d) + b else 2 * (m mod d) + b - d)"
    unfolding eq mod_mult_self4 using assms lt by (auto simp: le_mod_geq)
qed

lemma even_r4_shift_in: "even (r4 (shift_in s))"
  by (simp add: shift_in_def Let_def)

lemma div_iter_inv:
  assumes inv: "div_inv n d k s" and k: "k < 64" and d: "d \<noteq> 0"
  shows "div_inv n d (Suc k) (div_iter s)"
proof -
  define N M D where "N = unat n" and "M = N div 2 ^ (64 - k)" and "D = unat d"
  define b where "b = (N * 2 ^ k) mod 2 ^ 64 div 2 ^ 63"
  have D: "0 < D" using d by (simp add: D_def unat_gt_0)
  have N: "N < 2 ^ 64" using unsigned_less [of n] by (simp add: N_def)
  have b: "b < 2" unfolding b_def by (rule less_mult_imp_div_less) simp
  have M: "M < 2 ^ 63"
  proof -
    have "M < 2 ^ k" unfolding M_def using k N by (intro less_mult_imp_div_less) (simp flip: power_add)
    also have "(2 :: nat) ^ k \<le> 2 ^ 63" using k by (intro power_increasing) auto
    finally show ?thesis .
  qed
  have s: "denom s = d" "unat (numer s) = (N * 2 ^ k) mod 2 ^ 64" "unat (quot s) = M div D" "unat (rema s) = M mod D"
    using inv by (auto simp: div_inv_def M_def N_def D_def)
  define t where "t = shift_in s"
  have t: "denom t = d" "unat (numer t) = (N * 2 ^ Suc k) mod 2 ^ 64" "unat (quot t) = 2 * (M div D)"
    "unat (rema t) = 2 * (M mod D) + b"
  proof -
    show "unat (numer t) = (N * 2 ^ Suc k) mod 2 ^ 64"
      unfolding t_def shift_in_views unat_shl_1 s by (simp add: mod_mult_right_eq ac_simps)
    have "M div D \<le> M" "M mod D \<le> M" by (simp_all add: div_le_dividend)
    then have "M div D < 2 ^ 63" "M mod D < 2 ^ 63" using M by (meson le_less_trans)+
    then show "unat (quot t) = 2 * (M div D)" "unat (rema t) = 2 * (M mod D) + b"
      unfolding t_def shift_in_views unat_shl_1 using M s unat_shifted [of "rema s" "numer s"] by (simp_all add: b_def)
  qed (simp add: t_def shift_in_views s)
  have less: "rema t < denom t \<longleftrightarrow> 2 * (M mod D) + b < D" using t by (simp add: word_less_nat_alt D_def)
  have Mk: "N div 2 ^ (64 - Suc k) = 2 * M + b" using next_bit [OF k N] by (simp add: M_def b_def)
  have "unat (quot (div_iter s)) = (2 * M + b) div D"
  proof -
    have "M div D < 2 ^ 63" using M div_le_dividend [of M D] by (rule le_less_trans [rotated])
    then have "2 * (M div D) + 1 < 2 ^ 64" by simp
    then show ?thesis
      using div_step_nat(1) [OF D b, of M] t less even_r4_shift_in [of s]
      by (simp add: div_iter_def subtract_views unat_word_ariths flip: t_def)
  qed
  moreover have "unat (rema (div_iter s)) = (2 * M + b) mod D"
    using div_step_nat(2) [OF D b, of M] t less
    by (simp add: div_iter_def subtract_views unat_sub word_le_nat_alt not_less word_less_nat_alt D_def flip: t_def)
  ultimately show ?thesis
    using t(1,2) unfolding div_inv_def N_def [symmetric] Mk D_def [symmetric]
    by (simp add: div_iter_def subtract_views flip: t_def)
qed

lemma uldivmod_iterations:
  assumes "d \<noteq> 0" "div_inv n d 0 s" "k \<le> 64"
  shows "div_inv n d k ((div_iter ^^ k) s)"
  using assms(3)
proof (induction k)
  case (Suc k)
  then show ?case using div_iter_inv [OF Suc.IH _ assms(1)] by simp
qed (use assms(2) in simp)

text \<open>C25: the register-level 64-bit division returns the quotient and the remainder of the two
  numbers, for every numerator and every denominator but 0.\<close>

theorem aeabi_uldivmod_correct:
  assumes "pair d_lo d_hi \<noteq> 0"
  shows "case aeabi_uldivmod n_lo n_hi d_lo d_hi of ((q_lo, q_hi), (r_lo, r_hi)) \<Rightarrow>
    pair q_lo q_hi = pair n_lo n_hi div pair d_lo d_hi \<and> pair r_lo r_hi = pair n_lo n_hi mod pair d_lo d_hi"
proof -
  let ?n = "pair n_lo n_hi" and ?d = "pair d_lo d_hi"
  define s0 where "s0 = \<lparr>r0 = n_lo, r1 = n_hi, r2 = d_lo, r3 = d_hi, r4 = 0, r5 = 0, r6 = 0, r7 = 0, r9 = 0\<rparr>"
  define s where "s = (div_iter ^^ 64) s0"
  have n: "unat ?n < 2 ^ 64" using unsigned_less [of ?n] by simp
  have "div_inv ?n ?d 0 s0" using n by (simp add: div_inv_def s0_def views pair_def)
  then have "div_inv ?n ?d 64 s" unfolding s_def using uldivmod_iterations [OF assms] by simp
  then have "unat (quot s) = unat ?n div unat ?d" "unat (rema s) = unat ?n mod unat ?d" by (simp_all add: div_inv_def)
  then have "quot s = ?n div ?d" "rema s = ?n mod ?d" by (simp_all add: word_unat_eq_iff unat_div unat_mod)
  moreover have "aeabi_uldivmod n_lo n_hi d_lo d_hi = ((r4 s, r5 s), (r6 s, r7 s))"
    by (simp add: aeabi_uldivmod_def Let_def s_def s0_def)
  ultimately show ?thesis by (simp add: quot_def rema_def)
qed

theorem aeabi_uldivmod_correct_witness:
  "case aeabi_uldivmod 5 1 7 0 of ((q_lo, q_hi), (r_lo, r_hi)) \<Rightarrow> pair r_lo r_hi = 2"
proof -
  have "pair 7 0 \<noteq> 0" by (simp add: pair_def)
  moreover have "pair 5 1 mod pair 7 0 = 2" by (simp add: pair_def)
  ultimately show ?thesis using aeabi_uldivmod_correct [of 7 0 5 1] by (auto split: prod.splits)
qed

end
