(* ===== verification/Leg_Virtio.thy ===== *)
theory Leg_Virtio
  imports Leg_Mm_State
begin

text \<open>
  The legacy virtio-mmio transport of \<^verbatim>\<open>include/kernel/dev/virtio.h\<close> and \<^verbatim>\<open>src/kernel/dev/virtio.c\<close>:
  register offsets, the structures of a virtqueue and the search for a device. Device registers are not
  memory of the kernel: reads are a parameter \<open>rd\<close>, writes are recorded in order as a trace.
\<close>

abbreviation (input) VIRTIO_MMIO_STRIDE :: u32 where "VIRTIO_MMIO_STRIDE \<equiv> 0x200"
abbreviation (input) VIRTIO_MMIO_COUNT :: nat where "VIRTIO_MMIO_COUNT \<equiv> 32"
abbreviation (input) VIRTIO_MMIO_IRQ_BASE :: u32 where "VIRTIO_MMIO_IRQ_BASE \<equiv> 48"
abbreviation (input) VIRTIO_MMIO_BASE :: u32 where "VIRTIO_MMIO_BASE \<equiv> 0xCF050000"
abbreviation (input) VIRTIO_MAGIC :: u32 where "VIRTIO_MAGIC \<equiv> 0x74726976"
abbreviation (input) VIRTIO_DEVICE_BLOCK :: u32 where "VIRTIO_DEVICE_BLOCK \<equiv> 2"
abbreviation (input) VIRTIO_DEVICE_INPUT :: u32 where "VIRTIO_DEVICE_INPUT \<equiv> 18"

abbreviation (input) VMIO_MAGIC :: u32 where "VMIO_MAGIC \<equiv> 0x000"
abbreviation (input) VMIO_DEVICE_ID :: u32 where "VMIO_DEVICE_ID \<equiv> 0x008"
abbreviation (input) VMIO_GUEST_FEAT :: u32 where "VMIO_GUEST_FEAT \<equiv> 0x020"
abbreviation (input) VMIO_GUEST_FEAT_SEL :: u32 where "VMIO_GUEST_FEAT_SEL \<equiv> 0x024"
abbreviation (input) VMIO_GUEST_PAGE_SIZE :: u32 where "VMIO_GUEST_PAGE_SIZE \<equiv> 0x028"
abbreviation (input) VMIO_QUEUE_SEL :: u32 where "VMIO_QUEUE_SEL \<equiv> 0x030"
abbreviation (input) VMIO_QUEUE_NUM_MAX :: u32 where "VMIO_QUEUE_NUM_MAX \<equiv> 0x034"
abbreviation (input) VMIO_QUEUE_NUM :: u32 where "VMIO_QUEUE_NUM \<equiv> 0x038"
abbreviation (input) VMIO_QUEUE_ALIGN :: u32 where "VMIO_QUEUE_ALIGN \<equiv> 0x03c"
abbreviation (input) VMIO_QUEUE_PFN :: u32 where "VMIO_QUEUE_PFN \<equiv> 0x040"
abbreviation (input) VMIO_QUEUE_NOTIFY :: u32 where "VMIO_QUEUE_NOTIFY \<equiv> 0x050"
abbreviation (input) VMIO_INT_STATUS :: u32 where "VMIO_INT_STATUS \<equiv> 0x060"
abbreviation (input) VMIO_INT_ACK :: u32 where "VMIO_INT_ACK \<equiv> 0x064"
abbreviation (input) VMIO_STATUS :: u32 where "VMIO_STATUS \<equiv> 0x070"

abbreviation (input) VSTAT_ACKNOWLEDGE :: u32 where "VSTAT_ACKNOWLEDGE \<equiv> 1"
abbreviation (input) VSTAT_DRIVER :: u32 where "VSTAT_DRIVER \<equiv> 2"
abbreviation (input) VSTAT_DRIVER_OK :: u32 where "VSTAT_DRIVER_OK \<equiv> 4"

abbreviation (input) VDESC_F_NEXT :: u16 where "VDESC_F_NEXT \<equiv> 1"
abbreviation (input) VDESC_F_WRITE :: u16 where "VDESC_F_WRITE \<equiv> 2"
abbreviation (input) QUEUE_SIZE :: nat where "QUEUE_SIZE \<equiv> 16"

record vq_desc_t =
  d_addr :: u64
  d_len :: u32
  d_flags :: u16
  d_next :: u16

record vq_used_elem_t =
  u_id :: u32
  u_len :: u32

text \<open>The three parts of a virtqueue, each with 16 entries; the device writes the used ring.\<close>

record virtqueue =
  vq_desc :: "vq_desc_t list"
  avail_flags :: u16
  avail_idx :: u16
  avail_ring :: "u16 list"
  used_flags :: u16
  used_idx :: u16
  used_ring :: "vq_used_elem_t list"

record virtio_input_event_t =
  ev_type :: u16
  ev_code :: u16
  ev_value :: u32

definition vq_wf :: "virtqueue \<Rightarrow> bool" where
  "vq_wf q \<longleftrightarrow> length (vq_desc q) = QUEUE_SIZE \<and> length (avail_ring q) = QUEUE_SIZE \<and> length (used_ring q) = QUEUE_SIZE"

type_synonym mmio_trace = "(u32 \<times> u32) list"

fun find_slot_from :: "(u32 \<Rightarrow> u32) \<Rightarrow> u32 \<Rightarrow> nat \<Rightarrow> nat \<Rightarrow> (u32 \<times> u32) option" where
  "find_slot_from rd device_id i 0 = None"
| "find_slot_from rd device_id i (Suc n) =
     (let base = VIRTIO_MMIO_BASE + w32 i * VIRTIO_MMIO_STRIDE
      in if rd (base + VMIO_MAGIC) \<noteq> VIRTIO_MAGIC then find_slot_from rd device_id (i + 1) n
         else if rd (base + VMIO_DEVICE_ID) \<noteq> device_id then find_slot_from rd device_id (i + 1) n
         else Some (base, VIRTIO_MMIO_IRQ_BASE + w32 i))"

text \<open>The base of the device (0 for none) and what is stored through \<open>out_irq\<close>, if anything.\<close>

definition virtio_find_device :: "(u32 \<Rightarrow> u32) \<Rightarrow> u32 \<Rightarrow> u32 \<times> u32 option" where
  "virtio_find_device rd device_id =
     (case find_slot_from rd device_id 0 VIRTIO_MMIO_COUNT of
        Some (base, irq) \<Rightarrow> (base, Some irq)
      | None \<Rightarrow> (0, None))"

text \<open>The part of the queue set-up that the keyboard and the block driver share: the register writes.\<close>

definition queue_regs :: "(u32 \<Rightarrow> u32) \<Rightarrow> u32 \<Rightarrow> u32 \<Rightarrow> u32 \<Rightarrow> mmio_trace" where
  "queue_regs rd kpb queue_mem base =
     (let qmax = rd (base + VMIO_QUEUE_NUM_MAX)
      in [(base + VMIO_GUEST_PAGE_SIZE, PAGE_SIZE), (base + VMIO_QUEUE_SEL, 0),
          (base + VMIO_QUEUE_NUM, if qmax < 16 then qmax else 16),
          (base + VMIO_QUEUE_ALIGN, PAGE_SIZE),
          (base + VMIO_QUEUE_PFN, drop_bit 12 (virt_to_phys kpb queue_mem))])"

section \<open>The search\<close>

definition slot_base :: "nat \<Rightarrow> u32" where
  "slot_base i = VIRTIO_MMIO_BASE + w32 i * VIRTIO_MMIO_STRIDE"

definition slot_holds :: "(u32 \<Rightarrow> u32) \<Rightarrow> u32 \<Rightarrow> nat \<Rightarrow> bool" where
  "slot_holds rd device_id i \<longleftrightarrow>
     rd (slot_base i + VMIO_MAGIC) = VIRTIO_MAGIC \<and> rd (slot_base i + VMIO_DEVICE_ID) = device_id"

lemma find_slot_from_cases:
  "case find_slot_from rd dev i n of
     Some (base, irq) \<Rightarrow> \<exists>k. i \<le> k \<and> k < i + n \<and> slot_holds rd dev k \<and> (\<forall>j. i \<le> j \<and> j < k \<longrightarrow> \<not> slot_holds rd dev j) \<and>
       base = slot_base k \<and> irq = VIRTIO_MMIO_IRQ_BASE + w32 k
   | None \<Rightarrow> \<forall>j. i \<le> j \<and> j < i + n \<longrightarrow> \<not> slot_holds rd dev j"
proof (induction n arbitrary: i)
  case (Suc n)
  show ?case
  proof (cases "slot_holds rd dev i")
    case True
    then show ?thesis by (auto simp: slot_holds_def slot_base_def Let_def intro!: exI [of _ i])
  next
    case False
    then have eq: "find_slot_from rd dev i (Suc n) = find_slot_from rd dev (Suc i) n"
      by (auto simp: slot_holds_def slot_base_def Let_def)
    have skip: "\<not> slot_holds rd dev j" if "i \<le> j" "\<not> Suc i \<le> j" for j
      using that False by (metis le_antisym not_less_eq_eq)
    show ?thesis
    proof (cases "find_slot_from rd dev (Suc i) n")
      case None
      then have "\<not> slot_holds rd dev j" if "Suc i \<le> j" "j < Suc i + n" for j using Suc [of "Suc i"] that by auto
      then have "\<not> slot_holds rd dev j" if "i \<le> j" "j < i + Suc n" for j using that skip [of j] by (cases "Suc i \<le> j") auto
      then show ?thesis using None eq by simp
    next
      case (Some r)
      then obtain k where "Suc i \<le> k" "k < Suc i + n" "slot_holds rd dev k" "\<forall>j. Suc i \<le> j \<and> j < k \<longrightarrow> \<not> slot_holds rd dev j"
          "r = (slot_base k, VIRTIO_MMIO_IRQ_BASE + w32 k)"
        using Suc [of "Suc i"] by (auto split: prod.splits)
      then show ?thesis using Some eq skip by (auto intro!: exI [of _ k])
    qed
  qed
qed auto

lemma slot_base_not_0: "i < 32 \<Longrightarrow> slot_base i \<noteq> 0"
proof -
  assume "i < 32"
  then have "unat (w32 i * 0x200) = i * 0x200" by (simp add: unat_word_ariths unat_w32)
  then have "unat (slot_base i) = 0xCF050000 + i * 0x200"
    using \<open>i < 32\<close> unat_add_no_wrap [of "0xCF050000" "w32 i * 0x200"] by (simp add: slot_base_def)
  then show ?thesis by (metis add_eq_0_iff_both_eq_0 unsigned_0 zero_neq_numeral)
qed

text \<open>The device found is the one in the first slot that holds it, and 0 means that no slot does.\<close>

lemma virtio_find_device_first:
  "case virtio_find_device rd dev of (base, irq) \<Rightarrow>
     if base = 0 then irq = None \<and> (\<forall>j < 32. \<not> slot_holds rd dev j)
     else \<exists>k < 32. slot_holds rd dev k \<and> (\<forall>j < k. \<not> slot_holds rd dev j) \<and> base = slot_base k \<and> irq = Some (48 + w32 k)"
  using find_slot_from_cases [where rd = rd and dev = dev and i = 0 and n = 32] slot_base_not_0
  by (auto simp: virtio_find_device_def split: option.splits prod.splits)

end
