(* ===== verification/Leg_Tty.thy ===== *)
theory Leg_Tty
  imports Leg_Cstring
begin

text \<open>
  The line discipline of \<^verbatim>\<open>src/kernel/tty.c\<close>: interrupt handlers put characters into a ring of 256 bytes,
  and readers take a line or a character out. The characters printed to the framebuffer are kept as a
  list. A reader that would spin for an interrupt answers \<open>Waits\<close> (in the state in which it spins), and a
  read outside the ring is \<open>Out_of_bounds\<close>.
\<close>

section \<open>State\<close>

abbreviation (input) LINE_BUF_SIZE :: u32 where "LINE_BUF_SIZE \<equiv> 256"

record tty_state =
  line_buf :: "u8 list"
  line_len :: u32
  line_ready :: bool
  line_start :: u32
  echo_chars :: bool
  tty_out :: "u8 list"

datatype 'a access = Done 'a | Waits | Out_of_bounds

section \<open>Operations\<close>

definition tty_putchar :: "u8 \<Rightarrow> tty_state \<Rightarrow> tty_state" where
  "tty_putchar c s = s\<lparr>tty_out := tty_out s @ [c]\<rparr>"

definition tty_input :: "u8 \<Rightarrow> tty_state \<Rightarrow> tty_state" where
  "tty_input c s =
     (let c = (if c = 13 then 10 else c)
      in if c = 8 \<or> c = 127
         then (if line_len s > 0
               then tty_putchar 8 (tty_putchar 32 (tty_putchar 8 (s\<lparr>line_len := line_len s - 1\<rparr>)))
               else s)
         else
           let s = (if echo_chars s then tty_putchar c s else s);
               s = (if line_len s < LINE_BUF_SIZE - 1
                    then s\<lparr>line_buf := (line_buf s)[unat ((line_start s + line_len s) mod LINE_BUF_SIZE) := c],
                           line_len := line_len s + 1\<rparr>
                    else s)
           in if c = 10 then s\<lparr>line_ready := True\<rparr> else s)"

definition copy_line :: "u32 \<Rightarrow> tty_state \<Rightarrow> mem \<Rightarrow> mem" where
  "copy_line buf s m =
     fold (\<lambda>i m. m(buf + w32 i := line_buf s ! unat ((line_start s + w32 i) mod LINE_BUF_SIZE)))
       [0..<unat (line_len s)] m"

definition tty_readline :: "u32 \<Rightarrow> u32 \<Rightarrow> tty_state \<times> mem \<Rightarrow> u32 access \<times> tty_state \<times> mem" where
  "tty_readline buf cap sm =
     (let (s, m) = sm; s = s\<lparr>echo_chars := True\<rparr>
      in if \<not> line_ready s then (Waits, s, m)
         else if line_len s = 0 then (Done 0, s\<lparr>line_ready := False, echo_chars := False\<rparr>, m)
         else
           let n = (if line_len s < cap - 1 then line_len s - 1 else cap - 1);
               m = (copy_line buf s m)(buf + n := 0)
           in (Done n,
               s\<lparr>line_start := (line_start s + line_len s) mod LINE_BUF_SIZE, line_len := 0,
                 line_ready := False, echo_chars := False\<rparr>, m))"

definition take_char :: "tty_state \<Rightarrow> u8 access \<times> tty_state" where
  "take_char s =
     (if line_start s < LINE_BUF_SIZE
      then (Done (line_buf s ! unat (line_start s)),
            s\<lparr>line_start := line_start s + 1, line_len := line_len s - 1\<rparr>)
      else (Out_of_bounds, s))"

definition tty_getchar :: "tty_state \<Rightarrow> u8 access \<times> tty_state" where
  "tty_getchar s = (if line_len s = 0 then (Waits, s) else take_char s)"

definition tty_getchar_nb :: "tty_state \<Rightarrow> u8 access \<times> tty_state" where
  "tty_getchar_nb s = (if line_len s = 0 then (Done 0, s) else take_char s)"

section \<open>The ring as a queue\<close>

definition ring_idx :: "tty_state \<Rightarrow> nat \<Rightarrow> nat" where
  "ring_idx s i = unat ((line_start s + w32 i) mod LINE_BUF_SIZE)"

definition pending :: "tty_state \<Rightarrow> u8 list" where
  "pending s = map (\<lambda>i. line_buf s ! ring_idx s i) [0..<unat (line_len s)]"

definition tty_inv :: "tty_state \<Rightarrow> bool" where
  "tty_inv s \<longleftrightarrow> length (line_buf s) = 256 \<and> unat (line_len s) < 256"

lemma ring_idx_nat: "ring_idx s i = (unat (line_start s) + i) mod 256"
proof -
  have "unat (line_start s + w32 i) = (unat (line_start s) + i) mod 2 ^ 32"
    by (simp add: unat_word_ariths unat_of_nat take_bit_nat_def mod_add_right_eq)
  then have "ring_idx s i = (unat (line_start s) + i) mod 2 ^ 32 mod 256"
    by (simp add: ring_idx_def unat_mod)
  then show ?thesis by (simp only: mod_mod_cancel [of 256 "2 ^ 32"]) (simp add: mod_mod_cancel)
qed

lemma ring_idx_less: "ring_idx s i < 256"
  by (simp add: ring_idx_nat)

lemma ring_idx_inj: "i < 256 \<Longrightarrow> j < 256 \<Longrightarrow> ring_idx s i = ring_idx s j \<Longrightarrow> i = j"
  unfolding ring_idx_nat by (simp only: add_mod_inj)

lemma pending_length [simp]: "length (pending s) = unat (line_len s)"
  by (simp add: pending_def)

lemma pending_nth: "i < unat (line_len s) \<Longrightarrow> pending s ! i = line_buf s ! ring_idx s i"
  by (simp add: pending_def)

lemma pending_cong:
  assumes "line_buf s' = line_buf s" "line_start s' = line_start s" "line_len s' = line_len s"
  shows "pending s' = pending s"
  using assms by (simp add: pending_def ring_idx_def)

lemma tty_putchar_fields [simp]:
  "line_buf (tty_putchar c s) = line_buf s" "line_start (tty_putchar c s) = line_start s"
  "line_len (tty_putchar c s) = line_len s" "line_ready (tty_putchar c s) = line_ready s"
  "echo_chars (tty_putchar c s) = echo_chars s" "pending (tty_putchar c s) = pending s"
  by (simp_all add: tty_putchar_def pending_def ring_idx_def)

text \<open>What an input character does to the queue: editing keys remove its end, other characters extend it while there is room.\<close>

definition input_queue :: "u8 \<Rightarrow> u8 list \<Rightarrow> u8 list" where
  "input_queue c q =
     (if c = 8 \<or> c = 127 then butlast q
      else if length q < 255 then q @ [if c = 13 then 10 else c] else q)"

lemma pending_append:
  assumes "tty_inv s" "unat (line_len s) < 255"
  shows "pending (s\<lparr>line_buf := (line_buf s)[ring_idx s (unat (line_len s)) := c], line_len := line_len s + 1\<rparr>) = pending s @ [c]"
proof -
  let ?s = "s\<lparr>line_buf := (line_buf s)[ring_idx s (unat (line_len s)) := c], line_len := line_len s + 1\<rparr>"
  have len: "unat (line_len s + 1) = Suc (unat (line_len s))"
    using assms(2) unat_add_no_wrap [of "line_len s" 1] by simp
  have "ring_idx ?s i = ring_idx s i" for i by (simp add: ring_idx_def)
  moreover have "ring_idx s (unat (line_len s)) \<noteq> ring_idx s i" if "i < unat (line_len s)" for i
    using ring_idx_inj [of i "unat (line_len s)" s] that assms(2) by auto
  ultimately show ?thesis
    using assms(1) ring_idx_less [of s "unat (line_len s)"] by (simp add: pending_def len tty_inv_def)
qed

lemma pending_drop_last:
  assumes "0 < unat (line_len s)"
  shows "pending (s\<lparr>line_len := line_len s - 1\<rparr>) = butlast (pending s)"
proof -
  have "unat (line_len s - 1) = unat (line_len s) - 1"
    using assms by (simp add: unat_sub word_le_nat_alt Suc_le_eq)
  moreover obtain k where "unat (line_len s) = Suc k" using assms by (cases "unat (line_len s)") auto
  ultimately show ?thesis by (simp add: pending_def ring_idx_def)
qed

lemma tty_input_queue:
  assumes "tty_inv s"
  shows "tty_inv (tty_input c s)" "pending (tty_input c s) = input_queue c (pending s)"
    "line_ready (tty_input c s) \<longleftrightarrow> line_ready s \<or> c = 10 \<or> c = 13" "line_start (tty_input c s) = line_start s"
proof -
  have len: "0 < line_len s \<longleftrightarrow> 0 < unat (line_len s)" "line_len s < 255 \<longleftrightarrow> unat (line_len s) < 255"
    by (simp_all add: word_less_nat_alt unat_gt_0)
  have empty: "unat (line_len s) = 0 \<Longrightarrow> pending s = []" by (simp add: pending_def)
  have dec: "unat (line_len s - 1) = unat (line_len s) - 1" if "0 < unat (line_len s)"
    using that by (simp add: unat_sub word_le_nat_alt Suc_le_eq)
  have inc: "unat (line_len s + 1) = Suc (unat (line_len s))" if "unat (line_len s) < 255"
    using that unat_add_no_wrap [of "line_len s" 1] by simp
  note pos = ring_idx_def [of s "unat (line_len s)", simplified, symmetric]
  note app = pending_append [OF assms]
  have "tty_inv (tty_input c s) \<and> pending (tty_input c s) = input_queue c (pending s) \<and>
    (line_ready (tty_input c s) \<longleftrightarrow> line_ready s \<or> c = 10 \<or> c = 13) \<and> line_start (tty_input c s) = line_start s"
  proof (cases "c = 8 \<or> c = 127")
    case True
    then show ?thesis
      using assms dec empty pending_drop_last [of s] by (auto simp: tty_input_def Let_def len tty_inv_def input_queue_def)
  next
    case False
    define s1 where "s1 = (if echo_chars s then tty_putchar (if c = 13 then 10 else c) s else s)"
    have s1: "line_buf s1 = line_buf s" "line_start s1 = line_start s" "line_len s1 = line_len s"
      "line_ready s1 = line_ready s" "pending s1 = pending s"
      by (simp_all add: s1_def)
    have eq: "tty_input c s =
        (let t = (if unat (line_len s) < 255
                  then s1\<lparr>line_buf := (line_buf s1)[ring_idx s1 (unat (line_len s1)) := if c = 13 then 10 else c],
                          line_len := line_len s1 + 1\<rparr> else s1)
         in if c = 10 \<or> c = 13 then t\<lparr>line_ready := True\<rparr> else t)"
      using False by (simp add: tty_input_def Let_def s1 len ring_idx_def flip: s1_def)
    have inv1: "tty_inv s1" using assms s1 by (simp add: tty_inv_def)
    note app1 = pending_append [OF inv1, of "if c = 13 then 10 else c"]
    have ready: "pending (t\<lparr>line_ready := True\<rparr>) = pending t" for t by (simp add: pending_def ring_idx_def)
    show ?thesis
      using False assms inv1 app1 s1 inc unfolding eq Let_def
      by (auto simp: tty_inv_def input_queue_def ready)
  qed
  then show "tty_inv (tty_input c s)" "pending (tty_input c s) = input_queue c (pending s)"
    "line_ready (tty_input c s) \<longleftrightarrow> line_ready s \<or> c = 10 \<or> c = 13" "line_start (tty_input c s) = line_start s"
    by auto
qed

section \<open>Readers\<close>

lemma copy_line_bytes:
  assumes "tty_inv s"
  shows "i < unat (line_len s) \<Longrightarrow> copy_line buf s m (buf + w32 i) = pending s ! i"
    and "(\<forall>i < unat (line_len s). b \<noteq> buf + w32 i) \<Longrightarrow> copy_line buf s m b = m b"
proof -
  define cp where "cp n = fold (\<lambda>i m. m(buf + w32 i := line_buf s ! ring_idx s i)) [0..<n] m" for n
  have "(\<forall>i < n. cp n (buf + w32 i) = line_buf s ! ring_idx s i) \<and> (\<forall>b. (\<forall>i < n. b \<noteq> buf + w32 i) \<longrightarrow> cp n b = m b)"
    if "n \<le> 256" for n
    using that
  proof (induction n)
    case (Suc n)
    then have "w32 i \<noteq> w32 n" if "i < n" for i using that w32_eq_iff [of i n] by auto
    then show ?case using Suc by (auto simp: cp_def less_Suc_eq)
  qed (simp add: cp_def)
  from this [of "unat (line_len s)"] assms have
    "\<forall>i < unat (line_len s). cp (unat (line_len s)) (buf + w32 i) = line_buf s ! ring_idx s i"
    "\<forall>b. (\<forall>i < unat (line_len s). b \<noteq> buf + w32 i) \<longrightarrow> cp (unat (line_len s)) b = m b"
    by (auto simp: tty_inv_def)
  moreover have "copy_line buf s m = cp (unat (line_len s))" by (simp add: copy_line_def cp_def ring_idx_def)
  ultimately show "i < unat (line_len s) \<Longrightarrow> copy_line buf s m (buf + w32 i) = pending s ! i"
    "(\<forall>i < unat (line_len s). b \<noteq> buf + w32 i) \<Longrightarrow> copy_line buf s m b = m b"
    by (auto simp: pending_nth)
qed

lemma tty_inputs_queue:
  assumes "tty_inv s"
  shows "tty_inv (fold tty_input cs s) \<and> pending (fold tty_input cs s) = fold input_queue cs (pending s) \<and>
    (line_ready (fold tty_input cs s) \<longleftrightarrow> line_ready s \<or> 10 \<in> set cs \<or> 13 \<in> set cs) \<and>
    line_start (fold tty_input cs s) = line_start s"
  using assms
proof (induction cs arbitrary: s)
  case (Cons c cs)
  show ?case using Cons.IH [of "tty_input c s"] tty_input_queue [OF Cons.prems, of c] by auto
qed simp

definition tty0 :: tty_state where
  "tty0 = \<lparr>line_buf = replicate 256 0, line_len = 0, line_ready = False, line_start = 0, echo_chars = False, tty_out = []\<rparr>"

lemma tty0_inv: "tty_inv tty0" "pending tty0 = []"
  by (simp_all add: tty_inv_def tty0_def pending_def)

text \<open>C24: the line discipline is a queue with editing keys: after any sequence of input characters with a line end
  among them, \<open>tty_readline\<close> with enough room returns the characters that the editing has left, without the last
  one, as a terminated string, and empties the queue.\<close>

theorem tty_line_correct:
  assumes inv: "tty_inv s" and line: "10 \<in> set cs \<or> 13 \<in> set cs"
    and q: "q = fold input_queue cs (pending s)" "q \<noteq> []" "0 \<notin> set q" and room: "length q + 1 < unat cap"
  shows "case tty_readline buf cap (fold tty_input cs s, m) of (r, t, m') \<Rightarrow>
    r = Done (w32 (length q - 1)) \<and> cstr_at m' buf (butlast q) \<and> tty_inv t \<and> pending t = [] \<and> \<not> line_ready t \<and>
    (\<forall>b. (\<forall>i < length q. b \<noteq> buf + w32 i) \<longrightarrow> m' b = m b)"
proof -
  define t where "t = (fold tty_input cs s)\<lparr>echo_chars := True\<rparr>"
  have ready: "line_ready (fold tty_input cs s)" using tty_inputs_queue [OF inv, of cs] line by simp
  have t: "tty_inv t" "pending t = q"
    using tty_inputs_queue [OF inv, of cs] line by (auto simp: t_def q tty_inv_def pending_def ring_idx_def)
  have len: "unat (line_len t) = length q" using t(2) by (metis pending_length)
  then have pos: "line_len t \<noteq> 0" "line_len t < cap - 1" "length q < 256"
    using q(2) room t(1) by (auto simp: word_less_nat_alt unat_sub word_le_nat_alt tty_inv_def)
  have n: "line_len t - 1 = w32 (length q - 1)"
  proof -
    have "w32 (length q - 1) = w32 (length q) - 1" using q(2) by (simp add: of_nat_diff Suc_le_eq)
    then show ?thesis by (simp flip: len)
  qed
  define m' where "m' = (copy_line buf t m)(buf + w32 (length q - 1) := 0)"
  have "tty_readline buf cap (fold tty_input cs s, m) =
    (Done (w32 (length q - 1)),
     t\<lparr>line_start := (line_start t + line_len t) mod 256, line_len := 0, line_ready := False, echo_chars := False\<rparr>, m')"
    using ready pos n by (simp add: tty_readline_def Let_def m'_def flip: t_def)
  moreover have "cstr_at m' buf (butlast q)"
  proof (rule cstr_at_bytes)
    have "w32 k \<noteq> w32 (length q - 1)" if "k < length q - 1" for k
      using that pos(3) w32_eq_iff [of k "length q - 1"] by simp
    then show "\<forall>k < length (butlast q). m' (buf + w32 k) = butlast q ! k"
      using copy_line_bytes(1) [OF t(1), of _ buf m] len by (auto simp: m'_def nth_butlast t(2))
    show "0 \<notin> set (butlast q)" using q(3) in_set_butlastD by metis
  qed (simp add: m'_def)
  moreover have "m' b = m b" if "\<forall>i < length q. b \<noteq> buf + w32 i" for b
    using that q(2) copy_line_bytes(2) [OF t(1), of b buf m] len by (auto simp: m'_def)
  ultimately show ?thesis using t(1) by (simp add: tty_inv_def pending_def)
qed

theorem tty_line_correct_witness:
  "case tty_readline 0x100 80 (fold tty_input [108, 120, 127, 115, 13] tty0, \<lambda>_. 0) of (r, t, m') \<Rightarrow>
    r = Done 2 \<and> cstr_at m' 0x100 [108, 115]"
proof -
  have "fold input_queue [108, 120, 127, 115, 13] (pending tty0) = [108, 115, 10]" by (simp add: tty0_inv input_queue_def)
  then show ?thesis
    using tty_line_correct [OF tty0_inv(1), of "[108, 120, 127, 115, 13]" "[108, 115, 10]" 80 "0x100" "\<lambda>_. 0"] by auto
qed

text \<open>The size that the caller of \<open>tty_readline\<close> gives limits only the place of the terminator: whenever the
  line is not shorter than \<open>cap - 1\<close>, every character of it is still written, also behind the end of the buffer,
  and the returned length is \<open>cap - 1\<close>.\<close>

theorem tty_readline_overruns:
  assumes "tty_inv s" "line_ready s" "0 < cap" "unat cap \<le> length (pending s) + 1" "pending s \<noteq> []"
  shows "\<exists>t m'. tty_readline buf cap (s, m) = (Done (cap - 1), t, m') \<and>
    (\<forall>i < length (pending s). i \<noteq> unat (cap - 1) \<longrightarrow> m' (buf + w32 i) = pending s ! i)"
proof -
  define t where "t = s\<lparr>echo_chars := True\<rparr>"
  have t: "tty_inv t" "pending t = pending s" "line_ready t" "line_len t = line_len s"
    using assms(1,2) by (simp_all add: t_def tty_inv_def pending_def ring_idx_def)
  have cap: "unat (cap - 1) = unat cap - 1" using assms(3) by (simp add: unat_sub word_le_nat_alt Suc_le_eq word_less_nat_alt)
  then have full: "\<not> line_len t < cap - 1" using assms(4) t(4) by (simp add: word_less_nat_alt not_less)
  have pos: "line_len t \<noteq> 0" using assms(5) t(4) by (auto simp: pending_def)
  have "tty_readline buf cap (s, m) = (Done (cap - 1),
      t\<lparr>line_start := (line_start t + line_len t) mod 256, line_len := 0, line_ready := False, echo_chars := False\<rparr>,
      (copy_line buf t m)(buf + (cap - 1) := 0))"
    using assms(2) full pos by (simp add: tty_readline_def Let_def flip: t_def)
  moreover have "((copy_line buf t m)(buf + (cap - 1) := 0)) (buf + w32 i) = pending s ! i"
    if i: "i < length (pending s)" "i \<noteq> unat (cap - 1)" for i
  proof -
    have "i < 2 ^ 32" using i(1) unat_lt_32 [of "line_len s"] unfolding pending_length by (rule less_trans)
    then have "w32 i \<noteq> cap - 1" using i(2) unat_w32 [of i] by auto
    then show ?thesis using copy_line_bytes(1) [OF t(1), of i buf m] i(1) t(2,4) by simp
  qed
  ultimately show ?thesis by auto
qed

theorem tty_readline_overruns_witness:
  "\<exists>t m'. tty_readline 0x100 2 (fold tty_input [97, 98, 99, 10] tty0, \<lambda>_. 0) = (Done 1, t, m') \<and> m' 0x102 = 99"
proof -
  define s where "s = fold tty_input [97, 98, 99, 10] tty0"
  have q: "pending s = [97, 98, 99, 10]" "tty_inv s" "line_ready s"
    using tty_inputs_queue [OF tty0_inv(1), of "[97, 98, 99, 10]"] by (simp_all add: s_def tty0_inv input_queue_def)
  then obtain t m' where r: "tty_readline 0x100 2 (s, \<lambda>_. 0) = (Done 1, t, m')"
    and b: "\<forall>i < 4. i \<noteq> 1 \<longrightarrow> m' (0x100 + w32 i) = [97, 98, 99, 10] ! i"
    using tty_readline_overruns [of s 2 "0x100" "\<lambda>_. 0"] by (auto simp: q(1) simp del: pending_length)
  from b [rule_format, of 2] have "m' 0x102 = 99" by simp
  with r show ?thesis unfolding s_def by blast
qed

text \<open>One character typed and read; the start of the ring advances without being reduced.\<close>

definition type_and_get :: "tty_state \<Rightarrow> tty_state" where
  "type_and_get s = snd (tty_getchar (tty_input 97 s))"

lemma type_and_get_start:
  assumes "tty_inv s" "line_len s = 0" "line_start s < 256"
  shows "tty_inv (type_and_get s)" "line_len (type_and_get s) = 0" "line_start (type_and_get s) = line_start s + 1"
proof -
  note i = tty_input_queue [OF assms(1), of 97]
  have "pending (tty_input 97 s) = [97]" using i(2) assms(2) by (simp add: input_queue_def pending_def)
  then have "unat (line_len (tty_input 97 s)) = 1" by (metis One_nat_def length_Cons list.size(3) pending_length)
  then have "line_len (tty_input 97 s) = 1" by (simp add: word_unat_eq_iff)
  then show "tty_inv (type_and_get s)" "line_len (type_and_get s) = 0" "line_start (type_and_get s) = line_start s + 1"
    using i(1,4) assms(3) by (simp_all add: type_and_get_def tty_getchar_def take_char_def tty_inv_def)
qed

text \<open>\<open>tty_getchar\<close> advances the start of the ring without reducing it modulo the size, so after 256 characters
  that are typed and read one by one the next character is read outside the ring.\<close>

theorem tty_getchar_leaves_ring: "fst (tty_getchar (tty_input c ((type_and_get ^^ 256) tty0))) = Out_of_bounds \<or> c = 8 \<or> c = 127"
proof (cases "c = 8 \<or> c = 127")
  case False
  define s where "s = (type_and_get ^^ 256) tty0"
  have "tty_inv ((type_and_get ^^ k) tty0) \<and> line_len ((type_and_get ^^ k) tty0) = 0 \<and> line_start ((type_and_get ^^ k) tty0) = w32 k"
    if "k \<le> 256" for k
    using that
  proof (induction k)
    case (Suc k)
    then have "w32 k < 256" using w32_less_iff [of k 256] by simp
    then show ?case using Suc type_and_get_start [of "(type_and_get ^^ k) tty0"] by (simp add: add.commute)
  qed (simp add: tty0_inv, simp add: tty0_def)
  from this [of 256] have s: "tty_inv s" "line_len s = 0" "line_start s = 256" by (simp_all add: s_def)
  note i = tty_input_queue [OF s(1), of c]
  have "pending (tty_input c s) \<noteq> []" using i(2) s(2) False by (simp add: input_queue_def pending_def)
  then have "line_len (tty_input c s) \<noteq> 0" by (auto simp: pending_def)
  then show ?thesis using i(4) s(3) by (simp add: tty_getchar_def take_char_def flip: s_def)
qed simp

end
