(* ===== verification/Leg_Kbd.thy ===== *)
theory Leg_Kbd
  imports Leg_Virtio Leg_Tty
begin

text \<open>
  The keyboard driver \<^verbatim>\<open>src/kernel/dev/kbd.c\<close>: key events become characters for the line discipline, and
  the interrupt handler drains the used ring of the device's event queue and hands every buffer back.
\<close>

section \<open>State\<close>

abbreviation (input) EV_KEY :: u16 where "EV_KEY \<equiv> 1"
abbreviation (input) KEY_LEFTSHIFT :: u16 where "KEY_LEFTSHIFT \<equiv> 42"
abbreviation (input) KEY_RIGHTSHIFT :: u16 where "KEY_RIGHTSHIFT \<equiv> 54"

record kbd_state =
  g_shift :: bool
  kbd_tty :: tty_state
  g_queue :: virtqueue
  g_events :: "virtio_input_event_t list"
  g_last_used_idx :: u16
  kbd_irq :: u32
  g_virtio_base :: u32
  kbd_mmio :: mmio_trace

section \<open>Key codes\<close>

definition keymap_lower :: "u8 list" where
  "keymap_lower =
     [0, 0] @ ascii ''12345'' @ ascii ''67890'' @ [45, 61, 8, 9] @ ascii ''qwert'' @ ascii ''yuiop'' @
     [91, 93, 10, 0] @ ascii ''asdfg'' @ ascii ''hjkl'' @ [59, 39, 96, 0, 92] @ ascii ''zxcvb'' @
     ascii ''nm,./'' @ [0, 42, 0, 32]"

definition keymap_upper :: "u8 list" where
  "keymap_upper =
     [0, 0, 33, 64, 35, 36, 37, 94, 38, 42, 40, 41, 95, 43, 8,
      9] @ ascii ''QWERTYUIOP'' @ [123, 125, 10, 0] @
     ascii ''ASDFGHJKL'' @ [58, 34, 126, 0, 124] @ ascii ''Z'' @
     ascii ''XCVBNM'' @ [60, 62, 63, 0, 42, 0, 32]"

definition handle_kbd_event :: "virtio_input_event_t \<Rightarrow> kbd_state \<Rightarrow> kbd_state" where
  "handle_kbd_event ev s =
     (if ev_type ev = EV_KEY
      then if ev_code ev = KEY_LEFTSHIFT \<or> ev_code ev = KEY_RIGHTSHIFT
           then s\<lparr>g_shift := (ev_value ev \<noteq> 0)\<rparr>
           else if (ev_value ev = 1 \<or> ev_value ev = 2) \<and> ev_code ev < 58
           then
             let c = (if g_shift s then keymap_upper else keymap_lower) ! unat (ev_code ev)
             in if c \<noteq> 0 then s\<lparr>kbd_tty := tty_input c (kbd_tty s)\<rparr> else s
           else s
      else s)"

definition kbd_handle_char :: "u8 \<Rightarrow> kbd_state \<Rightarrow> kbd_state" where
  "kbd_handle_char c s = s\<lparr>kbd_tty := tty_input c (kbd_tty s)\<rparr>"

section \<open>The event queue\<close>

text \<open>
  A descriptor number outside the table of events is an access out of bounds. The loop ends when the
  driver has caught up with the device.
\<close>

definition vq_give_back :: "u32 \<Rightarrow> virtqueue \<Rightarrow> virtqueue" where
  "vq_give_back desc_id q =
     q\<lparr>avail_ring := (avail_ring q)[unat (avail_idx q) mod QUEUE_SIZE := ucast desc_id],
       avail_idx := avail_idx q + 1\<rparr>"

partial_function (option) kbd_drain :: "kbd_state \<Rightarrow> (unit access \<times> kbd_state) option" where
  "kbd_drain s =
     (if g_last_used_idx s \<noteq> used_idx (g_queue s)
      then
        let desc_id = u_id (used_ring (g_queue s) ! (unat (g_last_used_idx s) mod QUEUE_SIZE))
        in if unat desc_id < QUEUE_SIZE
           then
             let s = handle_kbd_event (g_events s ! unat desc_id) s
             in kbd_drain (s\<lparr>g_queue := vq_give_back desc_id (g_queue s),
                             g_last_used_idx := g_last_used_idx s + 1\<rparr>)
           else Some (Out_of_bounds, s)
      else Some (Done (), s))"

definition kbd_irq_handler :: "(u32 \<Rightarrow> u32) \<Rightarrow> kbd_state \<Rightarrow> (unit access \<times> kbd_state) option" where
  "kbd_irq_handler rd s =
     (let base = g_virtio_base s; isr = rd (base + VMIO_INT_STATUS);
          s = s\<lparr>kbd_mmio := kbd_mmio s @ [(base + VMIO_INT_ACK, isr)]\<rparr>
      in map_option (\<lambda>(r, s).
           (r, if r = Done () then s\<lparr>kbd_mmio := kbd_mmio s @ [(base + VMIO_QUEUE_NOTIFY, 0)]\<rparr> else s)) (kbd_drain s))"

definition setup_eventq :: "(u32 \<Rightarrow> u32) \<Rightarrow> u32 \<Rightarrow> u32 \<Rightarrow> u32 \<Rightarrow> u32 \<Rightarrow> kbd_state \<Rightarrow> kbd_state" where
  "setup_eventq rd kpb queue_mem events_va base s =
     s\<lparr>g_queue := (g_queue s)\<lparr>
         vq_desc := map (\<lambda>i. \<lparr>d_addr = ucast (virt_to_phys kpb (events_va + 8 * w32 i)), d_len = 8,
                              d_flags = VDESC_F_WRITE, d_next = 0\<rparr>) [0..<QUEUE_SIZE],
         avail_ring := map of_nat [0..<QUEUE_SIZE],
         avail_flags := 0, avail_idx := 16, used_flags := 0, used_idx := 0\<rparr>,
       kbd_mmio := kbd_mmio s @ queue_regs rd kpb queue_mem base\<rparr>"

definition kbd_init :: "(u32 \<Rightarrow> u32) \<Rightarrow> u32 \<Rightarrow> u32 \<Rightarrow> u32 \<Rightarrow> kbd_state \<Rightarrow> kbd_state" where
  "kbd_init rd kpb queue_mem events_va s =
     (let (base, irq) = virtio_find_device rd VIRTIO_DEVICE_INPUT;
          s = (case irq of Some i \<Rightarrow> s\<lparr>kbd_irq := i\<rparr> | None \<Rightarrow> s)
      in if base = 0 then s
         else
           let s = s\<lparr>g_virtio_base := base, kbd_mmio := kbd_mmio s @
                 [(base + VMIO_STATUS, 0), (base + VMIO_STATUS, VSTAT_ACKNOWLEDGE OR VSTAT_DRIVER),
                  (base + VMIO_GUEST_FEAT_SEL, 0), (base + VMIO_GUEST_FEAT, 0)]\<rparr>;
               s = setup_eventq rd kpb queue_mem events_va base s
           in s\<lparr>kbd_mmio := kbd_mmio s @
                 [(base + VMIO_STATUS, VSTAT_ACKNOWLEDGE OR VSTAT_DRIVER OR VSTAT_DRIVER_OK),
                  (base + VMIO_QUEUE_NOTIFY, 0)]\<rparr>)"

section \<open>Draining the queue\<close>

lemma keymaps_length [simp]: "length keymap_lower = 58" "length keymap_upper = 58"
  by (simp_all add: keymap_lower_def keymap_upper_def ascii_def)

lemma handle_kbd_event_frame [simp]:
  "g_queue (handle_kbd_event ev s) = g_queue s" "g_events (handle_kbd_event ev s) = g_events s"
  "g_last_used_idx (handle_kbd_event ev s) = g_last_used_idx s" "kbd_mmio (handle_kbd_event ev s) = kbd_mmio s"
  by (simp_all add: handle_kbd_event_def Let_def)

lemma handle_kbd_event_update [simp]:
  "handle_kbd_event ev (s\<lparr>g_queue := q, g_last_used_idx := i\<rparr>) = (handle_kbd_event ev s)\<lparr>g_queue := q, g_last_used_idx := i\<rparr>"
  by (simp add: handle_kbd_event_def Let_def)

lemma vq_give_back_sel:
  "avail_ring (vq_give_back i q) = (avail_ring q)[unat (avail_idx q) mod 16 := ucast i]"
  "avail_idx (vq_give_back i q) = avail_idx q + 1" "used_idx (vq_give_back i q) = used_idx q"
  by (simp_all add: vq_give_back_def)

lemma handle_events_update:
  "(fold (\<lambda>i. handle_kbd_event (e i)) is (s\<lparr>g_queue := q, g_last_used_idx := l\<rparr>))\<lparr>g_queue := q', g_last_used_idx := l'\<rparr> =
   (fold (\<lambda>i. handle_kbd_event (e i)) is s)\<lparr>g_queue := q', g_last_used_idx := l'\<rparr>"
  by (induction "is" arbitrary: s) simp_all

text \<open>The descriptors that the device has used and the driver has not seen, in order.\<close>

definition unseen :: "kbd_state \<Rightarrow> nat" where
  "unseen s = unat (used_idx (g_queue s) - g_last_used_idx s)"

definition used_ids :: "kbd_state \<Rightarrow> u32 list" where
  "used_ids s = map (\<lambda>k. u_id (used_ring (g_queue s) ! ((unat (g_last_used_idx s) + k) mod QUEUE_SIZE))) [0..<unseen s]"

lemma kbd_drain_all:
  assumes "\<forall>i \<in> set (used_ids s). unat i < QUEUE_SIZE"
  shows "kbd_drain s = Some (Done (),
    (fold (\<lambda>i. handle_kbd_event (g_events s ! unat i)) (used_ids s) s)
      \<lparr>g_queue := fold vq_give_back (used_ids s) (g_queue s), g_last_used_idx := used_idx (g_queue s)\<rparr>)"
  using assms
proof (induction "unseen s" arbitrary: s)
  case 0
  then have "used_idx (g_queue s) = g_last_used_idx s" by (simp add: unseen_def unat_eq_0)
  moreover from this have "used_ids s = []" by (simp add: used_ids_def unseen_def)
  ultimately show ?case by (simp add: kbd_drain.simps)
next
  case (Suc n)
  let ?q = "g_queue s" and ?l = "g_last_used_idx s"
  define i where "i = u_id (used_ring ?q ! (unat ?l mod QUEUE_SIZE))"
  define s1 where "s1 = (handle_kbd_event (g_events s ! unat i) s)\<lparr>g_queue := vq_give_back i ?q, g_last_used_idx := ?l + 1\<rparr>"
  have ne: "?l \<noteq> used_idx ?q" using Suc.hyps(2) by (auto simp: unseen_def)
  have q1: "used_idx (g_queue s1) = used_idx ?q" "used_ring (g_queue s1) = used_ring ?q" "g_last_used_idx s1 = ?l + 1"
    "g_events s1 = g_events s" "g_queue s1 = vq_give_back i ?q"
    by (simp_all add: s1_def vq_give_back_def)
  have n: "unseen s1 = n"
  proof -
    have "used_idx ?q - ?l \<noteq> 0" using ne by simp
    then have "unat (used_idx ?q - ?l - 1) = unat (used_idx ?q - ?l) - 1" by (rule unat_minus_one)
    moreover have "used_idx ?q - (?l + 1) = used_idx ?q - ?l - 1" by (rule diff_diff_add [symmetric])
    ultimately have "unat (used_idx ?q - (?l + 1)) = unat (used_idx ?q - ?l) - 1" by (simp only:)
    then show ?thesis using Suc.hyps(2) by (simp add: unseen_def q1(1,3))
  qed
  have mods: "(unat (?l + 1) + k) mod 16 = (unat ?l + Suc k) mod 16" for k
  proof -
    have "unat (?l + 1) mod 16 = (unat ?l + 1) mod 16" by (simp add: unat_word_ariths mod_mod_cancel)
    then have "(unat (?l + 1) mod 16 + k) mod 16 = ((unat ?l + 1) mod 16 + k) mod 16" by simp
    then show ?thesis by (simp add: mod_add_left_eq)
  qed
  have ids: "used_ids s = i # used_ids s1"
  proof -
    define f where "f k = u_id (used_ring ?q ! ((unat ?l + k) mod 16))" for k
    have "used_ids s = map f [0..<Suc n]" using Suc.hyps(2) by (simp add: used_ids_def f_def)
    moreover have "used_ids s1 = map (\<lambda>k. f (Suc k)) [0..<n]"
      unfolding used_ids_def n q1(2,3) mods f_def ..
    moreover have "map f [0..<Suc n] = f 0 # map (\<lambda>k. f (Suc k)) [0..<n]"
      by (simp add: upt_conv_Cons map_Suc_upt [symmetric] del: upt_Suc)
    ultimately show ?thesis by (simp add: f_def i_def)
  qed
  have "kbd_drain s = kbd_drain s1"
    using ne Suc.prems ids by (subst kbd_drain.simps) (simp add: Let_def s1_def flip: i_def)
  also have "\<dots> = Some (Done (), (fold (\<lambda>i. handle_kbd_event (g_events s1 ! unat i)) (used_ids s1) s1)
      \<lparr>g_queue := fold vq_give_back (used_ids s1) (g_queue s1), g_last_used_idx := used_idx (g_queue s1)\<rparr>)"
    using Suc.prems ids n by (intro Suc.hyps(1)) auto
  finally show ?case unfolding ids by (simp add: q1 vq_give_back_sel) (simp add: s1_def handle_events_update)
qed

section \<open>Properties\<close>

text \<open>The characters that a list of events types, given the state of the shift keys.\<close>

fun typed :: "bool \<Rightarrow> virtio_input_event_t list \<Rightarrow> u8 list" where
  "typed shift [] = []"
| "typed shift (e # es) =
     (if ev_type e \<noteq> EV_KEY then typed shift es
      else if ev_code e = KEY_LEFTSHIFT \<or> ev_code e = KEY_RIGHTSHIFT then typed (ev_value e \<noteq> 0) es
      else if (ev_value e = 1 \<or> ev_value e = 2) \<and> ev_code e < 58
        \<and> (if shift then keymap_upper else keymap_lower) ! unat (ev_code e) \<noteq> 0
      then (if shift then keymap_upper else keymap_lower) ! unat (ev_code e) # typed shift es
      else typed shift es)"

definition types_char :: "bool \<Rightarrow> virtio_input_event_t \<Rightarrow> bool" where
  "types_char shift e \<longleftrightarrow> ev_type e = EV_KEY \<and> ev_code e \<noteq> KEY_LEFTSHIFT \<and> ev_code e \<noteq> KEY_RIGHTSHIFT \<and>
     (ev_value e = 1 \<or> ev_value e = 2) \<and> ev_code e < 58 \<and>
     (if shift then keymap_upper else keymap_lower) ! unat (ev_code e) \<noteq> 0"

lemma handle_events_typed:
  "kbd_tty (fold handle_kbd_event es s) = fold tty_input (typed (g_shift s) es) (kbd_tty s)"
proof (induction es arbitrary: s)
  case (Cons e es)
  let ?s = "handle_kbd_event e s"
  consider (shift) "ev_type e = EV_KEY" "ev_code e = KEY_LEFTSHIFT \<or> ev_code e = KEY_RIGHTSHIFT"
    | (key) "types_char (g_shift s) e"
    | (other) "ev_type e \<noteq> EV_KEY \<or> ev_code e \<noteq> KEY_LEFTSHIFT \<and> ev_code e \<noteq> KEY_RIGHTSHIFT" "\<not> types_char (g_shift s) e"
    by (auto simp: types_char_def)
  then show ?case
  proof cases
    case shift
    then show ?thesis using Cons [of ?s] by (auto simp: handle_kbd_event_def)
  next
    case key
    then have "?s = s\<lparr>kbd_tty := tty_input ((if g_shift s then keymap_upper else keymap_lower) ! unat (ev_code e)) (kbd_tty s)\<rparr>"
      "typed (g_shift s) (e # es) = (if g_shift s then keymap_upper else keymap_lower) ! unat (ev_code e) # typed (g_shift s) es"
      by (simp_all add: handle_kbd_event_def types_char_def Let_def)
    then show ?thesis using Cons [of ?s] by (simp del: typed.simps)
  next
    case other
    then have "?s = s" "typed (g_shift s) (e # es) = typed (g_shift s) es"
      by (auto simp: handle_kbd_event_def types_char_def Let_def)
    then show ?thesis using Cons [of ?s] by (simp del: typed.simps)
  qed
qed simp

lemma give_back_ring:
  assumes "length (avail_ring q) = 16"
  shows "avail_idx (fold vq_give_back is q) = avail_idx q + of_nat (length is)"
    and "length is \<le> 16 \<Longrightarrow> k < length is \<Longrightarrow>
      avail_ring (fold vq_give_back is q) ! ((unat (avail_idx q) + k) mod 16) = ucast (is ! k)"
proof -
  have "avail_idx (fold vq_give_back is q) = avail_idx q + of_nat (length is) \<and> length (avail_ring (fold vq_give_back is q)) = 16 \<and>
    (length is \<le> 16 \<longrightarrow> (\<forall>k < length is. avail_ring (fold vq_give_back is q) ! ((unat (avail_idx q) + k) mod 16) = ucast (is ! k)))"
  proof (induction "is" rule: rev_induct)
    case (snoc i js)
    let ?r = "fold vq_give_back js q"
    have pos: "unat (avail_idx q + of_nat (length js)) mod 16 = (unat (avail_idx q) + length js) mod 16"
      using snoc by (simp add: unat_word_ariths unat_of_nat take_bit_nat_def mod_add_right_eq mod_mod_cancel)
    have "(unat (avail_idx q) + length js) mod 16 \<noteq> (unat (avail_idx q) + k) mod 16" if "k < length js" "length js < 16" for k
      using that by (simp add: add_mod_inj)
    moreover have "(unat (avail_idx q) + length js) mod 16 < 16" by simp
    ultimately show ?case using snoc by (auto simp: vq_give_back_sel pos nth_append less_Suc_eq add.assoc)
  qed (use assms in simp)
  then show "avail_idx (fold vq_give_back is q) = avail_idx q + of_nat (length is)"
    "length is \<le> 16 \<Longrightarrow> k < length is \<Longrightarrow>
      avail_ring (fold vq_give_back is q) ! ((unat (avail_idx q) + k) mod 16) = ucast (is ! k)" by auto
qed

text \<open>The run of the handler, when the device reports only buffers of the queue.\<close>

definition drained :: "kbd_state \<Rightarrow> kbd_state" where
  "drained s = (fold handle_kbd_event (map (\<lambda>i. g_events s ! unat i) (used_ids s)) s)
     \<lparr>g_queue := fold vq_give_back (used_ids s) (g_queue s), g_last_used_idx := used_idx (g_queue s)\<rparr>"

lemma kbd_events_mmio [simp]: "kbd_mmio (fold handle_kbd_event es u) = kbd_mmio u"
  by (induction es arbitrary: u) simp_all

lemma kbd_irq_runs:
  assumes "\<forall>i \<in> set (used_ids s). unat i < QUEUE_SIZE"
  shows "\<exists>u. kbd_irq_handler rd s = Some (Done (), u) \<and> kbd_tty u = kbd_tty (drained s) \<and> g_queue u = g_queue (drained s) \<and>
    g_last_used_idx u = g_last_used_idx (drained s) \<and>
    kbd_mmio u = kbd_mmio s @ [(g_virtio_base s + VMIO_INT_ACK, rd (g_virtio_base s + VMIO_INT_STATUS)), (g_virtio_base s + VMIO_QUEUE_NOTIFY, 0)]"
proof -
  define base where "base = g_virtio_base s"
  define s0 where "s0 = s\<lparr>kbd_mmio := kbd_mmio s @ [(base + VMIO_INT_ACK, rd (base + VMIO_INT_STATUS))]\<rparr>"
  define evs where "evs = map (\<lambda>i. g_events s ! unat i) (used_ids s)"
  have s0: "g_queue s0 = g_queue s" "g_events s0 = g_events s" "g_shift s0 = g_shift s" "kbd_tty s0 = kbd_tty s"
    "used_ids s0 = used_ids s" "g_last_used_idx s0 = g_last_used_idx s"
    by (simp_all add: s0_def used_ids_def unseen_def)
  define t where "t = (fold handle_kbd_event evs s0)\<lparr>g_queue := fold vq_give_back (used_ids s) (g_queue s),
      g_last_used_idx := used_idx (g_queue s)\<rparr>"
  have "kbd_drain s0 = Some (Done (), t)"
    using kbd_drain_all [of s0] assms(1) by (simp add: s0 t_def evs_def fold_map comp_def)
  then have "kbd_irq_handler rd s = Some (Done (), t\<lparr>kbd_mmio := kbd_mmio t @ [(base + VMIO_QUEUE_NOTIFY, 0)]\<rparr>)"
    by (simp add: kbd_irq_handler_def Let_def base_def [symmetric] s0_def)
  moreover have "kbd_tty (fold handle_kbd_event evs s0) = kbd_tty (fold handle_kbd_event evs s)"
    by (simp add: handle_events_typed s0)
  ultimately show ?thesis by (simp add: t_def drained_def s0_def base_def evs_def)
qed

lemma drained_queue: "g_queue (drained s) = fold vq_give_back (used_ids s) (g_queue s)" "g_last_used_idx (drained s) = used_idx (g_queue s)"
  "kbd_tty (drained s) = fold tty_input (typed (g_shift s) (map (\<lambda>i. g_events s ! unat i) (used_ids s))) (kbd_tty s)"
  by (simp_all add: drained_def handle_events_typed)

text \<open>C23: when the device reports only buffers of the queue, the keyboard interrupt handler ends, types the
  characters of all events it has not seen yet, in the order of the used ring (also across the wrap of the
  16-bit index), catches up with the device and makes every one of their buffers available again.\<close>

theorem kbd_irq_handler_correct:
  assumes "\<forall>i \<in> set (used_ids s). unat i < QUEUE_SIZE" "vq_wf (g_queue s)" "unseen s \<le> QUEUE_SIZE"
  shows "\<exists>s'. kbd_irq_handler rd s = Some (Done (), s') \<and>
    kbd_tty s' = fold tty_input (typed (g_shift s) (map (\<lambda>i. g_events s ! unat i) (used_ids s))) (kbd_tty s) \<and>
    unseen s' = 0 \<and> avail_idx (g_queue s') = avail_idx (g_queue s) + of_nat (unseen s) \<and>
    (\<forall>k < unseen s. avail_ring (g_queue s') ! ((unat (avail_idx (g_queue s)) + k) mod QUEUE_SIZE) = ucast (used_ids s ! k)) \<and>
    kbd_mmio s' = kbd_mmio s @ [(g_virtio_base s + VMIO_INT_ACK, rd (g_virtio_base s + VMIO_INT_STATUS)), (g_virtio_base s + VMIO_QUEUE_NOTIFY, 0)]"
proof -
  have used: "used_idx (fold vq_give_back is q) = used_idx q" for "is" q
    by (induction "is" arbitrary: q) (simp_all add: vq_give_back_def)
  have "length (used_ids s) = unseen s" by (simp add: used_ids_def)
  then show ?thesis
    using kbd_irq_runs [OF assms(1), of rd] give_back_ring [of "g_queue s" "used_ids s"] assms(2,3)
    by (auto simp: vq_wf_def unseen_def used drained_queue)
qed

text \<open>Two events wait across the wrap of the 16-bit index: shift pressed, then the key A.\<close>

definition kbd0 :: kbd_state where
  "kbd0 = \<lparr>g_shift = False, kbd_tty = tty0,
     g_queue = \<lparr>vq_desc = replicate 16 \<lparr>d_addr = 0, d_len = 8, d_flags = 2, d_next = 0\<rparr>, avail_flags = 0, avail_idx = 16,
       avail_ring = replicate 16 0, used_flags = 0, used_idx = 1,
       used_ring = (replicate 16 \<lparr>u_id = 3, u_len = 8\<rparr>)[0 := \<lparr>u_id = 4, u_len = 8\<rparr>]\<rparr>,
     g_events = (replicate 16 \<lparr>ev_type = 1, ev_code = 42, ev_value = 1\<rparr>)[4 := \<lparr>ev_type = 1, ev_code = 30, ev_value = 1\<rparr>],
     g_last_used_idx = 0xFFFF, kbd_irq = 48, g_virtio_base = 0xCF050000, kbd_mmio = []\<rparr>"

theorem kbd_irq_handler_correct_witness:
  "\<exists>s'. kbd_irq_handler (\<lambda>_. 1) kbd0 = Some (Done (), s') \<and> pending (kbd_tty s') = [65] \<and> unseen s' = 0"
proof -
  have n: "unseen kbd0 = 2" by (simp add: unseen_def kbd0_def)
  have ids: "used_ids kbd0 = [3, 4]" unfolding used_ids_def n by (simp add: kbd0_def upt_rec)
  have "typed (g_shift kbd0) (map (\<lambda>i. g_events kbd0 ! unat i) [3, 4 :: u32]) = [65]"
    by (simp add: kbd0_def keymap_upper_def ascii_def)
  moreover have "pending (fold tty_input [65] tty0) = [65]"
    using tty_inputs_queue [OF tty0_inv(1), of "[65]"] by (simp add: tty0_inv input_queue_def)
  ultimately show ?thesis
    using kbd_irq_handler_correct [of kbd0 "\<lambda>_. 1"] n ids by (auto simp: vq_wf_def) (auto simp: kbd0_def)
qed

end
