(* ===== verification/Leg_Mmu_Desc.thy ===== *)
theory Leg_Mmu_Desc
  imports Leg_Prelude
begin

text \<open>
  The translation table entries of \<^verbatim>\<open>include/kernel/dev/mmu.h\<close>. An entry is a 32-bit word; the structs of
  the header are bit-field layouts of it, least significant field first. \<open>pack\<close> and \<open>unpack\<close> lay a list of
  fields out in a word, and every struct is a record with its two directions.
\<close>

section \<open>Bit-fields\<close>

fun pack :: "(nat \<times> u32) list \<Rightarrow> u32" where
  "pack [] = 0"
| "pack ((w, v) # fs) = take_bit w v OR push_bit w (pack fs)"

fun unpack :: "nat list \<Rightarrow> u32 \<Rightarrow> u32 list" where
  "unpack [] r = []"
| "unpack (w # ws) r = take_bit w r # unpack ws (drop_bit w r)"

lemma bit_pack_less: "bit (pack fs) n \<Longrightarrow> n < sum_list (map fst fs)"
proof (induction fs arbitrary: n rule: pack.induct)
  case (2 w v fs)
  then show ?case using "2.IH" [of "n - w"] by (fastforce simp: bit_simps)
qed simp

lemma take_bit_pack: "take_bit w (pack ((w, v) # fs)) = take_bit w v"
  by (rule bit_word_eqI) (auto simp: bit_simps)

lemma unpack_pack:
  "sum_list (map fst fs) \<le> 32 \<Longrightarrow> unpack (map fst fs) (pack fs) = map (\<lambda>(w, v). take_bit w v) fs"
proof (induction fs rule: pack.induct)
  case (2 w v fs)
  have "drop_bit w (pack ((w, v) # fs)) = pack fs"
    using "2.prems" by (intro bit_word_eqI) (auto simp: bit_simps dest: bit_pack_less)
  then show ?case using 2 take_bit_pack [of w v fs] by simp
qed simp

text \<open>A value fits a field of \<open>w\<close> bits.\<close>

abbreviation fits :: "nat \<Rightarrow> u32 \<Rightarrow> bool" where
  "fits w v \<equiv> take_bit w v = v"

lemma fits_of_bool [simp]: "take_bit (Suc 0) (of_bool b :: u32) = of_bool b"
  by (cases b) simp_all

section \<open>Entry types\<close>

datatype l1_descriptor = L1_INVALID | L1_PAGE_TABLE | L1_SECTION | L1_PXN_SECTION

datatype l2_descriptor = L2_INVALID | L2_LARGE_PAGE | L2_SMALL_PAGE | L2_XN_PAGE

fun l1_code :: "l1_descriptor \<Rightarrow> u32" where
  "l1_code L1_INVALID = 0"
| "l1_code L1_PAGE_TABLE = 1"
| "l1_code L1_SECTION = 2"
| "l1_code L1_PXN_SECTION = 3"

fun l2_code :: "l2_descriptor \<Rightarrow> u32" where
  "l2_code L2_INVALID = 0"
| "l2_code L2_LARGE_PAGE = 1"
| "l2_code L2_SMALL_PAGE = 2"
| "l2_code L2_XN_PAGE = 3"

definition l1_of_code :: "u32 \<Rightarrow> l1_descriptor" where
  "l1_of_code v = (if v = 0 then L1_INVALID else if v = 1 then L1_PAGE_TABLE
     else if v = 2 then L1_SECTION else L1_PXN_SECTION)"

definition l2_of_code :: "u32 \<Rightarrow> l2_descriptor" where
  "l2_of_code v = (if v = 0 then L2_INVALID else if v = 1 then L2_LARGE_PAGE
     else if v = 2 then L2_SMALL_PAGE else L2_XN_PAGE)"

lemma l1_code_inverse [simp]: "l1_of_code (l1_code t) = t"
  by (cases t) (simp_all add: l1_of_code_def)

lemma l2_code_inverse [simp]: "l2_of_code (l2_code t) = t"
  by (cases t) (simp_all add: l2_of_code_def)

lemma l1_code_fits [simp]: "take_bit 2 (l1_code t) = l1_code t"
  by (cases t) (simp_all add: take_bit_eq_mod)

lemma l2_code_fits [simp]: "take_bit 2 (l2_code t) = l2_code t"
  by (cases t) (simp_all add: take_bit_eq_mod)

text \<open>The two low bits, read through the unions' member \<open>type\<close>.\<close>

definition l1_type :: "u32 \<Rightarrow> l1_descriptor" where
  "l1_type raw = l1_of_code (take_bit 2 raw)"

definition l2_type :: "u32 \<Rightarrow> l2_descriptor" where
  "l2_type raw = l2_of_code (take_bit 2 raw)"

section \<open>First-level entries\<close>

record page_table_view =
  pt_type :: l1_descriptor
  pt_privileged_execute_never :: bool
  pt_non_secure :: bool
  pt_domain :: u32
  pt_address :: u32

record section_view =
  sec_type :: l1_descriptor
  sec_bufferable :: bool
  sec_cacheable :: bool
  sec_execute_never :: bool
  sec_domain :: u32
  sec_ap_low :: u32
  sec_type_ext :: u32
  sec_ap_high :: bool
  sec_shareable :: bool
  sec_not_global :: bool
  sec_supersection :: bool
  sec_non_secure :: bool
  sec_address :: u32

record supersection_view =
  sup_type :: l1_descriptor
  sup_bufferable :: bool
  sup_cacheable :: bool
  sup_execute_never :: bool
  sup_xaddr_39_36 :: u32
  sup_ap_low :: u32
  sup_type_ext :: u32
  sup_ap_high :: bool
  sup_shareable :: bool
  sup_not_global :: bool
  sup_supersection :: bool
  sup_non_secure :: bool
  sup_xaddr_35_32 :: u32
  sup_address :: u32

definition enc_page_table :: "page_table_view \<Rightarrow> u32" where
  "enc_page_table d = pack
     [(2, l1_code (pt_type d)), (1, of_bool (pt_privileged_execute_never d)), (1, of_bool (pt_non_secure d)),
      (1, 0), (4, pt_domain d), (1, 0), (22, pt_address d)]"

definition dec_page_table :: "u32 \<Rightarrow> page_table_view" where
  "dec_page_table r =
     (let f = unpack [2, 1, 1, 1, 4, 1, 22] r
      in \<lparr>pt_type = l1_of_code (f ! 0), pt_privileged_execute_never = (f ! 1 \<noteq> 0), pt_non_secure = (f ! 2 \<noteq> 0),
          pt_domain = f ! 4, pt_address = f ! 6\<rparr>)"

definition enc_section :: "section_view \<Rightarrow> u32" where
  "enc_section d = pack
     [(2, l1_code (sec_type d)), (1, of_bool (sec_bufferable d)), (1, of_bool (sec_cacheable d)),
      (1, of_bool (sec_execute_never d)), (4, sec_domain d), (1, 0), (2, sec_ap_low d), (3, sec_type_ext d),
      (1, of_bool (sec_ap_high d)), (1, of_bool (sec_shareable d)), (1, of_bool (sec_not_global d)),
      (1, of_bool (sec_supersection d)), (1, of_bool (sec_non_secure d)), (12, sec_address d)]"

definition dec_section :: "u32 \<Rightarrow> section_view" where
  "dec_section r =
     (let f = unpack [2, 1, 1, 1, 4, 1, 2, 3, 1, 1, 1, 1, 1, 12] r
      in \<lparr>sec_type = l1_of_code (f ! 0), sec_bufferable = (f ! 1 \<noteq> 0), sec_cacheable = (f ! 2 \<noteq> 0),
          sec_execute_never = (f ! 3 \<noteq> 0), sec_domain = f ! 4, sec_ap_low = f ! 6, sec_type_ext = f ! 7,
          sec_ap_high = (f ! 8 \<noteq> 0), sec_shareable = (f ! 9 \<noteq> 0), sec_not_global = (f ! 10 \<noteq> 0),
          sec_supersection = (f ! 11 \<noteq> 0), sec_non_secure = (f ! 12 \<noteq> 0), sec_address = f ! 13\<rparr>)"

definition enc_supersection :: "supersection_view \<Rightarrow> u32" where
  "enc_supersection d = pack
     [(2, l1_code (sup_type d)), (1, of_bool (sup_bufferable d)), (1, of_bool (sup_cacheable d)),
      (1, of_bool (sup_execute_never d)), (4, sup_xaddr_39_36 d), (1, 0), (2, sup_ap_low d), (3, sup_type_ext d),
      (1, of_bool (sup_ap_high d)), (1, of_bool (sup_shareable d)), (1, of_bool (sup_not_global d)),
      (1, of_bool (sup_supersection d)), (1, of_bool (sup_non_secure d)), (4, sup_xaddr_35_32 d), (8, sup_address d)]"

definition dec_supersection :: "u32 \<Rightarrow> supersection_view" where
  "dec_supersection r =
     (let f = unpack [2, 1, 1, 1, 4, 1, 2, 3, 1, 1, 1, 1, 1, 4, 8] r
      in \<lparr>sup_type = l1_of_code (f ! 0), sup_bufferable = (f ! 1 \<noteq> 0), sup_cacheable = (f ! 2 \<noteq> 0),
          sup_execute_never = (f ! 3 \<noteq> 0), sup_xaddr_39_36 = f ! 4, sup_ap_low = f ! 6, sup_type_ext = f ! 7,
          sup_ap_high = (f ! 8 \<noteq> 0), sup_shareable = (f ! 9 \<noteq> 0), sup_not_global = (f ! 10 \<noteq> 0),
          sup_supersection = (f ! 11 \<noteq> 0), sup_non_secure = (f ! 12 \<noteq> 0), sup_xaddr_35_32 = f ! 13,
          sup_address = f ! 14\<rparr>)"

section \<open>Second-level entries\<close>

record large_page_view =
  lp_type :: l2_descriptor
  lp_bufferable :: bool
  lp_cacheable :: bool
  lp_ap_low :: u32
  lp_ap_high :: bool
  lp_shareable :: bool
  lp_not_global :: bool
  lp_type_ext :: u32
  lp_execute_never :: bool
  lp_address :: u32

record small_page_view =
  sp_type :: l2_descriptor
  sp_bufferable :: bool
  sp_cacheable :: bool
  sp_ap_low :: u32
  sp_type_ext :: u32
  sp_ap_high :: bool
  sp_shareable :: bool
  sp_not_global :: bool
  sp_address :: u32

definition enc_large_page :: "large_page_view \<Rightarrow> u32" where
  "enc_large_page d = pack
     [(2, l2_code (lp_type d)), (1, of_bool (lp_bufferable d)), (1, of_bool (lp_cacheable d)), (2, lp_ap_low d), (3, 0),
      (1, of_bool (lp_ap_high d)), (1, of_bool (lp_shareable d)), (1, of_bool (lp_not_global d)), (3, lp_type_ext d),
      (1, of_bool (lp_execute_never d)), (16, lp_address d)]"

definition dec_large_page :: "u32 \<Rightarrow> large_page_view" where
  "dec_large_page r =
     (let f = unpack [2, 1, 1, 2, 3, 1, 1, 1, 3, 1, 16] r
      in \<lparr>lp_type = l2_of_code (f ! 0), lp_bufferable = (f ! 1 \<noteq> 0), lp_cacheable = (f ! 2 \<noteq> 0), lp_ap_low = f ! 3,
          lp_ap_high = (f ! 5 \<noteq> 0), lp_shareable = (f ! 6 \<noteq> 0), lp_not_global = (f ! 7 \<noteq> 0), lp_type_ext = f ! 8,
          lp_execute_never = (f ! 9 \<noteq> 0), lp_address = f ! 10\<rparr>)"

definition enc_small_page :: "small_page_view \<Rightarrow> u32" where
  "enc_small_page d = pack
     [(2, l2_code (sp_type d)), (1, of_bool (sp_bufferable d)), (1, of_bool (sp_cacheable d)), (2, sp_ap_low d),
      (3, sp_type_ext d), (1, of_bool (sp_ap_high d)), (1, of_bool (sp_shareable d)), (1, of_bool (sp_not_global d)),
      (20, sp_address d)]"

definition dec_small_page :: "u32 \<Rightarrow> small_page_view" where
  "dec_small_page r =
     (let f = unpack [2, 1, 1, 2, 3, 1, 1, 1, 20] r
      in \<lparr>sp_type = l2_of_code (f ! 0), sp_bufferable = (f ! 1 \<noteq> 0), sp_cacheable = (f ! 2 \<noteq> 0), sp_ap_low = f ! 3,
          sp_type_ext = f ! 4, sp_ap_high = (f ! 5 \<noteq> 0), sp_shareable = (f ! 6 \<noteq> 0), sp_not_global = (f ! 7 \<noteq> 0),
          sp_address = f ! 8\<rparr>)"

section \<open>Both directions agree\<close>

lemma dec_enc_page_table:
  assumes "fits 4 (pt_domain d)" "fits 22 (pt_address d)"
  shows "dec_page_table (enc_page_table d) = d"
  using assms unpack_pack [of "[(2, l1_code (pt_type d)), (1, of_bool (pt_privileged_execute_never d)),
    (1, of_bool (pt_non_secure d)), (1, 0), (4, pt_domain d), (1, 0), (22, pt_address d)]"]
  by (simp add: dec_page_table_def enc_page_table_def del: unpack.simps pack.simps)

lemma dec_enc_section:
  assumes "fits 4 (sec_domain d)" "fits 2 (sec_ap_low d)" "fits 3 (sec_type_ext d)" "fits 12 (sec_address d)"
  shows "dec_section (enc_section d) = d"
  using assms unpack_pack [of "[(2, l1_code (sec_type d)), (1, of_bool (sec_bufferable d)), (1, of_bool (sec_cacheable d)),
      (1, of_bool (sec_execute_never d)), (4, sec_domain d), (1, 0), (2, sec_ap_low d), (3, sec_type_ext d),
      (1, of_bool (sec_ap_high d)), (1, of_bool (sec_shareable d)), (1, of_bool (sec_not_global d)),
      (1, of_bool (sec_supersection d)), (1, of_bool (sec_non_secure d)), (12, sec_address d)]"]
  by (simp add: dec_section_def enc_section_def del: unpack.simps pack.simps)

lemma dec_enc_supersection:
  assumes "fits 4 (sup_xaddr_39_36 d)" "fits 2 (sup_ap_low d)" "fits 3 (sup_type_ext d)" "fits 4 (sup_xaddr_35_32 d)"
    "fits 8 (sup_address d)"
  shows "dec_supersection (enc_supersection d) = d"
  using assms unpack_pack [of "[(2, l1_code (sup_type d)), (1, of_bool (sup_bufferable d)), (1, of_bool (sup_cacheable d)),
      (1, of_bool (sup_execute_never d)), (4, sup_xaddr_39_36 d), (1, 0), (2, sup_ap_low d), (3, sup_type_ext d),
      (1, of_bool (sup_ap_high d)), (1, of_bool (sup_shareable d)), (1, of_bool (sup_not_global d)),
      (1, of_bool (sup_supersection d)), (1, of_bool (sup_non_secure d)), (4, sup_xaddr_35_32 d), (8, sup_address d)]"]
  by (simp add: dec_supersection_def enc_supersection_def del: unpack.simps pack.simps)

lemma dec_enc_large_page:
  assumes "fits 2 (lp_ap_low d)" "fits 3 (lp_type_ext d)" "fits 16 (lp_address d)"
  shows "dec_large_page (enc_large_page d) = d"
  using assms unpack_pack [of "[(2, l2_code (lp_type d)), (1, of_bool (lp_bufferable d)), (1, of_bool (lp_cacheable d)),
      (2, lp_ap_low d), (3, 0), (1, of_bool (lp_ap_high d)), (1, of_bool (lp_shareable d)), (1, of_bool (lp_not_global d)),
      (3, lp_type_ext d), (1, of_bool (lp_execute_never d)), (16, lp_address d)]"]
  by (simp add: dec_large_page_def enc_large_page_def del: unpack.simps pack.simps)

lemma dec_enc_small_page:
  assumes "fits 2 (sp_ap_low d)" "fits 3 (sp_type_ext d)" "fits 20 (sp_address d)"
  shows "dec_small_page (enc_small_page d) = d"
  using assms unpack_pack [of "[(2, l2_code (sp_type d)), (1, of_bool (sp_bufferable d)), (1, of_bool (sp_cacheable d)),
      (2, sp_ap_low d), (3, sp_type_ext d), (1, of_bool (sp_ap_high d)), (1, of_bool (sp_shareable d)),
      (1, of_bool (sp_not_global d)), (20, sp_address d)]"]
  by (simp add: dec_small_page_def enc_small_page_def del: unpack.simps pack.simps)

text \<open>The members that the kernel reads through the unions.\<close>

lemma l1_type_enc [simp]: "l1_type (enc_page_table d) = pt_type d" "l1_type (enc_section e) = sec_type e"
  unfolding l1_type_def enc_page_table_def enc_section_def take_bit_pack by simp_all

lemma l2_type_enc [simp]: "l2_type (enc_small_page d) = sp_type d"
  unfolding l2_type_def enc_small_page_def take_bit_pack by simp

end
