(* ===== verification/Leg_Mmu.thy ===== *)
theory Leg_Mmu
  imports Leg_Mmu_Desc Leg_Kheap Leg_Utils
begin

text \<open>
  The translation tables of \<^verbatim>\<open>src/kernel/dev/mmu.c\<close>: tables are words of the byte memory, allocated on the
  kernel heap. The writes to the coprocessor registers (TTBR, TTBCR, cache and TLB maintenance) have no
  effect on this state and are left out; what the tables mean is the walk that the kernel itself does in
  \<^verbatim>\<open>process.c\<close>.
\<close>

section \<open>Table sizes\<close>

abbreviation (input) TTBCR_N :: nat where "TTBCR_N \<equiv> 7"
abbreviation (input) PROC_VA_MB :: u32 where "PROC_VA_MB \<equiv> push_bit (12 - TTBCR_N) 1"
abbreviation (input) PROC_TABLE_ALIGN :: u32 where "PROC_TABLE_ALIGN \<equiv> push_bit (14 - TTBCR_N) 1"
abbreviation (input) PROC_TABLE_SIZE :: u32 where "PROC_TABLE_SIZE \<equiv> PROC_VA_MB * 4"
abbreviation (input) MB_SHIFT :: nat where "MB_SHIFT \<equiv> 20"

definition L2_IDX :: "u32 \<Rightarrow> u32" where
  "L2_IDX virt = drop_bit 12 virt AND 0xFF"

section \<open>Entries\<close>

definition entry :: "mem \<Rightarrow> u32 \<Rightarrow> u32 \<Rightarrow> u32" where
  "entry m table i = rd32 m (table + 4 * i)"

definition set_entry :: "u32 \<Rightarrow> u32 \<Rightarrow> u32 \<Rightarrow> mem \<Rightarrow> mem" where
  "set_entry table i v m = wr32 m (table + 4 * i) v"

text \<open>Section entries of normal or device memory, and the two kinds of small pages.\<close>

definition section_entry :: "u32 \<Rightarrow> u32 \<Rightarrow> bool \<Rightarrow> u32" where
  "section_entry address ap device = enc_section
     \<lparr>sec_type = L1_SECTION, sec_bufferable = True, sec_cacheable = (\<not> device), sec_execute_never = False,
      sec_domain = 0, sec_ap_low = ap, sec_type_ext = (if device then 0 else 1), sec_ap_high = False,
      sec_shareable = False, sec_not_global = False, sec_supersection = False, sec_non_secure = False,
      sec_address = address\<rparr>"

definition table_entry :: "u32 \<Rightarrow> u32" where
  "table_entry phys = enc_page_table
     \<lparr>pt_type = L1_PAGE_TABLE, pt_privileged_execute_never = False, pt_non_secure = False, pt_domain = 0,
      pt_address = drop_bit 10 phys\<rparr>"

definition page_entry :: "u32 \<Rightarrow> u32" where
  "page_entry pa = enc_small_page
     \<lparr>sp_type = L2_SMALL_PAGE, sp_bufferable = True, sp_cacheable = True, sp_ap_low = 3, sp_type_ext = 1,
      sp_ap_high = False, sp_shareable = False, sp_not_global = False, sp_address = drop_bit 12 pa\<rparr>"

definition device_entry :: "u32 \<Rightarrow> u32" where
  "device_entry phys = enc_small_page
     \<lparr>sp_type = L2_XN_PAGE, sp_bufferable = True, sp_cacheable = False, sp_ap_low = 2, sp_type_ext = 0,
      sp_ap_high = False, sp_shareable = False, sp_not_global = False, sp_address = drop_bit 12 phys\<rparr>"

section \<open>Operations\<close>

definition mmu_map_identity :: "u32 \<Rightarrow> u32 \<Rightarrow> bool \<Rightarrow> mem \<Rightarrow> mem" where
  "mmu_map_identity kernel_translation_table phys_mb device m =
     set_entry kernel_translation_table phys_mb (section_entry phys_mb 2 device) m"

definition mmu_map_section :: "u32 \<Rightarrow> u32 \<Rightarrow> u32 \<Rightarrow> bool \<Rightarrow> mem \<Rightarrow> mem" where
  "mmu_map_section tt va_mb pa_mb device m = set_entry tt va_mb (section_entry pa_mb 3 device) m"

definition mmu_attach_l2 :: "u32 \<Rightarrow> u32 \<Rightarrow> u32 \<Rightarrow> u32 \<Rightarrow> mem \<Rightarrow> mem" where
  "mmu_attach_l2 kpb tt va_mb pt m = set_entry tt va_mb (table_entry (virt_to_phys kpb pt)) m"

definition mmu_map_page :: "u32 \<Rightarrow> u32 \<Rightarrow> u32 \<Rightarrow> mem \<Rightarrow> mem" where
  "mmu_map_page pt va pa m = set_entry pt (L2_IDX va) (page_entry pa) m"

definition mmu_alloc_proc_table :: "mm_state \<Rightarrow> (u32 \<times> mm_state) outcome option" where
  "mmu_alloc_proc_table s =
     bind_out (kmalloc_aligned PROC_TABLE_SIZE PROC_TABLE_ALIGN s) (\<lambda>(tt, s).
       Some (Returns (tt, if tt \<noteq> 0 then s\<lparr>mem := snd (memset tt 0 PROC_TABLE_SIZE (mem s))\<rparr> else s)))"

definition mmu_alloc_l2_table :: "mm_state \<Rightarrow> (u32 \<times> mm_state) outcome option" where
  "mmu_alloc_l2_table s =
     bind_out (kmalloc_aligned 1024 0x400 s) (\<lambda>(pt, s).
       Some (Returns (pt, if pt \<noteq> 0 then s\<lparr>mem := snd (memset pt 0 1024 (mem s))\<rparr> else s)))"

definition mmu_free_proc_table :: "u32 \<Rightarrow> mm_state \<Rightarrow> mm_state outcome option" where
  "mmu_free_proc_table tt s = kfree tt s"

definition mmu_free_l2_table :: "u32 \<Rightarrow> mm_state \<Rightarrow> mm_state outcome option" where
  "mmu_free_l2_table pt s = kfree pt s"

section \<open>The boot tables\<close>

text \<open>
  The addresses that the linker fixes are parameters: the start of the kernel image and its two static
  tables. \<open>map_sections\<close> runs before the MMU is on and writes to physical addresses.
\<close>

abbreviation (input) KPHYS_OFFSET :: u32 where "KPHYS_OFFSET \<equiv> 0x200000"
abbreviation (input) DEVICE_VIRT_BLOCK :: u32 where "DEVICE_VIRT_BLOCK \<equiv> 0xCF000000"

text \<open>The devices: virtual page and physical address, in the order of the stores.\<close>

definition boot_devices :: "(u32 \<times> u32) list" where
  "boot_devices =
     [(0xCF000000, 0x09000000), (0xCF010000, 0x08000000), (0xCF020000, 0x08010000), (0xCF030000, 0x09010000),
      (0xCF040000, 0x09020000)] @
     map (\<lambda>i. (0xCF050000 + w32 i * 0x1000, 0x0a000000 + w32 i * 0x1000)) [0..<4]"

definition map_sections :: "u32 \<Rightarrow> u32 \<Rightarrow> u32 \<Rightarrow> u32 \<Rightarrow> mem \<Rightarrow> mem" where
  "map_sections kernel_main_beg translation_table devices_table dtb m =
     (let kphys = (dtb AND NOT 0xFFFFF) + KPHYS_OFFSET;
          table = kphys + (translation_table - kernel_main_beg);
          device_table = kphys + (devices_table - kernel_main_beg);
          devices_pt_phys = devices_table - KERNEL_VA + kphys;
          m = set_entry table (drop_bit MB_SHIFT DEVICE_VIRT_BLOCK) (table_entry devices_pt_phys) m;
          m = fold (\<lambda>(va, pa) m. set_entry device_table (L2_IDX va) (device_entry pa) m) boot_devices m;
          m = set_entry table 0 (section_entry 0 2 False) m;
          m = fold (\<lambda>i m. set_entry table (drop_bit MB_SHIFT KERNEL_VA + w32 i)
                            (section_entry (drop_bit MB_SHIFT kphys + w32 i) 2 False) m) [0..<4] m;
          dtb_section = drop_bit MB_SHIFT dtb
      in fold (\<lambda>i m. set_entry table (dtb_section + w32 i) (section_entry (dtb_section + w32 i) 2 False) m) [0..<4] m)"

section \<open>The walk\<close>

text \<open>
  The second-level table that an entry points to, the page that the walk of \<^verbatim>\<open>process.c\<close> finds for a user
  address, and the address it is mapped to.
\<close>

definition l2_of :: "u32 \<Rightarrow> u32 \<Rightarrow> u32" where
  "l2_of kpb e = phys_to_virt kpb (push_bit 10 (pt_address (dec_page_table e)))"

definition page_of :: "u32 \<Rightarrow> mem \<Rightarrow> u32 \<Rightarrow> u32 \<Rightarrow> u32 \<Rightarrow> u32 option" where
  "page_of kpb m pgd mb i =
     (let e = entry m pgd mb
      in if l1_type e \<noteq> L1_PAGE_TABLE then None
         else
           let p = entry m (l2_of kpb e) i
           in if l2_type p \<noteq> L2_SMALL_PAGE then None
              else Some (push_bit 12 (sp_address (dec_small_page p))))"

definition va_lookup :: "u32 \<Rightarrow> mem \<Rightarrow> u32 \<Rightarrow> u32 \<Rightarrow> u32 option" where
  "va_lookup kpb m pgd va =
     map_option (\<lambda>pa. pa OR (va AND 0xFFF)) (page_of kpb m pgd (drop_bit MB_SHIFT va) (L2_IDX va))"

section \<open>What the entries say\<close>

lemma fits_drop: "take_bit (32 - k) (drop_bit k (v :: u32)) = drop_bit k v"
  by (rule bit_word_eqI) (auto simp: bit_simps dest: bit_imp_le_length)

lemma dec_table_entry [simp]: "l1_type (table_entry p) = L1_PAGE_TABLE" "pt_address (dec_page_table (table_entry p)) = drop_bit 10 p"
  using fits_drop [of 10 p] by (simp_all add: table_entry_def dec_enc_page_table)

lemma dec_page_entry [simp]: "l2_type (page_entry p) = L2_SMALL_PAGE" "sp_address (dec_small_page (page_entry p)) = drop_bit 12 p"
  using fits_drop [of 12 p] by (simp_all add: page_entry_def dec_enc_small_page take_bit_eq_mod)

lemma push_drop: "push_bit k (drop_bit k (v :: u32)) = v AND NOT (mask k)"
  by (rule bit_word_eqI) (auto simp: bit_simps)

lemma push_drop_aligned: "2 ^ k dvd unat v \<Longrightarrow> push_bit k (drop_bit k (v :: u32)) = v"
  unfolding push_drop by (simp add: word_unat_eq_iff and_not_mask_unat)

section \<open>Tables in memory\<close>

text \<open>A table of \<open>n\<close> entries that does not wrap around the address space, and two tables without a common byte.\<close>

definition is_table :: "u32 \<Rightarrow> nat \<Rightarrow> bool" where
  "is_table t n \<longleftrightarrow> al4 t \<and> unat t + 4 * n \<le> 2 ^ 32"

definition apart :: "u32 \<Rightarrow> nat \<Rightarrow> u32 \<Rightarrow> nat \<Rightarrow> bool" where
  "apart t n t' n' \<longleftrightarrow> unat t + 4 * n \<le> unat t' \<or> unat t' + 4 * n' \<le> unat t"

lemma apart_sym: "apart t n t' n' \<Longrightarrow> apart t' n' t n"
  by (auto simp: apart_def)

lemma entry_addr:
  assumes "is_table t n" "unat i < n"
  shows "unat (t + 4 * i) = unat t + 4 * unat i" "al4 (t + 4 * i)"
proof -
  have b: "unat t + 4 * unat i < 2 ^ 32" using assms by (simp add: is_table_def)
  have i4: "unat (4 * i) = 4 * unat i"
  proof -
    have "4 * unat i < 2 ^ 32" using b by linarith
    then show ?thesis by (simp add: unat_word_ariths)
  qed
  then show "unat (t + 4 * i) = unat t + 4 * unat i" using b unat_add_no_wrap [of t "4 * i"] by simp
  have "al4 (4 * i)" using i4 by (simp add: al4_def)
  then show "al4 (t + 4 * i)" using assms(1) by (simp add: is_table_def al4_add)
qed

lemma entry_set_same:
  assumes "is_table t n" "unat i < n" "unat j < n"
  shows "entry (set_entry t i v m) t j = (if i = j then v else entry m t j)"
proof -
  have "t + 4 * i = t + 4 * j \<longleftrightarrow> i = j"
    using entry_addr(1) [OF assms(1,2)] entry_addr(1) [OF assms(1,3)] by (metis add_left_cancel mult_left_cancel word_unat_eq_iff zero_neq_numeral)
  then show ?thesis
    using entry_addr(2) [OF assms(1,2)] entry_addr(2) [OF assms(1,3)] by (simp add: entry_def set_entry_def rd32_wr32)
qed

lemma entry_set_other:
  assumes "is_table t n" "is_table t' n'" "apart t n t' n'" "unat i < n" "unat j < n'"
  shows "entry (set_entry t i v m) t' j = entry m t' j"
proof -
  note a = entry_addr [OF assms(1,4)] and b = entry_addr [OF assms(2,5)]
  have "unat (t + 4 * i) \<noteq> unat (t' + 4 * j)" unfolding a(1) b(1) using assms(3-5) by (auto simp: apart_def)
  then have "t + 4 * i \<noteq> t' + 4 * j" by metis
  then show ?thesis using a(2) b(2) by (simp add: entry_def set_entry_def rd32_wr32)
qed

section \<open>A user address space\<close>

text \<open>Every second-level table of the address space is a table of its own.\<close>

definition has_l2 :: "mem \<Rightarrow> u32 \<Rightarrow> u32 \<Rightarrow> bool" where
  "has_l2 m pgd mb \<longleftrightarrow> unat mb < 32 \<and> l1_type (entry m pgd mb) = L1_PAGE_TABLE"

definition l2_table :: "u32 \<Rightarrow> mem \<Rightarrow> u32 \<Rightarrow> u32 \<Rightarrow> u32" where
  "l2_table kpb m pgd mb = l2_of kpb (entry m pgd mb)"

definition aspace_ok :: "u32 \<Rightarrow> mem \<Rightarrow> u32 \<Rightarrow> bool" where
  "aspace_ok kpb m pgd \<longleftrightarrow> is_table pgd 32 \<and>
     (\<forall>mb. has_l2 m pgd mb \<longrightarrow> is_table (l2_table kpb m pgd mb) 256 \<and> apart pgd 32 (l2_table kpb m pgd mb) 256) \<and>
     (\<forall>a b. has_l2 m pgd a \<and> has_l2 m pgd b \<and> a \<noteq> b \<longrightarrow> apart (l2_table kpb m pgd a) 256 (l2_table kpb m pgd b) 256)"

text \<open>The view of an address space that the changes below are stated in: which pages are mapped.\<close>

lemma page_of_alt:
  "unat mb < 32 \<Longrightarrow> page_of kpb m pgd mb i =
     (if has_l2 m pgd mb \<and> l2_type (entry m (l2_table kpb m pgd mb) i) = L2_SMALL_PAGE
      then Some (push_bit 12 (sp_address (dec_small_page (entry m (l2_table kpb m pgd mb) i)))) else None)"
  by (simp add: page_of_def has_l2_def l2_table_def Let_def)

lemma L2_IDX_less: "unat (L2_IDX va) < 256"
proof -
  have "L2_IDX va = drop_bit 12 va AND mask 8" by (simp add: L2_IDX_def mask_eq_exp_minus_1)
  then have "L2_IDX va = take_bit 8 (drop_bit 12 va)" by (simp add: take_bit_eq_mask)
  then show ?thesis by (simp add: take_bit_eq_mod unat_mod)
qed

lemma map_page_aspace:
  fixes va pa :: u32
  assumes ok: "aspace_ok kpb m pgd" and mb: "has_l2 m pgd mb" and pt: "pt = l2_table kpb m pgd mb"
  defines "m' \<equiv> mmu_map_page pt va pa m"
  shows "aspace_ok kpb m' pgd" "\<And>b. has_l2 m' pgd b \<longleftrightarrow> has_l2 m pgd b" "\<And>b. unat b < 32 \<Longrightarrow> entry m' pgd b = entry m pgd b"
    "\<And>b i. unat b < 32 \<Longrightarrow> unat i < 256 \<Longrightarrow>
       page_of kpb m' pgd b i = (if b = mb \<and> i = L2_IDX va then Some (pa AND NOT (mask 12)) else page_of kpb m pgd b i)"
proof -
  have tabs: "is_table pgd 32" "is_table pt 256" "apart pt 256 pgd 32"
    using ok mb pt by (auto simp: aspace_ok_def intro: apart_sym)
  have l1: "entry m' pgd b = entry m pgd b" if "unat b < 32" for b
    unfolding m'_def mmu_map_page_def by (rule entry_set_other [OF tabs(2,1,3) L2_IDX_less that])
  then have has: "has_l2 m' pgd b \<longleftrightarrow> has_l2 m pgd b" and tab: "unat b < 32 \<Longrightarrow> l2_table kpb m' pgd b = l2_table kpb m pgd b" for b
    by (auto simp: has_l2_def l2_table_def)
  then show "\<And>b. has_l2 m' pgd b \<longleftrightarrow> has_l2 m pgd b" "\<And>b. unat b < 32 \<Longrightarrow> entry m' pgd b = entry m pgd b" using l1 by auto
  show "aspace_ok kpb m' pgd"
    using ok unfolding aspace_ok_def has by (simp add: tab has_l2_def)
  show "page_of kpb m' pgd b i = (if b = mb \<and> i = L2_IDX va then Some (pa AND NOT (mask 12)) else page_of kpb m pgd b i)"
    if b: "unat b < 32" "unat i < 256" for b i
  proof (cases "b = mb")
    case True
    have "entry m' pt i = (if L2_IDX va = i then page_entry pa else entry m pt i)"
      unfolding m'_def mmu_map_page_def by (rule entry_set_same [OF tabs(2) L2_IDX_less b(2)])
    then show ?thesis using True b mb pt push_drop [of 12 pa] by (auto simp: page_of_alt has tab)
  next
    case False
    have "entry m' (l2_table kpb m pgd b) i = entry m (l2_table kpb m pgd b) i" if "has_l2 m pgd b"
      unfolding m'_def mmu_map_page_def
      using ok that mb False pt by (intro entry_set_other [OF tabs(2) _ _ L2_IDX_less b(2)]) (auto simp: aspace_ok_def)
    then show ?thesis using False b by (auto simp: page_of_alt has tab)
  qed
qed

lemma dvd_unat_add: "2 ^ k dvd unat a \<Longrightarrow> 2 ^ k dvd unat b \<Longrightarrow> k \<le> 32 \<Longrightarrow> 2 ^ k dvd unat (a + b :: u32)"
proof -
  assume d: "2 ^ k dvd unat a" "2 ^ k dvd unat b" "k \<le> 32"
  have "(2 :: nat) ^ k dvd 2 ^ LENGTH(32)" using d(3) by (intro le_imp_power_dvd) simp
  then show ?thesis unfolding unat_word_ariths using d(1,2) by (intro dvd_mod dvd_add)
qed

lemma l2_of_table_entry:
  assumes "KERNEL_VA \<le> pt" "2 ^ 10 dvd unat pt" "2 ^ 10 dvd unat kpb"
  shows "l2_of kpb (table_entry (virt_to_phys kpb pt)) = pt"
proof -
  have "2 ^ 10 dvd unat (pt - KERNEL_VA)"
  proof -
    have "unat (pt - KERNEL_VA) = unat pt - unat (KERNEL_VA)" using assms(1) by (simp add: unat_sub)
    moreover have "(2 :: nat) ^ 10 dvd unat (KERNEL_VA)" by (simp add: dvd_eq_mod_eq_0)
    ultimately show ?thesis using assms(2) by (simp only: dvd_diff_nat)
  qed
  then have "2 ^ 10 dvd unat (kpb + (pt - KERNEL_VA))" using assms(3) by (intro dvd_unat_add) auto
  then have "push_bit 10 (drop_bit 10 (kpb + (pt - KERNEL_VA))) = kpb + (pt - KERNEL_VA)" by (rule push_drop_aligned)
  then show ?thesis using assms(1) by (simp add: l2_of_def virt_to_phys_def phys_to_virt_def)
qed

text \<open>A second-level table that can be attached: empty, aligned, in kernel memory, and apart from the tables in use.\<close>

definition fresh_l2 :: "u32 \<Rightarrow> mem \<Rightarrow> u32 \<Rightarrow> u32 \<Rightarrow> bool" where
  "fresh_l2 kpb m pgd pt \<longleftrightarrow> KERNEL_VA \<le> pt \<and> 2 ^ 10 dvd unat pt \<and> is_table pt 256 \<and> apart pgd 32 pt 256 \<and>
     (\<forall>mb. has_l2 m pgd mb \<longrightarrow> apart (l2_table kpb m pgd mb) 256 pt 256) \<and>
     (\<forall>i. unat i < 256 \<longrightarrow> entry m pt i = 0)"

lemma attach_l2_aspace:
  fixes mb :: u32
  assumes ok: "aspace_ok kpb m pgd" and pt: "fresh_l2 kpb m pgd pt" and mb: "unat mb < 32" and kpb: "2 ^ 10 dvd unat kpb"
  defines "m' \<equiv> mmu_attach_l2 kpb pgd mb pt m"
  shows "aspace_ok kpb m' pgd" "has_l2 m' pgd mb" "l2_table kpb m' pgd mb = pt"
    "\<And>b i. unat b < 32 \<Longrightarrow> unat i < 256 \<Longrightarrow> page_of kpb m' pgd b i = (if b = mb then None else page_of kpb m pgd b i)"
proof -
  have pgd: "is_table pgd 32" using ok by (simp add: aspace_ok_def)
  have l1: "entry m' pgd b = (if mb = b then table_entry (virt_to_phys kpb pt) else entry m pgd b)" if "unat b < 32" for b
    unfolding m'_def mmu_attach_l2_def by (rule entry_set_same [OF pgd mb that])
  have has: "has_l2 m' pgd b \<longleftrightarrow> b = mb \<or> has_l2 m pgd b" for b using l1 [of b] mb by (auto simp: has_l2_def)
  have tab: "l2_table kpb m' pgd b = (if b = mb then pt else l2_table kpb m pgd b)" if "unat b < 32" for b
    using l1 [OF that] l2_of_table_entry [of pt kpb] pt kpb by (auto simp: l2_table_def fresh_l2_def)
  show "has_l2 m' pgd mb" "l2_table kpb m' pgd mb = pt" using has tab mb by auto
  have tab': "has_l2 m' pgd b \<Longrightarrow> l2_table kpb m' pgd b = (if b = mb then pt else l2_table kpb m pgd b)" for b
    using tab mb by (auto simp: has_l2_def)
  show "aspace_ok kpb m' pgd"
    unfolding aspace_ok_def
  proof (intro conjI allI impI)
    fix b assume b: "has_l2 m' pgd b"
    show "is_table (l2_table kpb m' pgd b) 256" "apart pgd 32 (l2_table kpb m' pgd b) 256"
      unfolding tab' [OF b] using b ok pt by (auto simp: has aspace_ok_def fresh_l2_def)
  next
    fix a b assume ab: "has_l2 m' pgd a \<and> has_l2 m' pgd b \<and> a \<noteq> b"
    then show "apart (l2_table kpb m' pgd a) 256 (l2_table kpb m' pgd b) 256"
      using ok pt tab' [of a] tab' [of b] by (auto simp: has aspace_ok_def fresh_l2_def intro: apart_sym)
  qed (rule pgd)
  show "page_of kpb m' pgd b i = (if b = mb then None else page_of kpb m pgd b i)" if b: "unat b < 32" "unat i < 256" for b i
  proof -
    have l2: "entry m' t i = entry m t i" if "is_table t 256" "apart pgd 32 t 256" for t
      unfolding m'_def mmu_attach_l2_def by (rule entry_set_other [OF pgd that mb b(2)])
    show ?thesis
    proof (cases "b = mb")
      case True
      have "entry m' pt i = 0" using l2 [of pt] pt b by (simp add: fresh_l2_def)
      then show ?thesis using True b tab by (simp add: page_of_alt l2_type_def l2_of_code_def)
    next
      case False
      then show ?thesis using b has tab l2 ok by (auto simp: page_of_alt aspace_ok_def)
    qed
  qed
qed

section \<open>Properties\<close>

text \<open>An address is its 4 KB page and its offset.\<close>

lemma same_page: "drop_bit 12 a = drop_bit 12 (b :: u32) \<longleftrightarrow> drop_bit 20 a = drop_bit 20 b \<and> L2_IDX a = L2_IDX b"
proof -
  have m: "(0xFF :: u32) = mask 8" by (simp add: mask_eq_exp_minus_1)
  have l2: "bit (L2_IDX v) n \<longleftrightarrow> bit v (n + 12) \<and> n < 8" for v n
    unfolding L2_IDX_def m by (auto simp: bit_simps add.commute)
  have mb: "bit (drop_bit 20 v) n = bit v (n + 20)" for v :: u32 and n by (simp add: bit_drop_bit_eq add.commute)
  have pg: "bit (drop_bit 12 v) n = bit v (n + 12)" for v :: u32 and n by (simp add: bit_drop_bit_eq add.commute)
  show ?thesis
  proof
    assume "drop_bit 12 a = drop_bit 12 b"
    then have eq: "bit a (n + 12) = bit b (n + 12)" for n unfolding pg [symmetric] by simp
    from eq [of "_ + 8"] have "drop_bit 20 a = drop_bit 20 b" by (intro bit_eqI) (simp add: mb add.assoc)
    moreover have "L2_IDX a = L2_IDX b" using eq by (intro bit_eqI) (simp add: l2)
    ultimately show "drop_bit 20 a = drop_bit 20 b \<and> L2_IDX a = L2_IDX b" ..
  next
    assume eq: "drop_bit 20 a = drop_bit 20 b \<and> L2_IDX a = L2_IDX b"
    have "bit a (n + 12) = bit b (n + 12)" for n
    proof (cases "n < 8")
      case True
      have "bit (L2_IDX a) n = bit (L2_IDX b) n" using eq by simp
      then show ?thesis using True by (simp add: l2)
    next
      case False
      have "bit (drop_bit 20 a) (n - 8) = bit (drop_bit 20 b) (n - 8)" using eq by simp
      then show ?thesis using False by (simp add: mb add.commute)
    qed
    then show "drop_bit 12 a = drop_bit 12 b" by (intro bit_eqI) (simp add: pg)
  qed
qed

lemma user_mb: "unat (va :: u32) < 2 ^ 25 \<Longrightarrow> unat (drop_bit 20 va) < 32"
  by (simp add: unat_drop_bit_div less_mult_imp_div_less)

text \<open>C21: \<open>mmu_map_page\<close> changes the meaning of an address space at one page only: after it, the addresses of the page
  of \<open>va\<close> are mapped to the page of \<open>pa\<close> with their offset, all other user addresses are mapped as before, and
  the address space stays well formed.\<close>

theorem mmu_map_page_correct:
  assumes "aspace_ok kpb m pgd" "unat va < 2 ^ 25" "has_l2 m pgd (drop_bit 20 va)"
    "pt = l2_table kpb m pgd (drop_bit 20 va)" "unat x < 2 ^ 25"
  shows "aspace_ok kpb (mmu_map_page pt va pa m) pgd \<and>
    va_lookup kpb (mmu_map_page pt va pa m) pgd x =
      (if drop_bit 12 x = drop_bit 12 va then Some ((pa AND NOT (mask 12)) OR (x AND 0xFFF)) else va_lookup kpb m pgd x)"
  using map_page_aspace(1,4) [OF assms(1,3,4)] user_mb [OF assms(5)] L2_IDX_less [of x]
  by (auto simp: va_lookup_def same_page)

text \<open>Attaching a fresh, empty second-level table to a slot of a process table makes the slot's megabyte
  an unmapped one that can take pages, and leaves every other mapping alone.\<close>

theorem mmu_attach_l2_correct:
  assumes "aspace_ok kpb m pgd" "fresh_l2 kpb m pgd pt" "unat mb < 32" "2 ^ 10 dvd unat kpb" "unat x < 2 ^ 25"
  shows "aspace_ok kpb (mmu_attach_l2 kpb pgd mb pt m) pgd \<and> has_l2 (mmu_attach_l2 kpb pgd mb pt m) pgd mb \<and>
    l2_table kpb (mmu_attach_l2 kpb pgd mb pt m) pgd mb = pt \<and>
    va_lookup kpb (mmu_attach_l2 kpb pgd mb pt m) pgd x =
      (if drop_bit 20 x = mb then None else va_lookup kpb m pgd x)"
  using attach_l2_aspace [OF assms(1-4)] user_mb [OF assms(5)] L2_IDX_less [of x] by (auto simp: va_lookup_def)

text \<open>An empty process table and an empty second-level table in zeroed memory.\<close>

lemma empty_aspace: "aspace_ok 0x40200000 (\<lambda>_. 0) 0xC0050000"
  by (simp add: aspace_ok_def has_l2_def entry_def rd32_def l1_type_def l1_of_code_def is_table_def al4_def)

lemma empty_fresh: "fresh_l2 0x40200000 (\<lambda>_. 0) 0xC0050000 0xC0060000"
  by (simp add: fresh_l2_def has_l2_def entry_def rd32_def l1_type_def l1_of_code_def is_table_def al4_def apart_def dvd_eq_mod_eq_0)

theorem mmu_attach_l2_correct_witness:
  "va_lookup 0x40200000 (mmu_attach_l2 0x40200000 0xC0050000 1 0xC0060000 (\<lambda>_. 0)) 0xC0050000 0x100000 = None \<and>
   has_l2 (mmu_attach_l2 0x40200000 0xC0050000 1 0xC0060000 (\<lambda>_. 0)) 0xC0050000 1"
proof -
  have "drop_bit 20 (0x100000 :: u32) = 1" by (simp add: word_unat_eq_iff unat_drop_bit_div)
  then show ?thesis using mmu_attach_l2_correct [OF empty_aspace empty_fresh, of 1 "0x100000"]
    by (simp add: dvd_eq_mod_eq_0)
qed

theorem mmu_map_page_correct_witness:
  "\<exists>m. va_lookup 0x40200000 (mmu_map_page 0xC0060000 0x100000 0x40500000 m) 0xC0050000 0x100008 = Some 0x40500008"
proof -
  define m where "m = mmu_attach_l2 0x40200000 0xC0050000 1 0xC0060000 (\<lambda>_. 0)"
  have mb: "drop_bit 20 (0x100000 :: u32) = 1" and pg: "drop_bit 12 (0x100008 :: u32) = drop_bit 12 0x100000"
    by (simp_all add: word_unat_eq_iff unat_drop_bit_div)
  note a = attach_l2_aspace [OF empty_aspace empty_fresh, of 1]
  have "aspace_ok 0x40200000 m 0xC0050000" "has_l2 m 0xC0050000 1" "l2_table 0x40200000 m 0xC0050000 1 = 0xC0060000"
    using a by (simp_all add: m_def dvd_eq_mod_eq_0)
  from mmu_map_page_correct [OF this(1), of "0x100000" "0xC0060000" "0x100008" "0x40500000"] this pg
  have "va_lookup 0x40200000 (mmu_map_page 0xC0060000 0x100000 0x40500000 m) 0xC0050000 0x100008 =
    Some ((0x40500000 AND NOT (mask 12)) OR (0x100008 AND 0xFFF))" by (simp add: mb)
  moreover have "(0x40500000 AND NOT (mask 12)) OR (0x100008 AND 0xFFF) = (0x40500008 :: u32)" by (simp add: mask_eq_exp_minus_1)
  ultimately show ?thesis by auto
qed

end
