(* ===== verification/Leg_Mmu_Boot.thy ===== *)
theory Leg_Mmu_Boot
  imports Leg_Mmu
begin

text \<open>
  What the boot tables of \<open>map_sections\<close> map: the kernel window, the first megabyte, the device tree and
  the device pages.
\<close>

section \<open>Runs of entries\<close>

lemma entry_run:
  assumes t: "is_table t n" and k: "unat base + k \<le> n" and j: "unat j < n"
  shows "entry (fold (\<lambda>i m. set_entry t (base + w32 i) (f (base + w32 i)) m) [0..<k] m) t j =
    (if unat base \<le> unat j \<and> unat j < unat base + k then f j else entry m t j)"
  using k
proof (induction k)
  case (Suc k)
  have n: "n < 2 ^ 32" using t by (simp add: is_table_def)
  then have b: "unat (base + w32 k) = unat base + k"
    using Suc.prems unat_add_no_wrap [of base "w32 k"] by (simp add: unat_w32)
  have "entry (fold (\<lambda>i m. set_entry t (base + w32 i) (f (base + w32 i)) m) [0..<Suc k] m) t j =
    (if base + w32 k = j then f (base + w32 k)
     else entry (fold (\<lambda>i m. set_entry t (base + w32 i) (f (base + w32 i)) m) [0..<k] m) t j)"
    using entry_set_same [OF t _ j] b Suc.prems by simp
  moreover have "base + w32 k = j \<longleftrightarrow> unat j = unat base + k" using b by (metis word_unat_eq_iff)
  ultimately show ?case using Suc by auto
qed auto

lemma entry_run_other:
  assumes "is_table t n" "is_table t' n'" "apart t n t' n'" "unat j < n'" "\<And>x. x \<in> set xs \<Longrightarrow> unat (g x) < n"
  shows "entry (fold (\<lambda>x m. set_entry t (g x) (f x) m) xs m) t' j = entry m t' j"
  using assms(5)
proof (induction xs arbitrary: m)
  case (Cons x xs)
  then show ?case using entry_set_other [OF assms(1-3) _ assms(4)] by simp
qed simp

section \<open>Section entries\<close>

definition sec_lookup :: "mem \<Rightarrow> u32 \<Rightarrow> u32 \<Rightarrow> u32 option" where
  "sec_lookup m table va =
     (let e = entry m table (drop_bit 20 va)
      in if l1_type e = L1_SECTION then Some (push_bit 20 (sec_address (dec_section e)) OR (va AND 0xFFFFF)) else None)"

lemma take_bit_12: "unat (a :: u32) < 4096 \<Longrightarrow> take_bit 12 a = a"
  by (simp add: take_bit_eq_mod word_unat_eq_iff unat_mod)

lemma sec_entry:
  assumes "unat a < 4096"
  shows "l1_type (section_entry a ap d) = L1_SECTION"
    and "ap \<le> 3 \<Longrightarrow> sec_address (dec_section (section_entry a ap d)) = a"
proof -
  have "take_bit 3 (if d then 0 else 1 :: u32) = (if d then 0 else 1)" by (simp add: take_bit_eq_mod)
  moreover have "take_bit 2 ap = ap" if "ap \<le> 3"
  proof -
    have "unat ap \<le> 3" using that by (simp add: word_le_nat_alt)
    then show ?thesis by (simp add: take_bit_eq_mod word_unat_eq_iff unat_mod)
  qed
  ultimately show "ap \<le> 3 \<Longrightarrow> sec_address (dec_section (section_entry a ap d)) = a"
    using take_bit_12 [OF assms] by (simp add: section_entry_def dec_enc_section)
qed (simp add: section_entry_def)

lemma sec_addr:
  fixes a va :: u32
  assumes "unat a < 4096"
  shows "unat (push_bit 20 a OR (va AND 0xFFFFF)) = 2 ^ 20 * unat a + unat va mod 2 ^ 20"
proof -
  have m: "(0xFFFFF :: u32) = mask 20" by (simp add: mask_eq_exp_minus_1)
  have "push_bit 20 a AND take_bit 20 va = 0" by (rule bit_word_eqI) (auto simp: bit_simps)
  then have "push_bit 20 a OR take_bit 20 va = push_bit 20 a + take_bit 20 va"
    by (rule disjunctive_add_eq_or [symmetric])
  moreover have "unat (push_bit 20 a) = 2 ^ 20 * unat a"
    using assms by (simp add: push_bit_eq_mult unat_word_ariths)
  moreover have "unat (take_bit 20 va) = unat va mod 2 ^ 20" by (simp add: take_bit_eq_mod unat_mod)
  moreover have "2 ^ 20 * unat a + unat va mod 2 ^ 20 < 2 ^ 32"
  proof -
    have "unat va mod 2 ^ 20 < 2 ^ 20" by simp
    moreover have "2 ^ 20 * unat a \<le> 2 ^ 20 * 4095" using assms by simp
    ultimately show ?thesis by simp
  qed
  ultimately show ?thesis unfolding m take_bit_eq_mask [symmetric] by (simp add: unat_add_no_wrap)
qed

lemma sec_lookup_entry:
  assumes "entry m table (drop_bit 20 va) = section_entry a ap d" "unat a < 4096" "ap \<le> 3"
    "unat r = 2 ^ 20 * unat a + unat va mod 2 ^ 20"
  shows "sec_lookup m table va = Some r"
proof -
  have "push_bit 20 a OR (va AND 0xFFFFF) = r"
    using sec_addr [OF assms(2), of va] assms(4) by (simp only: word_unat_eq_iff)
  then show ?thesis using sec_entry [OF assms(2)] assms(1,3) by (simp add: sec_lookup_def)
qed

section \<open>The boot tables\<close>

text \<open>What the linker script and the loader guarantee about the addresses.\<close>

definition boot_layout :: "u32 \<Rightarrow> u32 \<Rightarrow> u32 \<Rightarrow> u32 \<Rightarrow> bool" where
  "boot_layout beg tt dt dtb \<longleftrightarrow>
     (let kphys = (dtb AND NOT 0xFFFFF) + KPHYS_OFFSET; table = kphys + (tt - beg); device_table = kphys + (dt - beg)
      in beg = KERNEL_VA \<and> is_table table 4096 \<and> is_table device_table 256 \<and> apart device_table 256 table 4096 \<and>
         2 ^ 10 dvd unat device_table \<and> 2 ^ 20 \<le> unat dtb \<and> unat dtb < 0xBFC00000)"

lemma boot_numbers:
  assumes "boot_layout beg tt dt dtb"
  defines "kphys \<equiv> (dtb AND NOT 0xFFFFF) + KPHYS_OFFSET"
  shows "unat (drop_bit 20 dtb) = unat dtb div 2 ^ 20" "1 \<le> unat dtb div 2 ^ 20" "unat dtb div 2 ^ 20 < 0xBFC"
    "unat kphys = 2 ^ 20 * (unat dtb div 2 ^ 20 + 2)" "unat (drop_bit 20 kphys) = unat dtb div 2 ^ 20 + 2"
proof -
  have d: "2 ^ 20 \<le> unat dtb" "unat dtb < 0xBFC00000" using assms(1) by (auto simp: boot_layout_def Let_def)
  show q: "unat (drop_bit 20 dtb) = unat dtb div 2 ^ 20" by (rule unat_drop_bit_div)
  show "1 \<le> unat dtb div 2 ^ 20" using d(1) by (simp add: Suc_le_eq div_greater_zero_iff)
  show lt: "unat dtb div 2 ^ 20 < 0xBFC" using d(2) by (intro less_mult_imp_div_less) simp
  have "(NOT 0xFFFFF :: u32) = NOT (mask 20)" by (simp add: mask_eq_exp_minus_1)
  then have "unat (dtb AND NOT 0xFFFFF) = 2 ^ 20 * (unat dtb div 2 ^ 20)"
    by (simp only: and_not_mask_unat minus_mod_eq_mult_div)
  moreover have "2 ^ 20 * (unat dtb div 2 ^ 20) + 2 ^ 20 * 2 < 2 ^ 32" using lt by simp
  ultimately show k: "unat kphys = 2 ^ 20 * (unat dtb div 2 ^ 20 + 2)"
    unfolding kphys_def using unat_add_no_wrap [of "dtb AND NOT 0xFFFFF" "KPHYS_OFFSET"] by simp
  show "unat (drop_bit 20 kphys) = unat dtb div 2 ^ 20 + 2" unfolding unat_drop_bit_div k by simp
qed

lemma boot_entries:
  assumes "boot_layout beg tt dt dtb" "unat j < 4096"
  defines "kphys \<equiv> (dtb AND NOT 0xFFFFF) + KPHYS_OFFSET"
  shows "entry (map_sections beg tt dt dtb m) (kphys + (tt - beg)) j =
    (if unat (drop_bit 20 dtb) \<le> unat j \<and> unat j < unat (drop_bit 20 dtb) + 4 then section_entry j 2 False
     else if 0xC00 \<le> unat j \<and> unat j < 0xC04 then section_entry (drop_bit 20 kphys + (j - 0xC00)) 2 False
     else if j = 0 then section_entry 0 2 False
     else if j = 0xCF0 then table_entry (dt - KERNEL_VA + kphys)
     else entry m (kphys + (tt - beg)) j)"
proof -
  note n = boot_numbers [OF assms(1), folded kphys_def]
  define table where "table = kphys + (tt - beg)"
  define device_table where "device_table = kphys + (dt - beg)"
  have tabs: "is_table table 4096" "is_table device_table 256" "apart device_table 256 table 4096"
    using assms(1) by (auto simp: boot_layout_def Let_def table_def device_table_def kphys_def)
  have c: "drop_bit 20 0xCF000000 = (0xCF0 :: u32)" "drop_bit 20 0xC0000000 = (0xC00 :: u32)"
    by (simp_all add: word_unat_eq_iff unat_drop_bit_div)
  define m1 where "m1 = set_entry table 0xCF0 (table_entry (dt - KERNEL_VA + kphys)) m"
  define m2 where "m2 = fold (\<lambda>x m. set_entry device_table (L2_IDX (fst x)) (device_entry (snd x)) m) boot_devices m1"
  define m3 where "m3 = set_entry table 0 (section_entry 0 2 False) m2"
  define f where "f = (\<lambda>j. section_entry (drop_bit 20 kphys + (j - 0xC00)) 2 False)"
  define m4 where "m4 = fold (\<lambda>i m. set_entry table (0xC00 + w32 i) (f (0xC00 + w32 i)) m) [0..<4] m3"
  define g where "g = (\<lambda>j. section_entry j 2 False)"
  define m5 where "m5 = fold (\<lambda>i m. set_entry table (drop_bit 20 dtb + w32 i) (g (drop_bit 20 dtb + w32 i)) m) [0..<4] m4"
  have ms: "map_sections beg tt dt dtb m = m5"
    by (simp add: map_sections_def Let_def m5_def m4_def m3_def m2_def m1_def f_def g_def table_def device_table_def kphys_def c case_prod_unfold)
  have e1: "entry m1 table j = (if j = 0xCF0 then table_entry (dt - KERNEL_VA + kphys) else entry m table j)"
    unfolding m1_def using entry_set_same [OF tabs(1) _ assms(2), of "0xCF0"] by auto
  have e2: "entry m2 table j = entry m1 table j"
    unfolding m2_def by (rule entry_run_other [OF tabs(2,1,3) assms(2) L2_IDX_less])
  have e3: "entry m3 table j = (if j = 0 then section_entry 0 2 False else entry m2 table j)"
    unfolding m3_def using entry_set_same [OF tabs(1) _ assms(2), of 0] by auto
  have e4: "entry m4 table j = (if 0xC00 \<le> unat j \<and> unat j < 0xC04 then f j else entry m3 table j)"
    unfolding m4_def using entry_run [OF tabs(1) _ assms(2), of "0xC00" 4 f m3] by simp
  have e5: "entry m5 table j = (if unat (drop_bit 20 dtb) \<le> unat j \<and> unat j < unat (drop_bit 20 dtb) + 4 then g j else entry m4 table j)"
    unfolding m5_def using n by (intro entry_run [OF tabs(1) _ assms(2)]) simp
  show ?thesis unfolding ms table_def [symmetric] e5 e4 e3 e2 e1 f_def g_def ..
qed

text \<open>C22: the boot tables map the first four megabytes of kernel addresses exactly as \<open>virt_to_phys\<close> computes
  them (for the physical base that \<^verbatim>\<open>boot.c\<close> sets), and the first megabyte and the four megabytes from
  the device tree onto themselves; device addresses go through the device table.\<close>

theorem boot_tables_map:
  assumes "boot_layout beg tt dt dtb"
  defines "kphys \<equiv> (dtb AND NOT 0xFFFFF) + KPHYS_OFFSET"
  shows "(KERNEL_VA \<le> va \<and> va < KERNEL_VA + 0x400000 \<longrightarrow>
      sec_lookup (map_sections beg tt dt dtb m) (kphys + (tt - beg)) va = Some (virt_to_phys kphys va)) \<and>
    (unat va < 2 ^ 20 \<or> dtb AND NOT 0xFFFFF \<le> va \<and> unat va < unat (dtb AND NOT 0xFFFFF) + 0x400000 \<longrightarrow>
      sec_lookup (map_sections beg tt dt dtb m) (kphys + (tt - beg)) va = Some va) \<and>
    (drop_bit 20 va = 0xCF0 \<longrightarrow>
      entry (map_sections beg tt dt dtb m) (kphys + (tt - beg)) (drop_bit 20 va) = table_entry (kphys + (dt - beg)))"
proof -
  note n = boot_numbers [OF assms(1), folded kphys_def]
  define T where "T = map_sections beg tt dt dtb m"
  define q where "q = unat va div 2 ^ 20"
  define d where "d = unat dtb div 2 ^ 20"
  have mb: "unat (drop_bit 20 va) = q" by (simp add: q_def unat_drop_bit_div)
  have q: "q < 4096" unfolding q_def by (rule less_mult_imp_div_less) simp
  have va: "unat va = 2 ^ 20 * q + unat va mod 2 ^ 20" by (simp add: q_def)
  note e = boot_entries [OF assms(1), of "drop_bit 20 va" m, folded kphys_def T_def, unfolded mb n(1), folded d_def]
  note n' = n [folded d_def]
  have window: "sec_lookup T (kphys + (tt - beg)) va = Some (virt_to_phys kphys va)"
    if w: "KERNEL_VA \<le> va" "va < KERNEL_VA + 0x400000"
  proof -
    have u: "0xC0000000 \<le> unat va" "unat va < 0xC0400000" using w by (simp_all add: word_le_nat_alt word_less_nat_alt)
    have qb: "0xC00 \<le> q" "q < 0xC04" using div_le_mono [OF u(1), of "2 ^ 20"] less_mult_imp_div_less [of "unat va" "0xC04" "2 ^ 20"] u(2) by (simp_all add: q_def)
    have "unat (drop_bit 20 va - 0xC00) = q - 0xC00" using qb mb by (simp add: unat_sub word_le_nat_alt)
    then have a: "unat (drop_bit 20 kphys + (drop_bit 20 va - 0xC00)) = d + 2 + (q - 0xC00)"
      using n' qb unat_add_no_wrap [of "drop_bit 20 kphys" "drop_bit 20 va - 0xC00"] by simp
    have "unat (va - KERNEL_VA) = unat va - 0xC0000000" using w(1) by (simp add: unat_sub)
    then have r: "unat (kphys + (va - KERNEL_VA)) = 2 ^ 20 * (d + 2) + (unat va - 0xC0000000)"
      using n' u unat_add_no_wrap [of kphys "va - KERNEL_VA"] by simp
    show ?thesis
    proof (rule sec_lookup_entry)
      show "entry T (kphys + (tt - beg)) (drop_bit 20 va) = section_entry (drop_bit 20 kphys + (drop_bit 20 va - 0xC00)) 2 False"
        using e q qb n' by simp
      show "unat (virt_to_phys kphys va) = 2 ^ 20 * unat (drop_bit 20 kphys + (drop_bit 20 va - 0xC00)) + unat va mod 2 ^ 20"
        unfolding a virt_to_phys_def using r w(1) va qb(1) by simp
    qed (use a n' qb in simp_all)
  qed
  have ident: "sec_lookup T (kphys + (tt - beg)) va = Some va" if "q = 0 \<or> d \<le> q \<and> q < d + 4"
  proof (rule sec_lookup_entry)
    have z: "drop_bit 20 va = 0 \<longleftrightarrow> q = 0" using mb by (simp add: word_unat_eq_iff)
    show "entry T (kphys + (tt - beg)) (drop_bit 20 va) = section_entry (drop_bit 20 va) 2 False"
      using e q that z n' by auto
  qed (use q mb va in simp_all)
  have dtb: "unat (dtb AND NOT 0xFFFFF) = 2 ^ 20 * d"
  proof -
    have "(NOT 0xFFFFF :: u32) = NOT (mask 20)" by (simp add: mask_eq_exp_minus_1)
    then show ?thesis by (simp only: and_not_mask_unat minus_mod_eq_mult_div d_def)
  qed
  have range: "d \<le> q \<and> q < d + 4" if "dtb AND NOT 0xFFFFF \<le> va" "unat va < unat (dtb AND NOT 0xFFFFF) + 0x400000"
  proof -
    have "2 ^ 20 * d \<le> unat va" "unat va < 2 ^ 20 * (d + 4)" using that dtb by (simp_all add: word_le_nat_alt)
    then show ?thesis
      using div_le_mono [of "2 ^ 20 * d" "unat va" "2 ^ 20"] less_mult_imp_div_less [of "unat va" "d + 4" "2 ^ 20"] by (simp add: q_def mult.commute)
  qed
  have dev: "entry T (kphys + (tt - beg)) (drop_bit 20 va) = table_entry (kphys + (dt - beg))" if "drop_bit 20 va = 0xCF0"
  proof -
    have "q = 0xCF0" using mb that by simp
    moreover have "dt - KERNEL_VA + kphys = kphys + (dt - beg)" using assms(1) by (simp add: boot_layout_def Let_def)
    moreover have "entry T (kphys + (tt - beg)) (drop_bit 20 va) = table_entry (dt - KERNEL_VA + kphys)"
      using e n' that calculation(1) by simp
    ultimately show ?thesis by (simp only: add.commute)
  qed
  have "unat va < 2 ^ 20 \<Longrightarrow> q = 0" by (simp add: q_def)
  then show ?thesis using window ident range dev unfolding T_def by blast
qed

theorem boot_tables_map_witness:
  "sec_lookup (map_sections 0xC0000000 0xC0044000 0xC0048000 0x40000000 (\<lambda>_. 0)) 0x40244000 0xC0123456 = Some 0x40323456"
proof -
  have "boot_layout 0xC0000000 0xC0044000 0xC0048000 0x40000000"
    by (simp add: boot_layout_def Let_def is_table_def apart_def al4_def)
  then show ?thesis using boot_tables_map [of "0xC0000000" "0xC0044000" "0xC0048000" "0x40000000" "0xC0123456" "\<lambda>_. 0"]
    by (simp add: virt_to_phys_def)
qed

end
