(* ===== verification/Leg_Dtb.thy ===== *)
theory Leg_Dtb
  imports Leg_Cstring Leg_Utils
begin

text \<open>
  The device tree parser \<^verbatim>\<open>src/kernel/dtb.c\<close>. The blob is read from byte memory; the arrays of nodes and
  properties that the caller's allocator provides are lists, a pointer into them is an index, and the
  unused tail of the node array is not represented (its first free entry is the length of the list). The
  fields \<open>blob\<close>, \<open>blob_len\<close> and \<open>alloc\<close> of the parser are never read and left out. A tree is queried through
  the same two arrays. String literals, which the code only compares with, are byte lists.
\<close>

section \<open>Data\<close>

abbreviation (input) DTB_MAGIC :: u32 where "DTB_MAGIC \<equiv> 0xd00dfeed"
abbreviation (input) DTB_MAX_NODES :: nat where "DTB_MAX_NODES \<equiv> 256"
abbreviation (input) DTB_MAX_PROPS :: u32 where "DTB_MAX_PROPS \<equiv> 1024"
abbreviation (input) DTB_BEGIN_NODE :: u32 where "DTB_BEGIN_NODE \<equiv> 1"
abbreviation (input) DTB_END_NODE :: u32 where "DTB_END_NODE \<equiv> 2"
abbreviation (input) DTB_PROP :: u32 where "DTB_PROP \<equiv> 3"
abbreviation (input) DTB_NOP :: u32 where "DTB_NOP \<equiv> 4"
abbreviation (input) DTB_END :: u32 where "DTB_END \<equiv> 9"

datatype dtb_val_type_t = DTB_VAL_EMPTY | DTB_VAL_U32 | DTB_VAL_U64 | DTB_VAL_STRING | DTB_VAL_STRINGS
  | DTB_VAL_BYTES | DTB_VAL_CELLS

datatype dtb_err_t = DTB_OK | DTB_ERR_NULL | DTB_ERR_MAGIC | DTB_ERR_VERSION | DTB_ERR_TRUNCATED | DTB_ERR_NOMEM
  | DTB_ERR_OVERFLOW | DTB_ERR_CORRUPT

record dtb_prop_t =
  p_name :: u32
  p_data :: u32
  p_len :: u32
  p_type :: dtb_val_type_t

record dtb_node_t =
  n_name :: u32
  n_parent :: "nat option"
  n_children :: "nat option"
  n_next :: "nat option"
  n_props :: "u32 option"
  n_prop_count :: u32
  n_phandle :: u32
  n_address_cells :: u32
  n_size_cells :: u32

record dt_arrays =
  node_pool :: "dtb_node_t list"
  prop_pool :: "dtb_prop_t list"

record parser_t = dt_arrays +
  struct_block :: u32
  string_block :: u32
  struct_size :: u32
  string_size :: u32
  prop_used :: u32

record dtb_tree_t =
  t_root :: "nat option"
  t_memory :: "(u64 \<times> u64) list"
  t_boot_cpuid :: u32
  t_compatible :: u32

section \<open>Comparison with literals\<close>

text \<open>\<open>strcmp(a, lit) == 0\<close>, and \<open>strncmp(a, lit, n) == 0\<close> for the length of the literal.\<close>

fun str_eq :: "mem \<Rightarrow> u32 \<Rightarrow> u8 list \<Rightarrow> bool" where
  "str_eq m a [] = (m a = 0)"
| "str_eq m a (c # cs) = (m a = c \<and> str_eq m (a + 1) cs)"

fun str_starts :: "mem \<Rightarrow> u32 \<Rightarrow> u8 list \<Rightarrow> bool" where
  "str_starts m a [] = True"
| "str_starts m a (c # cs) = (m a = c \<and> str_starts m (a + 1) cs)"

section \<open>Allocation and bounds\<close>

definition upd_node :: "nat \<Rightarrow> (dtb_node_t \<Rightarrow> dtb_node_t) \<Rightarrow> 'a dt_arrays_scheme \<Rightarrow> 'a dt_arrays_scheme" where
  "upd_node i f p = p\<lparr>node_pool := (node_pool p)[i := f (node_pool p ! i)]\<rparr>"

definition alloc_node :: "parser_t \<Rightarrow> nat option \<times> parser_t" where
  "alloc_node p =
     (if length (node_pool p) \<ge> DTB_MAX_NODES then (None, p)
      else (Some (length (node_pool p)),
            p\<lparr>node_pool := node_pool p @
              [\<lparr>n_name = 0, n_parent = None, n_children = None, n_next = None, n_props = None, n_prop_count = 0,
                n_phandle = 0, n_address_cells = 2, n_size_cells = 1\<rparr>]\<rparr>))"

definition alloc_props :: "parser_t \<Rightarrow> u32 \<Rightarrow> u32 option \<times> parser_t" where
  "alloc_props p count =
     (if prop_used p + count > DTB_MAX_PROPS then (None, p)
      else (Some (prop_used p), p\<lparr>prop_used := prop_used p + count\<rparr>))"

definition in_struct :: "parser_t \<Rightarrow> u32 \<Rightarrow> u32 \<Rightarrow> bool" where
  "in_struct p addr len =
     (let base = struct_block p; end_addr = base + struct_size p
      in addr \<ge> base \<and> addr + len \<le> end_addr \<and> addr + len \<ge> addr)"

section \<open>Type heuristic\<close>

definition u32_names :: "u8 list list" where
  "u32_names = map ascii
     [''#address-cells'', ''#size-cells'', ''#interrupt-cells'', ''interrupt-parent'',
      ''phandle'', ''linux,phandle'', ''clock-frequency'', ''timebase-frequency'',
      ''virtual-reg'', ''cache-line-size'', ''cache-sets'', ''cache-size'']"

definition guess_type :: "mem \<Rightarrow> u32 \<Rightarrow> u32 \<Rightarrow> u32 \<Rightarrow> dtb_val_type_t" where
  "guess_type m name data len =
     (if len = 0 then DTB_VAL_EMPTY
      else if list_ex (str_eq m name) u32_names \<and> len = 4 then DTB_VAL_U32
      else if str_eq m name (ascii ''clock-output-names'') \<and> len = 8 then DTB_VAL_U64
      else
        let bytes = map (\<lambda>i. m (data + w32 i)) [0..<unat len];
            all_str = list_all (\<lambda>c. \<not> (c \<noteq> 0 \<and> (c < 0x20 \<or> c > 0x7e))) bytes
        in if all_str \<and> m (data + (len - 1)) = 0
           then (if length (filter (\<lambda>c. c = 0) bytes) > 1 then DTB_VAL_STRINGS else DTB_VAL_STRING)
           else if len mod 4 = 0 then DTB_VAL_CELLS
           else DTB_VAL_BYTES)"

section \<open>Recursive descent\<close>

text \<open>Both loops over a node name: up to the terminator or the end of the structure block.\<close>

partial_function (option) scan_name :: "mem \<Rightarrow> parser_t \<Rightarrow> u32 \<Rightarrow> u32 option" where
  "scan_name m p cur = (if in_struct p cur 1 \<and> m cur \<noteq> 0 then scan_name m p (cur + 1) else Some cur)"

definition pad4 :: "parser_t \<Rightarrow> u32 \<Rightarrow> u32" where
  "pad4 p off = struct_block p + ((off + 3) AND NOT 3)"

text \<open>The look-ahead that counts the properties of the node; it may run forever on a length that wraps.\<close>

partial_function (option) count_props :: "mem \<Rightarrow> parser_t \<Rightarrow> u32 \<Rightarrow> u32 \<Rightarrow> u32 \<Rightarrow> u32 option" where
  "count_props m p scan depth prop_count =
     (if \<not> in_struct p scan 4 then Some prop_count
      else
        let tok = be32_read m scan; scan = scan + 4
        in if tok = DTB_NOP then count_props m p scan depth prop_count
           else if tok = DTB_END_NODE
           then (if depth = 0 then Some prop_count else count_props m p scan (depth - 1) prop_count)
           else if tok = DTB_BEGIN_NODE
           then Option.bind (scan_name m p scan) (\<lambda>scan.
                  count_props m p (pad4 p (scan + 1 - struct_block p)) (depth + 1) prop_count)
           else if tok = DTB_PROP
           then if \<not> in_struct p scan 8 then Some prop_count
                else
                  let plen = be32_read m scan; scan = scan + 8
                  in count_props m p (pad4 p (scan - struct_block p + plen)) depth
                       (if depth = 0 then prop_count + 1 else prop_count)
           else if tok = DTB_END then Some prop_count
           else count_props m p scan depth prop_count)"

text \<open>\<open>parse_node\<close> up to its main loop: name, fresh node, inherited cell counts, property array.\<close>

definition node_begin ::
  "mem \<Rightarrow> u32 \<Rightarrow> nat option \<Rightarrow> parser_t \<Rightarrow> ((nat \<times> u32 \<times> u32) option \<times> parser_t) option" where
  "node_begin m cur parent p =
     Option.bind (scan_name m p cur) (\<lambda>e.
       let name = cur; name_offset = cur - struct_block p; name_len = e - cur;
           padded = (name_offset + name_len + 1 + 3) AND NOT 3; cur = struct_block p + padded
       in case alloc_node p of
            (None, p) \<Rightarrow> Some (None, p)
          | (Some node, p) \<Rightarrow>
              let p = upd_node node (\<lambda>n. n\<lparr>n_name := name, n_parent := parent\<rparr>) p;
                  p = (case parent of
                         None \<Rightarrow> p
                       | Some q \<Rightarrow> upd_node node (\<lambda>n. n\<lparr>n_address_cells := n_address_cells (node_pool p ! q),
                                                         n_size_cells := n_size_cells (node_pool p ! q)\<rparr>) p)
              in Option.bind (count_props m p cur 0 0) (\<lambda>prop_count.
                   let (props, p) = (if prop_count > 0 then alloc_props p prop_count else (None, p))
                   in if prop_count > 0 \<and> props = None then Some (None, p)
                      else Some (Some (node, cur, prop_count),
                                 upd_node node (\<lambda>n. n\<lparr>n_props := props, n_prop_count := 0\<rparr>) p)))"

text \<open>One property of the main loop; the result is the next position, or 0 for the return of a null pointer.\<close>

definition parse_prop :: "mem \<Rightarrow> nat \<Rightarrow> u32 \<Rightarrow> u32 \<Rightarrow> parser_t \<Rightarrow> u32 \<times> parser_t" where
  "parse_prop m node prop_count cur p =
     (if \<not> in_struct p cur 8 then (0, p)
      else
        let plen = be32_read m cur; nameoff = be32_read m (cur + 4); cur = cur + 8
        in if nameoff \<ge> string_size p then (0, p)
           else
             let pname = string_block p + nameoff; pdata = cur;
                 cur = pad4 p (cur - struct_block p + plen); n = node_pool p ! node
             in if n_prop_count n \<ge> prop_count then (0, p)
                else
                  let i = unat (the (n_props n) + n_prop_count n);
                      p = upd_node node (\<lambda>n. n\<lparr>n_prop_count := n_prop_count n + 1\<rparr>) p;
                      p = p\<lparr>prop_pool := (prop_pool p)[i := \<lparr>p_name = pname, p_data = pdata, p_len = plen,
                                                             p_type = guess_type m pname pdata plen\<rparr>]\<rparr>
                  in (cur,
                      if str_eq m pname (ascii ''#address-cells'') \<and> plen = 4
                      then upd_node node (\<lambda>n. n\<lparr>n_address_cells := be32_read m pdata\<rparr>) p
                      else if str_eq m pname (ascii ''#size-cells'') \<and> plen = 4
                      then upd_node node (\<lambda>n. n\<lparr>n_size_cells := be32_read m pdata\<rparr>) p
                      else if (str_eq m pname (ascii ''phandle'') \<or> str_eq m pname (ascii ''linux,phandle'')) \<and> plen = 4
                      then upd_node node (\<lambda>n. n\<lparr>n_phandle := be32_read m pdata\<rparr>) p
                      else p))"

partial_function (option) last_sibling :: "dtb_node_t list \<Rightarrow> nat \<Rightarrow> nat option" where
  "last_sibling ns i = (case n_next (ns ! i) of None \<Rightarrow> Some i | Some j \<Rightarrow> last_sibling ns j)"

definition link_child :: "nat \<Rightarrow> nat \<Rightarrow> parser_t \<Rightarrow> parser_t option" where
  "link_child node child p =
     (case n_children (node_pool p ! node) of
        None \<Rightarrow> Some (upd_node node (\<lambda>n. n\<lparr>n_children := Some child\<rparr>) p)
      | Some sib \<Rightarrow> Option.bind (last_sibling (node_pool p) sib) (\<lambda>sib.
          Some (upd_node sib (\<lambda>n. n\<lparr>n_next := Some child\<rparr>) p)))"

text \<open>The main loop of \<open>parse_node\<close>, with the recursive call for a child in place.\<close>

partial_function (option) parse_loop ::
  "mem \<Rightarrow> nat \<Rightarrow> u32 \<Rightarrow> u32 \<Rightarrow> parser_t \<Rightarrow> (u32 \<times> parser_t) option" where
  "parse_loop m node prop_count cur p =
     (if \<not> in_struct p cur 4 then Some (0, p)
      else
        let tok = be32_read m cur; cur = cur + 4
        in if tok = DTB_NOP then parse_loop m node prop_count cur p
           else if tok = DTB_END_NODE \<or> tok = DTB_END then Some (cur, p)
           else if tok = DTB_PROP
           then let (cur, p) = parse_prop m node prop_count cur p
                in if cur = 0 then Some (0, p) else parse_loop m node prop_count cur p
           else if tok = DTB_BEGIN_NODE
           then Option.bind (node_begin m cur (Some node) p) (\<lambda>(r, p).
                  case r of
                    None \<Rightarrow> Some (0, p)
                  | Some (child, cur, count) \<Rightarrow>
                      Option.bind (parse_loop m child count cur p) (\<lambda>(cur, p).
                        if cur = 0 then Some (0, p)
                        else Option.bind (link_child node child p) (\<lambda>p. parse_loop m node prop_count cur p)))
           else parse_loop m node prop_count cur p)"

definition parse_node ::
  "mem \<Rightarrow> u32 \<Rightarrow> nat option \<Rightarrow> parser_t \<Rightarrow> (u32 \<times> nat option \<times> parser_t) option" where
  "parse_node m cur parent p =
     Option.bind (node_begin m cur parent p) (\<lambda>(r, p).
       case r of
         None \<Rightarrow> Some (0, None, p)
       | Some (node, cur, prop_count) \<Rightarrow>
           Option.bind (parse_loop m node prop_count cur p) (\<lambda>(cur, p).
             Some (cur, if cur = 0 then None else Some node, p)))"

end
