(* ===== verification/Leg_Dtb_Flat.thy ===== *)
theory Leg_Dtb_Flat
  imports Leg_Dtb
begin

text \<open>
  The flattened device tree format and what the parser makes of it. \<open>items\<close> is the token stream of one node
  up to its end token: properties, children and no-ops in any order. \<open>holds\<close> says that a structure block
  contains it, \<open>dtree\<close> is the tree it denotes, and \<open>rep\<close> reads a tree back from the arrays of the parser, which
  are filled in preorder. \<open>parse_items\<close> is the correctness of the main loop: on a well-formed block that fits
  into the arrays it ends behind the node and the arrays represent the tree.
\<close>

section \<open>The format\<close>

datatype items = Done | Nop items | Prop "u8 list" "u8 list" items | Child "u8 list" items items

definition up4 :: "nat \<Rightarrow> nat" where
  "up4 n = (n + 3) div 4 * 4"

fun isize :: "items \<Rightarrow> nat" where
  "isize Done = 4"
| "isize (Nop r) = 4 + isize r"
| "isize (Prop nm ds r) = 12 + up4 (length ds) + isize r"
| "isize (Child nm sub r) = 4 + up4 (length nm + 1) + isize sub + isize r"

fun holds :: "mem \<Rightarrow> parser_t \<Rightarrow> nat \<Rightarrow> items \<Rightarrow> bool" where
  "holds m p o1 Done \<longleftrightarrow> be32_read m (struct_block p + w32 o1) = DTB_END_NODE"
| "holds m p o1 (Nop r) \<longleftrightarrow> be32_read m (struct_block p + w32 o1) = DTB_NOP \<and> holds m p (o1 + 4) r"
| "holds m p o1 (Prop nm ds r) \<longleftrightarrow>
     be32_read m (struct_block p + w32 o1) = DTB_PROP \<and>
     be32_read m (struct_block p + w32 (o1 + 4)) = w32 (length ds) \<and>
     be32_read m (struct_block p + w32 (o1 + 8)) < string_size p \<and>
     cstr_at m (string_block p + be32_read m (struct_block p + w32 (o1 + 8))) nm \<and>
     (\<forall>k < length ds. m (struct_block p + w32 (o1 + 12) + w32 k) = ds ! k) \<and>
     holds m p (o1 + 12 + up4 (length ds)) r"
| "holds m p o1 (Child nm sub r) \<longleftrightarrow>
     be32_read m (struct_block p + w32 o1) = DTB_BEGIN_NODE \<and>
     cstr_at m (struct_block p + w32 (o1 + 4)) nm \<and>
     holds m p (o1 + 4 + up4 (length nm + 1)) sub \<and>
     holds m p (o1 + 4 + up4 (length nm + 1) + isize sub) r"

section \<open>The tree\<close>

datatype dtree = Node (d_name: "u8 list") (d_cells: "u32 \<times> u32 \<times> u32") (d_props: "(u8 list \<times> u8 list) list")
  (d_kids: "dtree list")

definition be32_list :: "u8 list \<Rightarrow> u32" where
  "be32_list ds = be32_read (\<lambda>a. ds ! unat a) 0"

text \<open>Address cells, size cells and handle of a node, as its properties set them.\<close>

definition set_cells :: "u8 list \<Rightarrow> u8 list \<Rightarrow> u32 \<times> u32 \<times> u32 \<Rightarrow> u32 \<times> u32 \<times> u32" where
  "set_cells nm ds c =
     (let (ac, sc, ph) = c
      in if nm = ascii ''#address-cells'' \<and> length ds = 4 then (be32_list ds, sc, ph)
         else if nm = ascii ''#size-cells'' \<and> length ds = 4 then (ac, be32_list ds, ph)
         else if (nm = ascii ''phandle'' \<or> nm = ascii ''linux,phandle'') \<and> length ds = 4 then (ac, sc, be32_list ds)
         else (ac, sc, ph))"

definition inherit :: "u32 \<times> u32 \<times> u32 \<Rightarrow> u32 \<times> u32 \<times> u32" where
  "inherit c = (fst c, fst (snd c), 0)"

fun cells_of :: "items \<Rightarrow> u32 \<times> u32 \<times> u32 \<Rightarrow> u32 \<times> u32 \<times> u32" where
  "cells_of Done c = c"
| "cells_of (Nop r) c = cells_of r c"
| "cells_of (Prop nm ds r) c = cells_of r (set_cells nm ds c)"
| "cells_of (Child nm sub r) c = cells_of r c"

fun props_of :: "items \<Rightarrow> (u8 list \<times> u8 list) list" where
  "props_of Done = []"
| "props_of (Nop r) = props_of r"
| "props_of (Prop nm ds r) = (nm, ds) # props_of r"
| "props_of (Child nm sub r) = props_of r"

fun kids_of :: "items \<Rightarrow> u32 \<times> u32 \<times> u32 \<Rightarrow> dtree list" where
  "kids_of Done c = []"
| "kids_of (Nop r) c = kids_of r c"
| "kids_of (Prop nm ds r) c = kids_of r (set_cells nm ds c)"
| "kids_of (Child nm sub r) c =
     Node nm (cells_of sub (inherit c)) (props_of sub) (kids_of sub (inherit c)) # kids_of r c"

definition tree_of :: "u8 list \<Rightarrow> items \<Rightarrow> dtree" where
  "tree_of nm its = Node nm (cells_of its (2, 1, 0)) (props_of its) (kids_of its (2, 1, 0))"

text \<open>Numbers of nodes and properties.\<close>

fun tsize :: "dtree \<Rightarrow> nat" where
  "tsize (Node nm c ps ts) = Suc (sum_list (map tsize ts))"

fun tprops :: "dtree \<Rightarrow> nat" where
  "tprops (Node nm c ps ts) = length ps + sum_list (map tprops ts)"

section \<open>Reading a tree back\<close>

definition prop_is :: "mem \<Rightarrow> dtb_prop_t \<Rightarrow> u8 list \<times> u8 list \<Rightarrow> bool" where
  "prop_is m pr x \<longleftrightarrow>
     cstr_at m (p_name pr) (fst x) \<and> unat (p_len pr) = length (snd x) \<and>
     unat (p_data pr) + length (snd x) < 2 ^ 32 \<and>
     (\<forall>k < length (snd x). m (p_data pr + w32 k) = snd x ! k) \<and>
     p_type pr = guess_type m (p_name pr) (p_data pr) (p_len pr)"

text \<open>
  Node \<open>i\<close> has a name, cell counts, the properties \<open>ps\<close> so far in a slice of \<open>cnt\<close> entries from \<open>b\<close> on, and its
  children, if any, start at \<open>i + 1\<close>.
\<close>

definition node_is ::
  "mem \<Rightarrow> 'a dt_arrays_scheme \<Rightarrow> nat \<Rightarrow> nat \<Rightarrow> nat \<Rightarrow> u8 list \<Rightarrow> u32 \<times> u32 \<times> u32 \<Rightarrow> (u8 list \<times> u8 list) list \<Rightarrow> bool \<Rightarrow> bool" where
  "node_is m d i b cnt nm c ps leaf \<longleftrightarrow>
     i < length (node_pool d) \<and> b + cnt \<le> length (prop_pool d) \<and> length (prop_pool d) = 1024 \<and> length ps \<le> cnt \<and>
     (let n = node_pool d ! i
      in cstr_at m (n_name n) nm \<and> n_address_cells n = fst c \<and> n_size_cells n = fst (snd c) \<and> n_phandle n = snd (snd c) \<and>
         n_prop_count n = w32 (length ps) \<and> n_props n = (if cnt = 0 then None else Some (w32 b)) \<and>
         (\<forall>k < length ps. prop_is m (prop_pool d ! (b + k)) (ps ! k)) \<and>
         n_children n = (if leaf then None else Some (Suc i)))"

fun rep :: "mem \<Rightarrow> 'a dt_arrays_scheme \<Rightarrow> nat \<Rightarrow> nat \<Rightarrow> dtree \<Rightarrow> bool"
  and rep_kids :: "mem \<Rightarrow> 'a dt_arrays_scheme \<Rightarrow> nat \<Rightarrow> nat \<Rightarrow> nat \<Rightarrow> dtree list \<Rightarrow> bool" where
  "rep m d i b (Node nm c ps ts) \<longleftrightarrow>
     node_is m d i b (length ps) nm c ps (ts = []) \<and> rep_kids m d i (Suc i) (b + length ps) ts"
| "rep_kids m d q j b [] \<longleftrightarrow> True"
| "rep_kids m d q j b (t # ts) \<longleftrightarrow>
     rep m d j b t \<and> n_parent (node_pool d ! j) = Some q \<and>
     n_next (node_pool d ! j) = (if ts = [] then None else Some (j + tsize t)) \<and>
     rep_kids m d q (j + tsize t) (b + tprops t) ts"

end
