(* ===== verification/Leg_Dtb_Parse.thy ===== *)
theory Leg_Dtb_Parse
  imports Leg_Dtb_Flat
begin

text \<open>Correctness of the recursive descent of the device tree parser.\<close>

section \<open>Trees in the arrays\<close>

lemma tsize_pos [simp]: "0 < tsize t"
  by (cases t) simp

lemma upd_node_sel [simp]:
  "node_pool (upd_node i f p) = (node_pool p)[i := f (node_pool p ! i)]" "prop_pool (upd_node i f p) = prop_pool p"
  by (simp_all add: upd_node_def)

lemma rep_frame:
  "rep m d i b t \<Longrightarrow> \<forall>j. i \<le> j \<and> j < i + tsize t \<longrightarrow> node_pool d' ! j = node_pool d ! j \<Longrightarrow>
    \<forall>k. b \<le> k \<and> k < b + tprops t \<longrightarrow> prop_pool d' ! k = prop_pool d ! k \<Longrightarrow>
    length (node_pool d) \<le> length (node_pool d') \<Longrightarrow> length (prop_pool d') = 1024 \<Longrightarrow> rep m d' i b t"
  "rep_kids m d q i b ts \<Longrightarrow> \<forall>j. i \<le> j \<and> j < i + sum_list (map tsize ts) \<longrightarrow> node_pool d' ! j = node_pool d ! j \<Longrightarrow>
    \<forall>k. b \<le> k \<and> k < b + sum_list (map tprops ts) \<longrightarrow> prop_pool d' ! k = prop_pool d ! k \<Longrightarrow>
    length (node_pool d) \<le> length (node_pool d') \<Longrightarrow> length (prop_pool d') = 1024 \<Longrightarrow> rep_kids m d' q i b ts"
proof (induction m d i b t and m d q i b ts rule: rep_rep_kids.induct)
  case (1 m d i b nm c ps ts)
  have "node_is m d' i b (length ps) nm c ps (ts = [])"
    using 1(2-) by (auto simp: node_is_def Let_def)
  then show ?case using 1 by simp
next
  case (3 m d q j b t ts)
  have "rep m d' j b t" using 3(3-) by (intro 3(1)) auto
  moreover have "rep_kids m d' q (j + tsize t) (b + tprops t) ts" using 3(3-) by (intro 3(2)) auto
  ultimately show ?case using 3(3-) by simp
qed simp

lemma rep_next [simp]:
  "rep m (upd_node i (\<lambda>n. n\<lparr>n_next := x\<rparr>) d) i b t \<longleftrightarrow> rep m d i b t"
proof (cases t)
  case (Node nm c ps ts)
  let ?d = "upd_node i (\<lambda>n. n\<lparr>n_next := x\<rparr>) d"
  have n: "node_is m ?d i b (length ps) nm c ps l \<longleftrightarrow> node_is m d i b (length ps) nm c ps l" for l
    by (auto simp: node_is_def Let_def nth_list_update)
  have "rep_kids m ?d i (Suc i) (b + length ps) ts \<longleftrightarrow> rep_kids m d i (Suc i) (b + length ps) ts"
    if "length (prop_pool d) = 1024"
    using that by (intro iffI; elim rep_frame(2)) auto
  moreover have "node_is m d i b (length ps) nm c ps l \<Longrightarrow> length (prop_pool d) = 1024" for l by (simp add: node_is_def)
  ultimately show ?thesis using n by (auto simp: Node)
qed

text \<open>The last child, and a child appended behind it.\<close>

fun last_at :: "nat \<Rightarrow> dtree list \<Rightarrow> nat" where
  "last_at j [] = j"
| "last_at j [t] = j"
| "last_at j (t # ts) = last_at (j + tsize t) ts"

lemma last_at_bounds: "ts \<noteq> [] \<Longrightarrow> j \<le> last_at j ts \<and> last_at j ts < j + sum_list (map tsize ts)"
proof (induction j ts rule: last_at.induct)
  case (3 j t t2 ts)
  then show ?case by simp
qed auto

lemma last_sibling_kids: "ts \<noteq> [] \<Longrightarrow> rep_kids m d q j b ts \<Longrightarrow> last_sibling (node_pool d) j = Some (last_at j ts)"
proof (induction j ts arbitrary: b rule: last_at.induct)
  case (3 j t t2 ts)
  then have "last_sibling (node_pool d) (j + tsize t) = Some (last_at (j + tsize t) (t2 # ts))"
    using 3(1) [of "b + tprops t"] by simp
  then show ?case using 3(3) by (subst last_sibling.simps) simp
qed (auto simp: last_sibling.simps)

lemma rep_kids_snoc:
  assumes "rep_kids m d q j b ts" "ts \<noteq> []" "rep m d (j + sum_list (map tsize ts)) (b + sum_list (map tprops ts)) t"
    "n_parent (node_pool d ! (j + sum_list (map tsize ts))) = Some q" "n_next (node_pool d ! (j + sum_list (map tsize ts))) = None"
    "j + sum_list (map tsize ts) < length (node_pool d)" "length (prop_pool d) = 1024"
  shows "rep_kids m (upd_node (last_at j ts) (\<lambda>n. n\<lparr>n_next := Some (j + sum_list (map tsize ts))\<rparr>) d) q j b (ts @ [t])"
  using assms
proof (induction j ts arbitrary: b rule: last_at.induct)
  case (2 j t1)
  let ?d = "upd_node j (\<lambda>n. n\<lparr>n_next := Some (j + tsize t1)\<rparr>) d"
  have "rep m ?d (j + tsize t1) (b + tprops t1) t"
    using 2(3,7) tsize_pos [of t1] by (auto elim!: rep_frame(1) simp del: tsize_pos)
  then show ?case using 2 by (simp add: nth_list_update)
next
  case (3 j t1 t2 ts)
  let ?N = "j + sum_list (map tsize (t1 # t2 # ts))" and ?l = "last_at (j + tsize t1) (t2 # ts)"
  let ?d = "upd_node ?l (\<lambda>n. n\<lparr>n_next := Some ?N\<rparr>) d"
  have l: "j + tsize t1 \<le> ?l" "?l < ?N" using last_at_bounds [of "t2 # ts" "j + tsize t1"] by auto
  have "rep_kids m ?d q (j + tsize t1) (b + tprops t1) ((t2 # ts) @ [t])"
    using 3(1) [of "b + tprops t1"] 3(2-) by (simp add: add.assoc)
  moreover have "rep m ?d j b t1" using 3(2,8) l by (auto elim!: rep_frame(1))
  moreover have "node_pool ?d ! j = node_pool d ! j" using l tsize_pos [of t1] by (simp add: nth_list_update del: tsize_pos)
  ultimately show ?case using 3(2) by simp
qed simp

section \<open>Positions in the structure block\<close>

definition geom :: "parser_t \<Rightarrow> bool" where
  "geom p \<longleftrightarrow> unat (struct_block p) + unat (struct_size p) < 2 ^ 32"

lemma unat_pos: "geom p \<Longrightarrow> o1 \<le> unat (struct_size p) \<Longrightarrow> unat (struct_block p + w32 o1) = unat (struct_block p) + o1"
  using unat_add_no_wrap [of "struct_block p" "w32 o1"] by (simp add: geom_def unat_w32)

lemma in_struct_at:
  assumes "geom p" "o1 + k \<le> unat (struct_size p)"
  shows "in_struct p (struct_block p + w32 o1) (w32 k)"
proof -
  have "unat (struct_block p + w32 o1) = unat (struct_block p) + o1" using assms by (intro unat_pos) simp_all
  moreover have "unat (struct_block p + w32 o1 + w32 k) = unat (struct_block p) + (o1 + k)"
    using unat_pos [OF assms] by (simp add: add.assoc)
  moreover have "unat (struct_block p + struct_size p) = unat (struct_block p) + unat (struct_size p)"
    using unat_pos [OF assms(1) order.refl] by simp
  ultimately show ?thesis using assms(2) by (simp add: in_struct_def Let_def word_le_nat_alt)
qed

lemma scan_name_at:
  assumes "geom p" "cstr_at m (struct_block p + w32 o1) nm" "o1 + length nm < unat (struct_size p)"
  shows "scan_name m p (struct_block p + w32 o1) = Some (struct_block p + w32 (o1 + length nm))"
  using assms(2,3)
proof (induction nm arbitrary: o1)
  case Nil
  then show ?case by (simp add: scan_name.simps)
next
  case (Cons x nm)
  have "in_struct p (struct_block p + w32 o1) 1" using in_struct_at [OF assms(1), of o1 1] Cons.prems by simp
  moreover have "scan_name m p (struct_block p + w32 (Suc o1)) = Some (struct_block p + w32 (Suc o1 + length nm))"
    using Cons.prems by (intro Cons.IH) (simp_all add: add_ac)
  ultimately show ?case using Cons.prems by (subst scan_name.simps) (simp add: add_ac)
qed

lemma up4_bounds: "n \<le> up4 n" "up4 n < n + 4" "4 dvd up4 n"
  unfolding up4_def by presburger+

lemma up4_add: "4 dvd o1 \<Longrightarrow> up4 (o1 + n) = o1 + up4 n"
  unfolding up4_def by presburger

lemma isize_dvd [simp]: "4 dvd isize its" and isize_pos: "4 \<le> isize its"
  by (induction its) (auto simp: up4_bounds)

lemma up4_word:
  assumes "n + 3 < 2 ^ 32"
  shows "(w32 n + 3) AND NOT 3 = w32 (up4 n)"
proof -
  have "unat (w32 n + 3) = n + 3"
    using assms unat_add_no_wrap [of "w32 n" 3] by (simp add: unat_w32)
  moreover have "(3 :: u32) = mask 2" by (simp add: mask_eq_exp_minus_1)
  ultimately have "unat ((w32 n + 3) AND NOT 3) = up4 n"
    using and_not_mask_unat [of "w32 n + 3" 2] by (simp add: up4_def minus_mod_eq_div_mult)
  then show ?thesis by (metis w32_unat)
qed

lemma pad4_at: "n + 3 < 2 ^ 32 \<Longrightarrow> pad4 p (w32 n) = struct_block p + w32 (up4 n)"
  by (simp only: pad4_def up4_word)

section \<open>The look-ahead\<close>

lemma pos_next: "struct_block p + w32 o1 + w32 k = struct_block p + w32 (o1 + k)"
  by (simp add: add.assoc)

lemmas pos_consts = pos_next [of _ _ 4, simplified] pos_next [of _ _ 8, simplified] pos_next [of _ _ 1, simplified]

lemma count_props_begin:
  assumes "in_struct p s 4" "be32_read m s = DTB_BEGIN_NODE"
  shows "count_props m p s dep cnt = Option.bind (scan_name m p (s + 4)) (\<lambda>s.
    count_props m p (pad4 p (s + 1 - struct_block p)) (dep + 1) cnt)"
  using assms by (subst count_props.simps) (simp add: Let_def)

lemma count_props_at:
  assumes "geom p"
  shows "holds m p o1 its \<Longrightarrow> 4 dvd o1 \<Longrightarrow> o1 + isize its \<le> unat (struct_size p) \<Longrightarrow> unat dep + isize its < 2 ^ 32 \<Longrightarrow>
    count_props m p (struct_block p + w32 o1) dep cnt =
      (if dep = 0 then Some (cnt + w32 (length (props_of its)))
       else count_props m p (struct_block p + w32 (o1 + isize its)) (dep - 1) cnt)"
proof (induction its arbitrary: o1 dep cnt)
  case Done
  then have "in_struct p (struct_block p + w32 o1) 4" using in_struct_at [OF assms, of o1 4] by simp
  then show ?case using Done by (subst count_props.simps) (simp add: Let_def pos_consts add.assoc)
next
  case (Nop r)
  then have "in_struct p (struct_block p + w32 o1) 4" using in_struct_at [OF assms, of o1 4] by simp
  then show ?case using Nop.prems Nop.IH [of "o1 + 4" dep cnt] by (subst count_props.simps) (simp add: Let_def pos_consts add.assoc)
next
  case (Prop nm ds r)
  have sz: "unat (struct_size p) < 2 ^ 32" using assms by (simp add: geom_def)
  have ds: "length ds \<le> up4 (length ds)" by (rule up4_bounds)
  have i: "in_struct p (struct_block p + w32 o1) 4" "in_struct p (struct_block p + w32 (o1 + 4)) 8"
    using in_struct_at [OF assms, of o1 4] in_struct_at [OF assms, of "o1 + 4" 8] Prop.prems(3) by simp_all
  have "pad4 p (w32 (o1 + 12) + w32 (length ds)) = struct_block p + w32 (up4 (o1 + 12 + length ds))"
  proof -
    have "o1 + 12 + length ds + 4 \<le> unat (struct_size p)" using Prop.prems(3) ds isize_pos [of r] by simp
    then have "o1 + 12 + length ds + 3 < 2 ^ 32" using sz by linarith
    then show ?thesis using pad4_at [of "o1 + 12 + length ds" p] by simp
  qed
  then have pad: "pad4 p (w32 (o1 + 12) + w32 (length ds)) = struct_block p + w32 (o1 + 12 + up4 (length ds))"
    using up4_add [of "o1 + 12"] Prop.prems(2) by simp
  have "count_props m p (struct_block p + w32 o1) dep cnt =
    count_props m p (struct_block p + w32 (o1 + 12 + up4 (length ds))) dep (if dep = 0 then cnt + 1 else cnt)"
    using i Prop.prems(1) pad by (subst count_props.simps) (simp add: Let_def add_ac)
  also have "\<dots> = (if dep = 0 then Some ((if dep = 0 then cnt + 1 else cnt) + w32 (length (props_of r)))
       else count_props m p (struct_block p + w32 (o1 + 12 + up4 (length ds) + isize r)) (dep - 1) (if dep = 0 then cnt + 1 else cnt))"
    using Prop.prems by (intro Prop.IH) (auto simp: up4_bounds)
  finally show ?case by (simp add: add.assoc)
next
  case (Child nm sub r)
  define o2 where "o2 = o1 + 4 + up4 (length nm + 1)"
  have sz: "unat (struct_size p) < 2 ^ 32" using assms by (simp add: geom_def)
  have nm: "length nm + 1 \<le> up4 (length nm + 1)" by (rule up4_bounds)
  have i: "in_struct p (struct_block p + w32 o1) 4"
    using in_struct_at [OF assms, of o1 4] Child.prems(3) by simp
  have name: "scan_name m p (struct_block p + w32 (o1 + 4)) = Some (struct_block p + w32 (o1 + 4 + length nm))"
    using Child.prems(1,3) nm isize_pos [of sub] by (intro scan_name_at [OF assms]) auto
  have up: "up4 (o1 + 4 + (length nm + 1)) = o2"
    using up4_add [of "o1 + 4" "length nm + 1"] Child.prems(2) by (simp add: o2_def)
  have "pad4 p (w32 (o1 + 4 + length nm + 1)) = struct_block p + w32 (up4 (o1 + 4 + (length nm + 1)))"
  proof -
    have "o1 + 4 + length nm + 1 + 4 \<le> unat (struct_size p)" using Child.prems(3) nm isize_pos [of sub] by simp
    then have "o1 + 4 + length nm + 1 + 3 < 2 ^ 32" using sz by linarith
    then show ?thesis using pad4_at [of "o1 + 4 + length nm + 1" p] by (simp add: add.assoc)
  qed
  then have pad: "pad4 p (w32 (o1 + 4 + length nm + 1)) = struct_block p + w32 o2"
    by (simp only: up)
  have dep: "unat (dep + 1) = unat dep + 1" using Child.prems(4) unat_add_no_wrap [of dep 1] isize_pos [of sub] by simp
  have o2: "holds m p o2 sub" "holds m p (o2 + isize sub) r" "4 dvd o2"
    "o2 + isize sub + isize r \<le> unat (struct_size p)" "unat dep + 4 + isize sub + isize r < 2 ^ 32"
    using Child.prems by (simp_all add: o2_def up4_bounds)
  have "count_props m p (struct_block p + w32 o1) dep cnt = count_props m p (struct_block p + w32 o2) (dep + 1) cnt"
    using count_props_begin [OF i, of m] Child.prems(1) name pad by (simp add: add_ac)
  also have "\<dots> = (if dep + 1 = 0 then Some (cnt + w32 (length (props_of sub)))
      else count_props m p (struct_block p + w32 (o2 + isize sub)) (dep + 1 - 1) cnt)"
    using o2 dep by (intro Child.IH(1)) auto
  also have "\<dots> = count_props m p (struct_block p + w32 (o2 + isize sub)) dep cnt"
    using dep by (auto simp: word_unat_eq_iff)
  also have "\<dots> = (if dep = 0 then Some (cnt + w32 (length (props_of r)))
      else count_props m p (struct_block p + w32 (o2 + isize sub + isize r)) (dep - 1) cnt)"
    using o2 by (intro Child.IH(2)) auto
  finally show ?case by (simp add: o2_def add.assoc)
qed

end
