(* ===== verification/Leg_Dtb_Loop.thy ===== *)
theory Leg_Dtb_Loop
  imports Leg_Dtb_Parse
begin

text \<open>The main loop of the device tree parser: its invariant, one lemma per token, and the result.\<close>

section \<open>The invariant\<close>

lemma upd_node_parser [simp]:
  "struct_block (upd_node i f p) = struct_block p" "struct_size (upd_node i f p) = struct_size p"
  "string_block (upd_node i f p) = string_block p" "string_size (upd_node i f p) = string_size p"
  "prop_used (upd_node i f p) = prop_used p"
  by (simp_all add: upd_node_def)

definition same_blocks :: "parser_t \<Rightarrow> parser_t \<Rightarrow> bool" where
  "same_blocks p p' \<longleftrightarrow> struct_block p' = struct_block p \<and> struct_size p' = struct_size p \<and>
     string_block p' = string_block p \<and> string_size p' = string_size p"

lemma holds_same: "same_blocks p p' \<Longrightarrow> holds m p' o1 its = holds m p o1 its"
  by (induction its arbitrary: o1) (simp_all add: same_blocks_def)

lemma geom_same: "same_blocks p p' \<Longrightarrow> geom p' = geom p"
  by (simp add: same_blocks_def geom_def)

text \<open>What lies below node \<open>i\<close> and below property \<open>b\<close> is not written.\<close>

definition untouched :: "parser_t \<Rightarrow> parser_t \<Rightarrow> nat \<Rightarrow> nat \<Rightarrow> bool" where
  "untouched p p' i b \<longleftrightarrow> same_blocks p p' \<and> (\<forall>j < i. node_pool p' ! j = node_pool p ! j) \<and>
     (\<forall>k < b. prop_pool p' ! k = prop_pool p ! k)"

lemma untouched_trans: "untouched p p1 i b \<Longrightarrow> untouched p1 p2 i' b' \<Longrightarrow> i \<le> i' \<Longrightarrow> b \<le> b' \<Longrightarrow> untouched p p2 i b"
  "untouched p p1 i' b' \<Longrightarrow> untouched p1 p2 i b \<Longrightarrow> i \<le> i' \<Longrightarrow> b \<le> b' \<Longrightarrow> untouched p p2 i b"
  by (auto simp: untouched_def same_blocks_def)

definition loop_inv ::
  "mem \<Rightarrow> parser_t \<Rightarrow> nat \<Rightarrow> nat \<Rightarrow> nat \<Rightarrow> u8 list \<Rightarrow> u32 \<times> u32 \<times> u32 \<Rightarrow> (u8 list \<times> u8 list) list \<Rightarrow> dtree list \<Rightarrow> bool" where
  "loop_inv m p i b cnt nm c ps ts \<longleftrightarrow>
     node_is m p i b cnt nm c ps (ts = []) \<and> n_next (node_pool p ! i) = None \<and>
     rep_kids m p i (Suc i) (b + cnt) ts \<and> length (node_pool p) = Suc i + sum_list (map tsize ts) \<and>
     unat (prop_used p) = b + cnt + sum_list (map tprops ts) \<and> length (node_pool p) \<le> DTB_MAX_NODES \<and> unat (prop_used p) \<le> 1024"

lemma loop_inv_rep:
  "loop_inv m p i b (length ps) nm c ps ts \<Longrightarrow> rep m p i b (Node nm c ps ts) \<and> n_next (node_pool p ! i) = None"
  by (simp add: loop_inv_def)

section \<open>Starting a node\<close>

lemma node_begin_at:
  assumes "geom p" "cstr_at m (struct_block p + w32 o1) nm" "4 dvd o1" "holds m p (o1 + up4 (length nm + 1)) sub"
    "o1 + up4 (length nm + 1) + isize sub \<le> unat (struct_size p)" "length (node_pool p) < DTB_MAX_NODES"
    "unat (prop_used p) + length (props_of sub) \<le> 1024" "length (prop_pool p) = 1024"
    "\<And>q. parent = Some q \<Longrightarrow> q < length (node_pool p)"
  defines "i \<equiv> length (node_pool p)" and "b \<equiv> unat (prop_used p)" and "cnt \<equiv> length (props_of sub)"
    and "c \<equiv> (case parent of None \<Rightarrow> (2, 1, 0) | Some q \<Rightarrow> (n_address_cells (node_pool p ! q), n_size_cells (node_pool p ! q), 0))"
  obtains p' where
    "node_begin m (struct_block p + w32 o1) parent p = Some (Some (i, struct_block p + w32 (o1 + up4 (length nm + 1)), w32 cnt), p')"
    "loop_inv m p' i b cnt nm c [] []" "n_parent (node_pool p' ! i) = parent" "untouched p p' i b" "length (node_pool p') = Suc i"
proof -
  define o2 where "o2 = o1 + up4 (length nm + 1)"
  define n where "n = \<lparr>n_name = struct_block p + w32 o1, n_parent = parent, n_children = None, n_next = None,
    n_props = (if cnt = 0 then None else Some (prop_used p)), n_prop_count = 0,
    n_phandle = 0, n_address_cells = fst c, n_size_cells = fst (snd c)\<rparr>"
  define p1 where "p1 = p\<lparr>node_pool := node_pool p @ [n\<lparr>n_props := None\<rparr>]\<rparr>"
  define p' where "p' = p\<lparr>node_pool := node_pool p @ [n], prop_used := prop_used p + w32 cnt\<rparr>"
  have "o1 + (length nm + 1) \<le> o2" using up4_bounds(1) [of "length nm + 1"] by (simp add: o2_def)
  then have sz: "o1 + length nm + 1 + 4 \<le> unat (struct_size p)" using assms(5) isize_pos [of sub] by (simp add: o2_def)
  have lt: "unat (struct_size p) < 2 ^ 32" by (rule unat_lt_32)
  have name: "scan_name m p (struct_block p + w32 o1) = Some (struct_block p + w32 (o1 + length nm))"
    using sz by (intro scan_name_at [OF assms(1,2)]) simp
  have pad: "(w32 o1 + w32 (length nm) + 1 + 3) AND NOT 3 = w32 o2"
  proof -
    have "o1 + length nm + 1 + 3 < 2 ^ 32" using sz lt by linarith
    then have "(w32 (o1 + length nm + 1) + 3) AND NOT 3 = w32 (up4 (o1 + length nm + 1))" by (rule up4_word)
    moreover have "up4 (o1 + length nm + 1) = o2" using up4_add [OF assms(3), of "length nm + 1"] by (simp add: o2_def)
    ultimately show ?thesis by simp
  qed
  have same: "same_blocks p p1" by (simp add: same_blocks_def p1_def)
  have cnt: "cnt < 2 ^ 32" "cnt \<le> 1024" using assms(7) by (simp_all add: cnt_def)
  have cnt0: "w32 cnt = 0 \<longleftrightarrow> cnt = 0" using cnt(1) by (rule w32_eq_0_iff)
  have isz: "isize sub < 2 ^ 32" using assms(5) lt by linarith
  have "count_props m p1 (struct_block p1 + w32 o2) 0 0 = Some (0 + w32 cnt)"
    using count_props_at [of p1 m o2 sub 0 0] assms(1,3-5) isz holds_same [OF same] geom_same [OF same]
    by (simp add: o2_def up4_bounds cnt_def p1_def)
  then have look: "count_props m p1 (struct_block p + w32 o2) 0 0 = Some (w32 cnt)" by (simp add: p1_def)
  have used: "unat (prop_used p + w32 cnt) = b + cnt"
    using assms(7) cnt unat_add_no_wrap [of "prop_used p" "w32 cnt"] by (simp add: unat_w32 b_def cnt_def)
  have room: "\<not> prop_used p + w32 cnt > DTB_MAX_PROPS" using used assms(7) by (simp add: word_less_nat_alt b_def cnt_def)
  have pos: "w32 cnt > 0 \<longleftrightarrow> cnt \<noteq> 0" using cnt0 by (simp add: word_gt_0)
  have started: "node_begin m (struct_block p + w32 o1) parent p = Some (Some (i, struct_block p + w32 o2, w32 cnt), p')"
  proof (cases parent)
    case None
    then show ?thesis
      using assms(6) name pad look room pos
      by (simp add: node_begin_def Let_def alloc_node_def alloc_props_def upd_node_def p1_def p'_def n_def c_def i_def)
  next
    case (Some q)
    then show ?thesis
      using assms(6) assms(9) [OF Some] name pad look room pos
      by (simp add: node_begin_def Let_def alloc_node_def alloc_props_def upd_node_def p1_def p'_def n_def c_def i_def nth_append)
  qed
  show ?thesis
  proof (rule that)
    show "node_begin m (struct_block p + w32 o1) parent p = Some (Some (i, struct_block p + w32 (o1 + up4 (length nm + 1)), w32 cnt), p')"
      using started by (simp add: o2_def)
    have "node_is m p' i b cnt nm c [] True"
      using assms(2,7,8) by (simp add: node_is_def Let_def p'_def n_def i_def b_def cnt_def c_def split: option.splits)
    then show "loop_inv m p' i b cnt nm c [] []"
      using used assms(6,7) by (simp add: loop_inv_def p'_def n_def i_def b_def cnt_def)
  qed (simp_all add: p'_def n_def i_def untouched_def same_blocks_def nth_append)
qed

section \<open>A property\<close>

lemma be32_list_at:
  assumes "\<forall>k < length ds. m (a + w32 k) = ds ! k" "length ds = 4"
  shows "be32_read m a = be32_list ds"
  using assms(1) [rule_format, of 0] assms(1) [rule_format, of 1] assms(1) [rule_format, of 2] assms(1) [rule_format, of 3] assms(2)
  by (simp add: be32_list_def be32_read_def)

lemma str_eq_cstr: "cstr_at m a xs \<Longrightarrow> 0 \<notin> set lit \<Longrightarrow> str_eq m a lit \<longleftrightarrow> xs = lit"
proof (induction xs arbitrary: a lit)
  case Nil
  then show ?case by (cases lit) auto
next
  case (Cons x xs)
  then show ?case by (cases lit) auto
qed

lemma cell_literals: "0 \<notin> set (ascii ''#address-cells'')" "0 \<notin> set (ascii ''#size-cells'')"
  "0 \<notin> set (ascii ''phandle'')" "0 \<notin> set (ascii ''linux,phandle'')"
  by (simp_all add: ascii_def)

lemma parse_prop_at:
  assumes "geom p" "loop_inv m p i b cnt nm c ps ts" "holds m p o1 (Prop pn ds r)" "4 dvd o1"
    "o1 + isize (Prop pn ds r) \<le> unat (struct_size p)" "length ps < cnt"
  obtains p' where
    "parse_prop m i (w32 cnt) (struct_block p + w32 (o1 + 4)) p = (struct_block p + w32 (o1 + 12 + up4 (length ds)), p')"
    "loop_inv m p' i b cnt nm (set_cells pn ds c) (ps @ [(pn, ds)]) ts"
    "n_parent (node_pool p' ! i) = n_parent (node_pool p ! i)" "untouched p p' i b"
proof -
  define n where "n = node_pool p ! i"
  define pname where "pname = string_block p + be32_read m (struct_block p + w32 (o1 + 8))"
  define pdata where "pdata = struct_block p + w32 (o1 + 12)"
  define pr where "pr = \<lparr>p_name = pname, p_data = pdata, p_len = w32 (length ds), p_type = guess_type m pname pdata (w32 (length ds))\<rparr>"
  define n1 where "n1 = n\<lparr>n_prop_count := n_prop_count n + 1\<rparr>"
  define n2 where "n2 =
    (if pn = ascii ''#address-cells'' \<and> length ds = 4 then n1\<lparr>n_address_cells := be32_list ds\<rparr>
     else if pn = ascii ''#size-cells'' \<and> length ds = 4 then n1\<lparr>n_size_cells := be32_list ds\<rparr>
     else if (pn = ascii ''phandle'' \<or> pn = ascii ''linux,phandle'') \<and> length ds = 4 then n1\<lparr>n_phandle := be32_list ds\<rparr>
     else n1)"
  define p' where "p' = p\<lparr>node_pool := (node_pool p)[i := n2], prop_pool := (prop_pool p)[b + length ps := pr]\<rparr>"
  have inv: "i < length (node_pool p)" "b + cnt \<le> 1024" "length (prop_pool p) = 1024"
    "n_prop_count n = w32 (length ps)" "n_props n = Some (w32 b)" "unat (prop_used p) \<le> 1024"
    using assms(2,6) by (auto simp: loop_inv_def node_is_def Let_def n_def)
  have room: "o1 + 12 + length ds + 4 \<le> unat (struct_size p)"
    using assms(5) isize_pos [of r] up4_bounds(1) [of "length ds"] by simp
  moreover have "unat (struct_size p) < 2 ^ 32" by (rule unat_lt_32)
  ultimately have ds: "o1 + 12 + length ds + 3 < 2 ^ 32" "length ds < 2 ^ 32" by linarith+
  have i8: "in_struct p (struct_block p + w32 (o1 + 4)) 8" using in_struct_at [OF assms(1), of "o1 + 4" 8] assms(5) by simp
  have pad: "pad4 p (w32 (o1 + 12 + length ds)) = struct_block p + w32 (o1 + 12 + up4 (length ds))"
    using pad4_at [OF ds(1)] up4_add [of "o1 + 12" "length ds"] assms(4) by simp
  have idx: "unat (w32 b + w32 (length ps)) = b + length ps"
    using inv(2) assms(6) by (simp add: unat_w32 flip: of_nat_add)
  have lt: "\<not> w32 (length ps) \<ge> w32 cnt" using inv(2) assms(6) by (simp add: word_le_nat_alt unat_w32)
  have four: "w32 (length ds) = 4 \<longleftrightarrow> length ds = 4" using w32_eq_iff [of "length ds" 4] ds(2) by simp
  have data: "\<forall>k < length ds. m (pdata + w32 k) = ds ! k" "cstr_at m pname pn"
    using assms(3) by (simp_all add: pdata_def pname_def)
  note eqs = str_eq_cstr [OF data(2) cell_literals(1)] str_eq_cstr [OF data(2) cell_literals(2)]
    str_eq_cstr [OF data(2) cell_literals(3)] str_eq_cstr [OF data(2) cell_literals(4)]
  have "parse_prop m i (w32 cnt) (struct_block p + w32 (o1 + 4)) p = (struct_block p + w32 (o1 + 12 + up4 (length ds)), p')"
  proof -
    have nameoff: "\<not> be32_read m (struct_block p + w32 (o1 + 4) + 4) \<ge> string_size p"
      "string_block p + be32_read m (struct_block p + w32 (o1 + 4) + 4) = pname"
      "be32_read m (struct_block p + w32 (o1 + 4)) = w32 (length ds)"
      "struct_block p + w32 (o1 + 4) + 8 = pdata" "pdata - struct_block p + w32 (length ds) = w32 (o1 + 12 + length ds)"
      using assms(3) by (simp_all add: pname_def pdata_def add_ac not_le)
    show ?thesis
      using be32_list_at [OF data(1)] inv(1)
      by (simp add: parse_prop_def Let_def i8 nameoff pad inv(4,5) lt idx eqs four n_def [symmetric] p'_def n2_def n1_def pr_def upd_node_def del: of_nat_add of_nat_Suc)
  qed
  moreover have "rep_kids m p' i (Suc i) (b + cnt) ts"
    using assms(2,6) inv(3) by (auto simp: loop_inv_def p'_def elim!: rep_frame(2))
  moreover have "node_is m p' i b cnt nm (set_cells pn ds c) (ps @ [(pn, ds)]) (ts = [])"
  proof -
    have "unat pdata = unat (struct_block p) + (o1 + 12)"
      unfolding pdata_def using assms(1,5) by (intro unat_pos) simp_all
    then have "unat pdata + length ds < 2 ^ 32" using room assms(1) by (simp add: geom_def)
    then have pr: "prop_is m pr (pn, ds)" using data ds(2) by (simp add: prop_is_def pr_def unat_w32)
    have old: "node_is m p i b cnt nm c ps (ts = [])" using assms(2) by (simp add: loop_inv_def)
    then have "n_address_cells n2 = fst (set_cells pn ds c)" "n_size_cells n2 = fst (snd (set_cells pn ds c))"
      "n_phandle n2 = snd (snd (set_cells pn ds c))"
      by (simp_all add: node_is_def Let_def n_def [symmetric] n2_def n1_def set_cells_def split: prod.splits)
    moreover have "n_name n2 = n_name n" "n_prop_count n2 = w32 (length (ps @ [(pn, ds)]))" "n_props n2 = n_props n"
      "n_children n2 = n_children n"
      by (simp_all add: n2_def n1_def inv(4))
    moreover have "\<forall>k < length (ps @ [(pn, ds)]). prop_is m (prop_pool p' ! (b + k)) ((ps @ [(pn, ds)]) ! k)"
      using old pr inv(2,3) assms(6) by (auto simp: node_is_def Let_def p'_def nth_append nth_list_update less_Suc_eq)
    ultimately show ?thesis
      using old inv(1) assms(6) by (simp add: node_is_def Let_def n_def [symmetric]) (simp add: p'_def)
  qed
  moreover have "n_next n2 = n_next n" "n_parent n2 = n_parent n" by (simp_all add: n2_def n1_def)
  ultimately show ?thesis
    using that [of p'] assms(2) inv(1)
    by (simp add: loop_inv_def p'_def untouched_def same_blocks_def n_def)
qed

section \<open>A child\<close>

lemma untouched_inv:
  assumes "loop_inv m p i b cnt nm c ps ts" "untouched p p' (length (node_pool p)) (unat (prop_used p))"
    "length (node_pool p) \<le> length (node_pool p')" "length (prop_pool p') = 1024"
  shows "node_is m p' i b cnt nm c ps (ts = [])" "rep_kids m p' i (Suc i) (b + cnt) ts" "node_pool p' ! i = node_pool p ! i"
proof -
  show n: "node_pool p' ! i = node_pool p ! i"
    using assms(1,2) by (simp add: loop_inv_def untouched_def)
  show "node_is m p' i b cnt nm c ps (ts = [])"
    using assms n by (auto simp: loop_inv_def node_is_def Let_def untouched_def)
  show "rep_kids m p' i (Suc i) (b + cnt) ts"
    using assms by (auto simp: loop_inv_def untouched_def elim!: rep_frame(2))
qed

lemma link_child_at:
  assumes "loop_inv m p i b cnt nm c ps ts" "untouched p p1 (length (node_pool p)) (unat (prop_used p))"
    "loop_inv m p1 (length (node_pool p)) (unat (prop_used p)) (length ps') nm' c' ps' ts'"
    "n_parent (node_pool p1 ! length (node_pool p)) = Some i"
  obtains p' where "link_child i (length (node_pool p)) p1 = Some p'"
    "loop_inv m p' i b cnt nm c ps (ts @ [Node nm' c' ps' ts'])" "untouched p p' i b"
    "n_parent (node_pool p' ! i) = n_parent (node_pool p ! i)"
proof -
  define j where "j = length (node_pool p)"
  define t where "t = Node nm' c' ps' ts'"
  have len: "j < length (node_pool p1)" "length (prop_pool p1) = 1024"
    using assms(3) by (simp_all add: loop_inv_def node_is_def j_def)
  note old = untouched_inv [OF assms(1,2) less_imp_le [OF len(1) [unfolded j_def]] len(2)]
  have t: "rep m p1 j (unat (prop_used p)) t" "n_next (node_pool p1 ! j) = None"
    using loop_inv_rep [OF assms(3)] by (simp_all add: j_def t_def)
  have pos: "j = Suc i + sum_list (map tsize ts)" "unat (prop_used p) = b + cnt + sum_list (map tprops ts)" "i < j"
    using assms(1) by (simp_all add: loop_inv_def j_def)
  have below: "\<forall>k < i. node_pool p1 ! k = node_pool p ! k" "\<forall>k < b. prop_pool p1 ! k = prop_pool p ! k" "same_blocks p p1"
    using assms(2) pos by (simp_all add: untouched_def j_def [symmetric])
  have tot: "length (node_pool p1) = j + tsize t" "unat (prop_used p1) = unat (prop_used p) + tprops t"
    "length (node_pool p1) \<le> 256" "unat (prop_used p1) \<le> 1024"
    using assms(3) by (simp_all add: loop_inv_def j_def t_def)
  show ?thesis
  proof (cases "ts = []")
    case True
    define p' where "p' = upd_node i (\<lambda>n. n\<lparr>n_children := Some j\<rparr>) p1"
    have "link_child i j p1 = Some p'"
      using old(1) True by (simp add: link_child_def node_is_def Let_def p'_def)
    moreover have "rep m p' j (unat (prop_used p)) t"
      using t(1) pos(3) len(2) by (auto simp: p'_def elim!: rep_frame(1))
    moreover have "node_is m p' i b cnt nm c ps False"
      using old(1) True pos(1) by (auto simp: p'_def node_is_def Let_def)
    moreover have "n_next (node_pool p' ! i) = None" "n_parent (node_pool p' ! i) = n_parent (node_pool p ! i)"
      using assms(1) old(3) pos(3) len(1) by (simp_all add: loop_inv_def p'_def)
    moreover have "untouched p p' i b" using below by (simp add: untouched_def same_blocks_def p'_def)
    ultimately show ?thesis
      using that [of p'] True pos tot t(2) assms(4) len(1)
      by (simp add: loop_inv_def t_def [symmetric] j_def [symmetric]) (simp add: p'_def)
  next
    case False
    define l where "l = last_at (Suc i) ts"
    define p' where "p' = upd_node l (\<lambda>n. n\<lparr>n_next := Some j\<rparr>) p1"
    have l: "i < l" "l < j" using last_at_bounds [OF False, of "Suc i"] pos(1) by (simp_all add: l_def)
    have "n_children (node_pool p1 ! i) = Some (Suc i)" using old(1) False by (simp add: node_is_def Let_def)
    then have "link_child i j p1 = Some p'"
      using last_sibling_kids [OF False old(2)] by (simp add: link_child_def p'_def l_def)
    moreover have "rep_kids m p' i (Suc i) (b + cnt) (ts @ [t])"
      using rep_kids_snoc [OF old(2) False, of t] t assms(4) len pos by (simp add: p'_def l_def j_def)
    moreover have "node_is m p' i b cnt nm c ps False"
      using old(1) False l by (simp add: p'_def node_is_def Let_def)
    moreover have "n_next (node_pool p' ! i) = None" "n_parent (node_pool p' ! i) = n_parent (node_pool p ! i)"
      using assms(1) old(3) l by (simp_all add: loop_inv_def p'_def)
    moreover have "untouched p p' i b" using below l by (simp add: untouched_def same_blocks_def p'_def)
    ultimately show ?thesis
      using that [of p'] pos tot
      by (simp add: loop_inv_def t_def [symmetric] j_def [symmetric]) (simp add: p'_def)
  qed
qed

section \<open>The whole node\<close>

text \<open>Nodes and properties below a node.\<close>

fun knodes :: "items \<Rightarrow> nat" where
  "knodes Done = 0"
| "knodes (Nop r) = knodes r"
| "knodes (Prop nm ds r) = knodes r"
| "knodes (Child nm sub r) = Suc (knodes sub + knodes r)"

fun kprops :: "items \<Rightarrow> nat" where
  "kprops Done = 0"
| "kprops (Nop r) = kprops r"
| "kprops (Prop nm ds r) = kprops r"
| "kprops (Child nm sub r) = length (props_of sub) + kprops sub + kprops r"

lemma kids_sums [simp]:
  "sum_list (map tsize (kids_of its c)) = knodes its" "sum_list (map tprops (kids_of its c)) = kprops its"
  by (induction its arbitrary: c) simp_all

lemma pos_nonzero: "geom p \<Longrightarrow> 0 < o1 \<Longrightarrow> o1 \<le> unat (struct_size p) \<Longrightarrow> struct_block p + w32 o1 \<noteq> 0"
  using unat_pos [of p o1] by force

lemma parse_loop_simps:
  assumes "in_struct p cur 4"
  shows "be32_read m cur = DTB_NOP \<Longrightarrow> parse_loop m i cnt cur p = parse_loop m i cnt (cur + 4) p"
    and "be32_read m cur = DTB_END_NODE \<Longrightarrow> parse_loop m i cnt cur p = Some (cur + 4, p)"
    and "be32_read m cur = DTB_PROP \<Longrightarrow> parse_prop m i cnt (cur + 4) p = (cur', p') \<Longrightarrow> cur' \<noteq> 0 \<Longrightarrow>
      parse_loop m i cnt cur p = parse_loop m i cnt cur' p'"
    and "be32_read m cur = DTB_BEGIN_NODE \<Longrightarrow> node_begin m (cur + 4) (Some i) p = Some (Some (j, cur1, cnt1), p1) \<Longrightarrow>
      parse_loop m j cnt1 cur1 p1 = Some (cur2, p2) \<Longrightarrow> cur2 \<noteq> 0 \<Longrightarrow> link_child i j p2 = Some p3 \<Longrightarrow>
      parse_loop m i cnt cur p = parse_loop m i cnt cur2 p3"
  using assms by (subst parse_loop.simps, simp add: Let_def)+

text \<open>
  The main loop on the rest \<open>its\<close> of a node: it ends behind the node, the node has all its properties and
  children, and nothing before it was written.
\<close>

lemma parse_items:
  "geom p \<Longrightarrow> loop_inv m p i b cnt nm c ps ts \<Longrightarrow> holds m p o1 its \<Longrightarrow> 4 dvd o1 \<Longrightarrow>
    o1 + isize its \<le> unat (struct_size p) \<Longrightarrow> length ps + length (props_of its) = cnt \<Longrightarrow>
    length (node_pool p) + knodes its \<le> DTB_MAX_NODES \<Longrightarrow> unat (prop_used p) + kprops its \<le> 1024 \<Longrightarrow>
    \<exists>p'. parse_loop m i (w32 cnt) (struct_block p + w32 o1) p = Some (struct_block p + w32 (o1 + isize its), p') \<and>
      loop_inv m p' i b cnt nm (cells_of its c) (ps @ props_of its) (ts @ kids_of its c) \<and>
      n_parent (node_pool p' ! i) = n_parent (node_pool p ! i) \<and> untouched p p' i b"
proof (induction its arbitrary: p i b cnt nm c ps ts o1)
  case Done
  then have "in_struct p (struct_block p + w32 o1) 4" using in_struct_at [of p o1 4] by simp
  then have "parse_loop m i (w32 cnt) (struct_block p + w32 o1) p = Some (struct_block p + w32 (o1 + 4), p)"
    using parse_loop_simps(2) Done.prems(3) by (simp add: add.assoc)
  moreover have "untouched p p i b" by (simp add: untouched_def same_blocks_def)
  ultimately show ?case using Done.prems(2) by simp
next
  case (Nop r)
  have "in_struct p (struct_block p + w32 o1) 4" using in_struct_at [of p o1 4] Nop.prems(1,5) by simp
  then have "parse_loop m i (w32 cnt) (struct_block p + w32 o1) p = parse_loop m i (w32 cnt) (struct_block p + w32 (o1 + 4)) p"
    using parse_loop_simps(1) Nop.prems(3) by (simp add: add.assoc)
  then show ?case using Nop.IH [of p i b cnt nm c ps ts "o1 + 4"] Nop.prems by (simp add: add.assoc)
next
  case (Prop pn ds r)
  let ?o = "o1 + 12 + up4 (length ds)"
  have s: "in_struct p (struct_block p + w32 o1) 4" using in_struct_at [of p o1 4] Prop.prems(1,5) by simp
  obtain p1 where p1: "parse_prop m i (w32 cnt) (struct_block p + w32 (o1 + 4)) p = (struct_block p + w32 ?o, p1)"
    "loop_inv m p1 i b cnt nm (set_cells pn ds c) (ps @ [(pn, ds)]) ts"
    "n_parent (node_pool p1 ! i) = n_parent (node_pool p ! i)" "untouched p p1 i b"
    using parse_prop_at [OF Prop.prems(1-5)] Prop.prems(6) by auto
  have same: "same_blocks p p1" using p1(4) by (simp add: untouched_def)
  have "struct_block p + w32 ?o \<noteq> 0" using Prop.prems(1,5) by (intro pos_nonzero) simp_all
  then have step: "parse_loop m i (w32 cnt) (struct_block p + w32 o1) p = parse_loop m i (w32 cnt) (struct_block p + w32 ?o) p1"
    using parse_loop_simps(3) [OF s _ _] Prop.prems(3) p1(1) by (simp add: add.assoc)
  have len: "length (node_pool p1) = length (node_pool p)" "prop_used p1 = prop_used p"
    using Prop.prems(2) p1(2) by (simp_all add: loop_inv_def word_unat_eq_iff)
  have "\<exists>p'. parse_loop m i (w32 cnt) (struct_block p1 + w32 ?o) p1 = Some (struct_block p1 + w32 (?o + isize r), p') \<and>
      loop_inv m p' i b cnt nm (cells_of r (set_cells pn ds c)) ((ps @ [(pn, ds)]) @ props_of r) (ts @ kids_of r (set_cells pn ds c)) \<and>
      n_parent (node_pool p' ! i) = n_parent (node_pool p1 ! i) \<and> untouched p1 p' i b"
    using Prop.prems p1(2) same len holds_same [OF same] geom_same [OF same]
    by (intro Prop.IH) (simp_all add: same_blocks_def up4_bounds)
  then show ?case using step p1(3,4) same untouched_trans(1) [OF p1(4)] by (auto simp: same_blocks_def add.assoc)
next
  case (Child cn sub r)
  define j where "j = length (node_pool p)"
  define b1 where "b1 = unat (prop_used p)"
  define cnt1 where "cnt1 = length (props_of sub)"
  define o2 where "o2 = o1 + 4 + up4 (length cn + 1)"
  have s: "in_struct p (struct_block p + w32 o1) 4" using in_struct_at [of p o1 4] Child.prems(1,5) by simp
  have node: "i < length (node_pool p)" "length (prop_pool p) = 1024" "n_address_cells (node_pool p ! i) = fst c"
    "n_size_cells (node_pool p ! i) = fst (snd c)"
    using Child.prems(2) by (auto simp: loop_inv_def node_is_def Let_def)
  obtain p1 where p1: "node_begin m (struct_block p + w32 (o1 + 4)) (Some i) p = Some (Some (j, struct_block p + w32 o2, w32 cnt1), p1)"
    "loop_inv m p1 j b1 cnt1 cn (inherit c) [] []" "n_parent (node_pool p1 ! j) = Some i" "untouched p p1 j b1"
    "length (node_pool p1) = Suc j"
  proof -
    have "holds m p (o1 + 4 + up4 (length cn + 1)) sub" "cstr_at m (struct_block p + w32 (o1 + 4)) cn"
      using Child.prems(3) by simp_all
    then show ?thesis
      using that node_begin_at [of p m "o1 + 4" cn sub "Some i" thesis] Child.prems node
      by (simp add: inherit_def j_def b1_def cnt1_def o2_def)
  qed
  have same1: "same_blocks p p1" using p1(4) by (simp add: untouched_def)
  have used: "unat (prop_used p1) = b1 + cnt1" using p1(2) by (simp add: loop_inv_def)
  have o2: "holds m p o2 sub" "holds m p (o2 + isize sub) r" "4 dvd o2" "o2 + isize sub + isize r \<le> unat (struct_size p)"
    using Child.prems by (simp_all add: o2_def up4_bounds)
  have "\<exists>p'. parse_loop m j (w32 cnt1) (struct_block p1 + w32 o2) p1 = Some (struct_block p1 + w32 (o2 + isize sub), p') \<and>
      loop_inv m p' j b1 cnt1 cn (cells_of sub (inherit c)) ([] @ props_of sub) ([] @ kids_of sub (inherit c)) \<and>
      n_parent (node_pool p' ! j) = n_parent (node_pool p1 ! j) \<and> untouched p1 p' j b1"
    using p1(2,5) o2 same1 used Child.prems(1,7,8) holds_same [OF same1] geom_same [OF same1]
    by (intro Child.IH(1)) (simp_all add: same_blocks_def cnt1_def j_def b1_def)
  then obtain p2 where p2: "parse_loop m j (w32 cnt1) (struct_block p + w32 o2) p1 = Some (struct_block p + w32 (o2 + isize sub), p2)"
    "loop_inv m p2 j b1 cnt1 cn (cells_of sub (inherit c)) (props_of sub) (kids_of sub (inherit c))"
    "n_parent (node_pool p2 ! j) = Some i" "untouched p1 p2 j b1"
    using same1 p1(3) by (auto simp: same_blocks_def)
  have u2: "untouched p p2 j b1" by (rule untouched_trans(1) [OF p1(4) p2(4)]) simp_all
  let ?t = "Node cn (cells_of sub (inherit c)) (props_of sub) (kids_of sub (inherit c))"
  obtain p3 where p3: "link_child i j p2 = Some p3" "loop_inv m p3 i b cnt nm c ps (ts @ [?t])" "untouched p p3 i b"
    "n_parent (node_pool p3 ! i) = n_parent (node_pool p ! i)"
    using link_child_at [OF Child.prems(2), of p2 "props_of sub" cn "cells_of sub (inherit c)" "kids_of sub (inherit c)"]
      u2 p2(2,3) by (auto simp: j_def b1_def cnt1_def)
  have same3: "same_blocks p p3" using p3(3) by (simp add: untouched_def)
  have "struct_block p + w32 (o2 + isize sub) \<noteq> 0" using o2(4) Child.prems(1) isize_pos [of sub] by (intro pos_nonzero) simp_all
  then have step: "parse_loop m i (w32 cnt) (struct_block p + w32 o1) p = parse_loop m i (w32 cnt) (struct_block p + w32 (o2 + isize sub)) p3"
    using parse_loop_simps(4) [OF s _ _ p2(1) _ p3(1)] Child.prems(3) p1(1) by (simp add: add.assoc)
  have counts: "length (node_pool p3) = Suc (j + knodes sub)" "unat (prop_used p3) = b1 + cnt1 + kprops sub"
    using p3(2) Child.prems(2) by (simp_all add: loop_inv_def j_def b1_def cnt1_def)
  have "\<exists>p'. parse_loop m i (w32 cnt) (struct_block p3 + w32 (o2 + isize sub)) p3 = Some (struct_block p3 + w32 (o2 + isize sub + isize r), p') \<and>
      loop_inv m p' i b cnt nm (cells_of r c) (ps @ props_of r) ((ts @ [?t]) @ kids_of r c) \<and>
      n_parent (node_pool p' ! i) = n_parent (node_pool p3 ! i) \<and> untouched p3 p' i b"
    using p3(2) o2 same3 counts Child.prems(1,6-8) holds_same [OF same3] geom_same [OF same3]
    by (intro Child.IH(2)) (simp_all add: same_blocks_def cnt1_def j_def b1_def)
  moreover have "isize (Child cn sub r) + o1 = o2 + isize sub + isize r" by (simp add: o2_def)
  ultimately show ?case
    using step p3(3,4) same3 untouched_trans(1) [OF p3(3)]
    by (auto simp: same_blocks_def add.assoc o2_def simp del: of_nat_add)
qed

end
