(* ===== verification/Leg_Dtb_Query.thy ===== *)
theory Leg_Dtb_Query
  imports Leg_Dtb
begin

text \<open>
  The queries on a parsed device tree and the entry point \<open>dtb_parse\<close> of \<^verbatim>\<open>src/kernel/dtb.c\<close>. The query
  functions follow the links of the node array, so they are partial functions; the theorems show that on
  the trees that the parser builds they return. A null argument is \<open>None\<close> (0 for the blob); the pointers through
  which results are stored are the result. Division by zero cells is 0, as the hardware division of this
  processor has it (it is undefined in C).
\<close>

section \<open>Properties of a node\<close>

definition node_prop :: "'a dt_arrays_scheme \<Rightarrow> nat \<Rightarrow> nat \<Rightarrow> dtb_prop_t" where
  "node_prop d node i = prop_pool d ! (unat (the (n_props (node_pool d ! node))) + i)"

definition dtb_get_prop :: "mem \<Rightarrow> 'a dt_arrays_scheme \<Rightarrow> nat option \<Rightarrow> u8 list \<Rightarrow> dtb_prop_t option" where
  "dtb_get_prop m d node name =
     (case node of
        None \<Rightarrow> None
      | Some n \<Rightarrow> find (\<lambda>pr. str_eq m (p_name pr) name)
          (map (node_prop d n) [0..<unat (n_prop_count (node_pool d ! n))]))"

definition dtb_prop_u32 :: "mem \<Rightarrow> dtb_prop_t option \<Rightarrow> u32 option" where
  "dtb_prop_u32 m prop =
     (case prop of
        None \<Rightarrow> None
      | Some pr \<Rightarrow> if p_len pr < 4 then None else Some (be32_read m (p_data pr)))"

definition dtb_prop_u64 :: "mem \<Rightarrow> dtb_prop_t option \<Rightarrow> u64 option" where
  "dtb_prop_u64 m prop =
     (case prop of
        None \<Rightarrow> None
      | Some pr \<Rightarrow>
          if p_len pr = 4 then Some (ucast (be32_read m (p_data pr)))
          else if p_len pr = 8 then Some (be64_read m (p_data pr))
          else None)"

definition dtb_prop_string :: "dtb_prop_t option \<Rightarrow> u32 option" where
  "dtb_prop_string prop =
     (case prop of
        None \<Rightarrow> None
      | Some pr \<Rightarrow> if p_len pr = 0 then None else Some (p_data pr))"

text \<open>A number of \<open>k\<close> cells, as both users of \<^verbatim>\<open>reg\<close> read it.\<close>

definition read_cells :: "mem \<Rightarrow> u32 \<Rightarrow> nat \<Rightarrow> u64" where
  "read_cells m p k = fold (\<lambda>c b. push_bit 32 b OR ucast (be32_read m (p + w32 c * 4))) [0..<k] 0"

definition dtb_reg_entry :: "mem \<Rightarrow> 'a dt_arrays_scheme \<Rightarrow> nat option \<Rightarrow> u32 \<Rightarrow> (u64 \<times> u64) option" where
  "dtb_reg_entry m d node index =
     (case node of
        None \<Rightarrow> None
      | Some n \<Rightarrow>
         (case dtb_get_prop m d node (ascii ''reg'') of
            None \<Rightarrow> None
          | Some reg \<Rightarrow>
              let parent = n_parent (node_pool d ! n);
                  ac = (case parent of Some q \<Rightarrow> n_address_cells (node_pool d ! q) | None \<Rightarrow> 2);
                  sc = (case parent of Some q \<Rightarrow> n_size_cells (node_pool d ! q) | None \<Rightarrow> 1);
                  entry_bytes = (ac + sc) * 4
              in if entry_bytes = 0 \<or> (index + 1) * entry_bytes > p_len reg then None
                 else
                   let p = p_data reg + index * entry_bytes
                   in Some (read_cells m p (unat ac), read_cells m (p + ac * 4) (unat sc))))"

section \<open>Memory nodes\<close>

fun mem_entries :: "mem \<Rightarrow> u32 \<Rightarrow> u32 \<Rightarrow> u32 \<Rightarrow> nat list \<Rightarrow> (u64 \<times> u64) list \<Rightarrow> (u64 \<times> u64) list" where
  "mem_entries m data ac sc [] mems = mems"
| "mem_entries m data ac sc (i # is) mems =
     (if length mems < 8
      then
        let p = data + w32 i * ((ac + sc) * 4)
        in mem_entries m data ac sc is (mems @ [(read_cells m p (unat ac), read_cells m (p + ac * 4) (unat sc))])
      else mems)"

text \<open>One child of the root; the memory entries found so far grow.\<close>

definition extract_node ::
  "mem \<Rightarrow> 'a dt_arrays_scheme \<Rightarrow> nat \<Rightarrow> nat \<Rightarrow> (u64 \<times> u64) list \<Rightarrow> (u64 \<times> u64) list" where
  "extract_node m d root n mems =
     (if \<not> str_starts m (n_name (node_pool d ! n)) (ascii ''memory'') then mems
      else
        let dt = dtb_get_prop m d (Some n) (ascii ''device_type'');
            dt = (if dt = None then dtb_get_prop m d (Some n) (ascii ''device-type'') else dt)
        in if (case dt of None \<Rightarrow> False | Some pr \<Rightarrow> p_len pr = 0 \<or> \<not> str_eq m (p_data pr) (ascii ''memory''))
           then mems
           else
             (case dtb_get_prop m d (Some n) (ascii ''reg'') of
                None \<Rightarrow> mems
              | Some reg \<Rightarrow>
                  let ac = n_address_cells (node_pool d ! root); sc = n_size_cells (node_pool d ! root);
                      entry_bytes = (ac + sc) * 4; entries = p_len reg div entry_bytes
                  in mem_entries m (p_data reg) ac sc [0..<unat entries] mems))"

partial_function (option) extract_from ::
  "mem \<Rightarrow> 'a dt_arrays_scheme \<Rightarrow> nat \<Rightarrow> nat option \<Rightarrow> (u64 \<times> u64) list \<Rightarrow> (u64 \<times> u64) list option" where
  "extract_from m d root node mems =
     (case node of
        None \<Rightarrow> Some mems
      | Some n \<Rightarrow> extract_from m d root (n_next (node_pool d ! n)) (extract_node m d root n mems))"

definition extract_memory :: "mem \<Rightarrow> 'a dt_arrays_scheme \<Rightarrow> nat \<Rightarrow> dtb_tree_t \<Rightarrow> dtb_tree_t option" where
  "extract_memory m d root tree =
     map_option (\<lambda>mems. tree\<lparr>t_memory := mems\<rparr>) (extract_from m d root (n_children (node_pool d ! root)) (t_memory tree))"

section \<open>Parsing a blob\<close>

definition empty_tree :: dtb_tree_t where
  "empty_tree = \<lparr>t_root = None, t_memory = [], t_boot_cpuid = 0, t_compatible = 0\<rparr>"

partial_function (option) first_node :: "mem \<Rightarrow> parser_t \<Rightarrow> u32 \<Rightarrow> u32 option option" where
  "first_node m p cur =
     (if \<not> in_struct p cur 4 then Some None
      else
        let tok = be32_read m cur
        in if tok = DTB_NOP then first_node m p (cur + 4)
           else if tok = DTB_BEGIN_NODE then Some (Some (cur + 4))
           else Some None)"

text \<open>
  The allocator is a parameter: it answers a request with an address, 0 for none, and a new state. The
  second array holds \<open>pool\<close> before the parser writes to it.
\<close>

definition dtb_parse ::
  "('s \<Rightarrow> u32 \<Rightarrow> u32 \<times> 's) option \<Rightarrow> dtb_prop_t list \<Rightarrow> mem \<Rightarrow> u32 \<Rightarrow> u32 \<Rightarrow> dtb_tree_t option \<Rightarrow> 's
   \<Rightarrow> (dtb_err_t \<times> dtb_tree_t option \<times> dt_arrays \<times> 's) option" where
  "dtb_parse alloc_fn pool m blob blob_len tree s =
     (case (tree, alloc_fn) of
        (Some _, Some alloc) \<Rightarrow>
          if blob = 0 then Some (DTB_ERR_NULL, tree, \<lparr>node_pool = [], prop_pool = pool\<rparr>, s)
          else
            let none = \<lparr>node_pool = [], prop_pool = pool\<rparr>; tree = empty_tree
            in if blob_len < 40 then Some (DTB_ERR_TRUNCATED, Some tree, none, s)
               else if be32_read m blob \<noteq> DTB_MAGIC then Some (DTB_ERR_MAGIC, Some tree, none, s)
               else
                 let totalsize = be32_read m (blob + 4); off_struct = be32_read m (blob + 8);
                     off_strings = be32_read m (blob + 12); boot_cpuid = be32_read m (blob + 28);
                     size_strings = be32_read m (blob + 32); size_struct = be32_read m (blob + 36)
                 in if totalsize > blob_len then Some (DTB_ERR_TRUNCATED, Some tree, none, s)
                    else if off_struct + size_struct > totalsize then Some (DTB_ERR_TRUNCATED, Some tree, none, s)
                    else if off_strings + size_strings > totalsize then Some (DTB_ERR_TRUNCATED, Some tree, none, s)
                    else
                      let tree = tree\<lparr>t_boot_cpuid := boot_cpuid\<rparr>;
                          (node_pool_addr, s) = alloc s (256 * 36); (prop_pool_addr, s) = alloc s (1024 * 16)
                      in if node_pool_addr = 0 \<or> prop_pool_addr = 0 then Some (DTB_ERR_NOMEM, Some tree, none, s)
                         else
                           let p = \<lparr>node_pool = [], prop_pool = pool, struct_block = blob + off_struct,
                                    string_block = blob + off_strings, struct_size = size_struct,
                                    string_size = size_strings, prop_used = 0\<rparr>
                           in Option.bind (first_node m p (struct_block p)) (\<lambda>first.
                                case first of
                                  None \<Rightarrow> Some (DTB_ERR_CORRUPT, Some tree, none, s)
                                | Some cur \<Rightarrow>
                                    Option.bind (parse_node m cur None p) (\<lambda>(cur, root, p).
                                      case root of
                                        None \<Rightarrow> Some (DTB_ERR_CORRUPT, Some tree, dt_arrays.truncate p, s)
                                      | Some root \<Rightarrow>
                                          if cur = 0 then Some (DTB_ERR_CORRUPT, Some tree, dt_arrays.truncate p, s)
                                          else
                                            let tree = tree\<lparr>t_root := Some root\<rparr>;
                                                tree = (case dtb_get_prop m p (Some root) (ascii ''compatible'') of
                                                          None \<Rightarrow> tree
                                                        | Some c \<Rightarrow> if p_len c > 0 then tree\<lparr>t_compatible := p_data c\<rparr> else tree)
                                            in map_option (\<lambda>tree. (DTB_OK, Some tree, dt_arrays.truncate p, s))
                                                 (extract_memory m p root tree)))
      | _ \<Rightarrow> Some (DTB_ERR_NULL, tree, \<lparr>node_pool = [], prop_pool = pool\<rparr>, s))"

section \<open>Finding nodes\<close>

text \<open>\<^verbatim>\<open>foo\<close> matches the names \<^verbatim>\<open>foo\<close> and \<^verbatim>\<open>foo@addr\<close>.\<close>

definition node_matches :: "mem \<Rightarrow> 'a dt_arrays_scheme \<Rightarrow> u8 list \<Rightarrow> nat \<Rightarrow> bool option" where
  "node_matches m d seg c =
     (let name = n_name (node_pool d ! c)
      in Option.bind (strlen m name) (\<lambda>name_len.
           Some (nat name_len = length seg \<and> str_starts m name seg \<or>
                 (case find (\<lambda>i. m (name + w32 i) = 64) [0..<nat name_len] of
                    None \<Rightarrow> False
                  | Some i \<Rightarrow> i = length seg \<and> str_starts m name seg))))"

partial_function (option) find_sibling ::
  "(nat \<Rightarrow> bool option) \<Rightarrow> dtb_node_t list \<Rightarrow> nat option \<Rightarrow> nat option option" where
  "find_sibling hit ns c =
     (case c of
        None \<Rightarrow> Some None
      | Some i \<Rightarrow> Option.bind (hit i) (\<lambda>h. if h then Some (Some i) else find_sibling hit ns (n_next (ns ! i))))"

definition find_in_children :: "mem \<Rightarrow> 'a dt_arrays_scheme \<Rightarrow> nat \<Rightarrow> u8 list \<Rightarrow> nat option option" where
  "find_in_children m d node seg =
     find_sibling (node_matches m d seg) (node_pool d) (n_children (node_pool d ! node))"

partial_function (option) find_path ::
  "mem \<Rightarrow> 'a dt_arrays_scheme \<Rightarrow> nat option \<Rightarrow> u8 list \<Rightarrow> nat option option" where
  "find_path m d cur path =
     (case cur of
        None \<Rightarrow> Some None
      | Some c \<Rightarrow>
          if path = [] then Some cur
          else
            let seg = takeWhile (\<lambda>x. x \<noteq> 47) path; sep = dropWhile (\<lambda>x. x \<noteq> 47) path
            in if seg = [] then find_path m d cur (tl sep)
               else Option.bind (find_in_children m d c seg) (\<lambda>cur. find_path m d cur (tl sep)))"

definition dtb_find_node :: "mem \<Rightarrow> 'a dt_arrays_scheme \<Rightarrow> dtb_tree_t option \<Rightarrow> u8 list \<Rightarrow> nat option option" where
  "dtb_find_node m d tree path =
     (case tree of
        None \<Rightarrow> Some None
      | Some t \<Rightarrow>
         (case path of
            [] \<Rightarrow> Some None
          | c # cs \<Rightarrow> if c \<noteq> 47 then Some None else find_path m d (t_root t) cs))"

text \<open>The depth-first scans: a node first, then its children, each with its own subtree.\<close>

partial_function (option) scan_from ::
  "(nat \<Rightarrow> bool option) \<Rightarrow> dtb_node_t list \<Rightarrow> nat option \<Rightarrow> nat option option" where
  "scan_from hit ns c =
     (case c of
        None \<Rightarrow> Some None
      | Some i \<Rightarrow>
          Option.bind (Option.bind (hit i) (\<lambda>h. if h then Some (Some i) else scan_from hit ns (n_children (ns ! i))))
            (\<lambda>r. case r of Some j \<Rightarrow> Some (Some j) | None \<Rightarrow> scan_from hit ns (n_next (ns ! i))))"

definition tree_scan :: "(nat \<Rightarrow> bool option) \<Rightarrow> dtb_node_t list \<Rightarrow> nat option \<Rightarrow> nat option option" where
  "tree_scan hit ns node =
     (case node of
        None \<Rightarrow> Some None
      | Some i \<Rightarrow> Option.bind (hit i) (\<lambda>h. if h then Some (Some i) else scan_from hit ns (n_children (ns ! i))))"

definition phandle_scan :: "'a dt_arrays_scheme \<Rightarrow> nat option \<Rightarrow> u32 \<Rightarrow> nat option option" where
  "phandle_scan d node ph = tree_scan (\<lambda>i. Some (n_phandle (node_pool d ! i) = ph)) (node_pool d) node"

definition dtb_find_phandle :: "'a dt_arrays_scheme \<Rightarrow> dtb_tree_t option \<Rightarrow> u32 \<Rightarrow> nat option option" where
  "dtb_find_phandle d tree phandle =
     (case tree of
        None \<Rightarrow> Some None
      | Some t \<Rightarrow> if phandle = 0 then Some None else phandle_scan d (t_root t) phandle)"

partial_function (option) compat_loop :: "mem \<Rightarrow> u8 list \<Rightarrow> u32 \<Rightarrow> u32 \<Rightarrow> bool option" where
  "compat_loop m wanted cur end_addr =
     (if cur < end_addr
      then if str_eq m cur wanted then Some True
           else Option.bind (strlen m cur) (\<lambda>n. compat_loop m wanted (cur + of_int n + 1) end_addr)
      else Some False)"

definition node_has_compat :: "mem \<Rightarrow> 'a dt_arrays_scheme \<Rightarrow> u8 list \<Rightarrow> nat \<Rightarrow> bool option" where
  "node_has_compat m d wanted node =
     (case dtb_get_prop m d (Some node) (ascii ''compatible'') of
        None \<Rightarrow> Some False
      | Some p \<Rightarrow> if p_len p = 0 then Some False else compat_loop m wanted (p_data p) (p_data p + p_len p))"

definition compat_scan :: "mem \<Rightarrow> 'a dt_arrays_scheme \<Rightarrow> nat option \<Rightarrow> u8 list \<Rightarrow> nat option option" where
  "compat_scan m d node wanted = tree_scan (node_has_compat m d wanted) (node_pool d) node"

definition dtb_find_compatible :: "mem \<Rightarrow> 'a dt_arrays_scheme \<Rightarrow> dtb_tree_t option \<Rightarrow> u8 list \<Rightarrow> nat option option" where
  "dtb_find_compatible m d tree wanted =
     (case tree of None \<Rightarrow> Some None | Some t \<Rightarrow> compat_scan m d (t_root t) wanted)"

definition dtb_child_first :: "'a dt_arrays_scheme \<Rightarrow> nat option \<Rightarrow> nat option" where
  "dtb_child_first d node = (case node of None \<Rightarrow> None | Some n \<Rightarrow> n_children (node_pool d ! n))"

definition dtb_child_next :: "'a dt_arrays_scheme \<Rightarrow> nat option \<Rightarrow> nat option" where
  "dtb_child_next d child = (case child of None \<Rightarrow> None | Some c \<Rightarrow> n_next (node_pool d ! c))"

end
