(* ===== verification/Leg_Dtb_Props.thy ===== *)
theory Leg_Dtb_Props
  imports Leg_Dtb_Loop Leg_Dtb_Query
begin

text \<open>What \<open>dtb_parse\<close> returns: the tree of a well-formed blob, and an endless loop on a wrapping length.\<close>

section \<open>Blobs\<close>

definition dtb_parser :: "mem \<Rightarrow> u32 \<Rightarrow> dtb_prop_t list \<Rightarrow> parser_t" where
  "dtb_parser m blob pool = \<lparr>node_pool = [], prop_pool = pool, struct_block = blob + be32_read m (blob + 8),
     string_block = blob + be32_read m (blob + 12), struct_size = be32_read m (blob + 36),
     string_size = be32_read m (blob + 32), prop_used = 0\<rparr>"

text \<open>A header that \<open>dtb_parse\<close> accepts.\<close>

definition dtb_header :: "mem \<Rightarrow> u32 \<Rightarrow> u32 \<Rightarrow> bool" where
  "dtb_header m blob blob_len \<longleftrightarrow>
     blob \<noteq> 0 \<and> 40 \<le> blob_len \<and> be32_read m blob = DTB_MAGIC \<and> be32_read m (blob + 4) \<le> blob_len \<and>
     unat (be32_read m (blob + 8)) + unat (be32_read m (blob + 36)) \<le> unat (be32_read m (blob + 4)) \<and>
     unat (be32_read m (blob + 12)) + unat (be32_read m (blob + 32)) \<le> unat (be32_read m (blob + 4)) \<and>
     unat blob + unat blob_len < 2 ^ 32"

text \<open>The structure block: \<open>k\<close> no-ops, then the root node.\<close>

definition dtb_struct :: "mem \<Rightarrow> parser_t \<Rightarrow> nat \<Rightarrow> u8 list \<Rightarrow> items \<Rightarrow> bool" where
  "dtb_struct m p k nm its \<longleftrightarrow>
     (\<forall>i < k. be32_read m (struct_block p + w32 (4 * i)) = DTB_NOP) \<and>
     be32_read m (struct_block p + w32 (4 * k)) = DTB_BEGIN_NODE \<and>
     cstr_at m (struct_block p + w32 (4 * k + 4)) nm \<and>
     holds m p (4 * k + 4 + up4 (length nm + 1)) its \<and>
     4 * k + 4 + up4 (length nm + 1) + isize its \<le> unat (struct_size p)"

definition dtb_fits :: "items \<Rightarrow> bool" where
  "dtb_fits its \<longleftrightarrow> knodes its < DTB_MAX_NODES \<and> length (props_of its) + kprops its \<le> 1024"

definition alloc_ok :: "('s \<Rightarrow> u32 \<Rightarrow> u32 \<times> 's) \<Rightarrow> 's \<Rightarrow> 's \<Rightarrow> bool" where
  "alloc_ok alloc s s' \<longleftrightarrow>
     (let (a, s1) = alloc s (256 * 36); (b, s2) = alloc s1 (1024 * 16) in a \<noteq> 0 \<and> b \<noteq> 0 \<and> s' = s2)"

lemma geom_blob: "dtb_header m blob len \<Longrightarrow> geom (dtb_parser m blob pool)"
  using unat_add_no_wrap [of blob "be32_read m (blob + 8)"]
  by (simp add: dtb_header_def geom_def dtb_parser_def word_le_nat_alt)

lemma dtb_header_checks:
  assumes "dtb_header m blob blob_len"
  shows "blob \<noteq> 0" "\<not> blob_len < 40" "be32_read m blob = DTB_MAGIC" "\<not> be32_read m (blob + 4) > blob_len"
    "\<not> be32_read m (blob + 8) + be32_read m (blob + 36) > be32_read m (blob + 4)"
    "\<not> be32_read m (blob + 12) + be32_read m (blob + 32) > be32_read m (blob + 4)"
  using assms unat_lt_32 [of "be32_read m (blob + 4)"] unat_add_no_wrap [of "be32_read m (blob + 8)" "be32_read m (blob + 36)"]
    unat_add_no_wrap [of "be32_read m (blob + 12)" "be32_read m (blob + 32)"]
  by (auto simp: dtb_header_def not_less word_le_nat_alt)

lemma first_node_at:
  assumes "geom p" "\<forall>i < k. be32_read m (struct_block p + w32 (4 * (j + i))) = DTB_NOP"
    "be32_read m (struct_block p + w32 (4 * (j + k))) = DTB_BEGIN_NODE" "4 * (j + k) + 4 \<le> unat (struct_size p)"
  shows "first_node m p (struct_block p + w32 (4 * j)) = Some (Some (struct_block p + w32 (4 * (j + k) + 4)))"
  using assms(2-4)
proof (induction k arbitrary: j)
  case 0
  then have "in_struct p (struct_block p + w32 (4 * j)) 4" using in_struct_at [OF assms(1), of "4 * j" 4] by simp
  then show ?case using 0 by (simp add: first_node.simps Let_def add.assoc)
next
  case (Suc k)
  have s: "in_struct p (struct_block p + w32 (4 * j)) 4" using in_struct_at [OF assms(1), of "4 * j" 4] Suc.prems(3) by simp
  have "be32_read m (struct_block p + w32 (4 * j)) = DTB_NOP" using Suc.prems(1) [rule_format, of 0] by simp
  then have "first_node m p (struct_block p + w32 (4 * j)) = first_node m p (struct_block p + w32 (4 * Suc j))"
    using s by (subst first_node.simps) (simp add: Let_def add_ac)
  also have "\<dots> = Some (Some (struct_block p + w32 (4 * (Suc j + k) + 4)))"
  proof (rule Suc.IH)
    show "\<forall>i < k. be32_read m (struct_block p + w32 (4 * (Suc j + i))) = DTB_NOP"
    proof (intro allI impI)
      fix i assume "i < k"
      then show "be32_read m (struct_block p + w32 (4 * (Suc j + i))) = DTB_NOP"
        using Suc.prems(1) [rule_format, of "Suc i"] by (simp add: add_ac)
    qed
  qed (use Suc.prems in simp_all)
  finally show ?case by simp
qed

lemma parse_node_at:
  assumes "geom p" "dtb_struct m p k nm its" "dtb_fits its" "node_pool p = []" "prop_used p = 0" "length (prop_pool p) = 1024"
  obtains p' where "parse_node m (struct_block p + w32 (4 * k + 4)) None p =
      Some (struct_block p + w32 (4 * k + 4 + up4 (length nm + 1) + isize its), Some 0, p')"
    "rep m p' 0 0 (tree_of nm its)"
    "struct_block p + w32 (4 * k + 4 + up4 (length nm + 1) + isize its) \<noteq> 0"
proof -
  let ?o = "4 * k + 4 + up4 (length nm + 1)"
  have "4 dvd 4 * k + 4" by simp
  then obtain p1 where p1: "node_begin m (struct_block p + w32 (4 * k + 4)) None p =
      Some (Some (0, struct_block p + w32 ?o, w32 (length (props_of its))), p1)"
    "loop_inv m p1 0 0 (length (props_of its)) nm (2, 1, 0) [] []" "untouched p p1 0 0" "length (node_pool p1) = 1"
    using node_begin_at [OF assms(1), of m "4 * k + 4" nm its None thesis] assms(2-6) that
    by (auto simp: dtb_struct_def dtb_fits_def)
  have same: "same_blocks p p1" using p1(3) by (simp add: untouched_def)
  have used: "unat (prop_used p1) = length (props_of its)" using p1(2) by (simp add: loop_inv_def)
  have "\<exists>p'. parse_loop m 0 (w32 (length (props_of its))) (struct_block p1 + w32 ?o) p1 = Some (struct_block p1 + w32 (?o + isize its), p') \<and>
      loop_inv m p' 0 0 (length (props_of its)) nm (cells_of its (2, 1, 0)) ([] @ props_of its) ([] @ kids_of its (2, 1, 0)) \<and>
      n_parent (node_pool p' ! 0) = n_parent (node_pool p1 ! 0) \<and> untouched p1 p' 0 0"
    using p1(2,4) used assms(1-3) same holds_same [OF same] geom_same [OF same]
    by (intro parse_items) (simp_all add: same_blocks_def dtb_struct_def dtb_fits_def up4_bounds)
  then obtain p' where p': "parse_loop m 0 (w32 (length (props_of its))) (struct_block p + w32 ?o) p1 = Some (struct_block p + w32 (?o + isize its), p')"
    "loop_inv m p' 0 0 (length (props_of its)) nm (cells_of its (2, 1, 0)) (props_of its) (kids_of its (2, 1, 0))"
    using same by (auto simp: same_blocks_def)
  have nz: "struct_block p + w32 (?o + isize its) \<noteq> 0"
    using assms(1,2) isize_pos [of its] by (intro pos_nonzero) (simp_all add: dtb_struct_def)
  show ?thesis
  proof (rule that)
    show "parse_node m (struct_block p + w32 (4 * k + 4)) None p = Some (struct_block p + w32 (?o + isize its), Some 0, p')"
      using p1(1) p'(1) nz by (simp add: parse_node_def)
    show "rep m p' 0 0 (tree_of nm its)" using loop_inv_rep [OF p'(2)] by (simp add: tree_of_def)
  qed (rule nz)
qed

section \<open>Following the links of a tree\<close>

fun kid_ids :: "nat \<Rightarrow> dtree list \<Rightarrow> nat list" where
  "kid_ids j [] = []"
| "kid_ids j (t # ts) = j # kid_ids (j + tsize t) ts"

lemma extract_from_kids:
  "rep_kids m d q j b ts \<Longrightarrow>
    extract_from m d root (if ts = [] then None else Some j) mems = Some (fold (extract_node m d root) (kid_ids j ts) mems)"
proof (induction ts arbitrary: j b mems)
  case Nil
  then show ?case by (simp add: extract_from.simps)
next
  case (Cons t ts)
  then show ?case by (subst extract_from.simps) (auto split: if_splits)
qed

lemma rep_children: "rep m d i b t \<Longrightarrow> n_children (node_pool d ! i) = (if d_kids t = [] then None else Some (Suc i))"
  by (cases t) (simp add: node_is_def Let_def)

lemma truncate_pools [simp]:
  "node_pool (dt_arrays.truncate d) = node_pool d" "prop_pool (dt_arrays.truncate d) = prop_pool d"
  by (simp_all add: dt_arrays.defs)

lemma node_is_truncate [simp]: "node_is m (dt_arrays.truncate d) i b c nm cs ps l = node_is m d i b c nm cs ps l"
  by (simp add: node_is_def)

lemma rep_truncate [simp]:
  "rep m (dt_arrays.truncate d) i b t = rep m d i b t" "rep_kids m (dt_arrays.truncate d) q j b ts = rep_kids m d q j b ts"
  by (induction m d i b t and m d q j b ts rule: rep_rep_kids.induct) simp_all

section \<open>Properties of a node\<close>

lemma find_prop:
  assumes "0 \<notin> set name" "\<forall>k < length ps. prop_is m (f k) (ps ! k)"
  shows "case map_of ps name of
      None \<Rightarrow> find (\<lambda>pr. str_eq m (p_name pr) name) (map f [0..<length ps]) = None
    | Some ds \<Rightarrow> \<exists>pr. find (\<lambda>pr. str_eq m (p_name pr) name) (map f [0..<length ps]) = Some pr \<and> prop_is m pr (name, ds)"
  using assms(2)
proof (induction ps arbitrary: f)
  case (Cons x ps)
  obtain n ds where x: "x = (n, ds)" by fastforce
  have "prop_is m (f 0) (n, ds)" using Cons.prems [rule_format, of 0] by (simp add: x)
  then have eq: "str_eq m (p_name (f 0)) name \<longleftrightarrow> n = name" using str_eq_cstr [OF _ assms(1)] by (simp add: prop_is_def)
  have "\<forall>k < length ps. prop_is m (f (Suc k)) (ps ! k)" using Cons.prems by auto
  note ih = Cons.IH [OF this]
  have "map f [0..<length (x # ps)] = f 0 # map (\<lambda>k. f (Suc k)) [0..<length ps]"
    by (simp add: upt_conv_Cons map_Suc_upt [symmetric] del: upt_Suc)
  then show ?case using ih eq \<open>prop_is m (f 0) (n, ds)\<close> by (auto simp: x split: option.splits)
qed simp

lemma dtb_get_prop_rep:
  assumes "rep m d i b t" "0 \<notin> set name"
  shows "case map_of (d_props t) name of
      None \<Rightarrow> dtb_get_prop m d (Some i) name = None
    | Some ds \<Rightarrow> \<exists>pr. dtb_get_prop m d (Some i) name = Some pr \<and> prop_is m pr (name, ds)"
proof -
  obtain nm c ps ts where t: "t = Node nm c ps ts" by (cases t)
  have n: "node_is m d i b (length ps) nm c ps (ts = [])" using assms(1) by (simp add: t)
  then have len: "length ps \<le> 1024" "b \<le> 1024" by (auto simp: node_is_def)
  have count: "unat (n_prop_count (node_pool d ! i)) = length ps"
    using n len by (simp add: node_is_def Let_def unat_w32)
  have "node_prop d i k = prop_pool d ! (b + k)" if "k < length ps" for k
  proof -
    have "ps \<noteq> []" using that by auto
    then show ?thesis using n len by (simp add: node_prop_def node_is_def Let_def unat_w32)
  qed
  then have "\<forall>k < length ps. prop_is m (node_prop d i k) (ps ! k)" using n by (simp add: node_is_def Let_def)
  note f = find_prop [OF assms(2) this]
  have "dtb_get_prop m d (Some i) name = find (\<lambda>pr. str_eq m (p_name pr) name) (map (node_prop d i) [0..<length ps])"
    by (simp add: dtb_get_prop_def count)
  then show ?thesis using f by (simp only: t dtree.sel)
qed

section \<open>Memory nodes\<close>

definition be_cells :: "u8 list \<Rightarrow> nat \<Rightarrow> u64" where
  "be_cells ds k = fold (\<lambda>c b. push_bit 32 b OR ucast (be32_list (take 4 (drop (4 * c) ds)))) [0..<k] 0"

definition reg_list :: "nat \<Rightarrow> nat \<Rightarrow> u8 list \<Rightarrow> (u64 \<times> u64) list" where
  "reg_list ac sc ds = map (\<lambda>i. let e = drop (i * ((ac + sc) * 4)) ds in (be_cells e ac, be_cells (drop (ac * 4) e) sc))
     [0..<length ds div ((ac + sc) * 4)]"

definition cstr_of :: "u8 list \<Rightarrow> u8 list" where
  "cstr_of ds = takeWhile (\<lambda>c. c \<noteq> 0) ds"

definition device_type :: "dtree \<Rightarrow> u8 list option" where
  "device_type t =
     (case map_of (d_props t) (ascii ''device_type'') of
        None \<Rightarrow> map_of (d_props t) (ascii ''device-type'')
      | Some v \<Rightarrow> Some v)"

definition node_memory :: "nat \<Rightarrow> nat \<Rightarrow> dtree \<Rightarrow> (u64 \<times> u64) list" where
  "node_memory ac sc t =
     (if take 6 (d_name t) \<noteq> ascii ''memory'' then []
      else if \<exists>v. device_type t = Some v \<and> (v = [] \<or> cstr_of v \<noteq> ascii ''memory'') then []
      else case map_of (d_props t) (ascii ''reg'') of None \<Rightarrow> [] | Some ds \<Rightarrow> reg_list ac sc ds)"

definition memory_of :: "dtree \<Rightarrow> (u64 \<times> u64) list" where
  "memory_of t =
     take 8 (concat (map (node_memory (unat (fst (d_cells t))) (unat (fst (snd (d_cells t))))) (d_kids t)))"

text \<open>The cells of the root give entries of a size that is neither 0 nor wraps, and device types are terminated.\<close>

definition memory_wf :: "dtree \<Rightarrow> bool" where
  "memory_wf t \<longleftrightarrow>
     0 < unat (fst (d_cells t)) + unat (fst (snd (d_cells t))) \<and>
     (unat (fst (d_cells t)) + unat (fst (snd (d_cells t)))) * 4 < 2 ^ 32 \<and>
     (\<forall>k \<in> set (d_kids t). \<forall>v. device_type k = Some v \<longrightarrow> v = [] \<or> 0 \<in> set v)"

lemma read_cells_at:
  assumes "\<forall>j < length ds. m (a + w32 j) = ds ! j" "k * 4 \<le> length ds"
  shows "read_cells m a k = be_cells ds k"
proof -
  have "be32_read m (a + w32 c * 4) = be32_list (take 4 (drop (4 * c) ds))" if "c < k" for c
  proof (rule be32_list_at)
    show "length (take 4 (drop (4 * c) ds)) = 4" using that assms(2) by simp
    have "m (a + w32 c * 4 + w32 j) = ds ! (4 * c + j)" if "j < 4" for j
      using assms(1) [rule_format, of "4 * c + j"] assms(2) \<open>c < k\<close> that by (simp add: algebra_simps)
    then show "\<forall>j < length (take 4 (drop (4 * c) ds)). m (a + w32 c * 4 + w32 j) = take 4 (drop (4 * c) ds) ! j"
      using that assms(2) by auto
  qed
  then show ?thesis unfolding read_cells_def be_cells_def by (intro fold_cong) auto
qed

lemma mem_entries_take:
  "length mems \<le> 8 \<Longrightarrow> mem_entries m data ac sc is mems =
    take 8 (mems @ map (\<lambda>i. let p = data + w32 i * ((ac + sc) * 4) in (read_cells m p (unat ac), read_cells m (p + ac * 4) (unat sc))) is)"
proof (induction "is" arbitrary: mems)
  case (Cons i "is")
  show ?case
  proof (cases "length mems < 8")
    case True
    then show ?thesis by (simp add: Cons.IH Let_def)
  next
    case False
    then have "length mems = 8" using Cons.prems by simp
    then show ?thesis by simp
  qed
qed simp

lemma mem_entries_reg:
  assumes "\<forall>j < length ds. m (data + w32 j) = ds ! j" "(unat ac + unat sc) * 4 < 2 ^ 32" "0 < unat ac + unat sc"
    "length mems \<le> 8" "unat len = length ds"
  shows "mem_entries m data ac sc [0..<unat (len div ((ac + sc) * 4))] mems = take 8 (mems @ reg_list (unat ac) (unat sc) ds)"
proof -
  let ?e = "(unat ac + unat sc) * 4"
  have e: "unat ((ac + sc) * 4) = ?e" using assms(2) by (simp add: unat_word_ariths)
  have ew: "(ac + sc) * 4 = w32 ?e" using e by (metis w32_unat)
  have acw: "ac * 4 = w32 (unat ac * 4)" by simp
  have entries: "unat (len div ((ac + sc) * 4)) = length ds div ?e" by (simp only: unat_div_distrib e assms(5))
  have entry: "read_cells m (data + w32 i * ((ac + sc) * 4)) (unat ac) = be_cells (drop (i * ?e) ds) (unat ac) \<and>
      read_cells m (data + w32 i * ((ac + sc) * 4) + ac * 4) (unat sc) = be_cells (drop (unat ac * 4) (drop (i * ?e) ds)) (unat sc)"
    if "i < length ds div ?e" for i
  proof -
    have "Suc i * ?e \<le> length ds div ?e * ?e" using that by (intro mult_le_mono1) simp
    also have "\<dots> \<le> length ds" by (rule div_times_less_eq_dividend)
    finally have le: "i * ?e + ?e \<le> length ds" by simp
    have pos: "data + w32 i * ((ac + sc) * 4) + w32 j = data + w32 (i * ?e + j)"
      "data + w32 i * ((ac + sc) * 4) + ac * 4 + w32 j = data + w32 (i * ?e + (unat ac * 4 + j))" for j
      unfolding ew acw by (simp_all only: of_nat_add of_nat_mult add.assoc)
    have "\<forall>j < length (drop (i * ?e) ds). m (data + w32 i * ((ac + sc) * 4) + w32 j) = drop (i * ?e) ds ! j"
      unfolding pos using assms(1) le by (auto simp del: of_nat_mult of_nat_add)
    moreover have "\<forall>j < length (drop (unat ac * 4) (drop (i * ?e) ds)).
        m (data + w32 i * ((ac + sc) * 4) + ac * 4 + w32 j) = drop (unat ac * 4) (drop (i * ?e) ds) ! j"
      unfolding pos using assms(1) le by (auto simp: add_ac simp del: of_nat_mult of_nat_add)
    ultimately show ?thesis using le by (auto intro!: read_cells_at)
  qed
  show ?thesis
    unfolding entries mem_entries_take [OF assms(4)] reg_list_def Let_def
    using entry by (intro arg_cong [of _ _ "\<lambda>xs. take 8 (mems @ xs)"] map_cong) simp_all
qed

lemma str_starts_cstr: "cstr_at m a xs \<Longrightarrow> 0 \<notin> set lit \<Longrightarrow> str_starts m a lit \<longleftrightarrow> take (length lit) xs = lit"
proof (induction lit arbitrary: a xs)
  case (Cons l lit)
  then show ?case by (cases xs) auto
qed simp

lemma str_eq_data:
  assumes "\<forall>k < length ds. m (a + w32 k) = ds ! k" "0 \<in> set ds" "0 \<notin> set lit"
  shows "str_eq m a lit \<longleftrightarrow> cstr_of ds = lit"
proof -
  define n where "n = length (cstr_of ds)"
  have n: "n < length ds" unfolding n_def cstr_of_def using length_takeWhile_less [OF assms(2)] by simp
  then have z: "ds ! n = 0" using nth_length_takeWhile [of "\<lambda>c. c \<noteq> 0" ds] by (simp add: n_def cstr_of_def)
  have "cstr_at m a (cstr_of ds)"
  proof (rule cstr_at_bytes)
    show "\<forall>k < length (cstr_of ds). m (a + w32 k) = cstr_of ds ! k"
      using assms(1) n by (simp add: n_def [symmetric]) (auto simp: cstr_of_def n_def takeWhile_nth)
    show "0 \<notin> set (cstr_of ds)" by (auto simp: cstr_of_def dest: set_takeWhileD)
    show "m (a + w32 (length (cstr_of ds))) = 0" using assms(1) n z by (simp add: n_def [symmetric])
  qed
  then show ?thesis by (rule str_eq_cstr [OF _ assms(3)])
qed

lemma dtb_literals: "0 \<notin> set (ascii ''memory'')" "0 \<notin> set (ascii ''device_type'')" "0 \<notin> set (ascii ''device-type'')"
  "0 \<notin> set (ascii ''reg'')" "0 \<notin> set (ascii ''compatible'')" "length (ascii ''memory'') = 6"
  by (simp_all add: ascii_def)

lemma extract_node_at:
  assumes "rep m d i b t" "length mems \<le> 8"
    "(unat (n_address_cells (node_pool d ! root)) + unat (n_size_cells (node_pool d ! root))) * 4 < 2 ^ 32"
    "0 < unat (n_address_cells (node_pool d ! root)) + unat (n_size_cells (node_pool d ! root))"
    "\<forall>v. device_type t = Some v \<longrightarrow> v = [] \<or> 0 \<in> set v"
  shows "extract_node m d root i mems = take 8 (mems @ node_memory (unat (n_address_cells (node_pool d ! root)))
    (unat (n_size_cells (node_pool d ! root))) t)"
proof -
  let ?ac = "n_address_cells (node_pool d ! root)" and ?sc = "n_size_cells (node_pool d ! root)"
  obtain nm c ps ts where t: "t = Node nm c ps ts" by (cases t)
  have nm: "cstr_at m (n_name (node_pool d ! i)) nm" using assms(1) by (simp add: t node_is_def Let_def)
  have starts: "str_starts m (n_name (node_pool d ! i)) (ascii ''memory'') \<longleftrightarrow> take 6 (d_name t) = ascii ''memory''"
    using str_starts_cstr [OF nm dtb_literals(1)] by (simp add: t dtb_literals(6))
  define dt where "dt = (let dt = dtb_get_prop m d (Some i) (ascii ''device_type'')
      in if dt = None then dtb_get_prop m d (Some i) (ascii ''device-type'') else dt)"
  have dt: "case device_type t of None \<Rightarrow> dt = None | Some v \<Rightarrow> \<exists>pr n. dt = Some pr \<and> prop_is m pr (n, v)"
    using dtb_get_prop_rep [OF assms(1) dtb_literals(2)] dtb_get_prop_rep [OF assms(1) dtb_literals(3)]
    by (auto simp: dt_def device_type_def Let_def split: option.splits)
  have skip: "(case dt of None \<Rightarrow> False | Some pr \<Rightarrow> p_len pr = 0 \<or> \<not> str_eq m (p_data pr) (ascii ''memory'')) \<longleftrightarrow>
    (\<exists>v. device_type t = Some v \<and> (v = [] \<or> cstr_of v \<noteq> ascii ''memory''))"
  proof (cases "device_type t")
    case None
    then show ?thesis using dt by simp
  next
    case (Some v)
    then obtain pr n where pr: "dt = Some pr" "prop_is m pr (n, v)" using dt by auto
    have "p_len pr = 0 \<longleftrightarrow> v = []" using pr(2) by (simp add: prop_is_def word_unat_eq_iff)
    moreover have "str_eq m (p_data pr) (ascii ''memory'') \<longleftrightarrow> cstr_of v = ascii ''memory''" if "v \<noteq> []"
      using str_eq_data [OF _ _ dtb_literals(1)] assms(5) Some that pr(2) by (simp add: prop_is_def)
    ultimately show ?thesis using pr(1) Some by auto
  qed
  have regs: "(case dtb_get_prop m d (Some i) (ascii ''reg'') of None \<Rightarrow> mems
      | Some reg \<Rightarrow> mem_entries m (p_data reg) ?ac ?sc [0..<unat (p_len reg div ((?ac + ?sc) * 4))] mems) =
    take 8 (mems @ (case map_of (d_props t) (ascii ''reg'') of None \<Rightarrow> [] | Some ds \<Rightarrow> reg_list (unat ?ac) (unat ?sc) ds))"
    using dtb_get_prop_rep [OF assms(1) dtb_literals(4)] mem_entries_reg [OF _ assms(3,4,2)] assms(2)
    by (auto simp: prop_is_def split: option.splits)
  show ?thesis
    unfolding extract_node_def Let_def starts dt_def [unfolded Let_def, symmetric] skip node_memory_def
    using regs assms(2) by (simp only: Let_def if_False if_True not_not cong: if_cong) auto
qed

lemma extract_kids:
  assumes "(unat (n_address_cells (node_pool d ! root)) + unat (n_size_cells (node_pool d ! root))) * 4 < 2 ^ 32"
    "0 < unat (n_address_cells (node_pool d ! root)) + unat (n_size_cells (node_pool d ! root))"
  shows "rep_kids m d q j b ts \<Longrightarrow> length mems \<le> 8 \<Longrightarrow>
    \<forall>t \<in> set ts. \<forall>v. device_type t = Some v \<longrightarrow> v = [] \<or> 0 \<in> set v \<Longrightarrow>
    fold (extract_node m d root) (kid_ids j ts) mems = take 8 (mems @ concat (map (node_memory
      (unat (n_address_cells (node_pool d ! root))) (unat (n_size_cells (node_pool d ! root)))) ts))"
proof (induction ts arbitrary: j b mems)
  case (Cons t ts)
  define x where "x = node_memory (unat (n_address_cells (node_pool d ! root))) (unat (n_size_cells (node_pool d ! root)))"
  have "extract_node m d root j mems = take 8 (mems @ x t)"
    unfolding x_def by (rule extract_node_at [OF _ Cons.prems(2) assms]) (use Cons.prems in auto)
  moreover have "fold (extract_node m d root) (kid_ids (j + tsize t) ts) (take 8 (mems @ x t)) =
      take 8 (take 8 (mems @ x t) @ concat (map x ts))"
    using Cons.prems unfolding x_def by (intro Cons.IH [of _ "b + tprops t"]) auto
  moreover have "take 8 (take 8 ys @ zs) = take 8 (ys @ zs)" for ys zs :: "(u64 \<times> u64) list"
    by (simp add: min_def)
  ultimately have "fold (extract_node m d root) (kid_ids (j + tsize t) ts) (extract_node m d root j mems) =
      take 8 ((mems @ x t) @ concat (map x ts))" by (simp only:)
  then show ?case unfolding x_def by (simp del: take_append)
qed simp

text \<open>The whole parser, from the header to the memory list.\<close>

lemma dtb_parse_tree:
  assumes "dtb_header m blob blob_len" "dtb_struct m (dtb_parser m blob pool) k nm its" "dtb_fits its"
    "length pool = 1024" "alloc_ok alloc s s'" "memory_wf (tree_of nm its)"
  shows "\<exists>tree d. dtb_parse (Some alloc) pool m blob blob_len (Some t0) s = Some (DTB_OK, Some tree, d, s') \<and>
    t_root tree = Some 0 \<and> rep m d 0 0 (tree_of nm its) \<and> t_memory tree = memory_of (tree_of nm its) \<and>
    t_boot_cpuid tree = be32_read m (blob + 28) \<and>
    (\<forall>ds. map_of (props_of its) (ascii ''compatible'') = Some ds \<and> ds \<noteq> [] \<longrightarrow>
       (\<forall>k < length ds. m (t_compatible tree + w32 k) = ds ! k))"
proof -
  define p where "p = dtb_parser m blob pool"
  have p: "node_pool p = []" "prop_used p = 0" "length (prop_pool p) = 1024" using assms(4) by (simp_all add: p_def dtb_parser_def)
  have geom: "geom p" unfolding p_def by (rule geom_blob [OF assms(1)])
  obtain cur p' where node: "parse_node m (struct_block p + w32 (4 * k + 4)) None p = Some (cur, Some 0, p')" "cur \<noteq> 0"
    "rep m p' 0 0 (tree_of nm its)"
    using parse_node_at [OF geom assms(2) [folded p_def] assms(3) p] by metis
  have first: "first_node m p (struct_block p) = Some (Some (struct_block p + w32 (4 * k + 4)))"
    using first_node_at [OF geom, of k m 0] assms(2) by (simp add: p_def dtb_struct_def)
  have cells: "n_address_cells (node_pool p' ! 0) = fst (d_cells (tree_of nm its))"
    "n_size_cells (node_pool p' ! 0) = fst (snd (d_cells (tree_of nm its)))"
    "n_children (node_pool p' ! 0) = (if d_kids (tree_of nm its) = [] then None else Some 1)"
    "rep_kids m p' 0 1 (length (props_of its)) (d_kids (tree_of nm its))"
    using node(3) by (simp_all add: tree_of_def node_is_def Let_def)
  have ext: "extract_memory m p' 0 t = Some (t\<lparr>t_memory := memory_of (tree_of nm its)\<rparr>)" if "t_memory t = []" for t
    using extract_from_kids [OF cells(4), of 0 "[]"] extract_kids [OF _ _ cells(4), of 0 "[]"] assms(6) that
    by (simp add: extract_memory_def cells(1-3) memory_of_def memory_wf_def)
  define tree where "tree = empty_tree\<lparr>t_boot_cpuid := be32_read m (blob + 28), t_root := Some 0\<rparr>"
  define tree' where "tree' = (case dtb_get_prop m p' (Some 0) (ascii ''compatible'') of
      None \<Rightarrow> tree | Some c \<Rightarrow> if p_len c > 0 then tree\<lparr>t_compatible := p_data c\<rparr> else tree)"
  have tree': "t_root tree' = Some 0" "t_memory tree' = []" "t_boot_cpuid tree' = be32_read m (blob + 28)"
    by (auto simp: tree'_def tree_def empty_tree_def split: option.splits)
  have compat: "m (t_compatible tree' + w32 j) = ds ! j"
    if c: "map_of (props_of its) (ascii ''compatible'') = Some ds" "ds \<noteq> []" "j < length ds" for ds j
  proof -
    obtain pr where pr: "dtb_get_prop m p' (Some 0) (ascii ''compatible'') = Some pr" "prop_is m pr (ascii ''compatible'', ds)"
      using dtb_get_prop_rep [OF node(3) dtb_literals(5)] c(1) by (auto simp: tree_of_def)
    have "unat (p_len pr) = length ds" using pr(2) by (simp add: prop_is_def)
    then have "p_len pr > 0" using c(2) by (simp add: word_less_nat_alt)
    then show ?thesis using pr c(3) by (simp add: tree'_def prop_is_def)
  qed
  obtain a1 s1 a2 where alloc: "alloc s 9216 = (a1, s1)" "alloc s1 16384 = (a2, s')" "a1 \<noteq> 0" "a2 \<noteq> 0"
    using assms(5) by (auto simp: alloc_ok_def Let_def split: prod.splits)
  note hdr = dtb_header_checks [OF assms(1)]
  have "dtb_parse (Some alloc) pool m blob blob_len (Some t0) s =
      Some (DTB_OK, Some (tree'\<lparr>t_memory := memory_of (tree_of nm its)\<rparr>), dt_arrays.truncate p', s')"
    using hdr alloc first node(1,2) ext [OF tree'(2), unfolded tree'_def tree_def] unfolding tree'_def tree_def
    by (simp add: dtb_parse_def Let_def p_def dtb_parser_def)
  then show ?thesis using tree' compat node(3) by (simp add: tree_of_def) 
qed

text \<open>C9: a blob with an acceptable header, whose structure block holds no-ops and then a well-formed root node
  that fits into the arrays, is parsed: \<open>dtb_parse\<close> ends and returns \<open>DTB_OK\<close>, the two arrays represent exactly
  the tree of the blob (names, cell counts, handles, properties and children in order), and the memory list
  has the first eight \<^verbatim>\<open>reg\<close> entries of the memory nodes.\<close>

theorem dtb_parse_correct:
  assumes "dtb_header m blob blob_len" "dtb_struct m (dtb_parser m blob pool) k nm its" "dtb_fits its"
    "length pool = 1024" "alloc_ok alloc s s'" "memory_wf (tree_of nm its)"
  shows "\<exists>tree d. dtb_parse (Some alloc) pool m blob blob_len (Some t0) s = Some (DTB_OK, Some tree, d, s') \<and>
    t_root tree = Some 0 \<and> rep m d 0 0 (tree_of nm its) \<and> t_memory tree = memory_of (tree_of nm its) \<and>
    t_boot_cpuid tree = be32_read m (blob + 28) \<and>
    (\<forall>ds. map_of (props_of its) (ascii ''compatible'') = Some ds \<and> ds \<noteq> [] \<longrightarrow>
       (\<forall>k < length ds. m (t_compatible tree + w32 k) = ds ! k))"
  by (rule dtb_parse_tree [OF assms])

section \<open>A small blob\<close>

text \<open>A root with one memory node of 128 MB at 0x40000000, and a no-op before it.\<close>

definition blob_bytes :: "u8 list" where
  "blob_bytes =
     [0xd0, 0x0d, 0xfe, 0xed, 0, 0, 0, 131, 0, 0, 0, 40, 0, 0, 0, 116, 0, 0, 0, 0, 0, 0, 0, 17, 0, 0, 0, 16, 0, 0, 0, 3,
      0, 0, 0, 15, 0, 0, 0, 76,
      0, 0, 0, 4, 0, 0, 0, 1, 0, 0, 0, 0,
      0, 0, 0, 1] @ ascii ''memory'' @ [0, 0,
      0, 0, 0, 3, 0, 0, 0, 12, 0, 0, 0, 0, 0, 0, 0, 0, 0x40, 0, 0, 0, 0x08, 0, 0, 0,
      0, 0, 0, 3, 0, 0, 0, 4, 0, 0, 0, 4] @ ascii ''a'' @ [0] @ ascii ''b'' @ [0,
      0, 0, 0, 2, 0, 0, 0, 2, 0, 0, 0, 9] @ ascii ''reg'' @ [0] @ ascii ''compatible'' @ [0]"

definition blob_mem :: "u32 \<Rightarrow> u8 list \<Rightarrow> mem" where
  "blob_mem base bytes a = (let k = unat (a - base) in if k < length bytes then bytes ! k else 0)"


lemma blob_bytes: "blob_bytes =
     [0xd0, 0x0d, 0xfe, 0xed, 0, 0, 0, 131, 0, 0, 0, 40, 0, 0, 0, 116, 0, 0, 0, 0, 0, 0, 0, 17, 0, 0, 0, 16, 0, 0, 0, 3,
      0, 0, 0, 15, 0, 0, 0, 76,
      0, 0, 0, 4, 0, 0, 0, 1, 0, 0, 0, 0,
      0, 0, 0, 1, 109, 101, 109, 111, 114, 121, 0, 0,
      0, 0, 0, 3, 0, 0, 0, 12, 0, 0, 0, 0, 0, 0, 0, 0, 0x40, 0, 0, 0, 0x08, 0, 0, 0,
      0, 0, 0, 3, 0, 0, 0, 4, 0, 0, 0, 4, 97, 0, 98, 0,
      0, 0, 0, 2, 0, 0, 0, 2, 0, 0, 0, 9, 114, 101, 103, 0, 99, 111, 109, 112, 97, 116, 105, 98, 108, 101, 0]"
  by (simp add: blob_bytes_def ascii_def)

lemma demo_header: "dtb_header (blob_mem 0x40000000 blob_bytes) 0x40000000 131"
  by (simp add: dtb_header_def be32_read_def blob_mem_def blob_bytes Let_def)

lemma demo_parser: "dtb_parser (blob_mem 0x40000000 blob_bytes) 0x40000000 pool =
  \<lparr>node_pool = [], prop_pool = pool, struct_block = 0x40000028, string_block = 0x40000074, struct_size = 76,
   string_size = 15, prop_used = 0\<rparr>"
  by (simp add: dtb_parser_def be32_read_def blob_mem_def blob_bytes Let_def)

lemma demo_words: "be32_read (blob_mem 0x40000000 blob_bytes) 0x40000028 = 4"
 "be32_read (blob_mem 0x40000000 blob_bytes) 0x4000002C = 1"
 "be32_read (blob_mem 0x40000000 blob_bytes) 0x40000034 = 1"
 "be32_read (blob_mem 0x40000000 blob_bytes) 0x40000040 = 3"
 "be32_read (blob_mem 0x40000000 blob_bytes) 0x40000044 = 12"
 "be32_read (blob_mem 0x40000000 blob_bytes) 0x40000048 = 0"
 "be32_read (blob_mem 0x40000000 blob_bytes) 0x40000058 = 3"
 "be32_read (blob_mem 0x40000000 blob_bytes) 0x4000005C = 4"
 "be32_read (blob_mem 0x40000000 blob_bytes) 0x40000060 = 4"
 "be32_read (blob_mem 0x40000000 blob_bytes) 0x40000068 = 2"
 "be32_read (blob_mem 0x40000000 blob_bytes) 0x4000006C = 2"
  by (simp_all add: be32_read_def blob_mem_def blob_bytes Let_def)

lemma demo_names: "cstr_at (blob_mem 0x40000000 blob_bytes) 0x40000030 []"
  "cstr_at (blob_mem 0x40000000 blob_bytes) 0x40000038 (ascii ''memory'')"
  "cstr_at (blob_mem 0x40000000 blob_bytes) 0x40000074 (ascii ''reg'')"
  "cstr_at (blob_mem 0x40000000 blob_bytes) 0x40000078 (ascii ''compatible'')"
  by (simp_all add: ascii_def blob_mem_def blob_bytes Let_def)

abbreviation (input) demo_range :: "u8 list" where
  "demo_range \<equiv> [0, 0, 0, 0, 0x40, 0, 0, 0, 0x08, 0, 0, 0]"

lemma demo_data: "\<forall>k < length demo_range. blob_mem 0x40000000 blob_bytes (0x4000004C + w32 k) = demo_range ! k"
  "\<forall>k < length [97, 0, 98, 0 :: u8]. blob_mem 0x40000000 blob_bytes (0x40000064 + w32 k) = [97, 0, 98, 0] ! k"
  by (simp_all add: All_less_Suc2 blob_mem_def blob_bytes Let_def)

abbreviation (input) demo_items :: items where
  "demo_items \<equiv> Child (ascii ''memory'') (Prop (ascii ''reg'') demo_range (Prop (ascii ''compatible'') [97, 0, 98, 0] Done)) Done"

lemma demo_struct: "dtb_struct (blob_mem 0x40000000 blob_bytes) (dtb_parser (blob_mem 0x40000000 blob_bytes) 0x40000000 pool) 1 [] demo_items"
  using demo_names demo_data by (simp add: dtb_struct_def demo_parser demo_words up4_def ascii_def)

abbreviation (input) demo_node :: dtree where
  "demo_node \<equiv> Node (ascii ''memory'') (2, 1, 0) [(ascii ''reg'', demo_range), (ascii ''compatible'', [97, 0, 98, 0])] []"

lemma demo_tree: "tree_of [] demo_items = Node [] (2, 1, 0) [] [demo_node]"
  by (simp add: tree_of_def inherit_def set_cells_def ascii_def)

lemma demo_memory: "memory_of (tree_of [] demo_items) = [(0x40000000, 0x08000000)]"
  unfolding demo_tree unfolding memory_of_def node_memory_def device_type_def ascii_def
  by (simp add: reg_list_def be_cells_def be32_list_def be32_read_def upt_rec)

theorem dtb_parse_correct_witness:
  "\<exists>tree d. dtb_parse (Some (\<lambda>s n. (1, s))) (replicate 1024 \<lparr>p_name = 0, p_data = 0, p_len = 0, p_type = DTB_VAL_EMPTY\<rparr>)
      (blob_mem 0x40000000 blob_bytes) 0x40000000 131 (Some empty_tree) () = Some (DTB_OK, Some tree, d, ()) \<and>
    t_memory tree = [(0x40000000, 0x08000000)]"
proof -
  have wf: "memory_wf (tree_of [] demo_items)" unfolding demo_tree unfolding memory_wf_def device_type_def ascii_def by simp
  have fits: "dtb_fits demo_items" by (simp add: dtb_fits_def)
  have alloc: "alloc_ok (\<lambda>s n. (1, s)) () ()" by (simp add: alloc_ok_def)
  have pool: "length (replicate 1024 \<lparr>p_name = 0, p_data = 0, p_len = 0, p_type = DTB_VAL_EMPTY\<rparr>) = 1024" by simp
  show ?thesis
    using dtb_parse_correct [OF demo_header demo_struct fits pool alloc wf, of empty_tree] demo_memory by auto
qed

end
