(* ===== verification/Leg_Dtb_Find.thy ===== *)
theory Leg_Dtb_Find
  imports Leg_Dtb_Props
begin

text \<open>The searches in a parsed device tree, against their meaning on the abstract tree.\<close>

section \<open>Searching siblings\<close>

lemma find_sibling_kids:
  assumes "\<And>j b t. rep m d j b t \<Longrightarrow> hit j = Some (P t)"
  shows "rep_kids m d q j b ts \<Longrightarrow> \<exists>r. find_sibling hit (node_pool d) (if ts = [] then None else Some j) = Some r \<and>
    (case find P ts of None \<Rightarrow> r = None | Some u \<Rightarrow> \<exists>i b'. r = Some i \<and> rep m d i b' u)"
proof (induction ts arbitrary: j b)
  case Nil
  then show ?case by (simp add: find_sibling.simps)
next
  case (Cons t ts)
  then have "hit j = Some (P t)" using assms [of j b t] by simp
  then show ?case using Cons by (subst find_sibling.simps) (auto split: if_splits)
qed

section \<open>Paths\<close>

text \<open>A path segment names a node with or without its unit address.\<close>

definition seg_matches :: "u8 list \<Rightarrow> u8 list \<Rightarrow> bool" where
  "seg_matches seg nm \<longleftrightarrow> nm = seg \<or> 64 \<in> set nm \<and> takeWhile (\<lambda>c. c \<noteq> 64) nm = seg"

fun walk :: "dtree \<Rightarrow> u8 list list \<Rightarrow> dtree option" where
  "walk t [] = Some t"
| "walk t (s # ss) = Option.bind (find (\<lambda>k. seg_matches s (d_name k)) (d_kids t)) (\<lambda>k. walk k ss)"

function segments :: "u8 list \<Rightarrow> u8 list list" where
  "segments path =
     (if path = [] then []
      else
        let seg = takeWhile (\<lambda>x. x \<noteq> 47) path; rest = tl (dropWhile (\<lambda>x. x \<noteq> 47) path)
        in if seg = [] then segments rest else seg # segments rest)"
  by auto

termination segments
proof (relation "measure length")
  fix path :: "u8 list" and seg rest
  assume "path \<noteq> []" "rest = tl (dropWhile (\<lambda>x. x \<noteq> 47) path)"
  moreover have "length (dropWhile (\<lambda>x. x \<noteq> 47) path) \<le> length path" by (rule length_dropWhile_le)
  ultimately show "(rest, path) \<in> measure length" by (cases "dropWhile (\<lambda>x. x \<noteq> 47) path") auto
  then show "(rest, path) \<in> measure length" .
qed simp

declare segments.simps [simp del]

lemma node_matches_rep:
  assumes "rep m d i b t" "0 \<notin> set seg"
  shows "node_matches m d seg i = Some (seg_matches seg (d_name t))"
proof -
  obtain nm c ps ts where t: "t = Node nm c ps ts" by (cases t)
  let ?a = "n_name (node_pool d ! i)"
  have nm: "cstr_at m ?a nm" using assms(1) by (simp add: t node_is_def Let_def)
  have len: "strlen m ?a = Some (int (length nm))" using strlen_loop_cstr [OF nm, of 0] by (simp add: strlen_def)
  have starts: "str_starts m ?a seg \<longleftrightarrow> take (length seg) nm = seg" by (rule str_starts_cstr [OF nm assms(2)])
  have "find (\<lambda>i. m (?a + w32 i) = 64) [0..<length nm] = find (\<lambda>i. nm ! i = 64) [0..<length nm]"
    using cstr_at_nth [OF nm] by (intro find_cong) auto
  moreover have "find (\<lambda>i. nm ! i = 64) [0..<length nm] =
    (if 64 \<in> set nm then Some (length (takeWhile (\<lambda>c. c \<noteq> 64) nm)) else None)"
  proof (cases "64 \<in> set nm")
    case False
    then show ?thesis by (auto simp: find_None_iff in_set_conv_nth)
  next
    case True
    let ?n = "length (takeWhile (\<lambda>c. c \<noteq> 64) nm)"
    have lt: "?n < length nm" using length_takeWhile_less [OF True] by simp
    have "nm ! ?n = 64" using nth_length_takeWhile [OF lt] by simp
    moreover have "nm ! k \<noteq> 64" if "k < ?n" for k
      using that set_takeWhileD [of "nm ! k" "\<lambda>c. c \<noteq> 64" nm] takeWhile_nth [OF that] nth_mem [OF that] by auto
    ultimately have "find (\<lambda>i. nm ! i = 64) [0..<length nm] = Some ?n"
      unfolding find_Some_iff using lt by (intro exI [of _ ?n]) auto
    then show ?thesis using True by simp
  qed
  moreover have "length nm = length seg \<and> take (length seg) nm = seg \<longleftrightarrow> nm = seg" by auto
  moreover have "length (takeWhile (\<lambda>c. c \<noteq> 64) nm) = length seg \<and> take (length seg) nm = seg \<longleftrightarrow> takeWhile (\<lambda>c. c \<noteq> 64) nm = seg"
    by (metis takeWhile_eq_take)
  ultimately show ?thesis
    by (auto simp: node_matches_def len starts seg_matches_def t)
qed

lemma find_path_rep:
  "0 \<notin> set path \<Longrightarrow> rep m d i b t \<Longrightarrow> \<exists>r. find_path m d (Some i) path = Some r \<and>
    (case walk t (segments path) of None \<Rightarrow> r = None | Some u \<Rightarrow> \<exists>j b'. r = Some j \<and> rep m d j b' u)"
proof (induction path arbitrary: i b t rule: segments.induct)
  case (1 path)
  let ?seg = "takeWhile (\<lambda>x. x \<noteq> 47) path" and ?rest = "tl (dropWhile (\<lambda>x. x \<noteq> 47) path)"
  have rest: "0 \<notin> set ?rest"
    using 1(3) by (metis list.sel(2) list.set_sel(2) set_dropWhileD)
  have seg: "0 \<notin> set ?seg" using 1(3) by (auto dest: set_takeWhileD)
  consider "path = []" | "path \<noteq> []" "?seg = []" | "path \<noteq> []" "?seg \<noteq> []" by blast
  then show ?case
  proof cases
    case 1
    then show ?thesis using \<open>rep m d i b t\<close> by (auto simp: find_path.simps segments.simps)
  next
    case 2
    then show ?thesis using "1.IH"(1) [OF _ refl refl] rest \<open>rep m d i b t\<close>
      by (subst find_path.simps, subst segments.simps) (simp add: Let_def)
  next
    case 3
    obtain nm c ps ts where t: "t = Node nm c ps ts" by (cases t)
    have kids: "rep_kids m d i (Suc i) (b + length ps) ts" "n_children (node_pool d ! i) = (if ts = [] then None else Some (Suc i))"
      using \<open>rep m d i b t\<close> by (simp_all add: t node_is_def Let_def)
    have "\<exists>r. find_sibling (node_matches m d ?seg) (node_pool d) (if ts = [] then None else Some (Suc i)) = Some r \<and>
      (case find (\<lambda>k. seg_matches ?seg (d_name k)) ts of None \<Rightarrow> r = None | Some u \<Rightarrow> \<exists>j b'. r = Some j \<and> rep m d j b' u)"
      by (rule find_sibling_kids [OF _ kids(1)]) (rule node_matches_rep [OF _ seg])
    then obtain r where r: "find_in_children m d i ?seg = Some r"
      "case find (\<lambda>k. seg_matches ?seg (d_name k)) ts of None \<Rightarrow> r = None | Some u \<Rightarrow> \<exists>j b'. r = Some j \<and> rep m d j b' u"
      by (auto simp: find_in_children_def kids(2))
    have step: "find_path m d (Some i) path = find_path m d r ?rest"
      using 3 r(1) by (subst find_path.simps) (simp add: Let_def)
    have segs: "segments path = ?seg # segments ?rest" using 3 by (subst segments.simps) (simp add: Let_def)
    show ?thesis
    proof (cases "find (\<lambda>k. seg_matches ?seg (d_name k)) ts")
      case None
      then show ?thesis using r(2) unfolding step segs by (simp add: t find_path.simps)
    next
      case (Some u)
      then obtain j b' where "r = Some j" "rep m d j b' u" using r(2) by auto
      then show ?thesis using "1.IH"(2) [OF _ refl refl _ rest, of j b' u] 3 Some unfolding step segs by (simp add: t)
    qed
  qed
qed

section \<open>Depth-first scans\<close>

fun preorder :: "dtree \<Rightarrow> dtree list" where
  "preorder (Node nm c ps ts) = Node nm c ps ts # concat (map preorder ts)"

lemma find_append: "find P (xs @ ys) = (case find P xs of None \<Rightarrow> find P ys | Some x \<Rightarrow> Some x)"
  by (induction xs) auto

definition found :: "mem \<Rightarrow> 'a dt_arrays_scheme \<Rightarrow> dtree option \<Rightarrow> nat option \<Rightarrow> bool" where
  "found m d u r \<longleftrightarrow> (case u of None \<Rightarrow> r = None | Some t \<Rightarrow> \<exists>i b. r = Some i \<and> rep m d i b t)"

text \<open>A test of the code that decides a predicate on the trees of a set.\<close>

definition decides :: "mem \<Rightarrow> 'a dt_arrays_scheme \<Rightarrow> dtree set \<Rightarrow> (nat \<Rightarrow> bool option) \<Rightarrow> (dtree \<Rightarrow> bool) \<Rightarrow> bool" where
  "decides m d T hit P \<longleftrightarrow> (\<forall>u \<in> T. \<forall>j b. rep m d j b u \<longrightarrow> hit j = Some (P u))"

lemma scan_rep:
  assumes "decides m d T hit P"
  shows "rep m d i b t \<Longrightarrow> set (preorder t) \<subseteq> T \<Longrightarrow> \<exists>r. tree_scan hit (node_pool d) (Some i) = Some r \<and> found m d (find P (preorder t)) r"
    "rep_kids m d q i b ts \<Longrightarrow> set (concat (map preorder ts)) \<subseteq> T \<Longrightarrow> \<exists>r. scan_from hit (node_pool d) (if ts = [] then None else Some i) = Some r \<and>
      found m d (find P (concat (map preorder ts))) r"
  using assms
proof (induction m d i b t and m d q i b ts rule: rep_rep_kids.induct)
  case (1 m d i b nm c ps ts)
  have hit: "hit i = Some (P (Node nm c ps ts))" using 1(2,4) 1(3) [simplified] unfolding decides_def by blast
  have kids: "rep_kids m d i (Suc i) (b + length ps) ts" "n_children (node_pool d ! i) = (if ts = [] then None else Some (Suc i))"
    using 1(2) by (simp_all add: node_is_def Let_def)
  from 1(1) [OF kids(1) _ 1(4)] 1(3) show ?case
    using 1(2) by (auto simp: tree_scan_def hit kids(2) found_def)
next
  case (2 m d q j b)
  then show ?case by (simp add: scan_from.simps found_def)
next
  case (3 m d q j b t ts)
  have r: "rep m d j b t" "rep_kids m d q (j + tsize t) (b + tprops t) ts"
    "n_next (node_pool d ! j) = (if ts = [] then None else Some (j + tsize t))"
    using 3(3) by simp_all
  obtain r1 where r1: "tree_scan hit (node_pool d) (Some j) = Some r1" "found m d (find P (preorder t)) r1"
    using 3(1) [OF r(1) _ 3(5)] 3(4) by auto
  obtain r2 where r2: "scan_from hit (node_pool d) (if ts = [] then None else Some (j + tsize t)) = Some r2"
    "found m d (find P (concat (map preorder ts))) r2"
    using 3(2) [OF r(2) _ 3(5)] 3(4) by auto
  have "scan_from hit (node_pool d) (Some j) = (case r1 of Some k \<Rightarrow> Some (Some k) | None \<Rightarrow> Some r2)"
    using r1(1) r2(1) r(3) by (subst scan_from.simps) (auto simp: tree_scan_def split: option.splits)
  then show ?case using r1(2) r2(2) by (auto simp: find_append found_def split: option.splits)
qed

function nul_strings :: "u8 list \<Rightarrow> u8 list list" where
  "nul_strings ds = (if ds = [] then [] else takeWhile (\<lambda>c. c \<noteq> 0) ds # nul_strings (tl (dropWhile (\<lambda>c. c \<noteq> 0) ds)))"
  by auto

termination nul_strings
proof (relation "measure length")
  fix ds :: "u8 list"
  assume "ds \<noteq> []"
  moreover have "length (dropWhile (\<lambda>c. c \<noteq> 0) ds) \<le> length ds" by (rule length_dropWhile_le)
  moreover from \<open>ds \<noteq> []\<close> have "0 < length ds" by simp
  ultimately show "(tl (dropWhile (\<lambda>c. c \<noteq> 0) ds), ds) \<in> measure length"
    unfolding in_measure length_tl by linarith
qed simp

declare nul_strings.simps [simp del]

lemma nul_strings_Nil [simp]: "nul_strings [] = []"
  by (simp add: nul_strings.simps)

lemma cstr_at_takeWhile:
  assumes "\<forall>k < length ds. m (a + w32 k) = ds ! k" "0 \<in> set ds"
  shows "cstr_at m a (cstr_of ds)"
proof -
  define n where "n = length (cstr_of ds)"
  have n: "n < length ds" unfolding n_def cstr_of_def using length_takeWhile_less [OF assms(2)] by simp
  then have z: "ds ! n = 0" using nth_length_takeWhile [of "\<lambda>c. c \<noteq> 0" ds] by (simp add: n_def cstr_of_def)
  show ?thesis
  proof (rule cstr_at_bytes)
    show "\<forall>k < length (cstr_of ds). m (a + w32 k) = cstr_of ds ! k"
      using assms(1) n by (simp add: n_def [symmetric]) (auto simp: cstr_of_def n_def takeWhile_nth)
    show "0 \<notin> set (cstr_of ds)" by (auto simp: cstr_of_def dest: set_takeWhileD)
    show "m (a + w32 (length (cstr_of ds))) = 0" using assms(1) n z by (simp add: n_def [symmetric])
  qed
qed

lemma compat_loop_at:
  assumes "0 \<notin> set wanted"
  shows "\<forall>k < length ds. m (a + w32 k) = ds ! k \<Longrightarrow> ds = [] \<or> last ds = 0 \<Longrightarrow> unat a + length ds < 2 ^ 32 \<Longrightarrow>
    compat_loop m wanted a (a + w32 (length ds)) = Some (wanted \<in> set (nul_strings ds))"
proof (induction ds arbitrary: a rule: nul_strings.induct)
  case (1 ds)
  show ?case
  proof (cases "ds = []")
    case True
    then show ?thesis by (simp add: compat_loop.simps nul_strings.simps)
  next
    case False
    let ?s = "cstr_of ds" and ?rest = "tl (dropWhile (\<lambda>c. c \<noteq> 0) ds)"
    let ?n = "length ?s"
    have z: "0 \<in> set ds" using False 1(3) by (metis last_in_set)
    have s: "cstr_at m a ?s" by (rule cstr_at_takeWhile [OF 1(2) z])
    have lt: "?n < length ds" unfolding cstr_of_def using length_takeWhile_less [OF z] by simp
    have drop: "dropWhile (\<lambda>c. c \<noteq> 0) ds = drop ?n ds" by (simp add: cstr_of_def dropWhile_eq_drop)
    then have rest: "?rest = drop (Suc ?n) ds" by (simp add: drop_Suc tl_drop)
    have end_a: "unat (a + w32 (length ds)) = unat a + length ds"
      using 1(4) unat_add_no_wrap [of a "w32 (length ds)"] by (simp add: unat_w32)
    have next_a: "unat (a + w32 (Suc ?n)) = unat a + Suc ?n"
    proof -
      have "unat a + Suc ?n < 2 ^ 32" using 1(4) lt by linarith
      moreover from this have "Suc ?n < 2 ^ 32" by linarith
      then have "unat (w32 (Suc ?n)) = Suc ?n" by (rule unat_w32)
      ultimately show ?thesis using unat_add_no_wrap [of a "w32 (Suc ?n)"] by metis
    qed
    have l: "compat_loop m wanted (a + w32 (Suc ?n)) (a + w32 (Suc ?n) + w32 (length ?rest)) = Some (wanted \<in> set (nul_strings ?rest))"
    proof (rule 1(1) [OF False])
      show "\<forall>k < length ?rest. m (a + w32 (Suc ?n) + w32 k) = ?rest ! k"
        using 1(2) lt by (auto simp: rest add.assoc simp del: of_nat_Suc simp flip: of_nat_add)
      show "?rest = [] \<or> last ?rest = 0" using 1(3) False by (cases "Suc ?n < length ds") (auto simp: rest last_drop)
      show "unat (a + w32 (Suc ?n)) + length ?rest < 2 ^ 32" using 1(4) lt unfolding next_a by (simp add: rest)
    qed
    have e: "a + w32 (Suc ?n) + w32 (length ?rest) = a + w32 (length ds)"
      using lt by (simp add: rest add.assoc del: of_nat_Suc flip: of_nat_add)
    note l [unfolded e]
    moreover have "a < a + w32 (length ds)" using end_a lt False by (simp add: word_less_nat_alt)
    moreover have "strlen m a = Some (int ?n)" using strlen_loop_cstr [OF s, of 0] by (simp add: strlen_def)
    moreover have "str_eq m a wanted \<longleftrightarrow> ?s = wanted" by (rule str_eq_cstr [OF s assms])
    moreover have "nul_strings ds = ?s # nul_strings ?rest" using False by (subst nul_strings.simps) (simp add: cstr_of_def)
    ultimately show ?thesis by (subst compat_loop.simps) (auto simp: add_ac)
  qed
qed

lemma decides_phandle:
  "decides m d T (\<lambda>i. Some (n_phandle (node_pool d ! i) = ph)) (\<lambda>u. snd (snd (d_cells u)) = ph)"
  unfolding decides_def
proof (intro ballI allI impI)
  fix t j b assume "rep m d j b t"
  then show "Some (n_phandle (node_pool d ! j) = ph) = Some (snd (snd (d_cells t)) = ph)"
    by (cases t) (simp add: node_is_def Let_def)
qed

text \<open>The strings of the property \<^verbatim>\<open>compatible\<close>.\<close>

definition compat_strings :: "dtree \<Rightarrow> u8 list list" where
  "compat_strings t = (case map_of (d_props t) (ascii ''compatible'') of None \<Rightarrow> [] | Some ds \<Rightarrow> nul_strings ds)"

text \<open>Every such property ends with a terminator.\<close>

definition compat_wf :: "dtree \<Rightarrow> bool" where
  "compat_wf t \<longleftrightarrow> (\<forall>ds. map_of (d_props t) (ascii ''compatible'') = Some ds \<longrightarrow> ds = [] \<or> last ds = 0)"

lemma node_has_compat_rep:
  assumes "rep m d i b t" "0 \<notin> set wanted" "compat_wf t"
  shows "node_has_compat m d wanted i = Some (wanted \<in> set (compat_strings t))"
proof (cases "map_of (d_props t) (ascii ''compatible'')")
  case None
  then show ?thesis using dtb_get_prop_rep [OF assms(1) dtb_literals(5)] by (simp add: node_has_compat_def compat_strings_def)
next
  case (Some ds)
  then obtain pr where pr: "dtb_get_prop m d (Some i) (ascii ''compatible'') = Some pr" "prop_is m pr (ascii ''compatible'', ds)"
    using dtb_get_prop_rep [OF assms(1) dtb_literals(5)] by auto
  have len: "p_len pr = w32 (length ds)" "p_len pr = 0 \<longleftrightarrow> ds = []"
    using pr(2) by (metis prop_is_def snd_conv w32_unat, metis length_0_conv prop_is_def snd_conv unat_eq_0)
  have "compat_loop m wanted (p_data pr) (p_data pr + w32 (length ds)) = Some (wanted \<in> set (nul_strings ds))"
    using pr(2) assms(3) Some by (intro compat_loop_at [OF assms(2)]) (auto simp: prop_is_def compat_wf_def)
  then show ?thesis using pr(1) len Some
    by (auto simp: node_has_compat_def compat_strings_def)
qed

section \<open>The queries\<close>

text \<open>C29: \<open>dtb_find_node\<close> follows a path segment by segment, each to the first child whose name is the segment,
  with or without a unit address, and returns null exactly when a segment has no such child; empty segments
  count for nothing.\<close>

theorem dtb_find_node_correct:
  assumes "rep m d 0 0 t" "t_root tree = Some 0" "0 \<notin> set path"
  shows "\<exists>r. dtb_find_node m d (Some tree) (47 # path) = Some r \<and> found m d (walk t (segments path)) r"
  using find_path_rep [OF assms(3,1)] assms(2) by (simp add: dtb_find_node_def found_def)

text \<open>\<open>dtb_find_phandle\<close> returns the first node in depth-first order with the handle, \<open>dtb_find_compatible\<close> the first
  whose \<^verbatim>\<open>compatible\<close> list has the string, and null exactly when there is none.\<close>

theorem dtb_scans_correct:
  assumes "rep m d 0 0 t" "t_root tree = Some 0" "0 \<notin> set wanted" "\<forall>u \<in> set (preorder t). compat_wf u" "ph \<noteq> 0"
  shows "(\<exists>r. dtb_find_phandle d (Some tree) ph = Some r \<and> found m d (find (\<lambda>u. snd (snd (d_cells u)) = ph) (preorder t)) r) \<and>
    (\<exists>r. dtb_find_compatible m d (Some tree) wanted = Some r \<and>
       found m d (find (\<lambda>u. wanted \<in> set (compat_strings u)) (preorder t)) r)"
proof -
  have "decides m d (set (preorder t)) (node_has_compat m d wanted) (\<lambda>u. wanted \<in> set (compat_strings u))"
    unfolding decides_def using node_has_compat_rep [OF _ assms(3)] assms(4) by blast
  then show ?thesis
    using scan_rep(1) [OF _ assms(1) order.refl] scan_rep(1) [OF decides_phandle [of m d _ ph] assms(1) order.refl] assms(2,5)
    by (simp add: dtb_find_phandle_def dtb_find_compatible_def phandle_scan_def compat_scan_def)
qed

text \<open>The demo blob: \<^verbatim>\<open>/memory\<close> and the node that is compatible with \<^verbatim>\<open>b\<close>.\<close>

lemma demo_rep: "\<exists>d :: parser_t. rep (blob_mem 0x40000000 blob_bytes) d 0 0 (tree_of [] demo_items)"
proof -
  let ?pool = "replicate 1024 \<lparr>p_name = 0, p_data = 0, p_len = 0, p_type = DTB_VAL_EMPTY\<rparr>"
  have "dtb_fits demo_items" by (simp add: dtb_fits_def)
  then show ?thesis
    using parse_node_at [OF geom_blob [OF demo_header] demo_struct [of ?pool]] by (auto simp: dtb_parser_def)
qed

theorem dtb_find_node_correct_witness:
  "\<exists>d :: parser_t. \<exists>i b. dtb_find_node (blob_mem 0x40000000 blob_bytes) d (Some (empty_tree\<lparr>t_root := Some 0\<rparr>)) (ascii ''/memory'') = Some (Some i) \<and>
    rep (blob_mem 0x40000000 blob_bytes) d i b demo_node"
proof -
  obtain d :: parser_t where d: "rep (blob_mem 0x40000000 blob_bytes) d 0 0 (tree_of [] demo_items)" using demo_rep by blast
  have path: "ascii ''/memory'' = 47 # ascii ''memory''" by (simp add: ascii_def)
  have segs: "segments (ascii ''memory'') = [ascii ''memory'']" by (simp add: ascii_def segments.simps)
  have "walk (tree_of [] demo_items) [ascii ''memory''] = Some demo_node"
    unfolding demo_tree by (simp add: seg_matches_def)
  then show ?thesis
    using dtb_find_node_correct [OF d, of "empty_tree\<lparr>t_root := Some 0\<rparr>" "ascii ''memory''"] dtb_literals(1) segs
    by (auto simp: path found_def)
qed

theorem dtb_scans_correct_witness:
  "\<exists>d :: parser_t. \<exists>i b. dtb_find_compatible (blob_mem 0x40000000 blob_bytes) d (Some (empty_tree\<lparr>t_root := Some 0\<rparr>)) [98] = Some (Some i) \<and>
    rep (blob_mem 0x40000000 blob_bytes) d i b demo_node"
proof -
  obtain d :: parser_t where d: "rep (blob_mem 0x40000000 blob_bytes) d 0 0 (tree_of [] demo_items)" using demo_rep by blast
  have c: "compat_strings (Node [] (2, 1, 0) [] [demo_node]) = []" "compat_strings demo_node = [[97], [98]]"
    unfolding compat_strings_def ascii_def by (simp_all add: nul_strings.simps)
  have wf: "\<forall>u \<in> set (preorder (tree_of [] demo_items)). compat_wf u"
    unfolding demo_tree by (simp add: compat_wf_def)
  have "find (\<lambda>u. [98] \<in> set (compat_strings u)) (preorder (tree_of [] demo_items)) = Some demo_node"
    unfolding demo_tree by (simp add: c)
  then show ?thesis
    using dtb_scans_correct [OF d _ _ wf, of "empty_tree\<lparr>t_root := Some 0\<rparr>" "[98]" 1] by (auto simp: found_def)
qed

section \<open>A length that wraps\<close>

text \<open>The look-ahead does not end on a property whose length takes it back to its own token.\<close>

lemma count_props_loops:
  assumes "in_struct p s 4" "be32_read m s = DTB_PROP" "in_struct p (s + 4) 8"
    "pad4 p (s + 12 - struct_block p + be32_read m (s + 4)) = s"
  shows "count_props m p s depth cnt = None"
proof -
  have "m' = m \<longrightarrow> p' = p \<longrightarrow> a \<noteq> s" if "count_props m' p' a b c = Some r" for m' p' a b c r
    apply (rule count_props.raw_induct [OF _ that, where P = "\<lambda>m' p' a b c r. m' = m \<longrightarrow> p' = p \<longrightarrow> a \<noteq> s"])
    subgoal premises prems for f m' p' a b c r
    proof (intro impI notI)
      assume eq: "m' = m" "p' = p" "a = s"
      then have "f m p s b (if b = 0 then c + 1 else c) = Some r"
        using prems(2) assms by (simp add: Let_def add_ac split: if_splits)
      then show False using prems(1) by blast
    qed
    done
  then show ?thesis by (metis not_None_eq)
qed

text \<open>C30: a blob with an acceptable header whose root node starts with a property of length 0xFFFFFFF4 hangs the
  parser: the length is not checked, the position wraps back to the property, and the look-ahead counts it
  for ever.\<close>

theorem dtb_parse_hangs:
  fixes pool :: "dtb_prop_t list" and nm :: "u8 list"
  assumes "dtb_header m blob blob_len" "alloc_ok alloc s s'"
  defines "p \<equiv> dtb_parser m blob pool"
  defines "o1 \<equiv> 4 + up4 (length nm + 1)"
  assumes "be32_read m (struct_block p) = DTB_BEGIN_NODE" "cstr_at m (struct_block p + 4) nm"
    "be32_read m (struct_block p + w32 o1) = DTB_PROP" "be32_read m (struct_block p + w32 (o1 + 4)) = 0xFFFFFFF4"
    "o1 + 12 \<le> unat (struct_size p)"
  shows "dtb_parse (Some alloc) pool m blob blob_len (Some t0) s = None"
proof -
  have geom: "geom p" unfolding p_def by (rule geom_blob [OF assms(1)])
  have o1: "4 dvd o1" "length nm + 5 \<le> o1" using up4_bounds [of "length nm + 1"] by (simp_all add: o1_def)
  have lt: "unat (struct_size p) < 2 ^ 32" by (rule unat_lt_32)
  have first: "first_node m p (struct_block p) = Some (Some (struct_block p + w32 4))"
    using first_node_at [OF geom, of 0 m 0] assms(5,9) by simp
  have name: "scan_name m p (struct_block p + w32 4) = Some (struct_block p + w32 (4 + length nm))"
    using scan_name_at [OF geom, of m 4 nm] assms(6,9) o1(2) by simp
  have up: "(w32 o1 + 3) AND NOT 3 = w32 o1"
  proof -
    have "o1 + 3 < 2 ^ 32" using assms(9) lt by linarith
    moreover have "up4 o1 = o1" using up4_add [OF o1(1), of 0] by (simp add: up4_def)
    ultimately show ?thesis using up4_word [of o1] by simp
  qed
  have pad: "(4 + w32 (length nm) + 1 + 3) AND NOT 3 = w32 o1"
  proof -
    have "4 + (length nm + 1) + 3 < 2 ^ 32" using assms(9) lt o1(2) by linarith
    then have "(w32 (4 + (length nm + 1)) + 3) AND NOT 3 = w32 (up4 (4 + (length nm + 1)))" by (rule up4_word)
    then show ?thesis using up4_add [of 4 "length nm + 1"] by (simp add: o1_def add_ac)
  qed
  have loops: "count_props m q (struct_block p + w32 o1) 0 0 = None" if "same_blocks p q" for q
  proof (rule count_props_loops)
    have q: "geom q" "struct_block q = struct_block p" "struct_size q = struct_size p"
      using that geom geom_same [OF that] by (simp_all add: same_blocks_def)
    show "in_struct q (struct_block p + w32 o1) 4" "in_struct q (struct_block p + w32 o1 + 4) 8"
      using in_struct_at [OF q(1), of o1 4] in_struct_at [OF q(1), of "o1 + 4" 8] assms(9) q(2,3) by (simp_all add: add_ac)
    show "be32_read m (struct_block p + w32 o1) = DTB_PROP" by (rule assms(7))
    show "pad4 q (struct_block p + w32 o1 + 12 - struct_block q + be32_read m (struct_block p + w32 o1 + 4)) = struct_block p + w32 o1"
    proof -
      have "struct_block p + w32 o1 + 12 - struct_block p + 0xFFFFFFF4 = w32 o1 + (12 + 0xFFFFFFF4)" by (simp only: algebra_simps)
      also have "(12 :: u32) + 0xFFFFFFF4 = 0" by simp
      finally have e: "struct_block p + w32 o1 + 12 - struct_block p + 0xFFFFFFF4 = w32 o1" by (simp only: add_0_right)
      have "be32_read m (struct_block p + w32 o1 + 4) = 0xFFFFFFF4" using assms(8) by (simp add: add.assoc)
      then show ?thesis by (simp only: pad4_def q(2) e up)
    qed
  qed
  have root: "parse_node m (struct_block p + w32 4) None p = None"
  proof -
    have empty: "node_pool p = []" by (simp add: p_def dtb_parser_def)
    have "node_begin m (struct_block p + w32 4) None p = None"
      using name pad by (simp add: node_begin_def Let_def alloc_node_def empty loops same_blocks_def)
    then show ?thesis by (simp add: parse_node_def)
  qed
  obtain a1 s1 a2 where alloc: "alloc s 9216 = (a1, s1)" "alloc s1 16384 = (a2, s')" "a1 \<noteq> 0" "a2 \<noteq> 0"
    using assms(2) by (auto simp: alloc_ok_def Let_def split: prod.splits)
  note hdr = dtb_header_checks [OF assms(1)]
  show ?thesis
    using hdr alloc first root by (simp add: dtb_parse_def Let_def p_def dtb_parser_def)
qed

text \<open>Such a blob: the root node, without a name, and the property.\<close>

definition bad_blob :: "u8 list" where
  "bad_blob =
     [0xd0, 0x0d, 0xfe, 0xed, 0, 0, 0, 64, 0, 0, 0, 40, 0, 0, 0, 60, 0, 0, 0, 0, 0, 0, 0, 17, 0, 0, 0, 16, 0, 0, 0, 0,
      0, 0, 0, 4, 0, 0, 0, 20,
      0, 0, 0, 1, 0, 0, 0, 0, 0, 0, 0, 3, 0xff, 0xff, 0xff, 0xf4, 0, 0, 0, 0, 0, 0, 0, 0]"

theorem dtb_parse_hangs_witness:
  "dtb_parse (Some (\<lambda>s n. (1, s))) (replicate 1024 \<lparr>p_name = 0, p_data = 0, p_len = 0, p_type = DTB_VAL_EMPTY\<rparr>)
     (blob_mem 0x40000000 bad_blob) 0x40000000 64 (Some empty_tree) () = None"
proof -
  have "dtb_header (blob_mem 0x40000000 bad_blob) 0x40000000 64"
    by (simp add: dtb_header_def be32_read_def blob_mem_def bad_blob_def Let_def)
  moreover have "alloc_ok (\<lambda>s n. (1, s)) () ()" by (simp add: alloc_ok_def)
  moreover have "dtb_parser (blob_mem 0x40000000 bad_blob) 0x40000000 pool =
    \<lparr>node_pool = [], prop_pool = pool, struct_block = 0x40000028, string_block = 0x4000003C, struct_size = 20,
     string_size = 4, prop_used = 0\<rparr>" for pool
    by (simp add: dtb_parser_def be32_read_def blob_mem_def bad_blob_def Let_def)
  moreover have "be32_read (blob_mem 0x40000000 bad_blob) 0x40000028 = 1" "be32_read (blob_mem 0x40000000 bad_blob) 0x40000030 = 3"
    "be32_read (blob_mem 0x40000000 bad_blob) 0x40000034 = 0xFFFFFFF4" "blob_mem 0x40000000 bad_blob 0x4000002C = 0"
    by (simp_all add: be32_read_def blob_mem_def bad_blob_def Let_def)
  ultimately show ?thesis
    using dtb_parse_hangs [of "blob_mem 0x40000000 bad_blob" "0x40000000" 64 "\<lambda>s n. (1, s)" "()" "()" _ "[]" empty_tree]
    by (simp add: up4_def)
qed

end
