(* ===== verification/Leg_Rng.thy ===== *)
theory Leg_Rng
  imports Leg_Memory
begin

text \<open>
  The pseudo-random generator of \<^verbatim>\<open>src/kernel/dev/rng.c\<close>, a 32-bit xorshift whose static \<^verbatim>\<open>state\<close> is
  passed along. The state is never 0 once seeded, because a step permutes the non-zero states.
\<close>

section \<open>Operations\<close>

definition sys_rng_seed :: "u32 \<Rightarrow> u32" where
  "sys_rng_seed seed = (if seed \<noteq> 0 then seed else 0xDEADBEEF)"

definition sys_rand32 :: "u32 \<Rightarrow> u32 \<times> u32" where
  "sys_rand32 state =
     (let x = state;
          x = x XOR push_bit 13 x;
          x = x XOR drop_bit 17 x;
          x = x XOR push_bit 5 x
      in (x, x))"

text \<open>The remainder by 0 is undefined in C.\<close>

definition sys_rand_below :: "u32 \<Rightarrow> u32 \<Rightarrow> (u32 \<times> u32) option" where
  "sys_rand_below bound state =
     (let (r, state) = sys_rand32 state in if bound = 0 then None else Some (r mod bound, state))"

fun urandom_words :: "u32 \<Rightarrow> nat \<Rightarrow> u32 \<times> mem \<Rightarrow> u32 \<times> nat \<times> u32 \<times> mem" where
  "urandom_words p n (state, m) =
     (if n \<ge> 4
      then let (r, state) = sys_rand32 state
           in urandom_words (p + 4) (n - 4)
                (state, m(p := ucast r, p + 1 := ucast (drop_bit 8 r), p + 2 := ucast (drop_bit 16 r), p + 3 := ucast (drop_bit 24 r)))
      else (p, n, state, m))"

declare urandom_words.simps [simp del]

fun urandom_tail :: "u32 \<Rightarrow> nat \<Rightarrow> u32 \<Rightarrow> mem \<Rightarrow> mem" where
  "urandom_tail p 0 r m = m"
| "urandom_tail p (Suc n) r m = urandom_tail (p + 1) n (drop_bit 8 r) (m(p := ucast r))"

definition urandom :: "u32 \<Rightarrow> u32 \<Rightarrow> u32 \<times> mem \<Rightarrow> u32 \<times> mem" where
  "urandom buf n sm =
     (let (p, n, state, m) = urandom_words buf (unat n) sm
      in if n \<noteq> 0 then let (r, state) = sys_rand32 state in (state, urandom_tail p n r m)
         else (state, m))"

section \<open>The step is a permutation\<close>

definition xs_step :: "u32 \<Rightarrow> u32" where
  "xs_step s = snd (sys_rand32 s)"

lemma sys_rand32_pair [simp]: "sys_rand32 s = (xs_step s, xs_step s)"
  by (simp add: xs_step_def sys_rand32_def Let_def)

text \<open>A word that equals its own shift is 0, so each of the three stages is injective.\<close>

lemma push_fixed: "0 < k \<Longrightarrow> (x :: u32) = push_bit k x \<Longrightarrow> x = 0"
proof -
  assume k: "0 < k" and x: "x = push_bit k x"
  have step: "\<not> bit x n" for n
  proof (induction n rule: less_induct)
    case (less n)
    have "bit x n \<longleftrightarrow> bit (push_bit k x) n" using x by simp
    then show ?case using less.IH [of "n - k"] k by (auto simp: bit_simps)
  qed
  then show "x = 0" by (simp add: bit_eq_iff)
qed

lemma drop_fixed: "0 < k \<Longrightarrow> (x :: u32) = drop_bit k x \<Longrightarrow> x = 0"
proof -
  assume k: "0 < k" and x: "x = drop_bit k x"
  have "\<not> bit x (32 - n)" if "n \<le> 32" for n
    using that
  proof (induction n rule: less_induct)
    case (less n)
    show ?case
    proof (cases "k \<le> n")
      case True
      have "\<not> bit x (32 - (n - k))" using less.IH [of "n - k"] less.prems True k by simp
      moreover have "32 - (n - k) = k + (32 - n)" using True less.prems by simp
      moreover have "bit x (32 - n) \<longleftrightarrow> bit (drop_bit k x) (32 - n)" using x by simp
      ultimately show ?thesis by (simp add: bit_drop_bit_eq)
    next
      case False
      have "bit x (32 - n) \<longleftrightarrow> bit (drop_bit k x) (32 - n)" using x by simp
      moreover have "\<not> bit x (k + (32 - n))" using False bit_imp_le_length [of x "k + (32 - n)"] by auto
      ultimately show ?thesis by (simp add: bit_drop_bit_eq)
    qed
  qed
  note low = this
  have "\<not> bit x n" for n
  proof (cases "n \<le> 32")
    case True
    then show ?thesis using low [of "32 - n"] by simp
  next
    case False
    then show ?thesis using bit_imp_le_length [of x n] by auto
  qed
  then show "x = 0" by (simp add: bit_eq_iff)
qed

lemma xor_cancel: "a XOR b = c XOR d \<Longrightarrow> a XOR c = b XOR (d :: u32)"
  by (metis xor.assoc xor.commute bit.xor_self bit.xor_left_self)

lemma xor_zero: "a XOR b = 0 \<Longrightarrow> a = (b :: u32)"
  by (metis xor.right_neutral bit.xor_left_self)

lemma stage_push: "0 < k \<Longrightarrow> inj (\<lambda>x :: u32. x XOR push_bit k x)"
proof (rule injI)
  fix x y :: u32 assume k: "0 < k" and eq: "x XOR push_bit k x = y XOR push_bit k y"
  have "x XOR y = push_bit k (x XOR y)" unfolding push_bit_xor by (rule xor_cancel [OF eq])
  then show "x = y" using push_fixed [OF k] xor_zero by blast
qed

lemma stage_drop: "0 < k \<Longrightarrow> inj (\<lambda>x :: u32. x XOR drop_bit k x)"
proof (rule injI)
  fix x y :: u32 assume k: "0 < k" and eq: "x XOR drop_bit k x = y XOR drop_bit k y"
  have "x XOR y = drop_bit k (x XOR y)" unfolding drop_bit_xor by (rule xor_cancel [OF eq])
  then show "x = y" using drop_fixed [OF k] xor_zero by blast
qed

lemma xs_step_inj: "inj xs_step"
proof -
  have "xs_step = (\<lambda>x. x XOR push_bit 5 x) \<circ> (\<lambda>x. x XOR drop_bit 17 x) \<circ> (\<lambda>x. x XOR push_bit 13 x)"
    by (rule ext) (simp only: xs_step_def sys_rand32_def Let_def snd_conv comp_def)
  then show ?thesis using inj_compose [OF inj_compose [OF stage_push [of 5] stage_drop [of 17]] stage_push [of 13]] by simp
qed

text \<open>C32: a step of the generator permutes the non-zero states: no seed ever leads to the state 0, at which the
  generator would stay, and two different states never lead to the same one.\<close>

theorem sys_rand32_permutes:
  "bij_betw xs_step (UNIV - {0}) (UNIV - {0}) \<and> sys_rng_seed seed \<noteq> 0"
proof -
  have z: "xs_step 0 = 0" by (simp add: xs_step_def sys_rand32_def del: sys_rand32_pair)
  then have "xs_step ` (UNIV - {0}) \<subseteq> UNIV - {0}" using xs_step_inj by (auto dest: injD [of _ _ 0])
  moreover have "inj_on xs_step (UNIV - {0})" using xs_step_inj by (rule inj_on_subset) simp
  ultimately have "bij_betw xs_step (UNIV - {0}) (UNIV - {0})"
    by (simp add: bij_betw_def endo_inj_surj)
  then show ?thesis by (simp add: sys_rng_seed_def)
qed

section \<open>Filling a buffer\<close>

lemma urandom_tail_byte:
  "unat p + n \<le> 2 ^ 32 \<Longrightarrow> urandom_tail p n r m a =
     (if in_region p n a then ucast (drop_bit (8 * (unat a - unat p)) r) else m a)"
proof (induction n arbitrary: p r m)
  case (Suc n)
  have IH: "urandom_tail (p + 1) n r' m' a =
      (if in_region (p + 1) n a then ucast (drop_bit (8 * (unat a - unat (p + 1))) r') else m' a)" for r' m'
  proof (cases "n = 0")
    case False
    then show ?thesis using Suc.IH [of "p + 1"] Suc.prems unat_add_no_wrap [of p 1] by simp
  qed simp
  show ?case
  proof (cases "in_region (p + 1) n a")
    case True
    then have n: "0 < n" by (cases n) auto
    then have u: "unat (p + 1) = unat p + 1" using unat_add_no_wrap [of p 1] Suc.prems by simp
    have "8 + 8 * (unat a - unat (p + 1)) = 8 * (unat a - unat p)"
      using True unfolding in_region_def u by linarith
    then show ?thesis using True IH Suc.prems by (simp add: in_region_Suc drop_bit_drop_bit add.commute)
  next
    case False
    then show ?thesis using IH Suc.prems by (auto simp: in_region_Suc)
  qed
qed simp

abbreviation rand_at :: "u32 \<Rightarrow> nat \<Rightarrow> u32" where
  "rand_at s k \<equiv> (xs_step ^^ Suc k) s"


definition rand_byte :: "u32 \<Rightarrow> nat \<Rightarrow> u8" where
  "rand_byte s i = ucast (drop_bit (8 * (i mod 4)) (rand_at s (i div 4)))"

lemma urandom_word_tail:
  "m(p := ucast r, p + 1 := ucast (drop_bit 8 r), p + 2 := ucast (drop_bit 16 r), p + 3 := ucast (drop_bit 24 r)) =
   urandom_tail p 4 r m"
proof -
  have "(4 :: nat) = Suc (Suc (Suc (Suc 0)))" by simp
  then show ?thesis by (simp only: urandom_tail.simps drop_bit_drop_bit add.assoc one_add_one numeral_plus_one one_plus_numeral) simp
qed

lemma urandom_words_result:
  assumes "unat p + n \<le> 2 ^ 32"
  shows "\<exists>m'. urandom_words p n (s, m) = (p + w32 (4 * (n div 4)), n mod 4, (xs_step ^^ (n div 4)) s, m') \<and>
    (\<forall>a. m' a = (if in_region p (4 * (n div 4)) a then rand_byte s (unat a - unat p) else m a))"
  using assms
proof (induction n arbitrary: p s m rule: less_induct)
  case (less n)
  show ?case
  proof (cases "n \<ge> 4")
    case False
    then show ?thesis by (subst urandom_words.simps) simp
  next
    case True
    define k where "k = (n - 4) div 4"
    have k: "n div 4 = Suc k" "(n - 4) mod 4 = n mod 4" using True by (simp_all add: k_def div_if mod_if)
    have n4: "4 + 4 * k \<le> n" using True by (simp add: k_def)
    then have u: "unat (p + 4) = unat p + 4" if "0 < k"
      using unat_add_no_wrap [of p 4] less.prems that by simp
    have fits: "unat (p + 4) + (n - 4) \<le> 2 ^ 32"
    proof (cases "n = 4")
      case True
      then show ?thesis using less_imp_le [OF unat_lt_32 [of "p + 4"]] by simp
    next
      case False
      then show ?thesis using less.prems True unat_add_no_wrap [of p 4] by simp
    qed
    obtain m' where m': "urandom_words (p + 4) (n - 4) (xs_step s, urandom_tail p 4 (xs_step s) m) =
        (p + 4 + w32 (4 * k), n mod 4, (xs_step ^^ k) (xs_step s), m')"
      "\<And>a. m' a = (if in_region (p + 4) (4 * k) a then rand_byte (xs_step s) (unat a - unat (p + 4))
         else urandom_tail p 4 (xs_step s) m a)"
      using less.IH [OF _ fits, of "xs_step s" "urandom_tail p 4 (xs_step s) m"] True unfolding k k_def [symmetric] by auto
    have fst_word: "urandom_tail p 4 (xs_step s) m a =
        (if in_region p 4 a then ucast (drop_bit (8 * (unat a - unat p)) (xs_step s)) else m a)" for a
      using less.prems True by (intro urandom_tail_byte) simp
    have "urandom_words p n (s, m) = (p + w32 (4 * (n div 4)), n mod 4, (xs_step ^^ (n div 4)) s, m')"
    proof -
      have "urandom_words p n (s, m) = urandom_words (p + 4) (n - 4) (xs_step s, urandom_tail p 4 (xs_step s) m)"
        unfolding urandom_word_tail [symmetric] using True by (subst urandom_words.simps) simp
      then show ?thesis unfolding m'(1) k by (simp add: funpow_swap1 algebra_simps)
    qed
    moreover have "m' a = (if in_region p (4 * (n div 4)) a then rand_byte s (unat a - unat p) else m a)" for a
    proof (cases "in_region (p + 4) (4 * k) a")
      case r: True
      then have "0 < k" by (cases k) auto
      then obtain i where i: "unat a = unat p + 4 + i" using r by (auto simp: in_region_def u le_iff_add)
      have "rand_byte (xs_step s) i = rand_byte s (4 + i)"
        by (simp add: rand_byte_def funpow_swap1 div_add_self1)
      moreover have "in_region p (4 * Suc k) a" using r i u [OF \<open>0 < k\<close>] by (auto simp: in_region_def)
      moreover have "unat a - unat (p + 4) = i" "unat a - unat p = 4 + i" using i u [OF \<open>0 < k\<close>] by linarith+
      ultimately show ?thesis using r m'(2) [of a] by (simp only: if_True k)
    next
      case r: False
      have reg: "in_region p (4 * Suc k) a \<longleftrightarrow> in_region p 4 a"
        using r u by (cases "0 < k") (auto simp: in_region_def)
      have "ucast (drop_bit (8 * (unat a - unat p)) (xs_step s)) = rand_byte s (unat a - unat p)" if "in_region p 4 a"
      proof -
        have "unat a - unat p < 4" using that unfolding in_region_def by linarith
        then show ?thesis by (simp add: rand_byte_def)
      qed
      then show ?thesis using r m'(2) [of a] by (simp only: if_False fst_word reg k) simp
    qed
    ultimately show ?thesis by blast
  qed
qed

text \<open>\<open>urandom\<close> fills exactly the \<open>n\<close> bytes of the buffer with the bytes of successive outputs, least significant
  first, and advances the generator once for every word begun.\<close>

theorem urandom_correct:
  assumes "unat buf + unat n \<le> 2 ^ 32"
  shows "\<exists>m'. urandom buf n (s, m) = ((xs_step ^^ ((unat n + 3) div 4)) s, m') \<and>
    (\<forall>i < unat n. m' (buf + w32 i) = rand_byte s i) \<and> (\<forall>a. \<not> in_region buf (unat n) a \<longrightarrow> m' a = m a)"
proof -
  let ?n = "unat n" let ?q = "unat n div 4"
  obtain m1 where m1: "urandom_words buf ?n (s, m) = (buf + w32 (4 * ?q), ?n mod 4, (xs_step ^^ ?q) s, m1)"
    "\<And>a. m1 a = (if in_region buf (4 * ?q) a then rand_byte s (unat a - unat buf) else m a)"
    using urandom_words_result [OF assms] by blast
  define m' where "m' = (if ?n mod 4 = 0 then m1 else urandom_tail (buf + w32 (4 * ?q)) (?n mod 4) (rand_at s ?q) m1)"
  have res: "urandom buf n (s, m) = ((xs_step ^^ ((?n + 3) div 4)) s, m')"
  proof -
    have "(?n + 3) div 4 = (if ?n mod 4 = 0 then ?q else Suc ?q)" by presburger
    then show ?thesis using m1(1) by (simp add: urandom_def m'_def)
  qed
  have byte: "m' a = (if in_region buf ?n a then rand_byte s (unat a - unat buf) else m a)" for a
  proof (cases "?n mod 4 = 0")
    case True
    then have "4 * ?q = ?n" by presburger
    then show ?thesis using True m1(2) by (simp add: m'_def)
  next
    case False
    have n: "?n = 4 * ?q + ?n mod 4" by simp
    then have lt: "4 * ?q < 2 ^ 32" using unat_lt_32 [of n] by linarith
    have u: "unat (buf + w32 (4 * ?q)) = unat buf + 4 * ?q"
    proof -
      have "unat buf + unat (w32 (4 * ?q)) < 2 ^ 32" using unat_w32 [OF lt] n False assms by linarith
      then show ?thesis using unat_w32 [OF lt] unat_add_no_wrap [of buf "w32 (4 * ?q)"] by simp
    qed
    then have fits: "unat (buf + w32 (4 * ?q)) + ?n mod 4 \<le> 2 ^ 32" using n assms by simp
    show ?thesis
    proof (cases "in_region (buf + w32 (4 * ?q)) (?n mod 4) a")
      case True
      define j where "j = unat a - (unat buf + 4 * ?q)"
      have j: "unat a = unat buf + 4 * ?q + j" "j < ?n mod 4" using True unfolding in_region_def u j_def by linarith+
      then have j4: "j < 4" using mod_less_divisor [of 4 ?n] by linarith
      then have "in_region buf ?n a" using n j unfolding in_region_def by linarith
      then show ?thesis using True False j j4 fits
        by (simp add: m'_def urandom_tail_byte u rand_byte_def del: of_nat_mult)
    next
      case r: False
      then have "in_region buf ?n a \<longleftrightarrow> in_region buf (4 * ?q) a" using n unfolding in_region_def u by linarith
      then show ?thesis using r False fits m1(2) by (simp add: m'_def urandom_tail_byte)
    qed
  qed
  have "m' (buf + w32 i) = rand_byte s i" if "i < ?n" for i
  proof -
    have i: "i < 2 ^ 32" using that unat_lt_32 [of n] by linarith
    then have "unat (buf + w32 i) = unat buf + i"
      using that assms unat_add_no_wrap [of buf "w32 i"] by (simp add: unat_w32)
    then show ?thesis using that by (simp add: byte in_region_def)
  qed
  then show ?thesis using res byte by auto
qed

theorem urandom_correct_witness:
  "\<exists>m'. urandom 0xC0000000 6 (0xDEADBEEF, \<lambda>_. 0) = (snd (sys_rand32 (snd (sys_rand32 0xDEADBEEF))), m') \<and> m' 0xC0000006 = 0"
proof -
  have "\<not> in_region 0xC0000000 6 0xC0000006" by (simp add: in_region_def)
  moreover have "(f ^^ 2) x = f (f x)" for f :: "u32 \<Rightarrow> u32" and x by (simp add: numeral_2_eq_2)
  ultimately show ?thesis using urandom_correct [of "0xC0000000" 6 "0xDEADBEEF" "\<lambda>_. 0"] by auto
qed

end
