(* ===== verification/Leg_Blk.thy ===== *)
theory Leg_Blk
  imports Leg_Virtio Leg_Mm_State
begin

text \<open>
  The block driver \<^verbatim>\<open>src/kernel/dev/blk.c\<close>: synchronous requests through a virtqueue. The device is a parameter:
  from its own state, the driver's state at the notification and the memory it answers with its new state,
  the index of the used ring, the status byte and the memory, or not at all. The addresses of the driver's
  static objects are parameters too. The loop that waits for the used index spins for ever when the
  device has not moved it.
\<close>

section \<open>State\<close>

abbreviation (input) VIRTIO_BLK_T_IN :: u32 where "VIRTIO_BLK_T_IN \<equiv> 0"
abbreviation (input) VIRTIO_BLK_T_OUT :: u32 where "VIRTIO_BLK_T_OUT \<equiv> 1"
abbreviation (input) VIRTIO_BLK_S_OK :: u8 where "VIRTIO_BLK_S_OK \<equiv> 0"

record virtio_blk_req_hdr_t =
  bh_type :: u32
  bh_reserved :: u32
  bh_sector :: u64

record blk_state =
  blk_irq :: u32
  g_blk_base :: u32
  blk_last_used :: u16
  blk_queue :: virtqueue
  blk_hdr :: virtio_blk_req_hdr_t
  blk_status :: u8
  blk_mmio :: mmio_trace

record blk_syms =
  hdr_at :: u32
  status_at :: u32
  queue_mem_at :: u32

type_synonym 'd blk_device = "'d \<Rightarrow> blk_state \<Rightarrow> mem \<Rightarrow> ('d \<times> u16 \<times> u8 \<times> mem) option"

section \<open>Operations\<close>

definition setup_requestq :: "(u32 \<Rightarrow> u32) \<Rightarrow> u32 \<Rightarrow> blk_syms \<Rightarrow> u32 \<Rightarrow> blk_state \<Rightarrow> blk_state" where
  "setup_requestq rd kpb sy base b =
     b\<lparr>blk_queue := (blk_queue b)\<lparr>avail_flags := 0, avail_idx := 0, used_flags := 0, used_idx := 0\<rparr>,
       blk_mmio := blk_mmio b @ queue_regs rd kpb (queue_mem_at sy) base\<rparr>"

text \<open>The request as the device sees it: header, status sentinel, the chain of three descriptors, the available ring.\<close>

definition submit :: "u32 \<Rightarrow> blk_syms \<Rightarrow> u32 \<Rightarrow> u64 \<Rightarrow> u32 \<Rightarrow> u32 \<Rightarrow> blk_state \<Rightarrow> blk_state" where
  "submit kpb sy type sector count buf b =
     (let b = b\<lparr>blk_hdr := \<lparr>bh_type = type, bh_reserved = 0, bh_sector = sector\<rparr>, blk_status := 0xFF\<rparr>;
          q = blk_queue b;
          q = q\<lparr>vq_desc := (vq_desc q)
              [0 := \<lparr>d_addr = ucast (virt_to_phys kpb (hdr_at sy)), d_len = 16, d_flags = VDESC_F_NEXT, d_next = 1\<rparr>,
               1 := \<lparr>d_addr = ucast (virt_to_phys kpb buf), d_len = count * 512,
                     d_flags = (if type = VIRTIO_BLK_T_IN then VDESC_F_WRITE else 0) OR VDESC_F_NEXT, d_next = 2\<rparr>,
               2 := \<lparr>d_addr = ucast (virt_to_phys kpb (status_at sy)), d_len = 1, d_flags = VDESC_F_WRITE, d_next = 0\<rparr>]\<rparr>;
          q = q\<lparr>avail_ring := (avail_ring q)[unat (avail_idx q) mod QUEUE_SIZE := 0]\<rparr>;
          q = q\<lparr>avail_idx := avail_idx q + 1\<rparr>
      in b\<lparr>blk_queue := q, blk_mmio := blk_mmio b @ [(g_blk_base b + VMIO_QUEUE_NOTIFY, 0)]\<rparr>)"

definition do_request ::
  "'d blk_device \<Rightarrow> u32 \<Rightarrow> blk_syms \<Rightarrow> u32 \<Rightarrow> u64 \<Rightarrow> u32 \<Rightarrow> u32 \<Rightarrow> blk_state \<times> 'd \<times> mem \<Rightarrow> (bool \<times> blk_state \<times> 'd \<times> mem) option" where
  "do_request dev kpb sy type sector count buf bdm =
     (let (b, d, m) = bdm; b = submit kpb sy type sector count buf b
      in case dev d b m of
           None \<Rightarrow> None
         | Some (d, used, status, m) \<Rightarrow>
             let b = b\<lparr>blk_queue := (blk_queue b)\<lparr>used_idx := used\<rparr>, blk_status := status\<rparr>
             in if used_idx (blk_queue b) = blk_last_used b then None
                else Some (blk_status b = VIRTIO_BLK_S_OK, b\<lparr>blk_last_used := blk_last_used b + 1\<rparr>, d, m))"

definition blk_read ::
  "'d blk_device \<Rightarrow> u32 \<Rightarrow> blk_syms \<Rightarrow> u64 \<Rightarrow> u32 \<Rightarrow> u32 \<Rightarrow> blk_state \<times> 'd \<times> mem \<Rightarrow> (bool \<times> blk_state \<times> 'd \<times> mem) option" where
  "blk_read dev kpb sy sector count buf = do_request dev kpb sy VIRTIO_BLK_T_IN sector count buf"

definition blk_write ::
  "'d blk_device \<Rightarrow> u32 \<Rightarrow> blk_syms \<Rightarrow> u64 \<Rightarrow> u32 \<Rightarrow> u32 \<Rightarrow> blk_state \<times> 'd \<times> mem \<Rightarrow> (bool \<times> blk_state \<times> 'd \<times> mem) option" where
  "blk_write dev kpb sy sector count buf = do_request dev kpb sy VIRTIO_BLK_T_OUT sector count buf"

definition blk_init :: "(u32 \<Rightarrow> u32) \<Rightarrow> u32 \<Rightarrow> blk_syms \<Rightarrow> blk_state \<Rightarrow> blk_state" where
  "blk_init rd kpb sy b =
     (let (base, irq) = virtio_find_device rd VIRTIO_DEVICE_BLOCK;
          b = (case irq of Some i \<Rightarrow> b\<lparr>blk_irq := i\<rparr> | None \<Rightarrow> b)
      in if base = 0 then b
         else
           let b = b\<lparr>g_blk_base := base, blk_mmio := blk_mmio b @
                 [(base + VMIO_STATUS, 0), (base + VMIO_STATUS, VSTAT_ACKNOWLEDGE OR VSTAT_DRIVER),
                  (base + VMIO_GUEST_FEAT_SEL, 0), (base + VMIO_GUEST_FEAT, 0)]\<rparr>;
               b = setup_requestq rd kpb sy base b
           in b\<lparr>blk_mmio := blk_mmio b @ [(base + VMIO_STATUS, VSTAT_ACKNOWLEDGE OR VSTAT_DRIVER OR VSTAT_DRIVER_OK)]\<rparr>)"

section \<open>The device\<close>

text \<open>
  What the driver relies on (the virtio specification of block devices): after a notification with one new request in the
  available ring, whose chain is the header of the request, one data buffer with the direction of the request and the status
  byte, the device completes the request, counts it in the used index and stores a status. It serves some requests and not
  others (sectors beyond its end, writes to a device that is read-only, faults of the medium): \<open>serves\<close> says which, from its
  state. A request that is served is carried out on the disk, with status 0; one that is not ends with another status
  (\<open>VIRTIO_BLK_S_IOERR\<close> or \<open>VIRTIO_BLK_S_UNSUPP\<close>), and then any part of the buffer or of the sectors may have been
  transferred. Other memory and other sectors are left alone.
\<close>

definition chain_ok :: "u32 \<Rightarrow> blk_syms \<Rightarrow> blk_state \<Rightarrow> bool" where
  "chain_ok kpb sy b \<longleftrightarrow>
     (let ds = vq_desc (blk_queue b)
      in 3 \<le> length ds \<and>
         ds ! 0 = \<lparr>d_addr = ucast (virt_to_phys kpb (hdr_at sy)), d_len = 16, d_flags = VDESC_F_NEXT, d_next = 1\<rparr> \<and>
         d_flags (ds ! 1) = (if bh_type (blk_hdr b) = VIRTIO_BLK_T_IN then VDESC_F_WRITE else 0) OR VDESC_F_NEXT \<and> d_next (ds ! 1) = 2 \<and>
         d_addr (ds ! 2) = ucast (virt_to_phys kpb (status_at sy)) \<and> d_len (ds ! 2) = 1 \<and> d_flags (ds ! 2) = VDESC_F_WRITE \<and>
         avail_idx (blk_queue b) = used_idx (blk_queue b) + 1 \<and>
         avail_ring (blk_queue b) ! (unat (avail_idx (blk_queue b) - 1) mod QUEUE_SIZE) = 0 \<and>
         blk_mmio b \<noteq> [] \<and> last (blk_mmio b) = (g_blk_base b + VMIO_QUEUE_NOTIFY, 0))"

definition buf_of :: "u32 \<Rightarrow> blk_state \<Rightarrow> u32" where
  "buf_of kpb b = phys_to_virt kpb (ucast (d_addr (vq_desc (blk_queue b) ! 1)))"

definition len_of :: "blk_state \<Rightarrow> nat" where
  "len_of b = unat (d_len (vq_desc (blk_queue b) ! 1))"

definition disk_to_mem :: "(nat \<Rightarrow> u8) \<Rightarrow> nat \<Rightarrow> u32 \<Rightarrow> nat \<Rightarrow> mem \<Rightarrow> mem" where
  "disk_to_mem dk pos buf n m = (\<lambda>a. if in_region buf n a then dk (pos + unat (a - buf)) else m a)"

definition mem_to_disk :: "mem \<Rightarrow> u32 \<Rightarrow> nat \<Rightarrow> nat \<Rightarrow> (nat \<Rightarrow> u8) \<Rightarrow> nat \<Rightarrow> u8" where
  "mem_to_disk m buf pos n dk = (\<lambda>i. if pos \<le> i \<and> i < pos + n then m (buf + w32 (i - pos)) else dk i)"

definition carried_out :: "('d \<Rightarrow> nat \<Rightarrow> u8) \<Rightarrow> u32 \<Rightarrow> u64 \<Rightarrow> u32 \<Rightarrow> nat \<Rightarrow> 'd \<Rightarrow> mem \<Rightarrow> 'd \<Rightarrow> mem \<Rightarrow> bool" where
  "carried_out disk type sector buf n d m d' m' \<longleftrightarrow>
     (if type = VIRTIO_BLK_T_IN then disk d' = disk d \<and> m' = disk_to_mem (disk d) (512 * unat sector) buf n m
      else m' = m \<and> disk d' = mem_to_disk m buf (512 * unat sector) n (disk d))"

definition given_up :: "('d \<Rightarrow> nat \<Rightarrow> u8) \<Rightarrow> u32 \<Rightarrow> u64 \<Rightarrow> u32 \<Rightarrow> nat \<Rightarrow> 'd \<Rightarrow> mem \<Rightarrow> 'd \<Rightarrow> mem \<Rightarrow> bool" where
  "given_up disk type sector buf n d m d' m' \<longleftrightarrow>
     (if type = VIRTIO_BLK_T_IN then disk d' = disk d \<and> (\<forall>a. \<not> in_region buf n a \<longrightarrow> m' a = m a)
      else m' = m \<and> (\<forall>i. i < 512 * unat sector \<or> 512 * unat sector + n \<le> i \<longrightarrow> disk d' i = disk d i))"

type_synonym 'd blk_serves = "'d \<Rightarrow> u32 \<Rightarrow> u64 \<Rightarrow> nat \<Rightarrow> bool"

definition blk_device_ok :: "u32 \<Rightarrow> blk_syms \<Rightarrow> 'd blk_device \<Rightarrow> ('d \<Rightarrow> nat \<Rightarrow> u8) \<Rightarrow> 'd blk_serves \<Rightarrow> bool" where
  "blk_device_ok kpb sy dev disk serves \<longleftrightarrow>
     (\<forall>d b m. chain_ok kpb sy b \<longrightarrow>
        (let type = bh_type (blk_hdr b); sector = bh_sector (blk_hdr b); buf = buf_of kpb b; n = len_of b
         in \<exists>d' status m'. dev d b m = Some (d', used_idx (blk_queue b) + 1, status, m') \<and>
              (if serves d type sector n then status = VIRTIO_BLK_S_OK \<and> carried_out disk type sector buf n d m d' m'
               else status \<noteq> VIRTIO_BLK_S_OK \<and> given_up disk type sector buf n d m d' m')))"

section \<open>Requests\<close>

text \<open>Between requests the driver has seen every completion, and no request is outstanding.\<close>

definition blk_inv :: "blk_state \<Rightarrow> bool" where
  "blk_inv b \<longleftrightarrow> vq_wf (blk_queue b) \<and> blk_last_used b = used_idx (blk_queue b) \<and> avail_idx (blk_queue b) = used_idx (blk_queue b)"

lemma phys_virt_inverse: "KERNEL_VA \<le> a \<Longrightarrow> phys_to_virt kpb (virt_to_phys kpb a) = a"
  by (simp add: phys_to_virt_def virt_to_phys_def)

lemma ucast_up_down: "(ucast (ucast (a :: u32) :: u64) :: u32) = a"
  by (rule bit_word_eqI) (auto simp: bit_simps dest: bit_imp_le_length)

lemma submit_chain:
  assumes "blk_inv b"
  shows "chain_ok kpb sy (submit kpb sy type sector count buf b)"
    and "bh_type (blk_hdr (submit kpb sy type sector count buf b)) = type"
    and "bh_sector (blk_hdr (submit kpb sy type sector count buf b)) = sector"
    and "KERNEL_VA \<le> buf \<Longrightarrow> buf_of kpb (submit kpb sy type sector count buf b) = buf"
    and "len_of (submit kpb sy type sector count buf b) = unat (count * 512)"
    and "used_idx (blk_queue (submit kpb sy type sector count buf b)) = used_idx (blk_queue b)"
    and "avail_idx (blk_queue (submit kpb sy type sector count buf b)) = avail_idx (blk_queue b) + 1"
    and "blk_last_used (submit kpb sy type sector count buf b) = blk_last_used b"
    and "vq_wf (blk_queue (submit kpb sy type sector count buf b))"
  using assms phys_virt_inverse [of buf kpb]
  by (auto simp: ucast_up_down blk_inv_def vq_wf_def chain_ok_def submit_def Let_def buf_of_def len_of_def)

text \<open>The result of a request says whether the device has served it.\<close>

lemma do_request_result:
  fixes count :: u32
  assumes "blk_inv b" "blk_device_ok kpb sy dev disk serves" "KERNEL_VA \<le> buf"
  defines "n \<equiv> unat (count * 512)"
  obtains b' d' m' where
    "do_request dev kpb sy type sector count buf (b, d, m) = Some (serves d type sector n, b', d', m')" "blk_inv b'"
    "if serves d type sector n then carried_out disk type sector buf n d m d' m' else given_up disk type sector buf n d m d' m'"
proof -
  define b1 where "b1 = submit kpb sy type sector count buf b"
  note c = submit_chain [OF assms(1), where kpb = kpb and sy = sy and type = type and sector = sector and count = count and buf = buf,
      folded b1_def]
  let ?ok = "serves d type sector n"
  obtain d' status m' where dev: "dev d b1 m = Some (d', used_idx (blk_queue b1) + 1, status, m')"
    "if ?ok then status = 0 \<and> carried_out disk type sector buf n d m d' m' else status \<noteq> 0 \<and> given_up disk type sector buf n d m d' m'"
    using assms(2) [unfolded blk_device_ok_def Let_def, rule_format, OF c(1), of d m]
    unfolding c(2,3) c(4) [OF assms(3)] c(5) n_def by blast
  have ne: "used_idx (blk_queue b1) + 1 \<noteq> blk_last_used b1" using assms(1) c(6,8) by (simp add: blk_inv_def)
  define b' where "b' = b1\<lparr>blk_queue := (blk_queue b1)\<lparr>used_idx := used_idx (blk_queue b1) + 1\<rparr>, blk_status := status,
    blk_last_used := blk_last_used b1 + 1\<rparr>"
  have "(status = 0) = ?ok" using dev(2) by (simp split: if_splits)
  then have "do_request dev kpb sy type sector count buf (b, d, m) = Some (?ok, b', d', m')"
    using dev(1) ne by (simp add: do_request_def Let_def b1_def [symmetric] b'_def)
  moreover have "blk_inv b'" using assms(1) c(6-9) by (simp add: blk_inv_def b'_def vq_wf_def)
  moreover have "if ?ok then carried_out disk type sector buf n d m d' m' else given_up disk type sector buf n d m d' m'"
    using dev(2) by (simp split: if_splits)
  ultimately show ?thesis by (rule that)
qed

lemma blk_read_result:
  fixes count :: u32
  assumes "blk_inv b" "blk_device_ok kpb sy dev disk serves" "KERNEL_VA \<le> buf"
  defines "n \<equiv> unat (count * 512)"
  obtains b' d' m' where "blk_read dev kpb sy sector count buf (b, d, m) = Some (serves d VIRTIO_BLK_T_IN sector n, b', d', m')"
    "blk_inv b'" "disk d' = disk d" "\<forall>a. \<not> in_region buf n a \<longrightarrow> m' a = m a"
    "serves d VIRTIO_BLK_T_IN sector n \<longrightarrow> m' = disk_to_mem (disk d) (512 * unat sector) buf n m"
proof -
  obtain b' d' m' where r: "do_request dev kpb sy VIRTIO_BLK_T_IN sector count buf (b, d, m) =
      Some (serves d VIRTIO_BLK_T_IN sector n, b', d', m')" "blk_inv b'"
    "if serves d VIRTIO_BLK_T_IN sector n then carried_out disk VIRTIO_BLK_T_IN sector buf n d m d' m'
     else given_up disk VIRTIO_BLK_T_IN sector buf n d m d' m'"
    unfolding n_def by (rule do_request_result [OF assms(1-3)])
  show ?thesis
    by (rule that [of b' d' m']) (use r in \<open>auto simp: blk_read_def carried_out_def given_up_def disk_to_mem_def split: if_splits\<close>)
qed

lemma blk_write_result:
  fixes count :: u32
  assumes "blk_inv b" "blk_device_ok kpb sy dev disk serves" "KERNEL_VA \<le> buf"
  defines "n \<equiv> unat (count * 512)"
  obtains b' d' where "blk_write dev kpb sy sector count buf (b, d, m) = Some (serves d VIRTIO_BLK_T_OUT sector n, b', d', m)"
    "blk_inv b'" "\<forall>i. i < 512 * unat sector \<or> 512 * unat sector + n \<le> i \<longrightarrow> disk d' i = disk d i"
    "serves d VIRTIO_BLK_T_OUT sector n \<longrightarrow> disk d' = mem_to_disk m buf (512 * unat sector) n (disk d)"
proof -
  obtain b' d' m' where r: "do_request dev kpb sy VIRTIO_BLK_T_OUT sector count buf (b, d, m) =
      Some (serves d VIRTIO_BLK_T_OUT sector n, b', d', m')" "blk_inv b'"
    "if serves d VIRTIO_BLK_T_OUT sector n then carried_out disk VIRTIO_BLK_T_OUT sector buf n d m d' m'
     else given_up disk VIRTIO_BLK_T_OUT sector buf n d m d' m'"
    unfolding n_def by (rule do_request_result [OF assms(1-3)])
  have "m' = m" using r(3) by (simp add: carried_out_def given_up_def split: if_splits)
  then show ?thesis
    by (intro that [of b' d']) (use r in \<open>auto simp: blk_write_def carried_out_def given_up_def mem_to_disk_def split: if_splits\<close>)
qed

text \<open>C31: What \<open>blk_write\<close> stores \<open>blk_read\<close> brings back, on every device that follows the virtio specification: both calls
  end and return exactly whether the device has served their request; if it has served both, the second buffer then holds the
  bytes of the first. Whatever the device does, the write changes no memory and no other sector, the read no sector and no
  memory outside its buffer, and the driver is ready for the next request.\<close>

theorem blk_write_read:
  assumes "blk_inv b" "blk_device_ok kpb sy dev disk serves" "KERNEL_VA \<le> src" "KERNEL_VA \<le> dst"
    "unat dst + unat (count * 512) \<le> 2 ^ 32"
  shows "let n = unat (count * 512) in
    \<exists>b1 d1 b2 d2 m2. blk_write dev kpb sy sector count src (b, d, m) = Some (serves d VIRTIO_BLK_T_OUT sector n, b1, d1, m) \<and>
    blk_read dev kpb sy sector count dst (b1, d1, m) = Some (serves d1 VIRTIO_BLK_T_IN sector n, b2, d2, m2) \<and>
    blk_inv b1 \<and> blk_inv b2 \<and> disk d2 = disk d1 \<and>
    (\<forall>i. i < 512 * unat sector \<or> 512 * unat sector + n \<le> i \<longrightarrow> disk d1 i = disk d i) \<and>
    (\<forall>a. \<not> in_region dst n a \<longrightarrow> m2 a = m a) \<and>
    (serves d VIRTIO_BLK_T_OUT sector n \<and> serves d1 VIRTIO_BLK_T_IN sector n \<longrightarrow> (\<forall>i < n. m2 (dst + w32 i) = m (src + w32 i)))"
proof -
  define n where "n = unat (count * 512)"
  obtain b1 d1 where w: "blk_write dev kpb sy sector count src (b, d, m) = Some (serves d VIRTIO_BLK_T_OUT sector n, b1, d1, m)"
    "blk_inv b1" "\<forall>i. i < 512 * unat sector \<or> 512 * unat sector + n \<le> i \<longrightarrow> disk d1 i = disk d i"
    "serves d VIRTIO_BLK_T_OUT sector n \<longrightarrow> disk d1 = mem_to_disk m src (512 * unat sector) n (disk d)"
    unfolding n_def by (rule blk_write_result [OF assms(1-3)])
  obtain b2 d2 m2 where r: "blk_read dev kpb sy sector count dst (b1, d1, m) = Some (serves d1 VIRTIO_BLK_T_IN sector n, b2, d2, m2)"
    "blk_inv b2" "disk d2 = disk d1" "\<forall>a. \<not> in_region dst n a \<longrightarrow> m2 a = m a"
    "serves d1 VIRTIO_BLK_T_IN sector n \<longrightarrow> m2 = disk_to_mem (disk d1) (512 * unat sector) dst n m"
    unfolding n_def by (rule blk_read_result [OF w(2) assms(2,4)])
  have "m2 (dst + w32 i) = m (src + w32 i)"
    if "serves d VIRTIO_BLK_T_OUT sector n" "serves d1 VIRTIO_BLK_T_IN sector n" "i < n" for i
  proof -
    have i: "i < 2 ^ 32" using that(3) unat_lt_32 [of "count * 512"] unfolding n_def by linarith
    then have "unat (dst + w32 i) = unat dst + i"
      using that(3) assms(5) unat_add_no_wrap [of dst "w32 i"] unfolding n_def by (simp add: unat_w32)
    then show ?thesis using that i w(4) r(5) by (simp add: disk_to_mem_def mem_to_disk_def in_region_def unat_w32)
  qed
  then show ?thesis unfolding Let_def n_def [symmetric] using w(1-3) r(1-4) by blast
qed

text \<open>A RAM disk of \<open>cap\<close> bytes as the device; a request beyond its end is answered with \<open>VIRTIO_BLK_S_IOERR\<close>.\<close>

definition ram_serves :: "nat \<Rightarrow> (nat \<Rightarrow> u8) blk_serves" where
  "ram_serves cap d type sector n \<longleftrightarrow> 512 * unat sector + n \<le> cap"

definition ram_disk :: "nat \<Rightarrow> u32 \<Rightarrow> (nat \<Rightarrow> u8) blk_device" where
  "ram_disk cap kpb d b m =
     (let s = 512 * unat (bh_sector (blk_hdr b)); u = used_idx (blk_queue b) + 1
      in if \<not> s + len_of b \<le> cap then Some (d, u, 1, m)
         else if bh_type (blk_hdr b) = VIRTIO_BLK_T_IN then Some (d, u, 0, disk_to_mem d s (buf_of kpb b) (len_of b) m)
         else Some (mem_to_disk m (buf_of kpb b) s (len_of b) d, u, 0, m))"

lemma ram_disk_ok: "blk_device_ok kpb sy (ram_disk cap kpb) (\<lambda>d. d) (ram_serves cap)"
  by (simp add: blk_device_ok_def ram_disk_def ram_serves_def Let_def carried_out_def given_up_def)

definition blk0 :: blk_state where
  "blk0 = \<lparr>blk_irq = 49, g_blk_base = 0xCF050200, blk_last_used = 0xFFFF,
     blk_queue = \<lparr>vq_desc = replicate 16 \<lparr>d_addr = 0, d_len = 0, d_flags = 0, d_next = 0\<rparr>, avail_flags = 0, avail_idx = 0xFFFF,
       avail_ring = replicate 16 7, used_flags = 0, used_idx = 0xFFFF, used_ring = replicate 16 \<lparr>u_id = 0, u_len = 0\<rparr>\<rparr>,
     blk_hdr = \<lparr>bh_type = 0, bh_reserved = 0, bh_sector = 0\<rparr>, blk_status = 0, blk_mmio = []\<rparr>"

definition syms0 :: blk_syms where
  "syms0 = \<lparr>hdr_at = 0xC0100000, status_at = 0xC0100010, queue_mem_at = 0xC0101000\<rparr>"

text \<open>Sector 3 of four is written and read back; sector 4 does not exist, and both requests report it.\<close>

theorem blk_write_read_witness:
  "(\<exists>b1 d1 b2 d2 m2. blk_write (ram_disk 2048 0x40200000) 0x40200000 syms0 3 1 0xC0200000 (blk0, \<lambda>_. 0, \<lambda>a. ucast a) = Some (True, b1, d1, \<lambda>a. ucast a) \<and>
      blk_read (ram_disk 2048 0x40200000) 0x40200000 syms0 3 1 0xC0300100 (b1, d1, \<lambda>a. ucast a) = Some (True, b2, d2, m2) \<and> m2 0xC0300105 = 5) \<and>
    (\<exists>b1 d1 b2 d2 m2. blk_write (ram_disk 2048 0x40200000) 0x40200000 syms0 4 1 0xC0200000 (blk0, \<lambda>_. 0, \<lambda>a. ucast a) = Some (False, b1, d1, \<lambda>a. ucast a) \<and>
      blk_read (ram_disk 2048 0x40200000) 0x40200000 syms0 4 1 0xC0300100 (b1, d1, \<lambda>a. ucast a) = Some (False, b2, d2, m2))"
proof -
  have inv: "blk_inv blk0" by (simp add: blk_inv_def blk0_def vq_wf_def)
  note r = blk_write_read [OF inv ram_disk_ok [where cap = 2048], where src = "0xC0200000" and dst = "0xC0300100" and count = 1 and kpb = "0x40200000"
      and sy = syms0 and d = "\<lambda>_. 0" and m = "\<lambda>a. ucast a"]
  obtain b1 d1 b2 d2 m2 where r3: "blk_write (ram_disk 2048 0x40200000) 0x40200000 syms0 3 1 0xC0200000 (blk0, \<lambda>_. 0, \<lambda>a. ucast a) = Some (True, b1, d1, \<lambda>a. ucast a)"
    "blk_read (ram_disk 2048 0x40200000) 0x40200000 syms0 3 1 0xC0300100 (b1, d1, \<lambda>a. ucast a) = Some (True, b2, d2, m2)"
    "\<forall>i < 512. m2 (0xC0300100 + w32 i) = ucast (0xC0200000 + w32 i :: u32)"
    using r [of 3] by (auto simp: ram_serves_def)
  then have "m2 0xC0300105 = 5" using r3(3) [rule_format, of 5] by simp
  moreover have "\<exists>b1 d1 b2 d2 m2. blk_write (ram_disk 2048 0x40200000) 0x40200000 syms0 4 1 0xC0200000 (blk0, \<lambda>_. 0, \<lambda>a. ucast a) = Some (False, b1, d1, \<lambda>a. ucast a) \<and>
      blk_read (ram_disk 2048 0x40200000) 0x40200000 syms0 4 1 0xC0300100 (b1, d1, \<lambda>a. ucast a) = Some (False, b2, d2, m2)"
    using r [of 4] by (auto simp: ram_serves_def)
  ultimately show ?thesis using r3(1,2) by blast
qed

end
