(* ===== verification/Leg_Devices.thy ===== *)
theory Leg_Devices
  imports Leg_Virtio Leg_Tty
begin

text \<open>
  The UART (\<^verbatim>\<open>src/kernel/dev/uart.c\<close>), the interrupt controller and the generic timer (\<^verbatim>\<open>src/kernel/dev/gic.c\<close>,
  \<^verbatim>\<open>src/kernel/dev/rtc.c\<close>). Writes to device registers are recorded in order; the timer's own registers are state,
  and its frequency and counter are arguments.
\<close>

section \<open>UART\<close>

abbreviation (input) UART0_BASE :: u32 where "UART0_BASE \<equiv> 0xCF000000"
abbreviation (input) CR_TXEN :: u32 where "CR_TXEN \<equiv> 0x100"
abbreviation (input) CR_RXEN :: u32 where "CR_RXEN \<equiv> 0x200"
abbreviation (input) CR_UARTEN :: u32 where "CR_UARTEN \<equiv> 1"
abbreviation (input) LCR_FEN :: u32 where "LCR_FEN \<equiv> 0x10"
abbreviation (input) LCR_STP2 :: u32 where "LCR_STP2 \<equiv> 8"
abbreviation (input) MSC_RXIM :: u32 where "MSC_RXIM \<equiv> 0x10"

text \<open>The bytes sent through the data register, the receive FIFO and the writes to the other registers.\<close>

record uart_state =
  uart_tx :: "u8 list"
  uart_rx :: "u8 list"
  uart_regs :: mmio_trace

record pl011 =
  base_address :: u64
  base_clock :: u64
  baudrate :: u32
  data_bits :: u32
  stop_bits :: u32

definition calculate_divisors :: "u32 \<Rightarrow> u32 \<Rightarrow> u32 \<times> u32" where
  "calculate_divisors clock baud =
     (let d = 4 * clock div baud in (drop_bit 6 d AND 0xffff, d AND 0x3f))"

text \<open>The waits for the end of a transmission read the flag register only.\<close>

definition pl011_reset :: "(u32 \<Rightarrow> u32) \<Rightarrow> pl011 \<Rightarrow> uart_state \<Rightarrow> uart_state" where
  "pl011_reset rd dev u =
     (let cr = rd (UART0_BASE + 0x30); lcr = rd (UART0_BASE + 0x2C);
          (ibrd, fbrd) = calculate_divisors (ucast (base_clock dev)) (baudrate dev);
          lcr' = push_bit 5 ((data_bits dev - 1) AND 3);
          lcr' = (if stop_bits dev = 2 then lcr' OR LCR_STP2 else lcr')
      in u\<lparr>uart_regs := uart_regs u @
           [(UART0_BASE + 0x30, cr AND CR_UARTEN), (UART0_BASE + 0x2C, lcr AND NOT LCR_FEN),
            (UART0_BASE + 0x24, ibrd), (UART0_BASE + 0x28, fbrd), (UART0_BASE + 0x48, 0), (UART0_BASE + 0x44, 0x7FF),
            (UART0_BASE + 0x38, MSC_RXIM), (UART0_BASE + 0x2C, lcr' OR LCR_FEN),
            (UART0_BASE + 0x30, CR_TXEN OR CR_RXEN OR CR_UARTEN)]\<rparr>)"

definition pl011_setup :: "(u32 \<Rightarrow> u32) \<Rightarrow> u64 \<Rightarrow> uart_state \<Rightarrow> pl011 \<times> uart_state" where
  "pl011_setup rd clock u =
     (let dev = \<lparr>base_address = ucast UART0_BASE, base_clock = clock, baudrate = 115200, data_bits = 8, stop_bits = 1\<rparr>
      in (dev, pl011_reset rd dev u))"

definition uart_putchar :: "u8 \<Rightarrow> uart_state \<Rightarrow> uart_state" where
  "uart_putchar c u = u\<lparr>uart_tx := uart_tx u @ [c]\<rparr>"

text \<open>With an empty FIFO \<^verbatim>\<open>uart_getchar\<close> spins.\<close>

definition uart_getchar :: "uart_state \<Rightarrow> u8 access \<times> uart_state" where
  "uart_getchar u = (case uart_rx u of [] \<Rightarrow> (Waits, u) | c # cs \<Rightarrow> (Done c, u\<lparr>uart_rx := cs\<rparr>))"

partial_function (option) uart_puts_from :: "mem \<Rightarrow> u32 \<Rightarrow> u32 \<Rightarrow> uart_state \<Rightarrow> (u32 \<times> uart_state) option" where
  "uart_puts_from m s p u =
     (if m p \<noteq> 0 then uart_puts_from m s (p + 1) (uart_putchar (m p) u) else Some (p - s, u))"

definition uart_puts :: "mem \<Rightarrow> u32 \<Rightarrow> uart_state \<Rightarrow> (u32 \<times> uart_state) option" where
  "uart_puts m s = uart_puts_from m s s"

text \<open>The handler drains the FIFO into the terminal; no byte arrives while it runs.\<close>

fun drain_rx :: "u8 list \<Rightarrow> tty_state \<Rightarrow> tty_state" where
  "drain_rx [] t = t"
| "drain_rx (c # cs) t = drain_rx cs (tty_input c t)"

definition uart_irq_handler :: "uart_state \<times> tty_state \<Rightarrow> uart_state \<times> tty_state" where
  "uart_irq_handler ut =
     (let (u, t) = ut
      in (u\<lparr>uart_rx := [], uart_regs := uart_regs u @ [(UART0_BASE + 0x44, MSC_RXIM)]\<rparr>, drain_rx (uart_rx u) t))"

section \<open>Interrupt controller\<close>

abbreviation (input) GICD_BASE :: u32 where "GICD_BASE \<equiv> 0xCF010000"
abbreviation (input) GICC_BASE :: u32 where "GICC_BASE \<equiv> 0xCF020000"
abbreviation (input) TIMER_IRQ :: u32 where "TIMER_IRQ \<equiv> 30"
abbreviation (input) UART_IRQ :: u32 where "UART_IRQ \<equiv> 33"

definition GICD_ISENABLER :: "u32 \<Rightarrow> u32" where
  "GICD_ISENABLER n = GICD_BASE + 0x100 + n * 4"

definition GICD_ITARGETSR :: "u32 \<Rightarrow> u32" where
  "GICD_ITARGETSR i = GICD_BASE + 0x800 + (i AND NOT 3)"

definition GICD_IPRIORITYR :: "u32 \<Rightarrow> u32" where
  "GICD_IPRIORITYR i = GICD_BASE + 0x400 + i"

definition gic_enable_irq :: "(u32 \<Rightarrow> u32) \<Rightarrow> u32 \<Rightarrow> mmio_trace" where
  "gic_enable_irq rd irq =
     (let reg = irq div 32; bit = push_bit (unat (irq mod 32)) 1;
          idx = irq div 4; shift = unat ((irq mod 4) * 8);
          cur = rd (GICD_ITARGETSR idx);
          cur = cur AND NOT (push_bit shift 0xFF);
          cur = cur OR push_bit shift 0x01
      in [(GICD_ISENABLER reg, bit), (GICD_ITARGETSR idx, cur), (GICD_IPRIORITYR irq, 0xA0)])"

definition gic_cpu_init :: mmio_trace where
  "gic_cpu_init = [(GICC_BASE + 4, 0xFF), (GICC_BASE, 1)]"

definition gic_dist_init :: mmio_trace where
  "gic_dist_init = [(GICD_BASE, 1)]"

section \<open>Timer\<close>

text \<open>The only function that the kernel registers for a tick is the scheduler's.\<close>

datatype tick_fn_t = Sched_tick

record timer_state =
  cntp_cval :: u64
  ctl_enable :: bool
  ctl_imask :: bool
  tick_fn :: "tick_fn_t option"
  tick_interval_us :: u32

definition us_to_ticks :: "u32 \<Rightarrow> u32 \<Rightarrow> u32" where
  "us_to_ticks freq usec =
     (let freq_khz = freq div 1000; ms = usec div 1000 in freq_khz * (if ms \<noteq> 0 then ms else 1))"

definition timer_set_oneshot_us :: "u32 \<Rightarrow> u64 \<Rightarrow> u32 \<Rightarrow> timer_state \<Rightarrow> timer_state" where
  "timer_set_oneshot_us freq now usec t =
     t\<lparr>cntp_cval := now + ucast (us_to_ticks freq usec), ctl_enable := True, ctl_imask := False\<rparr>"

definition timer_advance_cval :: "u32 \<Rightarrow> u32 \<Rightarrow> timer_state \<Rightarrow> timer_state" where
  "timer_advance_cval freq usec t = t\<lparr>cntp_cval := cntp_cval t + ucast (us_to_ticks freq usec)\<rparr>"

definition timer_disable :: "timer_state \<Rightarrow> timer_state" where
  "timer_disable t = t\<lparr>ctl_enable := False, ctl_imask := True\<rparr>"

definition timer_set_tick :: "u32 \<Rightarrow> u64 \<Rightarrow> u32 \<Rightarrow> tick_fn_t option \<Rightarrow> timer_state \<Rightarrow> timer_state" where
  "timer_set_tick freq now interval_us fn t =
     timer_set_oneshot_us freq now interval_us (t\<lparr>tick_interval_us := interval_us, tick_fn := fn\<rparr>)"

definition timer_clear_tick :: "timer_state \<Rightarrow> timer_state" where
  "timer_clear_tick t = timer_disable (t\<lparr>tick_fn := None, tick_interval_us := 0\<rparr>)"

section \<open>Facts\<close>

lemma drain_rx_fold: "drain_rx cs t = fold tty_input cs t"
  by (induction cs arbitrary: t) auto

end
