(* ===== verification/Leg_Fb.thy ===== *)
theory Leg_Fb
  imports Leg_Cstring Leg_Utils
begin

text \<open>
  The framebuffer of \<^verbatim>\<open>src/kernel/dev/fb.c\<close>: pixel operations and the text console with its cursor. The
  pixels are a function of their index from \<open>fb_base\<close>; the font table is a parameter. The console is
  related to a grid of cells, each of which is a glyph in two colours or filled with one colour.
\<close>

declare upt_rec_numeral [simp del]

section \<open>State\<close>

abbreviation (input) FB_WIDTH :: u32 where "FB_WIDTH \<equiv> 800"
abbreviation (input) FB_HEIGHT :: u32 where "FB_HEIGHT \<equiv> 600"
abbreviation (input) FB_BLACK :: u32 where "FB_BLACK \<equiv> 0"
abbreviation (input) FB_WHITE :: u32 where "FB_WHITE \<equiv> 0x00FFFFFF"
abbreviation (input) FONT_W :: u32 where "FONT_W \<equiv> 8"
abbreviation (input) FONT_H :: u32 where "FONT_H \<equiv> 8"
abbreviation (input) FB_COLS :: u32 where "FB_COLS \<equiv> 100"
abbreviation (input) FB_ROWS :: u32 where "FB_ROWS \<equiv> 75"

record fb_state =
  fb_base :: u32
  cursor_col :: u32
  cursor_row :: u32
  fb_pix :: "u32 \<Rightarrow> u32"

type_synonym font = "nat \<Rightarrow> u8"

definition set_pix :: "u32 \<Rightarrow> u32 \<Rightarrow> fb_state \<Rightarrow> fb_state" where
  "set_pix i color fb = fb\<lparr>fb_pix := (fb_pix fb)(i := color)\<rparr>"

section \<open>Operations\<close>

definition fb_putpixel :: "u32 \<Rightarrow> u32 \<Rightarrow> u32 \<Rightarrow> fb_state \<Rightarrow> fb_state" where
  "fb_putpixel x y color fb = (if x < FB_WIDTH \<and> y < FB_HEIGHT then set_pix (y * FB_WIDTH + x) color fb else fb)"

text \<open>The counters of the loops stay below the screen size, so they do not wrap.\<close>

definition fb_fill_rect :: "u32 \<Rightarrow> u32 \<Rightarrow> u32 \<Rightarrow> u32 \<Rightarrow> u32 \<Rightarrow> fb_state \<Rightarrow> fb_state" where
  "fb_fill_rect x y w h color =
     fold (\<lambda>row. fold (\<lambda>col. set_pix (w32 row * FB_WIDTH + w32 col) color) [unat x..<min (unat (x + w)) (unat FB_WIDTH)])
       [unat y..<min (unat (y + h)) (unat FB_HEIGHT)]"

definition fb_clear :: "u32 \<Rightarrow> fb_state \<Rightarrow> fb_state" where
  "fb_clear color fb =
     (fold (\<lambda>i. set_pix (w32 i) color) [0..<unat (FB_WIDTH * FB_HEIGHT)] fb)\<lparr>cursor_col := 0, cursor_row := 0\<rparr>"

definition draw_glyph :: "font \<Rightarrow> u32 \<Rightarrow> u32 \<Rightarrow> u8 \<Rightarrow> u32 \<Rightarrow> u32 \<Rightarrow> fb_state \<Rightarrow> fb_state" where
  "draw_glyph font cx cy ch fg bg =
     (let glyph = unat ch * 8; px = cx * FONT_W; py = cy * FONT_H
      in fold (\<lambda>row. let bits = font (glyph + row)
                     in fold (\<lambda>col. set_pix ((py + w32 row) * FB_WIDTH + px + w32 col)
                                     (if bits AND drop_bit col 0x80 \<noteq> 0 then fg else bg)) [0..<8]) [0..<8])"

definition scroll_up :: "u32 \<Rightarrow> fb_state \<Rightarrow> fb_state" where
  "scroll_up bg fb =
     (let row_pixels = FONT_H * FB_WIDTH; total = (FB_HEIGHT - FONT_H) * FB_WIDTH;
          fb = fold (\<lambda>i fb. set_pix (w32 i) (fb_pix fb (w32 i + row_pixels)) fb) [0..<unat total] fb
      in fold (\<lambda>i. set_pix (w32 i) bg) [unat total..<unat (total + row_pixels)] fb)"

function scroll_rows :: "u32 \<Rightarrow> fb_state \<Rightarrow> fb_state" where
  "scroll_rows bg fb =
     (if cursor_row fb \<ge> FB_ROWS
      then let fb = scroll_up bg fb in scroll_rows bg (fb\<lparr>cursor_row := cursor_row fb - 1\<rparr>)
      else fb)"
  by auto

definition advance :: "u8 \<Rightarrow> u32 \<Rightarrow> u32 \<Rightarrow> font \<Rightarrow> fb_state \<Rightarrow> fb_state" where
  "advance c fg bg font fb =
     (if c = 10 \<or> c = 13 then fb\<lparr>cursor_col := 0, cursor_row := cursor_row fb + 1\<rparr>
      else if c = 8 then
        (if cursor_col fb > 0
         then let fb = fb\<lparr>cursor_col := cursor_col fb - 1\<rparr> in draw_glyph font (cursor_col fb) (cursor_row fb) 32 fg bg fb
         else fb)
      else if c = 9 then fb\<lparr>cursor_col := (cursor_col fb + 4) AND NOT 3\<rparr>
      else let fb = draw_glyph font (cursor_col fb) (cursor_row fb) c fg bg fb in fb\<lparr>cursor_col := cursor_col fb + 1\<rparr>)"

lemma fold_set_cursor:
  assumes "\<And>i fb. cursor_row (f i fb) = cursor_row fb \<and> cursor_col (f i fb) = cursor_col fb \<and> fb_base (f i fb) = fb_base fb"
  shows "cursor_row (fold f is fb) = cursor_row fb \<and> cursor_col (fold f is fb) = cursor_col fb \<and> fb_base (fold f is fb) = fb_base fb"
  by (induction "is" arbitrary: fb) (simp_all add: assms)

lemma set_pix_fields [simp]:
  "cursor_row (set_pix i c fb) = cursor_row fb" "cursor_col (set_pix i c fb) = cursor_col fb" "fb_base (set_pix i c fb) = fb_base fb"
  by (simp_all add: set_pix_def)

lemma scroll_up_fields [simp]:
  "cursor_row (scroll_up bg fb) = cursor_row fb" "cursor_col (scroll_up bg fb) = cursor_col fb" "fb_base (scroll_up bg fb) = fb_base fb"
  using fold_set_cursor [of "\<lambda>i. set_pix (w32 i) bg"]
    fold_set_cursor [of "\<lambda>i fb. set_pix (w32 i) (fb_pix fb (w32 i + FONT_H * FB_WIDTH)) fb"]
  by (simp_all add: scroll_up_def Let_def del: upt_Suc)

termination scroll_rows
proof (relation "measure (\<lambda>(bg, fb). unat (cursor_row fb))", goal_cases)
  case (2 bg fb)
  then have nz: "cursor_row fb \<noteq> 0" by auto
  then have "0 < unat (cursor_row fb)" by (simp add: unat_gt_0)
  then show ?case using 2 unat_minus_one [OF nz] by simp
qed simp

declare scroll_rows.simps [simp del]

definition fb_putc :: "font \<Rightarrow> u8 \<Rightarrow> u32 \<Rightarrow> u32 \<Rightarrow> fb_state \<Rightarrow> fb_state" where
  "fb_putc font c fg bg fb =
     (if fb_base fb = 0 then fb
      else
        let fb = advance c fg bg font fb;
            fb = (if cursor_col fb \<ge> FB_COLS then fb\<lparr>cursor_col := 0, cursor_row := cursor_row fb + 1\<rparr> else fb)
        in scroll_rows bg fb)"

definition fb_putc_at :: "font \<Rightarrow> u32 \<Rightarrow> u32 \<Rightarrow> u8 \<Rightarrow> u32 \<Rightarrow> u32 \<Rightarrow> fb_state \<Rightarrow> fb_state" where
  "fb_putc_at font col row c fg bg fb =
     (if col < FB_COLS \<and> row < FB_ROWS then draw_glyph font col row c fg bg fb else fb)"

partial_function (option) fb_print :: "font \<Rightarrow> mem \<Rightarrow> u32 \<Rightarrow> u32 \<Rightarrow> u32 \<Rightarrow> fb_state \<Rightarrow> fb_state option" where
  "fb_print font m s fg bg fb =
     (if m s \<noteq> 0 then fb_print font m (s + 1) fg bg (fb_putc font (m s) fg bg fb) else Some fb)"

section \<open>Pixels\<close>

text \<open>Storing a pixel for every element of a list, and the same with a nested loop.\<close>

lemma fold_pix_other: "p \<notin> f ` set is \<Longrightarrow> fb_pix (fold (\<lambda>i. set_pix (f i) (v i)) is fb) p = fb_pix fb p"
  by (induction "is" arbitrary: fb) (auto simp: set_pix_def)

lemma fold_pix:
  "inj_on f (set is) \<Longrightarrow> i \<in> set is \<Longrightarrow> fb_pix (fold (\<lambda>i. set_pix (f i) (v i)) is fb) (f i) = v i"
proof (induction "is" arbitrary: fb)
  case (Cons j js)
  show ?case
  proof (cases "i \<in> set js")
    case True
    then show ?thesis using Cons by simp
  next
    case False
    then have "f i \<notin> f ` set js" using Cons.prems by (auto dest: inj_onD)
    moreover have "i = j" using Cons.prems False by simp
    ultimately show ?thesis by (simp add: fold_pix_other) (simp add: set_pix_def)
  qed
qed simp

lemma fold_nested: "fold (\<lambda>r. fold (\<lambda>c. f (r, c)) cs) rs = fold f (List.product rs cs)"
  by (induction rs) (auto simp: fun_eq_iff fold_map comp_def)

text \<open>The index of a pixel, injective on the screen.\<close>

definition pix_at :: "nat \<Rightarrow> nat \<Rightarrow> u32" where
  "pix_at y x = w32 (y * 800 + x)"

lemma pix_lt: "y < 600 \<Longrightarrow> x < 800 \<Longrightarrow> y * 800 + x < (480000 :: nat)"
  by simp

lemma pix_inj:
  assumes "y < 600" "x < 800" "y' < 600" "x' < 800"
  shows "pix_at y x = pix_at y' x' \<longleftrightarrow> y = y' \<and> x = x'"
proof -
  have "pix_at y x = pix_at y' x' \<longleftrightarrow> y * 800 + x = y' * 800 + x'"
    using pix_lt [OF assms(1,2)] pix_lt [OF assms(3,4)] by (simp add: pix_at_def w32_eq_iff del: of_nat_add of_nat_mult)
  also have "\<dots> \<longleftrightarrow> y = y' \<and> x = x'"
  proof
    assume eq: "y * 800 + x = y' * 800 + x'"
    have "y = (y * 800 + x) div 800" "x = (y * 800 + x) mod 800" using assms(2) by simp_all
    moreover have "y' = (y' * 800 + x') div 800" "x' = (y' * 800 + x') mod 800" using assms(4) by simp_all
    ultimately show "y = y' \<and> x = x'" unfolding eq by simp
  qed simp
  finally show ?thesis .
qed

section \<open>The console\<close>

datatype cell = Glyph u8 u32 u32 | Filled u32

fun cell_pix :: "font \<Rightarrow> cell \<Rightarrow> nat \<Rightarrow> nat \<Rightarrow> u32" where
  "cell_pix font (Glyph ch fg bg) r c = (if font (unat ch * 8 + r) AND drop_bit c 0x80 \<noteq> 0 then fg else bg)"
| "cell_pix font (Filled color) r c = color"

record console =
  con_col :: nat
  con_row :: nat
  con_cells :: "nat \<Rightarrow> nat \<Rightarrow> cell"

definition put_cell :: "nat \<Rightarrow> nat \<Rightarrow> cell \<Rightarrow> (nat \<Rightarrow> nat \<Rightarrow> cell) \<Rightarrow> nat \<Rightarrow> nat \<Rightarrow> cell" where
  "put_cell row col x g = (\<lambda>r c. if r = row \<and> c = col then x else g r c)"

definition con_scroll :: "u32 \<Rightarrow> console \<Rightarrow> console" where
  "con_scroll bg k =
     (if con_row k < 75 then k
      else k\<lparr>con_row := 74, con_cells := (\<lambda>r c. if r < 74 then con_cells k (r + 1) c else Filled bg)\<rparr>)"

definition con_advance :: "u8 \<Rightarrow> u32 \<Rightarrow> u32 \<Rightarrow> console \<Rightarrow> console" where
  "con_advance c fg bg k =
     (if c = 10 \<or> c = 13 then k\<lparr>con_col := 0, con_row := con_row k + 1\<rparr>
      else if c = 8 then
        (if con_col k = 0 then k
         else k\<lparr>con_col := con_col k - 1, con_cells := put_cell (con_row k) (con_col k - 1) (Glyph 32 fg bg) (con_cells k)\<rparr>)
      else if c = 9 then k\<lparr>con_col := (con_col k div 4 + 1) * 4\<rparr>
      else k\<lparr>con_col := con_col k + 1, con_cells := put_cell (con_row k) (con_col k) (Glyph c fg bg) (con_cells k)\<rparr>)"

definition con_wrap :: "console \<Rightarrow> console" where
  "con_wrap k = (if con_col k \<ge> 100 then k\<lparr>con_col := 0, con_row := con_row k + 1\<rparr> else k)"

definition con_putc :: "u8 \<Rightarrow> u32 \<Rightarrow> u32 \<Rightarrow> console \<Rightarrow> console" where
  "con_putc c fg bg k = con_scroll bg (con_wrap (con_advance c fg bg k))"

text \<open>The screen shows the cells, and the cursor is where the console has it.\<close>

definition pixels_show :: "font \<Rightarrow> (u32 \<Rightarrow> u32) \<Rightarrow> (nat \<Rightarrow> nat \<Rightarrow> cell) \<Rightarrow> bool" where
  "pixels_show font px g \<longleftrightarrow>
     (\<forall>y < 600. \<forall>x < 800. px (pix_at y x) = cell_pix font (g (y div 8) (x div 8)) (y mod 8) (x mod 8))"

definition shows_console :: "font \<Rightarrow> fb_state \<Rightarrow> console \<Rightarrow> bool" where
  "shows_console font fb k \<longleftrightarrow> fb_base fb \<noteq> 0 \<and> con_col k < 100 \<and> con_row k < 75 \<and>
     unat (cursor_col fb) = con_col k \<and> unat (cursor_row fb) = con_row k \<and> pixels_show font (fb_pix fb) (con_cells k)"

lemma draw_glyph_flat:
  "draw_glyph font cx cy ch fg bg =
     fold (\<lambda>i. set_pix ((cy * 8 + w32 (fst i)) * 800 + cx * 8 + w32 (snd i))
                 (if font (unat ch * 8 + fst i) AND drop_bit (snd i) 0x80 \<noteq> 0 then fg else bg))
       (List.product [0..<8] [0..<8])"
  unfolding draw_glyph_def Let_def fold_nested [symmetric] by simp

lemma glyph_index:
  assumes "unat cx < 100" "unat cy < 75" "r < 8" "c < 8"
  shows "(cy * 8 + w32 r) * 800 + cx * 8 + w32 c = pix_at (unat cy * 8 + r) (unat cx * 8 + c)"
  by (simp add: pix_at_def algebra_simps)

lemma draw_glyph_fields [simp]:
  "cursor_row (draw_glyph font cx cy ch fg bg fb) = cursor_row fb"
  "cursor_col (draw_glyph font cx cy ch fg bg fb) = cursor_col fb"
  "fb_base (draw_glyph font cx cy ch fg bg fb) = fb_base fb"
  unfolding draw_glyph_flat by (simp_all add: fold_set_cursor)

lemma draw_glyph_pix:
  assumes "unat cx < 100" "unat cy < 75" "y < 600" "x < 800"
  shows "fb_pix (draw_glyph font cx cy ch fg bg fb) (pix_at y x) =
    (if y div 8 = unat cy \<and> x div 8 = unat cx then cell_pix font (Glyph ch fg bg) (y mod 8) (x mod 8)
     else fb_pix fb (pix_at y x))"
proof -
  let ?f = "\<lambda>i. (cy * 8 + w32 (fst i)) * 800 + cx * 8 + w32 (snd i)"
  let ?is = "List.product [0..<8] [0..<8 :: nat]"
  have f: "?f i = pix_at (unat cy * 8 + fst i) (unat cx * 8 + snd i)" if "i \<in> set ?is" for i
    using that by (intro glyph_index [OF assms(1,2)]) auto
  have lt: "unat cy * 8 + fst i < 600" "unat cx * 8 + snd i < 800" if "i \<in> set ?is" for i
    using that assms(1,2) by auto
  have inj: "inj_on ?f (set ?is)"
  proof (rule inj_onI)
    fix i j assume i: "i \<in> set ?is" and j: "j \<in> set ?is" and "?f i = ?f j"
    then show "i = j" unfolding f [OF i] f [OF j] using pix_inj [OF lt [OF i] lt [OF j]] by (simp add: prod_eq_iff)
  qed
  show ?thesis
  proof (cases "y div 8 = unat cy \<and> x div 8 = unat cx")
    case True
    let ?i = "(y mod 8, x mod 8)"
    have i: "?i \<in> set ?is" by simp
    have "?f ?i = pix_at y x" unfolding f [OF i] using True div_mult_mod_eq [of y 8] div_mult_mod_eq [of x 8] by simp
    then show ?thesis using True fold_pix [OF inj i, of _ fb] unfolding draw_glyph_flat by simp
  next
    case False
    have "pix_at y x \<notin> ?f ` set ?is"
    proof
      assume "pix_at y x \<in> ?f ` set ?is"
      then obtain i where i: "i \<in> set ?is" "pix_at y x = ?f i" by blast
      then have "y = unat cy * 8 + fst i" "x = unat cx * 8 + snd i"
        unfolding f [OF i(1)] using pix_inj [OF assms(3,4) lt [OF i(1)]] by simp_all
      then show False using False i(1) by auto
    qed
    then show ?thesis unfolding draw_glyph_flat if_not_P [OF False] by (rule fold_pix_other)
  qed
qed

lemma draw_glyph_shows:
  assumes "pixels_show font (fb_pix fb) g" "unat cx < 100" "unat cy < 75"
  shows "pixels_show font (fb_pix (draw_glyph font cx cy ch fg bg fb)) (put_cell (unat cy) (unat cx) (Glyph ch fg bg) g)"
  using assms(1) draw_glyph_pix [OF assms(2,3)] by (auto simp: pixels_show_def put_cell_def)

text \<open>Scrolling reads every pixel before the loop overwrites it.\<close>

lemma scroll_copy:
  "n \<le> 2 ^ 31 \<Longrightarrow> i < 2 ^ 31 \<Longrightarrow>
   fb_pix (fold (\<lambda>i fb. set_pix (w32 i) (fb_pix fb (w32 i + w32 d)) fb) [0..<n] fb) (w32 i) =
     (if i < n then fb_pix fb (w32 i + w32 d) else fb_pix fb (w32 i))"
  if "0 < d" "d < 2 ^ 31" for i
proof (induction n arbitrary: i)
  case (Suc n)
  let ?F = "fold (\<lambda>i fb. set_pix (w32 i) (fb_pix fb (w32 i + w32 d)) fb) [0..<n] fb"
  have read: "fb_pix ?F (w32 n + w32 d) = fb_pix fb (w32 n + w32 d)"
  proof -
    have far: "w32 n + w32 d \<notin> (w32 ` {0..<n})"
    proof
      assume "w32 n + w32 d \<in> w32 ` {0..<n}"
      then obtain j where "j < n" "w32 (n + d) = w32 j" by auto
      moreover have "n + d < 2 ^ 32" "j < 2 ^ 32" using Suc.prems that calculation(1) by simp_all
      ultimately show False using w32_eq_iff [of "n + d" j] by simp
    qed
    have "fb_pix (fold (\<lambda>i fb. set_pix (w32 i) (fb_pix fb (w32 i + w32 d)) fb) is fb) p = fb_pix fb p"
      if "p \<notin> w32 ` set is" for "is" p
      using that by (induction "is" arbitrary: fb) (auto simp: set_pix_def)
    then show ?thesis using far by simp
  qed
  show ?case
  proof (cases "i = n")
    case True
    then show ?thesis using read by (simp add: set_pix_def)
  next
    case False
    then have "w32 i \<noteq> w32 n" using Suc.prems w32_eq_iff [of i n] by simp
    moreover have "i < Suc n \<longleftrightarrow> i < n" using False by auto
    ultimately show ?thesis using Suc.IH [of i] Suc.prems by (simp add: set_pix_def)
  qed
qed simp

lemma scroll_up_pix:
  assumes "y < 600" "x < 800"
  shows "fb_pix (scroll_up bg fb) (pix_at y x) = (if y < 592 then fb_pix fb (pix_at (y + 8) x) else bg)"
proof -
  let ?copied = "fold (\<lambda>i fb. set_pix (w32 i) (fb_pix fb (w32 i + w32 6400)) fb) [0..<473600] fb"
  have eq: "scroll_up bg fb = fold (\<lambda>i. set_pix (w32 i) bg) [473600..<480000] ?copied"
    by (simp add: scroll_up_def)
  have inj: "inj_on w32 (set [473600..<480000])" by (rule inj_onI) (simp add: w32_eq_iff)
  show ?thesis
  proof (cases "y < 592")
    case True
    then have i: "y * 800 + x < 473600" using assms(2) by simp
    have "pix_at y x \<notin> w32 ` set [473600..<480000]"
      using i by (auto simp: pix_at_def w32_eq_iff simp del: of_nat_add of_nat_mult)
    then have "fb_pix (scroll_up bg fb) (pix_at y x) = fb_pix ?copied (pix_at y x)" unfolding eq by (rule fold_pix_other)
    also have "\<dots> = fb_pix fb (pix_at y x + w32 6400)"
      using scroll_copy [of 6400 473600 "y * 800 + x" fb] i by (simp add: pix_at_def)
    also have "pix_at y x + w32 6400 = pix_at (y + 8) x" by (simp add: pix_at_def algebra_simps)
    finally show ?thesis using True by simp
  next
    case False
    then have "y * 800 + x \<in> set [473600..<480000]" using pix_lt [OF assms] by simp
    then show ?thesis using fold_pix [OF inj, of "y * 800 + x" "\<lambda>_. bg" ?copied] False
      unfolding eq pix_at_def by simp
  qed
qed

lemma scroll_up_shows:
  assumes "pixels_show font (fb_pix fb) g"
  shows "pixels_show font (fb_pix (scroll_up bg fb)) (\<lambda>r c. if r < 74 then g (r + 1) c else Filled bg)"
  unfolding pixels_show_def
proof (intro allI impI)
  fix y x :: nat assume "y < 600" "x < 800"
  then show "fb_pix (scroll_up bg fb) (pix_at y x) =
      cell_pix font (if y div 8 < 74 then g (y div 8 + 1) (x div 8) else Filled bg) (y mod 8) (x mod 8)"
  proof (cases "y < 592")
    case True
    then have "y div 8 < 74" "(y + 8) div 8 = y div 8 + 1" "(y + 8) mod 8 = y mod 8" by simp_all
    then show ?thesis using assms True \<open>y < 600\<close> \<open>x < 800\<close> scroll_up_pix [of y x bg fb] by (auto simp: pixels_show_def)
  next
    case False
    then have "\<not> y div 8 < 74" by simp
    then show ?thesis using False \<open>y < 600\<close> \<open>x < 800\<close> scroll_up_pix [of y x bg fb] by simp
  qed
qed

section \<open>Properties\<close>

lemma cursor_bounds:
  assumes "shows_console font fb k"
  shows "cursor_col fb = w32 (con_col k)" "cursor_row fb = w32 (con_row k)" "con_col k < 100" "con_row k < 75"
  using assms by (auto simp: shows_console_def word_unat_eq_iff unat_w32)

lemma tab_stop: "n < 100 \<Longrightarrow> unat ((w32 n + 4) AND NOT 3) = (n div 4 + 1) * 4"
proof -
  assume n: "n < 100"
  have "(w32 n + 4) AND NOT 3 = (w32 n + 4) AND NOT (mask 2)" by (simp add: mask_eq_exp_minus_1)
  moreover have "unat (w32 n + 4) = n + 4"
    using n unat_add_no_wrap [of "w32 n" 4] by (simp add: unat_w32)
  moreover have "n + 4 - n mod 4 = 4 + n div 4 * 4" by presburger
  ultimately show ?thesis by (simp add: and_not_mask_unat)
qed

lemma advance_shows:
  fixes c fg bg
  assumes sh: "shows_console font fb k"
  defines "fb' \<equiv> advance c fg bg font fb" and "k' \<equiv> con_advance c fg bg k"
  shows "fb_base fb' \<noteq> 0 \<and> cursor_col fb' = w32 (con_col k') \<and> cursor_row fb' = w32 (con_row k') \<and>
    con_col k' \<le> 103 \<and> con_row k' \<le> 75 \<and> (con_row k' = 75 \<longrightarrow> con_col k' = 0) \<and> pixels_show font (fb_pix fb') (con_cells k')"
proof -
  note b = cursor_bounds [OF sh]
  have u: "unat (w32 (con_col k)) = con_col k" "unat (w32 (con_row k)) = con_row k" using b by (simp_all add: unat_w32)
  have px: "pixels_show font (fb_pix fb) (con_cells k)" "fb_base fb \<noteq> 0" using sh by (simp_all add: shows_console_def)
  consider "c = 10 \<or> c = 13" | "c = 8" "con_col k = 0" | "c = 8" "con_col k \<noteq> 0" | "c = 9" | "c \<notin> {8, 9, 10, 13}" by blast
  then show ?thesis
  proof cases
    case 1
    then show ?thesis using b px by (auto simp: fb'_def k'_def advance_def con_advance_def)
  next
    case 2
    then show ?thesis using b px by (simp add: fb'_def k'_def advance_def con_advance_def)
  next
    case 3
    define fb1 where "fb1 = fb\<lparr>cursor_col := w32 (con_col k - 1)\<rparr>"
    have c: "w32 (con_col k) - 1 = w32 (con_col k - 1)" "w32 (con_col k) \<noteq> 0" "unat (w32 (con_col k - 1)) = con_col k - 1"
      using 3(2) b(3) unat_w32 [of "con_col k - 1"] by (auto simp: of_nat_diff w32_eq_0_iff simp del: unat_of_nat)
    then have "fb' = draw_glyph font (w32 (con_col k - 1)) (w32 (con_row k)) 32 fg bg fb1"
      using 3 b by (simp add: fb'_def advance_def fb1_def word_gt_0)
    moreover have "pixels_show font (fb_pix fb1) (con_cells k)" using px by (simp add: fb1_def)
    from draw_glyph_shows [OF this, of "w32 (con_col k - 1)" "w32 (con_row k)" 32 fg bg]
    have "pixels_show font (fb_pix (draw_glyph font (w32 (con_col k - 1)) (w32 (con_row k)) 32 fg bg fb1))
        (put_cell (con_row k) (con_col k - 1) (Glyph 32 fg bg) (con_cells k))"
      unfolding u c(3) using b by simp
    moreover have "k' = k\<lparr>con_col := con_col k - 1, con_cells := put_cell (con_row k) (con_col k - 1) (Glyph 32 fg bg) (con_cells k)\<rparr>"
      using 3 by (simp add: k'_def con_advance_def)
    ultimately show ?thesis using b px by (simp add: fb1_def)
  next
    case 4
    have "(w32 (con_col k) + 4) AND NOT 3 = w32 ((con_col k div 4 + 1) * 4)"
      using tab_stop [OF b(3)] by (metis w32_unat)
    then show ?thesis using b px 4 by (simp add: fb'_def k'_def advance_def con_advance_def)
  next
    case 5
    have "pixels_show font (fb_pix (draw_glyph font (w32 (con_col k)) (w32 (con_row k)) c fg bg fb))
        (put_cell (con_row k) (con_col k) (Glyph c fg bg) (con_cells k))"
      using draw_glyph_shows [OF px(1), of "w32 (con_col k)" "w32 (con_row k)" c fg bg] u b by simp
    then show ?thesis using b px 5 by (simp add: fb'_def k'_def advance_def con_advance_def)
  qed
qed

lemma scroll_rows_shows:
  assumes "fb_base fb \<noteq> 0" "cursor_col fb = w32 (con_col k)" "cursor_row fb = w32 (con_row k)" "con_col k < 100"
    "con_row k \<le> 75" "pixels_show font (fb_pix fb) (con_cells k)"
  shows "shows_console font (scroll_rows bg fb) (con_scroll bg k)"
proof (cases "con_row k = 75")
  case True
  let ?fb = "(scroll_up bg fb)\<lparr>cursor_row := 74\<rparr>"
  have "scroll_rows bg fb = scroll_rows bg ?fb" using assms(3) True by (subst scroll_rows.simps) simp
  also have "\<dots> = ?fb" by (subst scroll_rows.simps) simp
  finally show ?thesis
    using assms True scroll_up_shows [OF assms(6), of bg] by (simp add: shows_console_def con_scroll_def unat_w32)
next
  case False
  then have "\<not> cursor_row fb \<ge> 75" using assms(3,5) w32_le_iff [of 75 "con_row k"] by simp
  then have "scroll_rows bg fb = fb" by (subst scroll_rows.simps) simp
  then show ?thesis using assms False by (simp add: shows_console_def con_scroll_def unat_w32)
qed

text \<open>C33: the framebuffer console implements a grid of 75 rows of 100 cells with a cursor: a character of every kind
  (newline, backspace, tab, glyph), the wrap at the end of a line and the scrolling at the end of the screen change
  exactly the cells they should, and the cursor never leaves the grid.\<close>

theorem fb_putc_refines:
  assumes "shows_console font fb k"
  shows "shows_console font (fb_putc font c fg bg fb) (con_putc c fg bg k)"
proof -
  define fb1 where "fb1 = advance c fg bg font fb"
  define k1 where "k1 = con_advance c fg bg k"
  note a = advance_shows [OF assms, of c fg bg, folded fb1_def k1_def]
  define fb2 where "fb2 = (if cursor_col fb1 \<ge> FB_COLS then fb1\<lparr>cursor_col := 0, cursor_row := cursor_row fb1 + 1\<rparr> else fb1)"
  have "cursor_col fb1 \<ge> FB_COLS \<longleftrightarrow> con_col k1 \<ge> 100" using a w32_le_iff [of 100 "con_col k1"] by simp
  then have "shows_console font (scroll_rows bg fb2) (con_scroll bg (con_wrap k1))"
    using a by (intro scroll_rows_shows) (auto simp: fb2_def con_wrap_def)
  moreover have "fb_putc font c fg bg fb = scroll_rows bg fb2"
    using assms by (simp add: fb_putc_def shows_console_def fb1_def fb2_def Let_def)
  ultimately show ?thesis by (simp add: con_putc_def k1_def)
qed

text \<open>A cleared screen with the cursor in its last cell: the next character scrolls.\<close>

definition fb0 :: fb_state where
  "fb0 = \<lparr>fb_base = 0x48000000, cursor_col = 99, cursor_row = 74, fb_pix = (\<lambda>_. FB_BLACK)\<rparr>"

theorem fb_putc_refines_witness:
  "cursor_row (fb_putc (\<lambda>_. 0xFF) 65 FB_WHITE FB_BLACK fb0) = 74 \<and> cursor_col (fb_putc (\<lambda>_. 0xFF) 65 FB_WHITE FB_BLACK fb0) = 0 \<and>
   fb_pix (fb_putc (\<lambda>_. 0xFF) 65 FB_WHITE FB_BLACK fb0) (pix_at 590 795) = FB_WHITE"
proof -
  define k where "k = \<lparr>con_col = 99, con_row = 74, con_cells = (\<lambda>_ _. Filled FB_BLACK)\<rparr>"
  let ?fb = "fb_putc (\<lambda>_. 0xFF) 65 FB_WHITE FB_BLACK fb0"
  have "shows_console (\<lambda>_. 0xFF) fb0 k" by (simp add: shows_console_def fb0_def k_def pixels_show_def)
  from fb_putc_refines [OF this, of 65 FB_WHITE FB_BLACK]
  have sh: "shows_console (\<lambda>_. 0xFF) ?fb (con_putc 65 FB_WHITE FB_BLACK k)" .
  have k: "con_putc 65 FB_WHITE FB_BLACK k = \<lparr>con_col = 0, con_row = 74, con_cells =
      (\<lambda>r c. if r < 74 then put_cell 74 99 (Glyph 65 FB_WHITE FB_BLACK) (\<lambda>_ _. Filled FB_BLACK) (r + 1) c else Filled FB_BLACK)\<rparr>"
    by (simp add: con_putc_def con_advance_def con_wrap_def con_scroll_def k_def cong: if_cong)
  have "(0xFF :: u8) AND drop_bit 3 0x80 \<noteq> 0" by code_simp
  then have "fb_pix ?fb (pix_at 590 795) = FB_WHITE"
    using sh [unfolded k shows_console_def pixels_show_def] by (simp add: put_cell_def)
  then show ?thesis using cursor_bounds(1,2) [OF sh] by (simp add: k)
qed

end
