(* ===== verification/Leg_Kernel.thy ===== *)
theory Leg_Kernel
  imports Leg_Blk Leg_Scheduler Leg_Kbd Leg_Devices Leg_Rng Leg_Fb Leg_Mmu
begin

text \<open>
  The state of the whole kernel: the static variables of the files that the process and system call code
  brings together, next to the memory manager's state with the byte memory. What the model does not read from
  the source (the block device, addresses that the linker and the stack pointer fix, the font table) is the
  argument \<open>platform\<close>. A kernel routine maps a state to a value and a state, may panic, and may not end.
\<close>

section \<open>State\<close>

text \<open>The static variables of \<^verbatim>\<open>src/kernel/fs.c\<close>.\<close>

record fs_state =
  g_start_sector :: u32
  g_blob_count :: u32
  g_blobs :: u32
  g_names :: u32

record 'd kernel =
  k_mm :: mm_state
  k_blk :: blk_state
  k_dev :: 'd
  k_fs :: fs_state
  k_sched :: sched_state
  next_pid :: u32
  k_tty :: tty_state
  k_rng :: u32
  k_fb :: fb_state
  ttbr0 :: u32
  k_uart :: uart_state
  k_kbd :: kbd_state
  k_timer :: timer_state

text \<open>
  \<open>ttbr0\<close> is the coprocessor register that holds the physical address of the first-level table for user addresses.
  \<open>local_buf\<close> is the address of a routine's buffer on the kernel stack, \<open>kernel_table\<close> that of the boot table.
\<close>

record 'd platform =
  kpb :: u32
  device :: "'d blk_device"
  symbols :: blk_syms
  local_buf :: u32
  kernel_table :: u32
  font :: font

section \<open>Parts as routines of the kernel\<close>

abbreviation kmem :: "'d kernel \<Rightarrow> mem" where
  "kmem k \<equiv> mem (k_mm k)"

definition set_kmem :: "mem \<Rightarrow> 'd kernel \<Rightarrow> 'd kernel" where
  "set_kmem m k = k\<lparr>k_mm := (k_mm k)\<lparr>mem := m\<rparr>\<rparr>"

lemma bind_out_alt: "bind_out x f = Option.bind x (case_outcome f (\<lambda>e. Some (Panics e)))"
  by (cases "(x, f)" rule: bind_out.cases) auto

lemma bind_out_mono [partial_function_mono]:
  assumes "mono_option B" "\<And>y. mono_option (\<lambda>f. C y f)"
  shows "mono_option (\<lambda>f. bind_out (B f) (\<lambda>y. C y f))"
  unfolding bind_out_alt
proof (rule bind_mono [OF assms(1)])
  show "mono_option (\<lambda>f. case r of Returns y \<Rightarrow> C y f | Panics e \<Rightarrow> Some (Panics e))" for r
    by (cases r) (simp_all add: assms(2) option.const_mono)
qed

abbreviation done_with :: "'a \<Rightarrow> 'd kernel \<Rightarrow> ('a \<times> 'd kernel) outcome option" where
  "done_with a k \<equiv> Some (Returns (a, k))"

definition on_mm :: "(mm_state \<Rightarrow> ('a \<times> mm_state) outcome option) \<Rightarrow> 'd kernel \<Rightarrow> ('a \<times> 'd kernel) outcome option" where
  "on_mm f k = bind_out (f (k_mm k)) (\<lambda>(a, s). done_with a (k\<lparr>k_mm := s\<rparr>))"

definition on_mm_unit :: "(mm_state \<Rightarrow> mm_state outcome option) \<Rightarrow> 'd kernel \<Rightarrow> 'd kernel outcome option" where
  "on_mm_unit f k = bind_out (f (k_mm k)) (\<lambda>s. Some (Returns (k\<lparr>k_mm := s\<rparr>)))"

definition on_blk ::
  "(blk_state \<times> 'd \<times> mem \<Rightarrow> (bool \<times> blk_state \<times> 'd \<times> mem) option) \<Rightarrow> 'd kernel \<Rightarrow> (bool \<times> 'd kernel) outcome option" where
  "on_blk f k =
     (case f (k_blk k, k_dev k, kmem k) of
        None \<Rightarrow> None
      | Some (ok, b, d, m) \<Rightarrow> done_with ok (set_kmem m (k\<lparr>k_blk := b, k_dev := d\<rparr>)))"

lemma set_kmem_simps [simp]:
  "kmem (set_kmem m k) = m" "k_blk (set_kmem m k) = k_blk k" "k_dev (set_kmem m k) = k_dev k" "k_fs (set_kmem m k) = k_fs k"
  "k_mm (set_kmem m k) = (k_mm k)\<lparr>mem := m\<rparr>" "k_sched (set_kmem m k) = k_sched k" "next_pid (set_kmem m k) = next_pid k"
  by (simp_all add: set_kmem_def)

definition mmu_set_proc_table :: "'d platform \<Rightarrow> u32 \<Rightarrow> 'd kernel \<Rightarrow> 'd kernel" where
  "mmu_set_proc_table P tt k = k\<lparr>ttbr0 := virt_to_phys (kpb P) tt\<rparr>"

section \<open>Access to user addresses\<close>

text \<open>
  The kernel reads and writes user addresses (the 32 MB below \<open>PROC_USER_VA_TOP\<close>) through the table in \<open>ttbr0\<close>; an
  unmapped address is a data abort, whose handler panics. Other addresses are the kernel's own.
\<close>

abbreviation (input) PROC_USER_VA_TOP :: u32 where "PROC_USER_VA_TOP \<equiv> 0x02000000"

definition translate :: "u32 \<Rightarrow> mem \<Rightarrow> u32 \<Rightarrow> u32 \<Rightarrow> u32 option" where
  "translate kp m tt va =
     (let e = entry m tt (drop_bit MB_SHIFT va)
      in if l1_type e = L1_SECTION then Some (push_bit 20 (sec_address (dec_section e)) OR (va AND 0xFFFFF)) else va_lookup kp m tt va)"

definition access_addr :: "'d platform \<Rightarrow> 'd kernel \<Rightarrow> u32 \<Rightarrow> u32 option" where
  "access_addr P k va =
     (if va < PROC_USER_VA_TOP
      then map_option (phys_to_virt (kpb P)) (translate (kpb P) (kmem k) (phys_to_virt (kpb P) (ttbr0 k)) va)
      else Some va)"

definition load_byte :: "'d platform \<Rightarrow> u32 \<Rightarrow> 'd kernel \<Rightarrow> u8 outcome" where
  "load_byte P va k = (case access_addr P k va of None \<Rightarrow> Panics ''data abort'' | Some a \<Rightarrow> Returns (kmem k a))"

definition store_byte :: "'d platform \<Rightarrow> u32 \<Rightarrow> u8 \<Rightarrow> 'd kernel \<Rightarrow> 'd kernel outcome" where
  "store_byte P va c k =
     (case access_addr P k va of None \<Rightarrow> Panics ''data abort'' | Some a \<Rightarrow> Returns (set_kmem ((kmem k)(a := c)) k))"

text \<open>\<^verbatim>\<open>memclr\<close> and \<^verbatim>\<open>memcpy\<close> of \<^verbatim>\<open>builtins.c\<close> on such addresses.\<close>

fun user_fill :: "'d platform \<Rightarrow> nat \<Rightarrow> u32 \<Rightarrow> u8 \<Rightarrow> 'd kernel \<Rightarrow> 'd kernel outcome" where
  "user_fill P 0 dp c k = Returns k"
| "user_fill P (Suc n) dp c k =
     (case store_byte P dp c k of Panics e \<Rightarrow> Panics e | Returns k \<Rightarrow> user_fill P n (dp + 1) c k)"

fun user_copy_up :: "'d platform \<Rightarrow> nat \<Rightarrow> u32 \<Rightarrow> u32 \<Rightarrow> 'd kernel \<Rightarrow> 'd kernel outcome" where
  "user_copy_up P 0 dp src k = Returns k"
| "user_copy_up P (Suc n) dp src k =
     (case load_byte P src k of
        Panics e \<Rightarrow> Panics e
      | Returns c \<Rightarrow> (case store_byte P dp c k of Panics e \<Rightarrow> Panics e | Returns k \<Rightarrow> user_copy_up P n (dp + 1) (src + 1) k))"

definition user_memclr :: "'d platform \<Rightarrow> u32 \<Rightarrow> u32 \<Rightarrow> 'd kernel \<Rightarrow> 'd kernel outcome" where
  "user_memclr P dst len k = user_fill P (unat len) dst 0 k"

definition user_memcpy :: "'d platform \<Rightarrow> u32 \<Rightarrow> u32 \<Rightarrow> u32 \<Rightarrow> 'd kernel \<Rightarrow> 'd kernel outcome" where
  "user_memcpy P dst src len k = (if dst = src then Returns k else user_copy_up P (unat len) dst src k)"

end
