(* ===== verification/Leg_Fs.thy ===== *)
theory Leg_Fs
  imports Leg_Kernel
begin

text \<open>
  The read-only file system of \<^verbatim>\<open>src/kernel/fs.c\<close>: mounting reads the header, the descriptor table and the
  names of an image into heap blocks; lookup compares names; reading a blob is one request to the block driver.
  The descriptors and names live in the byte memory and are read from there at every use.
\<close>

section \<open>On-disk structures\<close>

abbreviation (input) FS_MAGIC :: u32 where "FS_MAGIC \<equiv> 0x4C454746"
abbreviation (input) FS_TYPE_EXECUTABLE :: u16 where "FS_TYPE_EXECUTABLE \<equiv> 1"

record fs_blob_t =
  blob_offset :: u32
  blob_size :: u32
  name_offset :: u32
  name_size :: u16
  blob_flags :: u16

definition rd16 :: "mem \<Rightarrow> u32 \<Rightarrow> u16" where
  "rd16 m a = ucast (m a) OR push_bit 8 (ucast (m (a + 1)))"

definition blob_at :: "mem \<Rightarrow> u32 \<Rightarrow> fs_blob_t" where
  "blob_at m a = \<lparr>blob_offset = rd32 m a, blob_size = rd32 m (a + 4), name_offset = rd32 m (a + 8),
     name_size = rd16 m (a + 12), blob_flags = rd16 m (a + 14)\<rparr>"

section \<open>Mounting\<close>

definition read_sectors :: "'d platform \<Rightarrow> u32 \<Rightarrow> u32 \<Rightarrow> u32 \<Rightarrow> 'd kernel \<Rightarrow> (bool \<times> 'd kernel) outcome option" where
  "read_sectors P sector count buf = on_blk (blk_read (device P) (kpb P) (symbols P) (ucast sector) count buf)"

definition fs_blob_count :: "'d kernel \<Rightarrow> u32" where
  "fs_blob_count k = g_blob_count (k_fs k)"

definition set_fs :: "(fs_state \<Rightarrow> fs_state) \<Rightarrow> 'd kernel \<Rightarrow> 'd kernel" where
  "set_fs f k = k\<lparr>k_fs := f (k_fs k)\<rparr>"

text \<open>The frees of the error paths: release, then return false.\<close>

definition free_and_fail :: "u32 list \<Rightarrow> 'd kernel \<Rightarrow> (bool \<times> 'd kernel) outcome option" where
  "free_and_fail ps k =
     bind_out (fold (\<lambda>p r. bind_out r (on_mm_unit (kfree p))) ps (Some (Returns k))) (\<lambda>k. done_with False k)"

definition names_extent :: "mem \<Rightarrow> u32 \<Rightarrow> u32 \<Rightarrow> u32" where
  "names_extent m blobs count =
     fold (\<lambda>i size. let b = blob_at m (blobs + 16 * w32 i); e = name_offset b + ucast (name_size b)
                     in if e > size then e else size) [0..<unat count] 0"

text \<open>Pass 3 of \<^verbatim>\<open>fs_mount\<close>: read up to the end of the names, then copy the names into a block of their own.\<close>

definition copy_names :: "u32 \<Rightarrow> u32 \<Rightarrow> u32 \<Rightarrow> 'd kernel \<Rightarrow> (bool \<times> 'd kernel) outcome option" where
  "copy_names name_buf names_start names_size k =
     bind_out (on_mm (kmalloc (names_size + g_blob_count (k_fs k))) k) (\<lambda>(names, k).
       let k = set_fs (\<lambda>f. f\<lparr>g_names := names\<rparr>) k
       in if names = 0 then free_and_fail [g_blobs (k_fs k), name_buf] k
          else
            let k = set_kmem (snd (memcpy names (name_buf + names_start) names_size (kmem k))) k
            in bind_out (on_mm_unit (kfree name_buf) k) (done_with True))"

definition mount_names :: "'d platform \<Rightarrow> u32 \<Rightarrow> u32 \<Rightarrow> 'd kernel \<Rightarrow> (bool \<times> 'd kernel) outcome option" where
  "mount_names P start_sector desc_end k =
     (let names_size = names_extent (kmem k) (g_blobs (k_fs k)) (g_blob_count (k_fs k));
          names_start = desc_end;
          names_end = names_start + names_size;
          names_secs = (names_end + 511) div 512
      in bind_out (on_mm (kmalloc (names_secs * 512)) k) (\<lambda>(name_buf, k).
           if name_buf = 0 then free_and_fail [g_blobs (k_fs k)] k
           else bind_out (read_sectors P start_sector names_secs name_buf k) (\<lambda>(ok, k).
             if \<not> ok then free_and_fail [g_blobs (k_fs k), name_buf] k
             else copy_names name_buf names_start names_size k)))"

text \<open>Pass 2: read the header and the descriptor table, then copy the descriptors.\<close>

definition copy_descs :: "u32 \<Rightarrow> u32 \<Rightarrow> 'd kernel \<Rightarrow> (bool \<times> 'd kernel) outcome option" where
  "copy_descs desc_buf count k =
     bind_out (on_mm (kmalloc (count * 16)) k) (\<lambda>(blobs, k).
       let k = set_fs (\<lambda>f. f\<lparr>g_blobs := blobs\<rparr>) k
       in if blobs = 0 then free_and_fail [desc_buf] k
          else
            let k = set_kmem (snd (memcpy blobs (desc_buf + 8) (count * 16) (kmem k))) k
            in bind_out (on_mm_unit (kfree desc_buf) k) (done_with True))"

definition mount_descs :: "'d platform \<Rightarrow> u32 \<Rightarrow> 'd kernel \<Rightarrow> (bool \<times> 'd kernel) outcome option" where
  "mount_descs P start_sector k =
     (let count = g_blob_count (k_fs k); desc_end = 8 + count * 16; desc_secs = (desc_end + 511) div 512
      in bind_out (on_mm (kmalloc (desc_secs * 512)) k) (\<lambda>(desc_buf, k).
           if desc_buf = 0 then done_with False k
           else bind_out (read_sectors P start_sector desc_secs desc_buf k) (\<lambda>(ok, k).
             if \<not> ok then free_and_fail [desc_buf] k
             else bind_out (copy_descs desc_buf count k) (\<lambda>(ok, k).
               if \<not> ok then done_with False k else mount_names P start_sector desc_end k))))"

definition fs_mount :: "'d platform \<Rightarrow> u32 \<Rightarrow> 'd kernel \<Rightarrow> (bool \<times> 'd kernel) outcome option" where
  "fs_mount P start_sector k =
     (let hdr = local_buf P;
          k = set_fs (\<lambda>f. f\<lparr>g_blob_count := 0, g_blobs := 0, g_names := 0\<rparr>) k
      in bind_out (read_sectors P start_sector 1 hdr k) (\<lambda>(ok, k).
           if \<not> ok then done_with False k
           else if rd32 (kmem k) hdr \<noteq> FS_MAGIC then done_with False k
           else
             let k = set_fs (\<lambda>f. f\<lparr>g_start_sector := start_sector, g_blob_count := rd32 (kmem k) (hdr + 4)\<rparr>) k
             in if g_blob_count (k_fs k) = 0 then done_with True k else mount_descs P start_sector k))"

section \<open>Lookup and reading\<close>

definition fs_blob_at :: "u32 \<Rightarrow> 'd kernel \<Rightarrow> u32" where
  "fs_blob_at i k = (if i \<ge> g_blob_count (k_fs k) then 0 else g_blobs (k_fs k) + 16 * i)"

definition fs_blob_name :: "u32 \<Rightarrow> 'd kernel \<Rightarrow> u32" where
  "fs_blob_name blob k = g_names (k_fs k) + name_offset (blob_at (kmem k) blob)"

text \<open>The loop of \<^verbatim>\<open>fs_find\<close>: the first blob whose name has the length and the characters of \<open>name\<close>.\<close>

definition blob_named :: "'d kernel \<Rightarrow> u32 \<Rightarrow> u32 \<Rightarrow> u32 \<Rightarrow> bool" where
  "blob_named k name name_len b \<longleftrightarrow>
     ucast (name_size (blob_at (kmem k) b)) = name_len \<and> strncmp (kmem k) (fs_blob_name b k) name name_len = 0"

definition fs_find :: "u32 \<Rightarrow> 'd kernel \<Rightarrow> u32 option" where
  "fs_find name k =
     Option.bind (strlen (kmem k) name) (\<lambda>len.
       let name_len = of_int len
       in Some (case find (\<lambda>i. blob_named k name name_len (g_blobs (k_fs k) + 16 * w32 i)) [0..<unat (g_blob_count (k_fs k))] of
                  Some i \<Rightarrow> g_blobs (k_fs k) + 16 * w32 i
                | None \<Rightarrow> 0))"

definition fs_read :: "'d platform \<Rightarrow> u32 \<Rightarrow> u32 \<Rightarrow> 'd kernel \<Rightarrow> (bool \<times> 'd kernel) outcome option" where
  "fs_read P blob buf k =
     (let b = blob_at (kmem k) blob;
          sector = g_start_sector (k_fs k) + blob_offset b div 512;
          count = (blob_size b + 511) div 512
      in on_blk (blk_read (device P) (kpb P) (symbols P) (ucast sector) count buf) k)"

end
