(* ===== verification/Leg_Heap_Client.thy ===== *)
theory Leg_Heap_Client
  imports Leg_Kheap_Ops
begin

text \<open>
  The kernel heap as its clients in the kernel see it. A byte is \<open>settled\<close> when it lies in a live block or outside
  the heap; the allocator never changes a settled byte, and a write to settled bytes never disturbs the heap. The
  file system, the page tables and the process code are verified on these facts only.
\<close>

definition in_heap :: "mm_state \<Rightarrow> nat \<Rightarrow> bool" where
  "in_heap s x \<longleftrightarrow> unat (kh_base (g_kheap s)) \<le> x \<and> x < unat (kh_base (g_kheap s)) + unat (kh_capacity (g_kheap s))"

definition settled :: "mm_state \<Rightarrow> nat \<Rightarrow> bool" where
  "settled s x \<longleftrightarrow> x < 2 ^ 32 \<and> (in_heap s x \<longrightarrow> (\<exists>(p, n) \<in> live s. p \<le> x \<and> x < p + n))"

text \<open>The same heap area, with settled bytes kept.\<close>

definition heap_step :: "mm_state \<Rightarrow> mm_state \<Rightarrow> bool" where
  "heap_step s s' \<longleftrightarrow> heap_ok s' \<and> kh_base (g_kheap s') = kh_base (g_kheap s) \<and>
     kh_capacity (g_kheap s') = kh_capacity (g_kheap s) \<and> g_pmm s' = g_pmm s \<and>
     (\<forall>x. settled s x \<longrightarrow> byte_at s' x = byte_at s x)"

lemma in_heap_step: "heap_step s s' \<Longrightarrow> in_heap s' x \<longleftrightarrow> in_heap s x"
  by (simp add: heap_step_def in_heap_def)

lemma live_block:
  assumes "heap_rep s bs"
  shows "(p, n) \<in> live s \<longleftrightarrow> (\<exists>a. (a, n, True) \<in> set bs \<and> p = a + 12)"
  unfolding live_rep [OF assms] used_blocks_def by force

lemma live_bounds:
  assumes "heap_ok s" "(p, n) \<in> live s"
  shows "unat (kh_base (g_kheap s)) + 12 \<le> p" "p + n \<le> unat (kh_base (g_kheap s)) + unat (kh_capacity (g_kheap s))"
    "p + n < 2 ^ 32" "unat (w32 p) = p"
proof -
  obtain bs where bs: "heap_rep s bs" using assms(1) by (auto simp: heap_ok_def)
  then obtain a where a: "(a, n, True) \<in> set bs" "p = a + 12" using assms(2) live_block by blast
  note t = heap_rep_tiled [OF bs]
  show "unat (kh_base (g_kheap s)) + 12 \<le> p" using tiled_ge [OF t(1) a(1)] a(2) by simp
  show "p + n \<le> unat (kh_base (g_kheap s)) + unat (kh_capacity (g_kheap s))" using tiled_below [OF t(1) a(1)] a(2) by simp
  then show "p + n < 2 ^ 32" using t(4) by linarith
  then show "unat (w32 p) = p" by (simp add: unat_w32)
qed

lemma live_settled: "heap_ok s \<Longrightarrow> (p, n) \<in> live s \<Longrightarrow> p \<le> x \<Longrightarrow> x < p + n \<Longrightarrow> settled s x"
  using live_bounds(3) [of s p n] by (auto simp: settled_def)

lemma settled_safe:
  assumes "heap_rep s bs" "settled s x"
  shows "safe bs x"
proof (cases "in_heap s x")
  case True
  then obtain p n where "(p, n) \<in> live s" "p \<le> x" "x < p + n" using assms(2) by (auto simp: settled_def)
  then show ?thesis using payload_safe [OF heap_rep_tiled(1,4) [OF assms(1)]] by (auto simp: live_block [OF assms(1)])
next
  case False
  note t = heap_rep_tiled [OF assms(1)]
  have "x < b \<or> blk_end (b, k, u) \<le> x" if "(b, k, u) \<in> set bs" for b k u
    using tiled_ge [OF t(1) that] tiled_below [OF t(1) that] False by (auto simp: in_heap_def blk_end_def)
  moreover have "x < 2 ^ 32" using assms(2) by (simp add: settled_def)
  ultimately show ?thesis by (simp add: safe_def Ball_def split_paired_All)
qed

lemma frame_step:
  assumes "heap_rep s bs" "heap_rep s' bs'" "heap_frame bs s s'"
  shows "heap_step s s'"
  using assms settled_safe [OF assms(1)]
  by (auto simp: heap_step_def heap_frame_def same_safe_def byte_at_def heap_ok_def)

lemma header_unsettled:
  assumes "heap_rep s bs" "(b, l, v) \<in> set bs" "i < 12"
  shows "\<not> settled s (b + i)"
proof
  assume st: "settled s (b + i)"
  note t = heap_rep_tiled [OF assms(1)]
  have "in_heap s (b + i)"
    using tiled_ge [OF t(1) assms(2)] tiled_below [OF t(1) assms(2)] assms(3) by (auto simp: in_heap_def)
  then obtain a n where a: "(a, n, True) \<in> set bs" "a + 12 \<le> b + i" "b + i < a + 12 + n"
    using st live_block [OF assms(1)] by (fastforce simp: settled_def)
  then show False using tiled_disjoint [OF t(1) a(1) assms(2)] assms(3) by auto
qed

section \<open>The operations\<close>

lemma kmalloc_client:
  assumes "heap_ok s" "sz \<noteq> 0" "unat sz + 8 \<le> 2 ^ 32"
  obtains (full) "kmalloc sz s = Some (Returns (0, s))" "\<not> heap_gap s (unat (round8 sz) + 12)"
  | (block) p m s' where "kmalloc sz s = Some (Returns (p, s'))" "p \<noteq> 0" "heap_step s s'" "unat sz \<le> m"
      "(unat p, m) \<notin> live s" "live s' = insert (unat p, m) (live s)" "spends (unat (round8 sz) + 56) s s'"
proof -
  obtain bs where bs: "heap_rep s bs" using assms(1) by (auto simp: heap_ok_def)
  show ?thesis
    using bs assms(2,3)
  proof (cases rule: kmalloc_new)
    case full
    then show ?thesis using that(1) by blast
  next
    case (block a m bs' s')
    have "live s' = insert (a + 12, m) (live s)"
      using live_rep [OF bs] live_rep [OF block(4)] block(10) by simp
    then show ?thesis using that(2) [OF block(1,2) frame_step [OF bs block(4,5)] block(7)] block(3,9,11) by simp
  qed
qed

lemma kfree_client:
  assumes "heap_ok s" "(unat p, m) \<in> live s"
  obtains s' where "kfree p s = Some (Returns s')" "heap_step s s'" "live s' = live s - {(unat p, m)}"
proof -
  obtain bs a where bs: "heap_rep s bs" "(a, m, True) \<in> set bs" "unat p = a + 12"
    using assms live_block by (auto simp: heap_ok_def)
  then have p: "p = w32 (a + 12)" by (metis w32_unat)
  obtain s' where s': "kfree (w32 (a + 12)) s = Some (Returns s')" "heap_rep s' (afree (a + 12) bs)" "heap_frame bs s s'"
    using kfree_refines [OF bs(1,2)] by blast
  then show ?thesis
    using that [OF s'(1) [folded p] frame_step [OF bs(1) s'(2,3)]]
      live_remove [OF bs(1) s'(2) used_blocks_afree [OF heap_rep_tiled(1) [OF bs(1)] bs(2)]] bs(3) by simp
qed

lemma settled_write:
  assumes "heap_ok s" "\<And>x. x < 2 ^ 32 \<Longrightarrow> \<not> settled s x \<Longrightarrow> m' (w32 x) = mem s (w32 x)"
  shows "heap_ok (s\<lparr>mem := m'\<rparr>)" "live (s\<lparr>mem := m'\<rparr>) = live s"
proof -
  obtain bs where bs: "heap_rep s bs" using assms(1) by (auto simp: heap_ok_def)
  note t = heap_rep_tiled [OF bs]
  have "hdrs m' bs 0 \<longleftrightarrow> hdrs (mem s) bs 0"
  proof (rule hdrs_bytes)
    fix b l v i assume b: "(b, l, v) \<in> set bs" and i: "i < (12 :: nat)"
    have "b + i < 2 ^ 32" using tiled_below [OF t(1) b] t(4) i by linarith
    then show "m' (w32 (b + i)) = mem s (w32 (b + i))" using assms(2) header_unsettled [OF bs b i] by blast
  qed
  then have rep: "heap_rep (s\<lparr>mem := m'\<rparr>) bs" using bs by (simp add: heap_rep_def heap_pre_def Let_def)
  then show "heap_ok (s\<lparr>mem := m'\<rparr>)" "live (s\<lparr>mem := m'\<rparr>) = live s"
    using live_mem [OF bs] by (auto simp: heap_ok_def)
qed

text \<open>Writing into a live block, and copying out of it.\<close>

lemma live_write:
  assumes "heap_ok s" "(unat p, m) \<in> live s" "n \<le> m" "\<And>a. \<not> in_region p n a \<Longrightarrow> m' a = mem s a"
  shows "heap_ok (s\<lparr>mem := m'\<rparr>)" "live (s\<lparr>mem := m'\<rparr>) = live s"
proof -
  have "m' (w32 x) = mem s (w32 x)" if "x < 2 ^ 32" "\<not> settled s x" for x
  proof (rule assms(4))
    show "\<not> in_region p n (w32 x)"
    proof
      assume "in_region p n (w32 x)"
      then have "unat p \<le> x" "x < unat p + m" using that(1) assms(3) by (auto simp: in_region_def unat_w32)
      then show False using live_settled [OF assms(1,2)] that(2) by blast
    qed
  qed
  then show "heap_ok (s\<lparr>mem := m'\<rparr>)" "live (s\<lparr>mem := m'\<rparr>) = live s" using settled_write [OF assms(1)] by blast+
qed

section \<open>Keeping blocks\<close>

text \<open>
  What a client says of a sequence of steps: the blocks \<open>L\<close> stay live with their bytes, and so do all bytes outside
  the heap.
\<close>

definition bytes_of :: "(nat \<times> nat) set \<Rightarrow> nat set" where
  "bytes_of L = {x. \<exists>(p, n) \<in> L. p \<le> x \<and> x < p + n}"

definition keep :: "(nat \<times> nat) set \<Rightarrow> mm_state \<Rightarrow> mm_state \<Rightarrow> bool" where
  "keep L s s' \<longleftrightarrow> heap_ok s' \<and> L \<subseteq> live s' \<and> kh_base (g_kheap s') = kh_base (g_kheap s) \<and>
     kh_capacity (g_kheap s') = kh_capacity (g_kheap s) \<and> g_pmm s' = g_pmm s \<and>
     (\<forall>x < 2 ^ 32. \<not> in_heap s x \<or> x \<in> bytes_of L \<longrightarrow> byte_at s' x = byte_at s x)"

lemma keep_refl: "heap_ok s \<Longrightarrow> L \<subseteq> live s \<Longrightarrow> keep L s s"
  by (simp add: keep_def)

lemma keep_spends: "keep L s s' \<Longrightarrow> live s' \<subseteq> live s \<Longrightarrow> spends c s s'"
  by (rule spends_live) (simp_all add: keep_def)

lemma keep_trans: "keep L s s' \<Longrightarrow> keep L s' s'' \<Longrightarrow> keep L s s''"
  by (simp add: keep_def in_heap_def)

lemma keep_mono: "keep L s s' \<Longrightarrow> M \<subseteq> L \<Longrightarrow> keep M s s'"
  by (fastforce simp: keep_def bytes_of_def)

lemma keep_byte: "keep L s s' \<Longrightarrow> (p, n) \<in> L \<Longrightarrow> p \<le> x \<Longrightarrow> x < p + n \<Longrightarrow> x < 2 ^ 32 \<Longrightarrow> byte_at s' x = byte_at s x"
  by (fastforce simp: keep_def bytes_of_def)

lemma keep_step:
  assumes "heap_step s s'" "heap_ok s" "L \<subseteq> live s" "L \<subseteq> live s'"
  shows "keep L s s'"
proof -
  have "settled s x" if "x < 2 ^ 32" "\<not> in_heap s x \<or> x \<in> bytes_of L" for x
    using that assms(3) by (fastforce simp: settled_def bytes_of_def)
  then show ?thesis using assms by (auto simp: keep_def heap_step_def)
qed

lemma keep_write:
  assumes "heap_ok s" "(unat p, m) \<in> live s" "n \<le> m" "\<And>a. \<not> in_region p n a \<Longrightarrow> m' a = mem s a"
    "L \<subseteq> live s" "(unat p, m) \<notin> L"
  shows "keep L s (s\<lparr>mem := m'\<rparr>)" "live (s\<lparr>mem := m'\<rparr>) = live s"
proof -
  note w = live_write [OF assms(1-4)]
  show "live (s\<lparr>mem := m'\<rparr>) = live s" by (rule w(2))
  have "m' (w32 x) = mem s (w32 x)" if x: "x < 2 ^ 32" "\<not> in_heap s x \<or> x \<in> bytes_of L" for x
  proof (rule assms(4))
    have "\<not> (unat p \<le> x \<and> x < unat p + m)"
    proof
      assume px: "unat p \<le> x \<and> x < unat p + m"
      show False
      proof (cases "in_heap s x")
        case True
        then obtain q l where "(q, l) \<in> L" "q \<le> x" "x < q + l" using x(2) by (auto simp: bytes_of_def)
        then show False using kheap.live_disjoint [OF assms(1,2), of q l] assms(5,6) px by fastforce
      next
        case False
        then show False using live_bounds(1,2) [OF assms(1,2)] px by (simp add: in_heap_def)
      qed
    qed
    then show "\<not> in_region p n (w32 x)" using x(1) assms(3) by (auto simp: in_region_def unat_w32)
  qed
  then show "keep L s (s\<lparr>mem := m'\<rparr>)" using w assms(5) by (simp add: keep_def byte_at_def)
qed

lemma keep_kmalloc:
  assumes "heap_ok s" "sz \<noteq> 0" "unat sz + 8 \<le> 2 ^ 32"
  obtains (full) "kmalloc sz s = Some (Returns (0, s))" "\<not> heap_gap s (unat (round8 sz) + 12)"
  | (block) p m s' where "kmalloc sz s = Some (Returns (p, s'))" "p \<noteq> 0" "unat sz \<le> m" "(unat p, m) \<notin> live s"
      "live s' = insert (unat p, m) (live s)" "keep (live s) s s'" "spends (unat (round8 sz) + 56) s s'"
  using assms
proof (cases rule: kmalloc_client)
  case (block p m s')
  moreover have "keep (live s) s s'" using block by (intro keep_step assms(1)) auto
  ultimately show ?thesis using that(2) by blast
qed (use that in blast)

lemma keep_kfree:
  assumes "heap_ok s" "(unat p, m) \<in> live s"
  obtains s' where "kfree p s = Some (Returns s')" "live s' = live s - {(unat p, m)}" "keep (live s - {(unat p, m)}) s s'"
proof -
  obtain s' where s': "kfree p s = Some (Returns s')" "heap_step s s'" "live s' = live s - {(unat p, m)}"
    by (rule kfree_client [OF assms])
  moreover have "keep (live s - {(unat p, m)}) s s'" using s' by (intro keep_step assms(1)) auto
  ultimately show ?thesis using that by blast
qed

end
