(* ===== verification/Leg_Fs_Steps.thy ===== *)
theory Leg_Fs_Steps
  imports Leg_Fs Leg_Heap_Client
begin

text \<open>
  The steps of mounting in terms of the heap's client view: each allocates, fills, copies or frees one block and
  keeps the others. An image is read through the disk's bytes from the start sector on.
\<close>

section \<open>Images\<close>

definition image_of :: "(nat \<Rightarrow> u8) \<Rightarrow> u32 \<Rightarrow> mem" where
  "image_of dk start = (\<lambda>a. dk (512 * unat start + unat a))"

text \<open>\<open>n\<close> bytes at \<open>a\<close> agree with those at \<open>b\<close> of another memory.\<close>

definition same_bytes :: "nat \<Rightarrow> mem \<Rightarrow> u32 \<Rightarrow> mem \<Rightarrow> u32 \<Rightarrow> bool" where
  "same_bytes n m a m' b \<longleftrightarrow> (\<forall>i < n. m (a + w32 i) = m' (b + w32 i))"

lemma same_bytes_trans: "same_bytes n m a m' b \<Longrightarrow> same_bytes n m' b m'' c \<Longrightarrow> same_bytes n m a m'' c"
  by (simp add: same_bytes_def)

lemma same_bytes_shift: "same_bytes n m a m' b \<Longrightarrow> off + k \<le> n \<Longrightarrow> same_bytes k m (a + w32 off) m' (b + w32 off)"
  unfolding same_bytes_def by (metis (no_types, lifting) add.assoc add_less_cancel_left of_nat_add order_less_le_trans)

lemma same_bytes_rd32: "same_bytes 4 m a m' b \<Longrightarrow> rd32 m a = rd32 m' b"
proof -
  assume s: "same_bytes 4 m a m' b"
  have "m (a + w32 i) = m' (b + w32 i)" if "i < 4" for i using s that by (simp add: same_bytes_def)
  from this [of 0] this [of 1] this [of 2] this [of 3] show ?thesis by (simp add: rd32_def)
qed

lemma same_bytes_rd16: "same_bytes 2 m a m' b \<Longrightarrow> rd16 m a = rd16 m' b"
  by (simp add: same_bytes_def rd16_def numeral_2_eq_2 less_Suc_eq all_conj_distrib imp_disjL)

lemma same_bytes_blob:
  assumes "same_bytes 16 m a m' b"
  shows "blob_at m a = blob_at m' b"
proof -
  note sh = same_bytes_shift [OF assms]
  show ?thesis
    using same_bytes_rd32 [OF sh [of 0 4]] same_bytes_rd32 [OF sh [of 4 4]] same_bytes_rd32 [OF sh [of 8 4]]
      same_bytes_rd16 [OF sh [of 12 2]] same_bytes_rd16 [OF sh [of 14 2]]
    by (simp add: blob_at_def)
qed

lemma names_extent_cong:
  assumes "\<And>i. i < unat count \<Longrightarrow> blob_at m (a + 16 * w32 i) = blob_at m' (b + 16 * w32 i)"
  shows "names_extent m a count = names_extent m' b count"
  unfolding names_extent_def using assms by (intro fold_cong) (auto simp: Let_def)

section \<open>Steps on blocks\<close>

lemma block_addr:
  assumes "heap_ok s" "(unat p, m) \<in> live s" "i \<le> m"
  shows "unat (p + w32 i) = unat p + i"
proof -
  have "unat p + m < 2 ^ 32" using live_bounds(3) [OF assms(1,2)] .
  then show ?thesis using assms(3) unat_add_no_wrap [of p "w32 i"] by (simp add: unat_w32)
qed

lemma keep_same_bytes:
  assumes "keep L s s'" "heap_ok s" "L \<subseteq> live s" "(unat p, m) \<in> L" "n \<le> m"
  shows "same_bytes n (mem s') p (mem s) p"
proof -
  have "mem s' (p + w32 i) = mem s (p + w32 i)" if "i < n" for i
  proof -
    have "unat (p + w32 i) = unat p + i" using assms that by (intro block_addr) auto
    moreover have "unat p + i < 2 ^ 32" using live_bounds(3) [OF assms(2), of "unat p" m] assms that by auto
    ultimately show ?thesis
      using keep_byte [OF assms(1,4), of "unat p + i"] assms(5) that by (simp add: byte_at_def)
  qed
  then show ?thesis by (simp add: same_bytes_def)
qed

text \<open>Copying a part of one block to the front of another.\<close>

lemma copy_client:
  assumes ok: "heap_ok s" and d: "(unat d, md) \<in> live s" and b: "(unat b, mb) \<in> live s" and ne: "(unat d, md) \<noteq> (unat b, mb)"
    and n: "unat len \<le> md" "off + unat len \<le> mb"
  defines "s' \<equiv> s\<lparr>mem := snd (memcpy d (b + w32 off) len (mem s))\<rparr>"
  shows "keep (live s - {(unat d, md)}) s s'" "live s' = live s" "same_bytes (unat len) (mem s') d (mem s) (b + w32 off)"
proof -
  have off: "unat (b + w32 off) = unat b + off" using n(2) by (intro block_addr [OF ok b]) simp
  have lt: "unat d + md < 2 ^ 32" "unat b + mb < 2 ^ 32" using live_bounds(3) [OF ok] d b by auto
  have "unat d + md < unat b \<or> unat b + mb < unat d" using kheap.live_disjoint [OF ok d b] ne by auto
  then have byte: "mem s' a = (if in_region d (unat len) a then mem s (a - d + (b + w32 off)) else mem s a)" for a
    unfolding s'_def using lt n off by (subst memcpy_bytes [symmetric]) auto
  show "keep (live s - {(unat d, md)}) s s'" "live s' = live s"
    unfolding s'_def using byte by (intro keep_write [OF ok d n(1)]; auto simp: s'_def)+
  show "same_bytes (unat len) (mem s') d (mem s) (b + w32 off)"
    unfolding same_bytes_def
  proof (intro allI impI)
    fix i assume i: "i < unat len"
    then have "in_region d (unat len) (d + w32 i)" using block_addr [OF ok d, of i] n(1) by (simp add: in_region_def)
    then show "mem s' (d + w32 i) = mem s (b + w32 off + w32 i)" by (simp add: byte algebra_simps)
  qed
qed

section \<open>Steps of the kernel\<close>

definition fs_ready :: "'d kernel \<Rightarrow> bool" where
  "fs_ready k \<longleftrightarrow> heap_ok (k_mm k) \<and> blk_inv (k_blk k) \<and> KERNEL_VA \<le> kh_base (g_kheap (k_mm k))"

definition fs_step :: "('d \<Rightarrow> nat \<Rightarrow> u8) \<Rightarrow> (nat \<times> nat) set \<Rightarrow> 'd kernel \<Rightarrow> 'd kernel \<Rightarrow> bool" where
  "fs_step disk L k k' \<longleftrightarrow> fs_ready k' \<and> keep L (k_mm k) (k_mm k') \<and> disk (k_dev k') = disk (k_dev k)"

abbreviation klive :: "'d kernel \<Rightarrow> (nat \<times> nat) set" where
  "klive k \<equiv> live (k_mm k)"

lemma fs_step_trans: "fs_step disk L k k' \<Longrightarrow> fs_step disk L k' k'' \<Longrightarrow> fs_step disk L k k''"
  by (auto simp: fs_step_def intro: keep_trans)

lemma fs_step_mono: "fs_step disk L k k' \<Longrightarrow> M \<subseteq> L \<Longrightarrow> fs_step disk M k k'"
  by (auto simp: fs_step_def intro: keep_mono)

lemma fs_step_ready: "fs_step disk L k k' \<Longrightarrow> fs_ready k'"
  by (simp add: fs_step_def)

lemma fs_step_mm:
  "fs_ready k \<Longrightarrow> keep L (k_mm k) s \<Longrightarrow> fs_step disk L k (k\<lparr>k_mm := s\<rparr>)"
  by (simp add: fs_step_def fs_ready_def keep_def)

lemma fs_step_bytes:
  "fs_step disk L k k' \<Longrightarrow> fs_ready k \<Longrightarrow> L \<subseteq> klive k \<Longrightarrow> (unat p, m) \<in> L \<Longrightarrow> n \<le> m \<Longrightarrow> same_bytes n (kmem k') p (kmem k) p"
  unfolding fs_step_def fs_ready_def using keep_same_bytes by blast

text \<open>Two steps from the same state: the second leaves the gaps that the first has left, when it keeps no more blocks.\<close>

lemma fs_step_spends: "fs_step disk L k k1 \<Longrightarrow> fs_step disk M k k' \<Longrightarrow> klive k' \<subseteq> klive k1 \<Longrightarrow> spends c (k_mm k1) (k_mm k')"
  by (rule spends_live) (simp_all add: fs_step_def keep_def)

lemma round8_le: "unat sz + 8 \<le> 2 ^ 32 \<Longrightarrow> unat (round8 sz) \<le> unat sz + 7"
  using unat_round8(3) [of sz] by simp

lemma kmalloc_k:
  assumes "fs_ready k" "sz \<noteq> 0" "unat sz + 8 \<le> 2 ^ 32"
  obtains (full) "on_mm (kmalloc sz) k = done_with 0 k" "\<not> heap_gap (k_mm k) (unat sz + 63)"
  | (block) p m k' where "on_mm (kmalloc sz) k = done_with p k'" "p \<noteq> 0" "unat sz \<le> m" "(unat p, m) \<notin> klive k"
      "klive k' = insert (unat p, m) (klive k)" "fs_step disk (klive k) k k'" "k_fs k' = k_fs k"
      "spends (unat sz + 63) (k_mm k) (k_mm k')"
proof -
  have ok: "heap_ok (k_mm k)" using assms(1) by (simp add: fs_ready_def)
  have r8: "unat (round8 sz) \<le> unat sz + 7" using round8_le [OF assms(3)] .
  show ?thesis
    using ok assms(2,3)
  proof (cases rule: keep_kmalloc)
    case full
    then have "\<not> heap_gap (k_mm k) (unat sz + 63)" using heap_gap_less [of "k_mm k" "unat sz + 63"] r8 by auto
    then show ?thesis using that(1) full(1) by (simp add: on_mm_def)
  next
    case (block p m s')
    then show ?thesis
      using that(2) [of p "k\<lparr>k_mm := s'\<rparr>" m] fs_step_mm [OF assms(1) block(6)] spends_less [OF block(7)] r8 by (simp add: on_mm_def)
  qed
qed

lemma kfree_k:
  assumes "fs_ready k" "(unat p, m) \<in> klive k"
  obtains k' where "on_mm_unit (kfree p) k = Some (Returns k')" "klive k' = klive k - {(unat p, m)}"
    "fs_step disk (klive k - {(unat p, m)}) k k'" "k_fs k' = k_fs k"
proof -
  have ok: "heap_ok (k_mm k)" using assms(1) by (simp add: fs_ready_def)
  obtain s' where s': "kfree p (k_mm k) = Some (Returns s')" "live s' = klive k - {(unat p, m)}"
    "keep (klive k - {(unat p, m)}) (k_mm k) s'" by (rule keep_kfree [OF ok assms(2)])
  then show ?thesis
    using that [of "k\<lparr>k_mm := s'\<rparr>"] fs_step_mm [OF assms(1) s'(3)] by (simp add: on_mm_unit_def)
qed

lemma copy_k:
  assumes "fs_ready k" "(unat d, md) \<in> klive k" "(unat b, mb) \<in> klive k" "(unat d, md) \<noteq> (unat b, mb)"
    "unat len \<le> md" "off + unat len \<le> mb"
  defines "k' \<equiv> set_kmem (snd (memcpy d (b + w32 off) len (kmem k))) k"
  shows "fs_step disk (klive k - {(unat d, md)}) k k'" "klive k' = klive k" "same_bytes (unat len) (kmem k') d (kmem k) (b + w32 off)"
    "k_fs k' = k_fs k"
proof -
  have ok: "heap_ok (k_mm k)" using assms(1) by (simp add: fs_ready_def)
  note c = copy_client [OF ok assms(2-6)]
  show "fs_step disk (klive k - {(unat d, md)}) k k'" using fs_step_mm [OF assms(1) c(1)] by (simp add: k'_def set_kmem_def)
  show "klive k' = klive k" "same_bytes (unat len) (kmem k') d (kmem k) (b + w32 off)" "k_fs k' = k_fs k"
    using c(2,3) by (simp_all add: k'_def)
qed

lemma read_bytes:
  assumes "unat buf + n \<le> 2 ^ 32"
  shows "same_bytes n (disk_to_mem dk (512 * unat start) buf n m) buf (image_of dk start) 0"
  unfolding same_bytes_def
proof (intro allI impI)
  fix i assume i: "i < n"
  then have i32: "i < 2 ^ 32" and "unat buf + i < 2 ^ 32" using assms by linarith+
  then have "unat (buf + w32 i) = unat buf + i" using unat_add_no_wrap [of buf "w32 i"] by (simp add: unat_w32)
  then show "disk_to_mem dk (512 * unat start) buf n m (buf + w32 i) = image_of dk start (0 + w32 i)"
    using i i32 by (simp add: disk_to_mem_def in_region_def image_of_def unat_w32)
qed

text \<open>The device serves every read of up to \<open>n\<close> bytes from sector \<open>start\<close> of the disk \<open>dk\<close>.\<close>

definition reads_ok :: "'d blk_serves \<Rightarrow> ('d \<Rightarrow> nat \<Rightarrow> u8) \<Rightarrow> (nat \<Rightarrow> u8) \<Rightarrow> u32 \<Rightarrow> nat \<Rightarrow> bool" where
  "reads_ok serves disk dk start n \<longleftrightarrow> (\<forall>d m. disk d = dk \<and> m \<le> n \<longrightarrow> serves d VIRTIO_BLK_T_IN (ucast start) m)"

lemma reads_okD: "reads_ok serves disk (disk d) start n \<Longrightarrow> m \<le> n \<Longrightarrow> serves d VIRTIO_BLK_T_IN (ucast start) m"
  by (simp add: reads_ok_def)

lemma read_sectors_k:
  assumes "fs_ready k" "blk_device_ok (kpb P) (symbols P) (device P) disk serves" "KERNEL_VA \<le> buf"
  obtains b d m where "read_sectors P sector count buf k =
      done_with (serves (k_dev k) VIRTIO_BLK_T_IN (ucast sector) (unat (count * 512))) (set_kmem m (k\<lparr>k_blk := b, k_dev := d\<rparr>))"
    "blk_inv b" "disk d = disk (k_dev k)" "\<forall>a. \<not> in_region buf (unat (count * 512)) a \<longrightarrow> m a = kmem k a"
    "serves (k_dev k) VIRTIO_BLK_T_IN (ucast sector) (unat (count * 512)) \<longrightarrow>
       m = disk_to_mem (disk (k_dev k)) (512 * unat sector) buf (unat (count * 512)) (kmem k)"
proof -
  have "blk_inv (k_blk k)" using assms(1) by (simp add: fs_ready_def)
  from blk_read_result [OF this assms(2,3), of "ucast sector" count "k_dev k" "kmem k"]
  obtain b d m where "blk_read (device P) (kpb P) (symbols P) (ucast sector) count buf (k_blk k, k_dev k, kmem k) =
      Some (serves (k_dev k) VIRTIO_BLK_T_IN (ucast sector) (unat (count * 512)), b, d, m)"
    "blk_inv b" "disk d = disk (k_dev k)" "\<forall>a. \<not> in_region buf (unat (count * 512)) a \<longrightarrow> m a = kmem k a"
    "serves (k_dev k) VIRTIO_BLK_T_IN (ucast sector) (unat (count * 512)) \<longrightarrow>
       m = disk_to_mem (disk (k_dev k)) (512 * unat (ucast sector :: u64)) buf (unat (count * 512)) (kmem k)" .
  moreover have "unat sector < 2 ^ 64" using unat_lt_32 [of sector] by (rule order.strict_trans) simp
  then have "unat (ucast sector :: u64) = unat sector" using take_bit_nat_eq_self [of "unat sector" 64] by (simp add: unsigned_ucast_eq)
  ultimately show ?thesis using that by (simp add: read_sectors_def on_blk_def)
qed

text \<open>Reading sectors into a live block.\<close>

lemma read_block_k:
  assumes "fs_ready k" "blk_device_ok (kpb P) (symbols P) (device P) disk serves" "(unat buf, m) \<in> klive k" "unat (count * 512) \<le> m"
  obtains k' where "read_sectors P start count buf k =
      done_with (serves (k_dev k) VIRTIO_BLK_T_IN (ucast start) (unat (count * 512))) k'" "klive k' = klive k"
    "fs_step disk (klive k - {(unat buf, m)}) k k'" "k_fs k' = k_fs k"
    "serves (k_dev k) VIRTIO_BLK_T_IN (ucast start) (unat (count * 512)) \<longrightarrow>
       same_bytes (unat (count * 512)) (kmem k') buf (image_of (disk (k_dev k)) start) 0"
proof -
  let ?ok = "serves (k_dev k) VIRTIO_BLK_T_IN (ucast start) (unat (count * 512))"
  have ok: "heap_ok (k_mm k)" and base: "KERNEL_VA \<le> kh_base (g_kheap (k_mm k))" using assms(1) by (simp_all add: fs_ready_def)
  note lb = live_bounds [OF ok assms(3)]
  have buf: "KERNEL_VA \<le> buf" using base lb(1) by (simp add: word_le_nat_alt)
  obtain b d m' where r: "read_sectors P start count buf k = done_with ?ok (set_kmem m' (k\<lparr>k_blk := b, k_dev := d\<rparr>))"
    "blk_inv b" "disk d = disk (k_dev k)" "\<forall>a. \<not> in_region buf (unat (count * 512)) a \<longrightarrow> m' a = kmem k a"
    "?ok \<longrightarrow> m' = disk_to_mem (disk (k_dev k)) (512 * unat start) buf (unat (count * 512)) (kmem k)"
    by (rule read_sectors_k [OF assms(1,2) buf])
  have kp: "keep (klive k - {(unat buf, m)}) (k_mm k) ((k_mm k)\<lparr>mem := m'\<rparr>)" and lv: "live ((k_mm k)\<lparr>mem := m'\<rparr>) = klive k"
    by (intro keep_write [OF ok assms(3,4)]; use r(4) in auto)+
  have "fs_step disk (klive k - {(unat buf, m)}) k (set_kmem m' (k\<lparr>k_blk := b, k_dev := d\<rparr>))"
    using assms(1) kp r(2,3) by (simp add: fs_step_def fs_ready_def keep_def)
  moreover have "same_bytes (unat (count * 512)) m' buf (image_of (disk (k_dev k)) start) 0" if ?ok
    unfolding r(5) [rule_format, OF that] using lb(3) assms(4) by (intro read_bytes) simp
  ultimately show ?thesis using that [OF r(1)] lv by simp
qed

end
