(* ===== verification/Leg_Fs_Props.thy ===== *)
theory Leg_Fs_Props
  imports Leg_Fs_Steps Leg_Kheap_Theorems
begin

text \<open>
  The properties of the file system: mounting an image brings its descriptors and names into memory, releases
  every temporary buffer, and on failure every block; lookup finds the first blob with the name, and reading
  it fills the buffer with the blob's sectors.
\<close>

section \<open>Mounting\<close>

text \<open>Sizes of an image: end of the descriptors, length of the names; the sizes computed on words do not wrap.\<close>

definition image_fits :: "mem \<Rightarrow> u32 \<Rightarrow> bool" where
  "image_fits img count \<longleftrightarrow> 17 * unat count + unat (names_extent img 8 count) + 2048 \<le> 2 ^ 32"

definition descs_in :: "mem \<Rightarrow> u32 \<Rightarrow> mem \<Rightarrow> u32 \<Rightarrow> bool" where
  "descs_in m blobs img count \<longleftrightarrow> same_bytes (16 * unat count) m blobs img 8"

lemma descs_blob:
  assumes "descs_in m blobs img count" "i < unat count"
  shows "blob_at m (blobs + 16 * w32 i) = blob_at img (8 + 16 * w32 i)"
  using same_bytes_blob [OF same_bytes_shift [OF assms(1) [unfolded descs_in_def], of "16 * i" 16]] assms(2) by simp

lemma descs_extent: "descs_in m blobs img count \<Longrightarrow> names_extent m blobs count = names_extent img 8 count"
  using descs_blob by (intro names_extent_cong) blast

lemma round_sectors:
  fixes n :: u32
  assumes "unat n + 1024 \<le> 2 ^ 32"
  shows "unat n \<le> unat ((n + 511) div 512 * 512)" "unat ((n + 511) div 512 * 512) + 8 \<le> 2 ^ 32"
    "unat ((n + 511) div 512 * 512) \<le> unat n + 511"
proof -
  have a: "unat (n + 511) = unat n + 511" using assms unat_add_no_wrap [of n 511] by simp
  have d: "unat ((n + 511) div 512) = (unat n + 511) div 512" using a by (simp add: unat_div)
  have "(unat n + 511) div 512 * 512 < 2 ^ 32" using assms by linarith
  then have "unat ((n + 511) div 512 * 512) = (unat n + 511) div 512 * 512" by (simp add: unat_word_ariths d)
  then show "unat n \<le> unat ((n + 511) div 512 * 512)" "unat ((n + 511) div 512 * 512) + 8 \<le> 2 ^ 32"
    "unat ((n + 511) div 512 * 512) \<le> unat n + 511"
    using assms by linarith+
qed

text \<open>The last pass. On success one block is new, on failure the descriptor block is released.\<close>

lemma free_and_fail_1:
  assumes "fs_ready k" "(unat p, m) \<in> klive k"
  obtains k' where "free_and_fail [p] k = done_with False k'" "klive k' = klive k - {(unat p, m)}"
    "fs_step disk (klive k - {(unat p, m)}) k k'" "k_fs k' = k_fs k"
proof -
  obtain k' where k': "on_mm_unit (kfree p) k = Some (Returns k')" "klive k' = klive k - {(unat p, m)}"
    "fs_step disk (klive k - {(unat p, m)}) k k'" "k_fs k' = k_fs k" by (rule kfree_k [OF assms])
  moreover have "free_and_fail [p] k = done_with False k'" using k'(1) by (simp add: free_and_fail_def)
  ultimately show ?thesis using that by blast
qed

lemma free_and_fail_2:
  assumes "fs_ready k" "(unat p, m) \<in> klive k" "(unat q, n) \<in> klive k" "(unat p, m) \<noteq> (unat q, n)"
  obtains k' where "free_and_fail [p, q] k = done_with False k'" "klive k' = klive k - {(unat p, m), (unat q, n)}"
    "fs_step disk (klive k - {(unat p, m), (unat q, n)}) k k'" "k_fs k' = k_fs k"
proof -
  obtain k1 where k1: "on_mm_unit (kfree p) k = Some (Returns k1)" "klive k1 = klive k - {(unat p, m)}"
    "fs_step disk (klive k - {(unat p, m)}) k k1" "k_fs k1 = k_fs k" by (rule kfree_k [OF assms(1,2)])
  have q: "(unat q, n) \<in> klive k1" unfolding k1(2) using assms(3,4) by auto
  obtain k2 where k2: "on_mm_unit (kfree q) k1 = Some (Returns k2)" "klive k2 = klive k1 - {(unat q, n)}"
    "fs_step disk (klive k1 - {(unat q, n)}) k1 k2" "k_fs k2 = k_fs k1"
    by (rule kfree_k [OF fs_step_ready [OF k1(3)] q])
  have "klive k1 - {(unat q, n)} = klive k - {(unat p, m), (unat q, n)}" using k1(2) by blast
  then show ?thesis
    using that [of k2] k1 k2 fs_step_trans [OF fs_step_mono [OF k1(3)] k2(3)] by (simp add: free_and_fail_def subset_insertI2 Diff_mono)
qed

text \<open>Storing a field of the file system's state changes nothing else.\<close>

lemma set_fs_simps [simp]:
  "k_mm (set_fs f k) = k_mm k" "k_blk (set_fs f k) = k_blk k" "k_dev (set_fs f k) = k_dev k" "k_fs (set_fs f k) = f (k_fs k)"
  "fs_ready (set_fs f k) \<longleftrightarrow> fs_ready k" "fs_step disk L k (set_fs f k') \<longleftrightarrow> fs_step disk L k k'"
  "fs_step disk L (set_fs f k) k' \<longleftrightarrow> fs_step disk L k k'"
  by (simp_all add: set_fs_def fs_ready_def fs_step_def)

text \<open>Filling a new block from a buffer and releasing the buffer.\<close>

lemma move_block:
  assumes rdy: "fs_ready k" and buf: "(unat b, m) \<in> klive k"
    and blk: "klive k1 = insert (unat p, l) (klive k)" "(unat p, l) \<notin> klive k" "fs_step disk (klive k) k k1"
    and fit: "unat len \<le> l" "off + unat len \<le> m"
  obtains k' where "on_mm_unit (kfree b) (set_kmem (snd (memcpy p (b + w32 off) len (kmem k1))) k1) = Some (Returns k')"
    "klive k' = insert (unat p, l) (klive k - {(unat b, m)})" "fs_step disk (klive k - {(unat b, m)}) k k'"
    "same_bytes (unat len) (kmem k') p (kmem k) (b + w32 off)" "k_fs k' = k_fs k1"
proof -
  define k2 where "k2 = set_kmem (snd (memcpy p (b + w32 off) len (kmem k1))) k1"
  have in1: "(unat p, l) \<in> klive k1" "(unat b, m) \<in> klive k1" "(unat p, l) \<noteq> (unat b, m)" using blk(1,2) buf by auto
  note c = copy_k [OF fs_step_ready [OF blk(3)] in1 fit, folded k2_def]
  have "klive k1 - {(unat p, l)} = klive k" using blk(1,2) by simp
  then have st2: "fs_step disk (klive k) k k2" using blk(3) c(1) by (auto intro: fs_step_trans)
  have live2: "klive k2 = insert (unat p, l) (klive k)" using c(2) blk(1) by simp
  then have b2: "(unat b, m) \<in> klive k2" using buf by simp
  obtain k' where k': "on_mm_unit (kfree b) k2 = Some (Returns k')" "klive k' = klive k2 - {(unat b, m)}"
    "fs_step disk (klive k2 - {(unat b, m)}) k2 k'" "k_fs k' = k_fs k2"
    by (rule kfree_k [OF fs_step_ready [OF st2] b2])
  show thesis
  proof
    show "on_mm_unit (kfree b) (set_kmem (snd (memcpy p (b + w32 off) len (kmem k1))) k1) = Some (Returns k')"
      using k'(1) by (simp add: k2_def)
    show "klive k' = insert (unat p, l) (klive k - {(unat b, m)})" using k'(2) live2 in1(3) by auto
    show "fs_step disk (klive k - {(unat b, m)}) k k'"
      by (rule fs_step_trans [OF fs_step_mono [OF st2] fs_step_mono [OF k'(3)]]) (use live2 in auto)
    have "same_bytes (unat len) (kmem k') p (kmem k2) p"
      using fs_step_bytes [OF k'(3) fs_step_ready [OF st2]] live2 in1(3) fit(1) by auto
    moreover have "same_bytes (unat len) (kmem k1) (b + w32 off) (kmem k) (b + w32 off)"
      using same_bytes_shift [OF fs_step_bytes [OF blk(3) rdy subset_refl buf le_refl] fit(2)] .
    ultimately show "same_bytes (unat len) (kmem k') p (kmem k) (b + w32 off)" using c(3) by (blast intro: same_bytes_trans)
    show "k_fs k' = k_fs k1" using k'(4) c(4) by simp
  qed
qed

text \<open>The two copying steps: a new block with the bytes, and the buffer released; or no new block.\<close>

lemma copy_names_ok:
  fixes disk
  assumes rdy: "fs_ready k" and nb: "(unat nb, m) \<in> klive k" and bl: "(unat (g_blobs (k_fs k)), mb) \<in> klive k"
    and ne: "(unat (g_blobs (k_fs k)), mb) \<noteq> (unat nb, m)"
    and sz: "unat off + unat n \<le> m" "unat n + unat (g_blob_count (k_fs k)) + 8 \<le> 2 ^ 32" "g_blob_count (k_fs k) \<noteq> 0"
  shows "\<exists>b k'. copy_names nb off n k = done_with b k' \<and>
    (\<exists>names. k_fs k' = (k_fs k)\<lparr>g_names := names\<rparr> \<and>
      (if b then \<exists>l. klive k' = insert (unat names, l) (klive k - {(unat nb, m)}) \<and> (unat names, l) \<notin> klive k \<and>
         fs_step disk (klive k - {(unat nb, m)}) k k' \<and> same_bytes (unat n) (kmem k') names (kmem k) (nb + off)
       else \<not> heap_gap (k_mm k) (unat n + unat (g_blob_count (k_fs k)) + 63) \<and>
         klive k' = klive k - {(unat (g_blobs (k_fs k)), mb), (unat nb, m)} \<and>
         fs_step disk (klive k - {(unat (g_blobs (k_fs k)), mb), (unat nb, m)}) k k'))"
proof -
  let ?c = "g_blob_count (k_fs k)"
  have un: "unat (n + ?c) = unat n + unat ?c" using sz(2) unat_add_no_wrap [of n ?c] by simp
  then have n0: "n + ?c \<noteq> 0" using sz(3) by (metis add_is_0 unat_0 unat_eq_zero)
  have un8: "unat (n + ?c) + 8 \<le> 2 ^ 32" using un sz(2) by simp
  show ?thesis
    using rdy n0 un8
  proof (cases rule: kmalloc_k [where disk = disk])
    case full
    let ?k = "set_fs (\<lambda>f. f\<lparr>g_names := 0\<rparr>) k"
    obtain k' where "free_and_fail [g_blobs (k_fs k), nb] ?k = done_with False k'"
      "klive k' = klive ?k - {(unat (g_blobs (k_fs k)), mb), (unat nb, m)}"
      "fs_step disk (klive ?k - {(unat (g_blobs (k_fs k)), mb), (unat nb, m)}) ?k k'" "k_fs k' = k_fs ?k"
      using free_and_fail_2 [of ?k "g_blobs (k_fs k)" mb nb m disk] rdy nb bl ne by auto
    then show ?thesis using full un by (intro exI [of _ False] exI [of _ k'] conjI exI [of _ 0]) (simp_all add: copy_names_def)
  next
    case (block names l k1)
    let ?k1 = "set_fs (\<lambda>f. f\<lparr>g_names := names\<rparr>) k1"
    have fit: "unat n \<le> l" "unat off + unat n \<le> m" using block(3) un sz(1) by simp_all
    obtain k' where "on_mm_unit (kfree nb) (set_kmem (snd (memcpy names (nb + w32 (unat off)) n (kmem ?k1))) ?k1) = Some (Returns k')"
      "klive k' = insert (unat names, l) (klive k - {(unat nb, m)})" "fs_step disk (klive k - {(unat nb, m)}) k k'"
      "same_bytes (unat n) (kmem k') names (kmem k) (nb + w32 (unat off))" "k_fs k' = k_fs ?k1"
      by (rule move_block [OF rdy nb _ block(4) _ fit, where ?k1.0 = ?k1 and disk = disk]) (use block(5,6) in simp_all)
    then show ?thesis
      using block(1,2,4,7) by (intro exI [of _ True] exI [of _ k'] conjI exI [of _ names]) (auto simp: copy_names_def)
  qed
qed

lemma copy_descs_ok:
  fixes disk
  assumes rdy: "fs_ready k" and nb: "(unat db, m) \<in> klive k"
    and sz: "8 + 16 * unat c \<le> m" "16 * unat c + 8 \<le> 2 ^ 32" "c \<noteq> 0"
  shows "\<exists>b k'. copy_descs db c k = done_with b k' \<and>
    (\<exists>blobs. k_fs k' = (k_fs k)\<lparr>g_blobs := blobs\<rparr> \<and>
      (if b then \<exists>l. klive k' = insert (unat blobs, l) (klive k - {(unat db, m)}) \<and> (unat blobs, l) \<notin> klive k \<and> 16 * unat c \<le> l \<and>
         fs_step disk (klive k - {(unat db, m)}) k k' \<and> same_bytes (16 * unat c) (kmem k') blobs (kmem k) (db + 8) \<and>
         spends (16 * unat c + 63) (k_mm k) (k_mm k')
       else \<not> heap_gap (k_mm k) (16 * unat c + 63) \<and> klive k' = klive k - {(unat db, m)} \<and> fs_step disk (klive k - {(unat db, m)}) k k'))"
proof -
  have un: "unat (c * 16) = 16 * unat c" using sz(2) by (simp add: unat_word_ariths)
  then have n0: "c * 16 \<noteq> 0" using sz(3) unat_eq_zero by fastforce
  have un8: "unat (c * 16) + 8 \<le> 2 ^ 32" using un sz(2) by simp
  show ?thesis
    using rdy n0 un8
  proof (cases rule: kmalloc_k [where disk = disk])
    case full
    let ?k = "set_fs (\<lambda>f. f\<lparr>g_blobs := 0\<rparr>) k"
    obtain k' where "free_and_fail [db] ?k = done_with False k'"
      "klive k' = klive ?k - {(unat db, m)}" "fs_step disk (klive ?k - {(unat db, m)}) ?k k'" "k_fs k' = k_fs ?k"
      using free_and_fail_1 [of ?k db m disk] rdy nb by auto
    then show ?thesis using full un by (intro exI [of _ False] exI [of _ k'] conjI exI [of _ 0]) (simp_all add: copy_descs_def)
  next
    case (block blobs l k1)
    let ?k1 = "set_fs (\<lambda>f. f\<lparr>g_blobs := blobs\<rparr>) k1"
    have fit: "unat (c * 16) \<le> l" "8 + unat (c * 16) \<le> m" using block(3) un sz(1) by simp_all
    have w8: "w32 8 = 8" by simp
    obtain k' where k': "on_mm_unit (kfree db) (set_kmem (snd (memcpy blobs (db + 8) (c * 16) (kmem ?k1))) ?k1) = Some (Returns k')"
      "klive k' = insert (unat blobs, l) (klive k - {(unat db, m)})" "fs_step disk (klive k - {(unat db, m)}) k k'"
      "same_bytes (unat (c * 16)) (kmem k') blobs (kmem k) (db + 8)" "k_fs k' = k_fs ?k1"
      by (rule move_block [OF rdy nb _ block(4) _ fit, where ?k1.0 = ?k1 and disk = disk, unfolded w8]) (use block(5,6) in simp_all)
    moreover have "spends 0 (k_mm k1) (k_mm k')" by (rule fs_step_spends [OF block(6) k'(3)]) (use k'(2) block(5) in auto)
    then have "spends (16 * unat c + 63) (k_mm k) (k_mm k')" using spends_trans [OF block(8), of 0] un by simp
    ultimately show ?thesis
      using block(1,2,4,7) fit(1) un by (intro exI [of _ True] exI [of _ k'] conjI exI [of _ blobs]) (auto simp: copy_descs_def)
  qed
qed

text \<open>
  The two passes. They fail only when the device does not serve a read of the first \<open>16 * c + n + 519\<close> bytes, or for want
  of memory: all blocks, with their headers and the rounding to sectors, together take less than \<open>49 * c + 2 * n + 1290\<close> bytes.
\<close>

lemma mount_names_ok:
  fixes disk
  assumes rdy: "fs_ready k" and dev: "blk_device_ok (kpb P) (symbols P) (device P) disk serves"
    and cnt: "g_blob_count (k_fs k) = c" "c \<noteq> 0" "image_fits img c"
    and img: "img = image_of (disk (k_dev k)) start"
    and bl: "g_blobs (k_fs k) = blobs" "(unat blobs, mb) \<in> klive k" "descs_in (kmem k) blobs img c"
  shows "\<exists>b k'. mount_names P start (8 + c * 16) k = done_with b k' \<and>
    (\<exists>names. k_fs k' = (k_fs k)\<lparr>g_names := names\<rparr> \<and>
      (if b then \<exists>l. klive k' = insert (unat names, l) (klive k) \<and> fs_step disk (klive k) k k' \<and>
         same_bytes (unat (names_extent img 8 c)) (kmem k') names img (8 + 16 * c)
       else klive k' = klive k - {(unat blobs, mb)} \<and> fs_step disk (klive k - {(unat blobs, mb)}) k k' \<and>
         \<not> (reads_ok serves disk (disk (k_dev k)) start (16 * unat c + unat (names_extent img 8 c) + 519) \<and>
            heap_gap (k_mm k) (17 * unat c + 2 * unat (names_extent img 8 c) + 645))))"
proof -
  define n where "n = names_extent img 8 c"
  define e where "e = 8 + c * 16 + n"
  define secs where "secs = (e + 511) div 512"
  have fits: "17 * unat c + unat n + 2048 \<le> 2 ^ 32" using cnt(3) by (simp add: image_fits_def n_def)
  have c16: "unat (8 + c * 16) = 8 + 16 * unat c" using fits by (simp add: unat_word_ariths)
  have ue: "unat e = 8 + 16 * unat c + unat n" using fits c16 unat_add_no_wrap [of "8 + c * 16" n] by (simp add: e_def)
  have e32: "unat e + 1024 \<le> 2 ^ 32" using fits ue by linarith
  note sz = round_sectors [OF e32, folded secs_def]
  then have sz0: "secs * 512 \<noteq> 0" using ue by auto
  note s519 = sz(3) [unfolded ue]
  have ext: "names_extent (kmem k) blobs c = n" unfolding n_def by (rule descs_extent [OF bl(3)])
  have unf: "mount_names P start (8 + c * 16) k = bind_out (on_mm (kmalloc (secs * 512)) k) (\<lambda>(name_buf, k).
      if name_buf = 0 then free_and_fail [g_blobs (k_fs k)] k
      else bind_out (read_sectors P start secs name_buf k) (\<lambda>(ok, k).
        if \<not> ok then free_and_fail [g_blobs (k_fs k), name_buf] k else copy_names name_buf (8 + c * 16) n k))"
    unfolding mount_names_def Let_def bl(1) cnt(1) ext e_def [symmetric] secs_def [symmetric] by (rule refl)
  show ?thesis
    using rdy sz0 sz(2)
  proof (cases rule: kmalloc_k [where disk = disk])
    case full
    obtain k' where "free_and_fail [blobs] k = done_with False k'" "klive k' = klive k - {(unat blobs, mb)}"
      "fs_step disk (klive k - {(unat blobs, mb)}) k k'" "k_fs k' = k_fs k" by (rule free_and_fail_1 [OF rdy bl(2)])
    moreover have "\<not> heap_gap (k_mm k) (17 * unat c + 2 * unat n + 645)"
      using full(2) heap_gap_less [of "k_mm k" "17 * unat c + 2 * unat n + 645" "unat (secs * 512) + 63"] s519 by auto
    ultimately show ?thesis using full(1) bl(1)
      by (intro exI [of _ False] exI [of _ k'] conjI exI [of _ "g_names (k_fs k)"]) (simp_all add: unf n_def)
  next
    case (block nb m k1)
    have nb: "(unat nb, m) \<in> klive k1" using block(5) by simp
    let ?ok = "serves (k_dev k1) VIRTIO_BLK_T_IN (ucast start) (unat (secs * 512))"
    obtain k2 where k2: "read_sectors P start secs nb k1 = done_with ?ok k2" "klive k2 = klive k1"
      "fs_step disk (klive k1 - {(unat nb, m)}) k1 k2" "k_fs k2 = k_fs k1"
      "?ok \<longrightarrow> same_bytes (unat (secs * 512)) (kmem k2) nb (image_of (disk (k_dev k1)) start) 0"
      by (rule read_block_k [OF fs_step_ready [OF block(6)] dev nb block(3)])
    have L: "klive k1 - {(unat nb, m)} = klive k" using block(4,5) by simp
    have st2: "fs_step disk (klive k) k k2" using fs_step_trans [OF block(6) k2(3) [unfolded L]] .
    have fs2: "k_fs k2 = k_fs k" using block(7) k2(4) by simp
    have eq: "mount_names P start (8 + c * 16) k =
        (if ?ok then copy_names nb (8 + c * 16) n k2 else free_and_fail [g_blobs (k_fs k2), nb] k2)"
      using block(1,2) k2(1) by (simp add: unf)
    have live2: "(unat nb, m) \<in> klive k2" "(unat (g_blobs (k_fs k2)), mb) \<in> klive k2"
      using nb k2(2) bl(1,2) block(5) fs2 by auto
    have ne2: "(unat (g_blobs (k_fs k2)), mb) \<noteq> (unat nb, m)" using bl(1,2) block(4) fs2 by auto
    have fit: "unat (8 + c * 16) + unat n \<le> m" "unat n + unat (g_blob_count (k_fs k2)) + 8 \<le> 2 ^ 32" "g_blob_count (k_fs k2) \<noteq> 0"
      using ue c16 sz(1) block(3) fits cnt(1,2) fs2 by simp_all
    have L2: "klive k2 - {(unat nb, m)} = klive k" and L3: "klive k2 - {(unat blobs, mb), (unat nb, m)} = klive k - {(unat blobs, mb)}"
      using k2(2) block(4,5) by auto
    have blobs2: "g_blobs (k_fs k2) = blobs" using fs2 bl(1) by simp
    show ?thesis
    proof (cases ?ok)
      case False
      obtain k' where k': "free_and_fail [g_blobs (k_fs k2), nb] k2 = done_with False k'"
        "klive k' = klive k2 - {(unat (g_blobs (k_fs k2)), mb), (unat nb, m)}"
        "fs_step disk (klive k2 - {(unat (g_blobs (k_fs k2)), mb), (unat nb, m)}) k2 k'" "k_fs k' = k_fs k2"
        by (rule free_and_fail_2 [OF fs_step_ready [OF st2] live2(2,1) ne2])
      have "disk (k_dev k1) = disk (k_dev k)" using block(6) by (simp add: fs_step_def)
      then have "\<not> reads_ok serves disk (disk (k_dev k)) start (16 * unat c + unat n + 519)"
        using False reads_okD [of serves disk "k_dev k1" start "16 * unat c + unat n + 519" "unat (secs * 512)"] s519 by auto
      then show ?thesis
        using k'(1) k'(2,3) [unfolded blobs2 L3] k'(4) st2 fs2 eq False
        by (intro exI [of _ False] exI [of _ k'] conjI exI [of _ "g_names (k_fs k)"])
          (auto simp: n_def intro: fs_step_trans fs_step_mono)
    next
      case True
      obtain b k' names where k': "copy_names nb (8 + c * 16) n k2 = done_with b k'" "k_fs k' = (k_fs k2)\<lparr>g_names := names\<rparr>"
        "if b then \<exists>l. klive k' = insert (unat names, l) (klive k) \<and> (unat names, l) \<notin> klive k2 \<and>
           fs_step disk (klive k) k2 k' \<and> same_bytes (unat n) (kmem k') names (kmem k2) (nb + (8 + c * 16))
         else \<not> heap_gap (k_mm k2) (unat n + unat (g_blob_count (k_fs k2)) + 63) \<and>
           klive k' = klive k - {(unat blobs, mb)} \<and> fs_step disk (klive k - {(unat blobs, mb)}) k2 k'"
        using copy_names_ok [OF fs_step_ready [OF st2] live2 ne2 fit, of disk] unfolding blobs2 L2 L3 by blast
      have "same_bytes (unat n) (kmem k2) (nb + (8 + c * 16)) img (8 + 16 * c)"
        using same_bytes_shift [OF k2(5) [rule_format, OF True], of "unat (8 + c * 16)" "unat n"] sz(1) ue c16 block(6)
        by (simp add: img fs_step_def mult.commute)
      moreover have "\<not> heap_gap (k_mm k) (17 * unat c + 2 * unat n + 645)" if "\<not> heap_gap (k_mm k2) (unat n + unat c + 63)"
      proof
        assume "heap_gap (k_mm k) (17 * unat c + 2 * unat n + 645)"
        then have "heap_gap (k_mm k) (unat n + unat c + 63 + (unat (secs * 512) + 63))" by (rule heap_gap_less) (use s519 in simp)
        then have "heap_gap (k_mm k1) (unat n + unat c + 63)" by (rule spends_gap [OF block(8)])
        moreover have "spends 0 (k_mm k1) (k_mm k2)" by (rule fs_step_spends [OF block(6) st2]) (use k2(2) in simp)
        ultimately show False using that spends_gap [of 0] by simp
      qed
      moreover have "g_blob_count (k_fs k2) = c" using fs2 cnt(1) by simp
      ultimately show ?thesis
        using k' st2 fs2 eq True same_bytes_trans
        by (intro exI [of _ b] exI [of _ k'] conjI exI [of _ names]) (auto simp: n_def split: if_splits intro: fs_step_trans fs_step_mono)
    qed
  qed
qed

lemma mount_descs_ok:
  fixes disk
  assumes rdy: "fs_ready k" and dev: "blk_device_ok (kpb P) (symbols P) (device P) disk serves"
    and cnt: "g_blob_count (k_fs k) = c" "c \<noteq> 0" "image_fits img c"
    and img: "img = image_of (disk (k_dev k)) start"
  shows "\<exists>b k'. mount_descs P start k = done_with b k' \<and> fs_step disk (klive k) k k' \<and>
    g_start_sector (k_fs k') = g_start_sector (k_fs k) \<and> g_blob_count (k_fs k') = c \<and>
    (if b then \<exists>l l'. klive k' = insert (unat (g_names (k_fs k')), l') (insert (unat (g_blobs (k_fs k')), l) (klive k)) \<and>
         descs_in (kmem k') (g_blobs (k_fs k')) img c \<and>
         same_bytes (unat (names_extent img 8 c)) (kmem k') (g_names (k_fs k')) img (8 + 16 * c)
     else klive k' = klive k \<and>
       \<not> (reads_ok serves disk (disk (k_dev k)) start (16 * unat c + unat (names_extent img 8 c) + 519) \<and>
          heap_gap (k_mm k) (49 * unat c + 2 * unat (names_extent img 8 c) + 1290)))"
proof -
  let ?n = "names_extent img 8 c"
  define e where "e = 8 + c * 16"
  define secs where "secs = (e + 511) div 512"
  have fits: "17 * unat c + 2048 \<le> 2 ^ 32" using cnt(3) by (simp add: image_fits_def)
  have ue: "unat e = 8 + 16 * unat c" using fits by (simp add: unat_word_ariths e_def)
  have e32: "unat e + 1024 \<le> 2 ^ 32" using fits ue by linarith
  note sz = round_sectors [OF e32, folded secs_def]
  then have sz0: "secs * 512 \<noteq> 0" using ue by auto
  note s519 = sz(3) [unfolded ue]
  have unf: "mount_descs P start k = bind_out (on_mm (kmalloc (secs * 512)) k) (\<lambda>(desc_buf, k).
      if desc_buf = 0 then done_with False k
      else bind_out (read_sectors P start secs desc_buf k) (\<lambda>(ok, k).
        if \<not> ok then free_and_fail [desc_buf] k
        else bind_out (copy_descs desc_buf c k) (\<lambda>(ok, k). if \<not> ok then done_with False k else mount_names P start e k)))"
    unfolding mount_descs_def Let_def cnt(1) e_def [symmetric] secs_def [symmetric] by (rule refl)
  show ?thesis
    using rdy sz0 sz(2)
  proof (cases rule: kmalloc_k [where disk = disk])
    case full
    have "fs_step disk (klive k) k k" using rdy keep_refl [of "k_mm k" "klive k"] by (simp add: fs_step_def fs_ready_def)
    moreover have "\<not> heap_gap (k_mm k) (49 * unat c + 2 * unat ?n + 1290)"
      using full(2) heap_gap_less [of "k_mm k" "49 * unat c + 2 * unat ?n + 1290" "unat (secs * 512) + 63"] s519 by auto
    ultimately show ?thesis using full(1) cnt(1) by (intro exI [of _ False] exI [of _ k]) (simp add: unf)
  next
    case (block db m k1)
    have db: "(unat db, m) \<in> klive k1" using block(5) by simp
    let ?ok = "serves (k_dev k1) VIRTIO_BLK_T_IN (ucast start) (unat (secs * 512))"
    obtain k2 where k2: "read_sectors P start secs db k1 = done_with ?ok k2" "klive k2 = klive k1"
      "fs_step disk (klive k1 - {(unat db, m)}) k1 k2" "k_fs k2 = k_fs k1"
      "?ok \<longrightarrow> same_bytes (unat (secs * 512)) (kmem k2) db (image_of (disk (k_dev k1)) start) 0"
      by (rule read_block_k [OF fs_step_ready [OF block(6)] dev db block(3)])
    have L: "klive k1 - {(unat db, m)} = klive k" using block(4,5) by simp
    have st2: "fs_step disk (klive k) k k2" using fs_step_trans [OF block(6) k2(3) [unfolded L]] .
    have fs2: "k_fs k2 = k_fs k" using block(7) k2(4) by simp
    have live2: "(unat db, m) \<in> klive k2" and L2: "klive k2 - {(unat db, m)} = klive k" using db k2(2) L by auto
    have fit: "8 + 16 * unat c \<le> m" "16 * unat c + 8 \<le> 2 ^ 32" using ue sz(1) block(3) fits by simp_all
    have sp2: "spends (unat (secs * 512) + 63) (k_mm k) (k_mm k2)"
    proof -
      have "spends 0 (k_mm k1) (k_mm k2)" by (rule fs_step_spends [OF block(6) st2]) (use k2(2) in simp)
      then show ?thesis using spends_trans [OF block(8), of 0] by simp
    qed
    show ?thesis
    proof (cases ?ok)
      case False
      obtain k' where k': "free_and_fail [db] k2 = done_with False k'" "klive k' = klive k2 - {(unat db, m)}"
        "fs_step disk (klive k2 - {(unat db, m)}) k2 k'" "k_fs k' = k_fs k2"
        by (rule free_and_fail_1 [OF fs_step_ready [OF st2] live2])
      have "disk (k_dev k1) = disk (k_dev k)" using block(6) by (simp add: fs_step_def)
      then have "\<not> reads_ok serves disk (disk (k_dev k)) start (16 * unat c + unat ?n + 519)"
        using False reads_okD [of serves disk "k_dev k1" start "16 * unat c + unat ?n + 519" "unat (secs * 512)"] s519 by auto
      moreover have "mount_descs P start k = done_with False k'" using block(1,2) k2(1) k'(1) False by (simp add: unf)
      moreover have "fs_step disk (klive k) k k'" by (rule fs_step_trans [OF st2 k'(3) [unfolded L2]])
      ultimately show ?thesis using k'(2,4) fs2 cnt(1) L2 by (intro exI [of _ False] exI [of _ k']) simp
    next
      case ok: True
      obtain b k3 blobs where k3: "copy_descs db c k2 = done_with b k3" "k_fs k3 = (k_fs k2)\<lparr>g_blobs := blobs\<rparr>"
        "if b then \<exists>l. klive k3 = insert (unat blobs, l) (klive k) \<and> (unat blobs, l) \<notin> klive k2 \<and> 16 * unat c \<le> l \<and>
           fs_step disk (klive k) k2 k3 \<and> same_bytes (16 * unat c) (kmem k3) blobs (kmem k2) (db + 8) \<and>
           spends (16 * unat c + 63) (k_mm k2) (k_mm k3)
         else \<not> heap_gap (k_mm k2) (16 * unat c + 63) \<and> klive k3 = klive k \<and> fs_step disk (klive k) k2 k3"
        using copy_descs_ok [OF fs_step_ready [OF st2] live2 fit cnt(2), of disk] unfolding L2 by blast
      have eq: "mount_descs P start k = (if \<not> b then done_with False k3 else mount_names P start e k3)"
        using block(1,2) k2(1) k3(1) ok by (simp add: unf)
      have st3: "fs_step disk (klive k) k k3" using k3(3) fs_step_trans [OF st2] by (auto split: if_splits)
      have gap2: "heap_gap (k_mm k2) (33 * unat c + 2 * unat ?n + 708)" if "heap_gap (k_mm k) (49 * unat c + 2 * unat ?n + 1290)"
        by (rule spends_gap [OF sp2 heap_gap_less [OF that]]) (use s519 in simp)
      show ?thesis
      proof (cases b)
        case False
        then have "\<not> heap_gap (k_mm k) (49 * unat c + 2 * unat ?n + 1290)"
          using k3(3) gap2 heap_gap_less [of "k_mm k2" "33 * unat c + 2 * unat ?n + 708" "16 * unat c + 63"] by auto
        then show ?thesis using False eq k3 st3 fs2 cnt(1) by (intro exI [of _ False] exI [of _ k3]) simp
      next
        case True
        then obtain l where l: "klive k3 = insert (unat blobs, l) (klive k)" "(unat blobs, l) \<notin> klive k" "16 * unat c \<le> l"
          "same_bytes (16 * unat c) (kmem k3) blobs (kmem k2) (db + 8)" "spends (16 * unat c + 63) (k_mm k2) (k_mm k3)"
          using k3(3) k2(2) block(5) by auto
        have "same_bytes (16 * unat c) (kmem k2) (db + 8) img 8"
          using same_bytes_shift [OF k2(5) [rule_format, OF ok], of 8 "16 * unat c"] sz(1) ue block(6) by (simp add: img fs_step_def)
        then have descs: "descs_in (kmem k3) blobs img c" using l(4) unfolding descs_in_def by (blast intro: same_bytes_trans)
        have img3: "img = image_of (disk (k_dev k3)) start" and disk3: "disk (k_dev k3) = disk (k_dev k)"
          using st3 img by (simp_all add: fs_step_def)
        have cnt3: "g_blob_count (k_fs k3) = c" and bl3: "g_blobs (k_fs k3) = blobs" "(unat blobs, l) \<in> klive k3"
          using k3(2) fs2 cnt(1) l(1) by simp_all
        obtain b' k' names where k': "mount_names P start e k3 = done_with b' k'" "k_fs k' = (k_fs k3)\<lparr>g_names := names\<rparr>"
          "if b' then \<exists>l. klive k' = insert (unat names, l) (klive k3) \<and> fs_step disk (klive k3) k3 k' \<and>
             same_bytes (unat ?n) (kmem k') names img (8 + 16 * c)
           else klive k' = klive k3 - {(unat blobs, l)} \<and> fs_step disk (klive k3 - {(unat blobs, l)}) k3 k' \<and>
             \<not> (reads_ok serves disk (disk (k_dev k3)) start (16 * unat c + unat ?n + 519) \<and>
                heap_gap (k_mm k3) (17 * unat c + 2 * unat ?n + 645))"
          using mount_names_ok [OF fs_step_ready [OF st3] dev cnt3 cnt(2,3) img3 bl3 descs] unfolding e_def by blast
        have st4: "fs_step disk (klive k) k3 k'"
          using k'(3) l(1,2) by (auto split: if_splits elim: fs_step_mono)
        have "descs_in (kmem k') blobs img c" if b'
        proof -
          have "same_bytes (16 * unat c) (kmem k') blobs (kmem k3) blobs"
            using k'(3) that fs_step_bytes [OF _ fs_step_ready [OF st3] subset_refl bl3(2) l(3)] by auto
          then show ?thesis using descs unfolding descs_in_def by (blast intro: same_bytes_trans)
        qed
        moreover have "heap_gap (k_mm k3) (17 * unat c + 2 * unat ?n + 645)" if "heap_gap (k_mm k) (49 * unat c + 2 * unat ?n + 1290)"
          by (rule spends_gap [OF l(5) heap_gap_less [OF gap2 [OF that]]]) simp
        ultimately show ?thesis
          using eq True k' l(1,2) fs_step_trans [OF st3 st4] fs2 k3(2) cnt(1) disk3
          by (intro exI [of _ b'] exI [of _ k']) (auto split: if_splits)
      qed
    qed
  qed
qed

text \<open>The header is read into the buffer on the stack, which lies outside the heap.\<close>

lemma read_header_k:
  fixes start :: u32
  assumes rdy: "fs_ready k" and dev: "blk_device_ok (kpb P) (symbols P) (device P) disk serves" and hdr: "KERNEL_VA \<le> hdr" "unat hdr + 512 \<le> 2 ^ 32"
    and out: "\<And>x. in_heap (k_mm k) x \<Longrightarrow> \<not> in_region hdr 512 (w32 x)"
  defines "ok \<equiv> serves (k_dev k) VIRTIO_BLK_T_IN (ucast start) 512"
  obtains k' where "read_sectors P start 1 hdr k = done_with ok k'" "fs_ready k'" "disk (k_dev k') = disk (k_dev k)"
    "klive k' = klive k" "k_fs k' = k_fs k" "ok \<longrightarrow> same_bytes 512 (kmem k') hdr (image_of (disk (k_dev k)) start) 0"
    "\<forall>x \<in> bytes_of (klive k). byte_at (k_mm k') x = byte_at (k_mm k) x" "spends 0 (k_mm k) (k_mm k')"
proof -
  have heap: "heap_ok (k_mm k)" using rdy by (simp add: fs_ready_def)
  have one: "unat (1 * 512 :: u32) = 512" by simp
  obtain b d m where r: "read_sectors P start 1 hdr k = done_with ok (set_kmem m (k\<lparr>k_blk := b, k_dev := d\<rparr>))"
    "blk_inv b" "disk d = disk (k_dev k)" "\<forall>a. \<not> in_region hdr 512 a \<longrightarrow> m a = kmem k a"
    "ok \<longrightarrow> m = disk_to_mem (disk (k_dev k)) (512 * unat start) hdr 512 (kmem k)"
    by (rule read_sectors_k [OF rdy dev hdr(1), where sector = start and count = 1, unfolded one, folded ok_def])
  let ?k = "set_kmem m (k\<lparr>k_blk := b, k_dev := d\<rparr>)"
  have lb: "x < 2 ^ 32 \<and> in_heap (k_mm k) x" if "x \<in> bytes_of (klive k)" for x
    using that live_bounds [OF heap] by (fastforce simp: bytes_of_def in_heap_def)
  have w: "heap_ok ((k_mm k)\<lparr>mem := m\<rparr>)" "live ((k_mm k)\<lparr>mem := m\<rparr>) = klive k"
    using out r(4) by (intro settled_write [OF heap]; auto simp: settled_def)+
  show thesis
  proof (rule that [OF r(1)])
    show "\<forall>x \<in> bytes_of (klive k). byte_at (k_mm ?k) x = byte_at (k_mm k) x" using lb out r(4) by (simp add: byte_at_def)
    show "ok \<longrightarrow> same_bytes 512 (kmem ?k) hdr (image_of (disk (k_dev k)) start) 0" using read_bytes [OF hdr(2)] r(5) by auto
    show "spends 0 (k_mm k) (k_mm ?k)" by (rule spends_live) (simp_all add: w(2))
  qed (use r(2,3) w rdy in \<open>simp_all add: fs_ready_def in_heap_def\<close>)
qed

text \<open>What a mounted image looks like in memory: its descriptors and its names, each in a block.\<close>

definition mounted :: "'d kernel \<Rightarrow> mem \<Rightarrow> bool" where
  "mounted k img \<longleftrightarrow>
     (let c = g_blob_count (k_fs k)
      in c = rd32 img 4 \<and> (c \<noteq> 0 \<longrightarrow>
           descs_in (kmem k) (g_blobs (k_fs k)) img c \<and>
           same_bytes (unat (names_extent img 8 c)) (kmem k) (g_names (k_fs k)) img (8 + 16 * c)))"

text \<open>C10: on every device that follows the virtio specification \<open>fs_mount\<close> ends without a panic, also when the device fails a
  read. It returns true exactly for the images with the right magic, as long as the device serves the reads of the image's
  head and the heap has room for the tables. When it returns true the image is mounted: the start sector is stored and the
  descriptors and the names of the image lie in two new blocks, the only change of the heap. When it returns false (wrong
  magic, failed read, no memory) every block it took is released. In both cases the contents of the blocks that were live
  before are kept. The count of blobs is that of the header, once it is read, even when mounting fails later.\<close>

theorem fs_mount_correct:
  fixes disk
  assumes "fs_ready k" "blk_device_ok (kpb P) (symbols P) (device P) disk serves"
    and "KERNEL_VA \<le> local_buf P" "unat (local_buf P) + 512 \<le> 2 ^ 32"
    and "\<And>x. in_heap (k_mm k) x \<Longrightarrow> \<not> in_region (local_buf P) 512 (w32 x)"
    and "img = image_of (disk (k_dev k)) start" "rd32 img 0 = FS_MAGIC \<Longrightarrow> image_fits img (rd32 img 4)"
    and "c = unat (rd32 img 4)" "n = unat (names_extent img 8 (rd32 img 4))"
  shows "\<exists>b k'. fs_mount P start k = done_with b k' \<and> fs_ready k' \<and> disk (k_dev k') = disk (k_dev k) \<and>
    (reads_ok serves disk (disk (k_dev k)) start (16 * c + n + 519) \<and> heap_gap (k_mm k) (49 * c + 2 * n + 1290) \<longrightarrow>
       b = (rd32 img 0 = FS_MAGIC)) \<and>
    (\<forall>x \<in> bytes_of (klive k). byte_at (k_mm k') x = byte_at (k_mm k) x) \<and>
    g_blob_count (k_fs k') = (if rd32 img 0 = FS_MAGIC \<and> serves (k_dev k) VIRTIO_BLK_T_IN (ucast start) 512 then rd32 img 4 else 0) \<and>
    (if b then rd32 img 0 = FS_MAGIC \<and> g_start_sector (k_fs k') = start \<and> mounted k' img \<and>
         (if rd32 img 4 = 0 then klive k' = klive k
          else \<exists>l l'. klive k' = insert (unat (g_names (k_fs k')), l') (insert (unat (g_blobs (k_fs k')), l) (klive k)))
     else klive k' = klive k)"
proof -
  define k0 where "k0 = set_fs (\<lambda>f. f\<lparr>g_blob_count := 0, g_blobs := 0, g_names := 0\<rparr>) k"
  let ?ok = "serves (k_dev k) VIRTIO_BLK_T_IN (ucast start) 512"
  have rdy0: "fs_ready k0" "k_mm k0 = k_mm k" "k_dev k0 = k_dev k" using assms(1) by (simp_all add: k0_def)
  have out: "\<And>x. in_heap (k_mm k0) x \<Longrightarrow> \<not> in_region (local_buf P) 512 (w32 x)" using assms(5) rdy0(2) by simp
  obtain k1 where k1: "read_sectors P start 1 (local_buf P) k0 = done_with ?ok k1" "fs_ready k1" "disk (k_dev k1) = disk (k_dev k0)"
    "klive k1 = klive k0" "k_fs k1 = k_fs k0" "?ok \<longrightarrow> same_bytes 512 (kmem k1) (local_buf P) (image_of (disk (k_dev k0)) start) 0"
    "\<forall>x \<in> bytes_of (klive k0). byte_at (k_mm k1) x = byte_at (k_mm k0) x" "spends 0 (k_mm k0) (k_mm k1)"
    unfolding rdy0(3) [symmetric] by (rule read_header_k [OF rdy0(1) assms(2-4) out, of start])
  have kept1: "byte_at (k_mm k1) x = byte_at (k_mm k) x" if "x \<in> bytes_of (klive k)" for x
    using k1(7) that rdy0(2) by simp
  show ?thesis
  proof (cases ?ok)
    case False
    then have "fs_mount P start k = done_with False k1" using k1(1) by (simp add: fs_mount_def Let_def k0_def [symmetric])
    moreover have "\<not> reads_ok serves disk (disk (k_dev k)) start (16 * c + n + 519)"
      using False reads_okD [of serves disk "k_dev k" start "16 * c + n + 519" 512] by auto
    ultimately show ?thesis using False k1(2-5) kept1 rdy0(2,3) by (intro exI [of _ False] exI [of _ k1]) (simp add: k0_def)
  next
    case ok: True
    have sb: "same_bytes 512 (kmem k1) (local_buf P) img 0" using k1(6) ok rdy0(3) assms(6) by simp
    have magic: "rd32 (kmem k1) (local_buf P) = rd32 img 0" "rd32 (kmem k1) (local_buf P + 4) = rd32 img 4"
      using same_bytes_rd32 [OF same_bytes_shift [OF sb, of 0 4]] same_bytes_rd32 [OF same_bytes_shift [OF sb, of 4 4]] by simp_all
    define k2 where "k2 = set_fs (\<lambda>f. f\<lparr>g_start_sector := start, g_blob_count := rd32 img 4\<rparr>) k1"
    have eq: "fs_mount P start k = (if rd32 img 0 \<noteq> FS_MAGIC then done_with False k1
        else if rd32 img 4 = 0 then done_with True k2 else mount_descs P start k2)"
      using k1(1) ok by (simp add: fs_mount_def Let_def k0_def [symmetric] magic k2_def)
    consider "rd32 img 0 \<noteq> FS_MAGIC" | "rd32 img 0 = FS_MAGIC" "rd32 img 4 = 0" | "rd32 img 0 = FS_MAGIC" "rd32 img 4 \<noteq> 0" by blast
    then show ?thesis
    proof cases
      case 1
      then show ?thesis using eq k1(2-5) kept1 rdy0(2,3) by (intro exI [of _ False] exI [of _ k1]) (simp add: k0_def)
    next
      case 2
      then show ?thesis using eq k1(2-5) kept1 rdy0(2,3) ok
        by (intro exI [of _ True] exI [of _ k2]) (simp add: k2_def mounted_def)
    next
      case 3
      have rdy2: "fs_ready k2" and img2: "img = image_of (disk (k_dev k2)) start" and cnt2: "g_blob_count (k_fs k2) = rd32 img 4"
        and mm2: "k_mm k2 = k_mm k1" and disk2: "disk (k_dev k2) = disk (k_dev k)"
        using k1(2,3) rdy0(3) assms(6) by (simp_all add: k2_def)
      obtain b k' where k': "mount_descs P start k2 = done_with b k'" "fs_step disk (klive k2) k2 k'"
        "g_start_sector (k_fs k') = g_start_sector (k_fs k2)" "g_blob_count (k_fs k') = rd32 img 4"
        "if b then \<exists>l l'. klive k' = insert (unat (g_names (k_fs k')), l') (insert (unat (g_blobs (k_fs k')), l) (klive k2)) \<and>
             descs_in (kmem k') (g_blobs (k_fs k')) img (rd32 img 4) \<and>
             same_bytes (unat (names_extent img 8 (rd32 img 4))) (kmem k') (g_names (k_fs k')) img (8 + 16 * rd32 img 4)
         else klive k' = klive k2 \<and>
           \<not> (reads_ok serves disk (disk (k_dev k2)) start (16 * c + n + 519) \<and> heap_gap (k_mm k2) (49 * c + 2 * n + 1290))"
        using mount_descs_ok [OF rdy2 assms(2) cnt2 3(2) assms(7) [OF 3(1)] img2] unfolding assms(8,9) by blast
      have live2: "klive k2 = klive k" using k1(4) rdy0(2) by (simp add: k2_def)
      have room: "heap_gap (k_mm k) j \<Longrightarrow> heap_gap (k_mm k2) j" for j using spends_gap [OF k1(8), of j] mm2 rdy0(2) by simp
      have "byte_at (k_mm k') x = byte_at (k_mm k) x" if "x \<in> bytes_of (klive k)" for x
      proof -
        have "x < 2 ^ 32" using that live_bounds(3) [of "k_mm k"] assms(1) by (fastforce simp: bytes_of_def fs_ready_def)
        then have "byte_at (k_mm k') x = byte_at (k_mm k2) x" using k'(2) that live2 by (simp add: fs_step_def keep_def)
        then show ?thesis using kept1 [OF that] by (simp add: k2_def)
      qed
      then show ?thesis
        using 3 eq k' live2 fs_step_ready [OF k'(2)] k1(3) rdy0(3) ok room disk2
        by (intro exI [of _ b] exI [of _ k']) (auto simp: mounted_def fs_step_def k2_def split: if_splits)
    qed
  qed
qed

section \<open>Lookup\<close>

text \<open>Comparing \<open>n\<close> characters with a string without terminator among its first \<open>n\<close> bytes.\<close>

lemma strncmp_loop_eq:
  "(\<And>i. i < n \<Longrightarrow> m (b + w32 i) \<noteq> 0) \<Longrightarrow> strncmp_loop m a b n = 0 \<longleftrightarrow> (\<forall>i < n. m (a + w32 i) = m (b + w32 i))"
proof (induction n arbitrary: a b)
  case (Suc n)
  have "m (b + 1 + w32 i) \<noteq> 0" if "i < n" for i using Suc.prems [of "Suc i"] that by (simp add: add.assoc)
  then have IH: "strncmp_loop m (a + 1) (b + 1) n = 0 \<longleftrightarrow> (\<forall>i < n. m (a + 1 + w32 i) = m (b + 1 + w32 i))" by (rule Suc.IH)
  have b0: "m b \<noteq> 0" using Suc.prems [of 0] by simp
  have "(\<forall>i < Suc n. m (a + w32 i) = m (b + w32 i)) \<longleftrightarrow> m a = m b \<and> (\<forall>i < n. m (a + 1 + w32 i) = m (b + 1 + w32 i))"
    by (auto simp: All_less_Suc2 algebra_simps)
  then show ?case using IH b0 by (auto simp: word_uint_eq_iff)
qed simp

text \<open>The name of a blob in the image, and the blobs whose names do not wrap around.\<close>

abbreviation image_blob :: "mem \<Rightarrow> nat \<Rightarrow> fs_blob_t" where
  "image_blob img i \<equiv> blob_at img (8 + 16 * w32 i)"

definition image_name :: "mem \<Rightarrow> u32 \<Rightarrow> nat \<Rightarrow> u8 list" where
  "image_name img c i =
     map (\<lambda>j. img (8 + 16 * c + name_offset (image_blob img i) + w32 j)) [0..<unat (name_size (image_blob img i))]"

definition names_ok :: "mem \<Rightarrow> u32 \<Rightarrow> bool" where
  "names_ok img c \<longleftrightarrow> (\<forall>i < unat c. unat (name_offset (image_blob img i)) + unat (name_size (image_blob img i)) < 2 ^ 32)"

lemma unat_ucast16: "unat (ucast (w :: u16) :: u32) = unat w"
proof -
  have "unat w < 2 ^ 16" using unsigned_less [of w] by simp
  then have "unat w < 2 ^ 32" by (rule order.strict_trans) simp
  then show ?thesis using take_bit_nat_eq_self [of "unat w" 32] by (simp add: unsigned_ucast_eq)
qed

lemma fold_max_ge:
  fixes z :: u32
  shows "z \<le> fold (\<lambda>i z. if f i > z then f i else z) is z \<and> (\<forall>i \<in> set is. f i \<le> fold (\<lambda>i z. if f i > z then f i else z) is z)"
proof (induction "is" arbitrary: z)
  case (Cons i js)
  have "f i \<le> (if f i > z then f i else z)" "z \<le> (if f i > z then f i else z)" by auto
  then show ?case using Cons [of "if f i > z then f i else z"] by (auto intro: order_trans)
qed simp

lemma name_within:
  assumes "names_ok img c" "i < unat c"
  shows "unat (name_offset (image_blob img i)) + unat (name_size (image_blob img i)) \<le> unat (names_extent img 8 c)"
proof -
  let ?b = "image_blob img i"
  have u: "unat (ucast (name_size ?b) :: u32) = unat (name_size ?b)"
    by (rule unat_ucast16)
  have "unat (name_offset ?b + ucast (name_size ?b)) = unat (name_offset ?b) + unat (name_size ?b)"
    using assms unat_add_no_wrap [of "name_offset ?b" "ucast (name_size ?b)"] u by (simp add: names_ok_def)
  moreover have "name_offset ?b + ucast (name_size ?b) \<le> names_extent img 8 c"
    using fold_max_ge [of 0 "\<lambda>i. name_offset (image_blob img i) + ucast (name_size (image_blob img i))" "[0..<unat c]"] assms(2)
    by (simp add: names_extent_def Let_def)
  ultimately show ?thesis by (simp add: word_le_nat_alt)
qed

lemma blob_named_iff:
  assumes mnt: "mounted k img" and c: "c = g_blob_count (k_fs k)" and ok: "names_ok img c" and i: "i < unat c"
    and str: "cstr_at (kmem k) name xs" "length xs < 2 ^ 32"
  shows "blob_named k name (w32 (length xs)) (g_blobs (k_fs k) + 16 * w32 i) \<longleftrightarrow> image_name img c i = xs"
proof -
  let ?b = "image_blob img i"
  have c0: "c \<noteq> 0" using i by auto
  have descs: "descs_in (kmem k) (g_blobs (k_fs k)) img c"
    and names: "same_bytes (unat (names_extent img 8 c)) (kmem k) (g_names (k_fs k)) img (8 + 16 * c)"
    using mnt c0 by (auto simp: mounted_def c Let_def)
  have b: "blob_at (kmem k) (g_blobs (k_fs k) + 16 * w32 i) = ?b" by (rule descs_blob [OF descs i])
  let ?n = "unat (name_size ?b)"
  have nm: "kmem k (g_names (k_fs k) + name_offset ?b + w32 j) = image_name img c i ! j" if "j < ?n" for j
    using same_bytes_shift [OF names name_within [OF ok i]] that
    by (simp add: image_name_def same_bytes_def add.assoc)
  have len: "ucast (name_size ?b) = w32 (length xs) \<longleftrightarrow> ?n = length xs"
  proof -
    have "unat (ucast (name_size ?b) :: u32) = ?n" by (rule unat_ucast16)
    then show ?thesis using str(2) by (simp add: word_unat_eq_iff unat_w32)
  qed
  have nz: "xs ! j \<noteq> 0 \<and> kmem k (name + w32 j) = xs ! j" if "j < length xs" for j
    using cstr_at_append [of "kmem k" name xs "[]"] str(1) that by auto
  have cmp: "strncmp (kmem k) (g_names (k_fs k) + name_offset ?b) name (w32 (length xs)) = 0 \<longleftrightarrow>
      (\<forall>j < length xs. kmem k (g_names (k_fs k) + name_offset ?b + w32 j) = xs ! j)"
  proof -
    have "kmem k (name + w32 j) \<noteq> 0" if "j < length xs" for j using nz [OF that] by simp
    note eq = strncmp_loop_eq [where m = "kmem k" and b = name and n = "length xs", OF this]
    show ?thesis unfolding strncmp_def unat_w32 [OF str(2)] by (simp add: eq nz)
  qed
  have eq: "image_name img c i = xs \<longleftrightarrow> ?n = length xs \<and> (\<forall>j < length xs. image_name img c i ! j = xs ! j)"
  proof -
    have "length (image_name img c i) = ?n" by (simp add: image_name_def)
    then show ?thesis unfolding list_eq_iff_nth_eq by (simp cong: conj_cong)
  qed
  show ?thesis
    unfolding blob_named_def fs_blob_name_def b len cmp eq
  proof (rule conj_cong [OF refl])
    assume n: "?n = length xs"
    then show "(\<forall>j < length xs. kmem k (g_names (k_fs k) + name_offset ?b + w32 j) = xs ! j) \<longleftrightarrow>
        (\<forall>j < length xs. image_name img c i ! j = xs ! j)" using nm by metis
  qed
qed

text \<open>C34: on a mounted image \<open>fs_find\<close> ends for every terminated name and returns the descriptor of the first blob
  whose name in the image is that string, and null when there is none.\<close>

theorem fs_find_correct:
  assumes "mounted k img" "c = g_blob_count (k_fs k)" "names_ok img c" "cstr_at (kmem k) name xs" "length xs < 2 ^ 32"
  shows "fs_find name k = Some (case find (\<lambda>i. image_name img c i = xs) [0..<unat c] of
      Some i \<Rightarrow> g_blobs (k_fs k) + 16 * w32 i | None \<Rightarrow> 0)"
proof -
  have "strlen (kmem k) name = Some (int (length xs))"
    using strlen_loop_cstr [OF assms(4), of 0] by (simp add: strlen_def)
  moreover have "find (\<lambda>i. blob_named k name (w32 (length xs)) (g_blobs (k_fs k) + 16 * w32 i)) [0..<unat c] =
      find (\<lambda>i. image_name img c i = xs) [0..<unat c]"
    using blob_named_iff [OF assms(1-3) _ assms(4,5)] by (intro find_cong) auto
  ultimately show ?thesis by (simp add: fs_find_def assms(2) [symmetric])
qed

text \<open>C35: \<open>fs_read\<close> on the descriptor of a blob asks for the sectors of the blob and returns whether the device has served the
  read. If it has, the buffer holds the blob's bytes of the image, given that the blob starts at a sector as \<^verbatim>\<open>mkfs\<close> lays
  it out. Memory is changed only up to the end of the last sector: the buffer must have room for whole sectors, up to 511
  bytes more than the size that the header of the module asks for, and they are really written.\<close>

theorem fs_read_correct:
  fixes disk
  assumes "fs_ready k" "blk_device_ok (kpb P) (symbols P) (device P) disk serves" "KERNEL_VA \<le> buf"
    and "mounted k img" "img = image_of (disk (k_dev k)) (g_start_sector (k_fs k))" "i < unat (g_blob_count (k_fs k))"
    and "b = image_blob img i" "512 dvd unat (blob_offset b)" "unat (blob_offset b) + unat (blob_size b) + 511 < 2 ^ 32"
    and "unat (g_start_sector (k_fs k)) + unat (blob_offset b) div 512 < 2 ^ 32" "unat buf + unat (blob_size b) + 511 < 2 ^ 32"
    and "n = (unat (blob_size b) + 511) div 512 * 512"
    and "ok = serves (k_dev k) VIRTIO_BLK_T_IN (ucast (g_start_sector (k_fs k) + blob_offset b div 512)) n"
  shows "\<exists>k'. fs_read P (g_blobs (k_fs k) + 16 * w32 i) buf k = done_with ok k' \<and>
    (ok \<longrightarrow> (\<forall>j < unat (blob_size b). kmem k' (buf + w32 j) = img (blob_offset b + w32 j)) \<and>
       (\<forall>j < n. kmem k' (buf + w32 j) = disk (k_dev k) (512 * unat (g_start_sector (k_fs k)) + unat (blob_offset b) + j))) \<and>
    (\<forall>a. \<not> in_region buf n a \<longrightarrow> kmem k' a = kmem k a)"
proof -
  define sector where "sector = g_start_sector (k_fs k) + blob_offset b div 512"
  define count where "count = (blob_size b + 511) div 512"
  have "descs_in (kmem k) (g_blobs (k_fs k)) img (g_blob_count (k_fs k))"
    using assms(4,6) by (auto simp: mounted_def Let_def)
  then have b: "blob_at (kmem k) (g_blobs (k_fs k) + 16 * w32 i) = b" using descs_blob assms(6,7) by blast
  have usec: "unat sector = unat (g_start_sector (k_fs k)) + unat (blob_offset b) div 512"
    using assms(10) unat_add_no_wrap [of "g_start_sector (k_fs k)" "blob_offset b div 512"] by (simp add: sector_def unat_div)
  have a: "unat (blob_size b + 511) = unat (blob_size b) + 511" using assms(9) unat_add_no_wrap [of "blob_size b" 511] by simp
  have n: "unat (count * 512) = n"
  proof -
    have "unat count = (unat (blob_size b) + 511) div 512" using a by (simp add: count_def unat_div)
    moreover have "(unat (blob_size b) + 511) div 512 * 512 < 2 ^ 32" using assms(9) by linarith
    ultimately show ?thesis by (simp add: unat_word_ariths assms(12))
  qed
  have n_le: "unat (blob_size b) \<le> n" "n \<le> unat (blob_size b) + 511" unfolding assms(12) by linarith+
  have ok: "serves (k_dev k) VIRTIO_BLK_T_IN (ucast sector) n = ok" by (simp add: assms(13) sector_def)
  obtain bl d m where r: "read_sectors P sector count buf k = done_with ok (set_kmem m (k\<lparr>k_blk := bl, k_dev := d\<rparr>))"
    "\<forall>a. \<not> in_region buf n a \<longrightarrow> m a = kmem k a" "ok \<longrightarrow> m = disk_to_mem (disk (k_dev k)) (512 * unat sector) buf n (kmem k)"
    by (rule read_sectors_k [OF assms(1-3), where sector = sector and count = count, unfolded n ok])
  have "fs_read P (g_blobs (k_fs k) + 16 * w32 i) buf k = done_with ok (set_kmem m (k\<lparr>k_blk := bl, k_dev := d\<rparr>))"
    using r(1) by (simp add: fs_read_def b read_sectors_def Let_def sector_def count_def)
  moreover have dk: "m (buf + w32 j) = disk (k_dev k) (512 * unat (g_start_sector (k_fs k)) + unat (blob_offset b) + j)"
    if ok and j: "j < n" for j
  proof -
    have j32: "j < 2 ^ 32" using j n_le(2) assms(9) by linarith
    have "same_bytes n m buf (image_of (disk (k_dev k)) sector) 0"
      unfolding r(3) [rule_format, OF \<open>ok\<close>] using assms(11) n_le(2) by (intro read_bytes) simp
    then have "m (buf + w32 j) = image_of (disk (k_dev k)) sector (w32 j)" using j by (simp add: same_bytes_def)
    also have "\<dots> = disk (k_dev k) (512 * unat sector + j)" using j32 by (simp add: image_of_def unat_w32)
    also have "512 * unat sector = 512 * unat (g_start_sector (k_fs k)) + unat (blob_offset b)"
      using assms(8) by (simp add: usec)
    finally show ?thesis .
  qed
  moreover have "m (buf + w32 j) = img (blob_offset b + w32 j)" if ok and j: "j < unat (blob_size b)" for j
  proof -
    have j32: "j < 2 ^ 32" using j unat_lt_32 [of "blob_size b"] by linarith
    then have "unat (blob_offset b) + j = unat (blob_offset b + w32 j)"
      using unat_add_no_wrap [of "blob_offset b" "w32 j"] j assms(9) by (simp add: unat_w32)
    then show ?thesis using dk [OF \<open>ok\<close>, of j] j n_le(1) by (simp add: assms(5) image_of_def add.assoc)
  qed
  ultimately show ?thesis using r(2) by auto
qed

section \<open>An image\<close>

text \<open>
  An image with one executable named \<open>init\<close>, on a RAM disk of four sectors, and a kernel whose memory holds the heap that
  \<^verbatim>\<open>mm_init\<close> creates and, above it, a copy of the image.
\<close>

definition disk0 :: "nat \<Rightarrow> u8" where
  "disk0 n = (if n < 28 then [0x46, 0x47, 0x45, 0x4C, 1, 0, 0, 0,  0, 2, 0, 0, 5, 0, 0, 0, 0, 0, 0, 0, 4, 0, 1, 0,
     0x69, 0x6E, 0x69, 0x74] ! n else if n < 512 then 0 else of_nat n)"

definition mem0 :: mem where
  "mem0 a = (if a \<ge> 0xC0800000 then disk0 (unat (a - 0xC0800000)) else mem heap0 a)"

definition plat0 :: "(nat \<Rightarrow> u8) platform" where
  "plat0 = \<lparr>kpb = 0x40200000, device = ram_disk 2048 0x40200000, symbols = syms0,
     local_buf = 0xC03FF000, kernel_table = 0xC0004000, font = (\<lambda>_. 0)\<rparr>"

definition kern0 :: "(nat \<Rightarrow> u8) kernel" where
  "kern0 = \<lparr>k_mm = heap0\<lparr>mem := mem0\<rparr>, k_blk = blk0, k_dev = disk0,
     k_fs = \<lparr>g_start_sector = 0, g_blob_count = 1, g_blobs = 0xC0800008, g_names = 0xC0800018\<rparr>,
     k_sched = \<lparr>procs = replicate 8 0, current_proc = 0, pobj = (\<lambda>_. undefined)\<rparr>, next_pid = 1, k_tty = tty0, k_rng = 0xDEADBEEF, k_fb = fb0, ttbr0 = 0x40004000,
     k_uart = \<lparr>uart_tx = [], uart_rx = [], uart_regs = []\<rparr>, k_kbd = kbd0,
     k_timer = \<lparr>cntp_cval = 0, ctl_enable = False, ctl_imask = False, tick_fn = None, tick_interval_us = 0\<rparr>\<rparr>"

lemma kern0_heap: "heap_ok (heap0\<lparr>mem := mem0\<rparr>)" "live (heap0\<lparr>mem := mem0\<rparr>) = {}"
proof -
  have ok: "heap_ok heap0" using heap0_rep by (auto simp: heap_ok_def)
  have h: "in_heap heap0 x \<longleftrightarrow> 0xC0400000 \<le> x \<and> x < 0xC0600000" for x
    by (simp add: in_heap_def heap0_def kheap_init_def)
  have m: "mem0 (w32 x) = mem heap0 (w32 x)" if "x < 2 ^ 32" "\<not> settled heap0 x" for x
  proof -
    have "in_heap heap0 x" using that by (auto simp: settled_def)
    then show ?thesis using that(1) h by (simp add: mem0_def word_le_nat_alt unat_w32)
  qed
  note w = settled_write [OF ok, of mem0, OF m]
  show "heap_ok (heap0\<lparr>mem := mem0\<rparr>)" by (rule w(1))
  show "live (heap0\<lparr>mem := mem0\<rparr>) = {}" using w(2) live_rep [OF heap0_rep] by simp
qed

lemma kern0_ready: "fs_ready kern0"
  using kern0_heap(1) by (simp add: fs_ready_def kern0_def blk_inv_def blk0_def vq_wf_def heap0_def kheap_init_def)

lemma kern0_live: "klive kern0 = {}"
  using kern0_heap(2) by (simp add: kern0_def)

lemma kern0_gap: "n \<le> 0x200000 \<Longrightarrow> heap_gap (k_mm kern0) n"
  unfolding heap_gap_def kern0_live by (intro exI [of _ "0xC0400000"]) (simp add: kern0_def heap0_def kheap_init_def)

lemma plat0_device: "blk_device_ok (kpb plat0) (symbols plat0) (device plat0) (\<lambda>d. d) (ram_serves 2048)"
  by (simp add: plat0_def ram_disk_ok)

lemma image0: "rd32 (image_of disk0 0) 0 = FS_MAGIC" "rd32 (image_of disk0 0) 4 = 1"
    "image_blob (image_of disk0 0) 0 = \<lparr>blob_offset = 512, blob_size = 5, name_offset = 0, name_size = 4, blob_flags = 1\<rparr>"
    "names_extent (image_of disk0 0) 8 1 = 4" 
proof -
  show "rd32 (image_of disk0 0) 0 = FS_MAGIC" "rd32 (image_of disk0 0) 4 = 1"
    by (simp_all add: rd32_def image_of_def disk0_def)
  show b: "image_blob (image_of disk0 0) 0 = \<lparr>blob_offset = 512, blob_size = 5, name_offset = 0, name_size = 4, blob_flags = 1\<rparr>"
    by (simp add: blob_at_def rd32_def rd16_def image_of_def disk0_def)
  show "names_extent (image_of disk0 0) 8 1 = 4" using b by (simp add: names_extent_def)
qed

text \<open>The mount succeeds; on a device without sectors it reports the failed read.\<close>

theorem fs_mount_correct_witness:
  "(\<exists>k'. fs_mount plat0 0 kern0 = done_with True k' \<and> mounted k' (image_of disk0 0) \<and> g_blob_count (k_fs k') = 1) \<and>
    (\<exists>k'. fs_mount (plat0\<lparr>device := ram_disk 0 0x40200000\<rparr>) 0 kern0 = done_with False k' \<and> klive k' = {} \<and> g_blob_count (k_fs k') = 0)"
proof -
  have out: "\<not> in_region (local_buf plat0) 512 (w32 x)" "\<not> in_region (local_buf (plat0\<lparr>device := D\<rparr>)) 512 (w32 x)"
    if "in_heap (k_mm kern0) x" for x D
    using that by (auto simp: in_heap_def in_region_def kern0_def heap0_def kheap_init_def plat0_def unat_w32)
  have fits: "image_fits (image_of disk0 0) (rd32 (image_of disk0 0) 4)"
    by (simp add: image_fits_def image0)
  have pre: "KERNEL_VA \<le> local_buf plat0" "unat (local_buf plat0) + 512 \<le> 2 ^ 32"
    "KERNEL_VA \<le> local_buf (plat0\<lparr>device := D\<rparr>)" "unat (local_buf (plat0\<lparr>device := D\<rparr>)) + 512 \<le> 2 ^ 32" for D
    by (simp_all add: plat0_def)
  let ?P = "plat0\<lparr>device := ram_disk 0 0x40200000\<rparr>"
  have dev: "blk_device_ok (kpb ?P) (symbols ?P) (device ?P) (\<lambda>d. d) (ram_serves 0)"
    by (simp add: plat0_def ram_disk_ok)
  have img: "image_of disk0 0 = image_of (k_dev kern0) 0" by (simp add: kern0_def)
  have r: "reads_ok (ram_serves 2048) (\<lambda>d. d) (k_dev kern0) 0 539" "ram_serves 2048 (k_dev kern0) VIRTIO_BLK_T_IN 0 512"
    "\<not> ram_serves 0 (k_dev kern0) VIRTIO_BLK_T_IN 0 512"
    by (simp_all add: reads_ok_def ram_serves_def)
  obtain b k' where k': "fs_mount plat0 0 kern0 = done_with b k'" "b" "mounted k' (image_of disk0 0)" "g_blob_count (k_fs k') = 1"
    using fs_mount_correct [where disk = "\<lambda>d. d" and img = "image_of disk0 0", OF kern0_ready plat0_device pre(1,2) out(1) img fits refl refl]
      r(1,2) kern0_gap [of 1347] by (auto simp: image0 split: if_splits)
  obtain c k'' where k'': "fs_mount ?P 0 kern0 = done_with c k''" "g_blob_count (k_fs k'') = 0"
    "if c then mounted k'' (image_of disk0 0) else klive k'' = klive kern0"
    using fs_mount_correct [where disk = "\<lambda>d. d" and img = "image_of disk0 0", OF kern0_ready dev pre(3,4) out(2) img fits refl refl]
      r(3) by (auto simp: image0 split: if_splits)
  then have "\<not> c" by (auto simp: mounted_def image0)
  then show ?thesis using k' k'' kern0_live by auto
qed

text \<open>The copy of the image in memory.\<close>

lemma kern0_copy: "off + n \<le> 0x1000 \<Longrightarrow> same_bytes n (kmem kern0) (0xC0800000 + w32 off) (image_of disk0 0) (w32 off)"
  unfolding same_bytes_def
proof (intro allI impI)
  fix i assume i: "off + n \<le> 0x1000" "i < n"
  have u: "unat (w32 (off + i)) = off + i" using i by (simp add: unat_w32 del: of_nat_add)
  then have "unat (0xC0800000 + w32 (off + i)) = 0xC0800000 + (off + i)"
    using unat_add_no_wrap [of "0xC0800000" "w32 (off + i)"] i by simp
  then have "0xC0800000 \<le> 0xC0800000 + w32 (off + i)" unfolding word_le_nat_alt by simp
  then have "mem0 (0xC0800000 + w32 (off + i)) = disk0 (off + i)" using u by (simp add: mem0_def del: of_nat_add)
  then show "kmem kern0 (0xC0800000 + w32 off + w32 i) = image_of disk0 0 (w32 off + w32 i)"
    using u by (simp add: kern0_def image_of_def add.assoc)
qed

lemma kern0_mounted: "mounted kern0 (image_of disk0 0)"
  using kern0_copy [of 8 16] kern0_copy [of 24 4] by (simp add: mounted_def descs_in_def kern0_def image0)

lemma image0_names: "names_ok (image_of disk0 0) 1" "image_name (image_of disk0 0) 1 0 = [0x69, 0x6E, 0x69, 0x74]"
proof -
  show "names_ok (image_of disk0 0) 1" using image0(3) by (simp add: names_ok_def)
  have "[0..<4] = [0, 1, 2, 3 :: nat]" by (simp add: upt_rec)
  then show "image_name (image_of disk0 0) 1 0 = [0x69, 0x6E, 0x69, 0x74]"
    using image0(3) by (simp add: image_name_def) (simp add: image_of_def disk0_def)
qed

theorem fs_find_correct_witness: "fs_find 0xC0800018 kern0 = Some 0xC0800008"
proof -
  have "cstr_at (kmem kern0) 0xC0800018 [0x69, 0x6E, 0x69, 0x74]"
    by (simp add: kern0_def mem0_def disk0_def)
  from fs_find_correct [OF kern0_mounted refl _ this] show ?thesis
    using image0_names by (simp add: kern0_def)
qed

theorem fs_read_correct_witness:
  "\<exists>k'. fs_read plat0 0xC0800008 0xC0900000 kern0 = done_with True k' \<and> kmem k' 0xC0900003 = 3 \<and>
    kmem k' 0xC09001FF = 0xFF \<and> kmem k' 0xC0900200 = kmem kern0 0xC0900200"
proof -
  have "image_of disk0 0 = image_of (k_dev kern0) (g_start_sector (k_fs kern0))" by (simp add: kern0_def)
  from fs_read_correct [where disk = "\<lambda>d. d" and i = 0 and buf = "0xC0900000" and img = "image_of disk0 0" and b = "image_blob (image_of disk0 0) 0",
      OF kern0_ready plat0_device _ kern0_mounted this _ refl _ _ _ _ refl refl]
  obtain k' where k': "fs_read plat0 (g_blobs (k_fs kern0)) 0xC0900000 kern0 = done_with True k'"
    "\<forall>j < 5. kmem k' (0xC0900000 + w32 j) = image_of disk0 0 (512 + w32 j)"
    "\<forall>j < 512. kmem k' (0xC0900000 + w32 j) = disk0 (512 + j)" "\<forall>a. \<not> in_region 0xC0900000 512 a \<longrightarrow> kmem k' a = kmem kern0 a"
    using image0(3) by (auto simp: kern0_def dvd_eq_mod_eq_0 ram_serves_def)
  have "image_of disk0 0 (512 + w32 3) = 3" by (simp add: image_of_def disk0_def)
  then have "kmem k' 0xC0900003 = 3" using k'(2) [rule_format, of 3] by simp
  moreover have "kmem k' 0xC09001FF = 0xFF" using k'(3) [rule_format, of 511] by (simp add: disk0_def)
  moreover have "kmem k' 0xC0900200 = kmem kern0 0xC0900200" using k'(4) by (simp add: in_region_def)
  ultimately show ?thesis using k'(1) by (auto simp: kern0_def)
qed

end
