(* ===== verification/Leg_Llf.thy ===== *)
theory Leg_Llf
  imports Leg_Kernel Leg_Pmm
begin

text \<open>
  The program loader \<^verbatim>\<open>src/kernel/llf.c\<close>: it maps pages for the segments of an image into an address space,
  installs the space, and fills the segments through it. The header and the segment table are read from
  the image in memory whenever they are used, the number of segments at every iteration.
\<close>

section \<open>Image structures\<close>

abbreviation (input) LLF_MAGIC :: u32 where "LLF_MAGIC \<equiv> 0x4C4C4646"

datatype llf_segment_type_t = LLF_SEG_NULL | LLF_SEG_LOAD | LLF_SEG_NOBITS | LLF_SEG_OTHER u32

definition segment_type :: "u32 \<Rightarrow> llf_segment_type_t" where
  "segment_type v = (if v = 0 then LLF_SEG_NULL else if v = 1 then LLF_SEG_LOAD else if v = 2 then LLF_SEG_NOBITS else LLF_SEG_OTHER v)"

record llf_header_t =
  llf_magic :: u32
  llf_version :: u32
  llf_entry :: u32
  ph_off :: u32
  ph_count :: u32
  llf_flags :: u32

record llf_phdr_t =
  ph_type :: llf_segment_type_t
  ph_flags :: u32
  ph_vaddr :: u32
  ph_memsz :: u32
  ph_filesz :: u32
  ph_offset :: u32
  ph_align :: u32

definition llf_header :: "mem \<Rightarrow> u32 \<Rightarrow> llf_header_t" where
  "llf_header m a = \<lparr>llf_magic = rd32 m a, llf_version = rd32 m (a + 4), llf_entry = rd32 m (a + 8), ph_off = rd32 m (a + 12),
     ph_count = rd32 m (a + 16), llf_flags = rd32 m (a + 20)\<rparr>"

definition llf_phdr :: "mem \<Rightarrow> u32 \<Rightarrow> llf_phdr_t" where
  "llf_phdr m a = \<lparr>ph_type = segment_type (rd32 m a), ph_flags = rd32 m (a + 4), ph_vaddr = rd32 m (a + 8), ph_memsz = rd32 m (a + 12),
     ph_filesz = rd32 m (a + 16), ph_offset = rd32 m (a + 20), ph_align = rd32 m (a + 24)\<rparr>"

section \<open>Mapping\<close>

definition get_or_alloc_l2 :: "u32 \<Rightarrow> u32 \<Rightarrow> u32 \<Rightarrow> mm_state \<Rightarrow> (u32 \<times> mm_state) outcome option" where
  "get_or_alloc_l2 kp tt va_mb s =
     (if l1_type (entry (mem s) tt va_mb) = L1_PAGE_TABLE then Some (Returns (l2_of kp (entry (mem s) tt va_mb), s))
      else bind_out (mmu_alloc_l2_table s) (\<lambda>(pt, s).
        Some (Returns (pt, if pt \<noteq> 0 then s\<lparr>mem := mmu_attach_l2 kp tt va_mb pt (mem s)\<rparr> else s))))"

text \<open>One iteration of the loop of \<^verbatim>\<open>map_pages\<close> and the loop.\<close>

definition map_one :: "u32 \<Rightarrow> u32 \<Rightarrow> u32 \<Rightarrow> mm_state \<Rightarrow> (bool \<times> mm_state) outcome option" where
  "map_one kp tt page_va s =
     bind_out (get_or_alloc_l2 kp tt (drop_bit 20 page_va) s) (\<lambda>(pt, s).
       if pt = 0 then Some (Returns (False, s))
       else if l2_type (entry (mem s) pt (L2_IDX page_va)) \<noteq> L2_INVALID then Some (Returns (True, s))
       else
         let (pa, s) = mm_page_alloc s
         in if pa = 0 then Some (Returns (False, s))
            else Some (Returns (True, s\<lparr>mem := mmu_map_page pt page_va pa (mem s)\<rparr>)))"

fun map_pages_from :: "u32 \<Rightarrow> u32 \<Rightarrow> u32 \<Rightarrow> nat list \<Rightarrow> mm_state \<Rightarrow> (bool \<times> mm_state) outcome option" where
  "map_pages_from kp tt page_base [] s = Some (Returns (True, s))"
| "map_pages_from kp tt page_base (i # is) s =
     bind_out (map_one kp tt (page_base + w32 i * PAGE_SIZE) s) (\<lambda>(ok, s).
       if \<not> ok then Some (Returns (False, s)) else map_pages_from kp tt page_base is s)"

definition map_pages :: "u32 \<Rightarrow> u32 \<Rightarrow> u32 \<Rightarrow> u32 \<Rightarrow> mm_state \<Rightarrow> (bool \<times> mm_state) outcome option" where
  "map_pages kp tt va memsz s =
     (let page_base = va AND NOT (PAGE_SIZE - 1);
          pages = (va - page_base + memsz + PAGE_SIZE - 1) div PAGE_SIZE
      in map_pages_from kp tt page_base [0..<unat pages] s)"

section \<open>Loading\<close>

partial_function (option) map_segments :: "u32 \<Rightarrow> u32 \<Rightarrow> u32 \<Rightarrow> u32 \<Rightarrow> u32 \<Rightarrow> mm_state \<Rightarrow> (bool \<times> mm_state) outcome option" where
  "map_segments kp tt buf phdrs i s =
     (if i < ph_count (llf_header (mem s) buf)
      then
        let ph = llf_phdr (mem s) (phdrs + 28 * i)
        in if ph_type ph = LLF_SEG_NULL then map_segments kp tt buf phdrs (i + 1) s
           else bind_out (map_pages kp tt (ph_vaddr ph) (ph_memsz ph) s) (\<lambda>(ok, s).
             if \<not> ok then Some (Returns (False, s)) else map_segments kp tt buf phdrs (i + 1) s)
      else Some (Returns (True, s)))"

definition fill_segment :: "'d platform \<Rightarrow> u32 \<Rightarrow> llf_phdr_t \<Rightarrow> 'd kernel \<Rightarrow> 'd kernel outcome" where
  "fill_segment P buf ph k =
     (case user_memclr P (ph_vaddr ph) (ph_memsz ph) k of
        Panics e \<Rightarrow> Panics e
      | Returns k \<Rightarrow>
          if ph_type ph = LLF_SEG_LOAD \<and> ph_filesz ph > 0
          then user_memcpy P (ph_vaddr ph) (buf + ph_offset ph) (ph_filesz ph) k
          else Returns k)"

partial_function (option) fill_segments :: "'d platform \<Rightarrow> u32 \<Rightarrow> u32 \<Rightarrow> u32 \<Rightarrow> 'd kernel \<Rightarrow> 'd kernel outcome option" where
  "fill_segments P buf phdrs i k =
     (if i < ph_count (llf_header (kmem k) buf)
      then
        let ph = llf_phdr (kmem k) (phdrs + 28 * i)
        in if ph_type ph = LLF_SEG_NULL then fill_segments P buf phdrs (i + 1) k
           else bind_out (Some (fill_segment P buf ph k)) (fill_segments P buf phdrs (i + 1))
      else Some (Returns k))"

text \<open>The result is the entry point, or nothing when the loader returns false.\<close>

definition llf_load :: "'d platform \<Rightarrow> u32 \<Rightarrow> u32 \<Rightarrow> u32 \<Rightarrow> 'd kernel \<Rightarrow> (u32 option \<times> 'd kernel) outcome option" where
  "llf_load P tt buf buf_size k =
     (if buf_size < 24 then done_with None k
      else
        let hdr = llf_header (kmem k) buf
        in if llf_magic hdr \<noteq> LLF_MAGIC then done_with None k
           else
             let phdrs = buf + ph_off hdr
             in bind_out (on_mm (map_segments (kpb P) tt buf phdrs 0) k) (\<lambda>(ok, k).
                  if \<not> ok then done_with None k
                  else bind_out (fill_segments P buf phdrs 0 (mmu_set_proc_table P tt k)) (\<lambda>k.
                    let k = mmu_set_proc_table P (kernel_table P) k
                    in done_with (Some (llf_entry (llf_header (kmem k) buf))) k)))"

end
