(* ===== verification/Leg_Process.thy ===== *)
theory Leg_Process
  imports Leg_Llf Leg_Fs
begin

text \<open>
  Process creation, fork, replacement and exit (\<^verbatim>\<open>src/kernel/process.c\<close>), over the heap, the page allocator, the
  translation tables, the file system and the scheduler. A process struct is allocated on the heap and its
  fields live in the store of the scheduler's state, under the address of the struct; a field that the code
  leaves unset keeps what the store has there.
\<close>

section \<open>Constants\<close>

abbreviation (input) PROC_STACK_TOP :: u32 where "PROC_STACK_TOP \<equiv> PROC_USER_VA_TOP - 0x1000"
abbreviation (input) PROC_STACK_INIT_PAGES :: nat where "PROC_STACK_INIT_PAGES \<equiv> 4"
abbreviation (input) PROC_CODE_VA :: u32 where "PROC_CODE_VA \<equiv> 0x00100000"
abbreviation (input) PROC_HEAP_START :: u32 where "PROC_HEAP_START \<equiv> PROC_CODE_VA + 0x00100000"
abbreviation (input) PROC_SIZE :: u32 where "PROC_SIZE \<equiv> 376"

definition kproc :: "'d kernel \<Rightarrow> u32 \<Rightarrow> process_t" where
  "kproc k p = pobj (k_sched k) p"

definition on_proc :: "u32 \<Rightarrow> (process_t \<Rightarrow> process_t) \<Rightarrow> 'd kernel \<Rightarrow> 'd kernel" where
  "on_proc p f k = k\<lparr>k_sched := upd_proc p f (k_sched k)\<rparr>"

section \<open>Releasing an address space\<close>

definition free_pages_of :: "u32 \<Rightarrow> mm_state \<Rightarrow> mm_state" where
  "free_pages_of pt s =
     fold (\<lambda>i s. let e = entry (mem s) pt (w32 i)
                 in if l2_type e = L2_SMALL_PAGE then snd (mm_page_free (push_bit PAGE_SHIFT (sp_address (dec_small_page e))) s) else s)
       [0..<256] s"

fun free_tables :: "u32 \<Rightarrow> u32 \<Rightarrow> nat list \<Rightarrow> mm_state \<Rightarrow> mm_state outcome option" where
  "free_tables kp tt [] s = Some (Returns s)"
| "free_tables kp tt (mb # mbs) s =
     (if l1_type (entry (mem s) tt (w32 mb)) \<noteq> L1_PAGE_TABLE then free_tables kp tt mbs s
      else
        let pt = l2_of kp (entry (mem s) tt (w32 mb))
        in bind_out (mmu_free_l2_table pt (free_pages_of pt s)) (free_tables kp tt mbs))"

text \<open>The loop over the tables and the release of the first-level table, which three routines repeat.\<close>

definition free_space :: "u32 \<Rightarrow> u32 \<Rightarrow> mm_state \<Rightarrow> mm_state outcome option" where
  "free_space kp tt s = bind_out (free_tables kp tt [0..<unat PROC_VA_MB] s) (mmu_free_proc_table tt)"

definition process_free :: "'d platform \<Rightarrow> u32 \<Rightarrow> 'd kernel \<Rightarrow> 'd kernel outcome option" where
  "process_free P p k =
     bind_out (on_mm_unit (free_space (kpb P) (pgd (kproc k p))) k) (on_mm_unit (kfree p))"

section \<open>Creation\<close>

definition load_user_image :: "'d platform \<Rightarrow> u32 \<Rightarrow> u32 \<Rightarrow> 'd kernel \<Rightarrow> (u32 option \<times> 'd kernel) outcome option" where
  "load_user_image P tt name k =
     (case fs_find name k of
        None \<Rightarrow> None
      | Some blob \<Rightarrow>
          if blob = 0 \<or> blob_flags (blob_at (kmem k) blob) \<noteq> FS_TYPE_EXECUTABLE then done_with None k
          else
            let llf_size = align_up (blob_size (blob_at (kmem k) blob)) 512
            in bind_out (on_mm (kmalloc llf_size) k) (\<lambda>(buf, k).
                 if buf = 0 then done_with None k
                 else bind_out (fs_read P blob buf k) (\<lambda>(ok, k).
                   bind_out (if ok then llf_load P tt buf llf_size k else done_with None k) (\<lambda>(entry, k).
                     bind_out (on_mm_unit (kfree buf) k) (done_with entry)))))"

definition process_add_page :: "u32 \<Rightarrow> process_t \<times> mm_state \<Rightarrow> (bool \<times> process_t \<times> mm_state) outcome option" where
  "process_add_page kp ps =
     (let (p, s) = ps;
          va = PROC_STACK_TOP - (stack_pages p + 1) * PAGE_SIZE;
          va_mb = drop_bit 20 va
      in bind_out
           (if stack_pages p > 0 \<and> va_mb \<noteq> drop_bit 20 (PROC_STACK_TOP - stack_pages p * PAGE_SIZE)
            then bind_out (mmu_alloc_l2_table s) (\<lambda>(pt, s).
              if pt = 0 then Some (Returns (False, p, s))
              else Some (Returns (True, p\<lparr>stack_pt := pt\<rparr>, s\<lparr>mem := mmu_attach_l2 kp (pgd p) va_mb pt (mem s)\<rparr>)))
            else Some (Returns (True, p, s)))
           (\<lambda>(ok, p, s).
              if \<not> ok then Some (Returns (False, p, s))
              else
                let (pa, s) = mm_page_alloc s
                in if pa = 0 then Some (Returns (False, p, s))
                   else Some (Returns (True, p\<lparr>stack_pages := stack_pages p + 1\<rparr>, s\<lparr>mem := mmu_map_page (stack_pt p) va pa (mem s)\<rparr>))))"

fun add_pages :: "u32 \<Rightarrow> nat \<Rightarrow> process_t \<times> mm_state \<Rightarrow> (bool \<times> process_t \<times> mm_state) outcome option" where
  "add_pages kp 0 (p, s) = Some (Returns (True, p, s))"
| "add_pages kp (Suc n) (p, s) =
     bind_out (process_add_page kp (p, s)) (\<lambda>(ok, p, s).
       if \<not> ok then Some (Returns (False, p, s)) else add_pages kp n (p, s))"

definition setup_initial_stack :: "u32 \<Rightarrow> process_t \<times> mm_state \<Rightarrow> (bool \<times> process_t \<times> mm_state) outcome option" where
  "setup_initial_stack kp ps =
     (let (p, s) = ps
      in bind_out (get_or_alloc_l2 kp (pgd p) (drop_bit 20 PROC_STACK_TOP) s) (\<lambda>(pt, s).
           let p = p\<lparr>stack_pt := pt\<rparr>
           in if pt = 0 then Some (Returns (False, p, s)) else add_pages kp PROC_STACK_INIT_PAGES (p\<lparr>stack_pages := 0\<rparr>, s)))"

text \<open>A routine on a process struct, applied to the struct at \<open>p\<close>.\<close>

definition on_struct ::
  "(process_t \<times> mm_state \<Rightarrow> (bool \<times> process_t \<times> mm_state) outcome option) \<Rightarrow> u32 \<Rightarrow> 'd kernel \<Rightarrow> (bool \<times> 'd kernel) outcome option" where
  "on_struct f p k =
     bind_out (f (kproc k p, k_mm k)) (\<lambda>(ok, x, s). done_with ok (on_proc p (\<lambda>_. x) (k\<lparr>k_mm := s\<rparr>)))"

definition process_create :: "'d platform \<Rightarrow> u32 \<Rightarrow> 'd kernel \<Rightarrow> (u32 \<times> 'd kernel) outcome option" where
  "process_create P name k =
     bind_out (on_mm (kmalloc_aligned PROC_SIZE 0x4000) k) (\<lambda>(p, k).
       if p = 0 then done_with 0 k
       else bind_out (on_mm mmu_alloc_proc_table k) (\<lambda>(tt, k).
         let k = on_proc p (\<lambda>x. x\<lparr>pgd := tt\<rparr>) k
         in if tt = 0 then bind_out (on_mm_unit (kfree p) k) (done_with 0)
            else bind_out (load_user_image P tt name k) (\<lambda>(e, k).
              case e of
                None \<Rightarrow> bind_out (process_free P p k) (done_with 0)
              | Some e \<Rightarrow>
                  bind_out (on_struct (setup_initial_stack (kpb P)) p (on_proc p (\<lambda>x. x\<lparr>p_entry := e\<rparr>) k)) (\<lambda>(ok, k).
                    if \<not> ok then bind_out (process_free P p k) (done_with 0)
                    else
                      done_with p ((on_proc p (\<lambda>x. x\<lparr>pid := next_pid k, p_sp := PROC_STACK_TOP - 16, heap_end := PROC_HEAP_START\<rparr>) k)
                        \<lparr>next_pid := next_pid k + 1\<rparr>)))))"

section \<open>Exit\<close>

text \<open>How \<^verbatim>\<open>process_exit\<close> ends, which never returns: in another process, with the machine off, or in \<^verbatim>\<open>limbo\<close>.\<close>

datatype exit_t = Switched | Powered_off | Limbo

definition switch_to :: "'d platform \<Rightarrow> u32 \<Rightarrow> 'd kernel \<Rightarrow> 'd kernel" where
  "switch_to P p k = mmu_set_proc_table P (pgd (kproc k p)) (k\<lparr>k_sched := context_switch p (k_sched k)\<rparr>)"

text \<open>
  For an unknown identifier the code goes on with a null pointer: \<^verbatim>\<open>process_free\<close> then reads the unmapped first
  page of the user space.
\<close>

definition process_exit :: "'d platform \<Rightarrow> u32 \<Rightarrow> u32 \<Rightarrow> 'd kernel \<Rightarrow> (exit_t \<times> 'd kernel) outcome option" where
  "process_exit P i code k =
     (let p = sched_get i (k_sched k);
          was_current = (p = current_proc (k_sched k));
          k = k\<lparr>k_sched := snd (sched_remove i (k_sched k))\<rparr>
      in if p = 0 then Some (Panics ''data abort'')
         else bind_out (process_free P p k) (\<lambda>k.
           let k = k\<lparr>k_sched := sched_wake_joiners i code (k_sched k)\<rparr>
           in if was_current
              then (let nxt = sched_pick_next (k_sched k)
                    in if nxt = 0 then done_with Powered_off k else done_with Switched (switch_to P nxt k))
              else done_with Limbo k))"

section \<open>Fork\<close>

fun fork_pages :: "u32 \<Rightarrow> u32 \<Rightarrow> u32 \<Rightarrow> u32 \<Rightarrow> nat list \<Rightarrow> mm_state \<Rightarrow> bool \<times> mm_state" where
  "fork_pages kp mb src_pt dst_pt [] s = (True, s)"
| "fork_pages kp mb src_pt dst_pt (i # is) s =
     (let e = entry (mem s) src_pt (w32 i)
      in if l2_type e \<noteq> L2_SMALL_PAGE then fork_pages kp mb src_pt dst_pt is s
         else
           let src_pa = push_bit PAGE_SHIFT (sp_address (dec_small_page e));
               (dst_pa, s) = mm_page_alloc s
           in if dst_pa = 0 then (False, s)
              else
                let m = snd (memcpy (phys_to_virt kp dst_pa) (phys_to_virt kp src_pa) PAGE_SIZE (mem s));
                    m = mmu_map_page dst_pt (push_bit 20 mb OR push_bit PAGE_SHIFT (w32 i)) dst_pa m
                in fork_pages kp mb src_pt dst_pt is (s\<lparr>mem := m\<rparr>))"

fun fork_tables :: "u32 \<Rightarrow> u32 \<Rightarrow> u32 \<Rightarrow> nat list \<Rightarrow> mm_state \<Rightarrow> (bool \<times> mm_state) outcome option" where
  "fork_tables kp src dst [] s = Some (Returns (True, s))"
| "fork_tables kp src dst (mb # mbs) s =
     (if l1_type (entry (mem s) src (w32 mb)) \<noteq> L1_PAGE_TABLE then fork_tables kp src dst mbs s
      else
        let src_pt = l2_of kp (entry (mem s) src (w32 mb))
        in bind_out (mmu_alloc_l2_table s) (\<lambda>(dst_pt, s).
             if dst_pt = 0 then Some (Returns (False, s))
             else
               let (ok, s) = fork_pages kp (w32 mb) src_pt dst_pt [0..<256] (s\<lparr>mem := mmu_attach_l2 kp dst (w32 mb) dst_pt (mem s)\<rparr>)
               in if \<not> ok then Some (Returns (False, s)) else fork_tables kp src dst mbs s))"

definition fork_child :: "u32 \<Rightarrow> u32 \<Rightarrow> u32 \<Rightarrow> u32 \<Rightarrow> process_t \<Rightarrow> process_t \<Rightarrow> process_t" where
  "fork_child new_pid lr_svc sp_usr cpsr parent child =
     child\<lparr>ctx := (ctx parent)\<lparr>ctx_r := (ctx_r (ctx parent))[0 := 0], ctx_pc := lr_svc, ctx_sp := sp_usr, ctx_cpsr := cpsr\<rparr>,
       pid := new_pid, p_entry := p_entry parent, p_sp := sp_usr, heap_end := heap_end parent,
       stack_pages := stack_pages parent, stack_pt := 0, wake_tick := 0, suspended := 0\<rparr>"

definition process_fork :: "'d platform \<Rightarrow> u32 \<Rightarrow> u32 \<Rightarrow> u32 \<Rightarrow> 'd kernel \<Rightarrow> (u32 \<times> 'd kernel) outcome option" where
  "process_fork P lr_svc sp_usr cpsr k =
     (let parent = current_proc (k_sched k)
      in bind_out (on_mm (kmalloc_aligned PROC_SIZE 0x4000) k) (\<lambda>(child, k).
           if child = 0 then done_with 0 k
           else bind_out (on_mm mmu_alloc_proc_table k) (\<lambda>(tt, k).
             let k = on_proc child (\<lambda>x. x\<lparr>pgd := tt\<rparr>) k
             in if tt = 0 then bind_out (on_mm_unit (kfree child) k) (done_with 0)
                else bind_out (on_mm (fork_tables (kpb P) (pgd (kproc k parent)) tt [0..<unat PROC_VA_MB]) k) (\<lambda>(ok, k).
                  if \<not> ok then bind_out (process_free P child k) (done_with 0)
                  else
                    let k = (on_proc child (fork_child (next_pid k) lr_svc sp_usr cpsr (kproc k parent)) k)\<lparr>next_pid := next_pid k + 1\<rparr>;
                        (slot, sched) = sched_add child (k_sched k);
                        k = k\<lparr>k_sched := sched\<rparr>
                    in if slot < 0 then bind_out (process_free P child k) (done_with 0) else done_with child k))))"

section \<open>Exec\<close>

text \<open>The final mode switch to the entry point of the process belongs to the hardware.\<close>

definition process_exec :: "'d platform \<Rightarrow> u32 \<Rightarrow> 'd kernel \<Rightarrow> 'd kernel" where
  "process_exec P p k =
     (let k = mmu_set_proc_table P (pgd (kproc k p)) k
      in k\<lparr>k_sched := snd (sched_add p ((k_sched k)\<lparr>current_proc := p\<rparr>))\<rparr>)"

text \<open>\<^verbatim>\<open>strcpy\<close> from a user address.\<close>

partial_function (option) user_strcpy :: "'d platform \<Rightarrow> u32 \<Rightarrow> u32 \<Rightarrow> 'd kernel \<Rightarrow> 'd kernel outcome option" where
  "user_strcpy P dest src k =
     (case load_byte P src k of
        Panics e \<Rightarrow> Some (Panics e)
      | Returns c \<Rightarrow>
          (case store_byte P dest c k of
             Panics e \<Rightarrow> Some (Panics e)
           | Returns k \<Rightarrow> if c \<noteq> 0 then user_strcpy P (dest + 1) (src + 1) k else Some (Returns k)))"

definition zero_ctx :: cpu_ctx_t where
  "zero_ctx = \<lparr>ctx_r = replicate 13 0, ctx_sp = 0, ctx_lr = 0, ctx_pc = 0, ctx_cpsr = 0, ctx_fpscr = 0, ctx_vfp = replicate 64 0\<rparr>"

definition shell_of :: "u32 \<Rightarrow> process_t" where
  "shell_of tt = \<lparr>pid = 0, pgd = tt, p_sp = 0, p_entry = 0, ctx = zero_ctx, suspended = 0, wake_tick = 0, join_target = 0,
     stack_pt = 0, stack_pages = 0, heap_end = 0\<rparr>"

definition replace_fields :: "u32 \<Rightarrow> u32 \<Rightarrow> process_t \<Rightarrow> process_t \<Rightarrow> process_t" where
  "replace_fields tt e tmp p =
     p\<lparr>pgd := tt, p_entry := e, p_sp := PROC_STACK_TOP - 16, heap_end := PROC_HEAP_START, stack_pt := stack_pt tmp,
       stack_pages := stack_pages tmp, ctx := zero_ctx\<lparr>ctx_sp := PROC_STACK_TOP - 16, ctx_pc := e, ctx_cpsr := 0x10\<rparr>\<rparr>"

text \<open>
  The result says whether the routine returns to its caller (\<open>None\<close>) or switches to the replaced process.
\<close>

definition process_replace :: "'d platform \<Rightarrow> u32 \<Rightarrow> u32 \<Rightarrow> 'd kernel \<Rightarrow> (exit_t option \<times> 'd kernel) outcome option" where
  "process_replace P i name k =
     (let p = sched_get i (k_sched k); kname = local_buf P
      in if p = 0 then done_with None k
         else bind_out (user_strcpy P kname name k) (\<lambda>k.
           bind_out (on_mm mmu_alloc_proc_table k) (\<lambda>(new_pgd, k).
             if new_pgd = 0 then done_with None k
             else bind_out (load_user_image P new_pgd kname k) (\<lambda>(e, k).
               case e of
                 None \<Rightarrow> bind_out (on_mm_unit (mmu_free_proc_table new_pgd) k) (done_with None)
               | Some e \<Rightarrow>
                   bind_out (setup_initial_stack (kpb P) (shell_of new_pgd, k_mm k)) (\<lambda>(ok, tmp, s).
                     let k = k\<lparr>k_mm := s\<rparr>
                     in if \<not> ok then bind_out (on_mm_unit (free_space (kpb P) new_pgd) k) (done_with None)
                        else
                          let old_pgd = pgd (kproc k p);
                              k = on_proc p (replace_fields new_pgd e tmp) k
                          in bind_out (on_mm_unit (free_space (kpb P) old_pgd) k) (\<lambda>k.
                               if p = current_proc (k_sched k) then done_with (Some Switched) (switch_to P p k)
                               else done_with None k))))))"

end
