(* ===== verification/Leg_Syscall.thy ===== *)
theory Leg_Syscall
  imports Leg_Process
begin

text \<open>
  The system call handlers and the dispatcher of \<^verbatim>\<open>src/kernel/syscall.c\<close>. A handler gets the four argument
  registers; what the entry code and the coprocessors supply is in \<open>svc_env\<close>. User buffers are read and written
  byte by byte through the table in \<open>ttbr0\<close>, with no check of the address, as in the source.
\<close>

section \<open>Calls and results\<close>

record svc_env =
  svc_saved_lr :: u32
  sp_usr :: u32
  spsr :: u32
  cntfrq :: u32
  cntpct :: u64

text \<open>
  A call returns the value for the register r0, waits for input (in the state in which it spins), or never returns
  because its process is gone. The character readers leave the line buffer when their index does (see \<open>Leg_Tty\<close>).
\<close>

datatype svc_t = Svc_returns u32 | Svc_waits | Svc_ends exit_t | Svc_out_of_bounds

abbreviation svc_done :: "u32 \<Rightarrow> 'd kernel \<Rightarrow> (svc_t \<times> 'd kernel) outcome option" where
  "svc_done r k \<equiv> done_with (Svc_returns r) k"

definition on_sched :: "(sched_state \<Rightarrow> u32 \<times> sched_state) \<Rightarrow> 'd kernel \<Rightarrow> (svc_t \<times> 'd kernel) outcome option" where
  "on_sched f k = (let (r, s) = f (k_sched k) in svc_done r (k\<lparr>k_sched := s\<rparr>))"

definition on_fb :: "(fb_state \<Rightarrow> fb_state) \<Rightarrow> 'd kernel \<Rightarrow> (svc_t \<times> 'd kernel) outcome option" where
  "on_fb f k = svc_done 0 (k\<lparr>k_fb := f (k_fb k)\<rparr>)"

text \<open>What a terminal routine prints is drawn white on black.\<close>

definition on_tty :: "'d platform \<Rightarrow> (tty_state \<Rightarrow> 'a \<times> tty_state) \<Rightarrow> 'd kernel \<Rightarrow> 'a \<times> 'd kernel" where
  "on_tty P f k =
     (let (a, t) = f (k_tty k);
          printed = drop (length (tty_out (k_tty k))) (tty_out t)
      in (a, k\<lparr>k_tty := t, k_fb := fold (\<lambda>c. fb_putc (font P) c FB_WHITE FB_BLACK) printed (k_fb k)\<rparr>))"

section \<open>Processes\<close>

definition svc_exit :: "'d platform \<Rightarrow> u32 \<Rightarrow> 'd kernel \<Rightarrow> (svc_t \<times> 'd kernel) outcome option" where
  "svc_exit P r0 k = bind_out (process_exit P (svc_getpid (k_sched k)) r0 k) (\<lambda>(e, k). done_with (Svc_ends e) k)"

definition svc_fork :: "'d platform \<Rightarrow> svc_env \<Rightarrow> 'd kernel \<Rightarrow> (svc_t \<times> 'd kernel) outcome option" where
  "svc_fork P env k =
     bind_out (process_fork P (svc_saved_lr env) (sp_usr env) (spsr env) k) (\<lambda>(child, k).
       svc_done (if child \<noteq> 0 then pid (kproc k child) else -1) k)"

definition svc_exec :: "'d platform \<Rightarrow> u32 \<Rightarrow> 'd kernel \<Rightarrow> (svc_t \<times> 'd kernel) outcome option" where
  "svc_exec P r0 k =
     bind_out (process_replace P (svc_getpid (k_sched k)) r0 k) (\<lambda>(e, k).
       case e of None \<Rightarrow> svc_done 0 k | Some e \<Rightarrow> done_with (Svc_ends e) k)"

section \<open>Input and output\<close>

fun write_from :: "'d platform \<Rightarrow> nat \<Rightarrow> u32 \<Rightarrow> 'd kernel \<Rightarrow> 'd kernel outcome" where
  "write_from P 0 a k = Returns k"
| "write_from P (Suc n) a k =
     (case load_byte P a k of
        Panics e \<Rightarrow> Panics e
      | Returns c \<Rightarrow> write_from P n (a + 1) (snd (on_tty P (\<lambda>t. ((), tty_putchar c t)) k)))"

definition svc_write :: "'d platform \<Rightarrow> u32 \<Rightarrow> u32 \<Rightarrow> 'd kernel \<Rightarrow> (svc_t \<times> 'd kernel) outcome option" where
  "svc_write P r0 r1 k = bind_out (Some (write_from P (unat r1) r0 k)) (svc_done r1)"

text \<open>
  \<^verbatim>\<open>tty_readline\<close> into a user buffer: the bytes it stores are the pending line and the terminator at the index it
  returns; with an empty line it stores nothing.
\<close>

fun store_bytes :: "'d platform \<Rightarrow> u32 \<Rightarrow> u8 list \<Rightarrow> 'd kernel \<Rightarrow> 'd kernel outcome" where
  "store_bytes P a [] k = Returns k"
| "store_bytes P a (c # cs) k =
     (case store_byte P a c k of Panics e \<Rightarrow> Panics e | Returns k \<Rightarrow> store_bytes P (a + 1) cs k)"

definition store_line :: "'d platform \<Rightarrow> u32 \<Rightarrow> u8 list \<Rightarrow> u32 \<Rightarrow> 'd kernel \<Rightarrow> 'd kernel outcome" where
  "store_line P buf line n k =
     (if line = [] then Returns k
      else (case store_bytes P buf line k of Panics e \<Rightarrow> Panics e | Returns k \<Rightarrow> store_byte P (buf + n) 0 k))"

definition svc_read :: "'d platform \<Rightarrow> u32 \<Rightarrow> u32 \<Rightarrow> 'd kernel \<Rightarrow> (svc_t \<times> 'd kernel) outcome option" where
  "svc_read P r0 r1 k =
     (let (r, t, m) = tty_readline r0 r1 (k_tty k, kmem k)
      in case r of
           Done n \<Rightarrow> bind_out (Some (store_line P r0 (pending (k_tty k)) n k)) (\<lambda>k. svc_done n (k\<lparr>k_tty := t\<rparr>))
         | Waits \<Rightarrow> done_with Svc_waits (k\<lparr>k_tty := t\<rparr>)
         | Out_of_bounds \<Rightarrow> done_with Svc_out_of_bounds (k\<lparr>k_tty := t\<rparr>))"

definition char_call :: "(tty_state \<Rightarrow> u8 access \<times> tty_state) \<Rightarrow> 'd kernel \<Rightarrow> (svc_t \<times> 'd kernel) outcome option" where
  "char_call f k =
     (let (r, t) = f (k_tty k); k = k\<lparr>k_tty := t\<rparr>
      in case r of Done c \<Rightarrow> svc_done (ucast c) k | Waits \<Rightarrow> done_with Svc_waits k | Out_of_bounds \<Rightarrow> done_with Svc_out_of_bounds k)"

definition svc_getchar :: "'d kernel \<Rightarrow> (svc_t \<times> 'd kernel) outcome option" where
  "svc_getchar = char_call tty_getchar"

definition svc_getchar_nb :: "'d kernel \<Rightarrow> (svc_t \<times> 'd kernel) outcome option" where
  "svc_getchar_nb = char_call tty_getchar_nb"

fun uart_write_from :: "'d platform \<Rightarrow> nat \<Rightarrow> u32 \<Rightarrow> 'd kernel \<Rightarrow> 'd kernel outcome" where
  "uart_write_from P 0 a k = Returns k"
| "uart_write_from P (Suc n) a k =
     (case load_byte P a k of
        Panics e \<Rightarrow> Panics e
      | Returns c \<Rightarrow> uart_write_from P n (a + 1) (k\<lparr>k_uart := uart_putchar c (k_uart k)\<rparr>))"

definition svc_uart_write :: "'d platform \<Rightarrow> u32 \<Rightarrow> u32 \<Rightarrow> 'd kernel \<Rightarrow> (svc_t \<times> 'd kernel) outcome option" where
  "svc_uart_write P r0 r1 k = bind_out (Some (uart_write_from P (unat r1) r0 k)) (svc_done r1)"

section \<open>Time, framebuffer, random numbers\<close>

definition word_bytes :: "nat \<Rightarrow> 'w::len word \<Rightarrow> u8 list" where
  "word_bytes n v = map (\<lambda>i. ucast (drop_bit (8 * i) v)) [0..<n]"

definition svc_ticks :: "'d platform \<Rightarrow> svc_env \<Rightarrow> u32 \<Rightarrow> 'd kernel \<Rightarrow> (svc_t \<times> 'd kernel) outcome option" where
  "svc_ticks P env r0 k = bind_out (Some (store_bytes P r0 (word_bytes 8 (cntpct env)) k)) (svc_done 0)"

definition svc_cntfrq :: "svc_env \<Rightarrow> 'd kernel \<Rightarrow> (svc_t \<times> 'd kernel) outcome option" where
  "svc_cntfrq env k = svc_done (cntfrq env) k"

definition svc_fb_putc :: "'d platform \<Rightarrow> u32 \<Rightarrow> u32 \<Rightarrow> u32 \<Rightarrow> u32 \<Rightarrow> 'd kernel \<Rightarrow> (svc_t \<times> 'd kernel) outcome option" where
  "svc_fb_putc P r0 r1 r2 r3 = on_fb (fb_putc_at (font P) (drop_bit 16 r0) (r0 AND 0xFFFF) (ucast r1) r2 r3)"

definition svc_rand :: "'d kernel \<Rightarrow> (svc_t \<times> 'd kernel) outcome option" where
  "svc_rand k = (let (r, s) = sys_rand32 (k_rng k) in svc_done r (k\<lparr>k_rng := s\<rparr>))"

definition svc_rand_seed :: "u32 \<Rightarrow> 'd kernel \<Rightarrow> (svc_t \<times> 'd kernel) outcome option" where
  "svc_rand_seed r0 k = svc_done 0 (k\<lparr>k_rng := sys_rng_seed r0\<rparr>)"

section \<open>Block device and file system\<close>

definition bool_call :: "('d kernel \<Rightarrow> (bool \<times> 'd kernel) outcome option) \<Rightarrow> 'd kernel \<Rightarrow> (svc_t \<times> 'd kernel) outcome option" where
  "bool_call f k = bind_out (f k) (\<lambda>(ok, k). svc_done (if ok then 1 else 0) k)"

definition sector_of :: "u32 \<Rightarrow> u32 \<Rightarrow> u64" where
  "sector_of lo hi = ucast lo OR push_bit 32 (ucast hi)"

definition svc_blk_read :: "'d platform \<Rightarrow> u32 \<Rightarrow> u32 \<Rightarrow> u32 \<Rightarrow> u32 \<Rightarrow> 'd kernel \<Rightarrow> (svc_t \<times> 'd kernel) outcome option" where
  "svc_blk_read P r0 r1 r2 r3 = bool_call (on_blk (blk_read (device P) (kpb P) (symbols P) (sector_of r0 r1) r2 r3))"

definition svc_blk_write :: "'d platform \<Rightarrow> u32 \<Rightarrow> u32 \<Rightarrow> u32 \<Rightarrow> u32 \<Rightarrow> 'd kernel \<Rightarrow> (svc_t \<times> 'd kernel) outcome option" where
  "svc_blk_write P r0 r1 r2 r3 = bool_call (on_blk (blk_write (device P) (kpb P) (symbols P) (sector_of r0 r1) r2 r3))"

text \<open>The loop of \<^verbatim>\<open>svc_fs_blob_info\<close> looks the name's address up at every iteration.\<close>

fun copy_blob_name :: "'d platform \<Rightarrow> u32 \<Rightarrow> u32 \<Rightarrow> nat list \<Rightarrow> 'd kernel \<Rightarrow> 'd kernel outcome" where
  "copy_blob_name P b name_buf [] k = Returns k"
| "copy_blob_name P b name_buf (i # is) k =
     (case load_byte P (fs_blob_name b k + w32 i) k of
        Panics e \<Rightarrow> Panics e
      | Returns c \<Rightarrow>
          (case store_byte P (name_buf + w32 i) c k of Panics e \<Rightarrow> Panics e | Returns k \<Rightarrow> copy_blob_name P b name_buf is k))"

definition svc_fs_blob_info :: "'d platform \<Rightarrow> u32 \<Rightarrow> u32 \<Rightarrow> u32 \<Rightarrow> u32 \<Rightarrow> 'd kernel \<Rightarrow> (svc_t \<times> 'd kernel) outcome option" where
  "svc_fs_blob_info P loc name_buf buf_size size_out k =
     (let b = fs_blob_at loc k
      in if b = 0 then svc_done 0 k
         else
           let len = ucast (name_size (blob_at (kmem k) b));
               copy_len = (if buf_size - 1 < len then buf_size - 1 else len)
           in bind_out (Some (copy_blob_name P b name_buf [0..<unat copy_len] k)) (\<lambda>k.
                bind_out (Some (store_byte P (name_buf + copy_len) 0 k)) (\<lambda>k.
                  bind_out (Some (if size_out \<noteq> 0 then store_bytes P size_out (word_bytes 4 copy_len) k else Returns k)) (\<lambda>k.
                    svc_done b k))))"

section \<open>Dispatch\<close>

text \<open>The table \<^verbatim>\<open>svc_handlers\<close>, indexed by the numbers of \<^verbatim>\<open>include/syscall.h\<close>.\<close>

definition svc_handlers ::
  "'d platform \<Rightarrow> svc_env \<Rightarrow> u32 \<Rightarrow> u32 \<Rightarrow> u32 \<Rightarrow> u32 \<Rightarrow> ('d kernel \<Rightarrow> (svc_t \<times> 'd kernel) outcome option) list" where
  "svc_handlers P env r0 r1 r2 r3 =
     [svc_exit P r0, svc_fork P env, (\<lambda>k. svc_done (svc_getpid (k_sched k)) k), on_sched (svc_join r0), svc_exec P r0,
      svc_write P r0 r1, svc_read P r0 r1, svc_getchar, svc_getchar_nb,
      on_sched (svc_sleep r0 (ucast (cntfrq env)) (cntpct env)), svc_ticks P env r0, svc_cntfrq env,
      on_fb (fb_clear r0), on_fb (fb_putpixel r0 r1 r2), svc_fb_putc P r0 r1 r2 r3,
      svc_rand, svc_rand_seed r0, svc_uart_write P r0 r1,
      svc_blk_read P r0 r1 r2 r3, svc_blk_write P r0 r1 r2 r3,
      (\<lambda>k. svc_done (fs_blob_count k) k), svc_fs_blob_info P r0 r1 r2 r3]"

definition svc_dispatch ::
  "'d platform \<Rightarrow> svc_env \<Rightarrow> u32 \<Rightarrow> u32 \<Rightarrow> u32 \<Rightarrow> u32 \<Rightarrow> u32 \<Rightarrow> 'd kernel \<Rightarrow> (svc_t \<times> 'd kernel) outcome option" where
  "svc_dispatch P env r0 r1 r2 r3 svc_num k =
     (let handlers = svc_handlers P env r0 r1 r2 r3
      in if unat svc_num < length handlers then (handlers ! unat svc_num) k else svc_done 0 k)"

end
