(* ===== verification/Leg_Bump.thy ===== *)
theory Leg_Bump
  imports Leg_Dtb_Props
begin

text \<open>
  The early allocator \<^verbatim>\<open>src/kernel/mem/bump.c\<close>, which serves the device tree parser before the memory manager
  exists: it hands out consecutive pieces of one region and takes them all back at once.
\<close>

section \<open>Operations\<close>

record bump_state =
  early_heap_base :: u32
  early_heap_end :: u32
  early_heap_ptr :: u32

definition early_malloc_init :: "u32 \<Rightarrow> u32 \<Rightarrow> bump_state \<Rightarrow> bump_state" where
  "early_malloc_init base sz s = s\<lparr>early_heap_base := base, early_heap_end := base + sz, early_heap_ptr := base\<rparr>"

definition early_malloc :: "bump_state \<Rightarrow> u32 \<Rightarrow> u32 \<times> bump_state" where
  "early_malloc s sz =
     (let current_ptr = early_heap_ptr s
      in if early_heap_ptr s + sz > early_heap_end s then (0, s)
         else (current_ptr, s\<lparr>early_heap_ptr := early_heap_ptr s + sz\<rparr>))"

definition early_malloc_reset :: "bump_state \<Rightarrow> bump_state" where
  "early_malloc_reset s = s\<lparr>early_heap_ptr := early_heap_base s\<rparr>"

section \<open>The pieces of a run of requests\<close>

fun requests :: "u32 list \<Rightarrow> bump_state \<Rightarrow> u32 list \<times> bump_state" where
  "requests [] s = ([], s)"
| "requests (n # ns) s = (let (p, s) = early_malloc s n; (ps, s) = requests ns s in (p # ps, s))"

definition bump_ok :: "bump_state \<Rightarrow> bool" where
  "bump_ok s \<longleftrightarrow> 0 < early_heap_base s \<and> early_heap_base s \<le> early_heap_ptr s \<and> early_heap_ptr s \<le> early_heap_end s"

definition room :: "bump_state \<Rightarrow> nat" where
  "room s = unat (early_heap_end s) - unat (early_heap_ptr s)"

text \<open>Piece \<open>i\<close> of the answers starts where the pieces before it end.\<close>

definition piece :: "bump_state \<Rightarrow> u32 list \<Rightarrow> nat \<Rightarrow> nat" where
  "piece s ns i = unat (early_heap_ptr s) + sum_list (map unat (take i ns))"

lemma early_malloc_fits:
  assumes "bump_ok s" "unat n \<le> room s"
  shows "early_malloc s n = (early_heap_ptr s, s\<lparr>early_heap_ptr := early_heap_ptr s + n\<rparr>)"
    and "unat (early_heap_ptr s + n) = unat (early_heap_ptr s) + unat n" "bump_ok (s\<lparr>early_heap_ptr := early_heap_ptr s + n\<rparr>)"
proof -
  have "unat (early_heap_end s) < 2 ^ 32" using unsigned_less [of "early_heap_end s", where 'a = nat] by simp
  moreover have "unat (early_heap_ptr s) \<le> unat (early_heap_end s)" "unat n \<le> unat (early_heap_end s) - unat (early_heap_ptr s)"
    using assms by (auto simp: bump_ok_def room_def word_le_nat_alt)
  ultimately have le: "unat (early_heap_ptr s) + unat n \<le> unat (early_heap_end s)" "unat (early_heap_ptr s) + unat n < 2 ^ 32"
    by linarith+
  then show sum: "unat (early_heap_ptr s + n) = unat (early_heap_ptr s) + unat n" by (simp add: unat_word_ariths)
  show "early_malloc s n = (early_heap_ptr s, s\<lparr>early_heap_ptr := early_heap_ptr s + n\<rparr>)"
    using le sum by (simp add: early_malloc_def word_less_nat_alt)
  show "bump_ok (s\<lparr>early_heap_ptr := early_heap_ptr s + n\<rparr>)"
    using assms(1) le sum by (auto simp: bump_ok_def word_le_nat_alt)
qed

lemma requests_fit:
  assumes "bump_ok s" "sum_list (map unat ns) \<le> room s"
  shows "map unat (fst (requests ns s)) = map (piece s ns) [0..<length ns] \<and>
    unat (early_heap_ptr (snd (requests ns s))) = unat (early_heap_ptr s) + sum_list (map unat ns)"
  using assms
proof (induction ns arbitrary: s)
  case (Cons n ns)
  let ?s = "s\<lparr>early_heap_ptr := early_heap_ptr s + n\<rparr>"
  have n: "unat n \<le> room s" using Cons.prems(2) by simp
  note fit = early_malloc_fits [OF Cons.prems(1) n]
  have "sum_list (map unat ns) \<le> room ?s" using Cons.prems(2) fit(2) by (simp add: room_def)
  note IH = Cons.IH [OF fit(3) this]
  have "[0..<length (n # ns)] = 0 # map Suc [0..<length ns]" by (simp add: upt_conv_Cons map_Suc_upt del: upt_Suc)
  moreover have "piece s (n # ns) 0 = unat (early_heap_ptr s)" "\<And>i. piece s (n # ns) (Suc i) = piece ?s ns i"
    using fit(2) by (simp_all add: piece_def)
  ultimately show ?case using IH fit(1,2) by (auto simp: Let_def split: prod.splits)
qed (simp add: piece_def)

lemma piece_next: "i < length ns \<Longrightarrow> piece s ns (Suc i) = piece s ns i + unat (ns ! i)"
  by (simp add: piece_def take_Suc_conv_app_nth)

lemma piece_mono: "i \<le> j \<Longrightarrow> piece s ns i \<le> piece s ns j"
  by (auto simp: piece_def le_iff_add take_add)

text \<open>
  C1: a run of requests that fits the region gets pieces inside the region, none null, in order and without overlap.
\<close>

theorem early_malloc_pieces:
  assumes "0 < base" "unat base + unat sz < 2 ^ 32" "sum_list (map unat ns) \<le> unat sz"
    and "requests ns (early_malloc_init base sz s) = (ps, s')"
  shows "length ps = length ns \<and>
    (\<forall>i < length ns. ps ! i \<noteq> 0 \<and> unat base \<le> unat (ps ! i) \<and> unat (ps ! i) + unat (ns ! i) \<le> unat base + unat sz) \<and>
    (\<forall>i j. i < j \<and> j < length ns \<longrightarrow> unat (ps ! i) + unat (ns ! i) \<le> unat (ps ! j)) \<and>
    early_heap_ptr (early_malloc_reset s') = base"
proof -
  let ?s = "early_malloc_init base sz s"
  have "unat (base + sz) = unat base + unat sz" using assms(2) by (simp add: unat_word_ariths)
  then have ok: "bump_ok ?s" "room ?s = unat sz" "unat (early_heap_ptr ?s) = unat base"
    using assms(1) by (auto simp: bump_ok_def early_malloc_init_def room_def word_le_nat_alt)
  have ps: "map unat ps = map (piece ?s ns) [0..<length ns]"
    using requests_fit [OF ok(1), of ns] assms(3,4) ok(2) by simp
  then have len: "length ps = length ns" by (metis length_map length_upt minus_nat.diff_0)
  have at: "unat (ps ! i) = piece ?s ns i" if "i < length ns" for i
    using arg_cong [OF ps, of "\<lambda>xs. xs ! i"] that len by simp
  have last: "piece ?s ns (length ns) \<le> unat base + unat sz" using assms(3) ok(3) by (simp add: piece_def)
  have first: "unat base \<le> piece ?s ns i" for i using ok(3) by (simp add: piece_def)
  have nxt: "piece ?s ns i + unat (ns ! i) \<le> piece ?s ns j" if "i < j" "i < length ns" for i j
    using piece_mono [of "Suc i" j ?s ns] piece_next [of i ns ?s] that by simp
  have "early_heap_base s' = base" if "requests ns t = (ps', s')" "early_heap_base t = base" for t ps'
    using that by (induction ns arbitrary: t ps') (auto simp: Let_def early_malloc_def split: prod.splits if_splits)
  then have "early_heap_base s' = base" using assms(4) by (simp add: early_malloc_init_def)
  moreover have "ps ! i \<noteq> 0" if "i < length ns" for i
    using at [OF that] first [of i] assms(1) by (auto simp: word_less_nat_alt)
  ultimately show ?thesis
    using len at first nxt last nxt [of _ "length ns"] by (auto simp: early_malloc_reset_def) (use le_trans in fastforce)
qed

text \<open>The early heap of 128 KB that the boot code sets up gives the parser the two tables it asks for.\<close>

theorem early_malloc_serves_dtb_parse:
  assumes "0 < base" "unat base + 0x20000 < 2 ^ 32"
  shows "\<exists>s'. alloc_ok early_malloc (early_malloc_init base 0x20000 s) s' \<and> early_heap_ptr s' = base + 25600"
proof -
  let ?s = "early_malloc_init base 0x20000 s"
  have "unat (base + 0x20000) = unat base + 0x20000" using assms(2) by (simp add: unat_word_ariths)
  then have ok: "bump_ok ?s" "room ?s = 0x20000" "early_heap_ptr ?s = base" "early_heap_end ?s = base + 0x20000"
    using assms(1) by (auto simp: bump_ok_def early_malloc_init_def room_def word_le_nat_alt)
  have "unat (9216 :: u32) \<le> room ?s" using ok(2) by simp
  note fit1 = early_malloc_fits [OF ok(1) this]
  have "room (?s\<lparr>early_heap_ptr := early_heap_ptr ?s + 9216\<rparr>) = 0x20000 - 9216"
    using fit1(2) ok(2) by (simp add: room_def)
  then have "unat (16384 :: u32) \<le> room (?s\<lparr>early_heap_ptr := early_heap_ptr ?s + 9216\<rparr>)" by simp
  note fit2 = early_malloc_fits [OF fit1(3) this]
  have "base \<noteq> 0" "base + 9216 \<noteq> 0" using assms(1) fit1(2) ok(3) by auto
  then show ?thesis using fit1(1) fit2(1) ok(3) by (simp add: alloc_ok_def add.assoc)
qed

definition bump0 :: bump_state where
  "bump0 = \<lparr>early_heap_base = 0, early_heap_end = 0, early_heap_ptr = 0\<rparr>"

theorem early_malloc_pieces_witness:
  "\<exists>ps s'. requests [16, 100] (early_malloc_init 0x40010000 256 bump0) = (ps, s') \<and> unat (ps ! 0) + 16 \<le> unat (ps ! 1)"
proof -
  obtain ps s' where r: "requests [16, 100] (early_malloc_init 0x40010000 256 bump0) = (ps, s')" by fastforce
  from early_malloc_pieces [OF _ _ _ r]
  have "\<forall>i j. i < j \<and> j < length [16, 100 :: u32] \<longrightarrow> unat (ps ! i) + unat ([16, 100 :: u32] ! i) \<le> unat (ps ! j)" by simp
  from spec [OF spec [OF this, of 0], of 1] show ?thesis using r by simp
qed

theorem early_malloc_serves_dtb_parse_witness:
  "\<exists>s'. alloc_ok early_malloc (early_malloc_init 0x40010000 0x20000 bump0) s' \<and>
     early_heap_ptr s' = 0x40016400"
  using early_malloc_serves_dtb_parse [of "0x40010000" bump0] by simp

end
