(* ===== verification/Leg_Mm_Client.thy ===== *)
theory Leg_Mm_Client
  imports Leg_Heap_Client Leg_Pmm
begin

text \<open>
  The memory manager as the process code sees it: the heap and the page allocator together, over one byte memory.
  \<open>mm_ok\<close> says that both are well formed and that the page bitmap is no part of the heap; \<open>mm_keep L\<close> is what a
  client relies on across calls of either allocator: the blocks \<open>L\<close> stay live with their bytes, and so does all other
  memory outside the heap and the bitmap.
\<close>

section \<open>Both allocators\<close>

definition in_bitmap :: "mm_state \<Rightarrow> nat \<Rightarrow> bool" where
  "in_bitmap s x \<longleftrightarrow> bm_bytes (bm_of (g_pmm s)) (w32 x)"

definition mm_ok :: "mm_state \<Rightarrow> bool" where
  "mm_ok s \<longleftrightarrow> heap_ok s \<and> pmm_ok s \<and> (\<forall>x < 2 ^ 32. in_bitmap s x \<longrightarrow> \<not> in_heap s x)"

definition same_areas :: "mm_state \<Rightarrow> mm_state \<Rightarrow> bool" where
  "same_areas s s' \<longleftrightarrow> kh_base (g_kheap s') = kh_base (g_kheap s) \<and> kh_capacity (g_kheap s') = kh_capacity (g_kheap s) \<and>
     bm_of (g_pmm s') = bm_of (g_pmm s) \<and> ram_base (g_pmm s') = ram_base (g_pmm s) \<and> ram_end (g_pmm s') = ram_end (g_pmm s)"

definition mm_keep :: "(nat \<times> nat) set \<Rightarrow> mm_state \<Rightarrow> mm_state \<Rightarrow> bool" where
  "mm_keep L s s' \<longleftrightarrow> mm_ok s' \<and> L \<subseteq> live s' \<and> same_areas s s' \<and>
     (\<forall>x < 2 ^ 32. \<not> in_heap s x \<and> \<not> in_bitmap s x \<or> x \<in> bytes_of L \<longrightarrow> byte_at s' x = byte_at s x)"

lemma same_areas_simps:
  assumes "same_areas s s'"
  shows "in_heap s' x = in_heap s x" "in_bitmap s' x = in_bitmap s x" "managed s' = managed s"
  using assms by (auto simp: same_areas_def in_heap_def in_bitmap_def managed_def pa_in_range_def)

lemma mm_keepD:
  assumes "mm_keep L s s'"
  shows "mm_ok s'" "L \<subseteq> live s'" "same_areas s s'" "\<And>x. in_heap s' x = in_heap s x" "\<And>x. in_bitmap s' x = in_bitmap s x"
    "managed s' = managed s"
  using assms same_areas_simps [of s s'] by (auto simp: mm_keep_def)

lemma mm_keep_refl: "mm_ok s \<Longrightarrow> L \<subseteq> live s \<Longrightarrow> mm_keep L s s"
  by (simp add: mm_keep_def same_areas_def)

lemma mm_keep_spends: "mm_keep L s s' \<Longrightarrow> live s' \<subseteq> live s \<Longrightarrow> spends c s s'"
  by (rule spends_live) (simp_all add: mm_keep_def same_areas_def)

lemma mm_keep_trans:
  assumes "mm_keep L s s'" "mm_keep L s' s''"
  shows "mm_keep L s s''"
proof -
  have "same_areas s s''" using assms by (simp add: mm_keep_def same_areas_def)
  then show ?thesis using assms mm_keepD(4,5) [OF assms(1)] by (simp add: mm_keep_def)
qed

lemma mm_keep_mono: "mm_keep L s s' \<Longrightarrow> M \<subseteq> L \<Longrightarrow> mm_keep M s s'"
  by (fastforce simp: mm_keep_def bytes_of_def)

lemma mm_keep_byte: "mm_keep L s s' \<Longrightarrow> (p, n) \<in> L \<Longrightarrow> p \<le> x \<Longrightarrow> x < p + n \<Longrightarrow> x < 2 ^ 32 \<Longrightarrow> byte_at s' x = byte_at s x"
  by (fastforce simp: mm_keep_def bytes_of_def)

section \<open>The heap does not disturb the pages\<close>

lemma bm_test_bytes:
  assumes "bm_wf (bm, n)" "i < n" "\<And>a. bm_bytes (bm, n) a \<Longrightarrow> m' a = m a"
  shows "bm_test m' bm (w32 i) = bm_test m bm (w32 i)"
proof -
  have "m' (bm + 4 * (w32 i div 32) + w32 k) = m (bm + 4 * (w32 i div 32) + w32 k)" if "k < 4" for k
    using assms(3) bm_word_in_bytes [OF assms(1,2) that] by (simp add: bm_bytes_def)
  from this [of 0] this [of 1] this [of 2] this [of 3]
  have "rd32 m' (bm + 4 * (w32 i div 32)) = rd32 m (bm + 4 * (w32 i div 32))" by (simp add: rd32_def add.assoc)
  then show ?thesis by (simp add: bm_test_def)
qed

lemma pmm_same_bitmap:
  assumes "pmm_ok s" "g_pmm s' = g_pmm s" "\<And>a. bm_bytes (bm_of (g_pmm s)) a \<Longrightarrow> mem s' a = mem s a"
  shows "pmm_ok s'" "avail s' = avail s"
proof -
  have geom: "pmm_geom (g_pmm s)" using assms(1) by (simp add: pmm_ok_def pmm_inv_def)
  then have wf: "bm_wf (bitmap (g_pmm s), unat (total_pages (g_pmm s)))" by (auto simp: pmm_geom_def bm_of_def simp del: bm_wf.simps)
  have "bm_test (mem s') (bitmap (g_pmm s)) (w32 i) = bm_test (mem s) (bitmap (g_pmm s)) (w32 i)"
    if "i < unat (total_pages (g_pmm s))" for i
    using assms(3) by (intro bm_test_bytes [OF wf that]) (simp add: bm_of_def)
  then have free: "free_idx s' = free_idx s" by (auto simp: free_idx_iff assms(2))
  then show "pmm_ok s'" using assms(1,2) by (simp add: pmm_ok_def pmm_inv_def)
  show "avail s' = avail s" using free assms(2) geom by (simp add: avail_image)
qed

lemma mm_keep_heap:
  assumes ok: "mm_ok s" and k: "keep L s s'"
  shows "mm_keep L s s'" "avail s' = avail s"
proof -
  have g: "g_pmm s' = g_pmm s" using k by (simp add: keep_def)
  have bytes: "mem s' a = mem s a" if "bm_bytes (bm_of (g_pmm s)) a" for a
  proof -
    have "in_bitmap s (unat a)" using that by (simp add: in_bitmap_def)
    then have "\<not> in_heap s (unat a)" using ok unat_lt_32 [of a] by (simp add: mm_ok_def)
    then have "byte_at s' (unat a) = byte_at s (unat a)" using k unat_lt_32 [of a] by (simp add: keep_def)
    then show ?thesis by (simp add: byte_at_def)
  qed
  have p: "pmm_ok s'" "avail s' = avail s" using pmm_same_bitmap [OF _ g bytes] ok by (auto simp: mm_ok_def)
  show "avail s' = avail s" by (rule p(2))
  have areas: "same_areas s s'" using k by (simp add: keep_def same_areas_def)
  show "mm_keep L s s'"
    using k p(1) ok same_areas_simps [OF areas] areas by (auto simp: mm_keep_def mm_ok_def keep_def)
qed

section \<open>The pages do not disturb the heap\<close>

lemma heap_same_bytes:
  assumes "heap_ok s" "g_kheap s' = g_kheap s" "\<And>x. x < 2 ^ 32 \<Longrightarrow> in_heap s x \<Longrightarrow> byte_at s' x = byte_at s x"
  shows "heap_ok s'" "live s' = live s"
proof -
  have "heap_ok (s\<lparr>mem := mem s'\<rparr>) \<and> live (s\<lparr>mem := mem s'\<rparr>) = live s"
    using settled_write [OF assms(1), of "mem s'"] assms(3) by (auto simp: settled_def byte_at_def)
  moreover have rep: "heap_rep s' bs \<longleftrightarrow> heap_rep (s\<lparr>mem := mem s'\<rparr>) bs" for bs
    using assms(2) by (simp add: heap_rep_def heap_pre_def)
  moreover have "live s' = live (s\<lparr>mem := mem s'\<rparr>)" by (simp add: live_def rep)
  ultimately show "heap_ok s'" "live s' = live s" by (auto simp: heap_ok_def)
qed

lemma mm_keep_pages:
  assumes ok: "mm_ok s" and f: "pmm_frame s s'" and p: "pmm_ok s'"
  shows "mm_keep (live s) s s'" "live s' = live s"
proof -
  have same: "byte_at s' x = byte_at s x" if "\<not> in_bitmap s x" for x
    using f that by (simp add: pmm_frame_def in_bitmap_def byte_at_def)
  have "in_heap s x \<Longrightarrow> x < 2 ^ 32 \<Longrightarrow> \<not> in_bitmap s x" for x using ok by (auto simp: mm_ok_def)
  then have heap: "heap_ok s'" "live s' = live s"
    using heap_same_bytes [of s s'] ok f same by (auto simp: mm_ok_def pmm_frame_def)
  have areas: "same_areas s s'" using f by (simp add: pmm_frame_def same_areas_def)
  have "in_heap s x" if "x \<in> bytes_of (live s)" for x
    using that live_bounds(1,2) [of s] ok by (fastforce simp: bytes_of_def in_heap_def mm_ok_def)
  then show "mm_keep (live s) s s'"
    using areas heap p ok same same_areas_simps [OF areas] by (auto simp: mm_keep_def mm_ok_def)
  show "live s' = live s" by (rule heap(2))
qed

lemma page_alloc_client:
  assumes "mm_ok s"
  obtains (none) "mm_page_alloc s = (0, s)" "avail s = {}"
  | (page) pa s' where "mm_page_alloc s = (pa, s')" "pa \<noteq> 0" "pa \<in> avail s" "avail s' = avail s - {pa}" "live s' = live s"
      "mm_keep (live s) s s'"
proof (cases "avail s = {}")
  case True
  then show ?thesis using none pmm.al_empty [of s] assms by (simp add: mm_ok_def)
next
  case False
  have p: "pmm_ok s" using assms by (simp add: mm_ok_def)
  obtain pa s' where al: "mm_page_alloc s = (pa, s')" by fastforce
  note a = mm_page_alloc_page [OF p False al]
  have "pa \<noteq> 0" using a(1) managed_not_0 [OF p] by (auto simp: avail_def)
  then show ?thesis using page [OF al] a mm_keep_pages [OF assms a(2)] by simp
qed

lemma page_free_client:
  assumes "mm_ok s" "pa \<in> managed s - avail s"
  obtains s' where "mm_page_free pa s = (MM_OK, s')" "avail s' = insert pa (avail s)" "live s' = live s" "mm_keep (live s) s s'"
proof -
  have p: "pmm_ok s" using assms by (simp add: mm_ok_def)
  obtain e s' where fr: "mm_page_free pa s = (e, s')" by fastforce
  note a = mm_page_free_page [OF p assms(2) fr]
  then show ?thesis using that [of s'] fr mm_keep_pages [OF assms(1) a(2)] by simp
qed

section \<open>Aligned blocks\<close>

text \<open>
  \<open>holds s p n b\<close>: the aligned pointer \<open>p\<close> has \<open>n\<close> bytes inside the live block \<open>b\<close>, with the tag below it that
  makes \<open>kfree\<close> find the block.
\<close>

definition holds :: "mm_state \<Rightarrow> u32 \<Rightarrow> nat \<Rightarrow> nat \<times> nat \<Rightarrow> bool" where
  "holds s p n b \<longleftrightarrow> b \<in> live s \<and> fst b + 8 \<le> unat p \<and> unat p + n \<le> fst b + snd b \<and>
     rd32 (mem s) (p - 8) = w32 (fst b) \<and> rd32 (mem s) (p - 4) = ALIGN_TAG"

lemma aligned_client:
  assumes "heap_ok s" "sz \<noteq> 0" "k < 32" "unat sz + 2 ^ max 3 k + 16 \<le> 2 ^ 32"
  obtains (full) "kmalloc_aligned sz (2 ^ k) s = Some (Returns (0, s))" "\<not> heap_gap s (unat sz + 2 ^ max 3 k + 72)"
  | (block) p b s' where "kmalloc_aligned sz (2 ^ k) s = Some (Returns (p, s'))" "p \<noteq> 0" "2 ^ k dvd unat p"
      "b \<notin> live s" "live s' = insert b (live s)" "holds s' p (unat sz) b" "keep (live s) s s'"
      "spends (unat sz + 2 ^ max 3 k + 72) s s'"
proof -
  define j where "j = max 3 k"
  have j: "j < 32" "3 \<le> j" "k \<le> j" using assms(3) by (auto simp: j_def)
  have uj: "unat (2 ^ j :: u32) = 2 ^ j" by (rule unat_2p [OF j(1)])
  have bj: "unat sz + 2 ^ j + 16 \<le> 2 ^ 32" using assms(4) by (simp only: j_def)
  have "unat (sz + 2 ^ j) = unat sz + 2 ^ j" using unat_add_no_wrap [of sz "2 ^ j"] uj bj by simp
  then have tot: "unat (sz + 2 ^ j + 8) = unat sz + 2 ^ j + 8"
    using unat_add_no_wrap [of "sz + 2 ^ j" 8] bj by simp
  have tot': "sz + 2 ^ j + 8 \<noteq> 0" "unat (sz + 2 ^ j + 8) + 8 \<le> 2 ^ 32" using tot bj by (auto simp flip: unat_eq_0)
  have rnd: "unat (round8 (sz + 2 ^ j + 8)) + 56 \<le> unat sz + 2 ^ j + 72" using unat_round8(3) [OF tot'(2)] tot by simp
  note eq = kmalloc_aligned_unfold [OF assms(2,3), of s, folded j_def]
  show ?thesis
    using assms(1) tot'
  proof (cases rule: keep_kmalloc)
    case full
    have "\<not> heap_gap s (unat sz + 2 ^ j + 72)" using full(2) rnd heap_gap_less by fastforce
    then show ?thesis using that(1) eq full(1) by (simp add: j_def)
  next
    case (block raw m s1)
    have ok1: "heap_ok s1" using block(6) by (simp add: keep_def)
    have live1: "(unat raw, m) \<in> live s1" using block(5) by simp
    have fit: "unat raw + m < 2 ^ 32" by (rule live_bounds(3) [OF ok1 live1])
    have m: "unat sz + 2 ^ j + 8 \<le> m" using block(3) tot by simp
    define p where "p = align_up (raw + 8) (2 ^ j)"
    have r8: "unat (raw + 8) = unat raw + 8" using unat_add_no_wrap [of raw 8] fit m by simp
    have up: "2 ^ j dvd unat p" "unat raw + 8 \<le> unat p" "unat p < unat raw + 8 + 2 ^ j"
      using align_up_least [OF j(1), of "raw + 8"] r8 fit m unfolding p_def by simp_all
    then have inb: "unat p + unat sz < unat raw + m" using m by linarith
    have "(8 :: nat) dvd 2 ^ j" using le_imp_power_dvd [OF j(2), of "2 :: nat"] by simp
    then have p8: "8 dvd unat p" using up(1) dvd_trans by blast
    have sub: "unat (p - 8) = unat p - 8" "unat (p - 4) = unat p - 4" "p - 8 + 4 = p - 4"
      using up(2) by (simp_all add: unat_sub_if_size word_size)
    have al: "al4 (p - 8)" "al4 (p - 4)" using p8 up(2) unfolding al4_def sub by presburger+
    have off: "unat (p - 8 + 3) = unat p - 5" "unat (p - 4 + 3) = unat p - 1"
      using al4_unat_add [OF al(1), of 3] al4_unat_add [OF al(2), of 3] sub up(2) by simp_all
    define m' where "m' = wr32 (wr32 (mem s1) (p - 8) raw) (p - 4) ALIGN_TAG"
    have frame: "m' a = mem s1 a" if "\<not> in_region raw m a" for a
    proof -
      have reg: "in_region raw m (p - 8)" "in_region raw m (p - 8 + 3)" "in_region raw m (p - 4)" "in_region raw m (p - 4 + 3)"
        using up(2) inb sub off by (auto simp: in_region_def)
      show ?thesis
        unfolding m'_def using wr32_in_region [OF al(2) reg(3,4) that] wr32_in_region [OF al(1) reg(1,2) that] by simp
    qed
    have "live s \<subseteq> live s1" "(unat raw, m) \<notin> live s" using block(4,5) by auto
    note w = keep_write [OF ok1 live1 le_refl frame this]
    have rd: "rd32 m' (p - 8) = raw" "rd32 m' (p - 4) = ALIGN_TAG"
      using al by (simp_all add: m'_def rd32_wr32)
    have "holds (s1\<lparr>mem := m'\<rparr>) p (unat sz) (unat raw, m)"
      using w(2) live1 up(2) inb rd by (simp add: holds_def)
    moreover have "kmalloc_aligned sz (2 ^ k) s = Some (Returns (p, s1\<lparr>mem := m'\<rparr>))"
      unfolding eq block(1) using block(2) by (simp add: Let_def p_def m'_def sub(3) [unfolded p_def])
    moreover have "p \<noteq> 0" using up(2) by auto
    moreover have "2 ^ k dvd unat p" using up(1) le_imp_power_dvd [OF j(3), of "2 :: nat"] dvd_trans by blast
    moreover have "spends 0 s1 (s1\<lparr>mem := m'\<rparr>)" by (rule spends_live) (simp_all add: w(2))
    then have "spends (unat sz + 2 ^ j + 72) s (s1\<lparr>mem := m'\<rparr>)"
      using spends_less [OF spends_trans [OF block(7)]] rnd by simp
    ultimately show ?thesis
      using that(2) [of p "s1\<lparr>mem := m'\<rparr>" "(unat raw, m)"] block(4,5) w keep_trans [OF block(6) w(1)] by (simp add: j_def)
  qed
qed

lemma free_holds:
  assumes "heap_ok s" "holds s p n b" "0 < n"
  obtains s' where "kfree p s = Some (Returns s')" "live s' = live s - {b}" "keep (live s - {b}) s s'"
proof -
  obtain q m where b: "b = (q, m)" by fastforce
  obtain bs where bs: "heap_rep s bs" using assms(1) by (auto simp: heap_ok_def)
  have live: "(q, m) \<in> live s" using assms(2) b by (simp add: holds_def)
  then obtain a where a: "(a, m, True) \<in> set bs" "q = a + 12" using live_block [OF bs] by blast
  have q: "unat (w32 q) = q" using live_bounds(4) [OF assms(1) live] .
  have "p \<noteq> 0" "0 < m" using assms(2,3) b by (auto simp: holds_def)
  then have "kfree p s = kfree (w32 q) s"
    using kfree_tagged [OF bs a(1)] assms(2) b a(2) by (simp add: holds_def)
  then show ?thesis using keep_kfree [OF assms(1), of "w32 q" m] live q b that by metis
qed

lemma holds_region:
  assumes "heap_ok s" "holds s p n b"
  shows "\<And>x. unat p - 8 \<le> x \<Longrightarrow> x < unat p + n \<Longrightarrow> x \<in> bytes_of {b}" "unat p + n < 2 ^ 32" "8 \<le> unat p"
proof -
  obtain q m where b: "b = (q, m)" by fastforce
  then have "q + m < 2 ^ 32" using live_bounds(3) [OF assms(1), of q m] assms(2) by (simp add: holds_def)
  then show "unat p + n < 2 ^ 32" "8 \<le> unat p" "\<And>x. unat p - 8 \<le> x \<Longrightarrow> x < unat p + n \<Longrightarrow> x \<in> bytes_of {b}"
    using assms(2) b by (auto simp: holds_def bytes_of_def)
qed

text \<open>A word of a table is the same where its bytes are.\<close>

lemma rd32_same_bytes:
  assumes "\<And>x. unat a \<le> x \<Longrightarrow> x < unat a + 4 \<Longrightarrow> byte_at s' x = byte_at s x" "unat a + 4 \<le> 2 ^ 32"
  shows "rd32 (mem s') a = rd32 (mem s) a"
proof -
  have "mem s' (a + w32 i) = mem s (a + w32 i)" if i: "i < 4" for i
  proof -
    have "w32 (unat a + i) = a + w32 i" by simp
    then show ?thesis using assms(1) [of "unat a + i"] i by (simp add: byte_at_def)
  qed
  from this [of 0] this [of 1] this [of 2] this [of 3] show ?thesis by (simp add: rd32_def)
qed

lemma holds_bytes:
  assumes "heap_ok s" "holds s p n b" "b \<in> live s'" "\<And>x. x < 2 ^ 32 \<Longrightarrow> x \<in> bytes_of {b} \<Longrightarrow> byte_at s' x = byte_at s x"
  shows "holds s' p n b"
proof -
  note r = holds_region [OF assms(1,2)]
  have sub: "unat (p - 8) = unat p - 8" "unat (p - 4) = unat p - 4" using r(3) by (simp_all add: unat_sub_if_size word_size)
  have same: "byte_at s' x = byte_at s x" if "unat p - 8 \<le> x" "x < unat p" for x
    using assms(4) [of x] r(1) [of x] r(2) that by simp
  have "rd32 (mem s') (p - 8) = rd32 (mem s) (p - 8)" "rd32 (mem s') (p - 4) = rd32 (mem s) (p - 4)"
    by (rule rd32_same_bytes; use same sub r(2,3) in simp)+
  then show ?thesis using assms(2,3) by (simp add: holds_def)
qed

lemma holds_keep:
  assumes "mm_ok s" "holds s p n b" "mm_keep L s s'" "b \<in> L"
  shows "holds s' p n b"
proof (rule holds_bytes [OF _ assms(2)])
  show "heap_ok s" using assms(1) by (simp add: mm_ok_def)
  show "b \<in> live s'" using assms(3,4) by (auto simp: mm_keep_def)
  show "byte_at s' x = byte_at s x" if "x < 2 ^ 32" "x \<in> bytes_of {b}" for x
    using assms(3,4) that by (fastforce simp: mm_keep_def bytes_of_def)
qed

end
