(* ===== verification/Leg_Space.thy ===== *)
theory Leg_Space
  imports Leg_Mm_Client Leg_Process
begin

text \<open>
  The address space of a process as a resource: the first-level table, the second-level tables and the pages they
  map. \<open>space_ok\<close> says that every table is an aligned heap block of its own and that every mapped page is taken from
  the page allocator and mapped once. Each step of the loader and of the process code keeps it, takes nothing from
  anyone else, and loses no page; the release of the space gives all of it back.
\<close>

lemma mm_keep_chain: "mm_keep L s s' \<Longrightarrow> mm_keep M s' s'' \<Longrightarrow> J \<subseteq> L \<Longrightarrow> J \<subseteq> M \<Longrightarrow> mm_keep J s s''"
  using mm_keep_mono [of L s s' J] mm_keep_mono [of M s' s'' J] mm_keep_trans [of J s s' s''] by simp

section \<open>Tables as blocks\<close>

lemma holds_apart:
  assumes "heap_ok s" "holds s p n b" "holds s p' n' b'" "b \<noteq> b'"
  shows "unat p + n \<le> unat p' \<or> unat p' + n' \<le> unat p"
proof -
  obtain q m q' m' where b: "b = (q, m)" "b' = (q', m')" by fastforce
  then show ?thesis using kheap.live_disjoint [OF assms(1), of q m q' m'] assms(2-4) by (auto simp: holds_def)
qed

lemma holds_kernel: "heap_ok s \<Longrightarrow> holds s p n b \<Longrightarrow> KERNEL_VA \<le> kh_base (g_kheap s) \<Longrightarrow> KERNEL_VA \<le> p"
  using live_bounds(1) [of s "fst b" "snd b"] by (auto simp: holds_def word_le_nat_alt)

lemma holds_table: "heap_ok s \<Longrightarrow> holds s p (4 * n) b \<Longrightarrow> al4 p \<Longrightarrow> is_table p n"
  using holds_region(2) by (fastforce simp: is_table_def)

text \<open>A write inside a block that an aligned pointer holds.\<close>

lemma holds_write:
  assumes ok: "mm_ok s" and h: "holds s p n b" and w: "\<forall>a. \<not> in_region p n a \<longrightarrow> m' a = mem s a"
  shows "mm_keep (live s - {b}) s (s\<lparr>mem := m'\<rparr>)" "live (s\<lparr>mem := m'\<rparr>) = live s" "avail (s\<lparr>mem := m'\<rparr>) = avail s"
    "mm_ok (s\<lparr>mem := m'\<rparr>)" "holds (s\<lparr>mem := m'\<rparr>) p n b"
    "\<And>p' n' b'. holds s p' n' b' \<Longrightarrow> b' \<noteq> b \<Longrightarrow> holds (s\<lparr>mem := m'\<rparr>) p' n' b'"
    "\<And>x. x < 2 ^ 32 \<Longrightarrow> x < unat p \<or> unat p + n \<le> x \<Longrightarrow> byte_at (s\<lparr>mem := m'\<rparr>) x = byte_at s x"
proof -
  obtain q m where b: "b = (q, m)" by fastforce
  have hok: "heap_ok s" using ok by (simp add: mm_ok_def)
  have live: "(q, m) \<in> live s" using h b by (simp add: holds_def)
  have q: "unat (w32 q) = q" "q + m < 2 ^ 32" using live_bounds(3,4) [OF hok live] by auto
  have frame: "m' a = mem s a" if "\<not> in_region (w32 q) m a" for a
    using that h b q w by (auto simp: in_region_def holds_def)
  have "(unat (w32 q), m) \<in> live s" "live s - {b} \<subseteq> live s" "(unat (w32 q), m) \<notin> live s - {b}" using live q b by auto
  note k = keep_write [OF hok this(1) le_refl frame this(2,3)]
  show keep: "mm_keep (live s - {b}) s (s\<lparr>mem := m'\<rparr>)" "avail (s\<lparr>mem := m'\<rparr>) = avail s" using mm_keep_heap [OF ok k(1)] by auto
  show l: "live (s\<lparr>mem := m'\<rparr>) = live s" by (rule k(2))
  show "mm_ok (s\<lparr>mem := m'\<rparr>)" using keep(1) by (simp add: mm_keep_def)
  show byte: "byte_at (s\<lparr>mem := m'\<rparr>) x = byte_at s x" if "x < 2 ^ 32" "x < unat p \<or> unat p + n \<le> x" for x
    using spec [OF w, of "w32 x"] that by (auto simp: byte_at_def in_region_def unat_w32)
  note r = holds_region [OF hok h]
  have sub: "unat (p - 8) = unat p - 8" "unat (p - 4) = unat p - 4" using r(3) by (simp_all add: unat_sub_if_size word_size)
  have same: "byte_at (s\<lparr>mem := m'\<rparr>) x = byte_at s x" if "x < unat p" for x
    by (rule byte) (use that r(2) in linarith)+
  have "rd32 (mem (s\<lparr>mem := m'\<rparr>)) (p - 8) = rd32 (mem s) (p - 8)" "rd32 (mem (s\<lparr>mem := m'\<rparr>)) (p - 4) = rd32 (mem s) (p - 4)"
    by (rule rd32_same_bytes; use same sub r(2,3) in simp)+
  then show "holds (s\<lparr>mem := m'\<rparr>) p n b" using h l by (simp add: holds_def)
  show "holds (s\<lparr>mem := m'\<rparr>) p' n' b'" if "holds s p' n' b'" "b' \<noteq> b" for p' n' b'
    using that by (intro holds_keep [OF ok that(1) keep(1)]) (simp add: holds_def)
qed

lemma set_entry_frame:
  assumes "is_table t n" "unat i < n" "\<not> in_region t (4 * n) a"
  shows "set_entry t i v m a = m a"
proof -
  note e = entry_addr [OF assms(1,2)]
  have "unat (t + 4 * i + 3) = unat t + 4 * unat i + 3" using al4_unat_add [OF e(2), of 3] e(1) by simp
  then show ?thesis
    unfolding set_entry_def using wr32_in_region [OF e(2), of t "4 * n" a] e(1) assms by (simp add: in_region_def)
qed

text \<open>The two table allocations: aligned, zeroed, in a block of their own.\<close>

lemma table_client:
  assumes ok: "mm_ok s" and k: "3 \<le> k" "k < 16" and sz: "sz = w32 (4 * n)" "0 < n" "n < 2 ^ 16"
  obtains (full) "kmalloc_aligned sz (2 ^ k) s = Some (Returns (0, s))" "\<not> heap_gap s (4 * n + 2 ^ k + 72)"
  | (table) t b s1 where "kmalloc_aligned sz (2 ^ k) s = Some (Returns (t, s1))" "t \<noteq> 0" "2 ^ k dvd unat t" "b \<notin> live s"
      "let s' = s1\<lparr>mem := snd (memset t 0 sz (mem s1))\<rparr>
       in live s' = insert b (live s) \<and> holds s' t (4 * n) b \<and> mm_keep (live s) s s' \<and> avail s' = avail s \<and>
          (\<forall>i. unat i < n \<longrightarrow> entry (mem s') t i = 0) \<and> spends (4 * n + 2 ^ k + 72) s s'"
proof -
  have hok: "heap_ok s" using ok by (simp add: mm_ok_def)
  have usz: "unat sz = 4 * n" using sz by (simp add: unat_w32 del: of_nat_mult)
  have kp: "(2 :: nat) ^ k \<le> 2 ^ 15" using k by (intro power_increasing) auto
  have pre: "sz \<noteq> 0" "k < 32" "unat sz + 2 ^ max 3 k + 16 \<le> 2 ^ 32"
    using usz sz k kp by (auto simp: max_def simp flip: unat_eq_0)
  have mx: "max 3 k = k" using k by simp
  show ?thesis
    using hok pre
  proof (cases rule: aligned_client)
    case (block t b s1)
    note k1 = mm_keep_heap [OF ok block(7)]
    have ok1: "mm_ok s1" using k1(1) by (simp add: mm_keep_def)
    have h1: "holds s1 t (4 * n) b" using block(6) usz by simp
    have hok1: "heap_ok s1" using ok1 by (simp add: mm_ok_def)
    note r = holds_region [OF hok1 h1]
    let ?m = "snd (memset t 0 sz (mem s1))"
    have bytes: "?m a = (if in_region t (4 * n) a then 0 else mem s1 a)" for a
      using memset_bytes [of t sz 0 "mem s1" a] r(2) usz by simp
    have "\<forall>a. \<not> in_region t (4 * n) a \<longrightarrow> ?m a = mem s1 a" using bytes by simp
    note w = holds_write [OF ok1 h1 this]
    have "b \<notin> live s" by (rule block(4))
    then have sub: "live s \<subseteq> live s1 - {b}" using block(5) by auto
    have "al4 t" using block(3) k(1) le_imp_power_dvd [of 2 k "2 :: nat"] dvd_trans [of 4 "2 ^ k" "unat t"] by (simp add: al4_def)
    then have tab: "is_table t n" using holds_table [OF hok1 h1] by blast
    have zero: "entry ?m t i = 0" if "unat i < n" for i
    proof -
      note e = entry_addr [OF tab that]
      have "?m (t + 4 * i + w32 j) = 0" if "j < 4" for j
        using bytes [of "t + 4 * i + w32 j"] al4_unat_add [OF e(2) that] e(1) that \<open>unat i < n\<close> by (simp add: in_region_def)
      from this [of 0] this [of 1] this [of 2] this [of 3] show ?thesis by (simp add: entry_def rd32_def)
    qed
    have "spends 0 s1 (s1\<lparr>mem := ?m\<rparr>)" by (rule spends_live) (simp_all add: w(2))
    then have "spends (4 * n + 2 ^ k + 72) s (s1\<lparr>mem := ?m\<rparr>)" using spends_trans [OF block(8), of 0] by (simp add: usz mx)
    then show ?thesis
      by (intro table [OF block(1-4)])
        (use w(1-5) block(5) zero k1 mm_keep_trans [OF k1(1) mm_keep_mono [OF w(1) sub]] in \<open>simp add: Let_def\<close>)
  qed (use full in \<open>simp add: usz mx\<close>)
qed

section \<open>The space of a process\<close>

type_synonym block_id = "nat \<times> nat"

text \<open>Which page is mapped where: the walk, for the indices that a process table has.\<close>

definition mapping :: "u32 \<Rightarrow> mem \<Rightarrow> u32 \<Rightarrow> u32 \<times> u32 \<Rightarrow> u32 option" where
  "mapping kp m tt = (\<lambda>(mb, i). if unat mb < 32 \<and> unat i < 256 then page_of kp m tt mb i else None)"

definition blocks_of :: "u32 \<Rightarrow> mm_state \<Rightarrow> u32 \<Rightarrow> block_id \<Rightarrow> (u32 \<Rightarrow> block_id) \<Rightarrow> block_id set" where
  "blocks_of kp s tt b B = insert b (B ` {mb. has_l2 (mem s) tt mb})"

definition pages_of :: "u32 \<Rightarrow> mm_state \<Rightarrow> u32 \<Rightarrow> u32 set" where
  "pages_of kp s tt = ran (mapping kp (mem s) tt)"

definition tables_ok :: "u32 \<Rightarrow> mm_state \<Rightarrow> u32 \<Rightarrow> block_id \<Rightarrow> (u32 \<Rightarrow> block_id) \<Rightarrow> bool" where
  "tables_ok kp s tt b B \<longleftrightarrow> mm_ok s \<and> KERNEL_VA \<le> kh_base (g_kheap s) \<and> 2 ^ 10 dvd unat kp \<and>
     holds s tt (4 * 32) b \<and> 2 ^ 7 dvd unat tt \<and>
     (\<forall>mb. has_l2 (mem s) tt mb \<longrightarrow> holds s (l2_table kp (mem s) tt mb) (4 * 256) (B mb) \<and>
        2 ^ 10 dvd unat (l2_table kp (mem s) tt mb) \<and> B mb \<noteq> b) \<and>
     inj_on B {mb. has_l2 (mem s) tt mb}"

text \<open>The tables of a process hold small pages only.\<close>

definition plain :: "u32 \<Rightarrow> mem \<Rightarrow> u32 \<Rightarrow> bool" where
  "plain kp m tt \<longleftrightarrow> (\<forall>mb i. has_l2 m tt mb \<and> unat i < 256 \<longrightarrow>
     l2_type (entry m (l2_table kp m tt mb) i) = L2_INVALID \<or> l2_type (entry m (l2_table kp m tt mb) i) = L2_SMALL_PAGE)"

definition space_ok :: "u32 \<Rightarrow> mm_state \<Rightarrow> u32 \<Rightarrow> block_id \<Rightarrow> (u32 \<Rightarrow> block_id) \<Rightarrow> bool" where
  "space_ok kp s tt b B \<longleftrightarrow> tables_ok kp s tt b B \<and> plain kp (mem s) tt \<and> pages_of kp s tt \<subseteq> managed s - avail s \<and>
     inj_on (mapping kp (mem s) tt) (dom (mapping kp (mem s) tt))"

text \<open>
  The heap has room for all second-level tables that the space does not have yet, and \<open>n\<close> bytes more: a table takes 1024 bytes,
  as many for its alignment, and at most 72 for the tag, the header and the rounding.
\<close>

definition room_left :: "mm_state \<Rightarrow> u32 \<Rightarrow> nat \<Rightarrow> bool" where
  "room_left s tt n \<longleftrightarrow> heap_gap s (n + 2120 * (32 - card {mb. has_l2 (mem s) tt mb}))"

text \<open>
  A step of the owner: the other blocks are untouched, the pages only move between the pool and the space, and the heap
  keeps its room for the tables.
\<close>

definition space_step ::
  "u32 \<Rightarrow> u32 \<Rightarrow> block_id \<Rightarrow> (u32 \<Rightarrow> block_id) \<Rightarrow> mm_state \<Rightarrow> (u32 \<Rightarrow> block_id) \<Rightarrow> mm_state \<Rightarrow> bool" where
  "space_step kp tt b B s B' s' \<longleftrightarrow> space_ok kp s' tt b B' \<and> mm_keep (live s - blocks_of kp s tt b B) s s' \<and>
     live s' - blocks_of kp s' tt b B' = live s - blocks_of kp s tt b B \<and>
     avail s' \<union> pages_of kp s' tt = avail s \<union> pages_of kp s tt \<and>
     mapping kp (mem s) tt \<subseteq>\<^sub>m mapping kp (mem s') tt \<and> (\<forall>n. room_left s tt n \<longrightarrow> room_left s' tt n)"

lemma space_step_room: "space_step kp tt b B s B' s' \<Longrightarrow> room_left s tt n \<Longrightarrow> room_left s' tt n"
  by (simp add: space_step_def)

lemma room_left_pays:
  "spends c s s' \<Longrightarrow> (\<And>mb. has_l2 (mem s') tt mb = has_l2 (mem s) tt mb) \<Longrightarrow> room_left s tt (n + c) \<Longrightarrow> room_left s' tt n"
  using spends_gap [of c s s'] by (simp add: room_left_def algebra_simps)

lemma room_left_spends: "spends 0 s s' \<Longrightarrow> (\<And>mb. has_l2 (mem s') tt mb = has_l2 (mem s) tt mb) \<Longrightarrow> room_left s tt n \<Longrightarrow> room_left s' tt n"
  using room_left_pays [of 0 s s'] by simp

lemma user_indices: "{mb :: u32. unat mb < 32} = w32 ` {..<32}"
proof -
  have "mb \<in> w32 ` {..<32}" if "unat mb < 32" for mb :: u32 using that by (intro image_eqI [of _ _ "unat mb"]) simp_all
  then show ?thesis by (auto simp: unat_w32)
qed

lemma finite_indices: "finite {mb :: u32. unat mb < 32}"
  unfolding user_indices by simp

lemma tables_card:
  assumes "unat mb < 32" "\<not> has_l2 m tt mb"
  shows "card {a. has_l2 m tt a} < 32"
proof -
  have "card {a :: u32. unat a < 32} \<le> 32" unfolding user_indices using card_image_le [of "{..<32 :: nat}" w32] by simp
  moreover have "{a. has_l2 m tt a} \<subset> {a. unat a < 32}" using assms by (auto simp: has_l2_def)
  then have "card {a. has_l2 m tt a} < card {a :: u32. unat a < 32}" by (rule psubset_card_mono [OF finite_indices])
  ultimately show ?thesis by linarith
qed

lemma room_left_table:
  assumes "spends 2120 s s'" "unat mb < 32" "\<not> has_l2 (mem s) tt mb" "\<And>a. has_l2 (mem s') tt a \<longleftrightarrow> a = mb \<or> has_l2 (mem s) tt a" "room_left s tt n"
  shows "room_left s' tt n"
proof -
  have "finite {a. has_l2 (mem s) tt a}" by (rule finite_subset [of _ "{a. unat a < 32}"]) (auto simp: has_l2_def finite_indices)
  moreover have "{a. has_l2 (mem s') tt a} = insert mb {a. has_l2 (mem s) tt a}" using assms(4) by auto
  ultimately have "card {a. has_l2 (mem s') tt a} = Suc (card {a. has_l2 (mem s) tt a})" using assms(3) by simp
  then have "32 - card {a. has_l2 (mem s) tt a} = Suc (32 - card {a. has_l2 (mem s') tt a})"
    using tables_card [OF assms(2,3)] by simp
  then have "heap_gap s (n + 2120 * (32 - card {a. has_l2 (mem s') tt a}) + 2120)" using assms(5) by (simp add: room_left_def algebra_simps)
  then show ?thesis using spends_gap [OF assms(1)] by (simp add: room_left_def)
qed

lemma room_left_none:
  assumes "\<not> heap_gap s 2120" "unat mb < 32" "\<not> has_l2 (mem s) tt mb"
  shows "\<not> room_left s tt n"
proof
  assume "room_left s tt n"
  moreover have "2120 \<le> n + 2120 * (32 - card {a. has_l2 (mem s) tt a})" using tables_card [OF assms(2,3)] by simp
  ultimately show False using assms(1) heap_gap_less unfolding room_left_def by blast
qed

lemma space_step_refl: "space_ok kp s tt b B \<Longrightarrow> space_step kp tt b B s B s"
  by (simp add: space_step_def space_ok_def tables_ok_def mm_keep_refl Diff_subset)

lemma space_step_trans:
  assumes "space_step kp tt b B s B' s'" "space_step kp tt b B' s' B'' s''"
  shows "space_step kp tt b B s B'' s''"
proof -
  have "mm_keep (live s - blocks_of kp s tt b B) s s''"
    using assms mm_keep_trans [of "live s - blocks_of kp s tt b B" s s' s''] by (simp add: space_step_def)
  moreover have "mapping kp (mem s) tt \<subseteq>\<^sub>m mapping kp (mem s'') tt"
    using assms map_le_trans unfolding space_step_def by blast
  ultimately show ?thesis using assms by (simp add: space_step_def)
qed

lemma has_l2_less: "has_l2 m tt mb \<Longrightarrow> unat mb < 32"
  by (simp add: has_l2_def)

lemma tables_table:
  assumes "tables_ok kp s tt b B"
  shows "is_table tt 32" "has_l2 (mem s) tt mb \<Longrightarrow> is_table (l2_table kp (mem s) tt mb) 256" "heap_ok s"
proof -
  show hok: "heap_ok s" using assms by (simp add: tables_ok_def mm_ok_def)
  have al: "al4 t" if "2 ^ k dvd unat t" "2 \<le> k" for t k
    using that le_imp_power_dvd [of 2 k "2 :: nat"] dvd_trans [of 4 "2 ^ k" "unat t"] by (simp add: al4_def)
  show "is_table tt 32" using assms holds_table [OF hok, of tt 32 b] al [of 7 tt] by (simp add: tables_ok_def)
  show "is_table (l2_table kp (mem s) tt mb) 256" if "has_l2 (mem s) tt mb"
    using assms that holds_table [OF hok, of _ 256 "B mb"] al [of 10 "l2_table kp (mem s) tt mb"] by (simp add: tables_ok_def)
qed

lemma tables_aspace:
  assumes "tables_ok kp s tt b B"
  shows "aspace_ok kp (mem s) tt"
proof -
  note t = tables_table [OF assms]
  have ap: "unat p + 4 * n \<le> unat p' \<or> unat p' + 4 * n' \<le> unat p" if "holds s p (4 * n) c" "holds s p' (4 * n') c'" "c \<noteq> c'" for p n c p' n' c'
    using holds_apart [OF t(3) that] .
  show ?thesis
    unfolding aspace_ok_def apart_def
  proof (intro conjI allI impI)
    show "is_table tt 32" by (rule t(1))
  next
    fix mb assume mb: "has_l2 (mem s) tt mb"
    show "is_table (l2_table kp (mem s) tt mb) 256" by (rule t(2) [OF mb])
    show "unat tt + 4 * 32 \<le> unat (l2_table kp (mem s) tt mb) \<or> unat (l2_table kp (mem s) tt mb) + 4 * 256 \<le> unat tt"
      using assms mb by (intro ap) (auto simp: tables_ok_def)
  next
    fix mb mb' assume h: "has_l2 (mem s) tt mb \<and> has_l2 (mem s) tt mb' \<and> mb \<noteq> mb'"
    then have "B mb \<noteq> B mb'" using assms by (auto simp: tables_ok_def inj_on_def)
    then show "unat (l2_table kp (mem s) tt mb) + 4 * 256 \<le> unat (l2_table kp (mem s) tt mb') \<or>
        unat (l2_table kp (mem s) tt mb') + 4 * 256 \<le> unat (l2_table kp (mem s) tt mb)"
      using assms h by (intro ap) (auto simp: tables_ok_def)
  qed
qed

lemma blocks_live: "tables_ok kp s tt b B \<Longrightarrow> blocks_of kp s tt b B \<subseteq> live s"
  by (auto simp: blocks_of_def tables_ok_def holds_def)

lemma entry_keep:
  assumes "mm_ok s" "mm_keep L s s'" "holds s p (4 * n) c" "is_table p n" "unat i < n" "c \<in> L"
  shows "entry (mem s') p i = entry (mem s) p i"
  unfolding entry_def
proof (rule rd32_same_bytes)
  have hok: "heap_ok s" using assms(1) by (simp add: mm_ok_def)
  note e = entry_addr(1) [OF assms(4,5)] and r = holds_region(1,2) [OF hok assms(3)]
  show "byte_at s' x = byte_at s x" if "unat (p + 4 * i) \<le> x" "x < unat (p + 4 * i) + 4" for x
  proof -
    have x: "unat p \<le> x" "x < unat p + 4 * n" using that e assms(5) by auto
    then have "x \<in> bytes_of {c}" "x < 2 ^ 32" using r by auto
    then show ?thesis using assms(2,6) by (fastforce simp: mm_keep_def bytes_of_def)
  qed
  show "unat (p + 4 * i) + 4 \<le> 2 ^ 32" using e r(2) assms(5) by simp
qed

text \<open>Tables are the same words wherever the owner's blocks keep their bytes.\<close>

lemma tables_keep:
  assumes ok: "tables_ok kp s tt b B" and k: "mm_keep L s s'" and L: "blocks_of kp s tt b B \<subseteq> L"
  shows "tables_ok kp s' tt b B" "mapping kp (mem s') tt = mapping kp (mem s) tt"
    "has_l2 (mem s') tt mb = has_l2 (mem s) tt mb" "has_l2 (mem s) tt mb \<Longrightarrow> l2_table kp (mem s') tt mb = l2_table kp (mem s) tt mb"
    "blocks_of kp s' tt b B = blocks_of kp s tt b B" "plain kp (mem s') tt = plain kp (mem s) tt"
proof -
  note t = tables_table [OF ok]
  have mok: "mm_ok s" using ok by (simp add: tables_ok_def)
  have same: "entry (mem s') p i = entry (mem s) p i"
    if "holds s p (4 * n) c" "is_table p n" "unat i < n" "c \<in> L" for p n c i
    by (rule entry_keep [OF mok k that])
  have b: "b \<in> L" "\<And>mb. has_l2 (mem s) tt mb \<Longrightarrow> B mb \<in> L" using L by (auto simp: blocks_of_def)
  have l1: "entry (mem s') tt mb = entry (mem s) tt mb" if "unat mb < 32" for mb
    using same [of tt 32 b mb] ok t(1) that b(1) by (simp add: tables_ok_def)
  show has: "has_l2 (mem s') tt mb = has_l2 (mem s) tt mb" for mb using l1 [of mb] by (auto simp: has_l2_def)
  show tab: "l2_table kp (mem s') tt mb = l2_table kp (mem s) tt mb" if "has_l2 (mem s) tt mb" for mb
    using l1 [OF has_l2_less [OF that]] by (simp add: l2_table_def)
  show "blocks_of kp s' tt b B = blocks_of kp s tt b B" by (simp add: blocks_of_def has)
  have l2: "entry (mem s') (l2_table kp (mem s) tt mb) i = entry (mem s) (l2_table kp (mem s) tt mb) i"
    if "has_l2 (mem s) tt mb" "unat i < 256" for mb i
    using same [of _ 256 "B mb" i] ok t(2) [OF that(1)] that b(2) [OF that(1)] by (simp add: tables_ok_def)
  show "mapping kp (mem s') tt = mapping kp (mem s) tt"
    by (auto simp: mapping_def fun_eq_iff page_of_alt has tab l2)
  show "plain kp (mem s') tt = plain kp (mem s) tt" by (auto simp: plain_def has tab l2)
  have "holds s' p n c" if "holds s p n c" "c \<in> L" for p n c using holds_keep [OF mok that(1) k that(2)] .
  then show "tables_ok kp s' tt b B"
    using ok mm_keepD(1,3) [OF k] b by (auto simp: tables_ok_def has tab same_areas_def)
qed

section \<open>Attaching a table\<close>

text \<open>A table that the owner has just got and not attached.\<close>

lemma fresh_table:
  assumes ok: "tables_ok kp s tt b B" and h: "holds s t (4 * 256) c" "2 ^ 10 dvd unat t" "c \<notin> blocks_of kp s tt b B"
    and z: "\<forall>i. unat i < 256 \<longrightarrow> entry (mem s) t i = 0"
  shows "fresh_l2 kp (mem s) tt t"
proof -
  note tabs = tables_table [OF ok]
  have "al4 t" using h(2) le_imp_power_dvd [of 2 10 "2 :: nat"] dvd_trans [of 4 "2 ^ 10" "unat t"] by (simp add: al4_def)
  then have "is_table t 256" using holds_table [OF tabs(3) h(1)] by blast
  moreover have "KERNEL_VA \<le> t" using holds_kernel [OF tabs(3) h(1)] ok by (simp add: tables_ok_def)
  moreover have "apart tt 32 t 256"
    using holds_apart [OF tabs(3) _ h(1), of tt "4 * 32" b] ok h(3) by (auto simp: apart_def tables_ok_def blocks_of_def)
  moreover have "apart (l2_table kp (mem s) tt mb) 256 t 256" if "has_l2 (mem s) tt mb" for mb
    using holds_apart [OF tabs(3) _ h(1), of "l2_table kp (mem s) tt mb" "4 * 256" "B mb"] ok h(3) that
    by (auto simp: apart_def tables_ok_def blocks_of_def)
  ultimately show ?thesis using h(2) z by (simp add: fresh_l2_def)
qed

lemma attach_step:
  assumes ok: "space_ok kp s tt b B" and mb: "unat mb < 32" "\<not> has_l2 (mem s) tt mb"
    and h: "holds s t (4 * 256) c" "2 ^ 10 dvd unat t" "c \<notin> blocks_of kp s tt b B" and z: "\<forall>i. unat i < 256 \<longrightarrow> entry (mem s) t i = 0"
  defines "s' \<equiv> s\<lparr>mem := mmu_attach_l2 kp tt mb t (mem s)\<rparr>"
  shows "space_ok kp s' tt b (B(mb := c))" "has_l2 (mem s') tt mb" "l2_table kp (mem s') tt mb = t"
    "mapping kp (mem s') tt = mapping kp (mem s) tt" "live s' = live s" "avail s' = avail s" "mm_keep (live s - {b}) s s'"
    "blocks_of kp s' tt b (B(mb := c)) = insert c (blocks_of kp s tt b B)" "has_l2 (mem s') tt a \<longleftrightarrow> a = mb \<or> has_l2 (mem s) tt a"
proof -
  have tok: "tables_ok kp s tt b B" using ok by (simp add: space_ok_def)
  note tabs = tables_table [OF tok]
  have kp: "2 ^ 10 dvd unat kp" and mok: "mm_ok s" and hb: "holds s tt (4 * 32) b" using tok by (auto simp: tables_ok_def)
  note at = attach_l2_aspace [OF tables_aspace [OF tok] fresh_table [OF tok h z] mb(1) kp]
  have frame: "\<forall>a. \<not> in_region tt (4 * 32) a \<longrightarrow> mmu_attach_l2 kp tt mb t (mem s) a = mem s a"
    unfolding mmu_attach_l2_def using set_entry_frame [OF tabs(1) mb(1)] by blast
  note w = holds_write [OF mok hb frame, folded s'_def]
  have l1: "entry (mem s') tt a = (if mb = a then table_entry (virt_to_phys kp t) else entry (mem s) tt a)" if "unat a < 32" for a
    unfolding s'_def mmu_attach_l2_def using entry_set_same [OF tabs(1) mb(1) that] by simp
  show has: "has_l2 (mem s') tt a \<longleftrightarrow> a = mb \<or> has_l2 (mem s) tt a" for a using l1 [of a] mb by (auto simp: has_l2_def)
  show 1: "has_l2 (mem s') tt mb" "l2_table kp (mem s') tt mb = t" using at(2,3) by (simp_all add: s'_def)
  have tab: "l2_table kp (mem s') tt a = l2_table kp (mem s) tt a" if "has_l2 (mem s) tt a" for a
    using l1 [OF has_l2_less [OF that]] that mb(2) by (auto simp: l2_table_def)
  show map: "mapping kp (mem s') tt = mapping kp (mem s) tt"
    using at(4) mb(2) by (auto simp: fun_eq_iff mapping_def s'_def page_of_alt [of mb])
  show "live s' = live s" "avail s' = avail s" "mm_keep (live s - {b}) s s'" using w(1-3) by simp_all
  show "blocks_of kp s' tt b (B(mb := c)) = insert c (blocks_of kp s tt b B)"
    using mb(2) by (auto simp: blocks_of_def has)
  have cb: "c \<noteq> b" "has_l2 (mem s) tt a \<Longrightarrow> c \<noteq> B a" for a using h(3) by (auto simp: blocks_of_def)
  have "tables_ok kp s' tt b (B(mb := c))"
    unfolding tables_ok_def
  proof (intro conjI allI impI)
    show "mm_ok s'" "holds s' tt (4 * 32) b" using w(4,5) by simp_all
    show "KERNEL_VA \<le> kh_base (g_kheap s')" "2 ^ 10 dvd unat kp" "2 ^ 7 dvd unat tt" using tok by (simp_all add: tables_ok_def s'_def)
    fix a assume a: "has_l2 (mem s') tt a"
    have "holds s' (l2_table kp (mem s') tt a) (4 * 256) ((B(mb := c)) a) \<and>
      2 ^ 10 dvd unat (l2_table kp (mem s') tt a) \<and> (B(mb := c)) a \<noteq> b"
    proof (cases "a = mb")
      case True
      then show ?thesis using 1 h(2) cb(1) w(6) [OF h(1) cb(1)] by simp
    next
      case False
      then have a: "has_l2 (mem s) tt a" using a has by simp
      then have t: "holds s (l2_table kp (mem s) tt a) (4 * 256) (B a)" "2 ^ 10 dvd unat (l2_table kp (mem s) tt a)" "B a \<noteq> b"
        using tok unfolding tables_ok_def by blast+
      show ?thesis using False t w(6) [OF t(1,3)] tab [OF a] by simp
    qed
    then show "holds s' (l2_table kp (mem s') tt a) (4 * 256) ((B(mb := c)) a)"
      "2 ^ 10 dvd unat (l2_table kp (mem s') tt a)" "(B(mb := c)) a \<noteq> b" by blast+
  next
    show "inj_on (B(mb := c)) {a. has_l2 (mem s') tt a}"
      using tok cb(2) unfolding has tables_ok_def by (fastforce simp: inj_on_def)
  qed
  moreover have "plain kp (mem s') tt"
    unfolding plain_def
  proof (intro allI impI, elim conjE)
    fix a i assume a: "has_l2 (mem s') tt a" and i: "unat (i :: u32) < 256"
    have l2: "entry (mem s') p i = entry (mem s) p i" if "is_table p 256" "apart tt 32 p 256" for p
      unfolding s'_def mmu_attach_l2_def using entry_set_other [OF tabs(1) that mb(1) i] by simp
    show "l2_type (entry (mem s') (l2_table kp (mem s') tt a) i) = L2_INVALID \<or>
        l2_type (entry (mem s') (l2_table kp (mem s') tt a) i) = L2_SMALL_PAGE"
    proof (cases "a = mb")
      case True
      then have "entry (mem s') (l2_table kp (mem s') tt a) i = 0"
        using l2 [of t] fresh_table [OF tok h z] z i 1 by (simp add: fresh_l2_def)
      then show ?thesis by (simp add: l2_type_def l2_of_code_def)
    next
      case False
      then have "has_l2 (mem s) tt a" using a has by simp
      then show ?thesis
        using l2 [of "l2_table kp (mem s) tt a"] tables_aspace [OF tok] ok i by (simp add: tab aspace_ok_def space_ok_def plain_def)
    qed
  qed
  ultimately show "space_ok kp s' tt b (B(mb := c))"
    using ok map w(3) mm_keepD(6) [OF w(1)] by (simp add: space_ok_def pages_of_def)
qed

section \<open>Getting a table\<close>

lemma get_l2_step:
  assumes ok: "space_ok kp s tt b B" and mb: "unat mb < 32"
  obtains (oom) "get_or_alloc_l2 kp tt mb s = Some (Returns (0, s))" "\<not> has_l2 (mem s) tt mb" "\<And>n. \<not> room_left s tt n"
  | (table) pt s' B' where "get_or_alloc_l2 kp tt mb s = Some (Returns (pt, s'))" "pt \<noteq> 0" "has_l2 (mem s') tt mb"
      "l2_table kp (mem s') tt mb = pt" "space_step kp tt b B s B' s'" "mapping kp (mem s') tt = mapping kp (mem s) tt"
      "avail s' = avail s"
proof (cases "has_l2 (mem s) tt mb")
  case True
  have "holds s (l2_table kp (mem s) tt mb) (4 * 256) (B mb)" using ok True unfolding space_ok_def tables_ok_def by blast
  then have "l2_table kp (mem s) tt mb \<noteq> 0" by (auto simp: holds_def)
  moreover have "get_or_alloc_l2 kp tt mb s = Some (Returns (l2_table kp (mem s) tt mb, s))"
    using True by (simp add: get_or_alloc_l2_def has_l2_def l2_table_def)
  ultimately show ?thesis using table True space_step_refl [OF ok] by blast
next
  case False
  have tok: "tables_ok kp s tt b B" and mok: "mm_ok s" using ok by (auto simp: space_ok_def tables_ok_def)
  have unf: "get_or_alloc_l2 kp tt mb s = bind_out (kmalloc_aligned 1024 (2 ^ 10) s) (\<lambda>(t, s1).
      let s1 = (if t \<noteq> 0 then s1\<lparr>mem := snd (memset t 0 1024 (mem s1))\<rparr> else s1)
      in Some (Returns (t, if t \<noteq> 0 then s1\<lparr>mem := mmu_attach_l2 kp tt mb t (mem s1)\<rparr> else s1)))"
    using False mb
    by (cases "(kmalloc_aligned 1024 (2 ^ 10) s, \<lambda>x :: u32 \<times> mm_state. None :: (u32 \<times> mm_state) outcome option)" rule: bind_out.cases)
      (auto simp: get_or_alloc_l2_def has_l2_def mmu_alloc_l2_table_def Let_def)
  have sz: "(1024 :: u32) = w32 (4 * 256)" by simp
  have k10: "(3 :: nat) \<le> 10" "(10 :: nat) < 16" "(0 :: nat) < 256" "(256 :: nat) < 2 ^ 16" by simp_all
  show ?thesis
  proof (cases rule: table_client [OF mok k10(1,2) sz k10(3,4)])
    case 1
    then have "\<not> heap_gap s 2120" by simp
    then show ?thesis using oom False unf 1(1) room_left_none [OF _ mb False] by simp
  next
    case table: (2 t c s1)
    define s2 where "s2 = s1\<lparr>mem := snd (memset t 0 1024 (mem s1))\<rparr>"
    have s2: "live s2 = insert c (live s)" "holds s2 t (4 * 256) c" "mm_keep (live s) s s2" "avail s2 = avail s"
      "\<forall>i. unat i < 256 \<longrightarrow> entry (mem s2) t i = 0" "spends 2120 s s2"
      using table(5) by (auto simp: Let_def s2_def)
    note k = tables_keep [OF tok s2(3) blocks_live [OF tok]]
    have ok2: "space_ok kp s2 tt b B"
      using ok k s2(4) mm_keepD(6) [OF s2(3)] by (simp add: space_ok_def pages_of_def)
    have c: "c \<notin> blocks_of kp s2 tt b B" using table(4) blocks_live [OF tok] k(5) by auto
    have "\<not> has_l2 (mem s2) tt mb" using False k(3) by simp
    note a = attach_step [OF ok2 mb this s2(2) table(3) c s2(5)]
    let ?s = "s2\<lparr>mem := mmu_attach_l2 kp tt mb t (mem s2)\<rparr>"
    have "b \<in> blocks_of kp s tt b B" by (simp add: blocks_of_def)
    then have "live s - blocks_of kp s tt b B \<subseteq> live s2 - {b}" using s2(1) by auto
    then have k2: "mm_keep (live s - blocks_of kp s tt b B) s2 ?s" by (rule mm_keep_mono [OF a(7)])
    have "mm_keep (live s - blocks_of kp s tt b B) s s2" by (rule mm_keep_mono [OF s2(3)]) blast
    note keep = mm_keep_trans [OF this k2]
    have "spends 0 s2 ?s" by (rule spends_live) (simp_all add: a(5))
    then have sp: "spends 2120 s ?s" using spends_trans [OF s2(6), of 0] by simp
    have has: "has_l2 (mem ?s) tt x \<longleftrightarrow> x = mb \<or> has_l2 (mem s) tt x" for x using a(9) k(3) by simp
    have "space_step kp tt b B s (B(mb := c)) ?s"
      unfolding space_step_def
    proof (intro conjI allI impI)
      show "space_ok kp ?s tt b (B(mb := c))" by (rule a(1))
      show "mm_keep (live s - blocks_of kp s tt b B) s ?s" by (rule keep)
      show "live ?s - blocks_of kp ?s tt b (B(mb := c)) = live s - blocks_of kp s tt b B"
        unfolding a(5,8) k(5) s2(1) using table(4) by blast
      show "avail ?s \<union> pages_of kp ?s tt = avail s \<union> pages_of kp s tt"
        unfolding pages_of_def a(4,6) k(2) s2(4) by simp
      show "mapping kp (mem s) tt \<subseteq>\<^sub>m mapping kp (mem ?s) tt" unfolding a(4) k(2) by simp
      show "room_left ?s tt n" if "room_left s tt n" for n by (rule room_left_table [OF sp mb False has that])
    qed
    moreover have "get_or_alloc_l2 kp tt mb s = Some (Returns (t, ?s))"
      using unf table(1,2) by (simp add: s2_def Let_def)
    ultimately show ?thesis using that(2) [of t ?s "B(mb := c)"] table(2) a k(2) s2(4) by simp
  qed
qed

section \<open>Mapping a page\<close>

lemma inj_map_upd:
  assumes "inj_on f (dom f)" "f x = None" "v \<notin> ran f"
  shows "inj_on (f(x \<mapsto> v)) (dom (f(x \<mapsto> v)))"
proof (rule inj_onI)
  fix a c assume "a \<in> dom (f(x \<mapsto> v))" "c \<in> dom (f(x \<mapsto> v))" "(f(x \<mapsto> v)) a = (f(x \<mapsto> v)) c"
  then show "a = c"
    using assms(3) inj_onD [OF assms(1), of a c] by (fastforce simp: ran_def split: if_splits)
qed

lemma mapping_Some:
  "mapping kp m tt (mb, i) = Some pa \<longleftrightarrow> unat i < 256 \<and> has_l2 m tt mb \<and>
     l2_type (entry m (l2_table kp m tt mb) i) = L2_SMALL_PAGE \<and> pa = push_bit 12 (sp_address (dec_small_page (entry m (l2_table kp m tt mb) i)))"
  by (auto simp: mapping_def page_of_alt dest: has_l2_less)

lemma map_step:
  fixes va pa :: u32
  assumes ok: "space_ok kp s tt b B" and mb: "has_l2 (mem s) tt mb" and free: "mapping kp (mem s) tt (mb, L2_IDX va) = None"
    and pa: "pa \<in> managed s - avail s" "pa \<notin> pages_of kp s tt"
  defines "s' \<equiv> s\<lparr>mem := mmu_map_page (l2_table kp (mem s) tt mb) va pa (mem s)\<rparr>"
  shows "space_ok kp s' tt b B" "mapping kp (mem s') tt = (mapping kp (mem s) tt)((mb, L2_IDX va) \<mapsto> pa)"
    "live s' = live s" "avail s' = avail s" "mm_keep (live s - {B mb}) s s'" "blocks_of kp s' tt b B = blocks_of kp s tt b B"
    "has_l2 (mem s') tt a = has_l2 (mem s) tt a" "has_l2 (mem s) tt a \<Longrightarrow> l2_table kp (mem s') tt a = l2_table kp (mem s) tt a"
proof -
  let ?t = "l2_table kp (mem s) tt mb"
  have tok: "tables_ok kp s tt b B" and mok: "mm_ok s" using ok by (auto simp: space_ok_def tables_ok_def)
  note tabs = tables_table [OF tok]
  have ht: "holds s ?t (4 * 256) (B mb)" "B mb \<noteq> b" using tok mb unfolding tables_ok_def by blast+
  note mp = map_page_aspace [OF tables_aspace [OF tok] mb refl, where va = va and pa = pa]
  have "\<forall>a. \<not> in_region ?t (4 * 256) a \<longrightarrow> mmu_map_page ?t va pa (mem s) a = mem s a"
    unfolding mmu_map_page_def using set_entry_frame [OF tabs(2) [OF mb] L2_IDX_less] by blast
  note w = holds_write [OF mok ht(1) this, folded s'_def]
  have l1: "entry (mem s') tt a = entry (mem s) tt a" if "unat a < 32" for a using mp(3) [OF that] by (simp add: s'_def)
  show has: "has_l2 (mem s') tt a = has_l2 (mem s) tt a" for a using mp(2) by (simp add: s'_def)
  show tab: "l2_table kp (mem s') tt a = l2_table kp (mem s) tt a" if "has_l2 (mem s) tt a" for a
    using l1 [OF has_l2_less [OF that]] by (simp add: l2_table_def)
  have "4096 dvd unat pa" using pa(1) by (auto simp: managed_def pa_aligned_iff)
  then have "pa AND NOT (mask 12) = pa" using push_drop_aligned [of 12 pa] push_drop [of 12 pa] by simp
  then show map: "mapping kp (mem s') tt = (mapping kp (mem s) tt)((mb, L2_IDX va) \<mapsto> pa)"
    using mp(4) has_l2_less [OF mb] L2_IDX_less [of va] by (auto simp: fun_eq_iff mapping_def s'_def)
  show l: "live s' = live s" "avail s' = avail s" "mm_keep (live s - {B mb}) s s'" using w(1-3) by simp_all
  show "blocks_of kp s' tt b B = blocks_of kp s tt b B" by (simp add: blocks_of_def has)
  have holds: "holds s' p n c" if "holds s p n c" "p = ?t \<and> n = 4 * 256 \<and> c = B mb \<or> c \<noteq> B mb" for p n c
    using that w(5) w(6) [OF that(1)] by blast
  have "tables_ok kp s' tt b B"
    unfolding tables_ok_def
  proof (intro conjI allI impI)
    show "mm_ok s'" by (rule w(4))
    show "KERNEL_VA \<le> kh_base (g_kheap s')" "2 ^ 10 dvd unat kp" "2 ^ 7 dvd unat tt" using tok by (simp_all add: tables_ok_def s'_def)
    show "holds s' tt (4 * 32) b" using holds [of tt "4 * 32" b] tok ht(2) by (auto simp: tables_ok_def)
    show "inj_on B {a. has_l2 (mem s') tt a}" using tok unfolding has tables_ok_def by blast
    fix a assume a': "has_l2 (mem s') tt a"
    then have a: "has_l2 (mem s) tt a" using has by simp
    then have t: "holds s (l2_table kp (mem s) tt a) (4 * 256) (B a)" "2 ^ 10 dvd unat (l2_table kp (mem s) tt a)" "B a \<noteq> b"
      using tok unfolding tables_ok_def by blast+
    have "a = mb \<or> B a \<noteq> B mb" using tok a mb unfolding tables_ok_def inj_on_def by blast
    then show "holds s' (l2_table kp (mem s') tt a) (4 * 256) (B a)" using holds [OF t(1)] tab [OF a] by auto
    show "2 ^ 10 dvd unat (l2_table kp (mem s') tt a)" "B a \<noteq> b" using t tab [OF a] by simp_all
  qed
  moreover have "plain kp (mem s') tt"
    unfolding plain_def
  proof (intro allI impI, elim conjE)
    fix a i assume "has_l2 (mem s') tt a" and i: "unat (i :: u32) < 256"
    then have a: "has_l2 (mem s) tt a" using has by simp
    have old: "l2_type (entry (mem s) (l2_table kp (mem s) tt a) i) = L2_INVALID \<or> l2_type (entry (mem s) (l2_table kp (mem s) tt a) i) = L2_SMALL_PAGE"
      using ok a i by (auto simp: space_ok_def plain_def)
    have "entry (mem s') (l2_table kp (mem s) tt a) i = page_entry pa \<or>
        entry (mem s') (l2_table kp (mem s) tt a) i = entry (mem s) (l2_table kp (mem s) tt a) i"
    proof (cases "a = mb")
      case True
      then show ?thesis
        using entry_set_same [OF tabs(2) [OF mb] L2_IDX_less [of va] i, of "page_entry pa" "mem s"]
        by (simp add: s'_def mmu_map_page_def)
    next
      case False
      then have "apart ?t 256 (l2_table kp (mem s) tt a) 256" using tables_aspace [OF tok] a mb by (auto simp: aspace_ok_def)
      from entry_set_other [OF tabs(2) [OF mb] tabs(2) [OF a] this L2_IDX_less [of va] i, of "page_entry pa" "mem s"]
      show ?thesis by (simp add: s'_def mmu_map_page_def)
    qed
    then show "l2_type (entry (mem s') (l2_table kp (mem s') tt a) i) = L2_INVALID \<or>
        l2_type (entry (mem s') (l2_table kp (mem s') tt a) i) = L2_SMALL_PAGE"
      unfolding tab [OF a] using old by auto
  qed
  moreover have "pages_of kp s' tt \<subseteq> managed s' - avail s'"
    using ok pa(1) mm_keepD(6) [OF l(3)] unfolding space_ok_def pages_of_def map l(2) by (auto simp: ran_def split: if_splits)
  moreover have "inj_on (mapping kp (mem s') tt) (dom (mapping kp (mem s') tt))"
    unfolding map using ok free pa(2) by (intro inj_map_upd) (simp_all add: space_ok_def pages_of_def)
  ultimately show "space_ok kp s' tt b B" by (simp add: space_ok_def)
qed

text \<open>Taking a page and mapping it, as the loader and the stack do.\<close>

lemma page_step:
  assumes ok: "space_ok kp s tt b B" and mb: "has_l2 (mem s) tt mb" and free: "mapping kp (mem s) tt (mb, L2_IDX va) = None"
  obtains (oom) "mm_page_alloc s = (0, s)" "avail s = {}"
  | (page) pa s1 s' where "mm_page_alloc s = (pa, s1)" "pa \<noteq> 0" "pa \<in> avail s"
      "s' = s1\<lparr>mem := mmu_map_page (l2_table kp (mem s) tt mb) va pa (mem s1)\<rparr>" "space_step kp tt b B s B s'"
      "mapping kp (mem s') tt = (mapping kp (mem s) tt)((mb, L2_IDX va) \<mapsto> pa)" "avail s' = avail s - {pa}"
      "has_l2 (mem s') tt mb" "l2_table kp (mem s') tt mb = l2_table kp (mem s) tt mb"
proof -
  have tok: "tables_ok kp s tt b B" and mok: "mm_ok s" using ok by (auto simp: space_ok_def tables_ok_def)
  show ?thesis
    using mok
  proof (cases rule: page_alloc_client)
    case (page pa s1)
    note k = tables_keep [OF tok page(6) blocks_live [OF tok]]
    have man: "managed s1 = managed s" by (rule mm_keepD(6) [OF page(6)])
    have ok1: "space_ok kp s1 tt b B"
      using ok k page(4) man by (auto simp: space_ok_def pages_of_def)
    have pa: "pa \<in> managed s1 - avail s1" "pa \<notin> pages_of kp s1 tt"
      using page(3,4) man ok k(2) by (auto simp: avail_def space_ok_def pages_of_def)
    have mb1: "has_l2 (mem s1) tt mb" using mb k(3) by simp
    have "mapping kp (mem s1) tt (mb, L2_IDX va) = None" using free k(2) by simp
    note m = map_step [OF ok1 mb1 this pa]
    let ?s = "s1\<lparr>mem := mmu_map_page (l2_table kp (mem s1) tt mb) va pa (mem s1)\<rparr>"
    have tab: "l2_table kp (mem s1) tt mb = l2_table kp (mem s) tt mb" by (rule k(4) [OF mb])
    have "B mb \<in> blocks_of kp s tt b B" using mb by (simp add: blocks_of_def)
    then have "live s - blocks_of kp s tt b B \<subseteq> live s1 - {B mb}" using page(5) by auto
    then have k2: "mm_keep (live s - blocks_of kp s tt b B) s1 ?s" by (rule mm_keep_mono [OF m(5)])
    have "mm_keep (live s - blocks_of kp s tt b B) s s1" by (rule mm_keep_mono [OF page(6)]) blast
    note keep = mm_keep_trans [OF this k2]
    have has: "has_l2 (mem ?s) tt x = has_l2 (mem s) tt x" for x using m(7) k(3) by simp
    have sp: "spends 0 s ?s" by (rule spends_live) (use m(3) page(5) mm_keepD(3) [OF page(6)] in \<open>simp_all add: same_areas_def\<close>)
    have "space_step kp tt b B s B ?s"
      unfolding space_step_def
    proof (intro conjI allI impI)
      show "space_ok kp ?s tt b B" by (rule m(1))
      show "mm_keep (live s - blocks_of kp s tt b B) s ?s" by (rule keep)
      show "live ?s - blocks_of kp ?s tt b B = live s - blocks_of kp s tt b B" unfolding m(3,6) k(5) page(5) by simp
      have "ran (mapping kp (mem ?s) tt) = insert pa (ran (mapping kp (mem s) tt))"
        unfolding m(2) k(2) by (rule ran_map_upd) (rule free)
      then have "pages_of kp ?s tt = insert pa (pages_of kp s tt)" by (simp only: pages_of_def)
      then show "avail ?s \<union> pages_of kp ?s tt = avail s \<union> pages_of kp s tt"
        unfolding m(4) page(4) using page(3) by auto
      show "mapping kp (mem s) tt \<subseteq>\<^sub>m mapping kp (mem ?s) tt"
        unfolding m(2) k(2) using free by (auto simp: map_le_def)
      show "room_left ?s tt n" if "room_left s tt n" for n by (rule room_left_spends [OF sp has that])
    qed
    then show ?thesis
      using that(2) [of pa s1 ?s] page(1-4) m(2,4,7,8) k(2) tab mb1 by simp
  qed (use oom in blast)
qed

section \<open>Mapping a range\<close>

abbreviation key :: "u32 \<Rightarrow> u32 \<times> u32" where
  "key va \<equiv> (drop_bit 20 va, L2_IDX va)"

lemma va_lookup_mapping: "unat va < 2 ^ 25 \<Longrightarrow> va_lookup kp m tt va = map_option (\<lambda>pa. pa OR (va AND 0xFFF)) (mapping kp m tt (key va))"
  using user_mb [of va] L2_IDX_less [of va] by (simp add: va_lookup_def mapping_def)

text \<open>What a step of the owner adds: mappings at some of the keys \<open>K\<close> at most.\<close>

definition adds :: "(u32 \<times> u32) set \<Rightarrow> u32 \<Rightarrow> mem \<Rightarrow> mem \<Rightarrow> u32 \<Rightarrow> bool" where
  "adds K kp m m' tt \<longleftrightarrow> dom (mapping kp m' tt) \<subseteq> dom (mapping kp m tt) \<union> K"

lemma adds_trans: "adds K kp m m' tt \<Longrightarrow> adds K' kp m' m'' tt \<Longrightarrow> K \<subseteq> J \<Longrightarrow> K' \<subseteq> J \<Longrightarrow> adds J kp m m'' tt"
  unfolding adds_def by blast

lemma map_one_step:
  assumes ok: "space_ok kp s tt b B" and va: "unat va < 2 ^ 25"
  obtains r s' B' where "map_one kp tt va s = Some (Returns (r, s'))" "space_step kp tt b B s B' s'"
    "adds {key va} kp (mem s) (mem s') tt" "r \<Longrightarrow> key va \<in> dom (mapping kp (mem s') tt)"
    "\<not> r \<Longrightarrow> avail s' = {} \<and> key va \<notin> dom (mapping kp (mem s') tt) \<or> \<not> room_left s tt 0"
proof -
  let ?mb = "drop_bit 20 va"
  have mb: "unat ?mb < 32" by (rule user_mb [OF va])
  show ?thesis
    using ok mb
  proof (cases rule: get_l2_step)
    case oom
    have "map_one kp tt va s = Some (Returns (False, s))" using oom(1) by (simp add: map_one_def)
    then show ?thesis using that [of False s B] space_step_refl [OF ok] oom(3) [of 0] by (simp add: adds_def subset_insertI)
  next
    case (table pt s1 B1)
    have ok1: "space_ok kp s1 tt b B1" using table(5) by (simp add: space_step_def)
    show ?thesis
    proof (cases "l2_type (entry (mem s1) pt (L2_IDX va)) = L2_INVALID")
      case False
      then have "l2_type (entry (mem s1) pt (L2_IDX va)) = L2_SMALL_PAGE"
        using ok1 table(3,4) L2_IDX_less [of va] unfolding space_ok_def plain_def by blast
      then have "key va \<in> dom (mapping kp (mem s1) tt)"
        using table(3,4) L2_IDX_less [of va] mapping_Some [of kp "mem s1" tt ?mb "L2_IDX va"] by (simp add: domIff)
      then show ?thesis
        using that [of True s1 B1] table(1,2,5,6) False by (auto simp: map_one_def adds_def)
    next
      case True
      then have "mapping kp (mem s1) tt (key va) = None"
        using table(4) by (cases "mapping kp (mem s1) tt (key va)") (auto simp: mapping_Some)
      with ok1 table(3) show ?thesis
      proof (cases rule: page_step)
        case oom
        moreover have "key va \<notin> dom (mapping kp (mem s1) tt)" using \<open>mapping kp (mem s1) tt (key va) = None\<close> by (simp add: domIff)
        ultimately show ?thesis using that [of False s1 B1] table(1,2,5,6) True by (auto simp: map_one_def adds_def)
      next
        case (page pa s2 s3)
        have "map_one kp tt va s = Some (Returns (True, s3))"
          using table(1,2,4) True page(1,2,4) by (simp add: map_one_def)
        moreover have "adds {key va} kp (mem s) (mem s3) tt" unfolding adds_def page(6) table(6) by auto
        moreover have "key va \<in> dom (mapping kp (mem s3) tt)" unfolding page(6) by simp
        ultimately show ?thesis using that [of True s3 B1] space_step_trans [OF table(5) page(5)] by simp
      qed
    qed
  qed
qed

lemma map_pages_from_step:
  assumes "space_ok kp s tt b B" "\<forall>i \<in> set is. unat (base + w32 i * PAGE_SIZE) < 2 ^ 25"
  shows "\<exists>r s' B'. map_pages_from kp tt base is s = Some (Returns (r, s')) \<and> space_step kp tt b B s B' s' \<and>
    adds ((\<lambda>i. key (base + w32 i * PAGE_SIZE)) ` set is) kp (mem s) (mem s') tt \<and>
    (if r then (\<lambda>i. key (base + w32 i * PAGE_SIZE)) ` set is \<subseteq> dom (mapping kp (mem s') tt)
     else avail s' = {} \<and> \<not> (\<lambda>i. key (base + w32 i * PAGE_SIZE)) ` set is \<subseteq> dom (mapping kp (mem s') tt) \<or> \<not> room_left s tt 0)"
  using assms
proof (induction "is" arbitrary: s B)
  case Nil
  then show ?case using space_step_refl [of kp s tt b B] by (auto simp: adds_def)
next
  case (Cons i "is")
  let ?va = "base + w32 i * PAGE_SIZE"
  let ?K = "\<lambda>is. (\<lambda>i. key (base + w32 i * PAGE_SIZE)) ` set is"
  obtain r s1 B1 where s1: "map_one kp tt ?va s = Some (Returns (r, s1))" "space_step kp tt b B s B1 s1"
      "adds {key ?va} kp (mem s) (mem s1) tt" "r \<Longrightarrow> key ?va \<in> dom (mapping kp (mem s1) tt)"
      "\<not> r \<Longrightarrow> avail s1 = {} \<and> key ?va \<notin> dom (mapping kp (mem s1) tt) \<or> \<not> room_left s tt 0"
    using map_one_step [OF Cons.prems(1), of ?va] Cons.prems(2) by auto
  show ?case
  proof (cases r)
    case False
    have "adds (?K (i # is)) kp (mem s) (mem s1) tt" using s1(3) by (auto simp: adds_def)
    then show ?thesis using s1(1,2,5) False by (intro exI [of _ False] exI [of _ s1] exI [of _ B1]) auto
  next
    case True
    have "space_ok kp s1 tt b B1" using s1(2) by (simp add: space_step_def)
    then obtain r' s2 B2 where s2: "map_pages_from kp tt base is s1 = Some (Returns (r', s2))" "space_step kp tt b B1 s1 B2 s2"
        "adds (?K is) kp (mem s1) (mem s2) tt"
        "if r' then ?K is \<subseteq> dom (mapping kp (mem s2) tt)
         else avail s2 = {} \<and> \<not> ?K is \<subseteq> dom (mapping kp (mem s2) tt) \<or> \<not> room_left s1 tt 0"
      using Cons.IH [of s1 B1] Cons.prems(2) by force
    have "mapping kp (mem s1) tt \<subseteq>\<^sub>m mapping kp (mem s2) tt" using s2(2) by (simp add: space_step_def)
    then have "key ?va \<in> dom (mapping kp (mem s2) tt)" using s1(4) [OF True] map_le_implies_dom_le by blast
    then have "if r' then ?K (i # is) \<subseteq> dom (mapping kp (mem s2) tt)
        else avail s2 = {} \<and> \<not> ?K (i # is) \<subseteq> dom (mapping kp (mem s2) tt) \<or> \<not> room_left s tt 0"
      using s2(4) space_step_room [OF s1(2)] by auto
    moreover have "adds (?K (i # is)) kp (mem s) (mem s2) tt" by (rule adds_trans [OF s1(3) s2(3)]) auto
    moreover have "map_pages_from kp tt base (i # is) s = Some (Returns (r', s2))" using s1(1) True s2(1) by simp
    ultimately show ?thesis using space_step_trans [OF s1(2) s2(2)] by (intro exI [of _ r'] exI [of _ s2] exI [of _ B2]) simp
  qed
qed

text \<open>The pages that cover a range of user addresses.\<close>

definition covers :: "u32 \<Rightarrow> u32 \<Rightarrow> (u32 \<times> u32) set" where
  "covers va len = {key a |a. unat va div 4096 \<le> unat a div 4096 \<and> unat a div 4096 * 4096 < unat va + unat len}"

lemma same_key: "unat a div 4096 = unat c div 4096 \<Longrightarrow> key a = key c"
  using same_page [of a c] by (simp add: word_unat_eq_iff unat_drop_bit_div)

lemma page_count:
  assumes "b \<le> (a :: nat)"
  shows "i < (a - b + l + 4095) div 4096 \<longleftrightarrow> b + 4096 * i < a + l"
proof -
  obtain d where d: "a = b + d" using assms by (auto simp: le_iff_add)
  have "i < (d + l + 4095) div 4096 \<longleftrightarrow> Suc i * 4096 \<le> d + l + 4095"
    unfolding Suc_le_eq [symmetric] by (rule less_eq_div_iff_mult_less_eq) simp
  also have "\<dots> \<longleftrightarrow> 4096 * i < d + l" by auto
  finally show ?thesis by (simp add: d)
qed

lemma map_pages_step:
  assumes ok: "space_ok kp s tt b B" and va: "unat va + unat len \<le> 2 ^ 25"
  shows "\<exists>r s' B'. map_pages kp tt va len s = Some (Returns (r, s')) \<and> space_step kp tt b B s B' s' \<and>
    adds (covers va len) kp (mem s) (mem s') tt \<and>
    (if r then covers va len \<subseteq> dom (mapping kp (mem s') tt)
     else avail s' = {} \<and> \<not> covers va len \<subseteq> dom (mapping kp (mem s') tt) \<or> \<not> room_left s tt 0)"
proof -
  let ?base = "va AND NOT (PAGE_SIZE - 1)"
  let ?pages = "(va - ?base + len + PAGE_SIZE - 1) div PAGE_SIZE"
  define A L b where "A = unat va" and "L = unat len" and "b = A div 4096 * 4096"
  have "?base = va AND NOT (mask 12)" by (simp add: mask_eq_exp_minus_1)
  then have base: "unat ?base = b" unfolding b_def A_def by (simp add: and_not_mask_unat minus_mod_eq_div_mult)
  have b: "b \<le> A" "A < b + 4096"
    unfolding b_def using dividend_less_div_times [of 4096 A] by (simp_all add: add.commute)
  have AL: "A + L \<le> 2 ^ 25" using va by (simp add: A_def L_def)
  have "?base \<le> va" using base b by (simp add: word_le_nat_alt A_def)
  then have "unat (va - ?base) = A - b" using base by (simp add: unat_sub A_def)
  moreover then have "unat (va - ?base + len) = A - b + L" using AL b unat_add_no_wrap [of "va - ?base" len] by (simp add: L_def)
  moreover then have "unat (va - ?base + len + PAGE_SIZE) = A - b + L + 4096" using AL b unat_add_no_wrap [of "va - ?base + len" PAGE_SIZE] by simp
  ultimately have "unat (va - ?base + len + PAGE_SIZE - 1) = A - b + L + 4095" by (subst unat_sub) (simp_all add: word_le_nat_alt)
  then have pages: "unat ?pages = (A - b + L + 4095) div 4096" by (simp add: unat_div)
  have idx: "i < unat ?pages \<longleftrightarrow> b + 4096 * i < A + L" for i
    unfolding pages by (rule page_count [OF b(1)])
  have at: "unat (?base + w32 i * PAGE_SIZE) = b + 4096 * i" if "i < unat ?pages" for i
  proof -
    have "4096 * i < 2 ^ 25" "b + 4096 * i < 2 ^ 25" using that AL unfolding idx by linarith+
    then show ?thesis
      using base unat_add_no_wrap [of ?base "w32 (4096 * i)"] by (simp add: unat_w32 mult.commute del: of_nat_mult) simp
  qed
  then have small: "\<forall>i \<in> set [0..<unat ?pages]. unat (?base + w32 i * PAGE_SIZE) < 2 ^ 25" using AL idx by fastforce
  have K: "(\<lambda>i. key (?base + w32 i * PAGE_SIZE)) ` set [0..<unat ?pages] = covers va len"
  proof (intro equalityI subsetI)
    fix x assume "x \<in> (\<lambda>i. key (?base + w32 i * PAGE_SIZE)) ` set [0..<unat ?pages]"
    then obtain i where i: "i < unat ?pages" "x = key (?base + w32 i * PAGE_SIZE)" by auto
    let ?a = "?base + w32 i * PAGE_SIZE"
    have "(b + 4096 * i) div 4096 = A div 4096 + i" by (simp add: b_def)
    then have "unat va div 4096 \<le> unat ?a div 4096" unfolding at [OF i(1)] by (simp add: A_def)
    moreover have "unat ?a div 4096 * 4096 < unat va + unat len"
      unfolding at [OF i(1)] using le_less_trans [OF div_times_less_eq_dividend iffD1 [OF idx i(1)]] by (simp only: A_def L_def)
    ultimately show "x \<in> covers va len" unfolding covers_def i(2) by blast
  next
    fix x assume "x \<in> covers va len"
    then obtain a where a: "x = key a" "A div 4096 \<le> unat a div 4096" "unat a div 4096 * 4096 < A + L"
      by (auto simp: covers_def A_def L_def)
    define i where "i = unat a div 4096 - A div 4096"
    have i: "b + 4096 * i = unat a div 4096 * 4096" using a(2) by (simp add: b_def i_def algebra_simps)
    then have lt: "i < unat ?pages" using a(3) idx by simp
    have "unat (?base + w32 i * PAGE_SIZE) div 4096 = unat a div 4096" unfolding at [OF lt] i by simp
    from same_key [OF this] have "x = key (?base + w32 i * PAGE_SIZE)" using a(1) by simp
    moreover have "i \<in> set [0..<unat ?pages]" unfolding set_upt atLeastLessThan_iff using lt by blast
    ultimately show "x \<in> (\<lambda>i. key (?base + w32 i * PAGE_SIZE)) ` set [0..<unat ?pages]" by (rule image_eqI)
  qed
  show ?thesis
    using map_pages_from_step [OF ok small] unfolding K by (simp only: map_pages_def Let_def)
qed

end
