(* ===== verification/Leg_User_Memory.thy ===== *)
theory Leg_User_Memory
  imports Leg_Space
begin

text \<open>
  The memory of a process as its own view: a partial map from user addresses to bytes. The loader writes it through
  the table that it has installed; such a write stays inside the frames of the pages that are mapped.
\<close>

section \<open>Frames\<close>

abbreviation frame_addr :: "u32 \<Rightarrow> u32 \<Rightarrow> u32 \<Rightarrow> u32" where
  "frame_addr kp pa va \<equiv> phys_to_virt kp (pa OR (va AND 0xFFF))"

definition frames :: "u32 \<Rightarrow> u32 set \<Rightarrow> nat set" where
  "frames kp M = {unat (frame_addr kp pa va) |pa va. pa \<in> M}"

lemma frames_mono: "M \<subseteq> N \<Longrightarrow> frames kp M \<subseteq> frames kp N"
  by (auto simp: frames_def)

text \<open>The frames of the pages are no part of the heap or of the bitmap.\<close>

definition frames_ok :: "u32 \<Rightarrow> mm_state \<Rightarrow> u32 set \<Rightarrow> bool" where
  "frames_ok kp s M \<longleftrightarrow> (\<forall>x \<in> frames kp M. \<not> in_heap s x \<and> \<not> in_bitmap s x)"

lemma frames_ok_areas: "frames_ok kp s M \<Longrightarrow> same_areas s s' \<Longrightarrow> frames_ok kp s' M"
  using same_areas_simps [of s s'] by (simp add: frames_ok_def)

lemma frames_ok_mono: "frames_ok kp s M \<Longrightarrow> N \<subseteq> M \<Longrightarrow> frames_ok kp s N"
  using frames_mono unfolding frames_ok_def by blast

lemma same_areas_trans: "same_areas s s' \<Longrightarrow> same_areas s' s'' \<Longrightarrow> same_areas s s''"
  by (simp add: same_areas_def)

lemma page_part: "2 ^ 12 dvd unat pa \<Longrightarrow> (pa OR (va AND 0xFFF)) AND NOT (mask 12) = (pa :: u32)" 
  "2 ^ 12 dvd unat pa \<Longrightarrow> (pa OR (va AND 0xFFF)) AND 0xFFF = va AND 0xFFF"
proof -
  have m: "(0xFFF :: u32) = mask 12" by (simp add: mask_eq_exp_minus_1)
  have low: "pa AND NOT (mask 12) = pa" if "2 ^ 12 dvd unat pa" using that push_drop_aligned [of 12 pa] push_drop [of 12 pa] by simp
  have lb: "\<not> bit pa n" if "2 ^ 12 dvd unat pa" "n < 12" for n
  proof -
    have "bit (pa AND NOT (mask 12)) n \<longleftrightarrow> bit pa n" using low [OF that(1)] by simp
    then show ?thesis using that(2) by (simp add: bit_simps)
  qed
  show "(pa OR (va AND 0xFFF)) AND NOT (mask 12) = pa" if "2 ^ 12 dvd unat pa"
    using lb [OF that] unfolding m by (intro bit_word_eqI) (auto simp: bit_simps intro: leI)
  show "(pa OR (va AND 0xFFF)) AND 0xFFF = va AND 0xFFF" if "2 ^ 12 dvd unat pa"
    using lb [OF that] unfolding m by (intro bit_word_eqI) (auto simp: bit_simps)
qed

lemma frame_addr_inj:
  assumes "2 ^ 12 dvd unat pa" "2 ^ 12 dvd unat pa'" "frame_addr kp pa va = frame_addr kp pa' va'"
  shows "pa = pa'" "va AND 0xFFF = va' AND 0xFFF"
proof -
  have e: "pa OR (va AND 0xFFF) = pa' OR (va' AND 0xFFF)" using assms(3) by (simp add: phys_to_virt_def)
  show "pa = pa'" using page_part(1) [OF assms(1), of va] page_part(1) [OF assms(2), of va'] by (simp add: e)
  show "va AND 0xFFF = va' AND 0xFFF" using page_part(2) [OF assms(1), of va] page_part(2) [OF assms(2), of va'] by (simp add: e)
qed

lemma same_addr:
  assumes "key va = key va'" "va AND 0xFFF = va' AND 0xFFF"
  shows "va = (va' :: u32)"
proof -
  have d: "drop_bit 12 va = drop_bit 12 va'" using assms(1) same_page [of va va'] by simp
  have m: "(0xFFF :: u32) = mask 12" by (simp add: mask_eq_exp_minus_1)
  have "push_bit 12 (drop_bit 12 va) + take_bit 12 va = va" "push_bit 12 (drop_bit 12 va') + take_bit 12 va' = va'"
    by (simp_all add: bits_ident)
  then show ?thesis using d assms(2) unfolding m take_bit_eq_mask by metis
qed

section \<open>Changes that stay inside frames\<close>

text \<open>\<open>mm_but U\<close> is \<open>mm_keep\<close> with the bytes of \<open>U\<close> outside the heap and the bitmap excepted.\<close>

definition mm_but :: "nat set \<Rightarrow> (nat \<times> nat) set \<Rightarrow> mm_state \<Rightarrow> mm_state \<Rightarrow> bool" where
  "mm_but U L s s' \<longleftrightarrow> mm_ok s' \<and> L \<subseteq> live s' \<and> same_areas s s' \<and>
     (\<forall>x < 2 ^ 32. x \<notin> U \<and> \<not> in_heap s x \<and> \<not> in_bitmap s x \<or> x \<in> bytes_of L \<longrightarrow> byte_at s' x = byte_at s x)"

lemma mm_keep_but: "mm_keep L s s' \<Longrightarrow> mm_but U L s s'"
  by (auto simp: mm_keep_def mm_but_def)

lemma mm_but_mono: "mm_but U L s s' \<Longrightarrow> M \<subseteq> L \<Longrightarrow> U \<subseteq> V \<Longrightarrow> mm_but V M s s'"
  by (fastforce simp: mm_but_def bytes_of_def)

lemma mm_butD:
  assumes "mm_but U L s s'"
  shows "mm_ok s'" "L \<subseteq> live s'" "same_areas s s'" "\<And>x. in_heap s' x = in_heap s x" "\<And>x. in_bitmap s' x = in_bitmap s x"
    "managed s' = managed s"
  using assms same_areas_simps [of s s'] by (auto simp: mm_but_def)

lemma mm_but_trans:
  assumes "mm_but U L s s'" "mm_but U L s' s''"
  shows "mm_but U L s s''"
proof -
  have "same_areas s s''" using assms by (simp add: mm_but_def same_areas_def)
  then show ?thesis using assms mm_butD(4,5) [OF assms(1)] by (simp add: mm_but_def)
qed

lemma mm_but_byte: "mm_but U L s s' \<Longrightarrow> b \<in> L \<Longrightarrow> x \<in> bytes_of {b} \<Longrightarrow> x < 2 ^ 32 \<Longrightarrow> byte_at s' x = byte_at s x"
  by (fastforce simp: mm_but_def bytes_of_def)

text \<open>A write to memory outside the heap and the bitmap.\<close>

lemma outside_write:
  assumes ok: "mm_ok s" and w: "\<forall>x < 2 ^ 32. byte_at (s\<lparr>mem := m'\<rparr>) x \<noteq> byte_at s x \<longrightarrow> x \<in> U \<and> \<not> in_heap s x \<and> \<not> in_bitmap s x"
  shows "mm_but U (live s) s (s\<lparr>mem := m'\<rparr>)" "live (s\<lparr>mem := m'\<rparr>) = live s" "avail (s\<lparr>mem := m'\<rparr>) = avail s"
proof -
  let ?s = "s\<lparr>mem := m'\<rparr>"
  have hok: "heap_ok s" and pok: "pmm_ok s" using ok by (auto simp: mm_ok_def)
  have h: "heap_ok ?s" "live ?s = live s" using heap_same_bytes [OF hok, of ?s] w by auto
  have bm: "mem ?s a = mem s a" if "bm_bytes (bm_of (g_pmm s)) a" for a
  proof -
    have "in_bitmap s (unat a)" using that by (simp add: in_bitmap_def)
    then have "byte_at ?s (unat a) = byte_at s (unat a)" using w unat_lt_32 [of a] by blast
    then show ?thesis by (simp add: byte_at_def)
  qed
  have p: "pmm_ok ?s" "avail ?s = avail s" using pmm_same_bitmap [OF pok _ bm] by simp_all
  show "live ?s = live s" "avail ?s = avail s" using h(2) p(2) by simp_all
  have areas: "same_areas s ?s" by (simp add: same_areas_def)
  have inh: "in_heap s x" if "x \<in> bytes_of (live s)" for x
    using that live_bounds(1,2) [OF hok] by (fastforce simp: bytes_of_def in_heap_def)
  have "byte_at ?s x = byte_at s x" if "x < 2 ^ 32" "x \<notin> U \<and> \<not> in_heap s x \<and> \<not> in_bitmap s x \<or> x \<in> bytes_of (live s)" for x
    using w that inh by blast
  moreover have "mm_ok ?s" using ok h(1) p(1) same_areas_simps [OF areas] by (simp add: mm_ok_def)
  ultimately show "mm_but U (live s) s ?s" using h(2) areas unfolding mm_but_def by blast
qed

text \<open>The tables of a space are the same after such a change.\<close>

lemma space_but:
  assumes ok: "space_ok kp s tt b B" and k: "mm_but U (live s) s s'" and av: "avail s' = avail s"
  shows "space_ok kp s' tt b B" "mapping kp (mem s') tt = mapping kp (mem s) tt" "blocks_of kp s' tt b B = blocks_of kp s tt b B"
    "has_l2 (mem s') tt mb = has_l2 (mem s) tt mb"
proof -
  have tok: "tables_ok kp s tt b B" and mok: "mm_ok s" using ok by (auto simp: space_ok_def tables_ok_def)
  have hok: "heap_ok s" using mok by (simp add: mm_ok_def)
  note t = tables_table [OF tok]
  have hb: "holds s tt (4 * 32) b" using tok by (simp add: tables_ok_def)
  have holds: "holds s' p n c" if "holds s p n c" for p n c
  proof (rule holds_bytes [OF hok that])
    have "c \<in> live s" using that by (simp add: holds_def)
    then show "c \<in> live s'" "\<And>x. x < 2 ^ 32 \<Longrightarrow> x \<in> bytes_of {c} \<Longrightarrow> byte_at s' x = byte_at s x"
      using mm_butD(2) [OF k] mm_but_byte [OF k] by auto
  qed
  have same: "entry (mem s') p i = entry (mem s) p i" if h: "holds s p (4 * n) c" "is_table p n" "unat i < n" for p n c i
    unfolding entry_def
  proof (rule rd32_same_bytes)
    note e = entry_addr(1) [OF h(2,3)] and r = holds_region(1,2) [OF hok h(1)]
    show "byte_at s' x = byte_at s x" if "unat (p + 4 * i) \<le> x" "x < unat (p + 4 * i) + 4" for x
    proof -
      have x: "unat p \<le> x" "x < unat p + 4 * n" using that e h(3) by auto
      then show ?thesis using mm_but_byte [OF k, of c x] h(1) r by (auto simp: holds_def)
    qed
    show "unat (p + 4 * i) + 4 \<le> 2 ^ 32" using e r(2) h(3) by simp
  qed
  have l1: "entry (mem s') tt mb = entry (mem s) tt mb" if "unat mb < 32" for mb
    by (rule same [OF hb t(1) that])
  show has: "has_l2 (mem s') tt mb = has_l2 (mem s) tt mb" for mb using l1 [of mb] by (auto simp: has_l2_def)
  have tab: "l2_table kp (mem s') tt mb = l2_table kp (mem s) tt mb" if "has_l2 (mem s) tt mb" for mb
    using l1 [OF has_l2_less [OF that]] by (simp add: l2_table_def)
  show "blocks_of kp s' tt b B = blocks_of kp s tt b B" by (simp add: blocks_of_def has)
  have l2: "entry (mem s') (l2_table kp (mem s) tt mb) i = entry (mem s) (l2_table kp (mem s) tt mb) i"
    if "has_l2 (mem s) tt mb" "unat i < 256" for mb i
  proof -
    have "holds s (l2_table kp (mem s) tt mb) (4 * 256) (B mb)" using tok that(1) unfolding tables_ok_def by blast
    from same [OF this t(2) [OF that(1)] that(2)] show ?thesis .
  qed
  show map: "mapping kp (mem s') tt = mapping kp (mem s) tt"
    by (auto simp: mapping_def fun_eq_iff page_of_alt has tab l2)
  have "tables_ok kp s' tt b B"
    using tok mm_butD(1,3) [OF k] holds by (auto simp: tables_ok_def has tab same_areas_def)
  moreover have "plain kp (mem s') tt" using ok by (auto simp: plain_def space_ok_def has tab l2)
  ultimately show "space_ok kp s' tt b B"
    using ok map av mm_butD(6) [OF k] by (simp add: space_ok_def pages_of_def)
qed

section \<open>The view\<close>

definition user_mem :: "u32 \<Rightarrow> mem \<Rightarrow> u32 \<Rightarrow> u32 \<Rightarrow> u8 option" where
  "user_mem kp m tt va =
     (if unat va < 2 ^ 25 then map_option (\<lambda>pa. m (frame_addr kp pa va)) (mapping kp m tt (key va)) else None)"

text \<open>The space \<open>tt\<close> is installed, and its frames lie outside the heap and the bitmap.\<close>

definition user_ok :: "'d platform \<Rightarrow> 'd kernel \<Rightarrow> u32 \<Rightarrow> block_id \<Rightarrow> (u32 \<Rightarrow> block_id) \<Rightarrow> bool" where
  "user_ok P k tt b B \<longleftrightarrow> space_ok (kpb P) (k_mm k) tt b B \<and> frames_ok (kpb P) (k_mm k) (pages_of (kpb P) (k_mm k) tt) \<and>
     ttbr0 k = virt_to_phys (kpb P) tt"

lemma walk_table:
  assumes "user_ok P k tt b B"
  shows "phys_to_virt (kpb P) (ttbr0 k) = tt"
proof -
  have "tables_ok (kpb P) (k_mm k) tt b B" using assms by (simp add: user_ok_def space_ok_def)
  then have "KERNEL_VA \<le> tt"
    using holds_kernel [of "k_mm k" tt "4 * 32" b] by (simp add: tables_ok_def mm_ok_def)
  then show ?thesis using assms by (simp add: user_ok_def virt_to_phys_def phys_to_virt_def)
qed

lemma access_user:
  assumes ok: "user_ok P k tt b B" and va: "user_mem (kpb P) (kmem k) tt va = Some c"
  obtains pa where "mapping (kpb P) (kmem k) tt (key va) = Some pa" "access_addr P k va = Some (frame_addr (kpb P) pa va)"
    "c = kmem k (frame_addr (kpb P) pa va)" "unat va < 2 ^ 25" "2 ^ 12 dvd unat pa"
proof -
  obtain pa where pa: "mapping (kpb P) (kmem k) tt (key va) = Some pa" "c = kmem k (frame_addr (kpb P) pa va)" "unat va < 2 ^ 25"
    using va by (auto simp: user_mem_def split: if_splits)
  have "l1_type (entry (kmem k) tt (drop_bit 20 va)) = L1_PAGE_TABLE" using pa(1) by (auto simp: mapping_Some has_l2_def)
  then have "translate (kpb P) (kmem k) tt va = va_lookup (kpb P) (kmem k) tt va" by (simp add: translate_def)
  then have "access_addr P k va = Some (frame_addr (kpb P) pa va)"
    using pa(1,3) walk_table [OF ok] va_lookup_mapping [OF pa(3), of "kpb P" "kmem k" tt] by (simp add: access_addr_def word_less_nat_alt)
  moreover have "pa \<in> managed (k_mm k)" using ok pa(1) by (auto simp: user_ok_def space_ok_def pages_of_def ran_def)
  then have "2 ^ 12 dvd unat pa" by (auto simp: managed_def pa_aligned_iff)
  ultimately show ?thesis using that pa by blast
qed

text \<open>
  A routine that only changes bytes in the frames of the space; \<open>f\<close> is what it leaves in the user's view.
\<close>

definition user_write :: "'d platform \<Rightarrow> u32 \<Rightarrow> 'd kernel \<Rightarrow> 'd kernel \<Rightarrow> (u32 \<Rightarrow> u8 option) \<Rightarrow> bool" where
  "user_write P tt k k' f \<longleftrightarrow> (\<exists>m. k' = set_kmem m k) \<and>
     mm_but (frames (kpb P) (pages_of (kpb P) (k_mm k) tt)) (live (k_mm k)) (k_mm k) (k_mm k') \<and>
     live (k_mm k') = live (k_mm k) \<and> avail (k_mm k') = avail (k_mm k) \<and>
     mapping (kpb P) (kmem k') tt = mapping (kpb P) (kmem k) tt \<and> user_mem (kpb P) (kmem k') tt = f"

lemma user_write_refl: "user_ok P k tt b B \<Longrightarrow> user_write P tt k k (user_mem (kpb P) (kmem k) tt)"
  unfolding user_write_def
proof (intro conjI)
  assume "user_ok P k tt b B"
  then have "mm_ok (k_mm k)" by (simp add: user_ok_def space_ok_def tables_ok_def)
  then show "mm_but (frames (kpb P) (pages_of (kpb P) (k_mm k) tt)) (live (k_mm k)) (k_mm k) (k_mm k)"
    by (intro mm_keep_but mm_keep_refl) simp_all
  show "\<exists>m. k = set_kmem m k" by (intro exI [of _ "kmem k"]) (simp add: set_kmem_def)
qed simp_all

lemma user_write_ok:
  assumes "user_ok P k tt b B" "user_write P tt k k' f"
  shows "user_ok P k' tt b B" "pages_of (kpb P) (k_mm k') tt = pages_of (kpb P) (k_mm k) tt" "blocks_of (kpb P) (k_mm k') tt b B = blocks_of (kpb P) (k_mm k) tt b B"
proof -
  have k: "mm_but (frames (kpb P) (pages_of (kpb P) (k_mm k) tt)) (live (k_mm k)) (k_mm k) (k_mm k')" "avail (k_mm k') = avail (k_mm k)"
    using assms(2) by (simp_all add: user_write_def)
  have sp: "space_ok (kpb P) (k_mm k) tt b B" using assms(1) by (simp add: user_ok_def)
  note s = space_but [OF sp k]
  show pg: "pages_of (kpb P) (k_mm k') tt = pages_of (kpb P) (k_mm k) tt" using s(2) by (simp add: pages_of_def)
  show "blocks_of (kpb P) (k_mm k') tt b B = blocks_of (kpb P) (k_mm k) tt b B" by (rule s(3))
  have "ttbr0 k' = ttbr0 k" using assms(2) by (auto simp: user_write_def set_kmem_def)
  then show "user_ok P k' tt b B"
    using s(1) assms(1) frames_ok_areas [OF _ mm_butD(3) [OF k(1)]] pg by (simp add: user_ok_def)
qed

lemma user_write_room:
  assumes "user_ok P k tt b B" "user_write P tt k k' f" "room_left (k_mm k) tt n"
  shows "room_left (k_mm k') tt n"
proof -
  have w: "mm_but (frames (kpb P) (pages_of (kpb P) (k_mm k) tt)) (live (k_mm k)) (k_mm k) (k_mm k')" "avail (k_mm k') = avail (k_mm k)"
    "live (k_mm k') = live (k_mm k)" using assms(2) by (simp_all add: user_write_def)
  have sp: "space_ok (kpb P) (k_mm k) tt b B" using assms(1) by (simp add: user_ok_def)
  have "spends 0 (k_mm k) (k_mm k')" by (rule spends_live) (use w(3) mm_butD(3) [OF w(1)] in \<open>simp_all add: same_areas_def\<close>)
  then show ?thesis by (rule room_left_spends [OF _ space_but(4) [OF sp w(1,2)] assms(3)])
qed

lemma user_write_trans:
  assumes "user_ok P k tt b B" "user_write P tt k k' f" "user_write P tt k' k'' g"
  shows "user_write P tt k k'' g"
proof -
  obtain m m' where m: "k' = set_kmem m k" "k'' = set_kmem m' k'" using assms(2,3) by (auto simp: user_write_def)
  have "k'' = set_kmem m' k" using m by (simp add: set_kmem_def)
  then show ?thesis
    using assms(2,3) user_write_ok(2) [OF assms(1,2)] mm_but_trans unfolding user_write_def by (metis (no_types, lifting))
qed

lemma load_user:
  assumes "user_ok P k tt b B" "user_mem (kpb P) (kmem k) tt va = Some c"
  shows "load_byte P va k = Returns c"
  using assms by (rule access_user) (simp add: load_byte_def)

lemma store_user:
  assumes ok: "user_ok P k tt b B" and va: "va \<in> dom (user_mem (kpb P) (kmem k) tt)"
  obtains k' where "store_byte P va c k = Returns k'" "user_write P tt k k' ((user_mem (kpb P) (kmem k) tt)(va \<mapsto> c))"
proof -
  obtain d where "user_mem (kpb P) (kmem k) tt va = Some d" using va by blast
  with ok show ?thesis
  proof (rule access_user)
    fix pa assume pa: "mapping (kpb P) (kmem k) tt (key va) = Some pa" "access_addr P k va = Some (frame_addr (kpb P) pa va)"
      "unat va < 2 ^ 25" "2 ^ 12 dvd unat pa"
    let ?a = "frame_addr (kpb P) pa va" and ?U = "frames (kpb P) (pages_of (kpb P) (k_mm k) tt)"
    let ?k = "set_kmem ((kmem k)(?a := c)) k"
    have sp: "space_ok (kpb P) (k_mm k) tt b B" using ok by (simp add: user_ok_def)
    then have mok: "mm_ok (k_mm k)" by (simp add: space_ok_def tables_ok_def)
    have "pa \<in> pages_of (kpb P) (k_mm k) tt" using pa(1) by (auto simp: pages_of_def ran_def)
    then have U: "unat ?a \<in> ?U" by (auto simp: frames_def)
    then have out: "\<not> in_heap (k_mm k) (unat ?a)" "\<not> in_bitmap (k_mm k) (unat ?a)" using ok by (auto simp: user_ok_def frames_ok_def)
    have "\<forall>x < 2 ^ 32. byte_at ((k_mm k)\<lparr>mem := (kmem k)(?a := c)\<rparr>) x \<noteq> byte_at (k_mm k) x \<longrightarrow>
        x \<in> ?U \<and> \<not> in_heap (k_mm k) x \<and> \<not> in_bitmap (k_mm k) x"
    proof (intro allI impI)
      fix x :: nat assume "x < 2 ^ 32" "byte_at ((k_mm k)\<lparr>mem := (kmem k)(?a := c)\<rparr>) x \<noteq> byte_at (k_mm k) x"
      then have "w32 x = ?a" "unat (w32 x) = x" by (auto simp: byte_at_def unat_w32 split: if_splits)
      then have "x = unat ?a" by simp
      then show "x \<in> ?U \<and> \<not> in_heap (k_mm k) x \<and> \<not> in_bitmap (k_mm k) x" using U out by simp
    qed
    note w = outside_write [OF mok this]
    note s = space_but [OF sp w(1,3)]
    have map: "mapping (kpb P) (kmem ?k) tt = mapping (kpb P) (kmem k) tt" using s(2) by simp
    have "user_mem (kpb P) (kmem ?k) tt = (user_mem (kpb P) (kmem k) tt)(va \<mapsto> c)"
    proof
      fix x
      show "user_mem (kpb P) (kmem ?k) tt x = ((user_mem (kpb P) (kmem k) tt)(va \<mapsto> c)) x"
      proof (cases "unat x < 2 ^ 25 \<and> mapping (kpb P) (kmem k) tt (key x) \<noteq> None")
        case True
        then obtain pa' where pa': "mapping (kpb P) (kmem k) tt (key x) = Some pa'" by blast
        have "pa' \<in> managed (k_mm k)" using sp pa' by (auto simp: space_ok_def pages_of_def ran_def)
        then have al: "2 ^ 12 dvd unat pa'" by (auto simp: managed_def pa_aligned_iff)
        have "x = va" if "frame_addr (kpb P) pa' x = ?a"
        proof (rule same_addr)
          note f = frame_addr_inj [OF al pa(4) that]
          show "x AND 0xFFF = va AND 0xFFF" by (rule f(2))
          have "inj_on (mapping (kpb P) (kmem k) tt) (dom (mapping (kpb P) (kmem k) tt))" using sp by (simp add: space_ok_def)
          then show "key x = key va" by (rule inj_onD) (use pa' pa(1) f(1) in auto)
        qed
        then show ?thesis using True pa' pa(1,3) unfolding user_mem_def map by auto
      next
        case False
        then have "x \<noteq> va" using pa(1,3) by auto
        then show ?thesis using False unfolding user_mem_def map by auto
      qed
    qed
    then have "user_write P tt k ?k ((user_mem (kpb P) (kmem k) tt)(va \<mapsto> c))"
      unfolding user_write_def using w map by auto
    moreover have "store_byte P va c k = Returns ?k" using pa(2) by (simp add: store_byte_def)
    ultimately show ?thesis using that by blast
  qed
qed

text \<open>Steps of the allocators do not reach the frames.\<close>

lemma user_mem_keep:
  assumes "frames_ok kp s (pages_of kp s tt)" "mm_keep L s s'" "mapping kp (mem s') tt = mapping kp (mem s) tt"
  shows "user_mem kp (mem s') tt = user_mem kp (mem s) tt"
proof
  fix x
  have "mem s' (frame_addr kp pa x) = mem s (frame_addr kp pa x)" if "mapping kp (mem s) tt (key x) = Some pa" for pa
  proof -
    let ?a = "unat (frame_addr kp pa x)"
    have "?a \<in> frames kp (pages_of kp s tt)" using that by (auto simp: frames_def pages_of_def ran_def)
    then have "byte_at s' ?a = byte_at s ?a" using assms(1,2) unat_lt_32 unfolding frames_ok_def mm_keep_def by blast
    then show ?thesis by (simp add: byte_at_def)
  qed
  then show "user_mem kp (mem s') tt x = user_mem kp (mem s) tt x"
    unfolding user_mem_def assms(3) by (cases "mapping kp (mem s) tt (key x)") simp_all
qed

end
