(* ===== verification/Leg_Image.thy ===== *)
theory Leg_Image
  imports Leg_User_Memory Leg_Fs_Steps
begin

text \<open>
  What the loader makes of an image: a partial map from user addresses to bytes, segment after segment. On a
  well-formed image in a kernel buffer \<^verbatim>\<open>llf_load\<close> ends, and when it succeeds the process sees exactly that map.
\<close>

section \<open>Filling and copying\<close>

definition patch :: "u32 \<Rightarrow> nat \<Rightarrow> (nat \<Rightarrow> u8) \<Rightarrow> (u32 \<Rightarrow> u8 option) \<Rightarrow> u32 \<Rightarrow> u8 option" where
  "patch a n c f = (\<lambda>x. if in_region a n x then Some (c (unat x - unat a)) else f x)"

lemma patch_Suc:
  assumes "unat a + Suc n \<le> 2 ^ 25"
  shows "patch (a + 1) n (\<lambda>i. c (Suc i)) (f(a \<mapsto> c 0)) = patch a (Suc n) c f"
proof
  have "unat (a + 1) = Suc (unat a)" using assms unat_add_no_wrap [of a 1] by simp
  then show "patch (a + 1) n (\<lambda>i. c (Suc i)) (f(a \<mapsto> c 0)) x = patch a (Suc n) c f x" for x
    by (auto simp: patch_def in_region_def word_unat_eq_iff Suc_diff_Suc not_less_eq_eq split: if_splits)
qed

lemma patch_0 [simp]: "patch a 0 c f = f"
  by (auto simp: patch_def in_region_def fun_eq_iff)

lemma patch_over: "m \<le> n \<Longrightarrow> patch a m c (patch a n d f) = patch a n (\<lambda>i. if i < m then c i else d i) f"
  unfolding patch_def in_region_def by (intro ext) auto

lemma patch_cong: "\<forall>i < n. c i = d i \<Longrightarrow> patch a n c f = patch a n d f"
  unfolding patch_def in_region_def by (intro ext) (auto simp: less_diff_conv2)

lemma user_fill_step:
  assumes "user_ok P k tt b B" "unat a + n \<le> 2 ^ 25" "\<forall>x. in_region a n x \<longrightarrow> x \<in> dom (user_mem (kpb P) (kmem k) tt)"
  shows "\<exists>k'. user_fill P n a c k = Returns k' \<and> user_write P tt k k' (patch a n (\<lambda>_. c) (user_mem (kpb P) (kmem k) tt))"
  using assms
proof (induction n arbitrary: a k)
  case 0
  then show ?case using user_write_refl by simp
next
  case (Suc n)
  have a: "a \<in> dom (user_mem (kpb P) (kmem k) tt)" using Suc.prems(3) by (simp add: in_region_def)
  obtain k1 where k1: "store_byte P a c k = Returns k1" "user_write P tt k k1 ((user_mem (kpb P) (kmem k) tt)(a \<mapsto> c))"
    using store_user [OF Suc.prems(1) a] by blast
  have a1: "unat (a + 1) = Suc (unat a)" using Suc.prems(2) unat_add_no_wrap [of a 1] by simp
  have v: "user_mem (kpb P) (kmem k1) tt = (user_mem (kpb P) (kmem k) tt)(a \<mapsto> c)" using k1(2) by (simp add: user_write_def)
  have ok1: "user_ok P k1 tt b B" by (rule user_write_ok(1) [OF Suc.prems(1) k1(2)])
  have "\<exists>k'. user_fill P n (a + 1) c k1 = Returns k' \<and> user_write P tt k1 k' (patch (a + 1) n (\<lambda>_. c) (user_mem (kpb P) (kmem k1) tt))"
  proof (rule Suc.IH [OF ok1])
    show "unat (a + 1) + n \<le> 2 ^ 25" using Suc.prems(2) a1 by simp
    show "\<forall>x. in_region (a + 1) n x \<longrightarrow> x \<in> dom (user_mem (kpb P) (kmem k1) tt)"
      using Suc.prems(3) a1 unfolding v by (auto simp: in_region_def)
  qed
  then obtain k' where k': "user_fill P n (a + 1) c k1 = Returns k'" "user_write P tt k1 k' (patch (a + 1) n (\<lambda>_. c) (user_mem (kpb P) (kmem k1) tt))"
    by blast
  have "patch (a + 1) n (\<lambda>_. c) (user_mem (kpb P) (kmem k1) tt) = patch a (Suc n) (\<lambda>_. c) (user_mem (kpb P) (kmem k) tt)"
    unfolding v by (rule patch_Suc [OF Suc.prems(2)])
  then show ?case using k1(1) k' user_write_trans [OF Suc.prems(1) k1(2) k'(2)] by simp
qed

text \<open>A kernel buffer: bytes of a live block above the user addresses.\<close>

definition buffer :: "mm_state \<Rightarrow> u32 \<Rightarrow> nat \<Rightarrow> block_id \<Rightarrow> bool" where
  "buffer s p n c \<longleftrightarrow> c \<in> live s \<and> KERNEL_VA \<le> p \<and> unat p + n < 2 ^ 32 \<and> (\<forall>x. unat p \<le> x \<and> x < unat p + n \<longrightarrow> x \<in> bytes_of {c})"

lemma buffer_part: "buffer s p n c \<Longrightarrow> i + m \<le> n \<Longrightarrow> unat (p + w32 i) = unat p + i \<and> buffer s (p + w32 i) m c"
proof -
  assume h: "buffer s p n c" "i + m \<le> n"
  have i: "unat (w32 i) = i" using h by (intro unat_w32) (simp add: buffer_def)
  have "unat (p + w32 i) = unat p + i" using h i unat_add_no_wrap [of p "w32 i"] by (simp add: buffer_def)
  then show ?thesis using h by (auto simp: buffer_def word_le_nat_alt)
qed

lemma buffer_byte: "buffer s p n c \<Longrightarrow> c \<in> L \<Longrightarrow> mm_but U L s s' \<Longrightarrow> i < n \<Longrightarrow> mem s' (p + w32 i) = mem s (p + w32 i)"
  using buffer_part [of s p n c i 1] mm_but_byte [of U L s s' c "unat p + i"] unat_lt_32 [of "p + w32 i"]
  by (auto simp: buffer_def byte_at_def)

lemma buffer_but: "buffer s p n c \<Longrightarrow> c \<in> L \<Longrightarrow> mm_but U L s s' \<Longrightarrow> buffer s' p n c"
  by (auto simp: buffer_def mm_but_def)

lemma user_copy_step:
  assumes "user_ok P k tt b B" "unat a + n \<le> 2 ^ 25" "\<forall>x. in_region a n x \<longrightarrow> x \<in> dom (user_mem (kpb P) (kmem k) tt)"
    "buffer (k_mm k) src n c"
  shows "\<exists>k'. user_copy_up P n a src k = Returns k' \<and>
    user_write P tt k k' (patch a n (\<lambda>i. kmem k (src + w32 i)) (user_mem (kpb P) (kmem k) tt))"
  using assms
proof (induction n arbitrary: a src k)
  case 0
  then show ?case using user_write_refl by simp
next
  case (Suc n)
  have a: "a \<in> dom (user_mem (kpb P) (kmem k) tt)" using Suc.prems(3) by (simp add: in_region_def)
  have src: "unat (src + w32 1) = unat src + 1" "buffer (k_mm k) (src + w32 1) n c" using buffer_part [OF Suc.prems(4), of 1 n] by simp_all
  have "\<not> src < PROC_USER_VA_TOP" using Suc.prems(4) by (auto simp: buffer_def word_le_nat_alt word_less_nat_alt)
  then have ld: "load_byte P src k = Returns (kmem k src)" by (simp add: load_byte_def access_addr_def)
  obtain k1 where k1: "store_byte P a (kmem k src) k = Returns k1" "user_write P tt k k1 ((user_mem (kpb P) (kmem k) tt)(a \<mapsto> kmem k src))"
    using store_user [OF Suc.prems(1) a] by blast
  have a1: "unat (a + 1) = Suc (unat a)" using Suc.prems(2) unat_add_no_wrap [of a 1] by simp
  have v: "user_mem (kpb P) (kmem k1) tt = (user_mem (kpb P) (kmem k) tt)(a \<mapsto> kmem k src)" using k1(2) by (simp add: user_write_def)
  have ok1: "user_ok P k1 tt b B" by (rule user_write_ok(1) [OF Suc.prems(1) k1(2)])
  have but: "mm_but (frames (kpb P) (pages_of (kpb P) (k_mm k) tt)) (live (k_mm k)) (k_mm k) (k_mm k1)" using k1(2) by (simp add: user_write_def)
  have c: "c \<in> live (k_mm k)" using Suc.prems(4) by (simp add: buffer_def)
  have same: "kmem k1 (src + 1 + w32 i) = kmem k (src + w32 (Suc i))" if "i < n" for i
    using buffer_byte [OF Suc.prems(4) c but, of "Suc i"] that by (simp add: add.assoc)
  have "\<exists>k'. user_copy_up P n (a + 1) (src + 1) k1 = Returns k' \<and>
      user_write P tt k1 k' (patch (a + 1) n (\<lambda>i. kmem k1 (src + 1 + w32 i)) (user_mem (kpb P) (kmem k1) tt))"
  proof (rule Suc.IH [OF ok1])
    show "unat (a + 1) + n \<le> 2 ^ 25" using Suc.prems(2) a1 by simp
    show "\<forall>x. in_region (a + 1) n x \<longrightarrow> x \<in> dom (user_mem (kpb P) (kmem k1) tt)"
      using Suc.prems(3) a1 unfolding v by (auto simp: in_region_def)
    show "buffer (k_mm k1) (src + 1) n c" using buffer_but [OF src(2) c but] by simp
  qed
  then obtain k' where k': "user_copy_up P n (a + 1) (src + 1) k1 = Returns k'"
      "user_write P tt k1 k' (patch (a + 1) n (\<lambda>i. kmem k1 (src + 1 + w32 i)) (user_mem (kpb P) (kmem k1) tt))" by blast
  have "patch (a + 1) n (\<lambda>i. kmem k1 (src + 1 + w32 i)) (user_mem (kpb P) (kmem k1) tt) =
      patch (a + 1) n (\<lambda>i. kmem k (src + w32 (Suc i))) (user_mem (kpb P) (kmem k1) tt)"
    using same by (intro patch_cong) blast
  also have "\<dots> = patch a (Suc n) (\<lambda>i. kmem k (src + w32 i)) (user_mem (kpb P) (kmem k) tt)"
    unfolding v using patch_Suc [OF Suc.prems(2), of "\<lambda>i. kmem k (src + w32 i)"] by simp
  finally show ?case using ld k1(1) k' user_write_trans [OF Suc.prems(1) k1(2) k'(2)] by simp
qed

section \<open>The contents of an image\<close>

definition seg_data :: "mem \<Rightarrow> u32 \<Rightarrow> llf_phdr_t \<Rightarrow> nat \<Rightarrow> u8" where
  "seg_data m buf ph i = (if ph_type ph = LLF_SEG_LOAD \<and> i < unat (ph_filesz ph) then m (buf + ph_offset ph + w32 i) else 0)"

definition load_segment :: "mem \<Rightarrow> u32 \<Rightarrow> llf_phdr_t \<Rightarrow> (u32 \<Rightarrow> u8 option) \<Rightarrow> u32 \<Rightarrow> u8 option" where
  "load_segment m buf ph f =
     (if ph_type ph = LLF_SEG_NULL then f else patch (ph_vaddr ph) (unat (ph_memsz ph)) (seg_data m buf ph) f)"

definition segment_at :: "mem \<Rightarrow> u32 \<Rightarrow> nat \<Rightarrow> llf_phdr_t" where
  "segment_at m buf i = llf_phdr m (buf + w32 (unat (ph_off (llf_header m buf)) + 28 * i))"

abbreviation segment_count :: "mem \<Rightarrow> u32 \<Rightarrow> nat" where
  "segment_count m buf \<equiv> unat (ph_count (llf_header m buf))"

definition image_from :: "mem \<Rightarrow> u32 \<Rightarrow> nat list \<Rightarrow> (u32 \<Rightarrow> u8 option) \<Rightarrow> u32 \<Rightarrow> u8 option" where
  "image_from m buf is = fold (\<lambda>i. load_segment m buf (segment_at m buf i)) is"

definition image_map :: "mem \<Rightarrow> u32 \<Rightarrow> u32 \<Rightarrow> u8 option" where
  "image_map m buf = image_from m buf [0..<segment_count m buf] Map.empty"

text \<open>The pages that the segments take.\<close>

abbreviation seg_cover :: "mem \<Rightarrow> u32 \<Rightarrow> nat \<Rightarrow> (u32 \<times> u32) set" where
  "seg_cover m buf j \<equiv> (let ph = segment_at m buf j in if ph_type ph = LLF_SEG_NULL then {} else covers (ph_vaddr ph) (ph_memsz ph))"

definition image_keys :: "mem \<Rightarrow> u32 \<Rightarrow> (u32 \<times> u32) set" where
  "image_keys m buf = (\<Union>j \<in> {0..<segment_count m buf}. seg_cover m buf j)"

text \<open>A well-formed image of \<open>n\<close> bytes: its segments end below \<open>lim\<close> and take their bytes from the image.\<close>

definition segment_ok :: "nat \<Rightarrow> nat \<Rightarrow> llf_phdr_t \<Rightarrow> bool" where
  "segment_ok lim n ph \<longleftrightarrow> ph_type ph \<noteq> LLF_SEG_NULL \<longrightarrow>
     unat (ph_vaddr ph) + unat (ph_memsz ph) \<le> lim \<and> ph_filesz ph \<le> ph_memsz ph \<and>
     (ph_type ph = LLF_SEG_LOAD \<longrightarrow> unat (ph_offset ph) + unat (ph_filesz ph) \<le> n)"

definition image_ok :: "nat \<Rightarrow> mem \<Rightarrow> u32 \<Rightarrow> nat \<Rightarrow> bool" where
  "image_ok lim m buf n \<longleftrightarrow> unat (ph_off (llf_header m buf)) + 28 * segment_count m buf \<le> n \<and>
     (\<forall>i < segment_count m buf. segment_ok lim n (segment_at m buf i))"

text \<open>The contents depend on the bytes of the image only.\<close>

lemma same_header:
  assumes "same_bytes n m a m' b" "24 \<le> n"
  shows "llf_header m a = llf_header m' b"
proof -
  have "rd32 m (a + w32 i) = rd32 m' (b + w32 i)" if "i + 4 \<le> n" for i
    using same_bytes_rd32 [OF same_bytes_shift [OF assms(1) that]] .
  from this [of 0] this [of 4] this [of 8] this [of 12] this [of 16] this [of 20] show ?thesis
    using assms(2) by (simp add: llf_header_def)
qed

lemma same_phdr:
  assumes "same_bytes n m a m' b" "i + 28 \<le> n"
  shows "llf_phdr m (a + w32 i) = llf_phdr m' (b + w32 i)"
proof -
  have "rd32 m (a + w32 j) = rd32 m' (b + w32 j)" if "j + 4 \<le> n" for j
    using same_bytes_rd32 [OF same_bytes_shift [OF assms(1) that]] .
  from this [of i] this [of "i + 4"] this [of "i + 8"] this [of "i + 12"] this [of "i + 16"] this [of "i + 20"] this [of "i + 24"]
  show ?thesis using assms(2) by (simp add: llf_phdr_def add.assoc)
qed

lemma same_segment:
  assumes "same_bytes n m a m' b" "24 \<le> n" "image_ok lim m' b n" "i < segment_count m' b"
  shows "segment_at m a i = segment_at m' b i"
proof -
  have "unat (ph_off (llf_header m' b)) + 28 * i + 28 \<le> n" using assms(3,4) by (simp add: image_ok_def)
  from same_phdr [OF assms(1) this] show ?thesis by (simp only: segment_at_def same_header [OF assms(1,2)])
qed

lemma same_seg_data:
  assumes "same_bytes n m a m' b" "segment_ok lim n ph" "ph_type ph \<noteq> LLF_SEG_NULL"
  shows "seg_data m a ph = seg_data m' b ph"
proof
  fix i
  show "seg_data m a ph i = seg_data m' b ph i"
  proof (cases "ph_type ph = LLF_SEG_LOAD \<and> i < unat (ph_filesz ph)")
    case True
    then have "unat (ph_offset ph) + i < n" using assms(2,3) by (simp add: segment_ok_def)
    moreover have "x + ph_offset ph + w32 i = x + w32 (unat (ph_offset ph) + i)" for x by simp
    ultimately show ?thesis using assms(1) True unfolding same_bytes_def seg_data_def by (simp only:)
  qed (auto simp: seg_data_def)
qed

lemma same_image:
  assumes "same_bytes n m a m' b" "24 \<le> n" "image_ok lim m' b n"
  shows "image_ok lim m a n" "image_map m a = image_map m' b" "image_keys m a = image_keys m' b"
proof -
  note h = same_header [OF assms(1,2)] and s = same_segment [OF assms]
  show "image_ok lim m a n" using assms(3) s by (simp add: image_ok_def h)
  show "image_keys m a = image_keys m' b" unfolding image_keys_def h by (rule SUP_cong) (simp_all add: s)
  have "load_segment m a (segment_at m a i) = load_segment m' b (segment_at m' b i)" if "i < segment_count m' b" for i
    using same_seg_data [OF assms(1), of lim "segment_at m' b i"] assms(3) that s [OF that]
    by (intro ext, cases "ph_type (segment_at m' b i) = LLF_SEG_NULL") (simp_all add: load_segment_def image_ok_def)
  then have "fold (\<lambda>i. load_segment m a (segment_at m a i)) [0..<segment_count m' b] =
      fold (\<lambda>i. load_segment m' b (segment_at m' b i)) [0..<segment_count m' b]"
    by (intro ext fold_cong) simp_all
  then show "image_map m a = image_map m' b" by (simp add: image_map_def image_from_def h)
qed

lemma image_ok_mono: "image_ok lim m a n \<Longrightarrow> n \<le> n' \<Longrightarrow> image_ok lim m a n'"
  by (fastforce simp: image_ok_def segment_ok_def)

lemma buffer_same:
  assumes "buffer s buf n c" "c \<in> L" "mm_but U L s s'"
  shows "same_bytes n (mem s') buf (mem s) buf"
  using buffer_byte [OF assms] by (simp add: same_bytes_def)

lemma same_then: "same_bytes n m' buf m buf \<Longrightarrow> same_bytes n m'' buf m' buf \<Longrightarrow> same_bytes n m'' buf m buf"
  by (simp add: same_bytes_def)

section \<open>Filling the segments\<close>

lemma fill_segment_step:
  assumes ok: "user_ok P k tt b B" and buf: "buffer (k_mm k) buf n c" and m: "same_bytes n (kmem k) buf m buf"
    and seg: "segment_ok lim n ph" "ph_type ph \<noteq> LLF_SEG_NULL" and lim: "lim \<le> 2 ^ 25"
    and dom: "\<forall>x. in_region (ph_vaddr ph) (unat (ph_memsz ph)) x \<longrightarrow> x \<in> dom (user_mem (kpb P) (kmem k) tt)"
  obtains k' where "fill_segment P buf ph k = Returns k'"
    "user_write P tt k k' (load_segment m buf ph (user_mem (kpb P) (kmem k) tt))"
proof -
  let ?va = "ph_vaddr ph" and ?len = "unat (ph_memsz ph)" and ?fs = "unat (ph_filesz ph)" and ?f = "user_mem (kpb P) (kmem k) tt"
  have sz: "unat ?va + ?len \<le> 2 ^ 25" "?fs \<le> ?len" using seg lim by (auto simp: segment_ok_def word_le_nat_alt)
  obtain k1 where k1: "user_fill P ?len ?va 0 k = Returns k1" "user_write P tt k k1 (patch ?va ?len (\<lambda>_. 0) ?f)"
    using user_fill_step [OF ok sz(1) dom] by blast
  show ?thesis
  proof (cases "ph_type ph = LLF_SEG_LOAD \<and> ph_filesz ph > 0")
    case False
    then have "seg_data m buf ph = (\<lambda>_. 0)" by (auto simp: seg_data_def fun_eq_iff word_less_nat_alt)
    moreover have "fill_segment P buf ph k = Returns k1" using k1(1) False by (auto simp: fill_segment_def user_memclr_def)
    ultimately show ?thesis using that k1(2) seg(2) by (simp add: load_segment_def)
  next
    case True
    let ?src = "buf + ph_offset ph"
    have off: "unat (ph_offset ph) + ?fs \<le> n" using True seg by (simp add: segment_ok_def)
    have c: "c \<in> live (k_mm k)" using buf by (simp add: buffer_def)
    have but: "mm_but (frames (kpb P) (pages_of (kpb P) (k_mm k) tt)) (live (k_mm k)) (k_mm k) (k_mm k1)" using k1(2) by (simp add: user_write_def)
    have src: "unat ?src = unat buf + unat (ph_offset ph)" "buffer (k_mm k1) ?src ?fs c"
      using buffer_part [OF buffer_but [OF buf c but] off] by simp_all
    have v: "user_mem (kpb P) (kmem k1) tt = patch ?va ?len (\<lambda>_. 0) ?f" using k1(2) by (simp add: user_write_def)
    note ok1 = user_write_ok(1) [OF ok k1(2)]
    have "\<exists>k'. user_copy_up P ?fs ?va ?src k1 = Returns k' \<and>
        user_write P tt k1 k' (patch ?va ?fs (\<lambda>i. kmem k1 (?src + w32 i)) (user_mem (kpb P) (kmem k1) tt))"
    proof (rule user_copy_step [OF ok1 _ _ src(2)])
      show "unat ?va + ?fs \<le> 2 ^ 25" using sz by simp
      show "\<forall>x. in_region ?va ?fs x \<longrightarrow> x \<in> dom (user_mem (kpb P) (kmem k1) tt)"
        using sz(2) unfolding v by (auto simp: patch_def in_region_def)
    qed
    then obtain k' where k': "user_copy_up P ?fs ?va ?src k1 = Returns k'"
      "user_write P tt k1 k' (patch ?va ?fs (\<lambda>i. kmem k1 (?src + w32 i)) (patch ?va ?len (\<lambda>_. 0) ?f))" unfolding v by blast
    have byte: "kmem k1 (?src + w32 i) = m (?src + w32 i)" if "i < ?fs" for i
    proof -
      have e: "?src + w32 i = buf + w32 (unat (ph_offset ph) + i)" by simp
      have "same_bytes n (kmem k1) buf m buf" using same_then [OF m buffer_same [OF buf c but]] .
      moreover have "unat (ph_offset ph) + i < n" using off that by simp
      ultimately show ?thesis unfolding e same_bytes_def by blast
    qed
    have "patch ?va ?fs (\<lambda>i. kmem k1 (?src + w32 i)) (patch ?va ?len (\<lambda>_. 0) ?f) = patch ?va ?len (seg_data m buf ph) ?f"
      unfolding patch_over [OF sz(2)] by (intro patch_cong) (use True byte in \<open>simp add: seg_data_def\<close>)
    moreover have "?va \<noteq> ?src" using src(1) buf sz(1) by (auto simp: buffer_def word_le_nat_alt)
    then have "fill_segment P buf ph k = Returns k'"
      using k1(1) k'(1) True by (auto simp: fill_segment_def user_memclr_def user_memcpy_def)
    ultimately show ?thesis using that user_write_trans [OF ok k1(2) k'(2)] seg(2) by (simp add: load_segment_def)
  qed
qed

lemma load_segment_mono: "dom f \<subseteq> dom (load_segment m buf ph f)"
  by (auto simp: load_segment_def patch_def)

lemma fill_segments_step:
  assumes "user_ok P k tt b B" "buffer (k_mm k) buf n c" "same_bytes n (kmem k) buf m buf" "24 \<le> n" "image_ok lim m buf n" "lim \<le> 2 ^ 25"
    "\<forall>i < segment_count m buf. let ph = segment_at m buf i in ph_type ph \<noteq> LLF_SEG_NULL \<longrightarrow>
       (\<forall>x. in_region (ph_vaddr ph) (unat (ph_memsz ph)) x \<longrightarrow> x \<in> dom (user_mem (kpb P) (kmem k) tt))"
    "d = segment_count m buf - i" "i \<le> segment_count m buf"
  shows "\<exists>k'. fill_segments P buf (buf + ph_off (llf_header m buf)) (w32 i) k = Some (Returns k') \<and>
    user_write P tt k k' (image_from m buf [i..<segment_count m buf] (user_mem (kpb P) (kmem k) tt))"
  using assms
proof (induction d arbitrary: i k)
  case 0
  let ?n = "segment_count m buf"
  have "segment_count (kmem k) buf = ?n" using same_header [OF 0(3,4)] by simp
  moreover have "i = ?n" using 0 by simp
  ultimately show ?case
    using user_write_refl [OF 0(1)] by (subst fill_segments.simps) (simp add: image_from_def word_less_nat_alt)
next
  case (Suc d)
  let ?n = "segment_count m buf" and ?phs = "buf + ph_off (llf_header m buf)" and ?f = "user_mem (kpb P) (kmem k) tt"
  let ?ph = "segment_at m buf i"
  have i: "i < ?n" "d = ?n - Suc i" "Suc i \<le> ?n" using Suc.prems(8) by simp_all
  have "unat (w32 i) = i" using less_trans [OF i(1) unat_lt_32] by (rule unat_w32)
  moreover have hd: "llf_header (kmem k) buf = llf_header m buf" by (rule same_header [OF Suc.prems(3,4)])
  ultimately have lt: "w32 i < ph_count (llf_header (kmem k) buf)" using i(1) by (simp add: word_less_nat_alt)
  have "?phs + 28 * w32 i = buf + w32 (unat (ph_off (llf_header m buf)) + 28 * i)" by simp
  then have ph: "llf_phdr (kmem k) (?phs + 28 * w32 i) = ?ph"
    using same_segment [OF Suc.prems(3,4,5) i(1)] by (simp only: segment_at_def hd)
  have up: "[i..<?n] = i # [Suc i..<?n]" using i(1) by (rule upt_conv_Cons)
  have S: "w32 i + 1 = w32 (Suc i)" by simp
  show ?case
  proof (cases "ph_type ?ph = LLF_SEG_NULL")
    case True
    have "fill_segments P buf ?phs (w32 i) k = fill_segments P buf ?phs (w32 (Suc i)) k"
      unfolding S [symmetric] using lt ph True by (subst fill_segments.simps) (simp only: Let_def if_True refl)
    moreover have "load_segment m buf ?ph ?f = ?f" using True by (simp add: load_segment_def)
    ultimately show ?thesis using Suc.IH [OF Suc.prems(1-7) i(2,3)] by (simp only: image_from_def up fold_simps o_apply)
  next
    case False
    have seg: "segment_ok lim n ?ph" using Suc.prems(5) i(1) by (simp add: image_ok_def)
    have dom: "\<forall>x. in_region (ph_vaddr ?ph) (unat (ph_memsz ?ph)) x \<longrightarrow> x \<in> dom ?f" using Suc.prems(7) i(1) False by (simp add: Let_def)
    obtain k1 where k1: "fill_segment P buf ?ph k = Returns k1" "user_write P tt k k1 (load_segment m buf ?ph ?f)"
      by (rule fill_segment_step [OF Suc.prems(1-3) seg False Suc.prems(6) dom])
    have c: "c \<in> live (k_mm k)" using Suc.prems(2) by (simp add: buffer_def)
    have but: "mm_but (frames (kpb P) (pages_of (kpb P) (k_mm k) tt)) (live (k_mm k)) (k_mm k) (k_mm k1)" using k1(2) by (simp add: user_write_def)
    have v: "user_mem (kpb P) (kmem k1) tt = load_segment m buf ?ph ?f" using k1(2) by (simp add: user_write_def)
    have "\<forall>i < ?n. let ph = segment_at m buf i in ph_type ph \<noteq> LLF_SEG_NULL \<longrightarrow>
       (\<forall>x. in_region (ph_vaddr ph) (unat (ph_memsz ph)) x \<longrightarrow> x \<in> dom (user_mem (kpb P) (kmem k1) tt))"
      unfolding v Let_def using Suc.prems(7) load_segment_mono [of ?f m buf ?ph] unfolding Let_def by blast
    from Suc.IH [OF user_write_ok(1) [OF Suc.prems(1) k1(2)] buffer_but [OF Suc.prems(2) c but]
        same_then [OF Suc.prems(3) buffer_same [OF Suc.prems(2) c but]] Suc.prems(4,5,6) this i(2,3)]
    obtain k' where k': "fill_segments P buf ?phs (w32 (Suc i)) k1 = Some (Returns k')"
      "user_write P tt k1 k' (image_from m buf [Suc i..<?n] (load_segment m buf ?ph ?f))" unfolding v by blast
    have "fill_segments P buf ?phs (w32 i) k = fill_segments P buf ?phs (w32 (Suc i)) k1"
      unfolding S [symmetric] using lt ph False k1(1) by (subst fill_segments.simps) (simp only: Let_def if_True if_False bind_out.simps)
    then show ?thesis using k' user_write_trans [OF Suc.prems(1) k1(2) k'(2)] by (simp add: image_from_def up)
  qed
qed

section \<open>Mapping the segments\<close>

lemma space_step_buffer:
  assumes "space_step kp tt b B s B' s'" "buffer s buf n c" "c \<notin> blocks_of kp s tt b B"
  shows "buffer s' buf n c" "c \<notin> blocks_of kp s' tt b B'" "same_bytes n (mem s') buf (mem s) buf"
proof -
  have c: "c \<in> live s - blocks_of kp s tt b B" using assms(2,3) by (simp add: buffer_def)
  have k: "mm_but {} (live s - blocks_of kp s tt b B) s s'" using assms(1) mm_keep_but unfolding space_step_def by blast
  show "buffer s' buf n c" by (rule buffer_but [OF assms(2) c k])
  show "same_bytes n (mem s') buf (mem s) buf" by (rule buffer_same [OF assms(2) c k])
  show "c \<notin> blocks_of kp s' tt b B'" using c assms(1) by (auto simp: space_step_def)
qed

definition keys_below :: "nat \<Rightarrow> (u32 \<times> u32) set" where
  "keys_below lim = {key a |a. unat a < lim}"

lemma covers_below:
  assumes "unat va + unat len \<le> lim" "4096 dvd lim"
  shows "covers va len \<subseteq> keys_below lim"
proof -
  have "unat a < lim" if "unat a div 4096 * 4096 < unat va + unat len" for a :: u32
  proof -
    obtain q where q: "lim = 4096 * q" using assms(2) by blast
    have "unat a div 4096 < q" using that assms(1) unfolding q by linarith
    then show ?thesis unfolding q by linarith
  qed
  then show ?thesis unfolding covers_def keys_below_def by blast
qed

lemma adds_Un: "adds X kp m m' tt \<Longrightarrow> adds Y kp m' m'' tt \<Longrightarrow> adds (X \<union> Y) kp m m'' tt"
  unfolding adds_def by blast

lemma image_keys_below:
  assumes "image_ok lim m buf n" "4096 dvd lim"
  shows "image_keys m buf \<subseteq> keys_below lim"
proof -
  have "seg_cover m buf j \<subseteq> keys_below lim" if "j < segment_count m buf" for j
  proof -
    have "segment_ok lim n (segment_at m buf j)" using assms(1) that by (simp add: image_ok_def)
    then show ?thesis using covers_below [OF _ assms(2)] by (simp add: segment_ok_def Let_def)
  qed
  then show ?thesis unfolding image_keys_def by (intro UN_least) simp
qed

lemma map_segments_step:
  assumes "space_ok kp s tt b B" "buffer s buf n c" "c \<notin> blocks_of kp s tt b B" "same_bytes n (mem s) buf m buf" "24 \<le> n"
    "image_ok lim m buf n" "lim \<le> 2 ^ 25" "d = segment_count m buf - i" "i \<le> segment_count m buf"
  shows "\<exists>r s' B'. map_segments kp tt buf (buf + ph_off (llf_header m buf)) (w32 i) s = Some (Returns (r, s')) \<and>
    space_step kp tt b B s B' s' \<and> adds (\<Union>j \<in> {i..<segment_count m buf}. seg_cover m buf j) kp (mem s) (mem s') tt \<and>
    (if r then (\<Union>j \<in> {i..<segment_count m buf}. seg_cover m buf j) \<subseteq> dom (mapping kp (mem s') tt)
     else avail s' = {} \<and> \<not> (\<Union>j \<in> {i..<segment_count m buf}. seg_cover m buf j) \<subseteq> dom (mapping kp (mem s') tt) \<or> \<not> room_left s tt 0)"
  using assms
proof (induction d arbitrary: i s B)
  case 0
  have "segment_count (mem s) buf = segment_count m buf" using same_header [OF 0(4,5)] by simp
  moreover have "i = segment_count m buf" using 0 by simp
  ultimately show ?case
    using space_step_refl [OF 0(1)] by (subst map_segments.simps) (auto simp: word_less_nat_alt adds_def)
next
  case (Suc d)
  let ?n = "segment_count m buf" and ?phs = "buf + ph_off (llf_header m buf)"
  let ?ph = "segment_at m buf i"
  have i: "i < ?n" "d = ?n - Suc i" "Suc i \<le> ?n" using Suc.prems(8) by simp_all
  have "unat (w32 i) = i" using less_trans [OF i(1) unat_lt_32] by (rule unat_w32)
  moreover have hd: "llf_header (mem s) buf = llf_header m buf" by (rule same_header [OF Suc.prems(4,5)])
  ultimately have lt: "w32 i < ph_count (llf_header (mem s) buf)" using i(1) by (simp add: word_less_nat_alt)
  have "?phs + 28 * w32 i = buf + w32 (unat (ph_off (llf_header m buf)) + 28 * i)" by simp
  then have ph: "llf_phdr (mem s) (?phs + 28 * w32 i) = ?ph"
    using same_segment [OF Suc.prems(4,5,6) i(1)] by (simp only: segment_at_def hd)
  have S: "w32 i + 1 = w32 (Suc i)" by simp
  have un: "(\<Union>j \<in> {i..<?n}. seg_cover m buf j) = seg_cover m buf i \<union> (\<Union>j \<in> {Suc i..<?n}. seg_cover m buf j)"
    using i(1) by (simp only: atLeastLessThan_nat_numeral atLeastLessThan_upt upt_conv_Cons list.set UN_insert)
  show ?case
  proof (cases "ph_type ?ph = LLF_SEG_NULL")
    case True
    have "map_segments kp tt buf ?phs (w32 i) s = map_segments kp tt buf ?phs (w32 (Suc i)) s"
      unfolding S [symmetric] using lt ph True by (subst map_segments.simps) (simp only: Let_def if_True refl)
    moreover have "seg_cover m buf i = {}" using True by (simp add: Let_def)
    ultimately show ?thesis using Suc.IH [OF Suc.prems(1-7) i(2,3)] unfolding un by (simp only: Un_empty_left)
  next
    case False
    have fit: "unat (ph_vaddr ?ph) + unat (ph_memsz ?ph) \<le> lim" using Suc.prems(6) i(1) False by (simp add: image_ok_def segment_ok_def)
    then have "unat (ph_vaddr ?ph) + unat (ph_memsz ?ph) \<le> 2 ^ 25" using Suc.prems(7) by simp
    from map_pages_step [OF Suc.prems(1) this]
    obtain r s1 B1 where s1: "map_pages kp tt (ph_vaddr ?ph) (ph_memsz ?ph) s = Some (Returns (r, s1))" "space_step kp tt b B s B1 s1"
      "adds (covers (ph_vaddr ?ph) (ph_memsz ?ph)) kp (mem s) (mem s1) tt"
      "if r then covers (ph_vaddr ?ph) (ph_memsz ?ph) \<subseteq> dom (mapping kp (mem s1) tt)
       else avail s1 = {} \<and> \<not> covers (ph_vaddr ?ph) (ph_memsz ?ph) \<subseteq> dom (mapping kp (mem s1) tt) \<or> \<not> room_left s tt 0" by blast
    have cov: "seg_cover m buf i = covers (ph_vaddr ?ph) (ph_memsz ?ph)" using False by (simp add: Let_def)
    have unf: "map_segments kp tt buf ?phs (w32 i) s = (if \<not> r then Some (Returns (False, s1)) else map_segments kp tt buf ?phs (w32 (Suc i)) s1)"
      unfolding S [symmetric] using lt ph False s1(1) by (subst map_segments.simps) (simp only: Let_def if_True if_False bind_out.simps prod.case)
    let ?C = "\<Union>j \<in> {Suc i..<?n}. seg_cover m buf j"
    show ?thesis
    proof (cases r)
      case False
      then have "map_segments kp tt buf ?phs (w32 i) s = Some (Returns (False, s1))" using unf by simp
      moreover have "adds (seg_cover m buf i \<union> ?C) kp (mem s) (mem s1) tt" using s1(3) unfolding cov adds_def by blast
      moreover have "avail s1 = {} \<and> \<not> seg_cover m buf i \<union> ?C \<subseteq> dom (mapping kp (mem s1) tt) \<or> \<not> room_left s tt 0"
        using s1(4) False unfolding cov by auto
      ultimately show ?thesis
        using s1(2) unfolding un by (intro exI [of _ False] exI [of _ s1] exI [of _ B1]) (simp only: if_False simp_thms)
    next
      case True
      note bs = space_step_buffer [OF s1(2) Suc.prems(2,3)]
      have "space_ok kp s1 tt b B1" using s1(2) by (simp add: space_step_def)
      from Suc.IH [OF this bs(1,2) same_then [OF Suc.prems(4) bs(3)] Suc.prems(5-7) i(2,3)]
      obtain r' s2 B2 where s2: "map_segments kp tt buf ?phs (w32 (Suc i)) s1 = Some (Returns (r', s2))" "space_step kp tt b B1 s1 B2 s2"
        "adds ?C kp (mem s1) (mem s2) tt"
        "if r' then ?C \<subseteq> dom (mapping kp (mem s2) tt) else avail s2 = {} \<and> \<not> ?C \<subseteq> dom (mapping kp (mem s2) tt) \<or> \<not> room_left s1 tt 0" by blast
      have "mapping kp (mem s1) tt \<subseteq>\<^sub>m mapping kp (mem s2) tt" using s2(2) by (simp add: space_step_def)
      moreover have "seg_cover m buf i \<subseteq> dom (mapping kp (mem s1) tt)" using s1(4) True unfolding cov by simp
      ultimately have "seg_cover m buf i \<subseteq> dom (mapping kp (mem s2) tt)" using map_le_implies_dom_le by blast
      then have "if r' then seg_cover m buf i \<union> ?C \<subseteq> dom (mapping kp (mem s2) tt)
          else avail s2 = {} \<and> \<not> seg_cover m buf i \<union> ?C \<subseteq> dom (mapping kp (mem s2) tt) \<or> \<not> room_left s tt 0"
        using s2(4) space_step_room [OF s1(2), of 0] by (cases r') (simp_all only: if_True if_False, blast+)
      moreover have "adds (seg_cover m buf i \<union> ?C) kp (mem s) (mem s2) tt"
        unfolding cov by (rule adds_Un [OF s1(3) s2(3)])
      moreover have "map_segments kp tt buf ?phs (w32 i) s = Some (Returns (r', s2))" using unf True s2(1) by simp
      ultimately show ?thesis
        using space_step_trans [OF s1(2) s2(2)] unfolding un by (intro exI [of _ r'] exI [of _ s2] exI [of _ B2] conjI)
    qed
  qed
qed

section \<open>Loading\<close>

text \<open>What a routine that owns the space \<open>tt\<close> and writes its pages leaves to the others.\<close>

definition owner_step ::
  "u32 \<Rightarrow> u32 \<Rightarrow> block_id \<Rightarrow> (u32 \<Rightarrow> block_id) \<Rightarrow> mm_state \<Rightarrow> (u32 \<Rightarrow> block_id) \<Rightarrow> mm_state \<Rightarrow> bool" where
  "owner_step kp tt b B s B' s' \<longleftrightarrow> space_ok kp s' tt b B' \<and>
     mm_but (frames kp (avail s \<union> pages_of kp s tt)) (live s - blocks_of kp s tt b B) s s' \<and>
     live s' - blocks_of kp s' tt b B' = live s - blocks_of kp s tt b B \<and>
     avail s' \<union> pages_of kp s' tt = avail s \<union> pages_of kp s tt"

lemma space_owner_step: "space_step kp tt b B s B' s' \<Longrightarrow> owner_step kp tt b B s B' s'"
  using mm_keep_but unfolding space_step_def owner_step_def by blast

lemma owner_step_trans: "owner_step kp tt b B s B' s' \<Longrightarrow> owner_step kp tt b B' s' B'' s'' \<Longrightarrow> owner_step kp tt b B s B'' s''"
  using mm_but_trans unfolding owner_step_def by (metis (no_types, lifting))

lemma user_owner_step:
  assumes "user_ok P k tt b B" "user_write P tt k k' f"
  shows "owner_step (kpb P) tt b B (k_mm k) B (k_mm k')"
proof -
  note u = user_write_ok [OF assms]
  have w: "mm_but (frames (kpb P) (pages_of (kpb P) (k_mm k) tt)) (live (k_mm k)) (k_mm k) (k_mm k')"
    "live (k_mm k') = live (k_mm k)" "avail (k_mm k') = avail (k_mm k)" using assms(2) by (simp_all add: user_write_def)
  have "mm_but (frames (kpb P) (avail (k_mm k) \<union> pages_of (kpb P) (k_mm k) tt)) (live (k_mm k) - blocks_of (kpb P) (k_mm k) tt b B)
      (k_mm k) (k_mm k')"
    by (rule mm_but_mono [OF w(1)]) (auto intro: frames_mono [THEN subsetD])
  then show ?thesis using u w(2,3) by (simp add: owner_step_def user_ok_def)
qed

lemma cover_dom:
  assumes "covers va len \<subseteq> dom (mapping kp m tt)" "unat va + unat len \<le> 2 ^ 25" "in_region va (unat len) x"
  shows "x \<in> dom (user_mem kp m tt)"
proof -
  have x: "unat va \<le> unat x" "unat x < unat va + unat len" using assms(3) by (auto simp: in_region_def)
  have "unat va div 4096 \<le> unat x div 4096" "unat x div 4096 * 4096 < unat va + unat len"
    using x div_le_mono [of "unat va" "unat x" 4096] by auto
  then have "key x \<in> covers va len" unfolding covers_def by blast
  then obtain pa where "mapping kp m tt (key x) = Some pa" using assms(1) by blast
  then show ?thesis using x(2) assms(2) by (simp add: user_mem_def domIff)
qed

lemma image_le_from: "image_from m buf is Map.empty \<subseteq>\<^sub>m image_from m buf is f"
proof -
  have "fold (\<lambda>i. load_segment m buf (segment_at m buf i)) is g \<subseteq>\<^sub>m fold (\<lambda>i. load_segment m buf (segment_at m buf i)) is f" if "g \<subseteq>\<^sub>m f" for g f
    using that
  proof (induction "is" arbitrary: f g)
    case (Cons i "is")
    have "load_segment m buf ph g \<subseteq>\<^sub>m load_segment m buf ph f" for ph
      using Cons.prems by (auto simp: load_segment_def patch_def map_le_def)
    then show ?case using Cons.IH by simp
  qed simp
  then show ?thesis unfolding image_from_def by simp
qed

lemma llf_load_step:
  assumes ok: "space_ok (kpb P) (k_mm k) tt b B" and fr: "frames_ok (kpb P) (k_mm k) (avail (k_mm k) \<union> pages_of (kpb P) (k_mm k) tt)"
    and buf: "buffer (k_mm k) buf n c" "c \<notin> blocks_of (kpb P) (k_mm k) tt b B"
    and img: "24 \<le> n \<and> llf_magic (llf_header (kmem k) buf) = LLF_MAGIC \<longrightarrow> image_ok lim (kmem k) buf n" and lim: "lim \<le> 2 ^ 25"
  shows "\<exists>r s' B' t. llf_load P tt buf (w32 n) k = Some (Returns (r, k\<lparr>k_mm := s', ttbr0 := t\<rparr>)) \<and>
    owner_step (kpb P) tt b B (k_mm k) B' s' \<and> (\<forall>j. room_left (k_mm k) tt j \<longrightarrow> room_left s' tt j) \<and>
    (if 24 \<le> n \<and> llf_magic (llf_header (kmem k) buf) = LLF_MAGIC
     then adds (image_keys (kmem k) buf) (kpb P) (kmem k) (mem s') tt \<and>
       (case r of
          Some e \<Rightarrow> e = llf_entry (llf_header (kmem k) buf) \<and> image_map (kmem k) buf \<subseteq>\<^sub>m user_mem (kpb P) (mem s') tt \<and>
            image_keys (kmem k) buf \<subseteq> dom (mapping (kpb P) (mem s') tt)
        | None \<Rightarrow> avail s' = {} \<and> \<not> image_keys (kmem k) buf \<subseteq> dom (mapping (kpb P) (mem s') tt) \<or> \<not> room_left (k_mm k) tt 0)
     else r = None \<and> s' = k_mm k)"
proof -
  let ?kp = "kpb P" and ?m = "kmem k"
  have n: "unat (w32 n) = n" using buf(1) by (intro unat_w32) (simp add: buffer_def)
  have os0: "owner_step ?kp tt b B (k_mm k) B (k_mm k)" by (rule space_owner_step [OF space_step_refl [OF ok]])
  have same: "k = k\<lparr>k_mm := k_mm k, ttbr0 := ttbr0 k\<rparr>" by simp
  show ?thesis
  proof (cases "24 \<le> n \<and> llf_magic (llf_header ?m buf) = LLF_MAGIC")
    case False
    have "llf_load P tt buf (w32 n) k = Some (Returns (None, k))" using False n by (auto simp: llf_load_def word_less_nat_alt Let_def)
    then show ?thesis
      using os0 same False by (intro exI [of _ None] exI [of _ "k_mm k"] exI [of _ B] exI [of _ "ttbr0 k"]) (simp only: if_False simp_thms)
  next
    case True
    then have n24: "24 \<le> n" and iok: "image_ok lim ?m buf n" and mg: "llf_magic (llf_header ?m buf) = LLF_MAGIC" using img by auto
    let ?phs = "buf + ph_off (llf_header ?m buf)"
    have id: "same_bytes n ?m buf ?m buf" by (simp add: same_bytes_def)
    have z: "w32 0 = 0" by simp
    from map_segments_step [OF ok buf id n24 iok lim refl [of "segment_count ?m buf - 0"] le0]
    obtain r s1 B1 where s1: "map_segments ?kp tt buf ?phs 0 (k_mm k) = Some (Returns (r, s1))" "space_step ?kp tt b B (k_mm k) B1 s1"
      "adds (image_keys ?m buf) ?kp ?m (mem s1) tt"
      "if r then image_keys ?m buf \<subseteq> dom (mapping ?kp (mem s1) tt)
       else avail s1 = {} \<and> \<not> image_keys ?m buf \<subseteq> dom (mapping ?kp (mem s1) tt) \<or> \<not> room_left (k_mm k) tt 0"
      unfolding image_keys_def z by blast
    have os1: "owner_step ?kp tt b B (k_mm k) B1 s1" by (rule space_owner_step [OF s1(2)])
    have unf: "llf_load P tt buf (w32 n) k =
      (if \<not> r then Some (Returns (None, k\<lparr>k_mm := s1\<rparr>))
       else bind_out (fill_segments P buf ?phs 0 (mmu_set_proc_table P tt (k\<lparr>k_mm := s1\<rparr>))) (\<lambda>k.
         Some (Returns (Some (llf_entry (llf_header (kmem (mmu_set_proc_table P (kernel_table P) k)) buf)), mmu_set_proc_table P (kernel_table P) k))))"
      using n24 n mg s1(1) by (simp add: llf_load_def on_mm_def Let_def word_less_nat_alt)
    show ?thesis
    proof (cases r)
      case False
      then have "llf_load P tt buf (w32 n) k = Some (Returns (None, k\<lparr>k_mm := s1, ttbr0 := ttbr0 k\<rparr>))" using unf by simp
      then show ?thesis
        using os1 s1(3,4) False n24 mg space_step_room [OF s1(2)] by (intro exI [of _ None] exI [of _ s1] exI [of _ B1] exI [of _ "ttbr0 k"]) simp
    next
      case True
      let ?k1 = "mmu_set_proc_table P tt (k\<lparr>k_mm := s1\<rparr>)"
      have k1: "k_mm ?k1 = s1" "ttbr0 ?k1 = virt_to_phys ?kp tt" by (simp_all add: mmu_set_proc_table_def)
      have st: "space_ok ?kp s1 tt b B1" "mm_keep (live (k_mm k) - blocks_of ?kp (k_mm k) tt b B) (k_mm k) s1"
        "pages_of ?kp s1 tt \<subseteq> avail (k_mm k) \<union> pages_of ?kp (k_mm k) tt" using s1(2) by (auto simp: space_step_def)
      have "frames_ok ?kp s1 (pages_of ?kp s1 tt)"
        using frames_ok_areas [OF fr mm_keepD(3) [OF st(2)]] frames_mono [OF st(3)] by (auto simp: frames_ok_def)
      then have uok: "user_ok P ?k1 tt b B1" using st(1) k1 by (simp add: user_ok_def)
      note bs = space_step_buffer [OF s1(2) buf]
      have bf: "buffer (k_mm ?k1) buf n c" "same_bytes n (kmem ?k1) buf ?m buf" using bs k1(1) by simp_all
      have dom: "\<forall>i < segment_count ?m buf. let ph = segment_at ?m buf i in ph_type ph \<noteq> LLF_SEG_NULL \<longrightarrow>
         (\<forall>x. in_region (ph_vaddr ph) (unat (ph_memsz ph)) x \<longrightarrow> x \<in> dom (user_mem ?kp (kmem ?k1) tt))"
        unfolding Let_def
      proof (intro allI impI)
        fix i x assume i: "i < segment_count ?m buf" and t: "ph_type (segment_at ?m buf i) \<noteq> LLF_SEG_NULL"
          and x: "in_region (ph_vaddr (segment_at ?m buf i)) (unat (ph_memsz (segment_at ?m buf i))) x"
        have "seg_cover ?m buf i \<subseteq> dom (mapping ?kp (mem s1) tt)" using s1(4) True i by (simp add: image_keys_def UN_subset_iff)
        then have "covers (ph_vaddr (segment_at ?m buf i)) (ph_memsz (segment_at ?m buf i)) \<subseteq> dom (mapping ?kp (kmem ?k1) tt)"
          using t k1(1) by (simp add: Let_def)
        then show "x \<in> dom (user_mem ?kp (kmem ?k1) tt)"
          using iok i t lim(1) by (intro cover_dom [OF _ _ x]) (auto simp: image_ok_def segment_ok_def)
      qed
      from fill_segments_step [OF uok bf n24 iok lim(1) dom refl [of "segment_count ?m buf - 0"]]
      obtain k2 where k2: "fill_segments P buf ?phs 0 ?k1 = Some (Returns k2)"
        "user_write P tt ?k1 k2 (image_from ?m buf [0..<segment_count ?m buf] (user_mem ?kp (kmem ?k1) tt))" by auto
      have os2: "owner_step ?kp tt b B1 s1 B1 (k_mm k2)" using user_owner_step [OF uok k2(2)] k1(1) by simp
      obtain m2 where m2: "k2 = set_kmem m2 ?k1" using k2(2) by (auto simp: user_write_def)
      have c1: "c \<in> live (k_mm ?k1)" using bf(1) by (simp add: buffer_def)
      have "same_bytes n (kmem k2) buf ?m buf"
        using k2(2) unfolding user_write_def by (intro same_then [OF bf(2) buffer_same [OF bf(1) c1]]) blast
      then have hd: "llf_header (kmem k2) buf = llf_header ?m buf" by (rule same_header [OF _ n24])
      have "llf_load P tt buf (w32 n) k =
          Some (Returns (Some (llf_entry (llf_header ?m buf)), k\<lparr>k_mm := k_mm k2, ttbr0 := virt_to_phys ?kp (kernel_table P)\<rparr>))"
        using unf True k2(1) hd m2 by (simp add: mmu_set_proc_table_def set_kmem_def)
      moreover have "image_map ?m buf \<subseteq>\<^sub>m user_mem ?kp (mem (k_mm k2)) tt"
        using k2(2) image_le_from [of ?m buf "[0..<segment_count ?m buf]"] by (simp add: user_write_def image_map_def)
      moreover have mp: "mapping ?kp (mem (k_mm k2)) tt = mapping ?kp (mem s1) tt" using k2(2) k1(1) by (simp add: user_write_def)
      moreover have "room_left (k_mm k2) tt j" if "room_left (k_mm k) tt j" for j
        using user_write_room [OF uok k2(2)] space_step_room [OF s1(2) that] k1(1) by simp
      ultimately show ?thesis
        using owner_step_trans [OF os1 os2] n24 mg s1(3,4) True
        by (intro exI [of _ "Some (llf_entry (llf_header ?m buf))"] exI [of _ "k_mm k2"] exI [of _ B1] exI [of _ "virt_to_phys ?kp (kernel_table P)"])
          (simp add: adds_def)
    qed
  qed
qed

end
