(* ===== verification/Leg_Load.thy ===== *)
theory Leg_Load
  imports Leg_Image Leg_Fs_Props
begin

text \<open>
  Loading a program by name: the lookup in the file system, the read into a buffer of the heap, the loader, and the
  release of the buffer. The lookup data of the file system lie where the other allocations do not reach.
\<close>

section \<open>Stable memory\<close>

text \<open>Bytes of live blocks, or outside the heap and the bitmap: what other clients of the allocators leave alone.\<close>

definition stable :: "mm_state \<Rightarrow> u32 \<Rightarrow> nat \<Rightarrow> bool" where
  "stable s a n \<longleftrightarrow> (\<forall>i < n. let x = unat (a + w32 i) in x \<in> bytes_of (live s) \<or> \<not> in_heap s x \<and> \<not> in_bitmap s x)"

lemma stable_keep:
  assumes "stable s a n" "mm_keep (live s) s s'"
  shows "stable s' a n" "same_bytes n (mem s') a (mem s) a"
proof -
  note k = mm_keepD [OF assms(2)]
  have "bytes_of (live s) \<subseteq> bytes_of (live s')" using k(2) by (auto simp: bytes_of_def)
  then show "stable s' a n" using assms(1) k(4,5) unfolding stable_def Let_def by blast
  have "byte_at s' (unat (a + w32 i)) = byte_at s (unat (a + w32 i))" if "i < n" for i
    using assms that unat_lt_32 [of "a + w32 i"] unfolding stable_def mm_keep_def Let_def by blast
  then show "same_bytes n (mem s') a (mem s) a" by (simp add: same_bytes_def byte_at_def)
qed

text \<open>
  A mounted file system in whose image \<open>name\<close> is looked up: descriptors, names and the name itself in stable memory.
\<close>

definition fs_view :: "'d kernel \<Rightarrow> mem \<Rightarrow> u32 \<Rightarrow> u8 list \<Rightarrow> bool" where
  "fs_view k img name xs \<longleftrightarrow>
     (let c = g_blob_count (k_fs k)
      in mounted k img \<and> names_ok img c \<and> cstr_at (kmem k) name xs \<and> length xs < 2 ^ 32 \<and>
         stable (k_mm k) (g_blobs (k_fs k)) (16 * unat c) \<and> stable (k_mm k) (g_names (k_fs k)) (unat (names_extent img 8 c)) \<and>
         stable (k_mm k) name (Suc (length xs)))"

lemma cstr_at_same: "same_bytes (Suc (length xs)) m a m' a \<Longrightarrow> cstr_at m' a xs \<Longrightarrow> cstr_at m a xs"
  using cstr_at_cong [of xs m' a m] by (simp add: same_bytes_def less_Suc_eq_le)

lemma fs_view_keep:
  assumes "fs_view k img name xs" "mm_keep (live (k_mm k)) (k_mm k) (k_mm k')" "k_fs k' = k_fs k"
  shows "fs_view k' img name xs"
proof -
  let ?c = "g_blob_count (k_fs k)"
  have v: "mounted k img" "names_ok img ?c" "cstr_at (kmem k) name xs" "length xs < 2 ^ 32"
    "stable (k_mm k) (g_blobs (k_fs k)) (16 * unat ?c)" "stable (k_mm k) (g_names (k_fs k)) (unat (names_extent img 8 ?c))"
    "stable (k_mm k) name (Suc (length xs))" using assms(1) by (simp_all add: fs_view_def Let_def)
  note s = v(5-7) [THEN stable_keep(1), OF assms(2)] and b = v(5-7) [THEN stable_keep(2), OF assms(2)]
  have "mounted k' img"
    using v(1) b(1,2) same_bytes_trans unfolding mounted_def descs_in_def assms(3) Let_def by blast
  then show ?thesis using v(2,4) s cstr_at_same [OF b(3) v(3)] by (simp add: fs_view_def Let_def assms(3))
qed

section \<open>Reading a blob into a block\<close>

lemma image_of_sector:
  assumes "512 dvd unat off" "unat start + unat off div 512 < 2 ^ 32" "unat off + n \<le> 2 ^ 32"
  shows "same_bytes n (image_of dk (start + off div 512)) 0 (image_of dk start) off"
  unfolding same_bytes_def
proof (intro allI impI)
  fix i assume i: "i < n"
  then have i32: "i < 2 ^ 32" "unat off + i < 2 ^ 32" using assms(3) by linarith+
  have "unat (start + off div 512) = unat start + unat off div 512"
    using assms(2) unat_add_no_wrap [of start "off div 512"] by (simp add: unat_div)
  moreover have "unat (off + w32 i) = unat off + i"
    using i32 unat_add_no_wrap [of off "w32 i"] by (simp add: unat_w32)
  moreover have "512 * (unat start + unat off div 512) + i = 512 * unat start + (unat off + i)" using assms(1) by simp
  ultimately show "image_of dk (start + off div 512) (0 + w32 i) = image_of dk start (off + w32 i)"
    using i32(1) by (simp add: image_of_def unat_w32 add.assoc)
qed

text \<open>The space of a process next to a heap step that keeps every block.\<close>

lemma space_keep:
  assumes "space_ok kp s tt b B" "mm_keep L s s'" "blocks_of kp s tt b B \<subseteq> L" "avail s' = avail s"
  shows "space_ok kp s' tt b B" "mapping kp (mem s') tt = mapping kp (mem s) tt" "blocks_of kp s' tt b B = blocks_of kp s tt b B"
    "pages_of kp s' tt = pages_of kp s tt" "has_l2 (mem s') tt mb = has_l2 (mem s) tt mb"
proof -
  have tok: "tables_ok kp s tt b B" using assms(1) by (simp add: space_ok_def)
  note k = tables_keep [OF tok assms(2,3)]
  show "has_l2 (mem s') tt mb = has_l2 (mem s) tt mb" by (rule k(3))
  show "mapping kp (mem s') tt = mapping kp (mem s) tt" "blocks_of kp s' tt b B = blocks_of kp s tt b B" by (rule k(2,5))+
  then show "space_ok kp s' tt b B" "pages_of kp s' tt = pages_of kp s tt"
    using assms(1,4) k mm_keepD(6) [OF assms(2)] by (auto simp: space_ok_def pages_of_def)
qed

text \<open>The descriptor of the blob that a name finds, with what the loader relies on.\<close>

definition blob_sound :: "nat \<Rightarrow> mem \<Rightarrow> u32 \<Rightarrow> nat \<Rightarrow> bool" where
  "blob_sound lim img start i \<longleftrightarrow>
     (let b = image_blob img i
      in 24 \<le> unat (blob_size b) \<and> 512 dvd unat (blob_offset b) \<and> unat (blob_offset b) + unat (blob_size b) + 1024 \<le> 2 ^ 32 \<and>
         unat start + unat (blob_offset b) div 512 < 2 ^ 32 \<and>
         (llf_magic (llf_header img (blob_offset b)) = LLF_MAGIC \<longrightarrow> image_ok lim img (blob_offset b) (unat (blob_size b))))"

text \<open>The device serves the read of a blob.\<close>

definition blob_served :: "'d blk_serves \<Rightarrow> 'd \<Rightarrow> u32 \<Rightarrow> fs_blob_t \<Rightarrow> bool" where
  "blob_served serves d start b \<longleftrightarrow>
     serves d VIRTIO_BLK_T_IN (ucast (start + blob_offset b div 512)) (unat (align_up (blob_size b) 512))"

lemma read_blob_step:
  fixes disk
  assumes inv: "mm_ok (k_mm k)" "blk_inv (k_blk k)" "KERNEL_VA \<le> kh_base (g_kheap (k_mm k))" and dev: "blk_device_ok (kpb P) (symbols P) (device P) disk serves"
    and mnt: "mounted k img" "i < unat (g_blob_count (k_fs k))" "img = image_of (disk (k_dev k)) (g_start_sector (k_fs k))"
    and snd: "blob_sound lim img (g_start_sector (k_fs k)) i"
    and buf: "(unat p, m) \<in> live (k_mm k)" "unat (align_up (blob_size (image_blob img i)) 512) \<le> m"
  defines "ok \<equiv> blob_served serves (k_dev k) (g_start_sector (k_fs k)) (image_blob img i)"
  obtains s bl d where "fs_read P (g_blobs (k_fs k) + 16 * w32 i) p k = done_with ok (k\<lparr>k_mm := s, k_blk := bl, k_dev := d\<rparr>)"
    "blk_inv bl" "disk d = disk (k_dev k)" "mm_keep (live (k_mm k) - {(unat p, m)}) (k_mm k) s" "live s = live (k_mm k)"
    "avail s = avail (k_mm k)" "ok \<longrightarrow> same_bytes (unat (blob_size (image_blob img i))) (mem s) p img (blob_offset (image_blob img i))"
proof -
  let ?b = "image_blob img i"
  define count where "count = (blob_size ?b + 511) div 512"
  define sector where "sector = g_start_sector (k_fs k) + blob_offset ?b div 512"
  have sd: "24 \<le> unat (blob_size ?b)" "512 dvd unat (blob_offset ?b)" "unat (blob_offset ?b) + unat (blob_size ?b) + 1024 \<le> 2 ^ 32"
    "unat (g_start_sector (k_fs k)) + unat (blob_offset ?b) div 512 < 2 ^ 32" using snd by (simp_all add: blob_sound_def Let_def)
  have "descs_in (kmem k) (g_blobs (k_fs k)) img (g_blob_count (k_fs k))" using mnt(1,2) by (auto simp: mounted_def Let_def)
  then have b: "blob_at (kmem k) (g_blobs (k_fs k) + 16 * w32 i) = ?b" using descs_blob mnt(2) by blast
  have a: "unat (blob_size ?b + 511) = unat (blob_size ?b) + 511" using sd(3) unat_add_no_wrap [of "blob_size ?b" 511] by simp
  have cnt: "unat (count * 512) = unat (align_up (blob_size ?b) 512)"
  proof -
    have "unat count = (unat (blob_size ?b) + 511) div 512" using a by (simp add: count_def unat_div)
    moreover have "(unat (blob_size ?b) + 511) div 512 * 512 < 2 ^ 32" using sd(3) by linarith
    ultimately have n: "unat (count * 512) = (unat (blob_size ?b) + 511) div 512 * 512" by (simp add: unat_word_ariths)
    have "align_up (blob_size ?b) 512 = (blob_size ?b + 511) AND NOT (mask 9)" by (simp add: align_up_def mask_eq_exp_minus_1 add.commute)
    then show ?thesis using a by (simp add: n and_not_mask_unat minus_mod_eq_div_mult)
  qed
  have hok: "heap_ok (k_mm k)" using inv(1) by (simp add: mm_ok_def)
  note lb = live_bounds [OF hok buf(1)]
  have pk: "KERNEL_VA \<le> p" using inv(3) lb(1) by (simp add: word_le_nat_alt)
  have rdy: "fs_ready k" using hok inv(2,3) by (simp add: fs_ready_def)
  have okd: "serves (k_dev k) VIRTIO_BLK_T_IN (ucast sector) (unat (count * 512)) = ok"
    unfolding ok_def blob_served_def sector_def cnt by (rule refl)
  obtain bl d m' where r: "read_sectors P sector count p k = done_with ok (set_kmem m' (k\<lparr>k_blk := bl, k_dev := d\<rparr>))"
    "blk_inv bl" "disk d = disk (k_dev k)" "\<forall>a. \<not> in_region p (unat (count * 512)) a \<longrightarrow> m' a = kmem k a"
    "ok \<longrightarrow> m' = disk_to_mem (disk (k_dev k)) (512 * unat sector) p (unat (count * 512)) (kmem k)"
    by (rule read_sectors_k [OF rdy dev pk, where sector = sector and count = count, unfolded okd])
  let ?s = "(k_mm k)\<lparr>mem := m'\<rparr>"
  have le: "unat (count * 512) \<le> m" using cnt buf(2) by simp
  have kp: "keep (live (k_mm k) - {(unat p, m)}) (k_mm k) ?s" and lv: "live ?s = live (k_mm k)"
    by (intro keep_write [OF hok buf(1) le]; use r(4) in auto)+
  have szle: "unat (blob_size ?b) \<le> unat (count * 512)" using align_up_least(2) [of 9 "blob_size ?b"] sd(3) cnt by simp
  have same: "same_bytes (unat (blob_size ?b)) m' p img (blob_offset ?b)" if ok
  proof -
    have rd: "same_bytes (unat (count * 512)) m' p (image_of (disk (k_dev k)) sector) 0"
      unfolding r(5) [rule_format, OF that] using lb(3) le by (intro read_bytes) simp
    have "same_bytes (unat (blob_size ?b)) m' p (image_of (disk (k_dev k)) sector) 0"
      using same_bytes_shift [OF rd, of 0 "unat (blob_size ?b)"] szle by simp
    moreover have "same_bytes (unat (blob_size ?b)) (image_of (disk (k_dev k)) sector) 0 img (blob_offset ?b)"
      unfolding sector_def mnt(3) using sd(2-4) unfolding mnt(3) by (intro image_of_sector) simp_all
    ultimately show ?thesis by (rule same_bytes_trans)
  qed
  have "fs_read P (g_blobs (k_fs k) + 16 * w32 i) p k = done_with ok (k\<lparr>k_mm := ?s, k_blk := bl, k_dev := d\<rparr>)"
    using r(1) unfolding fs_read_def b read_sectors_def Let_def sector_def count_def by (simp add: set_kmem_def)
  then show ?thesis using that r(2,3) mm_keep_heap [OF inv(1) kp] lv same by simp
qed

section \<open>Loading by name\<close>

definition named_blob :: "mem \<Rightarrow> u32 \<Rightarrow> u8 list \<Rightarrow> nat option" where
  "named_blob img c xs = find (\<lambda>i. image_name img c i = xs) [0..<unat c]"

lemma named_blob_less: "named_blob img c xs = Some i \<Longrightarrow> i < unat c"
  unfolding named_blob_def by (drule iffD1 [OF find_Some_iff]) auto

text \<open>The executable that the name stands for, when there is one.\<close>

definition executable :: "mem \<Rightarrow> u32 \<Rightarrow> u8 list \<Rightarrow> nat option" where
  "executable img c xs = (case named_blob img c xs of
     Some i \<Rightarrow> if blob_flags (image_blob img i) = FS_TYPE_EXECUTABLE then Some i else None | None \<Rightarrow> None)"

text \<open>The first step: which descriptor, if any, the loader works on.\<close>

lemma find_executable:
  assumes "fs_view k img name xs" "g_blobs (k_fs k) \<noteq> 0"
    "unat (g_blobs (k_fs k)) + 16 * unat (g_blob_count (k_fs k)) \<le> 2 ^ 32"
  obtains blob where "fs_find name k = Some blob"
    "(blob = 0 \<or> blob_flags (blob_at (kmem k) blob) \<noteq> FS_TYPE_EXECUTABLE) \<longleftrightarrow> executable img (g_blob_count (k_fs k)) xs = None"
    "\<forall>i. executable img (g_blob_count (k_fs k)) xs = Some i \<longrightarrow>
       blob = g_blobs (k_fs k) + 16 * w32 i \<and> blob_at (kmem k) blob = image_blob img i \<and> i < unat (g_blob_count (k_fs k))"
proof -
  let ?c = "g_blob_count (k_fs k)"
  have v: "mounted k img" "names_ok img ?c" "cstr_at (kmem k) name xs" "length xs < 2 ^ 32" using assms(1) by (simp_all add: fs_view_def Let_def)
  have f: "fs_find name k = Some (case named_blob img ?c xs of Some i \<Rightarrow> g_blobs (k_fs k) + 16 * w32 i | None \<Rightarrow> 0)"
  proof -
    have "strlen (kmem k) name = Some (int (length xs))" using strlen_loop_cstr [OF v(3), of 0] by (simp add: strlen_def)
    moreover have "find (\<lambda>i. blob_named k name (w32 (length xs)) (g_blobs (k_fs k) + 16 * w32 i)) [0..<unat ?c] = named_blob img ?c xs"
      unfolding named_blob_def using blob_named_iff [OF v(1) refl v(2) _ v(3,4)] by (intro find_cong) auto
    ultimately show ?thesis by (simp add: fs_find_def)
  qed
  show ?thesis
  proof (cases "named_blob img ?c xs")
    case None
    then show ?thesis using that [of 0] f by (simp add: executable_def)
  next
    case (Some i)
    have i: "i < unat ?c" by (rule named_blob_less [OF Some])
    have "descs_in (kmem k) (g_blobs (k_fs k)) img ?c" using v(1) i by (auto simp: mounted_def Let_def)
    then have b: "blob_at (kmem k) (g_blobs (k_fs k) + 16 * w32 i) = image_blob img i" by (rule descs_blob [OF _ i])
    have "16 * i < 2 ^ 32" "unat (g_blobs (k_fs k)) + 16 * i < 2 ^ 32" using assms(3) i by linarith+
    then have "unat (g_blobs (k_fs k) + w32 (16 * i)) = unat (g_blobs (k_fs k)) + 16 * i"
      using unat_add_no_wrap [of "g_blobs (k_fs k)" "w32 (16 * i)"] by (simp add: unat_w32 del: of_nat_mult)
    then have "unat (g_blobs (k_fs k) + 16 * w32 i) \<noteq> 0" using assms(2) unat_eq_zero [of "g_blobs (k_fs k)"] by simp
    then have "g_blobs (k_fs k) + 16 * w32 i \<noteq> 0" by (metis unat_0)
    have e: "executable img ?c xs = (if blob_flags (image_blob img i) = FS_TYPE_EXECUTABLE then Some i else None)"
      using Some by (simp add: executable_def)
    show ?thesis
    proof (rule that [of "g_blobs (k_fs k) + 16 * w32 i"])
      show "fs_find name k = Some (g_blobs (k_fs k) + 16 * w32 i)" using f Some by simp
      show "(g_blobs (k_fs k) + 16 * w32 i = 0 \<or> blob_flags (blob_at (kmem k) (g_blobs (k_fs k) + 16 * w32 i)) \<noteq> FS_TYPE_EXECUTABLE) \<longleftrightarrow>
          executable img ?c xs = None"
        unfolding e b using \<open>g_blobs (k_fs k) + 16 * w32 i \<noteq> 0\<close> by simp
      show "\<forall>j. executable img ?c xs = Some j \<longrightarrow> g_blobs (k_fs k) + 16 * w32 i = g_blobs (k_fs k) + 16 * w32 j \<and>
          blob_at (kmem k) (g_blobs (k_fs k) + 16 * w32 i) = image_blob img j \<and> j < unat ?c"
        using i b unfolding e by simp
    qed
  qed
qed

text \<open>
  The result \<open>r\<close> of the loader, which leaves the memory \<open>s'\<close>: only a program with the magic of the format is loaded, its
  pages are added and show its bytes. Loading a program that the device serves, with room in the heap for the file and the
  tables, fails only when the pages run out before all of the program's pages are there.
\<close>

definition loaded ::
  "u32 \<Rightarrow> 'd blk_serves \<Rightarrow> 'd \<Rightarrow> u32 \<Rightarrow> mem \<Rightarrow> nat option \<Rightarrow> u32 \<Rightarrow> mm_state \<Rightarrow> mm_state \<Rightarrow> u32 option \<Rightarrow> bool" where
  "loaded kp serves d start img exe tt s s' r \<longleftrightarrow>
     (if \<exists>i. exe = Some i \<and> llf_magic (llf_header img (blob_offset (image_blob img i))) = LLF_MAGIC
      then let b = image_blob img (the exe); off = blob_offset b
        in adds (image_keys img off) kp (mem s) (mem s') tt \<and>
           (\<forall>e. r = Some e \<longrightarrow> e = llf_entry (llf_header img off) \<and> image_map img off \<subseteq>\<^sub>m user_mem kp (mem s') tt \<and>
              image_keys img off \<subseteq> dom (mapping kp (mem s') tt)) \<and>
           (blob_served serves d start b \<and> room_left s tt (unat (blob_size b) + 574) \<longrightarrow>
              room_left s' tt 0 \<and> (r = None \<longrightarrow> avail s' = {} \<and> \<not> image_keys img off \<subseteq> dom (mapping kp (mem s') tt)))
      else r = None)"

lemma load_user_image_step:
  fixes disk
  assumes ok: "space_ok (kpb P) (k_mm k) tt b B" "frames_ok (kpb P) (k_mm k) (avail (k_mm k) \<union> pages_of (kpb P) (k_mm k) tt)"
    "blk_inv (k_blk k)" and dev: "blk_device_ok (kpb P) (symbols P) (device P) disk serves"
    and fs: "fs_view k img name xs" "g_blobs (k_fs k) \<noteq> 0" "unat (g_blobs (k_fs k)) + 16 * unat (g_blob_count (k_fs k)) \<le> 2 ^ 32"
    "img = image_of (disk (k_dev k)) (g_start_sector (k_fs k))"
    and snd: "\<forall>i. executable img (g_blob_count (k_fs k)) xs = Some i \<longrightarrow> blob_sound lim img (g_start_sector (k_fs k)) i"
    and lim: "lim \<le> 2 ^ 25"
  shows "\<exists>r s' bl d t B'. load_user_image P tt name k = done_with r (k\<lparr>k_mm := s', k_blk := bl, k_dev := d, ttbr0 := t\<rparr>) \<and>
    blk_inv bl \<and> disk d = disk (k_dev k) \<and> owner_step (kpb P) tt b B (k_mm k) B' s' \<and>
    loaded (kpb P) serves (k_dev k) (g_start_sector (k_fs k)) img (executable img (g_blob_count (k_fs k)) xs) tt (k_mm k) s' r"
proof -
  let ?kp = "kpb P" and ?c = "g_blob_count (k_fs k)"
  have tok: "tables_ok ?kp (k_mm k) tt b B" using ok(1) by (simp add: space_ok_def)
  have mok: "mm_ok (k_mm k)" and base: "KERNEL_VA \<le> kh_base (g_kheap (k_mm k))" using tok by (simp_all add: tables_ok_def)
  have hok: "heap_ok (k_mm k)" using mok by (simp add: mm_ok_def)
  have os0: "owner_step ?kp tt b B (k_mm k) B (k_mm k)" by (rule space_owner_step [OF space_step_refl [OF ok(1)]])
  let ?L = "\<lambda>s' r. loaded ?kp serves (k_dev k) (g_start_sector (k_fs k)) img (executable img ?c xs) tt (k_mm k) s' r"
  have unchanged: ?thesis if "load_user_image P tt name k = done_with None k" "?L (k_mm k) None"
    using that ok(3) os0
    by (intro exI [of _ None] exI [of _ "k_mm k"] exI [of _ "k_blk k"] exI [of _ "k_dev k"] exI [of _ "ttbr0 k"] exI [of _ B]) simp
  obtain blob where blob: "fs_find name k = Some blob"
    "(blob = 0 \<or> blob_flags (blob_at (kmem k) blob) \<noteq> FS_TYPE_EXECUTABLE) \<longleftrightarrow> executable img ?c xs = None"
    "\<forall>i. executable img ?c xs = Some i \<longrightarrow>
       blob = g_blobs (k_fs k) + 16 * w32 i \<and> blob_at (kmem k) blob = image_blob img i \<and> i < unat ?c"
    by (rule find_executable [OF fs(1-3)])
  show ?thesis
  proof (cases "executable img ?c xs")
    case None
    then have "load_user_image P tt name k = done_with None k" using blob(1,2) by (simp add: load_user_image_def)
    then show ?thesis by (rule unchanged) (simp add: loaded_def None)
  next
    case (Some i)
    let ?b = "image_blob img i"
    let ?off = "blob_offset ?b" and ?served = "blob_served serves (k_dev k) (g_start_sector (k_fs k)) ?b"
    let ?room = "room_left (k_mm k) tt (unat (blob_size ?b) + 574)"
    have L: "?L s' r \<longleftrightarrow>
       (if llf_magic (llf_header img ?off) = LLF_MAGIC
        then adds (image_keys img ?off) ?kp (kmem k) (mem s') tt \<and>
           (\<forall>e. r = Some e \<longrightarrow> e = llf_entry (llf_header img ?off) \<and> image_map img ?off \<subseteq>\<^sub>m user_mem ?kp (mem s') tt \<and>
              image_keys img ?off \<subseteq> dom (mapping ?kp (mem s') tt)) \<and>
           (?served \<and> ?room \<longrightarrow> room_left s' tt 0 \<and>
              (r = None \<longrightarrow> avail s' = {} \<and> \<not> image_keys img ?off \<subseteq> dom (mapping ?kp (mem s') tt)))
        else r = None)" for s' r
      unfolding loaded_def Some Let_def by simp
    define sz where "sz = align_up (blob_size ?b) 512"
    have bl: "blob = g_blobs (k_fs k) + 16 * w32 i" "blob_at (kmem k) blob = ?b" "i < unat ?c" using blob(3) Some by blast+
    have sd: "blob_sound lim img (g_start_sector (k_fs k)) i" using snd Some by blast
    then have s24: "24 \<le> unat (blob_size ?b)" and fit: "unat (blob_size ?b) + 1024 \<le> 2 ^ 32" by (simp_all add: blob_sound_def Let_def)
    have up: "unat (blob_size ?b) \<le> unat sz" "unat sz + 8 \<le> 2 ^ 32" "unat sz \<le> unat (blob_size ?b) + 511"
      using align_up_least(2,3) [of 9 "blob_size ?b"] fit by (simp_all add: sz_def)
    have sz0: "sz \<noteq> 0" using up(1) s24 by auto
    define rest where "rest = (\<lambda>(p, k). if p = 0 then done_with None k
         else bind_out (fs_read P blob p k) (\<lambda>(ok, k).
           bind_out (if ok then llf_load P tt p sz k else done_with None k) (\<lambda>(entry, k).
             bind_out (on_mm_unit (kfree p) k) (done_with entry))))" for pk
    have unf: "load_user_image P tt name k = bind_out (on_mm (kmalloc sz) k) rest"
      using blob(1,2) Some bl(2) unfolding rest_def sz_def by (simp add: load_user_image_def Let_def)
    show ?thesis
      using hok sz0 up(2)
    proof (cases rule: keep_kmalloc)
      case full
      have "load_user_image P tt name k = done_with None k" using unf full(1) by (simp add: on_mm_def rest_def)
      moreover have "\<not> ?room"
      proof
        assume ?room
        then have "heap_gap (k_mm k) (unat (round8 sz) + 12)"
          unfolding room_left_def by (rule heap_gap_less) (use round8_le [OF up(2)] up(3) in simp)
        then show False using full(2) by simp
      qed
      ultimately show ?thesis by (intro unchanged) (simp_all add: L adds_def)
    next
      case (block p m s1)
      let ?k1 = "k\<lparr>k_mm := s1\<rparr>" and ?bk = "(unat p, m)"
      have k1: "mm_keep (live (k_mm k)) (k_mm k) s1" "avail s1 = avail (k_mm k)" using mm_keep_heap [OF mok block(6)] by simp_all
      note sp1 = space_keep [OF ok(1) k1(1) blocks_live [OF tok] k1(2)]
      have ok1: "mm_ok (k_mm ?k1)" "blk_inv (k_blk ?k1)" "KERNEL_VA \<le> kh_base (g_kheap (k_mm ?k1))"
        using mm_keepD(1,3) [OF k1(1)] base ok(3) by (simp_all add: same_areas_def)
      have v1: "mounted ?k1 img" using fs_view_keep [OF fs(1), of ?k1] k1(1) by (simp add: fs_view_def Let_def)
      have c1: "i < unat (g_blob_count (k_fs ?k1))" "img = image_of (disk (k_dev ?k1)) (g_start_sector (k_fs ?k1))"
        "blob_sound lim img (g_start_sector (k_fs ?k1)) i" "?bk \<in> live (k_mm ?k1)" "unat (align_up (blob_size ?b) 512) \<le> m"
        using bl(3) fs(4) sd block(3,5) by (simp_all add: sz_def)
      have sv: "blob_served serves (k_dev ?k1) (g_start_sector (k_fs ?k1)) ?b = ?served" by simp
      obtain s2 bd d where r2: "fs_read P (g_blobs (k_fs ?k1) + 16 * w32 i) p ?k1 = done_with ?served (?k1\<lparr>k_mm := s2, k_blk := bd, k_dev := d\<rparr>)"
        "blk_inv bd" "disk d = disk (k_dev ?k1)" "mm_keep (live (k_mm ?k1) - {?bk}) (k_mm ?k1) s2" "live s2 = live (k_mm ?k1)"
        "avail s2 = avail (k_mm ?k1)" "?served \<longrightarrow> same_bytes (unat (blob_size ?b)) (mem s2) p img (blob_offset ?b)"
        by (rule read_blob_step [OF ok1 dev v1 c1(1,2,3,4,5), unfolded sv])
      let ?k2 = "k\<lparr>k_mm := s2, k_blk := bd, k_dev := d\<rparr>"
      have rd: "fs_read P blob p ?k1 = done_with ?served ?k2" using r2(1) bl(1) by simp
      have L1: "live s1 - {?bk} = live (k_mm k)" using block(4,5) by simp
      have k12: "mm_keep (live (k_mm k)) s1 s2" using r2(4) L1 by simp
      have k2: "mm_keep (live (k_mm k)) (k_mm k) s2" by (rule mm_keep_trans [OF k1(1) k12])
      have av2: "avail s2 = avail (k_mm k)" using r2(6) k1(2) by simp
      note sp2 = space_keep [OF ok(1) k2 blocks_live [OF tok] av2]
      have live2: "live s2 = insert ?bk (live (k_mm k))" using r2(5) block(5) by simp
      have hok2: "heap_ok s2" using mm_keepD(1) [OF k2] by (simp add: mm_ok_def)
      have "?bk \<in> live s2" using live2 by simp
      note lb = live_bounds [OF hok2 this]
      have base2: "KERNEL_VA \<le> kh_base (g_kheap s2)" using mm_keepD(3) [OF k2] base by (simp add: same_areas_def)
      have buf: "buffer s2 p (unat sz) ?bk" "?bk \<notin> blocks_of ?kp s2 tt b B"
        using live2 lb(1,3) base2 block(3,4) sp2(3) blocks_live [OF tok] by (auto simp: buffer_def word_le_nat_alt bytes_of_def)
      have fr2: "frames_ok ?kp (k_mm ?k2) (avail (k_mm ?k2) \<union> pages_of ?kp (k_mm ?k2) tt)"
        using frames_ok_areas [OF ok(2) mm_keepD(3) [OF k2]] av2 sp2(4) by simp
      have sp: "space_ok ?kp (k_mm ?k2) tt b B" "buffer (k_mm ?k2) p (unat sz) ?bk" "?bk \<notin> blocks_of ?kp (k_mm ?k2) tt b B"
        using sp2(1) buf by simp_all
      have "spends 0 s1 s2" by (rule mm_keep_spends [OF k12]) (use r2(5) in simp)
      then have "spends (unat (round8 sz) + 56) (k_mm k) s2" using spends_trans [OF block(7), of 0] by simp
      then have pay: "spends (unat (blob_size ?b) + 574) (k_mm k) s2" by (rule spends_less) (use round8_le [OF up(2)] up(3) in simp)
      have room2: "room_left s2 tt 0" if ?room using that by (intro room_left_pays [OF pay sp2(5)]) simp
      have "\<exists>r s3 B3 t. (if ?served then llf_load P tt p sz ?k2 else done_with None ?k2) = Some (Returns (r, ?k2\<lparr>k_mm := s3, ttbr0 := t\<rparr>)) \<and>
          owner_step ?kp tt b B s2 B3 s3 \<and>
          (if llf_magic (llf_header img ?off) = LLF_MAGIC
           then adds (image_keys img ?off) ?kp (mem s2) (mem s3) tt \<and>
             (\<forall>e. r = Some e \<longrightarrow> e = llf_entry (llf_header img ?off) \<and> image_map img ?off \<subseteq>\<^sub>m user_mem ?kp (mem s3) tt \<and>
                image_keys img ?off \<subseteq> dom (mapping ?kp (mem s3) tt)) \<and>
             (?served \<and> room_left s2 tt 0 \<longrightarrow> room_left s3 tt 0 \<and>
                (r = None \<longrightarrow> avail s3 = {} \<and> \<not> image_keys img ?off \<subseteq> dom (mapping ?kp (mem s3) tt)))
           else r = None)"
      proof (cases ?served)
        case False
        have "owner_step ?kp tt b B s2 B s2" by (rule space_owner_step [OF space_step_refl]) (use sp(1) in simp)
        then show ?thesis using False
          by (intro exI [of _ None] exI [of _ s2] exI [of _ B] exI [of _ "ttbr0 ?k2"]) (simp add: adds_def)
      next
        case True
        note same = r2(7) [rule_format, OF True]
        note h = same_header [OF same s24]
        have "image_ok lim (mem s2) p (unat sz) \<and> image_map (mem s2) p = image_map img ?off \<and> image_keys (mem s2) p = image_keys img ?off"
          if "llf_magic (llf_header img ?off) = LLF_MAGIC"
        proof -
          have "image_ok lim img ?off (unat (blob_size ?b))" using that sd by (simp add: blob_sound_def Let_def)
          then show ?thesis using image_ok_mono [OF same_image(1) [OF same s24] up(1)] same_image(2,3) [OF same s24] by blast
        qed
        then have img2: "24 \<le> unat sz \<and> llf_magic (llf_header (kmem ?k2) p) = LLF_MAGIC \<longrightarrow> image_ok lim (kmem ?k2) p (unat sz)"
          and img3: "llf_magic (llf_header img ?off) = LLF_MAGIC \<Longrightarrow> image_map (mem s2) p = image_map img ?off"
            "llf_magic (llf_header img ?off) = LLF_MAGIC \<Longrightarrow> image_keys (mem s2) p = image_keys img ?off"
          using h by simp_all
        have sz24: "24 \<le> unat sz" using s24 up(1) by simp
        have k2mm: "k_mm ?k2 = s2" "w32 (unat sz) = sz" by simp_all
        from llf_load_step [OF sp(1) fr2 sp(2,3) img2 lim]
        obtain r s3 B3 t where r3: "llf_load P tt p sz ?k2 = Some (Returns (r, ?k2\<lparr>k_mm := s3, ttbr0 := t\<rparr>))" "owner_step ?kp tt b B s2 B3 s3"
          "\<forall>j. room_left s2 tt j \<longrightarrow> room_left s3 tt j"
          "if 24 \<le> unat sz \<and> llf_magic (llf_header (mem s2) p) = LLF_MAGIC
           then adds (image_keys (mem s2) p) ?kp (mem s2) (mem s3) tt \<and>
             (case r of
                Some e \<Rightarrow> e = llf_entry (llf_header (mem s2) p) \<and> image_map (mem s2) p \<subseteq>\<^sub>m user_mem ?kp (mem s3) tt \<and>
                  image_keys (mem s2) p \<subseteq> dom (mapping ?kp (mem s3) tt)
              | None \<Rightarrow> avail s3 = {} \<and> \<not> image_keys (mem s2) p \<subseteq> dom (mapping ?kp (mem s3) tt) \<or> \<not> room_left s2 tt 0)
           else r = None \<and> s3 = s2" unfolding k2mm by blast
        have "llf_magic (llf_header img ?off) \<noteq> LLF_MAGIC \<Longrightarrow> r = None" using r3(4) h by simp
        then show ?thesis
          using True r3 sz24 img3 h
          by (intro exI [of _ r] exI [of _ s3] exI [of _ B3] exI [of _ t]) (simp split: option.splits if_splits, blast?)
      qed
      then obtain r s3 B3 t where r3: "(if ?served then llf_load P tt p sz ?k2 else done_with None ?k2) = Some (Returns (r, ?k2\<lparr>k_mm := s3, ttbr0 := t\<rparr>))"
          "owner_step ?kp tt b B s2 B3 s3"
          "if llf_magic (llf_header img ?off) = LLF_MAGIC
           then adds (image_keys img ?off) ?kp (mem s2) (mem s3) tt \<and>
             (\<forall>e. r = Some e \<longrightarrow> e = llf_entry (llf_header img ?off) \<and> image_map img ?off \<subseteq>\<^sub>m user_mem ?kp (mem s3) tt \<and>
                image_keys img ?off \<subseteq> dom (mapping ?kp (mem s3) tt)) \<and>
             (?served \<and> room_left s2 tt 0 \<longrightarrow> room_left s3 tt 0 \<and>
                (r = None \<longrightarrow> avail s3 = {} \<and> \<not> image_keys img ?off \<subseteq> dom (mapping ?kp (mem s3) tt)))
           else r = None" by blast
      let ?U = "frames ?kp (avail (k_mm k) \<union> pages_of ?kp (k_mm k) tt)" and ?K = "live (k_mm k) - blocks_of ?kp (k_mm k) tt b B"
      have o3: "space_ok ?kp s3 tt b B3" "mm_but ?U (live s2 - blocks_of ?kp (k_mm k) tt b B) s2 s3"
        "live s3 - blocks_of ?kp s3 tt b B3 = live s2 - blocks_of ?kp (k_mm k) tt b B"
        "avail s3 \<union> pages_of ?kp s3 tt = avail (k_mm k) \<union> pages_of ?kp (k_mm k) tt"
        using r3(2) unfolding owner_step_def av2 sp2(3,4) by simp_all
      have bk3: "?bk \<in> live s3" "?bk \<notin> blocks_of ?kp s3 tt b B3" using o3(3) live2 block(4) blocks_live [OF tok] by blast+
      have mok3: "mm_ok s3" using o3(1) by (simp add: space_ok_def tables_ok_def)
      then have "heap_ok s3" by (simp add: mm_ok_def)
      then obtain s4 where s4: "kfree p s3 = Some (Returns s4)" "live s4 = live s3 - {?bk}" "keep (live s3 - {?bk}) s3 s4"
        by (rule keep_kfree [OF _ bk3(1)])
      have k4: "mm_keep (live s3 - {?bk}) s3 s4" "avail s4 = avail s3" using mm_keep_heap [OF mok3 s4(3)] by simp_all
      have tok3: "tables_ok ?kp s3 tt b B3" using o3(1) by (simp add: space_ok_def)
      have "blocks_of ?kp s3 tt b B3 \<subseteq> live s3 - {?bk}" using blocks_live [OF tok3] bk3(2) by blast
      note sp4 = space_keep [OF o3(1) k4(1) this k4(2)]
      have "owner_step ?kp tt b B (k_mm k) B3 s4"
        unfolding owner_step_def
      proof (intro conjI)
        show "space_ok ?kp s4 tt b B3" by (rule sp4(1))
        show "live s4 - blocks_of ?kp s4 tt b B3 = live (k_mm k) - blocks_of ?kp (k_mm k) tt b B"
          unfolding s4(2) sp4(3) using o3(3) live2 block(4) by blast
        show "avail s4 \<union> pages_of ?kp s4 tt = avail (k_mm k) \<union> pages_of ?kp (k_mm k) tt"
          unfolding k4(2) sp4(4) by (rule o3(4))
        have "?K \<subseteq> live s3 - {?bk}" using o3(3) live2 block(4) by blast
        then have c: "mm_but ?U ?K s3 s4" by (rule mm_but_mono [OF mm_keep_but [OF k4(1)] _ subset_refl])
        have "?K \<subseteq> live s2 - blocks_of ?kp (k_mm k) tt b B" using live2 by blast
        then have b': "mm_but ?U ?K s2 s3" by (rule mm_but_mono [OF o3(2) _ subset_refl])
        have a: "mm_but ?U ?K (k_mm k) s2" by (rule mm_but_mono [OF mm_keep_but [OF k2] Diff_subset subset_refl])
        show "mm_but ?U ?K (k_mm k) s4" by (rule mm_but_trans [OF a mm_but_trans [OF b' c]])
      qed
      moreover have "load_user_image P tt name k = done_with r (k\<lparr>k_mm := s4, k_blk := bd, k_dev := d, ttbr0 := t\<rparr>)"
        unfolding unf using block(1,2) rd r3(1) s4(1) by (simp add: on_mm_def on_mm_unit_def rest_def)
      moreover have "?L s4 r"
      proof -
        have "frames_ok ?kp s3 (pages_of ?kp s3 tt)"
          using frames_ok_areas [OF ok(2) same_areas_trans [OF mm_keepD(3) [OF k2] mm_butD(3) [OF o3(2)]]] o3(4) frames_ok_mono by blast
        then have um: "user_mem ?kp (mem s4) tt = user_mem ?kp (mem s3) tt"
          by (rule user_mem_keep [OF _ k4(1) sp4(2)])
        have "spends 0 s3 s4" by (rule mm_keep_spends [OF k4(1)]) (use s4(2) in auto)
        then have room4: "room_left s4 tt 0" if "room_left s3 tt 0" by (rule room_left_spends [OF _ sp4(5) that])
        show ?thesis
          unfolding L um sp4(2) k4(2) using r3(3) room2 room4 unfolding adds_def sp2(2) sp4(2) by (cases "llf_magic (llf_header img ?off) = LLF_MAGIC") simp_all
      qed
      ultimately show ?thesis using r2(2,3) by (intro exI [of _ r] exI [of _ s4] exI [of _ bd] exI [of _ d] exI [of _ t] exI [of _ B3]) simp
    qed
  qed
qed

end
