(* ===== verification/Leg_Space_Free.thy ===== *)
theory Leg_Space_Free
  imports Leg_Space
begin

text \<open>
  The release of an address space: every page goes back to the pool and every table to the heap. The loops read the
  tables while they free them, so the argument is about the space as it was at the start (\<open>s\<^sub>0\<close>) and the slots \<open>D\<close>
  that are already done.
\<close>

definition freed :: "u32 \<Rightarrow> mm_state \<Rightarrow> u32 \<Rightarrow> (u32 \<Rightarrow> block_id) \<Rightarrow> u32 set \<Rightarrow> mm_state \<Rightarrow> bool" where
  "freed kp s\<^sub>0 tt B D s \<longleftrightarrow> mm_keep (live s\<^sub>0 - B ` D) s\<^sub>0 s \<and> live s = live s\<^sub>0 - B ` D \<and>
     avail s = avail s\<^sub>0 \<union> {pa. \<exists>mb \<in> D. \<exists>i. mapping kp (mem s\<^sub>0) tt (mb, i) = Some pa}"

lemma free_pages_step:
  assumes ok: "space_ok kp s\<^sub>0 tt b B" and fr: "freed kp s\<^sub>0 tt B D s" and D: "D \<subseteq> {mb. has_l2 (mem s\<^sub>0) tt mb}"
    and mb: "has_l2 (mem s\<^sub>0) tt mb" "mb \<notin> D"
  defines "s' \<equiv> free_pages_of (l2_table kp (mem s\<^sub>0) tt mb) s"
  shows "mm_keep (live s) s s'" "live s' = live s" "avail s' = avail s \<union> {pa. \<exists>i. mapping kp (mem s\<^sub>0) tt (mb, i) = Some pa}"
proof -
  let ?t = "l2_table kp (mem s\<^sub>0) tt mb"
  define f where "f i s = (let e = entry (mem s) ?t (w32 i)
      in if l2_type e = L2_SMALL_PAGE then snd (mm_page_free (push_bit PAGE_SHIFT (sp_address (dec_small_page e))) s) else s)" for i s
  let ?P = "\<lambda>n. {pa. \<exists>i < n. mapping kp (mem s\<^sub>0) tt (mb, w32 i) = Some pa}"
  have tok: "tables_ok kp s\<^sub>0 tt b B" and mok: "mm_ok s\<^sub>0" using ok by (auto simp: space_ok_def tables_ok_def)
  have ht: "holds s\<^sub>0 ?t (4 * 256) (B mb)" using tok mb(1) unfolding tables_ok_def by blast
  have Bmb: "B mb \<in> live s\<^sub>0 - B ` D"
    using ht tok D mb unfolding tables_ok_def inj_on_def by (auto simp: holds_def)
  have ok_s: "mm_ok s" using fr by (simp add: freed_def mm_keep_def)
  have fs: "live s = live s\<^sub>0 - B ` D" "mm_keep (live s) s\<^sub>0 s" using fr by (auto simp: freed_def)
  have "mm_keep (live s) s (fold f [0..<n] s) \<and> live (fold f [0..<n] s) = live s \<and>
      avail (fold f [0..<n] s) = avail s \<union> ?P n" if "n \<le> 256" for n
    using that
  proof (induction n)
    case 0
    then show ?case using mm_keep_refl [OF ok_s] by simp
  next
    case (Suc n)
    define S where "S = fold f [0..<n] s"
    have IH: "mm_keep (live s) s S" "live S = live s" "avail S = avail s \<union> ?P n" using Suc by (auto simp: S_def)
    have keep: "mm_keep (live s) s\<^sub>0 S" by (rule mm_keep_trans [OF fs(2) IH(1)])
    have n: "unat (w32 n) = n" "unat (w32 n) < 256" using Suc.prems by (simp_all add: unat_w32)
    have e: "entry (mem S) ?t (w32 n) = entry (mem s\<^sub>0) ?t (w32 n)"
      by (rule entry_keep [OF mok keep ht tables_table(2) [OF tok mb(1)] n(2)]) (use Bmb fs(1) in simp)
    have step: "fold f [0..<Suc n] s = f n S" by (simp add: S_def)
    have P: "?P (Suc n) = ?P n \<union> {pa. mapping kp (mem s\<^sub>0) tt (mb, w32 n) = Some pa}" by (auto simp: less_Suc_eq)
    show ?case
    proof (cases "mapping kp (mem s\<^sub>0) tt (mb, w32 n)")
      case None
      then have "l2_type (entry (mem s\<^sub>0) ?t (w32 n)) \<noteq> L2_SMALL_PAGE"
        using mb(1) n(2) mapping_Some [of kp "mem s\<^sub>0" tt mb "w32 n"] by auto
      then have "f n S = S" by (simp add: f_def e Let_def)
      then show ?thesis unfolding step P using IH None by simp
    next
      case (Some pa)
      then have pa: "l2_type (entry (mem s\<^sub>0) ?t (w32 n)) = L2_SMALL_PAGE"
          "pa = push_bit 12 (sp_address (dec_small_page (entry (mem s\<^sub>0) ?t (w32 n))))"
        using mapping_Some [of kp "mem s\<^sub>0" tt mb "w32 n"] by auto
      have "pa \<in> managed s\<^sub>0 - avail s\<^sub>0" using ok Some by (auto simp: space_ok_def pages_of_def ran_def)
      moreover have "mapping kp (mem s\<^sub>0) tt (mb', i) \<noteq> Some pa" if "mb' \<in> D \<or> mb' = mb \<and> i \<noteq> w32 n" for mb' i
      proof
        assume "mapping kp (mem s\<^sub>0) tt (mb', i) = Some pa"
        then have "(mb', i) = (mb, w32 n)"
          using ok Some inj_onD [of "mapping kp (mem s\<^sub>0) tt" "dom (mapping kp (mem s\<^sub>0) tt)" "(mb', i)" "(mb, w32 n)"]
          by (auto simp: space_ok_def)
        then show False using that mb(2) by auto
      qed
      moreover have "w32 i \<noteq> w32 n" if "i < n" for i using that Suc.prems by (simp add: w32_eq_iff)
      ultimately have "pa \<in> managed S - avail S"
        using fr mm_keepD(6) [OF keep] unfolding IH(3) freed_def by auto
      with mm_keepD(1) [OF IH(1)] obtain s2 where s2: "mm_page_free pa S = (MM_OK, s2)" "avail s2 = insert pa (avail S)"
          "live s2 = live S" "mm_keep (live S) S s2" by (rule page_free_client)
      have "f n S = s2" using pa s2(1) by (simp add: f_def e Let_def)
      then show ?thesis
        unfolding step P using IH s2 Some mm_keep_trans [OF IH(1), of s2] by auto
    qed
  qed
  from this [of 256] have r: "mm_keep (live s) s s'" "live s' = live s" "avail s' = avail s \<union> ?P 256"
    unfolding s'_def free_pages_of_def f_def [abs_def, symmetric] by auto
  have "\<exists>j < 256. i = w32 j" if "unat i < 256" for i using that by (intro exI [of _ "unat i"]) simp
  then have "?P 256 = {pa. \<exists>i. mapping kp (mem s\<^sub>0) tt (mb, i) = Some pa}"
    by (auto simp: mapping_Some)
  then show "mm_keep (live s) s s'" "live s' = live s" "avail s' = avail s \<union> {pa. \<exists>i. mapping kp (mem s\<^sub>0) tt (mb, i) = Some pa}"
    using r by auto
qed

lemma free_table_step:
  assumes ok: "space_ok kp s\<^sub>0 tt b B" and fr: "freed kp s\<^sub>0 tt B D s" and D: "D \<subseteq> {mb. has_l2 (mem s\<^sub>0) tt mb}"
    and mb: "has_l2 (mem s\<^sub>0) tt mb" "mb \<notin> D"
  obtains s' where "mmu_free_l2_table (l2_table kp (mem s\<^sub>0) tt mb) (free_pages_of (l2_table kp (mem s\<^sub>0) tt mb) s) = Some (Returns s')"
    "freed kp s\<^sub>0 tt B (insert mb D) s'"
proof -
  let ?t = "l2_table kp (mem s\<^sub>0) tt mb"
  note p = free_pages_step [OF ok fr D mb]
  define s1 where "s1 = free_pages_of ?t s"
  have p1: "mm_keep (live s) s s1" "live s1 = live s" "avail s1 = avail s \<union> {pa. \<exists>i. mapping kp (mem s\<^sub>0) tt (mb, i) = Some pa}"
    using p by (simp_all add: s1_def)
  have tok: "tables_ok kp s\<^sub>0 tt b B" and mok: "mm_ok s\<^sub>0" using ok by (auto simp: space_ok_def tables_ok_def)
  have ht: "holds s\<^sub>0 ?t (4 * 256) (B mb)" using tok mb(1) unfolding tables_ok_def by blast
  have fs: "live s = live s\<^sub>0 - B ` D" "mm_keep (live s) s\<^sub>0 s" using fr by (auto simp: freed_def)
  have Bmb: "B mb \<in> live s" using ht tok D mb unfolding fs(1) tables_ok_def inj_on_def by (auto simp: holds_def)
  have keep: "mm_keep (live s) s\<^sub>0 s1" by (rule mm_keep_trans [OF fs(2) p1(1)])
  have h1: "holds s1 ?t (4 * 256) (B mb)" by (rule holds_keep [OF mok ht keep Bmb])
  have ok1: "mm_ok s1" by (rule mm_keepD(1) [OF p1(1)])
  then have "heap_ok s1" by (simp add: mm_ok_def)
  then obtain s2 where s2: "kfree ?t s1 = Some (Returns s2)" "live s2 = live s1 - {B mb}" "keep (live s1 - {B mb}) s1 s2"
    using free_holds [OF _ h1] by auto
  note k2 = mm_keep_heap [OF ok1 s2(3)]
  have "mm_keep (live s - {B mb}) s\<^sub>0 s2"
    by (rule mm_keep_chain [OF keep k2(1)]) (use p1(2) in auto)
  moreover have "live s - {B mb} = live s\<^sub>0 - B ` insert mb D" unfolding fs(1) by auto
  moreover have "avail s2 = avail s\<^sub>0 \<union> {pa. \<exists>a \<in> insert mb D. \<exists>i. mapping kp (mem s\<^sub>0) tt (a, i) = Some pa}"
    using k2(2) p1(3) fr by (auto simp: freed_def)
  ultimately have "freed kp s\<^sub>0 tt B (insert mb D) s2" using s2(2) p1(2) by (simp add: freed_def)
  then show ?thesis using that s2(1) by (simp add: mmu_free_l2_table_def s1_def)
qed

lemma free_tables_step:
  assumes ok: "space_ok kp s\<^sub>0 tt b B"
  shows "freed kp s\<^sub>0 tt B D s \<Longrightarrow> D \<subseteq> {mb. has_l2 (mem s\<^sub>0) tt mb} \<Longrightarrow> D \<inter> w32 ` set mbs = {} \<Longrightarrow> distinct mbs \<Longrightarrow>
    \<forall>mb \<in> set mbs. mb < 32 \<Longrightarrow>
    \<exists>s'. free_tables kp tt mbs s = Some (Returns s') \<and>
      freed kp s\<^sub>0 tt B (D \<union> {mb \<in> w32 ` set mbs. has_l2 (mem s\<^sub>0) tt mb}) s'"
proof (induction mbs arbitrary: D s)
  case (Cons m mbs)
  have tok: "tables_ok kp s\<^sub>0 tt b B" and mok: "mm_ok s\<^sub>0" using ok by (auto simp: space_ok_def tables_ok_def)
  have m: "unat (w32 m) < 32" using Cons.prems(5) by (simp add: unat_w32)
  have b: "holds s\<^sub>0 tt (4 * 32) b" "b \<in> live s\<^sub>0 - B ` D"
    using tok Cons.prems(2) unfolding tables_ok_def by (auto simp: holds_def)
  have e: "entry (mem s) tt (w32 m) = entry (mem s\<^sub>0) tt (w32 m)"
    using Cons.prems(1) by (intro entry_keep [OF mok _ b(1) tables_table(1) [OF tok] m b(2)]) (simp add: freed_def)
  have rest: "D \<inter> w32 ` set mbs = {}" "distinct mbs" "\<forall>mb \<in> set mbs. mb < 32" using Cons.prems by auto
  have new: "w32 m \<notin> w32 ` set mbs" using Cons.prems(4,5) by (auto simp: w32_eq_iff)
  show ?case
  proof (cases "has_l2 (mem s\<^sub>0) tt (w32 m)")
    case False
    then have "free_tables kp tt (m # mbs) s = free_tables kp tt mbs s" using m e by (simp add: has_l2_def)
    moreover have "{mb \<in> w32 ` set (m # mbs). has_l2 (mem s\<^sub>0) tt mb} = {mb \<in> w32 ` set mbs. has_l2 (mem s\<^sub>0) tt mb}"
      using False by auto
    ultimately show ?thesis using Cons.IH [OF Cons.prems(1,2) rest] by simp
  next
    case True
    have "w32 m \<notin> D" using Cons.prems(3) by auto
    obtain s1 where s1: "mmu_free_l2_table (l2_table kp (mem s\<^sub>0) tt (w32 m)) (free_pages_of (l2_table kp (mem s\<^sub>0) tt (w32 m)) s) = Some (Returns s1)"
      "freed kp s\<^sub>0 tt B (insert (w32 m) D) s1"
      by (rule free_table_step [OF ok Cons.prems(1,2) True \<open>w32 m \<notin> D\<close>])
    have "free_tables kp tt (m # mbs) s = free_tables kp tt mbs s1"
      using True s1(1) e by (simp add: has_l2_def l2_table_def)
    moreover have "insert (w32 m) D \<union> {mb \<in> w32 ` set mbs. has_l2 (mem s\<^sub>0) tt mb} =
        D \<union> {mb \<in> w32 ` set (m # mbs). has_l2 (mem s\<^sub>0) tt mb}" using True by auto
    ultimately show ?thesis
      using Cons.IH [OF s1(2)] Cons.prems(2) True rest new by auto
  qed
qed simp

lemma free_space_step:
  assumes ok: "space_ok kp s tt b B"
  shows "\<exists>s'. free_space kp tt s = Some (Returns s') \<and> live s' = live s - blocks_of kp s tt b B \<and>
    avail s' = avail s \<union> pages_of kp s tt \<and> mm_keep (live s - blocks_of kp s tt b B) s s'"
proof -
  have tok: "tables_ok kp s tt b B" and mok: "mm_ok s" using ok by (auto simp: space_ok_def tables_ok_def)
  let ?H = "{mb. has_l2 (mem s) tt mb}"
  have "freed kp s tt B {} s" using mm_keep_refl [OF mok order_refl] by (simp add: freed_def)
  then have "\<exists>s'. free_tables kp tt [0..<32] s = Some (Returns s') \<and>
      freed kp s tt B ({} \<union> {mb \<in> w32 ` set [0..<32]. has_l2 (mem s) tt mb}) s'"
    by (rule free_tables_step [OF ok]) simp_all
  moreover have "mb \<in> w32 ` {0..<32}" if "has_l2 (mem s) tt mb" for mb
    using has_l2_less [OF that] by (intro image_eqI [of _ _ "unat mb"]) simp_all
  then have "{mb \<in> w32 ` set [0..<32]. has_l2 (mem s) tt mb} = ?H" by auto
  ultimately obtain s1 where s1: "free_tables kp tt [0..<32] s = Some (Returns s1)" "freed kp s tt B ?H s1" by auto
  have b: "holds s tt (4 * 32) b" "b \<in> live s - B ` ?H" using tok unfolding tables_ok_def by (auto simp: holds_def)
  have f: "mm_keep (live s - B ` ?H) s s1" "live s1 = live s - B ` ?H" using s1(2) by (auto simp: freed_def)
  have h1: "holds s1 tt (4 * 32) b" by (rule holds_keep [OF mok b(1) f(1) b(2)])
  have ok1: "mm_ok s1" by (rule mm_keepD(1) [OF f(1)])
  then have "heap_ok s1" by (simp add: mm_ok_def)
  then obtain s2 where s2: "kfree tt s1 = Some (Returns s2)" "live s2 = live s1 - {b}" "keep (live s1 - {b}) s1 s2"
    using free_holds [OF _ h1] by auto
  note k2 = mm_keep_heap [OF ok1 s2(3)]
  have blocks: "live s - blocks_of kp s tt b B = live s1 - {b}" unfolding f(2) blocks_of_def by blast
  have "mm_keep (live s1 - {b}) s s2"
    by (rule mm_keep_chain [OF f(1) k2(1)]) (use f(2) in auto)
  moreover have "avail s2 = avail s \<union> pages_of kp s tt"
    using k2(2) s1(2) by (auto simp: freed_def pages_of_def ran_def mapping_Some) 
  moreover have "free_space kp tt s = Some (Returns s2)"
    using s1(1) s2(1) by (simp add: free_space_def mmu_free_proc_table_def)
  ultimately show ?thesis using s2(2) blocks by auto
qed

end
