(* ===== verification/Leg_Space_Stack.thy ===== *)
theory Leg_Space_Stack
  imports Leg_Space_Free
begin

text \<open>
  The stack of a process: \<open>process_add_page\<close> maps the page below the pages that the stack has, in the table that
  \<open>stack_pt\<close> remembers or, across a megabyte boundary, in a new one. Page 0 lies just below the guard page.
\<close>

definition stack_page :: "nat \<Rightarrow> u32" where
  "stack_page i = PROC_STACK_TOP - (w32 i + 1) * PAGE_SIZE"

abbreviation stack_key :: "nat \<Rightarrow> u32 \<times> u32" where
  "stack_key i \<equiv> key (stack_page i)"

lemma unat_stack_page:
  assumes "i < 8190"
  shows "unat (stack_page i) = 0x01FFF000 - 4096 * Suc i" "unat (stack_page i) < 2 ^ 25"
proof -
  have e: "(w32 i + 1) * PAGE_SIZE = w32 (4096 * Suc i)" by (simp add: algebra_simps)
  have u: "unat (w32 (4096 * Suc i)) = 4096 * Suc i" using assms by (intro unat_w32) simp
  have "unat (0x01FFF000 - w32 (4096 * Suc i) :: u32) = 0x01FFF000 - 4096 * Suc i"
    using assms u by (subst unat_sub) (simp_all add: word_le_nat_alt del: of_nat_mult of_nat_Suc)
  then show "unat (stack_page i) = 0x01FFF000 - 4096 * Suc i" "unat (stack_page i) < 2 ^ 25"
    unfolding stack_page_def e by simp_all
qed

lemma stack_key_inj: "i < 8190 \<Longrightarrow> j < 8190 \<Longrightarrow> stack_key i = stack_key j \<Longrightarrow> i = j"
proof -
  assume i: "i < 8190" and j: "j < 8190" and "stack_key i = stack_key j"
  then have "drop_bit 12 (stack_page i) = drop_bit 12 (stack_page j)" using same_page by simp
  then have "unat (stack_page i) div 4096 = unat (stack_page j) div 4096"
    by (simp add: word_unat_eq_iff unat_drop_bit_div)
  moreover have "0x01FFF000 - 4096 * Suc k = 4096 * (8190 - k)" if "k < 8190" for k :: nat using that by simp
  ultimately show "i = j" using i j by (simp add: unat_stack_page del: mult_Suc_right)
qed

text \<open>
  The stack has \<open>n\<close> pages: they are mapped, \<open>stack_pt\<close> is the table of the last one (with none, of the first one),
  and the next page is free, in that table or in a slot that has no table yet.
\<close>

definition next_ok :: "u32 \<Rightarrow> mem \<Rightarrow> process_t \<Rightarrow> nat \<Rightarrow> bool" where
  "next_ok kp m p n \<longleftrightarrow> n < 8190 \<and> stack_pages p = w32 n \<and> stack_key n \<notin> dom (mapping kp m (pgd p)) \<and>
     (if 0 < n \<and> fst (stack_key n) \<noteq> fst (stack_key (n - 1)) then \<not> has_l2 m (pgd p) (fst (stack_key n))
      else has_l2 m (pgd p) (fst (stack_key n)) \<and> stack_pt p = l2_table kp m (pgd p) (fst (stack_key n)))"

definition page_added :: "u32 \<Rightarrow> process_t \<Rightarrow> nat \<Rightarrow> mm_state \<Rightarrow> bool \<Rightarrow> process_t \<Rightarrow> mm_state \<Rightarrow> bool" where
  "page_added kp p n s r p' s' \<longleftrightarrow> (\<exists>N t. p' = p\<lparr>stack_pages := N, stack_pt := t\<rparr>) \<and>
    (if r then p' = p\<lparr>stack_pages := w32 (Suc n), stack_pt := l2_table kp (mem s') (pgd p) (fst (stack_key n))\<rparr> \<and>
       has_l2 (mem s') (pgd p) (fst (stack_key n)) \<and>
       (\<exists>pa \<in> avail s. mapping kp (mem s') (pgd p) = (mapping kp (mem s) (pgd p))(stack_key n \<mapsto> pa))
     else mapping kp (mem s') (pgd p) = mapping kp (mem s) (pgd p) \<and> (avail s' = {} \<or> \<not> room_left s (pgd p) 0))"

lemma same_struct: "\<exists>N t. p\<lparr>stack_pt := u\<rparr> = p\<lparr>stack_pages := N, stack_pt := t\<rparr>"
  by (intro exI [of _ "stack_pages p"] exI [of _ u]) simp

lemma add_page_step:
  assumes ok: "space_ok kp s (pgd p) b B" and n: "next_ok kp (mem s) p n"
  shows "\<exists>r p' s' B'. process_add_page kp (p, s) = Some (Returns (r, p', s')) \<and> space_step kp (pgd p) b B s B' s' \<and>
    page_added kp p n s r p' s'"
proof -
  let ?tt = "pgd p" and ?va = "stack_page n"
  let ?mb = "drop_bit 20 ?va"
  have n': "n < 8190" "stack_pages p = w32 n" "mapping kp (mem s) ?tt (key ?va) = None" using n by (auto simp: next_ok_def domIff)
  have mb: "unat ?mb < 32" using user_mb [OF unat_stack_page(2) [OF n'(1)]] .
  have va: "PROC_STACK_TOP - (stack_pages p + 1) * PAGE_SIZE = ?va" by (simp add: stack_page_def n'(2))
  have prev: "PROC_STACK_TOP - stack_pages p * PAGE_SIZE = stack_page (n - 1)" if "0 < n"
    using that by (simp add: stack_page_def n'(2) of_nat_diff)
  have pos: "stack_pages p > 0 \<longleftrightarrow> 0 < n" using n'(1,2) by (simp add: word_less_nat_alt unat_w32)
  define cross where "cross \<longleftrightarrow> 0 < n \<and> fst (stack_key n) \<noteq> fst (stack_key (n - 1))"
  have crs: "(stack_pages p > 0 \<and> ?mb \<noteq> drop_bit 20 (PROC_STACK_TOP - stack_pages p * PAGE_SIZE)) \<longleftrightarrow> cross"
    using prev pos by (auto simp: cross_def)
  define map where "map p1 s1 = (let (pa, s) = mm_page_alloc s1
      in if pa = 0 then Some (Returns (False, p1, s))
         else Some (Returns (True, p1\<lparr>stack_pages := stack_pages p1 + 1\<rparr>, s\<lparr>mem := mmu_map_page (stack_pt p1) ?va pa (mem s)\<rparr>)))"
    for p1 :: process_t and s1
  have body: "process_add_page kp (p, s) = bind_out
      (if cross then bind_out (mmu_alloc_l2_table s) (\<lambda>(pt, s).
         if pt = 0 then Some (Returns (False, p, s))
         else Some (Returns (True, p\<lparr>stack_pt := pt\<rparr>, s\<lparr>mem := mmu_attach_l2 kp ?tt ?mb pt (mem s)\<rparr>)))
       else Some (Returns (True, p, s)))
      (\<lambda>(ok, p1, s1). if \<not> ok then Some (Returns (False, p1, s1)) else map p1 s1)"
    by (simp only: process_add_page_def Let_def prod.case va crs map_def)
  have unf1: "process_add_page kp (p, s) = map p s" if "\<not> cross" using that by (simp add: body)
  have unf2: "process_add_page kp (p, s) = bind_out (get_or_alloc_l2 kp ?tt ?mb s)
      (\<lambda>(pt, s). if pt = 0 then Some (Returns (False, p, s)) else map (p\<lparr>stack_pt := pt\<rparr>) s)"
    if "cross" "\<not> has_l2 (mem s) ?tt ?mb"
  proof -
    have "l1_type (entry (mem s) ?tt ?mb) \<noteq> L1_PAGE_TABLE" using that(2) mb by (simp add: has_l2_def)
    then show ?thesis
      using that(1) unfolding body
      by (cases "(mmu_alloc_l2_table s, \<lambda>x :: u32 \<times> mm_state. None :: (u32 \<times> mm_state) outcome option)" rule: bind_out.cases)
        (auto simp: get_or_alloc_l2_def)
  qed
  have step: "\<exists>r p' s' B'. map p1 s1 = Some (Returns (r, p', s')) \<and> space_step kp ?tt b B1 s1 B' s' \<and> page_added kp p n s1 r p' s'"
    if s1: "space_ok kp s1 ?tt b B1" "has_l2 (mem s1) ?tt ?mb" "p1 = p\<lparr>stack_pt := l2_table kp (mem s1) ?tt ?mb\<rparr>"
      "mapping kp (mem s1) ?tt (key ?va) = None" for p1 s1 B1
    using s1(1,2,4)
  proof (cases rule: page_step)
    case oom
    then have "map p1 s1 = Some (Returns (False, p1, s1))" by (simp add: map_def)
    moreover have "page_added kp p n s1 False p1 s1" unfolding s1(3) page_added_def using same_struct oom(2) by simp
    ultimately show ?thesis using space_step_refl [OF s1(1)] by blast
  next
    case (page pa s2 s3)
    let ?p = "p\<lparr>stack_pages := w32 (Suc n), stack_pt := l2_table kp (mem s3) ?tt ?mb\<rparr>"
    have "stack_pages p1 + 1 = w32 (Suc n)" using s1(3) n'(2) by simp
    then have "map p1 s1 = Some (Returns (True, ?p, s3))" using page(1,2,4,9) s1(3) by (simp add: map_def)
    moreover have "page_added kp p n s1 True ?p s3" using page(3,6,8) unfolding page_added_def by auto
    ultimately show ?thesis using page(5) by blast
  qed
  show ?thesis
  proof (cases cross)
    case True
    have new: "\<not> has_l2 (mem s) ?tt ?mb" using n True by (simp add: next_ok_def cross_def)
    show ?thesis
      using ok mb
    proof (cases rule: get_l2_step)
      case oom
      then have "process_add_page kp (p, s) = Some (Returns (False, p, s))" using unf2 [OF True new] by simp
      moreover have "page_added kp p n s False p s"
        using same_struct [where p = p and u = "stack_pt p"] oom(3) by (simp add: page_added_def)
      ultimately show ?thesis using space_step_refl [OF ok] by blast
    next
      case (table pt s1 B1)
      have ok1: "space_ok kp s1 ?tt b B1" using table(5) by (simp add: space_step_def)
      have "p\<lparr>stack_pt := pt\<rparr> = p\<lparr>stack_pt := l2_table kp (mem s1) ?tt ?mb\<rparr>" "mapping kp (mem s1) ?tt (key ?va) = None"
        using table(4,6) n'(3) by simp_all
      from step [OF ok1 table(3) this]
      obtain r p' s' B' where r: "map (p\<lparr>stack_pt := pt\<rparr>) s1 = Some (Returns (r, p', s'))" "space_step kp ?tt b B1 s1 B' s'"
        "page_added kp p n s1 r p' s'" by blast
      moreover have "process_add_page kp (p, s) = Some (Returns (r, p', s'))" using unf2 [OF True new] table(1,2) r(1) by simp
      moreover have "page_added kp p n s r p' s'"
        using r(3) space_step_room [OF table(5), of 0] unfolding page_added_def table(6,7) by (auto split: if_splits)
      ultimately show ?thesis using space_step_trans [OF table(5) r(2)] by blast
    qed
  next
    case False
    have h: "has_l2 (mem s) ?tt ?mb" "stack_pt p = l2_table kp (mem s) ?tt ?mb" using n False by (auto simp: next_ok_def cross_def)
    then have "p = p\<lparr>stack_pt := l2_table kp (mem s) ?tt ?mb\<rparr>" by simp
    from step [OF ok h(1) this n'(3)] show ?thesis unfolding unf1 [OF False] .
  qed
qed

section \<open>The initial stack\<close>

lemma initial_stack_mb: "i < 4 \<Longrightarrow> fst (stack_key i) = 31"
proof -
  assume "i < 4"
  then have "unat (drop_bit 20 (stack_page i)) = 31" by (simp add: unat_drop_bit_div unat_stack_page(1)) 
  then show ?thesis by (simp add: word_unat_eq_iff)
qed

lemma add_pages_step:
  assumes "space_ok kp s (pgd p) b B" "n + k \<le> 4" "stack_pages p = w32 n" "has_l2 (mem s) (pgd p) 31"
    "stack_pt p = l2_table kp (mem s) (pgd p) 31" "\<forall>i < n. stack_key i \<in> dom (mapping kp (mem s) (pgd p))"
    "\<forall>i. n \<le> i \<and> i < 4 \<longrightarrow> stack_key i \<notin> dom (mapping kp (mem s) (pgd p))"
  shows "\<exists>r p' s' B'. add_pages kp k (p, s) = Some (Returns (r, p', s')) \<and> space_step kp (pgd p) b B s B' s' \<and>
    (\<exists>N t. p' = p\<lparr>stack_pages := N, stack_pt := t\<rparr>) \<and> adds (stack_key ` {..<4}) kp (mem s) (mem s') (pgd p) \<and>
    (if r then stack_pages p' = w32 (n + k) \<and> stack_pt p' = l2_table kp (mem s') (pgd p) 31 \<and>
       (\<forall>i < n + k. stack_key i \<in> dom (mapping kp (mem s') (pgd p)))
     else avail s' = {} \<and> \<not> stack_key ` {..<4} \<subseteq> dom (mapping kp (mem s') (pgd p)) \<or> \<not> room_left s (pgd p) 0)"
  using assms
proof (induction k arbitrary: n p s B)
  case 0
  have "\<exists>N t. p = p\<lparr>stack_pages := N, stack_pt := t\<rparr>" by (intro exI [of _ "stack_pages p"] exI [of _ "stack_pt p"]) simp
  then show ?case
    using 0 space_step_refl [OF 0(1)]
    by (intro exI [of _ True] exI [of _ p] exI [of _ s] exI [of _ B]) (auto simp: adds_def)
next
  case (Suc k)
  have n: "n < 4" using Suc.prems(2) by simp
  have mb: "fst (stack_key n) = 31" "0 < n \<Longrightarrow> fst (stack_key (n - 1)) = 31" using initial_stack_mb [of n] initial_stack_mb [of "n - 1"] n by auto
  have new: "stack_key n \<notin> dom (mapping kp (mem s) (pgd p))" using Suc.prems(7) n by blast
  then have "next_ok kp (mem s) p n" using Suc.prems(3-5) n mb unfolding next_ok_def by auto
  from add_page_step [OF Suc.prems(1) this]
  obtain r p1 s1 B1 where r: "process_add_page kp (p, s) = Some (Returns (r, p1, s1))" "space_step kp (pgd p) b B s B1 s1" "page_added kp p n s r p1 s1"
    by blast
  show ?case
  proof (cases r)
    case False
    have "add_pages kp (Suc k) (p, s) = Some (Returns (False, p1, s1))" using r(1) False by simp
    moreover have "\<exists>N t. p1 = p\<lparr>stack_pages := N, stack_pt := t\<rparr>" "adds (stack_key ` {..<4}) kp (mem s) (mem s1) (pgd p)"
      "avail s1 = {} \<and> \<not> stack_key ` {..<4} \<subseteq> dom (mapping kp (mem s1) (pgd p)) \<or> \<not> room_left s (pgd p) 0"
      using r(3) False new n unfolding page_added_def adds_def by auto
    ultimately show ?thesis using r(2) by (intro exI [of _ False] exI [of _ p1] exI [of _ s1] exI [of _ B1]) simp
  next
    case True
    then obtain pa where p1: "p1 = p\<lparr>stack_pages := w32 (Suc n), stack_pt := l2_table kp (mem s1) (pgd p) 31\<rparr>"
        "has_l2 (mem s1) (pgd p) 31" "mapping kp (mem s1) (pgd p) = (mapping kp (mem s) (pgd p))(stack_key n \<mapsto> pa)"
      using r(3) mb(1) unfolding page_added_def by auto
    have pg: "pgd p1 = pgd p" "stack_pages p1 = w32 (Suc n)" "stack_pt p1 = l2_table kp (mem s1) (pgd p1) 31" using p1(1) by simp_all
    have ok1: "space_ok kp s1 (pgd p1) b B1" using r(2) pg(1) by (simp add: space_step_def)
    have dom: "\<forall>i < Suc n. stack_key i \<in> dom (mapping kp (mem s1) (pgd p1))"
      "\<forall>i. Suc n \<le> i \<and> i < 4 \<longrightarrow> stack_key i \<notin> dom (mapping kp (mem s1) (pgd p1))"
    proof -
      have new: "stack_key i \<noteq> stack_key n" if "Suc n \<le> i" "i < 4" for i using stack_key_inj [of i n] that n by fastforce
      show "\<forall>i < Suc n. stack_key i \<in> dom (mapping kp (mem s1) (pgd p1))"
        using Suc.prems(6) unfolding pg(1) p1(3) by (simp add: less_Suc_eq)
      show "\<forall>i. Suc n \<le> i \<and> i < 4 \<longrightarrow> stack_key i \<notin> dom (mapping kp (mem s1) (pgd p1))"
        using Suc.prems(7) new unfolding pg(1) p1(3) by auto
    qed
    have le: "Suc n + k \<le> 4" and h: "has_l2 (mem s1) (pgd p1) 31" using Suc.prems(2) p1(2) pg(1) by simp_all
    obtain r' p2 s2 B2 where r2: "add_pages kp k (p1, s1) = Some (Returns (r', p2, s2))" "space_step kp (pgd p) b B1 s1 B2 s2"
      "\<exists>N t. p2 = p1\<lparr>stack_pages := N, stack_pt := t\<rparr>" "adds (stack_key ` {..<4}) kp (mem s1) (mem s2) (pgd p)"
      "if r' then stack_pages p2 = w32 (Suc n + k) \<and> stack_pt p2 = l2_table kp (mem s2) (pgd p) 31 \<and>
       (\<forall>i < Suc n + k. stack_key i \<in> dom (mapping kp (mem s2) (pgd p)))
       else avail s2 = {} \<and> \<not> stack_key ` {..<4} \<subseteq> dom (mapping kp (mem s2) (pgd p)) \<or> \<not> room_left s1 (pgd p) 0"
      using Suc.IH [OF ok1 le pg(2) h pg(3) dom] unfolding pg(1) by blast
    have "add_pages kp (Suc k) (p, s) = Some (Returns (r', p2, s2))" using r(1) True r2(1) by simp
    moreover have "adds (stack_key ` {..<4}) kp (mem s) (mem s2) (pgd p)"
      using r2(4) n unfolding adds_def p1(3) by auto
    moreover have "\<exists>N t. p2 = p\<lparr>stack_pages := N, stack_pt := t\<rparr>" using r2(3) p1(1) by auto
    ultimately show ?thesis
      using r2(5) space_step_trans [OF r(2) r2(2)] space_step_room [OF r(2), of 0]
      by (intro exI [of _ r'] exI [of _ p2] exI [of _ s2] exI [of _ B2]) (auto split: if_splits)
  qed
qed

lemma image_subset_lessThan: "f ` {..<n :: nat} \<subseteq> X \<longleftrightarrow> (\<forall>i < n. f i \<in> X)"
  by blast

lemma setup_stack_step:
  assumes ok: "space_ok kp s (pgd p) b B" and free: "stack_key ` {..<4} \<inter> dom (mapping kp (mem s) (pgd p)) = {}"
  shows "\<exists>r p' s' B'. setup_initial_stack kp (p, s) = Some (Returns (r, p', s')) \<and> space_step kp (pgd p) b B s B' s' \<and>
    (\<exists>N t. p' = p\<lparr>stack_pages := N, stack_pt := t\<rparr>) \<and> adds (stack_key ` {..<4}) kp (mem s) (mem s') (pgd p) \<and>
    (if r then stack_pages p' = 4 \<and> stack_pt p' = l2_table kp (mem s') (pgd p) 31 \<and>
       stack_key ` {..<4} \<subseteq> dom (mapping kp (mem s') (pgd p))
     else avail s' = {} \<and> \<not> stack_key ` {..<4} \<subseteq> dom (mapping kp (mem s') (pgd p)) \<or> \<not> room_left s (pgd p) 0)"
proof -
  have top: "drop_bit 20 PROC_STACK_TOP = (31 :: u32)" by (simp add: word_unat_eq_iff unat_drop_bit_div)
  have "unat (31 :: u32) < 32" by simp
  with ok show ?thesis
  proof (cases rule: get_l2_step)
    case oom
    have "setup_initial_stack kp (p, s) = Some (Returns (False, p\<lparr>stack_pt := 0\<rparr>, s))"
      using oom(1) top by (simp add: setup_initial_stack_def)
    then show ?thesis
      using space_step_refl [OF ok] same_struct [where p = p and u = 0] oom(3) [of 0]
      by (intro exI [of _ False] exI [of _ "p\<lparr>stack_pt := 0\<rparr>"] exI [of _ s] exI [of _ B]) (auto simp: adds_def)
  next
    case (table pt s1 B1)
    let ?p = "p\<lparr>stack_pt := pt, stack_pages := 0\<rparr>"
    have ok1: "space_ok kp s1 (pgd ?p) b B1" using table(5) by (simp add: space_step_def)
    have pre: "stack_pages ?p = w32 0" "has_l2 (mem s1) (pgd ?p) 31" "stack_pt ?p = l2_table kp (mem s1) (pgd ?p) 31"
      "\<forall>i < 0. stack_key i \<in> dom (mapping kp (mem s1) (pgd ?p))"
      "\<forall>i. 0 \<le> i \<and> i < 4 \<longrightarrow> stack_key i \<notin> dom (mapping kp (mem s1) (pgd ?p))"
      using table(3,4,6) free by auto
    have pg: "pgd ?p = pgd p" by simp
    have "(0 :: nat) + 4 \<le> 4" by simp
    from add_pages_step [OF ok1 this pre]
    obtain r p' s' B' where r: "add_pages kp 4 (?p, s1) = Some (Returns (r, p', s'))" "space_step kp (pgd p) b B1 s1 B' s'"
      "\<exists>N t. p' = ?p\<lparr>stack_pages := N, stack_pt := t\<rparr>" "adds (stack_key ` {..<4}) kp (mem s1) (mem s') (pgd p)"
      "if r then stack_pages p' = w32 (0 + 4) \<and> stack_pt p' = l2_table kp (mem s') (pgd p) 31 \<and>
       (\<forall>i < 0 + 4. stack_key i \<in> dom (mapping kp (mem s') (pgd p)))
       else avail s' = {} \<and> \<not> stack_key ` {..<4} \<subseteq> dom (mapping kp (mem s') (pgd p)) \<or> \<not> room_left s1 (pgd p) 0"
      unfolding pg by blast
    have "setup_initial_stack kp (p, s) = Some (Returns (r, p', s'))"
      using table(1,2) top r(1) by (simp add: setup_initial_stack_def)
    moreover have "\<exists>N t. p' = p\<lparr>stack_pages := N, stack_pt := t\<rparr>" using r(3) by auto
    moreover have "adds (stack_key ` {..<4}) kp (mem s) (mem s') (pgd p)" using r(4) table(6) by (simp add: adds_def)
    moreover have iff: "stack_key ` {..<4} \<subseteq> dom (mapping kp (mem s') (pgd p)) \<longleftrightarrow> (\<forall>i < 4. stack_key i \<in> dom (mapping kp (mem s') (pgd p)))"
      by (rule image_subset_lessThan)
    have fin: "if r then stack_pages p' = 4 \<and> stack_pt p' = l2_table kp (mem s') (pgd p) 31 \<and>
         stack_key ` {..<4} \<subseteq> dom (mapping kp (mem s') (pgd p))
       else avail s' = {} \<and> \<not> stack_key ` {..<4} \<subseteq> dom (mapping kp (mem s') (pgd p)) \<or> \<not> room_left s (pgd p) 0"
    proof (cases r)
      case True
      then show ?thesis using r(5) iff by simp
    next
      case False
      then show ?thesis using r(5) space_step_room [OF table(5), of 0] by (simp only: if_False) blast
    qed
    ultimately show ?thesis
      using space_step_trans [OF table(5) r(2)] fin by (intro exI [of _ r] exI [of _ p'] exI [of _ s'] exI [of _ B'] conjI)
  qed
qed

end
