(* ===== verification/Leg_Create.thy ===== *)
theory Leg_Create
  imports Leg_Load Leg_Space_Free Leg_Space_Stack
begin

text \<open>
  Creating a process: the struct, the address space, the program and the stack. Either all of it is there, or every
  block and every page that was taken on the way is given back.
\<close>

section \<open>Blocks of others\<close>

lemma holds_but:
  assumes "mm_ok s" "holds s p n b" "mm_but U L s s'" "b \<in> L"
  shows "holds s' p n b"
proof (rule holds_bytes [OF _ assms(2)])
  show "heap_ok s" using assms(1) by (simp add: mm_ok_def)
  show "b \<in> live s'" using assms(3,4) by (auto simp: mm_but_def)
  show "byte_at s' x = byte_at s x" if "x < 2 ^ 32" "x \<in> bytes_of {b}" for x
    using mm_but_byte [OF assms(3,4)] that by blast
qed

lemma user_mem_grow:
  assumes "frames_ok kp s (pages_of kp s tt)" "mm_keep L s s'" "mapping kp (mem s) tt \<subseteq>\<^sub>m mapping kp (mem s') tt"
  shows "user_mem kp (mem s) tt \<subseteq>\<^sub>m user_mem kp (mem s') tt"
  unfolding map_le_def
proof
  fix x assume "x \<in> dom (user_mem kp (mem s) tt)"
  then obtain pa where x: "unat x < 2 ^ 25" "mapping kp (mem s) tt (key x) = Some pa" by (auto simp: user_mem_def split: if_splits)
  let ?a = "unat (frame_addr kp pa x)"
  have "?a \<in> frames kp (pages_of kp s tt)" using x(2) by (auto simp: frames_def pages_of_def ran_def)
  then have "byte_at s' ?a = byte_at s ?a" using assms(1,2) unat_lt_32 unfolding frames_ok_def mm_keep_def by blast
  moreover have "mapping kp (mem s') tt (key x) = Some pa" using assms(3) x(2) by (auto simp: map_le_def dom_def)
  ultimately show "user_mem kp (mem s) tt x = user_mem kp (mem s') tt x" using x by (simp add: user_mem_def byte_at_def)
qed

section \<open>A new space\<close>

lemma fresh_space:
  assumes "mm_ok s" "KERNEL_VA \<le> kh_base (g_kheap s)" "2 ^ 10 dvd unat kp" "holds s tt (4 * 32) b" "2 ^ 7 dvd unat tt"
    "\<forall>i. unat i < 32 \<longrightarrow> entry (mem s) tt i = 0"
  shows "space_ok kp s tt b B" "mapping kp (mem s) tt = Map.empty" "blocks_of kp s tt b B = {b}" "pages_of kp s tt = {}"
    "room_left s tt n \<longleftrightarrow> heap_gap s (n + 67840)"
proof -
  have no: "\<not> has_l2 (mem s) tt mb" for mb using assms(6) by (auto simp: has_l2_def l1_type_def l1_of_code_def)
  show "room_left s tt n \<longleftrightarrow> heap_gap s (n + 67840)" by (simp add: room_left_def no)
  show m: "mapping kp (mem s) tt = Map.empty" by (auto simp: fun_eq_iff mapping_def page_of_alt no)
  show "blocks_of kp s tt b B = {b}" by (simp add: blocks_of_def no)
  show "pages_of kp s tt = {}" by (simp add: pages_of_def m)
  then show "space_ok kp s tt b B" using assms no m by (simp add: space_ok_def tables_ok_def plain_def)
qed

section \<open>Release\<close>

lemma process_free_step:
  assumes ok: "space_ok (kpb P) (k_mm k) (pgd (kproc k p)) b B"
    and h: "holds (k_mm k) p n bp" "0 < n" "bp \<notin> blocks_of (kpb P) (k_mm k) (pgd (kproc k p)) b B"
  obtains s' where "process_free P p k = Some (Returns (k\<lparr>k_mm := s'\<rparr>))"
    "live s' = live (k_mm k) - blocks_of (kpb P) (k_mm k) (pgd (kproc k p)) b B - {bp}"
    "avail s' = avail (k_mm k) \<union> pages_of (kpb P) (k_mm k) (pgd (kproc k p))"
    "mm_keep (live (k_mm k) - blocks_of (kpb P) (k_mm k) (pgd (kproc k p)) b B - {bp}) (k_mm k) s'"
proof -
  let ?tt = "pgd (kproc k p)" and ?kp = "kpb P"
  let ?L = "live (k_mm k) - blocks_of ?kp (k_mm k) ?tt b B"
  obtain s1 where s1: "free_space ?kp ?tt (k_mm k) = Some (Returns s1)" "live s1 = ?L"
    "avail s1 = avail (k_mm k) \<union> pages_of ?kp (k_mm k) ?tt" "mm_keep ?L (k_mm k) s1"
    using free_space_step [OF ok] by blast
  have mok: "mm_ok (k_mm k)" using ok by (simp add: space_ok_def tables_ok_def)
  have "bp \<in> ?L" using h by (simp add: holds_def)
  then have h1: "holds s1 p n bp" by (rule holds_keep [OF mok h(1) s1(4)])
  have ok1: "mm_ok s1" by (rule mm_keepD(1) [OF s1(4)])
  then have "heap_ok s1" by (simp add: mm_ok_def)
  then obtain s2 where s2: "kfree p s1 = Some (Returns s2)" "live s2 = live s1 - {bp}" "keep (live s1 - {bp}) s1 s2"
    by (rule free_holds [OF _ h1 h(2)])
  note k2 = mm_keep_heap [OF ok1 s2(3)]
  show ?thesis
  proof
    show "process_free P p k = Some (Returns (k\<lparr>k_mm := s2\<rparr>))" using s1(1) s2(1) by (simp add: process_free_def on_mm_unit_def)
    show "live s2 = ?L - {bp}" using s2(2) s1(2) by simp
    show "avail s2 = avail (k_mm k) \<union> pages_of ?kp (k_mm k) ?tt" using k2(2) s1(3) by simp
    show "mm_keep (?L - {bp}) (k_mm k) s2"
      by (rule mm_keep_chain [OF s1(4) k2(1)]) (use s1(2) in auto)
  qed
qed

section \<open>The struct and the table\<close>

lemma struct_client:
  assumes ok: "mm_ok s"
  obtains (full) "kmalloc_aligned PROC_SIZE 0x4000 s = Some (Returns (0, s))" "\<not> heap_gap s 16832"
  | (struct) p bp s1 where "kmalloc_aligned PROC_SIZE 0x4000 s = Some (Returns (p, s1))" "p \<noteq> 0" "bp \<notin> live s"
      "live s1 = insert bp (live s)" "holds s1 p 376 bp" "mm_keep (live s) s s1" "avail s1 = avail s"
      "spends 16832 s s1"
proof -
  have hok: "heap_ok s" using ok by (simp add: mm_ok_def)
  have pre: "PROC_SIZE \<noteq> 0" "(14 :: nat) < 32" "unat (PROC_SIZE :: u32) + 2 ^ max 3 14 + 16 \<le> 2 ^ 32" by simp_all
  have al: "(2 :: u32) ^ 14 = 0x4000" "unat (PROC_SIZE :: u32) + 2 ^ max 3 14 + 72 = 16832" by simp_all
  show ?thesis
    using hok pre
  proof (cases rule: aligned_client)
    case full
    then show ?thesis using that(1) unfolding al by blast
  next
    case (block p bp s1)
    then show ?thesis using that(2) [of p s1 bp] mm_keep_heap [OF ok block(7)] block(8) unfolding al by simp
  qed
qed

lemma proc_table_client:
  assumes ok: "mm_ok s" "KERNEL_VA \<le> kh_base (g_kheap s)" "2 ^ 10 dvd unat kp"
  obtains (full) "mmu_alloc_proc_table s = Some (Returns (0, s))" "\<not> heap_gap s 328"
  | (table) tt b s2 where "mmu_alloc_proc_table s = Some (Returns (tt, s2))" "tt \<noteq> 0" "b \<notin> live s" "live s2 = insert b (live s)"
      "mm_keep (live s) s s2" "avail s2 = avail s" "\<forall>B. space_ok kp s2 tt b B \<and> blocks_of kp s2 tt b B = {b}"
      "mapping kp (mem s2) tt = Map.empty" "pages_of kp s2 tt = {}" "spends 328 s s2" "\<forall>n. room_left s2 tt n \<longleftrightarrow> heap_gap s2 (n + 67840)"
proof -
  have sz: "(128 :: u32) = w32 (4 * 32)" by simp
  have k7: "(3 :: nat) \<le> 7" "(7 :: nat) < 16" "(0 :: nat) < 32" "(32 :: nat) < 2 ^ 16" by simp_all
  have e: "push_bit (12 - 7) 1 * 4 = (128 :: u32)" "push_bit (14 - 7) 1 = (2 ^ 7 :: u32)" by simp_all
  have unf: "mmu_alloc_proc_table s = bind_out (kmalloc_aligned 128 (2 ^ 7) s) (\<lambda>(tt, s).
      Some (Returns (tt, if tt \<noteq> 0 then s\<lparr>mem := snd (memset tt 0 128 (mem s))\<rparr> else s)))"
    unfolding mmu_alloc_proc_table_def e by (rule refl)
  show ?thesis
  proof (cases rule: table_client [OF ok(1) k7(1,2) sz k7(3,4)])
    case 1
    then have "\<not> heap_gap s 328" by simp
    then show ?thesis using that(1) unf 1(1) by simp
  next
    case t: (2 tt b s1)
    define s2 where "s2 = s1\<lparr>mem := snd (memset tt 0 128 (mem s1))\<rparr>"
    have s2: "live s2 = insert b (live s)" "holds s2 tt (4 * 32) b" "mm_keep (live s) s s2" "avail s2 = avail s"
      "\<forall>i. unat i < 32 \<longrightarrow> entry (mem s2) tt i = 0" "spends 328 s s2"
      using t(5) by (auto simp: Let_def s2_def)
    have "mm_ok s2" "KERNEL_VA \<le> kh_base (g_kheap s2)" using mm_keepD(1,3) [OF s2(3)] ok(2) by (simp_all add: same_areas_def)
    note f = fresh_space [OF this ok(3) s2(2) t(3) s2(5)]
    show ?thesis using that(2) [of tt s2 b] unf t(1,2,4) s2(1,3,4,6) f by (simp add: s2_def)
  qed
qed

section \<open>The way from a shell to a process\<close>

text \<open>The state with the struct at \<open>p\<close> and the empty table \<open>tt\<close>, both new since \<open>s\<^sub>0\<close>.\<close>

definition shell :: "u32 \<Rightarrow> mm_state \<Rightarrow> mm_state \<Rightarrow> u32 \<Rightarrow> block_id \<Rightarrow> u32 \<Rightarrow> block_id \<Rightarrow> bool" where
  "shell kp s\<^sub>0 s tt b p bp \<longleftrightarrow> mm_keep (live s\<^sub>0) s\<^sub>0 s \<and> live s = insert b (insert bp (live s\<^sub>0)) \<and> b \<notin> live s\<^sub>0 \<and> bp \<notin> live s\<^sub>0 \<and>
     b \<noteq> bp \<and> holds s p 376 bp \<and> avail s = avail s\<^sub>0 \<and> mapping kp (mem s) tt = Map.empty \<and> pages_of kp s tt = {} \<and>
     (\<forall>B. space_ok kp s tt b B \<and> blocks_of kp s tt b B = {b})"

text \<open>Where the owner of the shell has got to.\<close>

lemma shell_step:
  assumes sh: "shell kp s\<^sub>0 s tt b p bp" and st: "owner_step kp tt b B s B' s'"
  shows "space_ok kp s' tt b B'" "holds s' p 376 bp" "bp \<notin> blocks_of kp s' tt b B'" "live s' - blocks_of kp s' tt b B' = insert bp (live s\<^sub>0)"
    "avail s' \<union> pages_of kp s' tt = avail s\<^sub>0" "mm_but (frames kp (avail s\<^sub>0)) (live s\<^sub>0) s\<^sub>0 s'"
proof -
  have sh': "mm_keep (live s\<^sub>0) s\<^sub>0 s" "live s = insert b (insert bp (live s\<^sub>0))" "b \<notin> live s\<^sub>0" "bp \<notin> live s\<^sub>0" "b \<noteq> bp"
    "holds s p 376 bp" "avail s = avail s\<^sub>0" "pages_of kp s tt = {}" "blocks_of kp s tt b B = {b}" using sh by (simp_all add: shell_def)
  have L: "live s - {b} = insert bp (live s\<^sub>0)" using sh'(2,3,5) by blast
  have st': "mm_but (frames kp (avail s\<^sub>0)) (insert bp (live s\<^sub>0)) s s'" "live s' - blocks_of kp s' tt b B' = insert bp (live s\<^sub>0)"
    "avail s' \<union> pages_of kp s' tt = avail s\<^sub>0" using st unfolding owner_step_def sh'(7-9) L by simp_all
  show "space_ok kp s' tt b B'" using st by (simp add: owner_step_def)
  show "live s' - blocks_of kp s' tt b B' = insert bp (live s\<^sub>0)" "avail s' \<union> pages_of kp s' tt = avail s\<^sub>0" by (rule st')+
  then show "bp \<notin> blocks_of kp s' tt b B'" by blast
  have mok: "mm_ok s" by (rule mm_keepD(1) [OF sh'(1)])
  show "holds s' p 376 bp" by (rule holds_but [OF mok sh'(6) st'(1)]) simp
  have "mm_but (frames kp (avail s\<^sub>0)) (live s\<^sub>0) s s'" by (rule mm_but_mono [OF st'(1)]) auto
  then show "mm_but (frames kp (avail s\<^sub>0)) (live s\<^sub>0) s\<^sub>0 s'" by (rule mm_but_trans [OF mm_keep_but [OF sh'(1)]])
qed

text \<open>Nothing is left of a process that could not be completed.\<close>

definition undone :: "u32 \<Rightarrow> mm_state \<Rightarrow> mm_state \<Rightarrow> bool" where
  "undone kp s s' \<longleftrightarrow> live s' = live s \<and> avail s' = avail s \<and> mm_but (frames kp (avail s)) (live s) s s'"

lemma shell_free:
  assumes sh: "shell (kpb P) s\<^sub>0 s (pgd (kproc k p)) b p bp" and st: "owner_step (kpb P) (pgd (kproc k p)) b B s B' (k_mm k)"
  obtains s' where "process_free P p k = Some (Returns (k\<lparr>k_mm := s'\<rparr>))" "undone (kpb P) s\<^sub>0 s'"
proof -
  note f = shell_step [OF sh st]
  have bp: "bp \<notin> live s\<^sub>0" using sh by (simp add: shell_def)
  obtain s' where s': "process_free P p k = Some (Returns (k\<lparr>k_mm := s'\<rparr>))"
    "live s' = live (k_mm k) - blocks_of (kpb P) (k_mm k) (pgd (kproc k p)) b B' - {bp}"
    "avail s' = avail (k_mm k) \<union> pages_of (kpb P) (k_mm k) (pgd (kproc k p))"
    "mm_keep (live (k_mm k) - blocks_of (kpb P) (k_mm k) (pgd (kproc k p)) b B' - {bp}) (k_mm k) s'"
    by (rule process_free_step [OF f(1,2) _ f(3)]) simp_all
  have L: "live (k_mm k) - blocks_of (kpb P) (k_mm k) (pgd (kproc k p)) b B' - {bp} = live s\<^sub>0" using f(4) bp by simp
  have "mm_keep (live s\<^sub>0) (k_mm k) s'" using s'(4) unfolding L .
  then have "mm_but (frames (kpb P) (avail s\<^sub>0)) (live s\<^sub>0) s\<^sub>0 s'" using mm_but_trans [OF f(6) mm_keep_but] by blast
  then show ?thesis using that [OF s'(1)] s'(2,3) f(5) unfolding undone_def L by simp
qed

section \<open>Creation\<close>

text \<open>The end of the program's share of the user addresses: the four pages of the initial stack lie above it.\<close>

abbreviation image_limit :: nat where
  "image_limit \<equiv> 0x01FFB000"

lemma stack_above: "keys_below image_limit \<inter> stack_key ` {..<4} = {}"
proof (rule ccontr)
  assume "keys_below image_limit \<inter> stack_key ` {..<4} \<noteq> {}"
  then obtain x where x: "x \<in> keys_below image_limit" "x \<in> stack_key ` {..<4}" by blast
  obtain a where "unat a < image_limit" "x = key a" using x(1) unfolding keys_below_def by blast
  moreover obtain i where "i < 4" "x = stack_key i" using x(2) by blast
  ultimately have a: "unat a < image_limit" "i < 4" "key a = stack_key i" by simp_all
  have "drop_bit 12 a = drop_bit 12 (stack_page i)" using a(3) same_page [of a "stack_page i"] by simp
  then have "unat a div 4096 = unat (stack_page i) div 4096" by (simp add: word_unat_eq_iff unat_drop_bit_div)
  moreover have "unat (stack_page i) = 4096 * (8190 - i)" using a(2) by (simp add: unat_stack_page)
  ultimately show False using a(1,2) by simp
qed

text \<open>Pages run out: a set of keys that is not all mapped has more keys than the space has pages.\<close>

lemma pages_card:
  assumes "finite K" "dom (mapping kp (mem s) tt) \<subset> K"
  shows "card (pages_of kp s tt) < card K"
proof -
  have "pages_of kp s tt = (\<lambda>x. the (mapping kp (mem s) tt x)) ` dom (mapping kp (mem s) tt)"
    by (force simp: pages_of_def ran_def)
  then have "card (pages_of kp s tt) \<le> card (dom (mapping kp (mem s) tt))"
    using card_image_le [OF finite_subset [of _ K]] assms by (metis psubset_imp_subset)
  also have "\<dots> < card K" by (rule psubset_card_mono [OF assms])
  finally show ?thesis .
qed

lemma card_with_stack: "card (K \<union> stack_key ` {..<4}) \<le> card K + 4" for K :: "(u32 \<times> u32) set"
proof -
  have "card (K \<union> stack_key ` {..<4}) \<le> card K + card (stack_key ` {..<4})" by (rule card_Un_le)
  also have "card (stack_key ` {..<4}) \<le> card {..<4 :: nat}" by (rule card_image_le) simp
  finally show ?thesis by simp
qed

text \<open>What \<^verbatim>\<open>process_create\<close> promises of the process at \<open>p\<close>: \<open>k\<close> is the state before, \<open>off\<close> the offset of the program in the image.\<close>

definition created :: "'d platform \<Rightarrow> mem \<Rightarrow> u32 \<Rightarrow> 'd kernel \<Rightarrow> u32 \<Rightarrow> 'd kernel \<Rightarrow> bool" where
  "created P img off k p k' \<longleftrightarrow>
     (let q = kproc k' p
      in pid q = next_pid k \<and> next_pid k' = next_pid k + 1 \<and> p_entry q = llf_entry (llf_header img off) \<and>
         p_sp q = PROC_STACK_TOP - 16 \<and> heap_end q = PROC_HEAP_START \<and> stack_pages q = 4 \<and>
         image_map img off \<subseteq>\<^sub>m user_mem (kpb P) (kmem k') (pgd q) \<and>
         dom (mapping (kpb P) (kmem k') (pgd q)) = image_keys img off \<union> stack_key ` {..<4} \<and>
         (\<exists>b B bp. space_ok (kpb P) (k_mm k') (pgd q) b B \<and> holds (k_mm k') p 376 bp \<and>
            bp \<notin> blocks_of (kpb P) (k_mm k') (pgd q) b B \<and>
            live (k_mm k') - blocks_of (kpb P) (k_mm k') (pgd q) b B = insert bp (live (k_mm k)) \<and> bp \<notin> live (k_mm k) \<and>
            avail (k_mm k') \<union> pages_of (kpb P) (k_mm k') (pgd q) = avail (k_mm k)))"

lemma kproc_on_proc [simp]: "kproc (on_proc p f k) p = f (kproc k p)"
  by (simp add: kproc_def on_proc_def upd_proc_def)

lemma kproc_same [simp]: "kproc (k\<lparr>k_mm := s\<rparr>) p = kproc k p" "kproc (k\<lparr>k_blk := bl\<rparr>) p = kproc k p" "kproc (k\<lparr>k_dev := d\<rparr>) p = kproc k p"
    "kproc (k\<lparr>ttbr0 := t\<rparr>) p = kproc k p" "kproc (k\<lparr>next_pid := n\<rparr>) p = kproc k p"
  by (simp_all add: kproc_def)

lemma on_proc_simps [simp]: "k_mm (on_proc p f k) = k_mm k" "k_fs (on_proc p f k) = k_fs k" "k_blk (on_proc p f k) = k_blk k"
    "k_dev (on_proc p f k) = k_dev k" "next_pid (on_proc p f k) = next_pid k" "k_sched (on_proc p f k) = upd_proc p f (k_sched k)"
  by (simp_all add: on_proc_def)

text \<open>Everything but the struct at \<open>p\<close>: the process table and the other structs.\<close>

definition sched_kept :: "u32 \<Rightarrow> 'd kernel \<Rightarrow> 'd kernel \<Rightarrow> bool" where
  "sched_kept p k k' \<longleftrightarrow> (\<exists>f. k_sched k' = upd_proc p f (k_sched k)) \<and> k_fs k' = k_fs k"

lemma upd_proc_twice: "upd_proc p g (upd_proc p f s) = upd_proc p (\<lambda>x. g (f x)) s"
  by (simp add: upd_proc_def)

text \<open>The last part: from the shell with the program to the process.\<close>

definition finish_create :: "'d platform \<Rightarrow> u32 \<Rightarrow> u32 option \<times> 'd kernel \<Rightarrow> (u32 \<times> 'd kernel) outcome option" where
  "finish_create P p = (\<lambda>(e, k). case e of
      None \<Rightarrow> bind_out (process_free P p k) (done_with 0)
    | Some e \<Rightarrow>
        bind_out (on_struct (setup_initial_stack (kpb P)) p (on_proc p (\<lambda>x. x\<lparr>p_entry := e\<rparr>) k)) (\<lambda>(ok, k).
          if \<not> ok then bind_out (process_free P p k) (done_with 0)
          else
            done_with p ((on_proc p (\<lambda>x. x\<lparr>pid := next_pid k, p_sp := PROC_STACK_TOP - 16, heap_end := PROC_HEAP_START\<rparr>) k)
              \<lparr>next_pid := next_pid k + 1\<rparr>)))"

lemma finish_step:
  assumes sh: "shell (kpb P) s\<^sub>0 s (pgd (kproc k p)) b p bp" and st: "owner_step (kpb P) (pgd (kproc k p)) b B s B1 (k_mm k)"
    and fr: "frames_ok (kpb P) s\<^sub>0 (avail s\<^sub>0)"
    and k\<^sub>0: "k_mm k\<^sub>0 = s\<^sub>0" "next_pid k\<^sub>0 = next_pid k" and p: "p \<noteq> 0"
    and e: "\<forall>v. e = Some v \<longrightarrow> v = llf_entry (llf_header img off) \<and> image_map img off \<subseteq>\<^sub>m user_mem (kpb P) (kmem k) (pgd (kproc k p)) \<and>
      dom (mapping (kpb P) (kmem k) (pgd (kproc k p))) = image_keys img off \<and> image_keys img off \<subseteq> keys_below image_limit"
  shows "\<exists>r k'. finish_create P p (e, k) = done_with r k' \<and> sched_kept p k k' \<and> k_dev k' = k_dev k \<and>
    mm_but (frames (kpb P) (avail s\<^sub>0)) (live s\<^sub>0) s\<^sub>0 (k_mm k') \<and>
    (if r = 0
     then undone (kpb P) s\<^sub>0 (k_mm k') \<and> next_pid k' = next_pid k \<and>
       (e \<noteq> None \<and> room_left (k_mm k) (pgd (kproc k p)) 0 \<longrightarrow> card (avail s\<^sub>0) < card (image_keys img off) + 4)
     else r = p \<and> e \<noteq> None \<and> created P img off k\<^sub>0 p k')"
proof -
  let ?kp = "kpb P" and ?tt = "pgd (kproc k p)"
  have kept0: "sched_kept p k (k\<lparr>k_mm := s'\<rparr>)" for s' unfolding sched_kept_def by (intro conjI exI [of _ id]) (simp_all add: upd_proc_def)
  show ?thesis
  proof (cases e)
    case None
    obtain s' where s': "process_free P p k = Some (Returns (k\<lparr>k_mm := s'\<rparr>))" "undone ?kp s\<^sub>0 s'"
      by (rule shell_free [OF sh st])
    then have "finish_create P p (e, k) = done_with 0 (k\<lparr>k_mm := s'\<rparr>)" using None by (simp add: finish_create_def)
    moreover have "mm_but (frames ?kp (avail s\<^sub>0)) (live s\<^sub>0) s\<^sub>0 s'" using s'(2) by (simp add: undone_def)
    ultimately show ?thesis using None kept0 s'(2) by (intro exI [of _ 0] exI [of _ "k\<lparr>k_mm := s'\<rparr>"]) simp
  next
    case (Some v)
    define q where "q = (kproc k p)\<lparr>p_entry := v\<rparr>"
    have tt: "pgd q = ?tt" by (simp add: q_def)
    note f = shell_step [OF sh st]
    have ks: "dom (mapping ?kp (kmem k) ?tt) = image_keys img off" "image_keys img off \<subseteq> keys_below image_limit" using e Some by simp_all
    then have "space_ok ?kp (k_mm k) (pgd q) b B1" "stack_key ` {..<4} \<inter> dom (mapping ?kp (kmem k) (pgd q)) = {}"
      using f(1) stack_above unfolding tt by blast+
    from setup_stack_step [OF this]
    obtain ok q' s2 B2 N t where s2: "setup_initial_stack ?kp (q, k_mm k) = Some (Returns (ok, q', s2))" "space_step ?kp ?tt b B1 (k_mm k) B2 s2"
      "q' = q\<lparr>stack_pages := N, stack_pt := t\<rparr>"
      "adds (stack_key ` {..<4}) ?kp (kmem k) (mem s2) ?tt"
      "if ok then stack_pages q' = 4 \<and> stack_pt q' = l2_table ?kp (mem s2) ?tt 31 \<and> stack_key ` {..<4} \<subseteq> dom (mapping ?kp (mem s2) ?tt)
       else avail s2 = {} \<and> \<not> stack_key ` {..<4} \<subseteq> dom (mapping ?kp (mem s2) ?tt) \<or> \<not> room_left (k_mm k) ?tt 0" unfolding tt by blast
    have grow: "mapping ?kp (kmem k) ?tt \<subseteq>\<^sub>m mapping ?kp (mem s2) ?tt" using s2(2) by (simp add: space_step_def)
    have dom2: "image_keys img off \<subseteq> dom (mapping ?kp (mem s2) ?tt)" "dom (mapping ?kp (mem s2) ?tt) \<subseteq> image_keys img off \<union> stack_key ` {..<4}"
      using map_le_implies_dom_le [OF grow] s2(4) ks(1) by (simp_all add: adds_def)
    have st2: "owner_step ?kp ?tt b B s B2 s2" by (rule owner_step_trans [OF st space_owner_step [OF s2(2)]])
    note g = shell_step [OF sh st2]
    let ?k2 = "on_proc p (\<lambda>_. q') (on_proc p (\<lambda>x. x\<lparr>p_entry := v\<rparr>) k\<lparr>k_mm := s2\<rparr>)"
    have st3: "on_struct (setup_initial_stack ?kp) p (on_proc p (\<lambda>x. x\<lparr>p_entry := v\<rparr>) k) = done_with ok ?k2"
      using s2(1) by (simp add: on_struct_def q_def)
    have kq: "kproc ?k2 p = q'" "k_mm ?k2 = s2" "pgd q' = ?tt" using s2(3) tt by simp_all
    show ?thesis
    proof (cases ok)
      case False
      have "shell ?kp s\<^sub>0 s (pgd (kproc ?k2 p)) b p bp" "owner_step ?kp (pgd (kproc ?k2 p)) b B s B2 (k_mm ?k2)"
        using sh st2 unfolding kq by simp_all
      then obtain s' where s': "process_free P p ?k2 = Some (Returns (?k2\<lparr>k_mm := s'\<rparr>))" "undone ?kp s\<^sub>0 s'" by (rule shell_free)
      then have "finish_create P p (e, k) = done_with 0 (?k2\<lparr>k_mm := s'\<rparr>)" using Some False st3 by (simp add: finish_create_def)
      moreover have "sched_kept p k (?k2\<lparr>k_mm := s'\<rparr>)"
        unfolding sched_kept_def by (intro conjI exI [of _ "\<lambda>_. q'"]) (simp_all add: upd_proc_twice)
      moreover have "mm_but (frames ?kp (avail s\<^sub>0)) (live s\<^sub>0) s\<^sub>0 s'" using s'(2) by (simp add: undone_def)
      moreover have "card (avail s\<^sub>0) < card (image_keys img off) + 4" if "room_left (k_mm k) ?tt 0"
      proof -
        have out: "avail s2 = {}" "\<not> stack_key ` {..<4} \<subseteq> dom (mapping ?kp (mem s2) ?tt)" using s2(5) False that by simp_all
        then have "dom (mapping ?kp (mem s2) ?tt) \<subset> image_keys img off \<union> stack_key ` {..<4}" using dom2(2) by blast
        then have "card (pages_of ?kp s2 ?tt) < card (image_keys img off \<union> stack_key ` {..<4})" by (rule pages_card [OF finite])
        then show ?thesis using g(5) out(1) card_with_stack [of "image_keys img off"] by simp
      qed
      ultimately show ?thesis using s'(2) by (intro exI [of _ 0] exI [of _ "?k2\<lparr>k_mm := s'\<rparr>"]) simp
    next
      case True
      let ?k3 = "(on_proc p (\<lambda>x. x\<lparr>pid := next_pid k, p_sp := PROC_STACK_TOP - 16, heap_end := PROC_HEAP_START\<rparr>) ?k2)\<lparr>next_pid := next_pid k + 1\<rparr>"
      have fin: "finish_create P p (e, k) = done_with p ?k3" using Some True st3 by (simp add: finish_create_def)
      have "frames_ok ?kp (k_mm k) (pages_of ?kp (k_mm k) ?tt)"
        using frames_ok_areas [OF fr mm_butD(3) [OF f(6)]] f(5) frames_ok_mono by blast
      moreover obtain L where "mm_keep L (k_mm k) s2" "mapping ?kp (kmem k) ?tt \<subseteq>\<^sub>m mapping ?kp (mem s2) ?tt"
        using s2(2) unfolding space_step_def by blast
      ultimately have "user_mem ?kp (kmem k) ?tt \<subseteq>\<^sub>m user_mem ?kp (mem s2) ?tt" by (rule user_mem_grow)
      then have um: "image_map img off \<subseteq>\<^sub>m user_mem ?kp (mem s2) ?tt" using e Some map_le_trans by blast
      have "bp \<notin> live s\<^sub>0" using sh by (simp add: shell_def)
      then have ex: "\<exists>b B bp. space_ok ?kp s2 ?tt b B \<and> holds s2 p 376 bp \<and> bp \<notin> blocks_of ?kp s2 ?tt b B \<and>
          live s2 - blocks_of ?kp s2 ?tt b B = insert bp (live s\<^sub>0) \<and> bp \<notin> live s\<^sub>0 \<and> avail s2 \<union> pages_of ?kp s2 ?tt = avail s\<^sub>0"
        using g(1-5) by blast
      have "created P img off k\<^sub>0 p ?k3"
        using um s2(3,5) True ex e Some k\<^sub>0 dom2 by (simp add: created_def Let_def q_def set_eq_subset)
      moreover have "sched_kept p k ?k3"
        unfolding sched_kept_def by (intro conjI exI [of _ "\<lambda>_. q'\<lparr>pid := next_pid k, p_sp := PROC_STACK_TOP - 16, heap_end := PROC_HEAP_START\<rparr>"])
          (simp_all add: upd_proc_twice)
      ultimately show ?thesis using fin g(6) p Some by (intro exI [of _ p] exI [of _ ?k3]) simp
    qed
  qed
qed

lemma undone_refl: "mm_ok s \<Longrightarrow> undone kp s s"
  unfolding undone_def using mm_keep_but [OF mm_keep_refl [OF _ subset_refl]] by simp

lemma undone_free:
  assumes "mm_ok s" "mm_keep (live s) s s1" "live s1 = insert bp (live s)" "bp \<notin> live s" "holds s1 p 376 bp" "avail s1 = avail s"
  obtains s' where "kfree p s1 = Some (Returns s')" "undone kp s s'"
proof -
  have ok1: "mm_ok s1" by (rule mm_keepD(1) [OF assms(2)])
  then have "heap_ok s1" by (simp add: mm_ok_def)
  then obtain s' where s': "kfree p s1 = Some (Returns s')" "live s' = live s1 - {bp}" "keep (live s1 - {bp}) s1 s'"
    by (rule free_holds [OF _ assms(5)]) simp_all
  note k = mm_keep_heap [OF ok1 s'(3)]
  have L: "live s1 - {bp} = live s" using assms(3,4) by simp
  have "mm_keep (live s) s s'" using mm_keep_trans [OF assms(2)] k(1) unfolding L by blast
  then show ?thesis using that [OF s'(1)] mm_keep_but s'(2) k(2) assms(6) unfolding undone_def L by auto
qed

text \<open>C1: \<open>process_create\<close> on a kernel with a mounted file system and a disk that follows the virtio specification, for a name in
  stable memory and an executable, if the name stands for one, whose image is well formed. It ends without a panic. Either
  it returns a process: a new struct with the next identifier, an address space of its own whose pages are those of the
  segments and four stack pages below the top, no others, in which the user sees the bytes that the image prescribes, and
  the entry point of the image; or it returns null, and then every heap block and every page it took is free again. It does
  not return null when the name stands for an executable with the magic of the format, the device serves the read of the
  file, there are enough free pages, and the heap has a gap for the struct, the file and all tables. Live blocks of others
  keep their bytes, and so does all memory outside the heap, the bitmap and the frames of free pages.\<close>

theorem process_create_correct:
  fixes disk
  assumes "mm_ok (k_mm k)" "KERNEL_VA \<le> kh_base (g_kheap (k_mm k))" "2 ^ 10 dvd unat (kpb P)"
    and "frames_ok (kpb P) (k_mm k) (avail (k_mm k))" "blk_inv (k_blk k)" "blk_device_ok (kpb P) (symbols P) (device P) disk serves"
    and "fs_view k img name xs" "g_blobs (k_fs k) \<noteq> 0" "unat (g_blobs (k_fs k)) + 16 * unat (g_blob_count (k_fs k)) \<le> 2 ^ 32"
    and "img = image_of (disk (k_dev k)) (g_start_sector (k_fs k))"
    and "\<forall>i. executable img (g_blob_count (k_fs k)) xs = Some i \<longrightarrow> blob_sound image_limit img (g_start_sector (k_fs k)) i"
  shows "\<exists>r k' a. process_create P name k = done_with r k' \<and> sched_kept a k k' \<and> disk (k_dev k') = disk (k_dev k) \<and>
    mm_but (frames (kpb P) (avail (k_mm k))) (live (k_mm k)) (k_mm k) (k_mm k') \<and>
    (if r = 0 then undone (kpb P) (k_mm k) (k_mm k') \<and> next_pid k' = next_pid k
     else a = r \<and> (\<exists>i. executable img (g_blob_count (k_fs k)) xs = Some i \<and>
       llf_magic (llf_header img (blob_offset (image_blob img i))) = LLF_MAGIC \<and>
       created P img (blob_offset (image_blob img i)) k r k')) \<and>
    (\<forall>i. executable img (g_blob_count (k_fs k)) xs = Some i \<and>
       (let b = image_blob img i
        in llf_magic (llf_header img (blob_offset b)) = LLF_MAGIC \<and> blob_served serves (k_dev k) (g_start_sector (k_fs k)) b \<and>
           card (image_keys img (blob_offset b)) + 4 \<le> card (avail (k_mm k)) \<and> heap_gap (k_mm k) (unat (blob_size b) + 85574))
       \<longrightarrow> r \<noteq> 0)"
proof -
  let ?kp = "kpb P"
  define rest where "rest = (\<lambda>p (tt, k). let k = on_proc p (\<lambda>x. x\<lparr>pgd := tt\<rparr>) k
      in if tt = 0 then bind_out (on_mm_unit (kfree p) k) (done_with 0)
         else bind_out (load_user_image P tt name k) (finish_create P p))"
  have unf: "process_create P name k = bind_out (on_mm (kmalloc_aligned PROC_SIZE 0x4000) k) (\<lambda>(p, k).
      if p = 0 then done_with 0 k else bind_out (on_mm mmu_alloc_proc_table k) (rest p))"
    unfolding process_create_def rest_def finish_create_def by (simp only: case_prod_unfold Let_def)
  have none: "sched_kept 0 k k" unfolding sched_kept_def by (intro conjI exI [of _ id]) (simp_all add: upd_proc_def)
  note u0 = undone_refl [OF assms(1), of ?kp]
  show ?thesis
    using assms(1)
  proof (cases rule: struct_client)
    case full
    have "process_create P name k = done_with 0 k" unfolding unf using full(1) by (simp add: on_mm_def)
    moreover have "\<not> heap_gap (k_mm k) (j + 85574)" for j using full(2) heap_gap_less [of "k_mm k" "j + 85574" 16832] by auto
    moreover have "mm_but (frames ?kp (avail (k_mm k))) (live (k_mm k)) (k_mm k) (k_mm k)" using u0 by (simp add: undone_def)
    ultimately show ?thesis using none u0 by (intro exI [of _ 0] exI [of _ k]) simp
  next
    case (struct p bp s1)
    have ok1: "mm_ok s1" "KERNEL_VA \<le> kh_base (g_kheap s1)"
      using mm_keepD(1,3) [OF struct(6)] assms(2) by (simp_all add: same_areas_def)
    have gap1: "heap_gap s1 (j + 68742)" if "heap_gap (k_mm k) (j + 85574)" for j
      by (rule spends_gap [OF struct(8) heap_gap_less [OF that]]) simp
    have unf1: "process_create P name k = bind_out (on_mm mmu_alloc_proc_table (k\<lparr>k_mm := s1\<rparr>)) (rest p)"
      unfolding unf using struct(1,2) by (simp add: on_mm_def)
    show ?thesis
      using ok1 assms(3)
    proof (cases rule: proc_table_client)
      case full
      obtain s' where s': "kfree p s1 = Some (Returns s')" "undone ?kp (k_mm k) s'"
        by (rule undone_free [OF assms(1) struct(6,4,3,5,7)])
      let ?k = "on_proc p (\<lambda>x. x\<lparr>pgd := 0\<rparr>) (k\<lparr>k_mm := s1\<rparr>)"
      have "process_create P name k = done_with 0 (?k\<lparr>k_mm := s'\<rparr>)"
        unfolding unf1 using full(1) s'(1) by (simp add: rest_def on_mm_def on_mm_unit_def)
      moreover have "sched_kept p k (?k\<lparr>k_mm := s'\<rparr>)" unfolding sched_kept_def by (intro conjI exI) simp_all
      moreover have "mm_but (frames ?kp (avail (k_mm k))) (live (k_mm k)) (k_mm k) s'" using s'(2) by (simp add: undone_def)
      moreover have "\<not> heap_gap (k_mm k) (j + 85574)" for j using full(2) gap1 [of j] heap_gap_less [of s1 "j + 68742" 328] by auto
      ultimately show ?thesis using s'(2) by (intro exI [of _ 0] exI [of _ "?k\<lparr>k_mm := s'\<rparr>"] exI [of _ p]) simp
    next
      case (table tt b s2)
      let ?k2 = "on_proc p (\<lambda>x. x\<lparr>pgd := tt\<rparr>) (k\<lparr>k_mm := s2\<rparr>)"
      have "live (k_mm k) \<subseteq> live s1" using struct(4) by blast
      then have keep: "mm_keep (live (k_mm k)) (k_mm k) s2" by (intro mm_keep_chain [OF struct(6) table(5)]) simp_all
      have bp: "bp \<in> live s1" using struct(4) by blast
      have sh: "shell ?kp (k_mm k) s2 tt b p bp"
        unfolding shell_def using keep table struct(3,4,7) bp holds_keep [OF ok1(1) struct(5) table(5) bp] by auto
      have "space_ok ?kp (k_mm ?k2) tt b (\<lambda>_. b)" using table(7) by simp
      moreover have fr: "frames_ok ?kp (k_mm ?k2) (avail (k_mm ?k2) \<union> pages_of ?kp (k_mm ?k2) tt)"
        using frames_ok_areas [OF assms(4) mm_keepD(3) [OF keep]] table(6,9) struct(7) by simp
      moreover have "blk_inv (k_blk ?k2)" using assms(5) by simp
      moreover have "fs_view ?k2 img name xs" by (rule fs_view_keep [OF assms(7)]) (use keep in simp_all)
      moreover have "g_blobs (k_fs ?k2) \<noteq> 0" "unat (g_blobs (k_fs ?k2)) + 16 * unat (g_blob_count (k_fs ?k2)) \<le> 2 ^ 32"
        "img = image_of (disk (k_dev ?k2)) (g_start_sector (k_fs ?k2))"
        "\<forall>i. executable img (g_blob_count (k_fs ?k2)) xs = Some i \<longrightarrow> blob_sound image_limit img (g_start_sector (k_fs ?k2)) i"
        using assms(8-11) by simp_all
      moreover have "image_limit \<le> 2 ^ 25" by simp
      ultimately have "\<exists>e s' bl d t B'. load_user_image P tt name ?k2 = done_with e (?k2\<lparr>k_mm := s', k_blk := bl, k_dev := d, ttbr0 := t\<rparr>) \<and>
        blk_inv bl \<and> disk d = disk (k_dev ?k2) \<and> owner_step ?kp tt b (\<lambda>_. b) (k_mm ?k2) B' s' \<and>
        loaded ?kp serves (k_dev ?k2) (g_start_sector (k_fs ?k2)) img (executable img (g_blob_count (k_fs ?k2)) xs) tt (k_mm ?k2) s' e"
        using assms(6) by (intro load_user_image_step)
      then obtain e s' bl d t B' where ld: "load_user_image P tt name ?k2 = done_with e (?k2\<lparr>k_mm := s', k_blk := bl, k_dev := d, ttbr0 := t\<rparr>)"
        "disk d = disk (k_dev k)" "owner_step ?kp tt b (\<lambda>_. b) s2 B' s'"
        "loaded ?kp serves (k_dev k) (g_start_sector (k_fs k)) img (executable img (g_blob_count (k_fs k)) xs) tt s2 s' e" by auto
      let ?k3 = "?k2\<lparr>k_mm := s', k_blk := bl, k_dev := d, ttbr0 := t\<rparr>"
      define exe where "exe = executable img (g_blob_count (k_fs k)) xs"
      define bb where "bb = image_blob img (the exe)"
      let ?off = "blob_offset bb" and ?magic = "\<exists>i. exe = Some i \<and> llf_magic (llf_header img (blob_offset (image_blob img i))) = LLF_MAGIC"
      have tt: "pgd (kproc ?k3 p) = tt" by simp
      note l = ld(4) [unfolded loaded_def exe_def [symmetric] bb_def [symmetric] Let_def]
      have no: "\<not> ?magic \<Longrightarrow> e = None" using l by (simp only: if_False)
      have yes: "adds (image_keys img ?off) ?kp (mem s2) (mem s') tt \<and>
           (\<forall>v. e = Some v \<longrightarrow> v = llf_entry (llf_header img ?off) \<and> image_map img ?off \<subseteq>\<^sub>m user_mem ?kp (mem s') tt \<and>
              image_keys img ?off \<subseteq> dom (mapping ?kp (mem s') tt)) \<and>
           (blob_served serves (k_dev k) (g_start_sector (k_fs k)) bb \<and> room_left s2 tt (unat (blob_size bb) + 574) \<longrightarrow>
              room_left s' tt 0 \<and> (e = None \<longrightarrow> avail s' = {} \<and> \<not> image_keys img ?off \<subseteq> dom (mapping ?kp (mem s') tt)))"
        if m: ?magic using l unfolding if_P [OF m] .
      have below: "image_keys img ?off \<subseteq> keys_below image_limit" if m: ?magic
      proof -
        obtain i where i: "exe = Some i" "llf_magic (llf_header img (blob_offset (image_blob img i))) = LLF_MAGIC" using m by blast
        then have "image_ok image_limit img ?off (unat (blob_size bb))" using assms(11) by (simp add: blob_sound_def Let_def bb_def exe_def)
        then show ?thesis by (rule image_keys_below) (simp add: dvd_eq_mod_eq_0)
      qed
      have only: "dom (mapping ?kp (mem s') tt) \<subseteq> image_keys img ?off" if ?magic using yes [OF that] table(8) by (simp add: adds_def)
      have e3: "\<forall>v. e = Some v \<longrightarrow> v = llf_entry (llf_header img ?off) \<and> image_map img ?off \<subseteq>\<^sub>m user_mem ?kp (kmem ?k3) (pgd (kproc ?k3 p)) \<and>
          dom (mapping ?kp (kmem ?k3) (pgd (kproc ?k3 p))) = image_keys img ?off \<and> image_keys img ?off \<subseteq> keys_below image_limit"
      proof (intro allI impI)
        fix v assume v: "e = Some v"
        then have m: ?magic using no by auto
        show "v = llf_entry (llf_header img ?off) \<and> image_map img ?off \<subseteq>\<^sub>m user_mem ?kp (kmem ?k3) (pgd (kproc ?k3 p)) \<and>
          dom (mapping ?kp (kmem ?k3) (pgd (kproc ?k3 p))) = image_keys img ?off \<and> image_keys img ?off \<subseteq> keys_below image_limit"
          unfolding tt using yes [OF m] only [OF m] below [OF m] v by simp
      qed
      have sh3: "shell ?kp (k_mm k) s2 (pgd (kproc ?k3 p)) b p bp" "owner_step ?kp (pgd (kproc ?k3 p)) b (\<lambda>_. b) s2 B' (k_mm ?k3)"
        using sh ld(3) unfolding tt by simp_all
      have pid3: "next_pid k = next_pid ?k3" by simp
      have k3: "k_mm ?k3 = s'" "k_dev ?k3 = d" by simp_all
      obtain r k' where fin: "finish_create P p (e, ?k3) = done_with r k'" "sched_kept p ?k3 k'" "k_dev k' = d"
        "mm_but (frames ?kp (avail (k_mm k))) (live (k_mm k)) (k_mm k) (k_mm k')"
        "if r = 0
         then undone ?kp (k_mm k) (k_mm k') \<and> next_pid k' = next_pid ?k3 \<and>
           (e \<noteq> None \<and> room_left s' tt 0 \<longrightarrow> card (avail (k_mm k)) < card (image_keys img ?off) + 4)
         else r = p \<and> e \<noteq> None \<and> created P img ?off k p k'"
        using finish_step [OF sh3 assms(4) refl pid3 struct(2) e3] unfolding k3 tt by blast
      have "process_create P name k = done_with r k'"
        unfolding unf1 using table(1,2) ld(1) fin(1) by (simp add: rest_def on_mm_def)
      moreover have "sched_kept p k k'"
        using fin(2) unfolding sched_kept_def by (auto simp: upd_proc_twice)
      moreover have "\<exists>i. exe = Some i \<and> llf_magic (llf_header img (blob_offset (image_blob img i))) = LLF_MAGIC \<and>
          created P img (blob_offset (image_blob img i)) k r k'" if "r \<noteq> 0"
      proof -
        have "r = p" "e \<noteq> None" "created P img ?off k p k'" using fin(5) that by simp_all
        moreover obtain i where "exe = Some i" "llf_magic (llf_header img (blob_offset (image_blob img i))) = LLF_MAGIC"
          using no \<open>e \<noteq> None\<close> by blast
        ultimately show ?thesis by (simp add: bb_def)
      qed
      moreover have "r \<noteq> 0" if i: "exe = Some i" and m: "llf_magic (llf_header img (blob_offset (image_blob img i))) = LLF_MAGIC"
        and sv: "blob_served serves (k_dev k) (g_start_sector (k_fs k)) (image_blob img i)"
        and pages: "card (image_keys img (blob_offset (image_blob img i))) + 4 \<le> card (avail (k_mm k))"
        and gap: "heap_gap (k_mm k) (unat (blob_size (image_blob img i)) + 85574)" for i
      proof
        assume r0: "r = 0"
        have bb: "image_blob img i = bb" by (simp add: bb_def i)
        have mg: ?magic using i m by blast
        have "heap_gap s2 (unat (blob_size bb) + 574 + 67840)"
          using spends_gap [OF table(10), of "unat (blob_size bb) + 574 + 67840"] gap1 [of "unat (blob_size bb)"] gap bb by (simp add: add.assoc)
        then have "room_left s2 tt (unat (blob_size bb) + 574)" using table(11) by simp
        then have ld': "room_left s' tt 0" "e = None \<Longrightarrow> avail s' = {}" "e = None \<Longrightarrow> \<not> image_keys img ?off \<subseteq> dom (mapping ?kp (mem s') tt)"
          using yes [OF mg] sv bb by simp_all
        have "card (avail (k_mm k)) < card (image_keys img ?off) + 4"
        proof (cases e)
          case None
          have "dom (mapping ?kp (mem s') tt) \<subset> image_keys img ?off" using only [OF mg] ld'(3) [OF None] by blast
          then have "card (pages_of ?kp s' tt) < card (image_keys img ?off)" by (rule pages_card [OF finite])
          moreover have "avail s' \<union> pages_of ?kp s' tt = avail (k_mm k)"
            using ld(3) table(6,9) struct(7) by (simp add: owner_step_def)
          ultimately show ?thesis using ld'(2) [OF None] by simp
        next
          case (Some v)
          then show ?thesis using fin(5) r0 ld'(1) by simp
        qed
        then show False using pages bb by simp
      qed
      ultimately show ?thesis
        using fin(3-5) ld(2) unfolding exe_def [symmetric] Let_def by (intro exI [of _ r] exI [of _ k'] exI [of _ p]) (auto split: if_splits)
    qed
  qed
qed

end
