(* ===== verification/Leg_Create_Demo.thy ===== *)
theory Leg_Create_Demo
  imports Leg_Create
begin

text \<open>
  A kernel that starts a program: the heap of \<^verbatim>\<open>mm_init\<close>, eight free pages, and a RAM disk whose image holds one
  executable, \<^verbatim>\<open>init\<close>, with one segment of four bytes from the file and four zero bytes.
\<close>

definition llf1 :: "u8 list" where
  "llf1 =
     [0x46, 0x46, 0x4C, 0x4C, 1, 0, 0, 0, 0, 0, 0x10, 0, 24, 0, 0, 0, 1, 0, 0, 0, 0, 0, 0, 0,
      1, 0, 0, 0, 0, 0, 0, 0, 0, 0, 0x10, 0, 8, 0, 0, 0, 4, 0, 0, 0, 52, 0, 0, 0, 4, 0, 0, 0,
      0xDE, 0xAD, 0xBE, 0xEF]"

definition disk1 :: "nat \<Rightarrow> u8" where
  "disk1 n = (if n < 28 then [0x46, 0x47, 0x45, 0x4C, 1, 0, 0, 0,  0, 2, 0, 0, 56, 0, 0, 0, 0, 0, 0, 0, 4, 0, 1, 0,
     0x69, 0x6E, 0x69, 0x74] ! n else if n < 512 then 0 else if n < 568 then llf1 ! (n - 512) else 0)"

definition mem1 :: mem where
  "mem1 a = (if a \<ge> 0xC0800000 then disk1 (unat (a - 0xC0800000)) else mem heap0 a)"

definition pmm1 :: phys_mm_t where
  "pmm1 = \<lparr>ram_base = 0x48000000, ram_end = 0x48008000, total_pages = 8, bitmap = 0xC0700000, bitmap_words = 1,
     free_pages = 8, reserved_pages = 0, next_hint = 0\<rparr>"

definition kern1 :: "(nat \<Rightarrow> u8) kernel" where
  "kern1 = kern0\<lparr>k_mm := heap0\<lparr>mem := mem1, g_pmm := pmm1\<rparr>, k_dev := disk1\<rparr>"

lemma heap0_area: "in_heap heap0 x \<longleftrightarrow> 0xC0400000 \<le> x \<and> x < 0xC0600000"
  by (simp add: in_heap_def heap0_def kheap_init_def)

lemma kern1_area: "in_heap (k_mm kern1) x \<longleftrightarrow> 0xC0400000 \<le> x \<and> x < 0xC0600000"
  using heap0_area by (simp add: in_heap_def kern1_def)

lemma kern1_bitmap: "x < 2 ^ 32 \<Longrightarrow> in_bitmap (k_mm kern1) x \<longleftrightarrow> 0xC0700000 \<le> x \<and> x < 0xC0700004"
  by (simp add: in_bitmap_def bm_bytes_def kern1_def pmm1_def bm_of_def in_region_def unat_w32)

lemma kern1_heap: "heap_ok (k_mm kern1)" "live (k_mm kern1) = {}"
proof -
  have h: "heap_ok heap0" using heap0_rep by (auto simp: heap_ok_def)
  have g: "g_kheap (k_mm kern1) = g_kheap heap0" by (simp add: kern1_def)
  have b: "byte_at (k_mm kern1) x = byte_at heap0 x" if "x < 2 ^ 32" "in_heap heap0 x" for x
    using that by (simp add: byte_at_def kern1_def mem1_def heap0_area word_le_nat_alt unat_w32)
  note s = heap_same_bytes [OF h g b]
  show "heap_ok (k_mm kern1)" "live (k_mm kern1) = {}" using s live_rep [OF heap0_rep] by simp_all
qed

lemma kern1_gap: "n \<le> 0x200000 \<Longrightarrow> heap_gap (k_mm kern1) n"
  unfolding heap_gap_def kern1_heap(2) by (intro exI [of _ "0xC0400000"]) (simp add: kern1_def heap0_def kheap_init_def)

lemma kern1_free: "free_idx (k_mm kern1) = {..<8}"
proof -
  have "rd32 mem1 0xC0700000 = 0"
    by (simp add: rd32_def mem1_def heap0_def kheap_init_def set_next_def set_size_def set_magic_def wr32_def)
  then have z: "rd32 (mem (k_mm kern1)) (bitmap pmm1) = 0" by (simp add: kern1_def pmm1_def)
  have "\<not> bm_test (mem (k_mm kern1)) (bitmap pmm1) (w32 i)" if "i < 8" for i
  proof -
    have "w32 i div 32 = 0" using that by (simp add: word_unat_eq_iff unat_div unat_w32)
    then show ?thesis using z by (simp add: bm_test_def)
  qed
  moreover have "g_pmm (k_mm kern1) = pmm1" "unat (total_pages pmm1) = 8" by (simp_all add: kern1_def pmm1_def)
  ultimately have "i \<in> free_idx (k_mm kern1) \<longleftrightarrow> i < 8" for i unfolding free_idx_iff by metis
  then show ?thesis by blast
qed

lemma kern1_mm: "mm_ok (k_mm kern1)"
proof -
  have "pmm_geom pmm1" by (simp add: pmm_geom_def pmm1_def bm_of_def al4_def dvd_eq_mod_eq_0)
  then have "pmm_ok (k_mm kern1)"
    unfolding pmm_ok_def pmm_inv_def kern1_free by (simp add: kern1_def pmm1_def)
  then show ?thesis using kern1_heap(1) kern1_area kern1_bitmap by (simp add: mm_ok_def)
qed

lemma kern1_pages: "card (avail (k_mm kern1)) = 8"
  using kern1_mm card_avail [of "k_mm kern1"] by (simp add: mm_ok_def pmm_ok_def kern1_def pmm1_def)

lemma kern1_frames: "frames_ok (kpb plat0) (k_mm kern1) (avail (k_mm kern1))"
  unfolding frames_ok_def
proof
  fix x assume "x \<in> frames (kpb plat0) (avail (k_mm kern1))"
  then obtain pa va where x: "x = unat (frame_addr (kpb plat0) pa va)" and "pa \<in> avail (k_mm kern1)" unfolding frames_def by blast
  then have pa: "4096 dvd unat pa" "0x48000000 \<le> unat pa" "unat pa < 0x48008000"
    by (auto simp: avail_def managed_def pa_aligned_iff pa_in_range_def kern1_def pmm1_def word_le_nat_alt word_less_nat_alt)
  let ?y = "pa OR (va AND 0xFFF)"
  have "2 ^ 12 dvd unat pa" using pa(1) by simp
  then have "?y AND NOT (mask 12) = pa" by (rule page_part(1))
  then have "unat ?y div 4096 * 4096 = unat pa" using and_not_mask_unat [of ?y 12] by (simp add: minus_mod_eq_div_mult)
  then have y: "unat pa \<le> unat ?y" "unat ?y < unat pa + 4096" by linarith+
  then have "unat (?y - 0x40200000) = unat ?y - 0x40200000" using pa(2) by (simp add: unat_sub word_le_nat_alt)
  then have "unat (?y - 0x40200000 + 0xC0000000) = unat ?y - 0x40200000 + 0xC0000000"
    using y pa unat_add_no_wrap [of "?y - 0x40200000" "0xC0000000"] by simp
  then have "x = unat ?y - 0x40200000 + 0xC0000000" by (simp add: x phys_to_virt_def plat0_def)
  then have "0xC0700004 \<le> x" using y pa by linarith
  moreover have "x < 2 ^ 32" unfolding x by (rule unat_lt_32)
  ultimately show "\<not> in_heap (k_mm kern1) x \<and> \<not> in_bitmap (k_mm kern1) x" using kern1_area kern1_bitmap by auto
qed

section \<open>The image in memory\<close>

lemma kern1_copy: "off + n \<le> 0x1000 \<Longrightarrow> same_bytes n (kmem kern1) (0xC0800000 + w32 off) (image_of disk1 0) (w32 off)"
  unfolding same_bytes_def
proof (intro allI impI)
  fix i assume i: "off + n \<le> 0x1000" "i < n"
  have u: "unat (w32 (off + i)) = off + i" using i by (simp add: unat_w32 del: of_nat_add)
  then have "unat (0xC0800000 + w32 (off + i)) = 0xC0800000 + (off + i)"
    using unat_add_no_wrap [of "0xC0800000" "w32 (off + i)"] i by simp
  then have "0xC0800000 \<le> 0xC0800000 + w32 (off + i)" unfolding word_le_nat_alt by simp
  then have "mem1 (0xC0800000 + w32 (off + i)) = disk1 (off + i)" using u by (simp add: mem1_def del: of_nat_add)
  then show "kmem kern1 (0xC0800000 + w32 off + w32 i) = image_of disk1 0 (w32 off + w32 i)"
    using u by (simp add: kern1_def image_of_def add.assoc)
qed

lemma kern1_stable: "off + n \<le> 0x1000 \<Longrightarrow> stable (k_mm kern1) (0xC0800000 + w32 off) n"
  unfolding stable_def Let_def
proof (intro allI impI)
  fix i assume i: "off + n \<le> 0x1000" "i < n"
  have u: "unat (0xC0800000 + w32 (off + i)) = 0xC0800000 + (off + i)"
    using unat_add_no_wrap [of "0xC0800000" "w32 (off + i)"] i by (simp add: unat_w32 del: of_nat_add)
  have e: "0xC0800000 + w32 off + w32 i = 0xC0800000 + w32 (off + i)" by simp
  have "unat (0xC0800000 + w32 off + w32 i) = 0xC0800000 + (off + i)" by (simp only: e u)
  then show "unat (0xC0800000 + w32 off + w32 i) \<in> bytes_of (live (k_mm kern1)) \<or>
      \<not> in_heap (k_mm kern1) (unat (0xC0800000 + w32 off + w32 i)) \<and> \<not> in_bitmap (k_mm kern1) (unat (0xC0800000 + w32 off + w32 i))"
    using kern1_area kern1_bitmap unat_lt_32 [of "0xC0800000 + w32 off + w32 i"] i by simp
qed

lemma image1: "rd32 (image_of disk1 0) 4 = 1"
    "image_blob (image_of disk1 0) 0 = \<lparr>blob_offset = 512, blob_size = 56, name_offset = 0, name_size = 4, blob_flags = 1\<rparr>"
    "names_extent (image_of disk1 0) 8 1 = 4"
proof -
  show "rd32 (image_of disk1 0) 4 = 1" by (simp add: rd32_def image_of_def disk1_def)
  show b: "image_blob (image_of disk1 0) 0 = \<lparr>blob_offset = 512, blob_size = 56, name_offset = 0, name_size = 4, blob_flags = 1\<rparr>"
    by (simp add: blob_at_def rd32_def rd16_def image_of_def disk1_def)
  show "names_extent (image_of disk1 0) 8 1 = 4" using b by (simp add: names_extent_def)
qed

lemma image1_names: "names_ok (image_of disk1 0) 1" "image_name (image_of disk1 0) 1 0 = [0x69, 0x6E, 0x69, 0x74]"
proof -
  show "names_ok (image_of disk1 0) 1" using image1(2) by (simp add: names_ok_def)
  have "[0..<4] = [0, 1, 2, 3 :: nat]" by (simp add: upt_rec)
  then show "image_name (image_of disk1 0) 1 0 = [0x69, 0x6E, 0x69, 0x74]"
    using image1(2) by (simp add: image_name_def) (simp add: image_of_def disk1_def)
qed

lemma blob1: "blob_at (image_of disk1 0) 8 = \<lparr>blob_offset = 512, blob_size = 56, name_offset = 0, name_size = 4, blob_flags = 1\<rparr>"
  using image1(2) by simp

lemma kern1_fs: "k_fs kern1 = \<lparr>g_start_sector = 0, g_blob_count = 1, g_blobs = 0xC0800008, g_names = 0xC0800018\<rparr>"
  by (simp add: kern1_def kern0_def)

lemma kern1_view: "fs_view kern1 (image_of disk1 0) 0xC0800018 [0x69, 0x6E, 0x69, 0x74]"
proof -
  have "mounted kern1 (image_of disk1 0)"
    using kern1_copy [of 8 16] kern1_copy [of 24 4] by (simp add: mounted_def descs_in_def kern1_fs image1)
  moreover have "cstr_at (kmem kern1) 0xC0800018 [0x69, 0x6E, 0x69, 0x74]"
    by (simp add: kern1_def mem1_def disk1_def)
  moreover have "Suc (length [0x69, 0x6E, 0x69, 0x74 :: u8]) = 5" by simp
  then have "stable (k_mm kern1) 0xC0800018 (Suc (length [0x69, 0x6E, 0x69, 0x74 :: u8]))"
    using kern1_stable [of 24 5] by (simp only:) simp
  moreover have "length [0x69, 0x6E, 0x69, 0x74 :: u8] < 2 ^ 32" by simp
  ultimately show ?thesis
    using kern1_stable [of 8 16] kern1_stable [of 24 4] image1_names(1)
    unfolding fs_view_def Let_def kern1_fs by (simp add: image1 del: list.size)
qed

lemma header1: "llf_header (image_of disk1 0) 512 =
    \<lparr>llf_magic = LLF_MAGIC, llf_version = 1, llf_entry = 0x00100000, ph_off = 24, ph_count = 1, llf_flags = 0\<rparr>"
  by (simp add: llf_header_def rd32_def image_of_def disk1_def llf1_def)

lemma segment1: "segment_at (image_of disk1 0) 512 0 =
    \<lparr>ph_type = LLF_SEG_LOAD, ph_flags = 0, ph_vaddr = 0x00100000, ph_memsz = 8, ph_filesz = 4, ph_offset = 52, ph_align = 4\<rparr>"
  unfolding segment_at_def header1 by (simp add: llf_phdr_def rd32_def image_of_def disk1_def llf1_def segment_type_def)

lemma sound1: "blob_sound image_limit (image_of disk1 0) 0 0"
  using segment1 by (simp add: blob_sound_def blob1 header1 image_ok_def segment_ok_def Let_def dvd_eq_mod_eq_0)

lemma executable1: "executable (image_of disk1 0) 1 [0x69, 0x6E, 0x69, 0x74] = Some 0"
  using image1_names(2) by (simp add: executable_def named_blob_def blob1)

text \<open>The user address \<open>0x00100003\<close> of the process holds the fourth byte of the segment.\<close>

lemma image1_byte: "image_map (image_of disk1 0) 512 0x00100003 = Some 0xEF"
  using segment1 by (simp add: image_map_def image_from_def header1 load_segment_def patch_def in_region_def seg_data_def)
    (simp add: image_of_def disk1_def llf1_def)

text \<open>Its pages: the one with the segment.\<close>

lemma keys1: "image_keys (image_of disk1 0) 512 = {key 0x00100000}"
proof -
  have "covers 0x00100000 8 = {key (0x00100000 :: u32)}"
  proof (intro subset_antisym subsetI)
    fix x :: "u32 \<times> u32" assume "x \<in> covers 0x00100000 8"
    then obtain a :: u32 where a: "x = key a" "256 \<le> unat a div 4096" "unat a div 4096 * 4096 < 0x00100008"
      by (auto simp: covers_def)
    have "unat a div 4096 = 256" using a(2,3) by linarith
    then have "key a = key (0x00100000 :: u32)" by (intro same_key) simp
    then show "x \<in> {key 0x00100000}" by (simp only: a(1) singleton_iff)
  next
    fix x :: "u32 \<times> u32" assume x: "x \<in> {key 0x00100000}"
    show "x \<in> covers 0x00100000 8"
      unfolding covers_def mem_Collect_eq by (intro exI [of _ "0x00100000"] conjI) (use x in \<open>simp_all only: singleton_iff\<close>, simp_all)
  qed
  then show ?thesis using segment1 by (simp add: image_keys_def header1 Let_def)
qed

theorem process_create_correct_witness:
  "\<exists>p k'. process_create plat0 0xC0800018 kern1 = done_with p k' \<and> p \<noteq> 0 \<and> p_entry (kproc k' p) = 0x00100000 \<and>
     user_mem (kpb plat0) (kmem k') (pgd (kproc k' p)) 0x00100003 = Some 0xEF \<and>
     dom (mapping (kpb plat0) (kmem k') (pgd (kproc k' p))) = insert (key 0x00100000) (stack_key ` {..<4})"
proof -
  have base: "KERNEL_VA \<le> kh_base (g_kheap (k_mm kern1))" by (simp add: kern1_def heap0_def kheap_init_def)
  have kp: "2 ^ 10 dvd unat (kpb plat0)" by (simp add: plat0_def dvd_eq_mod_eq_0)
  have bi: "blk_inv (k_blk kern1)" using kern0_ready by (simp add: fs_ready_def kern1_def)
  have fs: "g_blobs (k_fs kern1) \<noteq> 0" "unat (g_blobs (k_fs kern1)) + 16 * unat (g_blob_count (k_fs kern1)) \<le> 2 ^ 32"
    "image_of disk1 0 = image_of (k_dev kern1) (g_start_sector (k_fs kern1))" by (simp_all add: kern1_fs) (simp add: kern1_def)
  have exe: "executable (image_of disk1 0) (g_blob_count (k_fs kern1)) [0x69, 0x6E, 0x69, 0x74] = Some 0"
    by (simp add: kern1_fs executable1)
  have ex: "\<forall>i. executable (image_of disk1 0) (g_blob_count (k_fs kern1)) [0x69, 0x6E, 0x69, 0x74] = Some i \<longrightarrow>
      blob_sound image_limit (image_of disk1 0) (g_start_sector (k_fs kern1)) i"
    by (simp add: exe) (simp add: kern1_fs sound1)
  have "blob_served (ram_serves 2048) (k_dev kern1) (g_start_sector (k_fs kern1)) (image_blob (image_of disk1 0) 0)"
    by (simp add: blob_served_def ram_serves_def kern1_fs blob1 align_up_def unsigned_ucast_eq)
  then have enough: "let b = image_blob (image_of disk1 0) 0
      in llf_magic (llf_header (image_of disk1 0) (blob_offset b)) = LLF_MAGIC \<and>
         blob_served (ram_serves 2048) (k_dev kern1) (g_start_sector (k_fs kern1)) b \<and>
         card (image_keys (image_of disk1 0) (blob_offset b)) + 4 \<le> card (avail (k_mm kern1)) \<and>
         heap_gap (k_mm kern1) (unat (blob_size b) + 85574)"
    using kern1_gap [of 85630] by (simp add: Let_def blob1 header1 keys1 kern1_pages)
  obtain r k' where r: "process_create plat0 0xC0800018 kern1 = done_with r k'" "r \<noteq> 0"
    "created plat0 (image_of disk1 0) (blob_offset (image_blob (image_of disk1 0) 0)) kern1 r k'"
    using process_create_correct [where disk = "\<lambda>d. d", OF kern1_mm base kp kern1_frames bi plat0_device kern1_view fs ex] exe enough
    by (auto split: if_splits)
  have "created plat0 (image_of disk1 0) 512 kern1 r k'" using r(3) by (simp add: blob1)
  then show ?thesis
    using r(1,2) image1_byte keys1 by (intro exI [of _ r] exI [of _ k']) (auto simp: created_def Let_def header1 map_le_def dom_def)
qed

end
