(* ===== verification/Leg_Exit.thy ===== *)
theory Leg_Exit
  imports Leg_Create_Demo Leg_Scheduler_Props
begin

text \<open>
  The end of a process (\<^verbatim>\<open>process_exit\<close>): its memory goes back, the processes that join it are woken with its exit code,
  and the next runnable process takes over; and the whole life of a process, from \<^verbatim>\<open>process_create\<close> over
  \<^verbatim>\<open>process_exec\<close> to its exit.
\<close>

text \<open>The process at \<open>p\<close> owns its address space and its struct.\<close>

definition owns :: "'d platform \<Rightarrow> 'd kernel \<Rightarrow> u32 \<Rightarrow> block_id \<Rightarrow> (u32 \<Rightarrow> block_id) \<Rightarrow> block_id \<Rightarrow> bool" where
  "owns P k p b B bp \<longleftrightarrow> space_ok (kpb P) (k_mm k) (pgd (kproc k p)) b B \<and> holds (k_mm k) p 376 bp \<and>
     bp \<notin> blocks_of (kpb P) (k_mm k) (pgd (kproc k p)) b B"

lemma sched_get_current:
  assumes inv: "sched_inv s"
  shows "sched_get (pid (pobj s (current_proc s))) s = current_proc s"
proof -
  let ?i = "pid (pobj s (current_proc s))"
  have cur: "current_proc s \<in> table s" using inv by (simp add: sched_inv_def)
  then have "\<exists>p \<in> set (procs s). has_pid s ?i p" by (auto simp: has_pid_def table_def)
  then obtain k where k: "first_idx (has_pid s ?i) (procs s) = Some k"
    using first_idx_None [of "has_pid s ?i" "procs s"] by (cases "first_idx (has_pid s ?i) (procs s)") auto
  then have h: "k < length (procs s)" "has_pid s ?i (procs s ! k)" by (auto simp: first_idx_Some)
  then have "procs s ! k \<in> table s" by (auto simp: has_pid_def table_def)
  then have "procs s ! k = current_proc s" using h(2) cur inv by (auto simp: has_pid_def sched_inv_def inj_on_def)
  then show ?thesis using k by (simp add: sched_get_def)
qed

text \<open>The scheduler's part: the table without the process, with the joining ones woken.\<close>

lemma exit_sched:
  assumes inv: "sched_inv s" and i: "i = pid (pobj s (current_proc s))" and t_def: "t = sched_wake_joiners i code (snd (sched_remove i s))"
  shows "table t = table s - {current_proc s}" "p \<in> table t \<Longrightarrow> pobj t p = joined i code (pobj s p)" "length (procs t) = 8"
    "sched_pick_next t = 0 \<longleftrightarrow> (\<forall>p \<in> table t. suspended (pobj t p) \<noteq> 0)"
    "sched_pick_next t \<noteq> 0 \<Longrightarrow> sched_inv (context_switch (sched_pick_next t) t) \<and> sched_pick_next t \<in> table t \<and>
       suspended (pobj t (sched_pick_next t)) = 0"
proof -
  define s1 where "s1 = snd (sched_remove i s)"
  have i0: "i \<noteq> 0" using inv i by (auto simp: sched_inv_def)
  note r = sched_remove_current [OF inv i, folded s1_def]
  note w = wake_joiners_simps [OF i0, of code s1, folded s1_def, folded t_def [folded s1_def]]
  have tab: "table t = table s1" using w(1) by (rule table_cong)
  then show "table t = table s - {current_proc s}" using r(1) by simp
  show "pobj t p = joined i code (pobj s p)" if "p \<in> table t"
  proof -
    have "p \<in> table s1" using that tab by simp
    then have "p \<noteq> 0 \<and> p \<in> set (procs s1)" by (simp add: table_def)
    then show ?thesis by (simp add: w(3) r(2))
  qed
  show len: "length (procs t) = 8" using w(1) r(3) by simp
  have c: "current_proc t \<noteq> 0"
  proof -
    have "current_proc t = current_proc s" using w(2) by (simp add: s1_def sched_remove_def split: option.split)
    then show ?thesis using inv by (auto simp: sched_inv_def table_def)
  qed
  have run: "(\<forall>p \<in> set (procs t). \<not> runnable t p) \<longleftrightarrow> (\<forall>p \<in> table t. suspended (pobj t p) \<noteq> 0)" by (auto simp: runnable_def table_def)
  show "sched_pick_next t = 0 \<longleftrightarrow> (\<forall>p \<in> table t. suspended (pobj t p) \<noteq> 0)"
  proof (rule sched_pick_next_cases [OF len c])
    assume "sched_pick_next t = 0" "\<forall>p \<in> set (procs t). \<not> runnable t p"
    then show ?thesis using run by simp
  next
    fix n j
    assume f: "sched_pick_next t = slot t n j" "runnable t (slot t n j)"
    then have "sched_pick_next t \<noteq> 0" by (simp add: runnable_def)
    moreover have "sched_pick_next t \<in> set (procs t)" using sched_pick_next_table(1) [OF len calculation] by (simp add: table_def)
    ultimately show ?thesis using f run by metis
  qed
  show "sched_inv (context_switch (sched_pick_next t) t) \<and> sched_pick_next t \<in> table t \<and> suspended (pobj t (sched_pick_next t)) = 0"
    if "sched_pick_next t \<noteq> 0"
    using exit_inv [OF inv i s1_def _ that] sched_pick_next_table [OF len that] by (simp add: t_def s1_def runnable_def)
qed

lemma process_exit_steps:
  assumes inv: "sched_inv (k_sched k)" and i: "i = pid (kproc k (current_proc (k_sched k)))"
    and own: "owns P k (current_proc (k_sched k)) b B bp"
  shows "let p = current_proc (k_sched k); t = sched_wake_joiners i code (snd (sched_remove i (k_sched k))) in
    \<exists>s'. process_exit P i code k =
      (if sched_pick_next t = 0 then done_with Powered_off (k\<lparr>k_mm := s', k_sched := t\<rparr>)
       else done_with Switched (switch_to P (sched_pick_next t) (k\<lparr>k_mm := s', k_sched := t\<rparr>))) \<and>
      live s' = live (k_mm k) - blocks_of (kpb P) (k_mm k) (pgd (kproc k p)) b B - {bp} \<and>
      avail s' = avail (k_mm k) \<union> pages_of (kpb P) (k_mm k) (pgd (kproc k p)) \<and> mm_keep (live s') (k_mm k) s'"
proof -
  let ?p = "current_proc (k_sched k)" and ?s = "snd (sched_remove i (k_sched k))"
  let ?k = "k\<lparr>k_sched := ?s\<rparr>"
  have p: "?p \<noteq> 0" using inv by (auto simp: sched_inv_def table_def)
  have get: "sched_get i (k_sched k) = ?p" using sched_get_current [OF inv] i by (simp add: kproc_def)
  have same: "kproc ?k ?p = kproc k ?p" using sched_remove_current(2) [OF inv] i by (simp add: kproc_def)
  have o: "space_ok (kpb P) (k_mm ?k) (pgd (kproc ?k ?p)) b B" "holds (k_mm ?k) ?p 376 bp"
    "bp \<notin> blocks_of (kpb P) (k_mm ?k) (pgd (kproc ?k ?p)) b B" using own unfolding owns_def same by simp_all
  obtain s' where s': "process_free P ?p ?k = Some (Returns (?k\<lparr>k_mm := s'\<rparr>))"
    "live s' = live (k_mm k) - blocks_of (kpb P) (k_mm k) (pgd (kproc k ?p)) b B - {bp}"
    "avail s' = avail (k_mm k) \<union> pages_of (kpb P) (k_mm k) (pgd (kproc k ?p))" "mm_keep (live s') (k_mm k) s'"
    using process_free_step [OF o(1,2) _ o(3)] unfolding same by auto
  let ?t = "sched_wake_joiners i code ?s"
  have "process_exit P i code k =
      (if sched_pick_next ?t = 0 then done_with Powered_off (k\<lparr>k_mm := s', k_sched := ?t\<rparr>)
       else done_with Switched (switch_to P (sched_pick_next ?t) (k\<lparr>k_mm := s', k_sched := ?t\<rparr>)))"
    using p get s'(1) by (simp add: process_exit_def Let_def)
  then show ?thesis unfolding Let_def using s'(2,3,4) by (intro exI [of _ s'] conjI)
qed

text \<open>C4: When the current process exits, its exit ends without a panic: exactly its own heap blocks and its own pages
  become free, everything else in the heap keeps its bytes; it leaves the table; the processes that join it go on with
  its exit code as result and all others stay as they are; and, if one of the remaining processes can run, one that can
  takes over, in its own address space, otherwise the machine is switched off.\<close>

theorem process_exit_correct:
  assumes inv: "sched_inv (k_sched k)" and i: "i = pid (kproc k (current_proc (k_sched k)))"
    and own: "owns P k (current_proc (k_sched k)) b B bp"
  shows "let p = current_proc (k_sched k) in
    \<exists>e k'. process_exit P i code k = done_with e k' \<and>
      live (k_mm k') = live (k_mm k) - blocks_of (kpb P) (k_mm k) (pgd (kproc k p)) b B - {bp} \<and>
      avail (k_mm k') = avail (k_mm k) \<union> pages_of (kpb P) (k_mm k) (pgd (kproc k p)) \<and> mm_keep (live (k_mm k')) (k_mm k) (k_mm k') \<and>
      table (k_sched k') = table (k_sched k) - {p} \<and> (\<forall>q \<in> table (k_sched k'). kproc k' q = joined i code (kproc k q)) \<and>
      (if \<exists>q \<in> table (k_sched k'). suspended (kproc k' q) = 0
       then e = Switched \<and> sched_inv (k_sched k') \<and> suspended (kproc k' (current_proc (k_sched k'))) = 0 \<and>
         ttbr0 k' = virt_to_phys (kpb P) (pgd (kproc k' (current_proc (k_sched k'))))
       else e = Powered_off)"
proof -
  let ?p = "current_proc (k_sched k)"
  define t where "t = sched_wake_joiners i code (snd (sched_remove i (k_sched k)))"
  have i': "i = pid (pobj (k_sched k) ?p)" using i by (simp add: kproc_def)
  note x = exit_sched [OF inv i' t_def]
  obtain s' where s': "process_exit P i code k =
      (if sched_pick_next t = 0 then done_with Powered_off (k\<lparr>k_mm := s', k_sched := t\<rparr>)
       else done_with Switched (switch_to P (sched_pick_next t) (k\<lparr>k_mm := s', k_sched := t\<rparr>)))"
    "live s' = live (k_mm k) - blocks_of (kpb P) (k_mm k) (pgd (kproc k ?p)) b B - {bp}"
    "avail s' = avail (k_mm k) \<union> pages_of (kpb P) (k_mm k) (pgd (kproc k ?p))" "mm_keep (live s') (k_mm k) s'"
    using process_exit_steps [OF assms, of code] unfolding Let_def t_def by blast
  define k1 where "k1 = k\<lparr>k_mm := s', k_sched := t\<rparr>"
  show ?thesis
  proof (cases "sched_pick_next t = 0")
    case True
    then have "\<forall>q \<in> table t. suspended (pobj t q) \<noteq> 0" using x(4) by simp
    moreover have "process_exit P i code k = done_with Powered_off k1" using s'(1) True by (simp add: k1_def)
    ultimately show ?thesis
      unfolding Let_def using s'(2,3,4) x(1,2) by (intro exI [of _ Powered_off] exI [of _ k1]) (auto simp: k1_def kproc_def)
  next
    case False
    let ?k' = "switch_to P (sched_pick_next t) k1"
    have k': "k_mm ?k' = s'" "k_sched ?k' = context_switch (sched_pick_next t) t" "kproc ?k' q = pobj t q"
      "ttbr0 ?k' = virt_to_phys (kpb P) (pgd (pobj t (sched_pick_next t)))" "table (context_switch r t) = table t"
      "current_proc (context_switch r t) = r" for q r
      by (simp_all add: switch_to_def mmu_set_proc_table_def kproc_def k1_def context_switch_def table_def)
    have "process_exit P i code k = done_with Switched ?k'" using s'(1) False by (simp add: k1_def)
    then show ?thesis
      unfolding Let_def using s'(2,3,4) x(1,2) x(5) [OF False] by (intro exI [of _ Switched] exI [of _ ?k']) (auto simp: k' kproc_def [of k])
  qed
qed

text \<open>
  For the example: the heap of \<open>kern1\<close>, from which a struct and an empty first-level table are taken.
\<close>

lemma kern1_rep: "heap_rep (k_mm kern1) [(0xC0400000, 0x1FFFF4, False)]"
proof -
  have "hdrs mem1 [(0xC0400000, 0x1FFFF4, False)] 0 \<longleftrightarrow> hdrs (mem heap0) [(0xC0400000, 0x1FFFF4, False)] 0"
  proof (rule hdrs_bytes)
    fix b l v and i :: nat assume b: "(b, l, v) \<in> set [(0xC0400000 :: nat, 0x1FFFF4 :: nat, False)]" "i < 12"
    have "b + i < 2 ^ 32" using b by auto
    then have "unat (w32 (b + i)) = b + i" by (rule unat_w32)
    then have "\<not> 0xC0800000 \<le> w32 (b + i)" using b by (simp add: word_le_nat_alt del: of_nat_add)
    then show "mem1 (w32 (b + i)) = mem heap0 (w32 (b + i))" by (simp add: mem1_def)
  qed
  then show ?thesis using heap0_rep by (simp add: heap_rep_def heap_pre_def Let_def kern1_def)
qed

lemma kern1_struct: "\<exists>s. kmalloc_aligned PROC_SIZE 0x4000 (k_mm kern1) = Some (Returns (0xC0404000, s)) \<and>
    heap_rep s [(0xC0400000, 16768, True), (0xC040418C, 0x1FBE68, False)]"
proof -
  have "\<exists>s1. kmalloc 16768 (k_mm kern1) = Some (Returns (0xC040000C, s1)) \<and>
      heap_rep s1 [(0xC0400000, 16768, True), (0xC040418C, 0x1FBE68, False)]"
    using kmalloc_refines [OF kern1_rep, of 16768] by (auto simp: take_block_def round8_def)
  then obtain s1 where s1: "kmalloc 16768 (k_mm kern1) = Some (Returns (0xC040000C, s1))"
    "heap_rep s1 [(0xC0400000, 16768, True), (0xC040418C, 0x1FBE68, False)]" by blast
  let ?m = "wr32 (wr32 (mem s1) 0xC0403FF8 0xC040000C) 0xC0403FFC ALIGN_TAG"
  have "heap_rep (s1\<lparr>mem := ?m\<rparr>) [(0xC0400000, 16768, True), (0xC040418C, 0x1FBE68, False)]"
  proof (rule payload_write_rep [OF s1(2), of "0xC0400000" 16768])
    fix x :: nat assume x: "x < 2 ^ 32" "x < 0xC0400000 + 12 \<or> 0xC0400000 + 12 + 16768 \<le> x"
    have "w32 x \<noteq> 0xC0403FF8 + w32 i" if "i < 8" for i
    proof
      assume e: "w32 x = 0xC0403FF8 + w32 i"
      have "unat (w32 x) = x" using x(1) by (rule unat_w32)
      moreover have "unat (0xC0403FF8 + w32 i) = 0xC0403FF8 + i"
        using that unat_add_no_wrap [of "0xC0403FF8" "w32 i"] by (simp add: unat_w32)
      ultimately have "x = 0xC0403FF8 + i" using e by (simp only:)
      then show False using x(2) that by simp
    qed
    from this [of 0] this [of 1] this [of 2] this [of 3] this [of 4] this [of 5] this [of 6] this [of 7]
    show "?m (w32 x) = mem s1 (w32 x)" by (simp add: wr32_def)
  qed simp
  moreover have "kmalloc_aligned PROC_SIZE 0x4000 (k_mm kern1) = Some (Returns (0xC0404000, s1\<lparr>mem := ?m\<rparr>))"
    using kmalloc_aligned_unfold [of PROC_SIZE 14 "k_mm kern1"] s1(1) by (simp add: align_up_def Let_def)
  ultimately show ?thesis by blast
qed

lemma kern1_table:
  assumes "heap_rep s [(0xC0400000, 16768, True), (0xC040418C, 0x1FBE68, False)]"
  shows "mmu_alloc_proc_table s \<noteq> Some (Returns (0, t))"
proof -
  have "\<exists>s1. kmalloc 264 s = Some (Returns (0xC0404198, s1))"
    using kmalloc_refines [OF assms, of 264] by (auto simp: take_block_def round8_def)
  then obtain s1 where "kmalloc 264 s = Some (Returns (0xC0404198, s1))" by blast
  then have "\<exists>s2. kmalloc_aligned 128 128 s = Some (Returns (0xC0404200, s2))"
    using kmalloc_aligned_unfold [of 128 7 s] by (simp add: align_up_def Let_def)
  then show ?thesis by (auto simp: mmu_alloc_proc_table_def)
qed

theorem process_exit_correct_witness:
  "\<exists>k. table (k_sched k) = {0xC0404000} \<and> live (k_mm k) \<noteq> {} \<and>
     (\<exists>k'. process_exit plat0 1 0 k = done_with Powered_off k' \<and> live (k_mm k') = {} \<and> table (k_sched k') = {})"
proof -
  let ?s0 = "k_mm kern1"
  have live0: "live ?s0 = {}" using live_rep [OF kern1_rep] by simp
  obtain s where s: "kmalloc_aligned PROC_SIZE 0x4000 ?s0 = Some (Returns (0xC0404000, s))"
    "heap_rep s [(0xC0400000, 16768, True), (0xC040418C, 0x1FBE68, False)]" using kern1_struct by blast
  obtain bp where st: "bp \<notin> live ?s0" "live s = insert bp (live ?s0)" "holds s 0xC0404000 376 bp" "mm_keep (live ?s0) ?s0 s"
    using kern1_mm s(1) by (cases rule: struct_client) auto
  have mm: "mm_ok s" "KERNEL_VA \<le> kh_base (g_kheap s)" "2 ^ 10 dvd unat (kpb plat0)"
    using mm_keepD(1,3) [OF st(4)] by (simp_all add: same_areas_def kern1_def heap0_def kheap_init_def plat0_def dvd_eq_mod_eq_0)
  obtain tt b s2 where t: "tt \<noteq> 0" "b \<notin> live s" "live s2 = insert b (live s)" "mm_keep (live s) s s2"
    "\<forall>B. space_ok (kpb plat0) s2 tt b B \<and> blocks_of (kpb plat0) s2 tt b B = {b}"
    using mm kern1_table [OF s(2), of s] by (cases rule: proc_table_client) auto
  have bp: "bp \<in> live s" using st(2) by blast
  have h: "holds s2 0xC0404000 376 bp" by (rule holds_keep [OF mm(1) st(3) t(4) bp])
  define x where "x = (demo_proc 1)\<lparr>pgd := tt\<rparr>"
  define k where "k = kern1\<lparr>k_mm := s2, k_sched := \<lparr>procs = [0xC0404000, 0, 0, 0, 0, 0, 0, 0], current_proc = 0xC0404000, pobj = (\<lambda>_. x)\<rparr>\<rparr>"
  have k: "k_mm k = s2" "kproc k q = x" "pgd x = tt" "pid x = 1" "current_proc (k_sched k) = 0xC0404000" "table (k_sched k) = {0xC0404000}" for q
    by (auto simp: k_def kproc_def x_def table_def)
  have "once (procs (k_sched k))"
  proof -
    have "procs (k_sched k) = (replicate 8 0)[0 := 0xC0404000]" by (simp add: k_def numeral_eq_Suc)
    moreover have "once ((replicate 8 0)[0 := 0xC0404000 :: u32])" by (intro once_update) (auto simp: once_def)
    ultimately show ?thesis by simp
  qed
  moreover have "length (procs (k_sched k)) = 8" by (simp add: k_def)
  ultimately have inv: "sched_inv (k_sched k)" using k by (simp add: sched_inv_def kproc_def)
  have i: "1 = pid (kproc k (current_proc (k_sched k)))" using k by simp
  have "bp \<noteq> b" using t(2) bp by blast
  then have own: "owns plat0 k (current_proc (k_sched k)) b (\<lambda>_. b) bp" using k t(5) h by (simp add: owns_def)
  have "live s2 - {b} - {bp} = {}" using t(3) st(2) live0 by auto
  then have "\<exists>k'. process_exit plat0 1 0 k = done_with Powered_off k' \<and> live (k_mm k') = {} \<and> table (k_sched k') = {}"
    using process_exit_correct [OF inv i own, of 0] k t(5) by (auto simp: Let_def)
  moreover have "live (k_mm k) \<noteq> {}" using k(1) t(3) by simp
  ultimately show ?thesis using k(6) by blast
qed

section \<open>The life of a process\<close>

text \<open>
  What \<^verbatim>\<open>process_create\<close> built is what the process owns; \<^verbatim>\<open>process_exec\<close> makes it current; its exit gives back all of it.
\<close>

lemma created_owns:
  assumes "created P img off k p k'"
  obtains b B bp where "owns P k' p b B bp" "live (k_mm k') - blocks_of (kpb P) (k_mm k') (pgd (kproc k' p)) b B - {bp} = live (k_mm k)"
    "avail (k_mm k') \<union> pages_of (kpb P) (k_mm k') (pgd (kproc k' p)) = avail (k_mm k)"
proof -
  obtain b B bp where o: "space_ok (kpb P) (k_mm k') (pgd (kproc k' p)) b B" "holds (k_mm k') p 376 bp"
    "bp \<notin> blocks_of (kpb P) (k_mm k') (pgd (kproc k' p)) b B"
    "live (k_mm k') - blocks_of (kpb P) (k_mm k') (pgd (kproc k' p)) b B = insert bp (live (k_mm k))" "bp \<notin> live (k_mm k)"
    "avail (k_mm k') \<union> pages_of (kpb P) (k_mm k') (pgd (kproc k' p)) = avail (k_mm k)"
    using assms unfolding created_def Let_def by blast
  show ?thesis by (rule that [of b B bp]) (use o in \<open>auto simp: owns_def\<close>)
qed

lemma process_exec_owns:
  assumes "owns P k p b B bp"
  shows "owns P (process_exec P p k) p b B bp" "k_mm (process_exec P p k) = k_mm k" "pgd (kproc (process_exec P p k) p) = pgd (kproc k p)"
    "current_proc (k_sched (process_exec P p k)) = p"
proof -
  show k: "k_mm (process_exec P p k) = k_mm k" "pgd (kproc (process_exec P p k) p) = pgd (kproc k p)"
    "current_proc (k_sched (process_exec P p k)) = p"
    by (auto simp: process_exec_def mmu_set_proc_table_def kproc_def sched_add_def upd_proc_def Let_def split: option.split)
  show "owns P (process_exec P p k) p b B bp" using assms unfolding owns_def k .
qed

text \<open>A process leaves nothing behind: when a process that \<open>process_create\<close> has returned is started and exits, the
  live heap blocks and the available pages are again exactly those from before its creation.\<close>

lemma process_life_leaks_nothing:
  assumes c: "created P img off k p k'" and inv: "sched_inv (k_sched (process_exec P p k'))"
  shows "\<exists>e k''. process_exit P (svc_getpid (k_sched (process_exec P p k'))) code (process_exec P p k') = done_with e k'' \<and>
    live (k_mm k'') = live (k_mm k) \<and> avail (k_mm k'') = avail (k_mm k)"
proof -
  obtain b B bp where o: "owns P k' p b B bp" "live (k_mm k') - blocks_of (kpb P) (k_mm k') (pgd (kproc k' p)) b B - {bp} = live (k_mm k)"
    "avail (k_mm k') \<union> pages_of (kpb P) (k_mm k') (pgd (kproc k' p)) = avail (k_mm k)" by (rule created_owns [OF c])
  note e = process_exec_owns [OF o(1)]
  let ?k = "process_exec P p k'"
  have i: "svc_getpid (k_sched ?k) = pid (kproc ?k (current_proc (k_sched ?k)))" by (simp add: svc_getpid_def kproc_def)
  have own: "owns P ?k (current_proc (k_sched ?k)) b B bp" using e(1) unfolding e(4) .
  from process_exit_steps [OF inv i own, of code] show ?thesis
    unfolding Let_def e using o(2,3) by (auto simp: switch_to_def mmu_set_proc_table_def)
qed

end
