(* ===== verification/Leg_Fwcfg.thy ===== *)
theory Leg_Fwcfg
  imports Leg_Fb Leg_Mmu Leg_Cstring Leg_Pmm
begin

text \<open>
  The firmware configuration device (\<^verbatim>\<open>src/kernel/dev/fwcfg.c\<close>) and the setup of the framebuffer that goes through it
  (\<^verbatim>\<open>fb_init\<close> in \<^verbatim>\<open>src/kernel/dev/fb.c\<close>). The device is an argument: what it does when its selector is written, when
  its data register is read, and when a DMA command is posted. Local variables that no callee sees are values; a buffer
  that is passed on has its address in \<open>fw_syms\<close>.
\<close>

section \<open>The device\<close>

record 'f fw_device =
  fw_select :: "u16 \<Rightarrow> 'f \<Rightarrow> 'f"
  fw_data :: "'f \<Rightarrow> u8 \<times> 'f"
  fw_dma :: "u32 \<Rightarrow> u32 \<Rightarrow> 'f \<times> mem \<Rightarrow> 'f \<times> mem"

record fw_syms =
  dma_cmd_at :: u32
  fname_at :: u32
  ramfb_cfg_at :: u32

abbreviation (input) FWCFG_SIG_SEL :: u16 where "FWCFG_SIG_SEL \<equiv> 0"
abbreviation (input) FWCFG_DIR_SEL :: u16 where "FWCFG_DIR_SEL \<equiv> 0x19"
abbreviation (input) FWCFG_DMA_SELECT :: u32 where "FWCFG_DMA_SELECT \<equiv> 8"
abbreviation (input) FWCFG_DMA_WRITE :: u32 where "FWCFG_DMA_WRITE \<equiv> 16"

definition fwcfg_select :: "'f fw_device \<Rightarrow> u16 \<Rightarrow> 'f \<Rightarrow> 'f" where
  "fwcfg_select D sel d = fw_select D (bswap16 sel) d"

text \<open>The bytes that the loop stores one after the other.\<close>

fun fwcfg_read :: "'f fw_device \<Rightarrow> nat \<Rightarrow> 'f \<Rightarrow> u8 list \<times> 'f" where
  "fwcfg_read D 0 d = ([], d)"
| "fwcfg_read D (Suc n) d = (let (b, d) = fw_data D d; (bs, d) = fwcfg_read D n d in (b # bs, d))"

text \<open>A variable of two or four bytes that was read into.\<close>

definition le16 :: "u8 list \<Rightarrow> u16" where
  "le16 bs = ucast (bs ! 0) OR push_bit 8 (ucast (bs ! 1))"

definition le32 :: "u8 list \<Rightarrow> u32" where
  "le32 bs = ucast (bs ! 0) OR push_bit 8 (ucast (bs ! 1)) OR push_bit 16 (ucast (bs ! 2)) OR push_bit 24 (ucast (bs ! 3))"

fun put_bytes :: "u32 \<Rightarrow> u8 list \<Rightarrow> mem \<Rightarrow> mem" where
  "put_bytes a [] m = m"
| "put_bytes a (b # bs) m = put_bytes (a + 1) bs (m(a := b))"

section \<open>Operations\<close>

text \<open>Whether the signature is right; the error is only logged.\<close>

definition fwcfg_init :: "'f fw_device \<Rightarrow> 'f \<Rightarrow> bool \<times> 'f" where
  "fwcfg_init D d = (let (sig, d) = fwcfg_read D 4 (fwcfg_select D FWCFG_SIG_SEL d) in (sig = [0x51, 0x45, 0x4D, 0x55], d))"

fun fwcfg_scan :: "'f fw_device \<Rightarrow> u32 \<Rightarrow> u32 \<Rightarrow> nat \<Rightarrow> 'f \<times> mem \<Rightarrow> (int \<times> 'f \<times> mem) option" where
  "fwcfg_scan D fname name 0 dm = Some (-1, dm)"
| "fwcfg_scan D fname name (Suc n) dm =
     (let (d, m) = dm;
          (size_be, d) = fwcfg_read D 4 d;
          (sel_be, d) = fwcfg_read D 2 d;
          (reserved, d) = fwcfg_read D 2 d;
          (bytes, d) = fwcfg_read D 56 d;
          m = put_bytes fname bytes m
      in case strcmp m fname name of
           None \<Rightarrow> None
         | Some c \<Rightarrow> if c = 0 then Some (int (unat (bswap16 (le16 sel_be))), d, m) else fwcfg_scan D fname name n (d, m))"

definition fwcfg_find :: "'f fw_device \<Rightarrow> fw_syms \<Rightarrow> u32 \<Rightarrow> 'f \<times> mem \<Rightarrow> (int \<times> 'f \<times> mem) option" where
  "fwcfg_find D syms name dm =
     (let (d, m) = dm; (count_be, d) = fwcfg_read D 4 (fwcfg_select D FWCFG_DIR_SEL d)
      in fwcfg_scan D (fname_at syms) name (unat (bswap32 (le32 count_be))) (d, m))"

definition wr64 :: "mem \<Rightarrow> u32 \<Rightarrow> u64 \<Rightarrow> mem" where
  "wr64 m a v = wr32 (wr32 m a (ucast v)) (a + 4) (ucast (drop_bit 32 v))"

text \<open>The device runs the command when its address is complete; the loop waits until it has cleared the control word.\<close>

definition fwcfg_dma_write :: "'f fw_device \<Rightarrow> u32 \<Rightarrow> fw_syms \<Rightarrow> u16 \<Rightarrow> u32 \<Rightarrow> u32 \<Rightarrow> 'f \<times> mem \<Rightarrow> ('f \<times> mem) option" where
  "fwcfg_dma_write D kpb syms selector buf len dm =
     (let (d, m) = dm; cmd = dma_cmd_at syms;
          buf_phys = virt_to_phys kpb buf;
          m = wr32 m cmd (bswap32 (push_bit 16 (ucast selector) OR FWCFG_DMA_SELECT OR FWCFG_DMA_WRITE));
          m = wr32 m (cmd + 4) (bswap32 len);
          m = wr64 m (cmd + 8) (bswap64 (ucast buf_phys));
          (d, m) = fw_dma D 0 (bswap32 (virt_to_phys kpb cmd)) (d, m)
      in if rd32 m cmd = 0 then Some (d, m) else None)"

section \<open>The framebuffer\<close>

text \<open>
  The string \<^verbatim>\<open>"etc/ramfb"\<close> lies at \<open>name\<close>, the kernel's translation table at \<open>ktt\<close>. The result says whether the
  display was configured.
\<close>

definition FB_BYTES :: u32 where
  "FB_BYTES = FB_WIDTH * FB_HEIGHT * 4"

definition ramfb_cfg :: "u32 \<Rightarrow> u32 \<Rightarrow> mem \<Rightarrow> mem" where
  "ramfb_cfg cfg fb_phys m =
     wr32 (wr32 (wr32 (wr32 (wr32 (wr64 m cfg (bswap64 (ucast fb_phys))) (cfg + 8) (bswap32 0x34325258)) (cfg + 12) 0)
       (cfg + 16) (bswap32 FB_WIDTH)) (cfg + 20) (bswap32 FB_HEIGHT)) (cfg + 24) (bswap32 (FB_WIDTH * 4))"

definition fb_init :: "'f fw_device \<Rightarrow> u32 \<Rightarrow> u32 \<Rightarrow> fw_syms \<Rightarrow> u32 \<Rightarrow> fb_state \<times> 'f \<times> mm_state \<Rightarrow> (bool \<times> fb_state \<times> 'f \<times> mm_state) option" where
  "fb_init D kpb ktt syms name st =
     (let (fb, d, s) = st; (fb_phys, s) = mm_page_alloc_n ((FB_BYTES + PAGE_SIZE - 1) div PAGE_SIZE) s
      in if fb_phys = 0 then Some (False, fb, d, s)
         else
           let m = fold (\<lambda>mb. mmu_map_identity ktt (w32 mb) False)
                 [unat (drop_bit 20 fb_phys)..<unat (drop_bit 20 (fb_phys + FB_BYTES - 1)) + 1] (mem s);
               fb = fb_clear FB_BLACK (fb\<lparr>fb_base := fb_phys\<rparr>)
           in (case fwcfg_find D syms name (d, m) of
                 None \<Rightarrow> None
               | Some (sel, d, m) \<Rightarrow>
                   if sel < 0 then Some (False, fb, d, s\<lparr>mem := m\<rparr>)
                   else
                     let cfg = ramfb_cfg_at syms
                     in (case fwcfg_dma_write D kpb syms (of_int sel) cfg 28 (d, ramfb_cfg cfg fb_phys m) of
                           None \<Rightarrow> None
                         | Some (d, m) \<Rightarrow> Some (True, fb\<lparr>cursor_col := 0, cursor_row := 0\<rparr>, d, s\<lparr>mem := m\<rparr>))))"

section \<open>Reading an item\<close>

text \<open>The device delivers the bytes of an item in order, and zeros behind its end.\<close>

definition streams :: "'f fw_device \<Rightarrow> 'f \<Rightarrow> u8 list \<Rightarrow> bool" where
  "streams D d bs \<longleftrightarrow> (\<forall>n. fst (fwcfg_read D n d) = take n (bs @ replicate n 0))"

text \<open>
  The selector register is big-endian: the device takes the byte at its lower address, where the processor, which is
  little-endian, puts the low byte of the value it writes, for the high byte of the selector. A write to the register
  starts the delivery of the item with this selector.
\<close>

definition fw_key :: "u16 \<Rightarrow> u16" where
  "fw_key v = (let first_byte = (ucast v :: u8); second_byte = (ucast (drop_bit 8 v) :: u8)
     in push_bit 8 (ucast first_byte) OR ucast second_byte)"

definition fw_device_ok :: "'f fw_device \<Rightarrow> (u16 \<Rightarrow> u8 list) \<Rightarrow> bool" where
  "fw_device_ok D items \<longleftrightarrow> (\<forall>v d. streams D (fw_select D v d) (items (fw_key v)))"

lemma fw_key_bswap16: "fw_key (bswap16 sel) = sel"
proof (rule bit_word_eqI)
  fix n assume "n < LENGTH(16)"
  then have "n < 8 \<or> (\<exists>k < 8. n = k + 8)" by simp presburger
  then show "bit (fw_key (bswap16 sel)) n = bit sel n"
    unfolding bswap16_def fw_key_def Let_def byte_masks by (auto simp: bit_simps add.commute)
qed

lemma fwcfg_select_streams: "fw_device_ok D items \<Longrightarrow> streams D (fwcfg_select D sel d) (items sel)"
  unfolding fw_device_ok_def fwcfg_select_def by (metis fw_key_bswap16)

lemma fwcfg_read_append:
  "fwcfg_read D (k + n) d = (let (as, d) = fwcfg_read D k d; (bs, d) = fwcfg_read D n d in (as @ bs, d))"
  by (induction k arbitrary: d) (simp_all add: split_beta Let_def)

lemma length_fwcfg_read [simp]: "length (fst (fwcfg_read D n d)) = n"
  by (induction n arbitrary: d) (simp_all add: split_beta Let_def)

lemma streams_read:
  assumes "streams D d (as @ bs)" "length as = k"
  obtains d' where "fwcfg_read D k d = (as, d')" "streams D d' bs"
proof -
  obtain d' where d': "fwcfg_read D k d = (fst (fwcfg_read D k d), d')" by (metis prod.collapse)
  have a: "fst (fwcfg_read D k d) = as" using assms by (simp add: streams_def)
  have "fst (fwcfg_read D n d') = take n (bs @ replicate n 0)" for n
  proof -
    have "fst (fwcfg_read D (k + n) d) = as @ fst (fwcfg_read D n d')"
      using d' a by (subst fwcfg_read_append) (simp add: split_beta Let_def)
    moreover have "fst (fwcfg_read D (k + n) d) = take (k + n) ((as @ bs) @ replicate (k + n) 0)"
      using assms(1) by (simp add: streams_def)
    ultimately have "fst (fwcfg_read D n d') = take n (bs @ replicate (k + n) 0)" using assms(2) by simp
    moreover have "take n (bs @ replicate (k + n) 0) = take n (bs @ replicate n (0 :: u8))"
      by (rule nth_equalityI) (auto simp: nth_append)
    ultimately show ?thesis by simp
  qed
  then show ?thesis using that d' a by (simp add: streams_def)
qed

section \<open>The directory\<close>

text \<open>A file: size, selector and name; and its entry of 64 bytes.\<close>

type_synonym fw_file = "u32 \<times> u16 \<times> u8 list"

definition be16_bytes :: "u16 \<Rightarrow> u8 list" where
  "be16_bytes v = [ucast (drop_bit 8 v), ucast v]"

definition be32_bytes :: "u32 \<Rightarrow> u8 list" where
  "be32_bytes v = [ucast (drop_bit 24 v), ucast (drop_bit 16 v), ucast (drop_bit 8 v), ucast v]"

definition entry_bytes :: "fw_file \<Rightarrow> u8 list" where
  "entry_bytes = (\<lambda>(size, sel, nm). be32_bytes size @ be16_bytes sel @ [0, 0] @ nm @ replicate (56 - length nm) 0)"

definition dir_bytes :: "fw_file list \<Rightarrow> u8 list" where
  "dir_bytes files = be32_bytes (w32 (length files)) @ concat (map entry_bytes files)"

definition file_ok :: "fw_file \<Rightarrow> bool" where
  "file_ok = (\<lambda>(size, sel, nm). length nm < 56 \<and> 0 \<notin> set nm)"

definition selector_of :: "fw_file list \<Rightarrow> u8 list \<Rightarrow> int" where
  "selector_of files xs = (case find (\<lambda>(_, _, nm). nm = xs) files of Some (_, sel, _) \<Rightarrow> int (unat sel) | None \<Rightarrow> -1)"

lemma be16_back: "bswap16 (le16 (be16_bytes v)) = v"
proof (rule bit_word_eqI)
  fix n assume "n < LENGTH(16)"
  then have "n < 8 \<or> (\<exists>k < 8. n = k + 8)" by simp presburger
  then show "bit (bswap16 (le16 (be16_bytes v))) n = bit v n"
    unfolding bswap16_def Let_def byte_masks by (auto simp: le16_def be16_bytes_def bit_simps add.commute)
qed

lemma be32_back: "bswap32 (le32 (be32_bytes v)) = v"
proof -
  have "le32 (be32_bytes v) = bswap32 v"
  proof (rule bit_word_eqI)
    fix n assume "n < LENGTH(32)"
    then show "bit (le32 (be32_bytes v)) n = bit (bswap32 v) n"
      by (cases rule: word32_byte_cases) (simp_all add: bit_bswap32 le32_def be32_bytes_def bit_simps add.commute)
  qed
  then show ?thesis by simp
qed

text \<open>A name in its buffer.\<close>

lemma put_bytes_frame: "(\<forall>i < length bs. b \<noteq> a + w32 i) \<Longrightarrow> put_bytes a bs m b = m b"
proof (induction bs arbitrary: a m)
  case (Cons x bs)
  have "b \<noteq> a" using Cons.prems by (auto dest!: spec [of _ 0])
  moreover have "b \<noteq> a + 1 + w32 i" if "i < length bs" for i
    using Cons.prems that by (auto dest!: spec [of _ "Suc i"] simp: add.assoc)
  ultimately show ?case using Cons.IH [of "a + 1" "m(a := x)"] by (simp add: fun_upd_def)
qed simp

lemma put_bytes_cstr:
  assumes "length nm + length zs < 2 ^ 32" "0 \<notin> set nm" "zs \<noteq> []" "hd zs = 0"
  shows "cstr_at (put_bytes a (nm @ zs) m) a nm"
  using assms(1,2)
proof (induction nm arbitrary: a m)
  case Nil
  obtain z where z: "zs = 0 # z" using assms(3,4) by (cases zs) auto
  have "a \<noteq> a + 1 + w32 i" if "i < length z" for i
    using that Nil z w32_eq_0_iff [of "Suc i"] by (simp add: add.assoc)
  then show ?case using put_bytes_frame [of z a "a + 1" "m(a := 0)"] z by simp
next
  case (Cons x nm)
  have "a \<noteq> a + 1 + w32 i" if "i < length (nm @ zs)" for i
    using that Cons.prems(1) w32_eq_0_iff [of "Suc i"] by (simp add: add.assoc)
  then have "put_bytes a ((x # nm) @ zs) m a = x" using put_bytes_frame [of "nm @ zs" a "a + 1" "m(a := x)"] by simp
  then show ?case using Cons by auto
qed

lemma fwcfg_scan_files:
  assumes files: "list_all file_ok files" "streams D d (concat (map entry_bytes files) @ rest)"
    and name: "cstr_at m name xs" "\<forall>i \<le> length xs. \<forall>j < 56. name + w32 i \<noteq> fname + w32 j"
  shows "\<exists>d' m'. fwcfg_scan D fname name (length files) (d, m) = Some (selector_of files xs, d', m') \<and>
    (\<forall>b. (\<forall>j < 56. b \<noteq> fname + w32 j) \<longrightarrow> m' b = m b)"
  using files name(1)
proof (induction files arbitrary: d m)
  case Nil
  then show ?case by (simp add: selector_of_def)
next
  case (Cons f files)
  obtain size sel nm where f: "f = (size, sel, nm)" by (metis prod_cases3)
  have ok: "length nm < 56" "0 \<notin> set nm" using Cons.prems(1) by (simp_all add: f file_ok_def)
  let ?pad = "replicate (56 - length nm) (0 :: u8)" and ?tail = "concat (map entry_bytes files) @ rest"
  have "streams D d (be32_bytes size @ (be16_bytes sel @ [0, 0] @ (nm @ ?pad) @ ?tail))"
    using Cons.prems(2) by (simp add: f entry_bytes_def)
  then obtain d1 where d1: "fwcfg_read D 4 d = (be32_bytes size, d1)" "streams D d1 (be16_bytes sel @ [0, 0] @ (nm @ ?pad) @ ?tail)"
    by (rule streams_read [where k = 4]) (simp add: be32_bytes_def)
  from d1(2) obtain d2 where d2: "fwcfg_read D 2 d1 = (be16_bytes sel, d2)" "streams D d2 ([0, 0] @ (nm @ ?pad) @ ?tail)"
    by (rule streams_read [where k = 2]) (simp add: be16_bytes_def)
  from d2(2) obtain d3 where d3: "fwcfg_read D 2 d2 = ([0, 0], d3)" "streams D d3 ((nm @ ?pad) @ ?tail)" by (rule streams_read [where k = 2]) simp
  from d3(2) obtain d4 where d4: "fwcfg_read D 56 d3 = (nm @ ?pad, d4)" "streams D d4 ?tail"
    by (rule streams_read [where k = 56]) (use ok(1) in simp)
  define m1 where "m1 = put_bytes fname (nm @ ?pad) m"
  have pad: "?pad \<noteq> []" "hd ?pad = 0" using ok(1) by simp_all
  have c1: "cstr_at m1 fname nm" unfolding m1_def using put_bytes_cstr [OF _ ok(2) pad] ok(1) by simp
  have fr: "m1 b = m b" if "\<forall>j < 56. b \<noteq> fname + w32 j" for b
    unfolding m1_def using that ok(1) by (intro put_bytes_frame) simp
  have c2: "cstr_at m1 name xs" using cstr_at_cong [of xs m1 name m] fr name(2) Cons.prems(3) by blast
  have "strcmp m1 fname name = Some (cmp_bytes nm xs)" by (rule strcmp_cstr [OF c1 c2])
  moreover have "cmp_bytes nm xs = 0 \<longleftrightarrow> nm = xs" by (rule cmp_bytes_eq_0 [OF ok(2) cstr_at_nonzero [OF c2]])
  ultimately have step: "fwcfg_scan D fname name (length (f # files)) (d, m) =
      (if nm = xs then Some (int (unat sel), d4, m1) else fwcfg_scan D fname name (length files) (d4, m1))"
    using d1(1) d2(1) d3(1) d4(1) by (cases "nm = xs") (simp_all add: Let_def be16_back m1_def)
  show ?case
  proof (cases "nm = xs")
    case True
    then show ?thesis using step fr by (simp add: selector_of_def f)
  next
    case False
    have "list_all file_ok files" using Cons.prems(1) by simp
    from Cons.IH [OF this d4(2) c2] show ?thesis using step False fr by (auto simp: selector_of_def f)
  qed
qed

text \<open>C39: \<open>fwcfg_find\<close> reads the firmware's file directory and returns the selector of the first file with the given
  name, or -1 if there is none; of the memory only its 56 bytes of local buffer change. The device is described by the
  value written into its big-endian selector register, so that the bytes of the directory arrive only for the right one.\<close>

theorem fwcfg_find_correct:
  assumes dev: "fw_device_ok D items" "items FWCFG_DIR_SEL = dir_bytes files"
    and files: "list_all file_ok files" "length files < 2 ^ 32"
    and name: "cstr_at m name xs" "\<forall>i \<le> length xs. \<forall>j < 56. name + w32 i \<noteq> fname_at syms + w32 j"
  shows "\<exists>d' m'. fwcfg_find D syms name (d, m) = Some (selector_of files xs, d', m') \<and>
    (\<forall>b. (\<forall>j < 56. b \<noteq> fname_at syms + w32 j) \<longrightarrow> m' b = m b)"
proof -
  have "streams D (fwcfg_select D FWCFG_DIR_SEL d) (be32_bytes (w32 (length files)) @ (concat (map entry_bytes files) @ []))"
    using fwcfg_select_streams [OF dev(1), of FWCFG_DIR_SEL d] dev(2) by (simp add: dir_bytes_def)
  then obtain d1 where d1: "fwcfg_read D 4 (fwcfg_select D FWCFG_DIR_SEL d) = (be32_bytes (w32 (length files)), d1)"
    "streams D d1 (concat (map entry_bytes files) @ [])" by (rule streams_read [where k = 4]) (simp add: be32_bytes_def)
  have "unat (w32 (length files)) = length files" using files(2) by (rule unat_w32)
  then show ?thesis
    using fwcfg_scan_files [OF files(1) d1(2) name] d1(1) by (simp add: fwcfg_find_def be32_back)
qed

text \<open>A machine with two files in its directory, the second of them \<^verbatim>\<open>etc/ramfb\<close>; its state is what is left of the
  selected item.\<close>

definition fwdemo_files :: "fw_file list" where
  "fwdemo_files = [(4, 0x20, [0x61]), (28, 0x21, [0x65, 0x74, 0x63, 0x2F, 0x72, 0x61, 0x6D, 0x66, 0x62])]"

definition fwdemo_items :: "u16 \<Rightarrow> u8 list" where
  "fwdemo_items sel = (if sel = FWCFG_DIR_SEL then dir_bytes fwdemo_files else if sel = FWCFG_SIG_SEL then [0x51, 0x45, 0x4D, 0x55] else [])"

definition fwdemo_fw :: "u8 list fw_device" where
  "fwdemo_fw = \<lparr>fw_select = \<lambda>v d. fwdemo_items (fw_key v),
    fw_data = \<lambda>d. (case d of [] \<Rightarrow> (0, []) | b # bs \<Rightarrow> (b, bs)), fw_dma = \<lambda>hi lo dm. dm\<rparr>"

definition fwdemo_name :: mem where
  "fwdemo_name = put_bytes 0x1000 [0x65, 0x74, 0x63, 0x2F, 0x72, 0x61, 0x6D, 0x66, 0x62, 0] (\<lambda>_. 0)"

lemma fwdemo_reads: "fst (fwcfg_read fwdemo_fw n d) = take n (d @ replicate n 0)"
proof (induction n arbitrary: d)
  case (Suc n)
  show ?case
  proof (cases d)
    case Nil
    then show ?thesis using Suc [of "[]"] by (simp add: fwdemo_fw_def split_beta Let_def)
  next
    case (Cons b bs)
    have "take n (bs @ replicate n 0) = take n (bs @ replicate (Suc n) (0 :: u8))"
      by (rule nth_equalityI) (auto simp: nth_append nth_Cons')
    then show ?thesis using Cons Suc [of bs] by (simp add: fwdemo_fw_def split_beta Let_def)
  qed
qed simp

lemma fwdemo_device_ok: "fw_device_ok fwdemo_fw fwdemo_items"
  using fwdemo_reads by (simp add: fw_device_ok_def streams_def fwdemo_fw_def)

theorem fwcfg_find_correct_witness:
  "\<exists>d' m'. fwcfg_find fwdemo_fw \<lparr>dma_cmd_at = 0x3000, fname_at = 0x2000, ramfb_cfg_at = 0x4000\<rparr> 0x1000 ([], fwdemo_name) = Some (0x21, d', m')"
proof -
  let ?syms = "\<lparr>dma_cmd_at = 0x3000, fname_at = 0x2000, ramfb_cfg_at = 0x4000\<rparr> :: fw_syms"
  let ?xs = "[0x65, 0x74, 0x63, 0x2F, 0x72, 0x61, 0x6D, 0x66, 0x62] :: u8 list"
  have dir: "fwdemo_items FWCFG_DIR_SEL = dir_bytes fwdemo_files" by (simp add: fwdemo_items_def)
  have files: "list_all file_ok fwdemo_files" "length fwdemo_files < 2 ^ 32" by (simp_all add: fwdemo_files_def file_ok_def)
  have "cstr_at fwdemo_name 0x1000 ?xs"
    unfolding fwdemo_name_def using put_bytes_cstr [of ?xs "[0]" "0x1000" "\<lambda>_. 0"] by simp
  moreover have "\<forall>i \<le> length ?xs. \<forall>j < 56. 0x1000 + w32 i \<noteq> fname_at ?syms + w32 j"
  proof (intro allI impI)
    fix i j :: nat assume "i \<le> length ?xs" "j < 56"
    then have "unat (0x1000 + w32 i) = 0x1000 + i" "unat (0x2000 + w32 j) = 0x2000 + j"
      by (simp_all add: unat_word_ariths unat_of_nat)
    then show "0x1000 + w32 i \<noteq> fname_at ?syms + w32 j" using \<open>i \<le> length ?xs\<close> by fastforce
  qed
  moreover have "selector_of fwdemo_files ?xs = 0x21" by (simp add: selector_of_def fwdemo_files_def)
  ultimately show ?thesis
    using fwcfg_find_correct [OF fwdemo_device_ok dir files, of fwdemo_name "0x1000" ?xs ?syms "[]"] by auto
qed

end
