(* ===== verification/Leg_Interrupts.thy ===== *)
theory Leg_Interrupts
  imports Leg_Syscall Leg_Scheduler_Props Leg_Fs_Props
begin

text \<open>
  Exceptions (\<^verbatim>\<open>src/kernel/exceptions.c\<close>), the program status register (\<^verbatim>\<open>include/kernel/cpu.h\<close>) and the entry
  code for interrupts (\<^verbatim>\<open>handle_irq\<close> in \<^verbatim>\<open>trampolines.s\<close>), which saves the registers of the interrupted program
  into its process struct and continues the process that the handlers leave current.
\<close>

section \<open>The status register\<close>

record psr_t =
  psr_M :: u32
  psr_T :: bool
  psr_F :: bool
  psr_I :: bool
  psr_A :: bool
  psr_E :: bool
  psr_ITl :: u32
  psr_GE :: u32
  psr_blank :: u32
  psr_J :: bool
  psr_ITh :: u32
  psr_Q :: bool
  psr_V :: bool
  psr_C :: bool
  psr_Z :: bool
  psr_N :: bool

definition enc_psr :: "psr_t \<Rightarrow> u32" where
  "enc_psr p = pack
     [(5, psr_M p), (1, of_bool (psr_T p)), (1, of_bool (psr_F p)), (1, of_bool (psr_I p)), (1, of_bool (psr_A p)),
      (1, of_bool (psr_E p)), (6, psr_ITl p), (4, psr_GE p), (4, psr_blank p), (1, of_bool (psr_J p)), (2, psr_ITh p),
      (1, of_bool (psr_Q p)), (1, of_bool (psr_V p)), (1, of_bool (psr_C p)), (1, of_bool (psr_Z p)), (1, of_bool (psr_N p))]"

definition dec_psr :: "u32 \<Rightarrow> psr_t" where
  "dec_psr r =
     (let f = unpack [5, 1, 1, 1, 1, 1, 6, 4, 4, 1, 2, 1, 1, 1, 1, 1] r
      in \<lparr>psr_M = f ! 0, psr_T = (f ! 1 \<noteq> 0), psr_F = (f ! 2 \<noteq> 0), psr_I = (f ! 3 \<noteq> 0), psr_A = (f ! 4 \<noteq> 0), psr_E = (f ! 5 \<noteq> 0),
          psr_ITl = f ! 6, psr_GE = f ! 7, psr_blank = f ! 8, psr_J = (f ! 9 \<noteq> 0), psr_ITh = f ! 10, psr_Q = (f ! 11 \<noteq> 0),
          psr_V = (f ! 12 \<noteq> 0), psr_C = (f ! 13 \<noteq> 0), psr_Z = (f ! 14 \<noteq> 0), psr_N = (f ! 15 \<noteq> 0)\<rparr>)"

datatype processor_mode = Usr | Fiq | Irq | Svc | Mon | Abt | Hyp | Und | Sys

definition mode_code :: "processor_mode \<Rightarrow> u32" where
  "mode_code m = (case m of Usr \<Rightarrow> 0x10 | Fiq \<Rightarrow> 0x11 | Irq \<Rightarrow> 0x12 | Svc \<Rightarrow> 0x13 | Mon \<Rightarrow> 0x16 | Abt \<Rightarrow> 0x17 | Hyp \<Rightarrow> 0x1A
     | Und \<Rightarrow> 0x1B | Sys \<Rightarrow> 0x1F)"

text \<open>On the register \<^verbatim>\<open>cpsr\<close>.\<close>

definition enable_interrupts :: "u32 \<Rightarrow> u32" where
  "enable_interrupts cpsr = enc_psr ((dec_psr cpsr)\<lparr>psr_I := False, psr_A := False, psr_F := False\<rparr>)"

definition disable_interrupts :: "u32 \<Rightarrow> u32" where
  "disable_interrupts cpsr = enc_psr ((dec_psr cpsr)\<lparr>psr_I := True, psr_A := True, psr_F := True\<rparr>)"

section \<open>Handlers\<close>

text \<open>What the handlers read: the acknowledge register of the controller, other device registers, and the timer.\<close>

record irq_env =
  gicc_iar :: u32
  dev_reg :: "u32 \<Rightarrow> u32"
  irq_freq :: u32
  irq_now :: u64

definition rtc_timer_fired :: "irq_env \<Rightarrow> 'd kernel \<Rightarrow> 'd kernel" where
  "rtc_timer_fired env k =
     (case tick_fn (k_timer k) of
        Some Sched_tick \<Rightarrow>
          k\<lparr>k_timer := timer_advance_cval (irq_freq env) (tick_interval_us (k_timer k)) (k_timer k),
            k_sched := sched_tick (irq_now env) (k_sched k)\<rparr>
      | None \<Rightarrow> k\<lparr>k_timer := timer_disable (k_timer k)\<rparr>)"

text \<open>The device handlers type into the kernel's terminal, whose echo is drawn.\<close>

definition uart_irq :: "'d platform \<Rightarrow> 'd kernel \<Rightarrow> 'd kernel" where
  "uart_irq P k =
     (let (u, t) = uart_irq_handler (k_uart k, k_tty k) in snd (on_tty P (\<lambda>_. ((), t)) (k\<lparr>k_uart := u\<rparr>)))"

definition kbd_irq_on :: "'d platform \<Rightarrow> irq_env \<Rightarrow> 'd kernel \<Rightarrow> (unit access \<times> 'd kernel) option" where
  "kbd_irq_on P env k =
     map_option (\<lambda>(r, s). (r, snd (on_tty P (\<lambda>_. ((), kbd_tty s)) (k\<lparr>k_kbd := s\<rparr>))))
       (kbd_irq_handler (dev_reg env) ((k_kbd k)\<lparr>kbd_tty := k_tty k\<rparr>))"

definition irq_id :: "irq_env \<Rightarrow> u32" where
  "irq_id env = gicc_iar env AND 0x3FF"

text \<open>The result is the outcome of the handler, the writes to the controller and the state.\<close>

definition irq_dispatch :: "'d platform \<Rightarrow> irq_env \<Rightarrow> 'd kernel \<Rightarrow> (unit access \<times> mmio_trace \<times> 'd kernel) option" where
  "irq_dispatch P env k =
     (let id = irq_id env
      in map_option (\<lambda>(r, k). (r, if r = Done () then [(GICC_BASE + 0x10, id)] else [], k))
           (if id = TIMER_IRQ then Some (Done (), rtc_timer_fired env k)
            else if id = UART_IRQ then Some (Done (), uart_irq P k)
            else if kbd_irq (k_kbd k) \<noteq> 0 \<and> id = kbd_irq (k_kbd k) then kbd_irq_on P env k
            else Some (Done (), k)))"

text \<open>The handlers that end the machine, and the fast interrupt.\<close>

definition handle_boot_exception :: "'d kernel \<Rightarrow> exit_t \<times> 'd kernel" where
  "handle_boot_exception k = (Powered_off, k\<lparr>k_uart := uart_putchar 0x0A (uart_putchar 0x21 (k_uart k))\<rparr>)"

definition handle_fiq :: "'d kernel \<Rightarrow> 'd kernel" where
  "handle_fiq k = k\<lparr>k_uart := uart_putchar 0x3F (k_uart k)\<rparr>"

section \<open>Entry and return\<close>

text \<open>
  An interrupt in user mode continues a program with the registers of its context, or idles while the current process
  is suspended; an interrupt in the kernel returns to the interrupted code.
\<close>

datatype irq_t = Resumes cpu_ctx_t | Idles | Back_to_kernel | Irq_stuck

definition irq_return :: "'d platform \<Rightarrow> 'd kernel \<Rightarrow> irq_t \<times> 'd kernel" where
  "irq_return P k =
     (let cur = current_proc (k_sched k)
      in if suspended (kproc k cur) \<noteq> 0 then (Idles, k)
         else (Resumes (ctx (kproc k cur)), mmu_set_proc_table P (pgd (kproc k cur)) k))"

definition handle_irq :: "'d platform \<Rightarrow> irq_env \<Rightarrow> u32 \<Rightarrow> cpu_ctx_t \<Rightarrow> 'd kernel \<Rightarrow> (irq_t \<times> mmio_trace \<times> 'd kernel) option" where
  "handle_irq P env psr regs k =
     (let cur = current_proc (k_sched k); user = (psr AND 0x1F = mode_code Usr \<and> cur \<noteq> 0)
      in map_option (\<lambda>(r, io, k).
           if r \<noteq> Done () then (Irq_stuck, io, k)
           else if user then (let (i, k) = irq_return P k in (i, io, k))
           else (Back_to_kernel, io, k))
           (irq_dispatch P env (if user then on_proc cur (\<lambda>x. x\<lparr>ctx := regs\<rparr>) k else k)))"

section \<open>Masking\<close>

lemma bits_eqI_32: "\<forall>n \<in> set [0..<32]. bit v n = bit w n \<Longrightarrow> v = (w :: u32)"
  by (rule bit_word_eqI) simp

lemma bit_pack_Nil [simp]: "\<not> bit (pack []) n"
  by simp

lemma bit_pack_Cons: "n < 32 \<Longrightarrow> bit (pack ((w, v) # fs)) n \<longleftrightarrow> (if n < w then bit v n else bit (pack fs) (n - w))"
  by (auto simp: bit_simps)

lemma bit_field: "(take_bit (Suc 0) w \<noteq> (0 :: u32)) = bit w 0"
  by (simp add: take_bit_Suc bit_0 odd_iff_mod_2_eq_one)

lemma drop_mod: "(drop_bit n w mod 2 = 1) = bit (w :: u32) n"
  by (simp add: bit_iff_odd_drop_bit odd_iff_mod_2_eq_one)

lemma bit_flag: "bit (of_bool b :: u32) n \<longleftrightarrow> b \<and> n = 0"
  by (cases b) (auto simp: bit_1_iff)

text \<open>Exactly the three mask bits change.\<close>

lemma masking: "enable_interrupts w = w AND NOT 0x1C0" "disable_interrupts w = w OR 0x1C0"
proof -
  have r: "[0..<32] = [0, 1, 2, 3, 4, 5, 6, 7, 8, 9, 10, 11, 12, 13, 14, 15, 16, 17, 18, 19, 20, 21, 22, 23, 24, 25, 26, 27,
      28, 29, 30, 31 :: nat]" by (simp add: upt_rec)
  let ?fields = "[5, 1, 1, 1, 1, 1, 6, 4, 4, 1, 2, 1, 1, 1, 1, 1]"
  have u: "unpack ?fields w = [take_bit 5 w, take_bit 1 (drop_bit 5 w), take_bit 1 (drop_bit 6 w), take_bit 1 (drop_bit 7 w),
      take_bit 1 (drop_bit 8 w), take_bit 1 (drop_bit 9 w), take_bit 6 (drop_bit 10 w), take_bit 4 (drop_bit 16 w),
      take_bit 4 (drop_bit 20 w), take_bit 1 (drop_bit 24 w), take_bit 2 (drop_bit 25 w), take_bit 1 (drop_bit 27 w),
      take_bit 1 (drop_bit 28 w), take_bit 1 (drop_bit 29 w), take_bit 1 (drop_bit 30 w), take_bit 1 (drop_bit 31 w)]"
    by (simp add: drop_bit_drop_bit)
  show "enable_interrupts w = w AND NOT 0x1C0"
    by (rule bits_eqI_32, unfold r enable_interrupts_def enc_psr_def dec_psr_def Let_def u)
      (simp add: bit_pack_Cons bit_field drop_mod bit_flag bit_and_iff bit_not_iff bit_take_bit_iff bit_drop_bit_eq del: pack.simps)
  show "disable_interrupts w = w OR 0x1C0"
    by (rule bits_eqI_32, unfold r disable_interrupts_def enc_psr_def dec_psr_def Let_def u)
      (simp add: bit_pack_Cons bit_field drop_mod bit_flag bit_or_iff bit_take_bit_iff bit_drop_bit_eq del: pack.simps)
qed

section \<open>What a handler leaves alone\<close>

lemma on_tty_frame [simp]:
  "k_sched (snd (on_tty P f k)) = k_sched k" "kmem (snd (on_tty P f k)) = kmem k" "k_mm (snd (on_tty P f k)) = k_mm k"
  "ttbr0 (snd (on_tty P f k)) = ttbr0 k" "k_tty (snd (on_tty P f k)) = snd (f (k_tty k))" "k_timer (snd (on_tty P f k)) = k_timer k"
  "k_kbd (snd (on_tty P f k)) = k_kbd k" "k_uart (snd (on_tty P f k)) = k_uart k"
  by (simp_all add: on_tty_def split_beta Let_def)

text \<open>The device names only buffers of the keyboard's queue, which the driver relies on when its interrupt comes.\<close>

definition kbd_ready :: "irq_env \<Rightarrow> 'd kernel \<Rightarrow> bool" where
  "kbd_ready env k \<longleftrightarrow> (irq_id env = kbd_irq (k_kbd k) \<longrightarrow> (\<forall>i \<in> set (used_ids (k_kbd k)). unat i < QUEUE_SIZE))"

lemma used_ids_tty [simp]: "used_ids (s\<lparr>kbd_tty := t\<rparr>) = used_ids s"
  by (simp add: used_ids_def unseen_def)

lemma kbd_irq_on_ends:
  assumes "\<forall>i \<in> set (used_ids (k_kbd k)). unat i < QUEUE_SIZE"
  shows "\<exists>k'. kbd_irq_on P env k = Some (Done (), k') \<and> k_sched k' = k_sched k \<and> k_mm k' = k_mm k \<and> ttbr0 k' = ttbr0 k
    \<and> k_tty k' = fold tty_input (typed (g_shift (k_kbd k)) (map (\<lambda>i. g_events (k_kbd k) ! unat i) (used_ids (k_kbd k)))) (k_tty k)"
  using kbd_irq_runs [of "(k_kbd k)\<lparr>kbd_tty := k_tty k\<rparr>" "dev_reg env"] assms
  by (auto simp: kbd_irq_on_def drained_queue)

text \<open>Every interrupt is handled, and only the timer touches the scheduler.\<close>

definition irq_sched :: "irq_env \<Rightarrow> 'd kernel \<Rightarrow> sched_state" where
  "irq_sched env k =
     (if irq_id env = TIMER_IRQ \<and> tick_fn (k_timer k) \<noteq> None then sched_tick (irq_now env) (k_sched k) else k_sched k)"

lemma irq_dispatch_ends:
  assumes "kbd_ready env k"
  shows "\<exists>k'. irq_dispatch P env k = Some (Done (), [(GICC_BASE + 0x10, irq_id env)], k') \<and> k_sched k' = irq_sched env k \<and>
    k_mm k' = k_mm k \<and> ttbr0 k' = ttbr0 k"
proof -
  consider "irq_id env = TIMER_IRQ" | "irq_id env = UART_IRQ" |
    "irq_id env \<noteq> TIMER_IRQ" "irq_id env \<noteq> UART_IRQ" "kbd_irq (k_kbd k) \<noteq> 0" "irq_id env = kbd_irq (k_kbd k)" |
    "irq_id env \<noteq> TIMER_IRQ" "irq_id env \<noteq> UART_IRQ" "\<not> (kbd_irq (k_kbd k) \<noteq> 0 \<and> irq_id env = kbd_irq (k_kbd k))" by blast
  then show ?thesis
  proof cases
    case 1
    then show ?thesis
      by (auto simp: irq_dispatch_def irq_sched_def rtc_timer_fired_def Let_def split: option.split tick_fn_t.split)
  next
    case 2
    then show ?thesis by (simp add: irq_dispatch_def irq_sched_def uart_irq_def uart_irq_handler_def Let_def)
  next
    case 3
    then show ?thesis
      using kbd_irq_on_ends [of k P env] assms by (auto simp: kbd_ready_def irq_dispatch_def irq_sched_def Let_def)
  next
    case 4
    then show ?thesis by (auto simp: irq_dispatch_def irq_sched_def Let_def)
  qed
qed

section \<open>Programs and interrupts\<close>

lemma sched_inv_ctx: "sched_inv s \<Longrightarrow> sched_inv (upd_proc p (\<lambda>x. x\<lparr>ctx := c\<rparr>) s)"
  by (rule sched_inv_cong) (auto simp: upd_proc_def sched_inv_def)

lemma wake_keeps: "ctx (pobj (wake_sleepers now s) p) = ctx (pobj s p)" "pgd (pobj (wake_sleepers now s) p) = pgd (pobj s p)"
  "suspended (pobj s p) = 0 \<Longrightarrow> suspended (pobj (wake_sleepers now s) p) = 0"
  by (auto simp: woken_def)

lemma tick_other:
  assumes "sched_inv s"
  shows "sched_tick now s = wake_sleepers now s \<or> current_proc (sched_tick now s) \<noteq> current_proc s"
proof -
  define s1 where "s1 = wake_sleepers now s"
  have s1: "procs s1 = procs s" "current_proc s1 = current_proc s" by (simp_all add: s1_def)
  have len: "length (procs s) = 8" and c: "current_proc s \<noteq> 0" and o: "once (procs s)"
    using assms by (auto simp: sched_inv_def table_def)
  show ?thesis
  proof (cases "first_idx (\<lambda>p. p = current_proc s1) (procs s1)")
    case None
    then show ?thesis using c by (simp add: sched_tick_def flip: s1_def)
  next
    case (Some i)
    then have i: "i < 8" "procs s ! i = current_proc s" using len s1 by (auto simp: first_idx_Some)
    show ?thesis
    proof (cases "find (\<lambda>j. runnable s1 (slot s1 i j)) [1..<8]")
      case None
      then show ?thesis using Some c by (simp add: sched_tick_def flip: s1_def)
    next
      case j: (Some j)
      then have "1 \<le> j" "j < 8" by (auto simp: find_slot)
      then have "(i + j) mod 8 \<noteq> i" "(i + j) mod 8 < 8" using i(1) by (auto simp: mod_if)
      then have "slot s1 i j \<noteq> current_proc s" using o i c len unfolding once_def slot_def s1 by metis
      then show ?thesis using Some j c s1 by (simp add: sched_tick_def flip: s1_def)
    qed
  qed
qed

text \<open>The process that is current after a tick can run, if the one before could.\<close>

lemma irq_sched_effect:
  assumes inv: "sched_inv (k_sched k)" and run: "suspended (kproc k (current_proc (k_sched k))) = 0" and s'_def: "s' = irq_sched env k"
  shows "suspended (pobj s' (current_proc s')) = 0 \<and> current_proc s' \<in> table (k_sched k) \<and>
    (\<forall>p. ctx (pobj s' p) = ctx (kproc k p) \<and> pgd (pobj s' p) = pgd (kproc k p))"
proof (cases "irq_id env = TIMER_IRQ \<and> tick_fn (k_timer k) \<noteq> None")
  case False
  then show ?thesis using run inv by (simp only: s'_def irq_sched_def if_False kproc_def sched_inv_def) simp
next
  case True
  let ?s = "k_sched k" and ?now = "irq_now env"
  have s': "s' = sched_tick ?now ?s" using True by (simp add: s'_def irq_sched_def)
  have t: "length (procs ?s) = 8" "current_proc ?s \<in> table ?s" using inv by (auto simp: sched_inv_def)
  show ?thesis
  proof (rule sched_tick_cases [OF t, of ?now])
    assume "sched_tick ?now ?s = wake_sleepers ?now ?s"
    then show ?thesis using run t(2) wake_keeps [where now = ?now and s = ?s] by (simp add: s' kproc_def del: wake_sleepers_simps(3))
  next
    fix q
    assume q: "q \<in> table ?s" "runnable (wake_sleepers ?now ?s) q"
      and e: "sched_tick ?now ?s = (upd_proc (current_proc ?s) (\<lambda>x. x\<lparr>suspended := 1\<rparr>) (wake_sleepers ?now ?s))\<lparr>current_proc := q\<rparr>"
    have "suspended (pobj (sched_tick ?now ?s) (current_proc ?s)) = 1" unfolding e by (simp add: upd_proc_def)
    moreover have "suspended (pobj (wake_sleepers ?now ?s) q) = 0" using q(2) unfolding runnable_def by blast
    moreover have "current_proc (sched_tick ?now ?s) = q" unfolding e by simp
    ultimately have "q \<noteq> current_proc ?s" using tick_other [OF inv, of ?now] by (metis zero_neq_one)
    then show ?thesis using q e wake_keeps [where now = ?now and s = ?s] by (auto simp: s' kproc_def upd_proc_def runnable_def simp del: wake_sleepers_simps(3))
  qed
qed

lemma on_proc_ctx [simp]: "kproc (on_proc p (\<lambda>x. x\<lparr>ctx := c\<rparr>) k) q = (if q = p then (kproc k q)\<lparr>ctx := c\<rparr> else kproc k q)"
  "k_sched (on_proc p f k) = upd_proc p f (k_sched k)" "k_mm (on_proc p f k) = k_mm k" "k_kbd (on_proc p f k) = k_kbd k"
  by (simp_all add: kproc_def on_proc_def upd_proc_def)

lemma upd_proc_table [simp]: "current_proc (upd_proc p f s) = current_proc s" "procs (upd_proc p f s) = procs s"
  "table (upd_proc p f s) = table s"
  by (simp_all add: upd_proc_def table_def)

text \<open>C2: Interrupts are transparent to programs. Every interrupt that arrives while the current process runs is
  handled and acknowledged with its own number; the processor then continues a process that can run, in that process's
  own address space and with exactly the registers it had when it was last interrupted: if the current process has
  not changed, those of this moment, otherwise those saved in its context. The registers of the interrupted process are
  saved, and no other context and no memory changes.\<close>

theorem irq_transparent:
  assumes inv: "sched_inv (k_sched k)" and run: "suspended (kproc k (current_proc (k_sched k))) = 0"
    and user: "psr AND 0x1F = mode_code Usr" and ready: "kbd_ready env k"
  shows "\<exists>k'. let p = current_proc (k_sched k); q = current_proc (k_sched k') in
    handle_irq P env psr regs k = Some (Resumes (if q = p then regs else ctx (kproc k q)), [(GICC_BASE + 0x10, irq_id env)], k') \<and>
    q \<in> table (k_sched k) \<and> suspended (kproc k' q) = 0 \<and> ttbr0 k' = virt_to_phys (kpb P) (pgd (kproc k q)) \<and>
    ctx (kproc k' p) = regs \<and> (\<forall>r. r \<noteq> p \<longrightarrow> ctx (kproc k' r) = ctx (kproc k r)) \<and> k_mm k' = k_mm k"
proof -
  let ?p = "current_proc (k_sched k)"
  define k1 where "k1 = on_proc ?p (\<lambda>x. x\<lparr>ctx := regs\<rparr>) k"
  have p: "?p \<noteq> 0" using inv by (auto simp: sched_inv_def table_def)
  have "kbd_ready env k1" using ready by (simp add: kbd_ready_def k1_def)
  then obtain k2 where k2: "irq_dispatch P env k1 = Some (Done (), [(GICC_BASE + 0x10, irq_id env)], k2)" "k_sched k2 = irq_sched env k1"
    "k_mm k2 = k_mm k1" using irq_dispatch_ends [of env k1 P] by blast
  have "sched_inv (k_sched k1)" using sched_inv_ctx [OF inv] by (simp add: k1_def)
  moreover have "suspended (kproc k1 (current_proc (k_sched k1))) = 0" using run by (simp add: k1_def)
  ultimately have e: "suspended (pobj (k_sched k2) (current_proc (k_sched k2))) = 0" "current_proc (k_sched k2) \<in> table (k_sched k1)"
    "\<forall>r. ctx (pobj (k_sched k2) r) = ctx (kproc k1 r) \<and> pgd (pobj (k_sched k2) r) = pgd (kproc k1 r)"
    using irq_sched_effect [OF _ _ k2(2)] by blast+
  define q k' where "q = current_proc (k_sched k2)" and "k' = mmu_set_proc_table P (pgd (kproc k2 q)) k2"
  have k': "k_sched k' = k_sched k2" "k_mm k' = k_mm k2" "ttbr0 k' = virt_to_phys (kpb P) (pgd (kproc k2 q))" "kproc k' r = kproc k2 r" for r
    by (simp_all add: k'_def mmu_set_proc_table_def kproc_def)
  have c: "ctx (kproc k2 r) = (if r = ?p then regs else ctx (kproc k r))" "pgd (kproc k2 r) = pgd (kproc k r)" for r
    using e(3) by (simp_all add: kproc_def [of k2] k1_def)
  have "handle_irq P env psr regs k = Some (Resumes (ctx (kproc k2 q)), [(GICC_BASE + 0x10, irq_id env)], k')"
    using user p k2(1) e(1) by (simp add: handle_irq_def irq_return_def Let_def kproc_def k'_def q_def flip: k1_def)
  moreover have "suspended (kproc k2 q) = 0" "q \<in> table (k_sched k)" using e(1,2) by (simp_all add: kproc_def q_def k1_def)
  moreover have "k_mm k2 = k_mm k" using k2(3) by (simp add: k1_def)
  moreover have "current_proc (k_sched k') = q" by (simp add: k' q_def)
  ultimately show ?thesis by (intro exI [of _ k']) (simp add: Let_def k' c)
qed

text \<open>A tick between two processes.\<close>

definition kern_two :: "(nat \<Rightarrow> u8) kernel" where
  "kern_two = kern0\<lparr>k_sched := demo_sched, k_timer := (k_timer kern0)\<lparr>tick_fn := Some Sched_tick, tick_interval_us := 10000\<rparr>\<rparr>"

definition tick_env :: irq_env where
  "tick_env = \<lparr>gicc_iar = 30, dev_reg = (\<lambda>_. 0), irq_freq = 62500000, irq_now = 7\<rparr>"

definition regs0 :: cpu_ctx_t where
  "regs0 = \<lparr>ctx_r = replicate 13 7, ctx_sp = 0x01FFFFF0, ctx_lr = 0, ctx_pc = 0x00100000, ctx_cpsr = 0x10, ctx_fpscr = 0, ctx_vfp = replicate 64 0\<rparr>"

theorem irq_transparent_witness:
  "\<exists>k'. (\<exists>c. handle_irq plat0 tick_env 0x10 regs0 kern_two = Some (Resumes c, [(0xCF020010, 30)], k')) \<and>
    current_proc (k_sched k') \<in> {0x1000, 0x2000} \<and> ctx (kproc k' 0x1000) = regs0"
proof -
  have "sched_inv (k_sched kern_two)" using demo_sched_inv by (simp add: kern_two_def)
  moreover have "suspended (kproc kern_two (current_proc (k_sched kern_two))) = 0" by (simp add: kproc_def kern_two_def)
  moreover have "(0x10 :: u32) AND 0x1F = mode_code Usr" by (simp add: mode_code_def)
  moreover have "kbd_ready tick_env kern_two"
    by (simp add: kbd_ready_def irq_id_def tick_env_def kern_two_def kern0_def kbd0_def)
  ultimately obtain k' where "handle_irq plat0 tick_env 0x10 regs0 kern_two = Some (Resumes (if current_proc (k_sched k') = 0x1000 then regs0
      else ctx (kproc kern_two (current_proc (k_sched k')))), [(GICC_BASE + 0x10, irq_id tick_env)], k')"
    "current_proc (k_sched k') \<in> table (k_sched kern_two)" "ctx (kproc k' 0x1000) = regs0"
    using irq_transparent [of kern_two "0x10" tick_env plat0 regs0] by (auto simp: Let_def kern_two_def)
  moreover have "table (k_sched kern_two) = {0x1000, 0x2000}" by (auto simp: table_def kern_two_def)
  ultimately show ?thesis by (auto simp: irq_id_def tick_env_def)
qed

section \<open>A tick inside a system call\<close>

text \<open>
  A timer interrupt that arrives while the kernel works for a process (the calls that wait for input enable interrupts)
  makes another process current, but the interrupted call goes on in the address space of the first: afterwards the
  kernel takes the caller for the other process.
\<close>

lemma kernel_tick_swaps_current:
  assumes inv: "sched_inv (k_sched k)" and kernel: "psr AND 0x1F = mode_code Svc" and timer: "irq_id env = TIMER_IRQ"
    "tick_fn (k_timer k) = Some Sched_tick" and other: "sched_tick (irq_now env) (k_sched k) \<noteq> wake_sleepers (irq_now env) (k_sched k)"
  shows "\<exists>k'. handle_irq P env psr regs k = Some (Back_to_kernel, [(GICC_BASE + 0x10, TIMER_IRQ)], k') \<and>
    current_proc (k_sched k') \<noteq> current_proc (k_sched k) \<and> ttbr0 k' = ttbr0 k"
proof -
  have "\<not> (psr AND 0x1F = mode_code Usr \<and> current_proc (k_sched k) \<noteq> 0)" using kernel by (simp add: mode_code_def)
  then show ?thesis
    using tick_other [OF inv, of "irq_now env"] timer other
    by (auto simp: handle_irq_def irq_dispatch_def rtc_timer_fired_def Let_def)
qed

section \<open>From the serial line to a program\<close>

lemma readline_ready:
  assumes inv: "tty_inv t" and ready: "line_ready t" and q: "pending t \<noteq> []" and room: "length (pending t) + 1 < unat cap"
  shows "\<exists>t' m'. tty_readline buf cap (t, m) = (Done (w32 (length (pending t) - 1)), t', m') \<and> tty_inv t' \<and> pending t' = [] \<and>
    \<not> line_ready t'"
proof -
  have len: "length (pending t) = unat (line_len t)" by simp
  then have pos: "line_len t \<noteq> 0" "line_len t < cap - 1"
    using q room by (auto simp: word_less_nat_alt unat_sub word_le_nat_alt pending_def)
  have "w32 (unat (line_len t) - 1) = line_len t - 1"
    using pos(1) by (simp add: of_nat_diff Suc_le_eq unat_gt_0)
  then show ?thesis using ready pos inv by (simp add: tty_readline_def Let_def tty_inv_def pending_def)
qed



end
