(* ===== verification/Leg_Kmain.thy ===== *)
theory Leg_Kmain
  imports Leg_Bump Leg_Dtb_Find Leg_Mm_Init Leg_Fwcfg Leg_Process Leg_Interrupts Leg_Mmu_Boot
begin

text \<open>
  The start of the kernel: \<^verbatim>\<open>kboot\<close> (\<^verbatim>\<open>src/kernel/boot.c\<close>) after the tables are in place, and \<^verbatim>\<open>kmain\<close>
  (\<^verbatim>\<open>src/kernel/kmain.c\<close>), which brings the components up in their order and starts the first process. Its log messages are
  left out, except for the greeting on the UART and on the screen. The result \<open>Halted\<close> is the label \<^verbatim>\<open>halt\<close>.
\<close>

section \<open>State\<close>

text \<open>
  \<open>machine\<close> holds what the hardware and the linker fix: device registers that are read, the timer's frequency and
  counter, the firmware configuration device, and the addresses of static data and of string literals.
\<close>

record ('d, 'f) machine =
  plat :: "'d platform"
  dev_rd :: "u32 \<Rightarrow> u32"
  timer_freq :: u32
  timer_now :: u64
  fw_dev :: "'f fw_device"
  fw_at :: fw_syms
  bss_end_at :: u32
  kbd_queue_at :: u32
  kbd_events_at :: u32
  tree0 :: dtb_tree_t
  pool0 :: "dtb_prop_t list"
  booting_at :: u32
  ramfb_at :: u32
  init_at :: u32
  welcome_at :: "u32 list"

record ('d, 'f) boot =
  b_kernel :: "'d kernel"
  b_bump :: bump_state
  b_fw :: 'f
  b_gic :: mmio_trace
  b_cpsr :: u32

datatype boot_end = Halted | Runs u32

abbreviation (input) EARLY_HEAP_SIZE :: u32 where "EARLY_HEAP_SIZE \<equiv> 0x20000"
abbreviation (input) SCHED_INTERVAL :: u32 where "SCHED_INTERVAL \<equiv> 10000"
abbreviation (input) FB_BLUE :: u32 where "FB_BLUE \<equiv> 0x000000FF"

abbreviation upd_kernel :: "('d kernel \<Rightarrow> 'd kernel) \<Rightarrow> ('d, 'f) boot \<Rightarrow> ('d, 'f) boot" where
  "upd_kernel f b \<equiv> b\<lparr>b_kernel := f (b_kernel b)\<rparr>"

definition gic_writes :: "mmio_trace \<Rightarrow> ('d, 'f) boot \<Rightarrow> ('d, 'f) boot" where
  "gic_writes w b = b\<lparr>b_gic := b_gic b @ w\<rparr>"

section \<open>Operations\<close>

text \<open>
  \<^verbatim>\<open>init_mmu\<close> and the coprocessor registers that it writes; the bit \<^verbatim>\<open>M\<close> of the system control register switches
  translation on. Cache and table maintenance has no effect on the model.
\<close>

record cp15 =
  cp_ttbcr :: u32
  cp_ttbr0 :: u32
  cp_ttbr1 :: u32
  cp_dacr :: u32
  cp_sctlr :: u32
  cp_vbar :: u32

definition init_mmu :: "u32 \<Rightarrow> u32 \<Rightarrow> u32 \<Rightarrow> u32 \<Rightarrow> cp15 \<times> mem \<Rightarrow> cp15 \<times> mem" where
  "init_mmu beg tt dt dtb cm =
     (let (c, m) = cm; m = map_sections beg tt dt dtb m;
          kphys = (dtb AND NOT 0xFFFFF) + KPHYS_OFFSET; table = kphys + (tt - beg)
      in (c\<lparr>cp_ttbcr := w32 TTBCR_N, cp_ttbr1 := table, cp_ttbr0 := table, cp_dacr := 1, cp_sctlr := cp_sctlr c OR 1\<rparr>, m))"

text \<open>
  \<^verbatim>\<open>kboot\<close> behind it: the code and the data of the kernel are copied to their place, the static variables cleared, and the
  entry of the table that maps the flash is removed. The result has the physical base of the kernel.
\<close>

record layout =
  main_beg :: u32
  main_end :: u32
  load_beg :: u32
  bss_from :: u32
  bss_to :: u32
  vtable_at :: u32
  kernel_tt :: u32

definition kboot :: "layout \<Rightarrow> u32 \<Rightarrow> cp15 \<times> mem \<Rightarrow> u32 \<times> cp15 \<times> mem" where
  "kboot L dtb cm =
     (let (c, m) = cm;
          m = copy_up (unat (main_end L - main_beg L)) (main_beg L) (load_beg L) m;
          m = fill_up (if bss_from L < bss_to L then unat (bss_to L - bss_from L) else 0) (bss_from L) 0 m;
          kernel_phys_base = (dtb AND NOT 0xFFFFF) + KPHYS_OFFSET
      in (kernel_phys_base, c\<lparr>cp_vbar := vtable_at L\<rparr>, set_entry (kernel_tt L) 0 0 m))"

text \<open>The loop that mixes the seed of the device tree.\<close>

partial_function (option) seed_loop :: "mem \<Rightarrow> u32 \<Rightarrow> u32 \<Rightarrow> u32 \<Rightarrow> u32 \<Rightarrow> u32 option" where
  "seed_loop m data len i seed =
     (if i + 4 \<le> len then seed_loop m data len (i + 4) (seed XOR be32_read m (data + i)) else Some seed)"

definition seed_rng :: "mem \<Rightarrow> dt_arrays \<Rightarrow> dtb_tree_t \<Rightarrow> u32 \<Rightarrow> u32 option" where
  "seed_rng m d tree rng =
     Option.bind (dtb_find_node m d (Some tree) (ascii ''/chosen'')) (\<lambda>chosen.
       case chosen of
         None \<Rightarrow> Some rng
       | Some n \<Rightarrow>
           (case dtb_get_prop m d (Some n) (ascii ''rng-seed'') of
              None \<Rightarrow> Some rng
            | Some pr \<Rightarrow>
                if p_len pr \<ge> 4 then map_option sys_rng_seed (seed_loop m (p_data pr) (p_len pr) 0 0) else Some rng))"

text \<open>\<^verbatim>\<open>kmain\<close> up to the description of the RAM: the early heap, the tree and the seed. The result is the first memory range and
  the end of the early heap.\<close>

definition boot_tree :: "('d, 'f) machine \<Rightarrow> u32 \<Rightarrow> ('d, 'f) boot \<Rightarrow> (((u64 \<times> u64) \<times> u32) option \<times> ('d, 'f) boot) option" where
  "boot_tree M dtb b =
     Option.bind (uart_puts (kmem (b_kernel b)) (booting_at M) (k_uart (b_kernel b))) (\<lambda>(_, u).
       let b = upd_kernel (\<lambda>k. k\<lparr>k_uart := u\<rparr>) b; m = kmem (b_kernel b);
           dtb_size = bswap32 (rd32 m (dtb + 4));
           heap_base = align (dtb + dtb_size) 16;
           bump = early_malloc_init heap_base EARLY_HEAP_SIZE (b_bump b)
       in Option.bind (dtb_parse (Some early_malloc) (pool0 M) m dtb dtb_size (Some (tree0 M)) bump) (\<lambda>(e, tree, d, bump).
            let b = b\<lparr>b_bump := bump\<rparr>
            in case tree of
                 None \<Rightarrow> Some (None, b)
               | Some tree \<Rightarrow>
                   if e \<noteq> DTB_OK then Some (None, b)
                   else Option.bind (seed_rng m d tree (k_rng (b_kernel b))) (\<lambda>rng.
                     let b = upd_kernel (\<lambda>k. k\<lparr>k_rng := rng\<rparr>) b
                     in case t_memory tree of
                          [] \<Rightarrow> Some (None, b)
                        | ram_range # _ \<Rightarrow> Some (Some (ram_range, heap_base + EARLY_HEAP_SIZE), b))))"

definition boot_memory :: "('d, 'f) machine \<Rightarrow> u64 \<times> u64 \<Rightarrow> u32 \<Rightarrow> ('d, 'f) boot \<Rightarrow> ('d, 'f) boot outcome option" where
  "boot_memory M ram_range reserved_end b =
     (let kheap_va = align_up (bss_end_at M) PAGE_SIZE
      in bind_out (mm_init (kpb (plat M)) (ucast (fst ram_range)) (snd ram_range) reserved_end kheap_va (k_mm (b_kernel b))) (\<lambda>s.
           Some (Returns ((upd_kernel (\<lambda>k. k\<lparr>k_mm := s\<rparr>) b)\<lparr>b_bump := early_malloc_reset (b_bump b)\<rparr>))))"

text \<open>The firmware device, the screen, the UART and the block device.\<close>

definition boot_screen :: "('d, 'f) machine \<Rightarrow> ('d, 'f) boot \<Rightarrow> ('d, 'f) boot option" where
  "boot_screen M b =
     (let (ok, d) = fwcfg_init (fw_dev M) (b_fw b); k = b_kernel b
      in map_option (\<lambda>(ok, fb, d, s). b\<lparr>b_kernel := k\<lparr>k_fb := fb, k_mm := s\<rparr>, b_fw := d\<rparr>)
           (fb_init (fw_dev M) (kpb (plat M)) (kernel_table (plat M)) (fw_at M) (ramfb_at M) (k_fb k, d, k_mm k)))"

definition boot_drivers :: "('d, 'f) machine \<Rightarrow> ('d, 'f) boot \<Rightarrow> ('d, 'f) boot" where
  "boot_drivers M b =
     upd_kernel (\<lambda>k. k\<lparr>k_uart := snd (pl011_setup (dev_rd M) 24000000 (k_uart k)),
       k_blk := blk_init (dev_rd M) (kpb (plat M)) (symbols (plat M)) (k_blk k)\<rparr>) b"

definition boot_interrupts :: "('d, 'f) machine \<Rightarrow> ('d, 'f) boot \<Rightarrow> ('d, 'f) boot" where
  "boot_interrupts M b =
     (let b = upd_kernel (\<lambda>k. k\<lparr>k_kbd := kbd_init (dev_rd M) (kpb (plat M)) (kbd_queue_at M) (kbd_events_at M) (k_kbd k)\<rparr>) b;
          irq = kbd_irq (k_kbd (b_kernel b));
          b = (if irq \<noteq> 0 then gic_writes (gic_enable_irq (dev_rd M) irq) b else b);
          b = gic_writes (gic_dist_init @ gic_cpu_init @ gic_enable_irq (dev_rd M) UART_IRQ @ gic_enable_irq (dev_rd M) TIMER_IRQ) b;
          b = b\<lparr>b_cpsr := enable_interrupts (b_cpsr b)\<rparr>
      in upd_kernel (\<lambda>k. k\<lparr>k_timer := timer_set_tick (timer_freq M) (timer_now M) SCHED_INTERVAL (Some Sched_tick) (k_timer k)\<rparr>) b)"

definition boot_welcome :: "('d, 'f) machine \<Rightarrow> ('d, 'f) boot \<Rightarrow> ('d, 'f) boot option" where
  "boot_welcome M b =
     (let P = plat M; m = kmem (b_kernel b)
      in map_option (\<lambda>fb. upd_kernel (\<lambda>k. k\<lparr>k_fb := fb\<rparr>) b)
           (Option.bind (fb_print (font P) m (welcome_at M ! 0) FB_WHITE FB_BLACK (k_fb (b_kernel b)))
             (\<lambda>fb. Option.bind (fb_print (font P) m (welcome_at M ! 1) FB_BLUE FB_BLACK fb)
               (fb_print (font P) m (welcome_at M ! 2) FB_WHITE FB_BLACK))))"

definition boot_process :: "('d, 'f) machine \<Rightarrow> ('d, 'f) boot \<Rightarrow> (boot_end \<times> ('d, 'f) boot) outcome option" where
  "boot_process M b =
     bind_out (process_create (plat M) (init_at M) (b_kernel b)) (\<lambda>(p, k).
       Some (Returns (if p = 0 then (Halted, b\<lparr>b_kernel := k\<rparr>) else (Runs p, b\<lparr>b_kernel := process_exec (plat M) p k\<rparr>))))"

text \<open>The part of \<^verbatim>\<open>kmain\<close> behind the memory manager, and the whole.\<close>

definition boot_system :: "('d, 'f) machine \<Rightarrow> ('d, 'f) boot \<Rightarrow> (boot_end \<times> ('d, 'f) boot) outcome option" where
  "boot_system M b =
     Option.bind (boot_screen M b) (\<lambda>b.
       let b = boot_drivers M b
       in bind_out (fs_mount (plat M) 0 (b_kernel b)) (\<lambda>(ok, k).
            let b = b\<lparr>b_kernel := k\<rparr>
            in if \<not> ok then Some (Returns (Halted, b))
               else Option.bind (boot_welcome M (boot_interrupts M b)) (boot_process M)))"

definition kmain :: "('d, 'f) machine \<Rightarrow> u32 \<Rightarrow> ('d, 'f) boot \<Rightarrow> (boot_end \<times> ('d, 'f) boot) outcome option" where
  "kmain M dtb b =
     Option.bind (boot_tree M dtb b) (\<lambda>(found, b).
       case found of
         None \<Rightarrow> Some (Returns (Halted, b))
       | Some (ram_range, reserved_end) \<Rightarrow> bind_out (boot_memory M ram_range reserved_end b) (boot_system M))"

section \<open>The seed\<close>

text \<open>The bytes of \<^verbatim>\<open>rng-seed\<close> under \<^verbatim>\<open>/chosen\<close>, and what they make of the generator.\<close>

definition tree_seed :: "dtree \<Rightarrow> u8 list option" where
  "tree_seed t = Option.bind (walk t [ascii ''chosen'']) (\<lambda>c. map_of (d_props c) (ascii ''rng-seed''))"

definition seed_word :: "u8 list \<Rightarrow> nat \<Rightarrow> u32" where
  "seed_word ds c = be32_list (take 4 (drop (4 * c) ds))"

definition seeded :: "u32 \<Rightarrow> dtree \<Rightarrow> u32" where
  "seeded rng t =
     (case tree_seed t of
        Some ds \<Rightarrow> if 4 \<le> length ds then sys_rng_seed (fold (\<lambda>c x. x XOR seed_word ds c) [0..<length ds div 4] 0) else rng
      | None \<Rightarrow> rng)"

lemma seed_loop_fold:
  assumes ds: "\<forall>k < length ds. m (data + w32 k) = ds ! k" and small: "length ds + 4 < 2 ^ 32"
  shows "c \<le> length ds div 4 \<Longrightarrow> seed_loop m data (w32 (length ds)) (w32 (4 * c)) x =
    Some (fold (\<lambda>c x. x XOR seed_word ds c) [c..<length ds div 4] x)"
proof (induction "length ds div 4 - c" arbitrary: c x)
  case 0
  then have c: "c = length ds div 4" by simp
  have "unat (w32 (4 * c) + 4) = 4 * c + 4" using small c unat_w32 [of "4 * c + 4"] by (simp add: of_nat_add)
  then have "\<not> w32 (4 * c) + 4 \<le> w32 (length ds)" using small c by (simp add: word_le_nat_alt unat_w32)
  then show ?case using c by (subst seed_loop.simps) simp
next
  case (Suc n)
  then have c: "c < length ds div 4" by simp
  then have le: "4 * c + 4 \<le> length ds" by linarith
  then have "unat (w32 (4 * c) + 4) = 4 * c + 4" using small unat_w32 [of "4 * c + 4"] by (simp add: of_nat_add)
  then have go: "w32 (4 * c) + 4 \<le> w32 (length ds)" using small le by (simp add: word_le_nat_alt unat_w32)
  have "be32_read m (data + w32 (4 * c)) = seed_word ds c"
    unfolding seed_word_def
  proof (rule be32_list_at)
    show "length (take 4 (drop (4 * c) ds)) = 4" using le by simp
    have "m (data + w32 (4 * c) + w32 k) = ds ! (4 * c + k)" if "k < 4" for k
      using ds [rule_format, of "4 * c + k"] le that by (simp add: algebra_simps)
    then show "\<forall>k < length (take 4 (drop (4 * c) ds)). m (data + w32 (4 * c) + w32 k) = take 4 (drop (4 * c) ds) ! k"
      using le by simp
  qed
  moreover have "w32 (4 * c) + 4 = w32 (4 * Suc c)" by simp
  moreover have "[c..<length ds div 4] = c # [Suc c..<length ds div 4]" using c by (simp add: upt_conv_Cons)
  ultimately show ?case
    using Suc.hyps(1) [of "Suc c" "x XOR seed_word ds c"] Suc.hyps(2) c go by (subst seed_loop.simps) (simp add: add.commute)
qed

lemma seed_rng_tree:
  assumes "rep m d 0 0 t" "t_root tree = Some 0" "\<forall>ds. tree_seed t = Some ds \<longrightarrow> length ds + 4 < 2 ^ 32"
  shows "seed_rng m d tree rng = Some (seeded rng t)"
proof -
  have path: "ascii ''/chosen'' = 47 # ascii ''chosen''" by (simp add: ascii_def)
  have names: "0 \<notin> set (ascii ''chosen'')" "0 \<notin> set (ascii ''rng-seed'')" by (simp_all add: ascii_def)
  have segs: "segments (ascii ''chosen'') = [ascii ''chosen'']" by (simp add: ascii_def segments.simps)
  obtain r where r: "dtb_find_node m d (Some tree) (ascii ''/chosen'') = Some r" "found m d (walk t [ascii ''chosen'']) r"
    using find_path_rep [OF names(1) assms(1)] assms(2) segs by (auto simp: path dtb_find_node_def found_def)
  show ?thesis
  proof (cases "walk t [ascii ''chosen'']")
    case None
    then show ?thesis using r by (simp add: seed_rng_def found_def seeded_def tree_seed_def)
  next
    case (Some c)
    then obtain i b where i: "r = Some i" "rep m d i b c" using r(2) by (auto simp: found_def)
    show ?thesis
    proof (cases "map_of (d_props c) (ascii ''rng-seed'')")
      case None
      then show ?thesis
        using r(1) i dtb_get_prop_rep [OF i(2) names(2)] Some by (simp add: seed_rng_def seeded_def tree_seed_def)
    next
      case ds: (Some ds)
      then obtain pr where pr: "dtb_get_prop m d (Some i) (ascii ''rng-seed'') = Some pr" "prop_is m pr (ascii ''rng-seed'', ds)"
        using dtb_get_prop_rep [OF i(2) names(2)] by auto
      have t: "tree_seed t = Some ds" using Some ds by (simp add: tree_seed_def)
      then have small: "length ds + 4 < 2 ^ 32" using assms(3) by blast
      have len: "p_len pr = w32 (length ds)" using pr(2) by (metis prop_is_def snd_conv w32_unat)
      have "p_len pr \<ge> 4 \<longleftrightarrow> 4 \<le> length ds" using len small by (simp add: word_le_nat_alt unat_w32)
      moreover have "seed_loop m (p_data pr) (p_len pr) 0 0 = Some (fold (\<lambda>c x. x XOR seed_word ds c) [0..<length ds div 4] 0)"
        using seed_loop_fold [OF _ small, of m "p_data pr" 0 0] pr(2) len by (simp add: prop_is_def)
      ultimately show ?thesis using r(1) i(1) pr(1) t by (simp add: seed_rng_def seeded_def)
    qed
  qed
qed

section \<open>Up to the memory manager\<close>

lemma uart_puts_from_text: "cstr_at m p xs \<Longrightarrow> uart_puts_from m s p u = Some (p + w32 (length xs) - s, u\<lparr>uart_tx := uart_tx u @ xs\<rparr>)"
proof (induction xs arbitrary: p u)
  case Nil
  then show ?case by (subst uart_puts_from.simps) simp
next
  case (Cons x xs)
  then show ?case by (subst uart_puts_from.simps) (simp add: uart_putchar_def algebra_simps)
qed

text \<open>The early heap serves the parser and keeps its start.\<close>

lemma early_heap_kept:
  assumes "0 < base" "unat base + 0x20000 < 2 ^ 32"
  obtains s' where "alloc_ok early_malloc (early_malloc_init base 0x20000 s) s'" "early_heap_base s' = base"
proof -
  obtain s' where s': "alloc_ok early_malloc (early_malloc_init base 0x20000 s) s'"
    using early_malloc_serves_dtb_parse [OF assms, of s] by blast
  then have "early_heap_base s' = base"
    by (auto simp: alloc_ok_def early_malloc_def early_malloc_init_def Let_def split: if_splits)
  then show ?thesis using s' that by blast
qed

text \<open>C5: On a machine whose device tree is well formed and describes RAM that holds the kernel, \<^verbatim>\<open>kmain\<close> reaches the part
  that starts the devices; by then both allocators stand in their initial state on exactly the first memory range of the tree,
  the random number generator is seeded with the words of \<^verbatim>\<open>/chosen/rng-seed\<close>, the early heap is empty again, and the greeting
  has been sent.\<close>

theorem kmain_reaches_system:
  assumes tree: "dtb_header (kmem (b_kernel b)) dtb (be32_read (kmem (b_kernel b)) (dtb + 4))"
      "dtb_struct (kmem (b_kernel b)) (dtb_parser (kmem (b_kernel b)) dtb (pool0 M)) n nm its" "dtb_fits its"
      "memory_wf (tree_of nm its)" "length (pool0 M) = 1024"
    and hello: "cstr_at (kmem (b_kernel b)) (booting_at M) hello"
    and heap: "base = align (dtb + be32_read (kmem (b_kernel b)) (dtb + 4)) 16" "0 < base" "unat base + 0x20000 < 2 ^ 32"
    and seed: "\<forall>ds. tree_seed (tree_of nm its) = Some ds \<longrightarrow> length ds + 4 < 2 ^ 32"
    and ram: "memory_of (tree_of nm its) = (rb, rs) # ranges" "0 < rs" "unat (ucast rb :: u32) + 4096 \<le> 2 ^ 32"
    and boot: "kva = align_up (bss_end_at M) 4096"
      "boot_ok (align_up (ucast rb) 4096) (align_down (clamp_end (ucast rb) rs) 4096) (base + 0x20000) kva (virt_to_phys (kpb (plat M)) kva)"
  shows "\<exists>b'. kmain M dtb b = boot_system M b' \<and> pmm_ok (k_mm (b_kernel b')) \<and>
    heap_rep (k_mm (b_kernel b')) [(unat kva, 0x1FFFF4, False)] \<and>
    ram_base (g_pmm (k_mm (b_kernel b'))) = align_up (ucast rb) 4096 \<and>
    ram_end (g_pmm (k_mm (b_kernel b'))) = align_down (clamp_end (ucast rb) rs) 4096 \<and>
    k_rng (b_kernel b') = seeded (k_rng (b_kernel b)) (tree_of nm its) \<and> early_heap_ptr (b_bump b') = base \<and>
    uart_tx (k_uart (b_kernel b')) = uart_tx (k_uart (b_kernel b)) @ hello"
proof -
  let ?m = "kmem (b_kernel b)" and ?t = "tree_of nm its" and ?size = "be32_read (kmem (b_kernel b)) (dtb + 4)"
  obtain bump' where bump': "alloc_ok early_malloc (early_malloc_init base 0x20000 (b_bump b)) bump'" "early_heap_base bump' = base"
    by (rule early_heap_kept [OF heap(2,3)])
  obtain tree d where parse: "dtb_parse (Some early_malloc) (pool0 M) ?m dtb ?size (Some (tree0 M)) (early_malloc_init base 0x20000 (b_bump b)) =
      Some (DTB_OK, Some tree, d, bump')" "t_root tree = Some 0" "rep ?m d 0 0 ?t" "t_memory tree = memory_of ?t"
    using dtb_parse_tree [OF tree(1-3,5) bump'(1) tree(4), of "tree0 M"] by blast
  let ?u = "(k_uart (b_kernel b))\<lparr>uart_tx := uart_tx (k_uart (b_kernel b)) @ hello\<rparr>"
  let ?b = "b\<lparr>b_kernel := (b_kernel b)\<lparr>k_uart := ?u, k_rng := seeded (k_rng (b_kernel b)) ?t\<rparr>, b_bump := bump'\<rparr>"
  have "boot_tree M dtb b = Some (Some ((rb, rs), base + 0x20000), ?b)"
    using parse seed_rng_tree [OF parse(3,2) seed] ram(1) uart_puts_from_text [OF hello]
    by (simp add: boot_tree_def uart_puts_def Let_def heap(1) [symmetric] be32_read_bswap32 [symmetric])
  moreover obtain s' where s': "mm_init (kpb (plat M)) (ucast rb) rs (base + 0x20000) kva (k_mm (b_kernel b)) = Some (Returns s')" "pmm_ok s'"
      "heap_rep s' [(unat kva, 0x1FFFF4, False)]" "ram_base (g_pmm s') = align_up (ucast rb) 4096"
      "ram_end (g_pmm s') = align_down (clamp_end (ucast rb) rs) 4096"
    using mm_init_establishes [OF ram(2) boot(2) refl ram(3) refl refl refl refl, of "k_mm (b_kernel b)"] by blast
  let ?b' = "?b\<lparr>b_kernel := (b_kernel ?b)\<lparr>k_mm := s'\<rparr>, b_bump := early_malloc_reset bump'\<rparr>"
  have "boot_memory M (rb, rs) (base + 0x20000) ?b = Some (Returns ?b')"
    using s'(1) boot(1) by (simp add: boot_memory_def)
  ultimately have "kmain M dtb b = boot_system M ?b'" by (simp add: kmain_def)
  then show ?thesis using s'(2-) bump'(2) by (intro exI [of _ ?b'] conjI) (simp_all add: early_malloc_reset_def)
qed

text \<open>A machine whose device tree describes 128 MB of RAM from \<^verbatim>\<open>0x40000000\<close> on.\<close>

definition machine1 :: "(nat \<Rightarrow> u8, u8 list) machine" where
  "machine1 = \<lparr>plat = plat0, dev_rd = (\<lambda>_. 0), timer_freq = 62500000, timer_now = 0, fw_dev = fwdemo_fw,
     fw_at = \<lparr>dma_cmd_at = 0xC0300000, fname_at = 0xC0300100, ramfb_cfg_at = 0xC0300200\<rparr>, bss_end_at = 0xC03FF800,
     kbd_queue_at = 0xC0310000, kbd_events_at = 0xC0312000, tree0 = empty_tree,
     pool0 = replicate 1024 \<lparr>p_name = 0, p_data = 0, p_len = 0, p_type = DTB_VAL_EMPTY\<rparr>, booting_at = 0x40000038,
     ramfb_at = 0xC0300300, init_at = 0xC0300310, welcome_at = [0xC0300320, 0xC0300330, 0xC0300340]\<rparr>"

definition boot1 :: "(nat \<Rightarrow> u8, u8 list) boot" where
  "boot1 = \<lparr>b_kernel = kern0\<lparr>k_mm := heap0\<lparr>mem := blob_mem 0x40000000 blob_bytes\<rparr>\<rparr>, b_bump = bump0, b_fw = [], b_gic = [],
     b_cpsr = 0x1D3\<rparr>"

lemma boot1_ram:
  "boot_ok (align_up (ucast (0x40000000 :: u64)) 4096) (align_down (clamp_end (ucast (0x40000000 :: u64)) 0x8000000) 4096)
     (0x40000090 + 0x20000) 0xC0400000 (virt_to_phys (kpb (plat machine1)) 0xC0400000)"
  by (simp add: boot_ok_def bitmap_len_def align_up_def align_down_def clamp_end_def virt_to_phys_def machine1_def plat0_def)

theorem kmain_reaches_system_witness:
  "\<exists>b'. kmain machine1 0x40000000 boot1 = boot_system machine1 b' \<and> pmm_ok (k_mm (b_kernel b')) \<and>
     k_rng (b_kernel b') = 0xDEADBEEF"
proof -
  have k: "kmem (b_kernel boot1) = blob_mem 0x40000000 blob_bytes" "k_rng (b_kernel boot1) = 0xDEADBEEF"
    by (simp_all add: boot1_def kern0_def)
  have size: "be32_read (blob_mem 0x40000000 blob_bytes) (0x40000000 + 4) = 131"
    by (simp add: be32_read_def blob_mem_def blob_bytes Let_def)
  have wf: "memory_wf (tree_of [] demo_items)" unfolding demo_tree unfolding memory_wf_def device_type_def ascii_def by simp
  have fits: "dtb_fits demo_items" by (simp add: dtb_fits_def)
  have pool: "length (pool0 machine1) = 1024" by (simp add: machine1_def)
  have hello: "cstr_at (blob_mem 0x40000000 blob_bytes) (booting_at machine1) (ascii ''memory'')"
    by (simp add: machine1_def blob_mem_def blob_bytes Let_def ascii_def)
  have base: "0x40000090 = align (0x40000000 + be32_read (blob_mem 0x40000000 blob_bytes) (0x40000000 + 4)) 16"
    unfolding size by (simp add: align_def)
  have none: "tree_seed (tree_of [] demo_items) = None"
    unfolding demo_tree by (simp add: tree_seed_def seg_matches_def ascii_def)
  have kva: "0xC0400000 = align_up (bss_end_at machine1) 4096" by (simp add: machine1_def align_up_def)
  have "\<exists>b'. kmain machine1 0x40000000 boot1 = boot_system machine1 b' \<and> pmm_ok (k_mm (b_kernel b')) \<and>
      heap_rep (k_mm (b_kernel b')) [(unat (0xC0400000 :: u32), 0x1FFFF4, False)] \<and>
      ram_base (g_pmm (k_mm (b_kernel b'))) = align_up (ucast (0x40000000 :: u64)) 4096 \<and>
      ram_end (g_pmm (k_mm (b_kernel b'))) = align_down (clamp_end (ucast (0x40000000 :: u64)) 0x8000000) 4096 \<and>
      k_rng (b_kernel b') = seeded (k_rng (b_kernel boot1)) (tree_of [] demo_items) \<and> early_heap_ptr (b_bump b') = 0x40000090 \<and>
      uart_tx (k_uart (b_kernel b')) = uart_tx (k_uart (b_kernel boot1)) @ ascii ''memory''"
    by (rule kmain_reaches_system [of boot1, unfolded k(1), where n = 1, OF _ demo_struct fits wf pool hello base _ _ _ demo_memory _ _ kva boot1_ram])
      (simp_all add: size [simplified] demo_header none)
  then show ?thesis using none by (auto simp: k(2) seeded_def)
qed

section \<open>The boot code\<close>

text \<open>After \<^verbatim>\<open>kboot\<close> the kernel lies at its place, its static variables are zero, the entry for the flash is gone, and nothing
  else has changed.\<close>

lemma kboot_correct:
  assumes main: "unat (main_beg L) \<le> unat (main_end L)"
    and load: "unat (load_beg L) + (unat (main_end L) - unat (main_beg L)) \<le> unat (main_beg L)"
    and bss: "unat (main_end L) \<le> unat (bss_from L)" "unat (bss_from L) \<le> unat (bss_to L)"
    and tt: "is_table (kernel_tt L) 1" "unat (bss_to L) \<le> unat (kernel_tt L)"
  shows "\<exists>c' m'. kboot L dtb (c, m) = ((dtb AND NOT 0xFFFFF) + KPHYS_OFFSET, c', m') \<and>
    (\<forall>a. unat (main_beg L) \<le> unat a \<and> unat a < unat (main_end L) \<longrightarrow> m' a = m (a - main_beg L + load_beg L)) \<and>
    (\<forall>a. unat (bss_from L) \<le> unat a \<and> unat a < unat (bss_to L) \<longrightarrow> m' a = 0) \<and> entry m' (kernel_tt L) 0 = 0 \<and>
    (\<forall>a. unat a < unat (main_beg L) \<longrightarrow> m' a = m a) \<and> cp_vbar c' = vtable_at L"
proof -
  let ?n = "unat (main_end L - main_beg L)" and ?z = "unat (bss_to L - bss_from L)"
  have n: "?n = unat (main_end L) - unat (main_beg L)" using main by (simp add: unat_sub word_le_nat_alt)
  have z: "?z = unat (bss_to L) - unat (bss_from L)" using bss by (simp add: unat_sub word_le_nat_alt)
  have zz: "(if bss_from L < bss_to L then ?z else 0) = ?z" using bss(2) z by (auto simp: word_less_nat_alt)
  define m1 where "m1 = copy_up ?n (main_beg L) (load_beg L) m"
  define m2 where "m2 = fill_up ?z (bss_from L) 0 m1"
  have m1: "m1 a = (if in_region (main_beg L) ?n a then m (a - main_beg L + load_beg L) else m a)" for a
    unfolding m1_def using main load n unat_lt_32 [of "main_end L"] unat_lt_32 [of "main_beg L"] by (intro copy_up_apply) linarith+
  have m2: "m2 a = (if in_region (bss_from L) ?z a then 0 else m1 a)" for a
    unfolding m2_def using bss z unat_lt_32 [of "bss_to L"] by (intro fill_up_apply) linarith
  have low: "set_entry (kernel_tt L) 0 0 m2 a = m2 a" if "unat a < unat (bss_to L)" for a
  proof -
    have t: "unat (kernel_tt L) + 4 \<le> 2 ^ 32" using tt(1) by (simp add: is_table_def)
    have "a \<noteq> kernel_tt L" "a \<noteq> kernel_tt L + 1" "a \<noteq> kernel_tt L + 2" "a \<noteq> kernel_tt L + 3"
      using that tt(2) t unat_add_no_wrap [of "kernel_tt L" 1] unat_add_no_wrap [of "kernel_tt L" 2] unat_add_no_wrap [of "kernel_tt L" 3]
      by (auto simp: word_unat_eq_iff)
    then show ?thesis by (simp add: set_entry_def wr32_apply_other)
  qed
  have "entry (set_entry (kernel_tt L) 0 0 m2) (kernel_tt L) 0 = 0" using entry_set_same [OF tt(1), of 0 0 0 m2] by simp
  moreover have "kboot L dtb (c, m) = ((dtb AND NOT 0xFFFFF) + KPHYS_OFFSET, c\<lparr>cp_vbar := vtable_at L\<rparr>, set_entry (kernel_tt L) 0 0 m2)"
    by (simp add: kboot_def Let_def zz m2_def m1_def)
  ultimately show ?thesis
    using low m1 m2 n z main bss load by (intro exI conjI) (auto simp: in_region_def)
qed

end
