(* ===== verification/Leg_Format.thy ===== *)
theory Leg_Format
  imports Leg_Stdlib "HOL-Library.Stream"
begin

text \<open>
  What the print routines of the kernel and of the C library promise: the text of a format string with its
  arguments, and the strings that the number routines leave in the local buffers of the callers.
\<close>

section \<open>Characters\<close>

abbreviation (input) CH_PERCENT :: u8 where "CH_PERCENT \<equiv> 0x25"
abbreviation (input) CH_b :: u8 where "CH_b \<equiv> 0x62"
abbreviation (input) CH_c :: u8 where "CH_c \<equiv> 0x63"
abbreviation (input) CH_d :: u8 where "CH_d \<equiv> 0x64"
abbreviation (input) CH_i :: u8 where "CH_i \<equiv> 0x69"
abbreviation (input) CH_n :: u8 where "CH_n \<equiv> 0x6E"
abbreviation (input) CH_o :: u8 where "CH_o \<equiv> 0x6F"
abbreviation (input) CH_p :: u8 where "CH_p \<equiv> 0x70"
abbreviation (input) CH_s :: u8 where "CH_s \<equiv> 0x73"
abbreviation (input) CH_t :: u8 where "CH_t \<equiv> 0x74"
abbreviation (input) CH_u :: u8 where "CH_u \<equiv> 0x75"
abbreviation (input) CH_x :: u8 where "CH_x \<equiv> 0x78"

text \<open>String literals of the source as bytes.\<close>

definition lit :: "string \<Rightarrow> u8 list" where
  "lit s = map of_char s"

text \<open>\<^verbatim>\<open>"\033[97m"\<close>, \<^verbatim>\<open>"\033[31;49m"\<close> and \<^verbatim>\<open>"\033[0m"\<close>.\<close>

definition ESC_WHITE :: "u8 list" where
  "ESC_WHITE = 0x1B # lit ''[97m''"

definition ESC_RED :: "u8 list" where
  "ESC_RED = 0x1B # lit ''[31;49m''"

definition ESC_RESET :: "u8 list" where
  "ESC_RESET = 0x1B # lit ''[0m''"

section \<open>The text of an argument\<close>

definition int_text :: "u32 \<Rightarrow> u8 list" where
  "int_text v = (if sint v < 0 then 0x2D # numeral_bytes 10 (unat (- v)) else numeral_bytes 10 (unat v))"

text \<open>\<open>str a\<close> is the string at the address \<open>a\<close>; a character that is no conversion has no text.\<close>

definition conv_text :: "(u32 \<Rightarrow> u8 list) \<Rightarrow> u8 \<Rightarrow> u32 \<Rightarrow> u8 list option" where
  "conv_text str t a =
     (if t = CH_s then Some (str a)
      else if t = CH_c then Some [ucast a]
      else if t = CH_d \<or> t = CH_i then Some (int_text a)
      else if t = CH_u then Some (numeral_bytes 10 (unat a))
      else if t = CH_x then Some (numeral_bytes 16 (unat a))
      else if t = CH_o then Some (numeral_bytes 8 (unat a))
      else if t = CH_b then Some (numeral_bytes 2 (unat a))
      else if t = CH_t then Some (lit (if a \<noteq> 0 then ''true'' else ''false''))
      else if t = CH_p then Some (map digit_char (nibbles a))
      else None)"

text \<open>With the colours of \<^verbatim>\<open>pprintf\<close>.\<close>

definition pretty_text :: "(u32 \<Rightarrow> u8 list) \<Rightarrow> u8 \<Rightarrow> u32 \<Rightarrow> u8 list option" where
  "pretty_text str t a =
     map_option (\<lambda>w. if t = CH_s \<or> t = CH_c then w else (if t = CH_p then ESC_RED else ESC_WHITE) @ w @ ESC_RESET) (conv_text str t a)"

fun render :: "(u8 \<Rightarrow> u32 \<Rightarrow> u8 list option) \<Rightarrow> u8 list \<Rightarrow> u32 stream \<Rightarrow> u8 list" where
  "render conv [] args = []"
| "render conv [x] args = (if x = CH_PERCENT then [] else [x])"
| "render conv (x # t # xs) args =
     (if x \<noteq> CH_PERCENT then x # render conv (t # xs) args
      else case conv t (shd args) of
        Some w \<Rightarrow> w @ render conv xs (stl args)
      | None \<Rightarrow> (if t = CH_PERCENT then [t] else lit ''?%'' @ [t]) @ render conv xs args)"

text \<open>
  A format string that the routines can run: no lone percent sign at the end, string arguments among the \<open>good\<close>
  pointers, and, for the routines that stop at an unknown conversion, none of those.
\<close>

fun fmt_ok :: "bool \<Rightarrow> (u32 \<Rightarrow> bool) \<Rightarrow> u8 list \<Rightarrow> u32 stream \<Rightarrow> bool" where
  "fmt_ok strict good [] args = True"
| "fmt_ok strict good [x] args = (x \<noteq> CH_PERCENT)"
| "fmt_ok strict good (x # t # xs) args =
     (if x \<noteq> CH_PERCENT then fmt_ok strict good (t # xs) args
      else if conv_text (\<lambda>_. []) t (shd args) \<noteq> None
      then (t = CH_s \<longrightarrow> good (shd args)) \<and> fmt_ok strict good xs (stl args)
      else (strict \<longrightarrow> t = CH_PERCENT) \<and> fmt_ok strict good xs args)"

lemma conv_text_None: "conv_text str t a = None \<longleftrightarrow> conv_text str' t a' = None"
  by (simp add: conv_text_def)

section \<open>Numbers in a buffer\<close>

text \<open>Memory outside \<open>n\<close> bytes from \<open>buf\<close> is unchanged.\<close>

definition only :: "u32 \<Rightarrow> nat \<Rightarrow> mem \<Rightarrow> mem \<Rightarrow> bool" where
  "only buf n m m' \<longleftrightarrow> (\<forall>b. (\<forall>k < n. b \<noteq> buf + w32 k) \<longrightarrow> m' b = m b)"

lemma only_refl [simp]: "only buf n m m"
  by (simp add: only_def)

lemma only_trans: "only buf n m m' \<Longrightarrow> only buf n m' m'' \<Longrightarrow> only buf n m m''"
  by (simp add: only_def)

lemma only_mono: "only buf n m m' \<Longrightarrow> n \<le> n' \<Longrightarrow> only buf n' m m'"
  by (auto simp: only_def)

lemma length_decimal: "length (numeral_bytes 10 (unat (v :: u32))) \<le> 10"
proof -
  have l: "u < 10 ^ Suc n \<Longrightarrow> length (digits 10 u) \<le> Suc n" for u n
  proof (induction n arbitrary: u)
    case 0
    then show ?case by (simp add: digits.simps)
  next
    case (Suc n)
    show ?case
    proof (cases "u < 10")
      case False
      then have "length (digits 10 (u div 10)) \<le> Suc n" using Suc by simp
      then show ?thesis using False by (subst digits.simps) simp
    qed (simp add: digits.simps)
  qed
  have "unat v < 10 ^ Suc 9" using less_trans [OF unat_lt_32 [of v], of "10 ^ Suc 9"] by simp
  from l [OF this] show ?thesis by (simp add: numeral_bytes_def)
qed

lemma utoa_text:
  assumes "radix \<in> {2, 8, 10, 16}"
  obtains m' where "utoa v buf radix m = Some (buf, m')" "cstr_at m' buf (numeral_bytes (unat radix) (unat v))" "only buf 33 m m'"
    "radix = 10 \<Longrightarrow> only buf 11 m m'"
proof -
  let ?ds = "numeral_bytes (unat radix) (unat v)"
  have r: "2 \<le> unat radix" "unat radix \<le> 36" using assms by auto
  obtain m' where m': "utoa v buf radix m = Some (buf, m')" "cstr_at m' buf ?ds" "length ?ds \<le> 32"
    "\<forall>b. (\<forall>k \<le> length ?ds. b \<noteq> buf + w32 k) \<longrightarrow> m' b = m b"
    using utoa_digits [OF r, of v buf m] by blast
  have o: "only buf (Suc (length ?ds)) m m'" using m'(4) by (simp add: only_def less_Suc_eq_le)
  show ?thesis
  proof
    show "only buf 33 m m'" using only_mono [OF o] m'(3) by simp
    show "only buf 11 m m'" if "radix = 10" using only_mono [OF o, of 11] length_decimal [of v] that by simp
  qed (rule m'(1,2))+
qed

lemma itoa_text:
  obtains r m' where "itoa v buf 10 m = Some (r, m')" "cstr_at m' buf (int_text v)" "only buf 12 m m'"
proof (cases "sint v < 0")
  case False
  have "(10 :: u8) \<in> {2, 8, 10, 16}" by simp
  then obtain m' where m': "utoa v buf 10 m = Some (buf, m')" "cstr_at m' buf (numeral_bytes (unat (10 :: u8)) (unat v))" "only buf 11 m m'"
    by (rule utoa_text) simp
  then show ?thesis using that [of buf m'] False only_mono [OF m'(3), of 12] by (simp add: itoa_def int_text_def)
next
  case True
  have "(10 :: u8) \<in> {2, 8, 10, 16}" by simp
  then obtain m' where m': "utoa (- v) (buf + 1) 10 (m(buf := 0x2D)) = Some (buf + 1, m')"
    "cstr_at m' (buf + 1) (numeral_bytes (unat (10 :: u8)) (unat (- v)))" "only (buf + 1) 11 (m(buf := 0x2D)) m'"
    by (rule utoa_text) simp
  have "buf \<noteq> buf + 1 + w32 k" if "k < 11" for k
    using that w32_eq_0_iff [of "Suc k"] by (simp add: add.assoc)
  then have "m' buf = 0x2D" using m'(3) by (simp add: only_def)
  moreover have "only buf 12 m m'"
    unfolding only_def
  proof (intro allI impI)
    fix b assume b: "\<forall>k < 12. b \<noteq> buf + w32 k"
    have "b \<noteq> buf + 1 + w32 k" if "k < 11" for k using b [rule_format, of "Suc k"] that by (simp add: add.assoc)
    moreover have "b \<noteq> buf" using b [rule_format, of 0] by simp
    ultimately show "m' b = m b" using m'(3) by (simp add: only_def)
  qed
  ultimately show ?thesis using that [of "buf + 1" m'] True m'(1,2) by (simp add: itoa_def int_text_def)
qed

lemma hex_text: "cstr_at (snd (hex32be v buf m)) buf (map digit_char (nibbles v))" "only buf 9 m (snd (hex32be v buf m))"
proof -
  show "cstr_at (snd (hex32be v buf m)) buf (map digit_char (nibbles v))" by (rule hex32be_cstr)
  show "only buf 9 m (snd (hex32be v buf m))"
    unfolding only_def
  proof (intro allI impI)
    fix b assume b: "\<forall>k < 9. b \<noteq> buf + w32 k"
    from b [rule_format, of 0] b [rule_format, of 1] b [rule_format, of 2] b [rule_format, of 3] b [rule_format, of 4]
      b [rule_format, of 5] b [rule_format, of 6] b [rule_format, of 7] b [rule_format, of 8]
    show "snd (hex32be v buf m) b = m b" by (simp add: hex32be_def wr16_def add.assoc Let_def)
  qed
qed

text \<open>A string that lies apart from the buffer.\<close>

definition str_safe :: "mem \<Rightarrow> u32 \<Rightarrow> u32 \<Rightarrow> u8 list \<Rightarrow> bool" where
  "str_safe m buf a xs \<longleftrightarrow> cstr_at m a xs \<and> (\<forall>i \<le> length xs. \<forall>k < 34. a + w32 i \<noteq> buf + w32 k)"

lemma str_safe_only: "str_safe m buf a xs \<Longrightarrow> only buf 34 m m' \<Longrightarrow> str_safe m' buf a xs"
  using cstr_at_cong [of xs m' a m] by (simp add: str_safe_def only_def)

lemma str_safe_Cons: "str_safe m buf a (x # xs) \<Longrightarrow> m a = x \<and> x \<noteq> 0 \<and> str_safe m buf (a + 1) xs"
proof -
  assume s: "str_safe m buf a (x # xs)"
  have apart: "\<forall>i \<le> length (x # xs). \<forall>k < 34. a + w32 i \<noteq> buf + w32 k" using s unfolding str_safe_def by blast
  have "a + 1 + w32 i \<noteq> buf + w32 k" if "i \<le> length xs" "k < 34" for i k
    using apart [rule_format, of "Suc i" k] that by (simp add: add.assoc)
  then show ?thesis using s by (simp add: str_safe_def)
qed

lemma str_safe_Nil: "str_safe m buf a [] \<Longrightarrow> m a = 0"
  by (simp add: str_safe_def)

lemma str_safe_below:
  assumes "cstr_at m a xs" "unat a + length xs < unat buf" "unat buf + 34 \<le> 2 ^ 32"
  shows "str_safe m buf a xs"
  unfolding str_safe_def
proof (intro conjI allI impI assms(1))
  fix i k :: nat assume ik: "i \<le> length xs" "k < 34"
  then have "i < 2 ^ 32" using assms by linarith
  then have "unat (a + w32 i) = unat a + i" using unat_add_no_wrap [of a "w32 i"] ik assms by (simp add: unat_w32)
  moreover have "unat (buf + w32 k) = unat buf + k" using unat_add_no_wrap [of buf "w32 k"] ik assms by (simp add: unat_w32)
  ultimately have "unat (a + w32 i) < unat (buf + w32 k)" using ik assms by linarith
  then show "a + w32 i \<noteq> buf + w32 k" by auto
qed

text \<open>For the examples: the format \<^verbatim>\<open>"%d %s%%"\<close> at \<open>0x1000\<close> and the string \<^verbatim>\<open>"hi"\<close> at \<open>0x2000\<close>.\<close>

definition mem_fmt :: mem where
  "mem_fmt = (\<lambda>_. 0)(0x1000 := 0x25, 0x1001 := 0x64, 0x1002 := 0x20, 0x1003 := 0x25, 0x1004 := 0x73, 0x1005 := 0x25, 0x1006 := 0x25,
     0x2000 := 0x68, 0x2001 := 0x69)"

abbreviation fmt_bytes :: "u8 list" where "fmt_bytes \<equiv> [0x25, 0x64, 0x20, 0x25, 0x73, 0x25, 0x25]"
abbreviation hi_bytes :: "u8 list" where "hi_bytes \<equiv> [0x68, 0x69]"
abbreviation fmt_args :: "u32 stream" where "fmt_args \<equiv> (- 7) ## 0x2000 ## sconst 0"

lemma mem_fmt_safe: "str_safe mem_fmt 0x3000 0x1000 fmt_bytes" "\<forall>a. a = 0x2000 \<longrightarrow> str_safe mem_fmt 0x3000 a hi_bytes"
proof -
  have "cstr_at mem_fmt 0x1000 fmt_bytes" "cstr_at mem_fmt 0x2000 hi_bytes" by (simp_all add: mem_fmt_def)
  then show "str_safe mem_fmt 0x3000 0x1000 fmt_bytes" "\<forall>a. a = 0x2000 \<longrightarrow> str_safe mem_fmt 0x3000 a hi_bytes"
    by (auto intro!: str_safe_below)
qed

lemma fmt_bytes_ok: "fmt_ok True (\<lambda>a. a = 0x2000) fmt_bytes fmt_args" "fmt_ok False (\<lambda>a. a = 0x2000) fmt_bytes fmt_args"
  by (simp_all add: conv_text_def)

lemma fmt_bytes_text: "render (conv_text (\<lambda>_. hi_bytes)) fmt_bytes fmt_args = [0x2D, 0x37, 0x20, 0x68, 0x69, 0x25]"
  by (simp add: conv_text_def int_text_def numeral_bytes_def digits.simps digit_char_def)

end
