(* ===== verification/Leg_Logs.thy ===== *)
theory Leg_Logs
  imports Leg_Format Leg_Devices
begin

text \<open>
  The kernel's print routines (\<^verbatim>\<open>src/kernel/logs.c\<close>): they write to the UART, and put numbers together in a local
  buffer, whose address is the argument \<open>buf\<close>. A \<^verbatim>\<open>va_list\<close> is the stream of words that \<^verbatim>\<open>va_arg\<close> delivers.
\<close>

section \<open>The routines\<close>

type_synonym kout = "uart_state \<times> mem"

definition kputchar :: "u8 \<Rightarrow> kout \<Rightarrow> kout" where
  "kputchar c s = (uart_putchar c (fst s), snd s)"

partial_function (option) kprint_from :: "u32 \<Rightarrow> u32 \<Rightarrow> kout \<Rightarrow> (u32 \<times> kout) option" where
  "kprint_from start p s = (if snd s p \<noteq> 0 then kprint_from start (p + 1) (kputchar (snd s p) s) else Some (p - start, s))"

definition kprint :: "u32 \<Rightarrow> kout \<Rightarrow> (u32 \<times> kout) option" where
  "kprint str s = kprint_from str str s"

text \<open>A literal of the source, which no routine can change.\<close>

definition kprint_lit :: "string \<Rightarrow> kout \<Rightarrow> kout" where
  "kprint_lit text s = fold kputchar (lit text) s"

definition kprint_i32 :: "u32 \<Rightarrow> u32 \<Rightarrow> kout \<Rightarrow> kout option" where
  "kprint_i32 buf num s = Option.bind (itoa num buf 10 (snd s)) (\<lambda>(_, m). map_option snd (kprint buf (fst s, m)))"

definition kprint_base :: "u32 \<Rightarrow> u32 \<Rightarrow> u8 \<Rightarrow> kout \<Rightarrow> kout option" where
  "kprint_base buf num base s = Option.bind (utoa num buf base (snd s)) (\<lambda>(_, m). map_option snd (kprint buf (fst s, m)))"

definition kprint_ptr :: "u32 \<Rightarrow> u32 \<Rightarrow> kout \<Rightarrow> kout option" where
  "kprint_ptr buf ptr s = map_option snd (kprint buf (fst s, snd (hex32be ptr buf (snd s))))"

text \<open>The cases of the switch that take an argument; the outer option says whether the character is one of them.\<close>

definition kconv :: "u32 \<Rightarrow> u8 \<Rightarrow> u32 \<Rightarrow> kout \<Rightarrow> kout option option" where
  "kconv buf t a s =
     (if t = CH_s then Some (map_option snd (kprint a s))
      else if t = CH_c then Some (Some (kputchar (ucast a) s))
      else if t = CH_d \<or> t = CH_i then Some (kprint_i32 buf a s)
      else if t = CH_u then Some (kprint_base buf a 10 s)
      else if t = CH_x then Some (kprint_base buf a 16 s)
      else if t = CH_o then Some (kprint_base buf a 8 s)
      else if t = CH_b then Some (kprint_base buf a 2 s)
      else if t = CH_t then Some (Some (kprint_lit (if a \<noteq> 0 then ''true'' else ''false'') s))
      else if t = CH_p then Some (kprint_ptr buf a s)
      else None)"

partial_function (option) vkprintf :: "u32 \<Rightarrow> u32 \<Rightarrow> u32 stream \<Rightarrow> kout \<Rightarrow> kout option" where
  "vkprintf buf fmt args s =
     (let c = snd s fmt; fmt = fmt + 1
      in if c = 0 then Some s
         else if c \<noteq> CH_PERCENT then vkprintf buf fmt args (kputchar c s)
         else
           let t = snd s fmt; fmt = fmt + 1
           in if t = CH_PERCENT then vkprintf buf fmt args (kputchar t s)
              else (case kconv buf t (shd args) s of
                  Some r \<Rightarrow> Option.bind r (vkprintf buf fmt (stl args))
                | None \<Rightarrow> vkprintf buf fmt args (kputchar t (kprint_lit ''?%'' s))))"

definition kprintf :: "u32 \<Rightarrow> u32 \<Rightarrow> u32 stream \<Rightarrow> kout \<Rightarrow> kout option" where
  "kprintf buf fmt args s = vkprintf buf fmt args s"

section \<open>Hexadecimal dumps\<close>

definition is_printable :: "u8 \<Rightarrow> bool" where
  "is_printable c \<longleftrightarrow> c \<ge> 32 \<and> c \<le> 126"

definition shown :: "u8 \<Rightarrow> u8" where
  "shown c = (if is_printable c then c else 0x2E)"

definition word_chars :: "u32 \<Rightarrow> u8 list" where
  "word_chars v = map shown [ucast (v AND 0xFF), ucast (drop_bit 8 (v AND 0xFF00)), ucast (drop_bit 16 (v AND 0xFF0000)),
     ucast (drop_bit 24 (v AND 0xFF000000))]"

text \<open>One word of \<^verbatim>\<open>hexdump_ansi\<close>; \<open>len\<close> counts words. The cursor escapes hold the column, 12 to 39 and 51 to 63.\<close>

definition esc :: "string \<Rightarrow> kout \<Rightarrow> kout" where
  "esc text s = fold kputchar (0x1B # lit text) s"

definition dump_word :: "u32 \<Rightarrow> nat \<Rightarrow> u32 \<Rightarrow> kout \<Rightarrow> kout option" where
  "dump_word buf i addr s =
     Option.bind
       (if i mod 4 = 0
        then Option.bind (kprint_ptr buf addr (esc ''[2;37m'' (kputchar 0x0A s)))
               (\<lambda>s. Some (esc ''[0m'' (esc ''[18C|'' (kprint_lit [CHR 0x09, CHR ''|''] (esc ''[36C'' s)))))
        else Some s)
       (\<lambda>s. let data = rd32 (snd s) addr; s = fold kputchar (0x1B # lit ''['') s
            in Option.bind (kprint_base buf (12 + 9 * (w32 i mod 4)) 10 s) (\<lambda>s.
                 let s = (fst (kputchar 0x47 s), snd (hex32le data buf (snd s)))
                 in Option.bind (kprint buf s) (\<lambda>(_, s).
                      Option.bind (kprint_base buf (51 + 4 * (w32 i mod 4)) 10 (fold kputchar (0x1B # lit ''['') s)) (\<lambda>s.
                        Some (fold kputchar (word_chars data) (kputchar 0x47 s))))))"

fun dump_words :: "u32 \<Rightarrow> nat list \<Rightarrow> u32 \<Rightarrow> kout \<Rightarrow> kout option" where
  "dump_words buf [] addr s = Some (kputchar 0x0A s)"
| "dump_words buf (i # is) addr s = Option.bind (dump_word buf i addr s) (dump_words buf is (addr + 4))"

definition hexdump :: "u32 \<Rightarrow> u32 \<Rightarrow> u32 \<Rightarrow> kout \<Rightarrow> kout option" where
  "hexdump buf ptr len s = dump_words buf [0..<unat len] ptr s"

section \<open>Printing strings\<close>

definition sent :: "u8 list \<Rightarrow> uart_state \<Rightarrow> uart_state" where
  "sent w u = u\<lparr>uart_tx := uart_tx u @ w\<rparr>"

lemma sent_simps [simp]: "sent [] u = u" "uart_putchar c u = sent [c] u" "sent w' (sent w u) = sent (w @ w') u"
  by (simp_all add: sent_def uart_putchar_def)

lemma fold_kputchar [simp]: "fold kputchar w s = (sent w (fst s), snd s)"
  by (induction w arbitrary: s) (simp_all add: kputchar_def)

lemma kprint_from_text: "cstr_at (snd s) p xs \<Longrightarrow> kprint_from start p s = Some (p + w32 (length xs) - start, sent xs (fst s), snd s)"
proof (induction xs arbitrary: p s)
  case Nil
  then show ?case by (simp add: kprint_from.simps)
next
  case (Cons x xs)
  then have "kprint_from start p s = kprint_from start (p + 1) (kputchar x s)" by (subst kprint_from.simps) simp
  then show ?case using Cons by (simp add: kputchar_def algebra_simps)
qed

lemma kprint_text: "cstr_at (snd s) a xs \<Longrightarrow> kprint a s = Some (w32 (length xs), sent xs (fst s), snd s)"
  by (simp add: kprint_def kprint_from_text)

lemma kprint_base_text:
  assumes "radix \<in> {2, 8, 10, 16}"
  shows "\<exists>m'. kprint_base buf v radix (u, m) = Some (sent (numeral_bytes (unat radix) (unat v)) u, m') \<and> only buf 34 m m'"
proof -
  obtain m' where m': "utoa v buf radix m = Some (buf, m')" "cstr_at m' buf (numeral_bytes (unat radix) (unat v))" "only buf 33 m m'"
    by (rule utoa_text [OF assms])
  have "kprint buf (u, m') = Some (w32 (length (numeral_bytes (unat radix) (unat v))), sent (numeral_bytes (unat radix) (unat v)) u, m')"
    using kprint_text [of "(u, m')"] m'(2) by simp
  then show ?thesis using m'(1) only_mono [OF m'(3), of 34] by (simp add: kprint_base_def)
qed

lemma kprint_i32_text: "\<exists>m'. kprint_i32 buf v (u, m) = Some (sent (int_text v) u, m') \<and> only buf 12 m m'"
proof -
  obtain r m' where m': "itoa v buf 10 m = Some (r, m')" "cstr_at m' buf (int_text v)" "only buf 12 m m'" by (rule itoa_text)
  have "kprint buf (u, m') = Some (w32 (length (int_text v)), sent (int_text v) u, m')" using kprint_text [of "(u, m')"] m'(2) by simp
  then show ?thesis using m'(1,3) by (simp add: kprint_i32_def)
qed

lemma kprint_ptr_text: "\<exists>m'. kprint_ptr buf v (u, m) = Some (sent (map digit_char (nibbles v)) u, m') \<and> only buf 9 m m'"
  using kprint_text [of "(u, snd (hex32be v buf m))" buf "map digit_char (nibbles v)"] hex_text [where v = v and buf = buf and m = m] by (simp add: kprint_ptr_def)

lemma kconv_text:
  assumes "conv_text str t a = Some w" "t = CH_s \<longrightarrow> cstr_at m a (str a)"
  shows "\<exists>m'. kconv buf t a (u, m) = Some (Some (sent w u, m')) \<and> only buf 34 m m'"
proof -
  have b: "\<exists>m'. kprint_base buf a radix (u, m) = Some (sent (numeral_bytes (unat radix) (unat a)) u, m') \<and> only buf 34 m m'"
    if "radix \<in> {2, 8, 10, 16}" for radix by (rule kprint_base_text [OF that])
  have i: "\<exists>m'. kprint_i32 buf a (u, m) = Some (sent (int_text a) u, m') \<and> only buf 34 m m'"
    using kprint_i32_text [of buf a u m] only_mono [of buf 12 m _ 34] by auto
  have p: "\<exists>m'. kprint_ptr buf a (u, m) = Some (sent (map digit_char (nibbles a)) u, m') \<and> only buf 34 m m'"
    using kprint_ptr_text [of buf a u m] only_mono [of buf 9 m _ 34] by auto
  consider "t = CH_s" | "t = CH_c" | "t = CH_d \<or> t = CH_i" | "t = CH_u" | "t = CH_x" | "t = CH_o" | "t = CH_b" | "t = CH_t" | "t = CH_p"
    using assms(1) by (auto simp: conv_text_def split: if_splits)
  then show ?thesis
  proof cases
    case 1
    then show ?thesis using assms kprint_text [of "(u, m)" a "str a"] by (simp add: conv_text_def kconv_def)
  next
    case 3
    then show ?thesis using assms(1) i by (auto simp: conv_text_def kconv_def)
  next
    case 9
    then show ?thesis using assms(1) p by (auto simp: conv_text_def kconv_def)
  qed (use assms(1) b [of 10] b [of 16] b [of 8] b [of 2] in \<open>auto simp: conv_text_def kconv_def kputchar_def kprint_lit_def\<close>)
qed

lemma kconv_None: "kconv buf t a s = None \<longleftrightarrow> conv_text str t a = None"
  by (simp add: kconv_def conv_text_def)

section \<open>Properties\<close>

lemma vkprintf_render:
  assumes "\<forall>a. good a \<longrightarrow> str_safe m buf a (str a)" "str_safe m buf fmt xs" "fmt_ok False good xs args"
  shows "\<exists>m'. vkprintf buf fmt args (u, m) = Some (sent (render (conv_text str) xs args) u, m') \<and> only buf 34 m m'"
  using assms
proof (induction "conv_text str" xs args arbitrary: fmt u m rule: render.induct)
  case (1 args)
  then show ?case by (subst vkprintf.simps) (simp add: str_safe_def)
next
  case (2 x args)
  note s = str_safe_Cons [OF 2(2)]
  have "m (fmt + 1) = 0" using s str_safe_Nil by blast
  then show ?case
    using s 2(3) by (subst vkprintf.simps, simp add: kputchar_def, subst vkprintf.simps, simp)
next
  case (3 x t xs args)
  note s = str_safe_Cons [OF 3(5)] note s' = str_safe_Cons [OF conjunct2 [OF conjunct2 [OF s]]]
  have f2: "fmt + 1 + 1 = fmt + 2" by simp
  show ?case
  proof (cases "x = CH_PERCENT")
    case False
    have "vkprintf buf fmt args (u, m) = vkprintf buf (fmt + 1) args (sent [x] u, m)"
      using s False by (subst vkprintf.simps) (simp add: kputchar_def)
    moreover have ok: "fmt_ok False good (t # xs) args" using 3(6) False by simp
    ultimately show ?thesis using 3(1) [OF False 3(4) _ ok, of "fmt + 1" "sent [x] u"] s False by simp
  next
    case True
    show ?thesis
    proof (cases "conv_text str t (shd args)")
      case None
      have ok: "fmt_ok False good xs args" using 3(6) True None conv_text_None [of str t "shd args" "\<lambda>_. []" "shd args"] by simp
      let ?w = "if t = CH_PERCENT then [t] else lit ''?%'' @ [t]"
      have "vkprintf buf fmt args (u, m) = vkprintf buf (fmt + 2) args (sent ?w u, m)"
        using s s' True None kconv_None [of buf t "shd args" "(u, m)" str]
        by (subst vkprintf.simps) (simp add: kputchar_def kprint_lit_def f2)
      then show ?thesis using 3(2) [OF _ None 3(4) _ ok, of "fmt + 2" "sent ?w u"] s' True None by (simp add: f2 split: if_splits)
    next
      case (Some w)
      have nt: "t \<noteq> CH_PERCENT" using Some by (auto simp: conv_text_def)
      have ok: "t = CH_s \<longrightarrow> good (shd args)" "fmt_ok False good xs (stl args)"
        using 3(6) True Some conv_text_None [of str t "shd args" "\<lambda>_. []" "shd args"] by (auto split: if_splits)
      have "t = CH_s \<longrightarrow> cstr_at m (shd args) (str (shd args))" using 3(4) ok(1) by (auto simp: str_safe_def)
      from kconv_text [OF Some this, of buf u] obtain m1 where m1: "kconv buf t (shd args) (u, m) = Some (Some (sent w u, m1))" "only buf 34 m m1"
        by blast
      have "vkprintf buf fmt args (u, m) = vkprintf buf (fmt + 2) (stl args) (sent w u, m1)"
        using s s' True nt m1(1) by (subst vkprintf.simps) (simp add: f2)
      moreover have "\<forall>a. good a \<longrightarrow> str_safe m1 buf a (str a)" using 3(4) str_safe_only [OF _ m1(2)] by blast
      moreover have "str_safe m1 buf (fmt + 2) xs" using s' str_safe_only [OF _ m1(2)] by (simp add: f2)
      ultimately obtain m' where "vkprintf buf fmt args (u, m) = Some (sent (render (conv_text str) xs (stl args)) (sent w u), m')" "only buf 34 m1 m'"
        using 3(3) [OF _ Some _ _ ok(2), of m1 "fmt + 2" "sent w u"] True by auto
      then show ?thesis using True Some only_trans [OF m1(2)] by auto
    qed
  qed
qed

text \<open>\<^verbatim>\<open>vkprintf\<close> ends on every format whose percent signs start a conversion, and what it sends over the UART
  is the text of the format: literal characters as they are, each conversion as the numeral or string of its own
  argument, an unknown conversion as \<^verbatim>\<open>?%\<close> and its letter, without using up an argument. Of the memory only
  the 34 bytes of the number buffer change.\<close>

theorem vkprintf_correct:
  assumes "\<forall>a. good a \<longrightarrow> str_safe m buf a (str a)" "str_safe m buf fmt xs" "fmt_ok False good xs args"
  shows "\<exists>m'. vkprintf buf fmt args (u, m) = Some (u\<lparr>uart_tx := uart_tx u @ render (conv_text str) xs args\<rparr>, m') \<and> only buf 34 m m'"
  using vkprintf_render [OF assms, of u] unfolding sent_def .

theorem vkprintf_correct_witness:
  "\<exists>m'. vkprintf 0x3000 0x1000 fmt_args (\<lparr>uart_tx = [], uart_rx = [], uart_regs = []\<rparr>, mem_fmt) =
     Some (\<lparr>uart_tx = [0x2D, 0x37, 0x20, 0x68, 0x69, 0x25], uart_rx = [], uart_regs = []\<rparr>, m')"
  using vkprintf_correct [OF mem_fmt_safe(2,1) fmt_bytes_ok(2), of "\<lparr>uart_tx = [], uart_rx = [], uart_regs = []\<rparr>"]
  unfolding fmt_bytes_text by auto

end
