(* ===== verification/Leg_Stdio.thy ===== *)
theory Leg_Stdio
  imports Leg_Logs
begin

text \<open>
  The C library's print routines (\<^verbatim>\<open>src/libc/stdio.c\<close>). \<^verbatim>\<open>putchar\<close> hands one byte to the write system call: the state
  is the list of these bytes and the program's memory. The routines count what they print in \<open>n\<close>.
\<close>

section \<open>The routines\<close>

type_synonym uout = "u8 list \<times> mem"

definition putchar :: "u8 \<Rightarrow> uout \<Rightarrow> uout" where
  "putchar c s = (fst s @ [c], snd s)"

partial_function (option) print_from :: "u32 \<Rightarrow> u32 \<Rightarrow> uout \<Rightarrow> (u32 \<times> uout) option" where
  "print_from start p s = (if snd s p \<noteq> 0 then print_from start (p + 1) (putchar (snd s p) s) else Some (p - start, s))"

definition print :: "u32 \<Rightarrow> uout \<Rightarrow> (u32 \<times> uout) option" where
  "print p s = print_from p p s"

definition print_lit :: "u8 list \<Rightarrow> uout \<Rightarrow> u32 \<times> uout" where
  "print_lit text s = (w32 (length text), fold putchar text s)"

definition puts :: "u32 \<Rightarrow> uout \<Rightarrow> (u32 \<times> uout) option" where
  "puts p s = map_option (\<lambda>(n, s). (n + 1, putchar 0x0A s)) (print p s)"

definition print_i32 :: "u32 \<Rightarrow> u32 \<Rightarrow> uout \<Rightarrow> (u32 \<times> uout) option" where
  "print_i32 buf num s = Option.bind (itoa num buf 10 (snd s)) (\<lambda>(_, m). print buf (fst s, m))"

definition print_base :: "u32 \<Rightarrow> u32 \<Rightarrow> u8 \<Rightarrow> uout \<Rightarrow> (u32 \<times> uout) option" where
  "print_base buf num base s = Option.bind (utoa num buf base (snd s)) (\<lambda>(_, m). print buf (fst s, m))"

definition print_ptr :: "u32 \<Rightarrow> u32 \<Rightarrow> uout \<Rightarrow> (u32 \<times> uout) option" where
  "print_ptr buf ptr s = print buf (fst s, snd (hex32be ptr buf (snd s)))"

text \<open>The cases that print an argument, with the number of characters they count.\<close>

definition uconv :: "u32 \<Rightarrow> u8 \<Rightarrow> u32 \<Rightarrow> uout \<Rightarrow> (u32 \<times> uout) option option" where
  "uconv buf t a s =
     (if t = CH_s then Some (print a s)
      else if t = CH_c then Some (Some (1, putchar (ucast a) s))
      else if t = CH_d \<or> t = CH_i then Some (print_i32 buf a s)
      else if t = CH_u then Some (print_base buf a 10 s)
      else if t = CH_x then Some (print_base buf a 16 s)
      else if t = CH_o then Some (print_base buf a 8 s)
      else if t = CH_b then Some (print_base buf a 2 s)
      else if t = CH_t then Some (Some (print_lit (lit (if a \<noteq> 0 then ''true'' else ''false'')) s))
      else if t = CH_p then Some (print_ptr buf a s)
      else None)"

text \<open>\<^verbatim>\<open>pprintf\<close> prints an escape sequence before and after, and counts both.\<close>

definition coloured :: "u8 list \<Rightarrow> (uout \<Rightarrow> (u32 \<times> uout) option) \<Rightarrow> uout \<Rightarrow> (u32 \<times> uout) option" where
  "coloured colour f s =
     (let (n\<^sub>1, s) = print_lit colour s
      in map_option (\<lambda>(n\<^sub>2, s). let (n\<^sub>3, s) = print_lit ESC_RESET s in (n\<^sub>1 + n\<^sub>2 + n\<^sub>3, s)) (f s))"

definition pconv :: "u32 \<Rightarrow> u8 \<Rightarrow> u32 \<Rightarrow> uout \<Rightarrow> (u32 \<times> uout) option option" where
  "pconv buf t a s =
     (if t = CH_s then Some (print a s)
      else if t = CH_c then Some (Some (1, putchar (ucast a) s))
      else if t = CH_d \<or> t = CH_i then Some (coloured ESC_WHITE (print_i32 buf a) s)
      else if t = CH_u then Some (coloured ESC_WHITE (print_base buf a 10) s)
      else if t = CH_x then Some (coloured ESC_WHITE (print_base buf a 16) s)
      else if t = CH_o then Some (coloured ESC_WHITE (print_base buf a 8) s)
      else if t = CH_b then Some (coloured ESC_WHITE (print_base buf a 2) s)
      else if t = CH_t then Some (coloured ESC_WHITE (\<lambda>s. Some (print_lit (lit (if a \<noteq> 0 then ''true'' else ''false'')) s)) s)
      else if t = CH_p then Some (coloured ESC_RED (print_ptr buf a) s)
      else None)"

text \<open>
  The two functions run the same loop with their own cases. An unknown conversion ends the call; \<^verbatim>\<open>%n\<close> stores the
  count.
\<close>

partial_function (option) print_loop ::
  "(u8 \<Rightarrow> u32 \<Rightarrow> uout \<Rightarrow> (u32 \<times> uout) option option) \<Rightarrow> u32 \<Rightarrow> u32 stream \<Rightarrow> u32 \<Rightarrow> uout \<Rightarrow> uout option" where
  "print_loop conv fmt args n s =
     (let c = snd s fmt; fmt = fmt + 1
      in if c = 0 then Some s
         else if c \<noteq> CH_PERCENT then print_loop conv fmt args (n + 1) (putchar c s)
         else
           let t = snd s fmt; fmt = fmt + 1
           in if t = CH_PERCENT then print_loop conv fmt args (n + 1) (putchar CH_PERCENT s)
              else if t = CH_n then print_loop conv fmt (stl args) n (fst s, wr32 (snd s) (shd args) n)
              else (case conv t (shd args) s of
                  Some r \<Rightarrow> Option.bind r (\<lambda>(k, s). print_loop conv fmt (stl args) (n + k) s)
                | None \<Rightarrow> Some (putchar t (snd (print_lit (lit ''?%'') s)))))"

definition printf :: "u32 \<Rightarrow> u32 \<Rightarrow> u32 stream \<Rightarrow> uout \<Rightarrow> uout option" where
  "printf buf fmt args s = print_loop (uconv buf) fmt args 0 s"

definition pprintf :: "u32 \<Rightarrow> u32 \<Rightarrow> u32 stream \<Rightarrow> uout \<Rightarrow> uout option" where
  "pprintf buf fmt args s = print_loop (pconv buf) fmt args 0 s"

section \<open>Printing strings\<close>

lemma fold_putchar [simp]: "fold putchar w s = (fst s @ w, snd s)"
  by (induction w arbitrary: s) (simp_all add: putchar_def)

lemma print_lit_text [simp]: "print_lit w s = (w32 (length w), fst s @ w, snd s)"
  by (simp add: print_lit_def)

lemma print_from_text: "cstr_at (snd s) p xs \<Longrightarrow> print_from start p s = Some (p + w32 (length xs) - start, fst s @ xs, snd s)"
proof (induction xs arbitrary: p s)
  case Nil
  then show ?case by (simp add: print_from.simps)
next
  case (Cons x xs)
  then have "print_from start p s = print_from start (p + 1) (putchar x s)" by (subst print_from.simps) simp
  then show ?case using Cons by (simp add: putchar_def algebra_simps)
qed

lemma print_text: "cstr_at (snd s) a xs \<Longrightarrow> print a s = Some (w32 (length xs), fst s @ xs, snd s)"
  by (simp add: print_def print_from_text)

lemma print_base_text:
  assumes "radix \<in> {2, 8, 10, 16}"
  shows "\<exists>m'. print_base buf v radix (out, m) =
      Some (w32 (length (numeral_bytes (unat radix) (unat v))), out @ numeral_bytes (unat radix) (unat v), m') \<and> only buf 34 m m'"
proof -
  obtain m' where m': "utoa v buf radix m = Some (buf, m')" "cstr_at m' buf (numeral_bytes (unat radix) (unat v))" "only buf 33 m m'"
    by (rule utoa_text [OF assms])
  then show ?thesis using print_text [of "(out, m')"] only_mono [OF m'(3), of 34] by (simp add: print_base_def)
qed

lemma print_i32_text: "\<exists>m'. print_i32 buf v (out, m) = Some (w32 (length (int_text v)), out @ int_text v, m') \<and> only buf 12 m m'"
proof -
  obtain r m' where m': "itoa v buf 10 m = Some (r, m')" "cstr_at m' buf (int_text v)" "only buf 12 m m'" by (rule itoa_text)
  then show ?thesis using print_text [of "(out, m')"] by (simp add: print_i32_def)
qed

lemma print_ptr_text: "\<exists>m'. print_ptr buf v (out, m) = Some (8, out @ map digit_char (nibbles v), m') \<and> only buf 9 m m'"
  using print_text [of "(out, snd (hex32be v buf m))" buf "map digit_char (nibbles v)"] hex_text [where v = v and buf = buf and m = m]
  by (simp add: print_ptr_def nibbles_def)

lemma conv_cases:
  assumes "conv_text str t a = Some w"
  obtains "t = CH_s" | "t = CH_c" | "t = CH_d \<or> t = CH_i" | "t = CH_u" | "t = CH_x" | "t = CH_o" | "t = CH_b" | "t = CH_t" | "t = CH_p"
  using assms by (auto simp: conv_text_def split: if_splits)

lemma uconv_text:
  assumes "conv_text str t a = Some w" "t = CH_s \<longrightarrow> cstr_at m a (str a)"
  shows "\<exists>m'. uconv buf t a (out, m) = Some (Some (w32 (length w), out @ w, m')) \<and> only buf 34 m m'"
proof -
  note b = print_base_text [of _ buf a out m]
  have i: "\<exists>m'. print_i32 buf a (out, m) = Some (w32 (length (int_text a)), out @ int_text a, m') \<and> only buf 34 m m'"
    using print_i32_text [of buf a out m] only_mono [of buf 12 m _ 34] by auto
  have p: "\<exists>m'. print_ptr buf a (out, m) = Some (8, out @ map digit_char (nibbles a), m') \<and> only buf 34 m m'"
    using print_ptr_text [of buf a out m] only_mono [of buf 9 m _ 34] by auto
  show ?thesis
    using assms(1)
  proof (cases rule: conv_cases)
    case 1
    then show ?thesis using assms print_text [of "(out, m)" a "str a"] by (simp add: conv_text_def uconv_def)
  next
    case 3
    then show ?thesis using assms(1) i by (auto simp: conv_text_def uconv_def)
  next
    case 9
    then show ?thesis using assms(1) p by (auto simp: conv_text_def uconv_def nibbles_def)
  qed (use assms(1) b [of 10] b [of 16] b [of 8] b [of 2] in \<open>auto simp: conv_text_def uconv_def putchar_def\<close>)
qed

lemma coloured_text:
  assumes "f (out @ c, m) = Some (k, (out @ c) @ w, m')"
  shows "coloured c f (out, m) = Some (w32 (length c) + k + w32 (length ESC_RESET), out @ c @ w @ ESC_RESET, m')"
  using assms by (simp add: coloured_def)

lemma pconv_text:
  assumes "conv_text str t a = Some w" "t = CH_s \<longrightarrow> cstr_at m a (str a)" "pretty_text str t a = Some w'"
  shows "\<exists>m'. pconv buf t a (out, m) = Some (Some (w32 (length w'), out @ w', m')) \<and> only buf 34 m m'"
proof -
  have w': "w' = (if t = CH_s \<or> t = CH_c then w else (if t = CH_p then ESC_RED else ESC_WHITE) @ w @ ESC_RESET)"
    using assms(1,3) by (simp add: pretty_text_def)
  show ?thesis
  proof (cases "t = CH_s \<or> t = CH_c")
    case True
    then have "pconv buf t a (out, m) = uconv buf t a (out, m)" by (auto simp: pconv_def uconv_def)
    then show ?thesis using uconv_text [OF assms(1,2), of buf out] True w' by simp
  next
    case False
    define c where "c = (if t = CH_p then ESC_RED else ESC_WHITE)"
    obtain m' where m': "uconv buf t a (out @ c, m) = Some (Some (w32 (length w), (out @ c) @ w, m'))" "only buf 34 m m'"
      using uconv_text [OF assms(1,2), of buf "out @ c"] by blast
    define f where "f = (\<lambda>s. the (uconv buf t a s))"
    have "f (out @ c, m) = Some (w32 (length w), (out @ c) @ w, m')" using m'(1) by (simp add: f_def)
    note col = coloured_text [where f = f and out = out and c = c and w = w, OF this]
    have "pconv buf t a (out, m) = Some (coloured c f (out, m))"
      using assms(1) False by (cases rule: conv_cases) (auto simp: pconv_def f_def c_def uconv_def)
    then show ?thesis using col m'(2) False w' by (simp add: c_def algebra_simps)
  qed
qed

section \<open>The loop\<close>

text \<open>The arguments that a part of a format leaves.\<close>

fun args_left :: "u8 list \<Rightarrow> u32 stream \<Rightarrow> u32 stream" where
  "args_left [] args = args"
| "args_left [x] args = args"
| "args_left (x # t # xs) args =
     (if x \<noteq> CH_PERCENT then args_left (t # xs) args
      else args_left xs (if conv_text (\<lambda>_. []) t (shd args) \<noteq> None then stl args else args))"

lemma str_safe_append: "str_safe m buf a (xs @ ys) \<Longrightarrow> str_safe m buf (a + w32 (length xs)) ys"
proof (induction xs arbitrary: a)
  case (Cons x xs)
  then have "str_safe m buf (a + 1 + w32 (length xs)) ys" using str_safe_Cons [of m buf a x "xs @ ys"] by simp
  then show ?case by (simp add: add.assoc)
qed simp

text \<open>
  What a group of cases promises: the text of the argument is printed and counted, and of the memory only the local
  buffer changes.
\<close>

definition conv_ok :: "u32 \<Rightarrow> (u32 \<Rightarrow> u8 list) \<Rightarrow> (u8 \<Rightarrow> u32 \<Rightarrow> u8 list option) \<Rightarrow>
    (u8 \<Rightarrow> u32 \<Rightarrow> uout \<Rightarrow> (u32 \<times> uout) option option) \<Rightarrow> bool" where
  "conv_ok buf str ctext conv \<longleftrightarrow>
     (\<forall>t a. ctext t a = None \<longleftrightarrow> conv_text str t a = None) \<and>
     (\<forall>t a w out m. ctext t a = Some w \<longrightarrow> (t = CH_s \<longrightarrow> cstr_at m a (str a)) \<longrightarrow>
       (\<exists>m'. conv t a (out, m) = Some (Some (w32 (length w), out @ w, m')) \<and> only buf 34 m m'))"

lemma uconv_ok: "conv_ok buf str (conv_text str) (uconv buf)"
  using uconv_text by (simp add: conv_ok_def)

lemma pconv_ok: "conv_ok buf str (pretty_text str) (pconv buf)"
  unfolding conv_ok_def
proof (intro conjI allI impI)
  show "pretty_text str t a = None \<longleftrightarrow> conv_text str t a = None" for t a by (simp add: pretty_text_def)
  show "\<exists>m'. pconv buf t a (out, m) = Some (Some (w32 (length w), out @ w, m')) \<and> only buf 34 m m'"
    if w: "pretty_text str t a = Some w" "t = CH_s \<longrightarrow> cstr_at m a (str a)" for t a w out m
  proof -
    obtain v where "conv_text str t a = Some v" using w(1) by (auto simp: pretty_text_def)
    from pconv_text [OF this w(2,1)] show ?thesis .
  qed
qed

lemma print_loop_prefix:
  assumes conv: "conv_ok buf str ctext conv"
    and "\<forall>a. good a \<longrightarrow> str_safe m buf a (str a)" "str_safe m buf fmt (xs @ ys)" "fmt_ok True good xs args"
  shows "\<exists>m'. print_loop conv fmt args n (out, m) =
      print_loop conv (fmt + w32 (length xs)) (args_left xs args) (n + w32 (length (render ctext xs args))) (out @ render ctext xs args, m')
    \<and> only buf 34 m m'"
  using assms(2,3,4)
proof (induction xs args arbitrary: fmt out m n rule: args_left.induct)
  case (1 args)
  then show ?case by auto
next
  case (2 x args)
  then show ?case using str_safe_Cons [of m buf fmt x ys] by (subst print_loop.simps) (auto simp: putchar_def)
next
  case (3 x t xs args)
  have s: "str_safe m buf fmt (x # t # xs @ ys)" using 3(4) by simp
  note s = str_safe_Cons [OF s] note s' = str_safe_Cons [OF conjunct2 [OF conjunct2 [OF s]]]
  have f2: "fmt + 1 + 1 = fmt + 2" by simp
  have n2: "w32 (length (x # t # xs)) = 2 + w32 (length xs)" by simp
  show ?case
  proof (cases "x = CH_PERCENT")
    case False
    have "print_loop conv fmt args n (out, m) = print_loop conv (fmt + 1) args (n + 1) (out @ [x], m)"
      using s False by (subst print_loop.simps) (simp add: putchar_def)
    moreover have ok: "fmt_ok True good (t # xs) args" using 3(5) False by simp
    ultimately show ?thesis
      using 3(1) [OF False 3(3) _ ok, of "fmt + 1" "n + 1" "out @ [x]"] s False by (simp add: algebra_simps)
  next
    case True
    show ?thesis
    proof (cases "ctext t (shd args)")
      case None
      then have cn: "conv_text (\<lambda>_. []) t (shd args) = None"
        using conv conv_text_None [of str t "shd args" "\<lambda>_. []" "shd args"] by (simp add: conv_ok_def)
      then have ok: "t = CH_PERCENT" "fmt_ok True good xs args" using 3(5) True by simp_all
      have "print_loop conv fmt args n (out, m) = print_loop conv (fmt + 2) args (n + 1) (out @ [t], m)"
        using s s' True ok(1) by (subst print_loop.simps) (simp add: putchar_def f2)
      moreover have "fmt_ok True good xs (if conv_text (\<lambda>_. []) t (shd args) \<noteq> None then stl args else args)" using ok(2) cn by simp
      moreover have "\<not> x \<noteq> CH_PERCENT" using True by simp
      ultimately show ?thesis using 3(2) [of m "fmt + 2" "n + 1" "out @ [t]"] 3(3) s' True None cn ok(1)
        by (simp add: f2 n2 algebra_simps)
    next
      case (Some w)
      then have "conv_text str t (shd args) \<noteq> None" using conv unfolding conv_ok_def by (metis option.distinct(1))
      then have cn: "conv_text (\<lambda>_. []) t (shd args) \<noteq> None"
        using conv_text_None [of str t "shd args" "\<lambda>_. []" "shd args"] by simp
      then have nt: "t \<noteq> CH_PERCENT" "t \<noteq> CH_n" by (auto simp: conv_text_def)
      have ok: "t = CH_s \<longrightarrow> good (shd args)" "fmt_ok True good xs (stl args)" using 3(5) True cn by (auto split: if_splits)
      have "t = CH_s \<longrightarrow> cstr_at m (shd args) (str (shd args))" using 3(3) ok(1) by (auto simp: str_safe_def)
      then obtain m1 where m1: "conv t (shd args) (out, m) = Some (Some (w32 (length w), out @ w, m1))" "only buf 34 m m1"
        using conv Some unfolding conv_ok_def by blast
      have step: "print_loop conv fmt args n (out, m) = print_loop conv (fmt + 2) (stl args) (n + w32 (length w)) (out @ w, m1)"
        using s s' True nt m1(1) by (subst print_loop.simps) (simp add: f2)
      have g: "\<forall>a. good a \<longrightarrow> str_safe m1 buf a (str a)" using 3(3) str_safe_only [OF _ m1(2)] by blast
      have f: "str_safe m1 buf (fmt + 2) (xs @ ys)" using s' str_safe_only [OF _ m1(2)] by (simp add: f2)
      have nx: "\<not> x \<noteq> CH_PERCENT" using True by simp
      have a: "(if conv_text (\<lambda>_. []) t (shd args) \<noteq> None then stl args else args) = stl args" using cn by simp
      from 3(2) [OF nx, unfolded a, OF g f ok(2), of "n + w32 (length w)" "out @ w"] show ?thesis
        using True Some cn step only_trans [OF m1(2)] by (auto simp: n2 algebra_simps)
    qed
  qed
qed

lemma print_loop_render:
  assumes conv: "conv_ok buf str ctext conv"
    and "\<forall>a. good a \<longrightarrow> str_safe m buf a (str a)" "str_safe m buf fmt xs" "fmt_ok True good xs args"
  shows "\<exists>m'. print_loop conv fmt args n (out, m) = Some (out @ render ctext xs args, m') \<and> only buf 34 m m'"
proof -
  have "str_safe m buf fmt (xs @ [])" using assms(3) by simp
  from print_loop_prefix [OF assms(1,2) this assms(4)] obtain m' where
    m': "print_loop conv fmt args n (out, m) =
      print_loop conv (fmt + w32 (length xs)) (args_left xs args) (n + w32 (length (render ctext xs args))) (out @ render ctext xs args, m')"
    "only buf 34 m m'" by blast
  have "str_safe m' buf (fmt + w32 (length xs)) []" using str_safe_only [OF _ m'(2)] str_safe_append [of m buf fmt xs "[]"] assms(3) by simp
  then have "m' (fmt + w32 (length xs)) = 0" by (rule str_safe_Nil)
  then show ?thesis using m' by (subst (asm) (2) print_loop.simps) simp
qed

section \<open>Properties\<close>

text \<open>C37: On every format without unknown conversions \<^verbatim>\<open>printf\<close> and \<^verbatim>\<open>pprintf\<close> end and write exactly the text of the
  format, the same text that the kernel's \<^verbatim>\<open>kprintf\<close> sends, \<^verbatim>\<open>pprintf\<close> with every number between its colour
  escapes; of the memory only the number buffer changes.\<close>

theorem printf_correct:
  assumes "\<forall>a. good a \<longrightarrow> str_safe m buf a (str a)" "str_safe m buf fmt xs" "fmt_ok True good xs args"
  shows "(\<exists>m'. printf buf fmt args (out, m) = Some (out @ render (conv_text str) xs args, m') \<and> only buf 34 m m') \<and>
    (\<exists>m'. pprintf buf fmt args (out, m) = Some (out @ render (pretty_text str) xs args, m') \<and> only buf 34 m m')"
  unfolding printf_def pprintf_def
  using print_loop_render [OF uconv_ok assms] print_loop_render [OF pconv_ok assms] by simp

theorem printf_correct_witness:
  "\<exists>m'. printf 0x3000 0x1000 fmt_args ([0x3E], mem_fmt) = Some ([0x3E, 0x2D, 0x37, 0x20, 0x68, 0x69, 0x25], m')"
  using printf_correct [OF mem_fmt_safe(2,1) fmt_bytes_ok(1), of "[0x3E]"] unfolding fmt_bytes_text by auto

text \<open>A final \<^verbatim>\<open>%n\<close> stores the number of characters that the call has printed.\<close>

lemma printf_counts:
  assumes "\<forall>a. good a \<longrightarrow> str_safe m buf a (str a)" "str_safe m buf fmt (xs @ [CH_PERCENT, CH_n])" "fmt_ok True good xs args"
    and p: "p = shd (args_left xs args)" "\<forall>k < 4. p + w32 k \<noteq> fmt + w32 (length xs + 2)"
  shows "\<exists>m'. printf buf fmt args (out, m) =
    Some (out @ render (conv_text str) xs args, wr32 m' p (w32 (length (render (conv_text str) xs args)))) \<and> only buf 34 m m'"
proof -
  let ?f = "fmt + w32 (length xs)" and ?n = "w32 (length (render (conv_text str) xs args))"
  from print_loop_prefix [OF uconv_ok assms(1,2,3), of 0 out] obtain m' where
    m': "printf buf fmt args (out, m) = print_loop (uconv buf) ?f (args_left xs args) ?n (out @ render (conv_text str) xs args, m')"
    "only buf 34 m m'" by (auto simp: printf_def)
  have "str_safe m' buf ?f [CH_PERCENT, CH_n]" using str_safe_only [OF _ m'(2)] str_safe_append [OF assms(2)] by simp
  then have f: "m' ?f = CH_PERCENT" "m' (?f + 1) = CH_n" "m' (?f + 2) = 0"
    by (auto simp: str_safe_def add.assoc)
  have "?f + 2 = fmt + w32 (length xs + 2)" by (simp add: algebra_simps)
  then have "p + w32 k \<noteq> ?f + 2" if "k < 4" for k using p(2) that by metis
  from this [of 0] this [of 1] this [of 2] this [of 3] have "wr32 m' p ?n (?f + 2) = m' (?f + 2)"
    by (simp add: wr32_def)
  then have z: "wr32 m' p ?n (?f + 2) = 0" using f by simp
  have f2: "?f + 1 + 1 = ?f + 2" by simp
  have "print_loop (uconv buf) ?f (args_left xs args) ?n (out @ render (conv_text str) xs args, m') =
      print_loop (uconv buf) (?f + 2) (stl (args_left xs args)) ?n (out @ render (conv_text str) xs args, wr32 m' p ?n)"
    using f by (subst print_loop.simps) (simp add: f2 p(1) del: of_nat_add)
  also have "\<dots> = Some (out @ render (conv_text str) xs args, wr32 m' p ?n)"
    using z by (subst print_loop.simps) simp
  finally show ?thesis using m' by auto
qed

end
