(* ===== verification/Leg_Usercalls.thy ===== *)
theory Leg_Usercalls
  imports Leg_Syscall
begin

text \<open>
  The program's side of the system calls (\<^verbatim>\<open>include/syscall.h\<close>, with the wrappers of \<^verbatim>\<open>include/libc/display.h\<close>,
  \<^verbatim>\<open>include/libc/time.h\<close> and \<^verbatim>\<open>include/libc/stdlib.h\<close>) and the entry code of the kernel (\<^verbatim>\<open>handle_svc\<close> in
  \<^verbatim>\<open>trampolines.s\<close>): a wrapper places its arguments in registers and executes a supervisor call whose number the entry
  code reads back from the instruction word.
\<close>

section \<open>Numbers\<close>

abbreviation (input) SVC_EXIT :: u32 where "SVC_EXIT \<equiv> 0"
abbreviation (input) SVC_FORK :: u32 where "SVC_FORK \<equiv> 1"
abbreviation (input) SVC_GETPID :: u32 where "SVC_GETPID \<equiv> 2"
abbreviation (input) SVC_JOIN :: u32 where "SVC_JOIN \<equiv> 3"
abbreviation (input) SVC_EXEC :: u32 where "SVC_EXEC \<equiv> 4"
abbreviation (input) SVC_WRITE :: u32 where "SVC_WRITE \<equiv> 5"
abbreviation (input) SVC_READ :: u32 where "SVC_READ \<equiv> 6"
abbreviation (input) SVC_GETCHAR :: u32 where "SVC_GETCHAR \<equiv> 7"
abbreviation (input) SVC_GETCHAR_NB :: u32 where "SVC_GETCHAR_NB \<equiv> 8"
abbreviation (input) SVC_SLEEP :: u32 where "SVC_SLEEP \<equiv> 9"
abbreviation (input) SVC_TICKS :: u32 where "SVC_TICKS \<equiv> 10"
abbreviation (input) SVC_CNTFRQ :: u32 where "SVC_CNTFRQ \<equiv> 11"
abbreviation (input) SVC_FB_CLEAR :: u32 where "SVC_FB_CLEAR \<equiv> 12"
abbreviation (input) SVC_FB_PUTPIXEL :: u32 where "SVC_FB_PUTPIXEL \<equiv> 13"
abbreviation (input) SVC_FB_PUTC :: u32 where "SVC_FB_PUTC \<equiv> 14"
abbreviation (input) SVC_RAND :: u32 where "SVC_RAND \<equiv> 15"
abbreviation (input) SVC_RAND_SEED :: u32 where "SVC_RAND_SEED \<equiv> 16"
abbreviation (input) SVC_UART_WRITE :: u32 where "SVC_UART_WRITE \<equiv> 17"
abbreviation (input) SVC_BLK_READ :: u32 where "SVC_BLK_READ \<equiv> 18"
abbreviation (input) SVC_BLK_WRITE :: u32 where "SVC_BLK_WRITE \<equiv> 19"
abbreviation (input) SVC_FS_BLOB_COUNT :: u32 where "SVC_FS_BLOB_COUNT \<equiv> 20"
abbreviation (input) SVC_FS_BLOB_INFO :: u32 where "SVC_FS_BLOB_INFO \<equiv> 21"

section \<open>Calls\<close>

text \<open>The instruction word, whose low 24 bits are the number, and the argument registers that the call sets.\<close>

record user_call =
  svc_insn :: u32
  svc_args :: "u32 list"

definition svc_word :: "u32 \<Rightarrow> u32" where
  "svc_word n = 0xEF000000 OR (n AND 0xFFFFFF)"

definition SVC0 :: "u32 \<Rightarrow> user_call" where
  "SVC0 n = \<lparr>svc_insn = svc_word n, svc_args = []\<rparr>"

definition SVC1 :: "u32 \<Rightarrow> u32 \<Rightarrow> user_call" where
  "SVC1 n a0 = \<lparr>svc_insn = svc_word n, svc_args = [a0]\<rparr>"

definition SVC2 :: "u32 \<Rightarrow> u32 \<Rightarrow> u32 \<Rightarrow> user_call" where
  "SVC2 n a0 a1 = \<lparr>svc_insn = svc_word n, svc_args = [a0, a1]\<rparr>"

definition SVC3 :: "u32 \<Rightarrow> u32 \<Rightarrow> u32 \<Rightarrow> u32 \<Rightarrow> user_call" where
  "SVC3 n a0 a1 a2 = \<lparr>svc_insn = svc_word n, svc_args = [a0, a1, a2]\<rparr>"

definition SVC4 :: "u32 \<Rightarrow> u32 \<Rightarrow> u32 \<Rightarrow> u32 \<Rightarrow> u32 \<Rightarrow> user_call" where
  "SVC4 n a0 a1 a2 a3 = \<lparr>svc_insn = svc_word n, svc_args = [a0, a1, a2, a3]\<rparr>"

section \<open>The wrappers\<close>

definition sys_exit :: "u32 \<Rightarrow> user_call" where
  "sys_exit code = SVC1 SVC_EXIT code"

definition sys_fork :: user_call where
  "sys_fork = SVC0 SVC_FORK"

definition sys_getpid :: user_call where
  "sys_getpid = SVC0 SVC_GETPID"

definition sys_join :: "u32 \<Rightarrow> user_call" where
  "sys_join target = SVC1 SVC_JOIN target"

definition sys_exec :: "u32 \<Rightarrow> user_call" where
  "sys_exec name = SVC1 SVC_EXEC name"

definition sys_write :: "u32 \<Rightarrow> u32 \<Rightarrow> user_call" where
  "sys_write buf len = SVC2 SVC_WRITE buf len"

definition sys_read :: "u32 \<Rightarrow> u32 \<Rightarrow> user_call" where
  "sys_read buf len = SVC2 SVC_READ buf len"

definition sys_getchar :: user_call where
  "sys_getchar = SVC0 SVC_GETCHAR"

definition sys_getchar_nb :: user_call where
  "sys_getchar_nb = SVC0 SVC_GETCHAR_NB"

definition sys_sleep :: "u32 \<Rightarrow> user_call" where
  "sys_sleep us = SVC1 SVC_SLEEP us"

definition sys_ticks :: "u32 \<Rightarrow> user_call" where
  "sys_ticks out = SVC1 SVC_TICKS out"

definition sys_cntfrq :: user_call where
  "sys_cntfrq = SVC0 SVC_CNTFRQ"

definition sys_fb_clear :: "u32 \<Rightarrow> user_call" where
  "sys_fb_clear color = SVC1 SVC_FB_CLEAR color"

definition sys_fb_putpixel :: "u32 \<Rightarrow> u32 \<Rightarrow> u32 \<Rightarrow> user_call" where
  "sys_fb_putpixel x y color = SVC3 SVC_FB_PUTPIXEL x y color"

definition sys_fb_putc :: "u32 \<Rightarrow> u8 \<Rightarrow> u32 \<Rightarrow> u32 \<Rightarrow> user_call" where
  "sys_fb_putc col_row c fg bg = SVC4 SVC_FB_PUTC col_row (ucast c) fg bg"

definition sys_rand :: user_call where
  "sys_rand = SVC0 SVC_RAND"

definition sys_rand_seed :: "u32 \<Rightarrow> user_call" where
  "sys_rand_seed seed = SVC1 SVC_RAND_SEED seed"

definition sys_uart_write :: "u32 \<Rightarrow> u32 \<Rightarrow> user_call" where
  "sys_uart_write buf len = SVC2 SVC_UART_WRITE buf len"

definition sys_blk_read :: "u64 \<Rightarrow> u32 \<Rightarrow> u32 \<Rightarrow> user_call" where
  "sys_blk_read sector count buf = SVC4 SVC_BLK_READ (ucast sector) (ucast (drop_bit 32 sector)) count buf"

definition sys_blk_write :: "u64 \<Rightarrow> u32 \<Rightarrow> u32 \<Rightarrow> user_call" where
  "sys_blk_write sector count buf = SVC4 SVC_BLK_WRITE (ucast sector) (ucast (drop_bit 32 sector)) count buf"

definition sys_fs_blob_count :: user_call where
  "sys_fs_blob_count = SVC0 SVC_FS_BLOB_COUNT"

definition sys_fs_blob_info :: "u32 \<Rightarrow> u32 \<Rightarrow> u32 \<Rightarrow> u32 \<Rightarrow> user_call" where
  "sys_fs_blob_info index name_buf name_buf_size size_out = SVC4 SVC_FS_BLOB_INFO index name_buf name_buf_size size_out"

text \<open>\<^verbatim>\<open>fb_putc_at\<close> of \<^verbatim>\<open>display.h\<close>, \<^verbatim>\<open>fb_putpixel\<close> being the call itself.\<close>

definition user_putc_at :: "u32 \<Rightarrow> u32 \<Rightarrow> u8 \<Rightarrow> u32 \<Rightarrow> u32 \<Rightarrow> user_call" where
  "user_putc_at col row c fg bg = sys_fb_putc (push_bit 16 col OR row) c fg bg"

section \<open>Entry\<close>

text \<open>
  \<^verbatim>\<open>handle_svc\<close>. \<open>u\<close> has the program's registers at the call, apart from the arguments, which the wrapper puts into the
  first ones. When the call has suspended its caller, the entry code saves all its registers, with the result in r0, and
  continues the next process, or waits for an interrupt to wake one up; otherwise it returns to the caller.
\<close>

datatype after_call = To_caller u32 | To_process cpu_ctx_t | Waits_for_wakeup | Not_back svc_t

definition call_ctx :: "cpu_ctx_t \<Rightarrow> u32 list \<Rightarrow> cpu_ctx_t" where
  "call_ctx u args = u\<lparr>ctx_r := args @ drop (length args) (ctx_r u)\<rparr>"

definition call_env :: "cpu_ctx_t \<Rightarrow> svc_env \<Rightarrow> svc_env" where
  "call_env u env = env\<lparr>svc_saved_lr := ctx_pc u, sp_usr := ctx_sp u, spsr := ctx_cpsr u\<rparr>"

definition save_context :: "cpu_ctx_t \<Rightarrow> u32 \<Rightarrow> 'd kernel \<Rightarrow> 'd kernel" where
  "save_context u r k = on_proc (current_proc (k_sched k)) (\<lambda>x. x\<lparr>ctx := u\<lparr>ctx_r := (ctx_r u)[0 := r]\<rparr>\<rparr>) k"

definition svc_leave :: "'d platform \<Rightarrow> cpu_ctx_t \<Rightarrow> svc_t \<times> 'd kernel \<Rightarrow> (after_call \<times> 'd kernel) outcome option" where
  "svc_leave P u rk =
     (case rk of
        (Svc_returns v, k) \<Rightarrow>
          if suspended (kproc k (current_proc (k_sched k))) = 0 then done_with (To_caller v) k
          else
            let k = save_context u v k; nxt = sched_pick_next (k_sched k)
            in if nxt = 0 then done_with Waits_for_wakeup k
               else done_with (To_process (ctx (kproc k nxt)))
                      (mmu_set_proc_table P (pgd (kproc k nxt)) (k\<lparr>k_sched := context_switch nxt (k_sched k)\<rparr>))
      | (r, k) \<Rightarrow> done_with (Not_back r) k)"

definition handle_svc :: "'d platform \<Rightarrow> svc_env \<Rightarrow> cpu_ctx_t \<Rightarrow> user_call \<Rightarrow> 'd kernel \<Rightarrow> (after_call \<times> 'd kernel) outcome option" where
  "handle_svc P env u c k =
     (let u = call_ctx u (svc_args c); r = (\<lambda>i. ctx_r u ! i)
      in bind_out (svc_dispatch P (call_env u env) (r 0) (r 1) (r 2) (r 3) (svc_insn c AND 0xFFFFFF) k) (svc_leave P u))"

section \<open>Facts\<close>

lemma mask_small: "unat w < 2 ^ k \<Longrightarrow> (w :: u32) AND mask k = w"
  by (simp flip: take_bit_eq_mask add: word_unat_eq_iff unsigned_take_bit_eq take_bit_nat_eq_self)

lemma ucast_byte: "ucast (ucast (c :: u8) :: u32) = c"
  by (rule bit_word_eqI) (simp add: bit_simps)

lemma svc_word_number: "n < 0x1000000 \<Longrightarrow> svc_word n AND 0xFFFFFF = n"
proof -
  assume n: "n < 0x1000000"
  have "n AND mask 24 = n" by (rule mask_small) (use n in \<open>simp add: word_less_nat_alt\<close>)
  then show ?thesis by (simp add: svc_word_def bit.conj_disj_distrib2 mask_eq_exp_minus_1 and.assoc)
qed

lemma sector_halves: "sector_of (ucast s) (ucast (drop_bit 32 s)) = s"
  by (rule bit_word_eqI) (auto simp: sector_of_def bit_simps)

text \<open>The registers that the wrapper sets are the handler's arguments, whatever the others hold.\<close>

lemma handle_svc_word:
  assumes "n < 22"
  shows "handle_svc P env u \<lparr>svc_insn = svc_word n, svc_args = args\<rparr> k =
    (let u = call_ctx u args; r = (\<lambda>i. ctx_r u ! i)
     in bind_out ((svc_handlers P (call_env u env) (r 0) (r 1) (r 2) (r 3) ! unat n) k) (svc_leave P u))"
proof -
  have "n < 0x1000000" using assms by (rule less_trans) simp
  moreover have "unat n < 22" using assms by (simp add: word_less_nat_alt)
  ultimately show ?thesis by (simp add: handle_svc_def svc_dispatch_def svc_word_number svc_handlers_def Let_def)
qed

lemma call_ctx_r [simp]: "ctx_r (call_ctx u args) = args @ drop (length args) (ctx_r u)"
  by (simp add: call_ctx_def)

lemma call_env_simps [simp]: "cntfrq (call_env u env) = cntfrq env" "cntpct (call_env u env) = cntpct env"
  by (simp_all add: call_env_def)

lemma call_env_ctx [simp]: "call_env (call_ctx u args) env = call_env u env"
  by (simp add: call_env_def call_ctx_def)

lemmas svc_simps = SVC0_def SVC1_def SVC2_def SVC3_def SVC4_def handle_svc_word svc_handlers_def


text \<open>A number beyond the table changes nothing but may still hand the processor over.\<close>

lemma unknown_number_ignored:
  assumes "22 \<le> n" "n < 0x1000000"
  shows "handle_svc P env u \<lparr>svc_insn = svc_word n, svc_args = args\<rparr> k = svc_leave P (call_ctx u args) (Svc_returns 0, k)"
proof -
  have "\<not> unat n < 22" using assms(1) by (simp add: word_le_nat_alt)
  then show ?thesis by (simp add: handle_svc_def svc_dispatch_def svc_word_number [OF assms(2)] svc_handlers_def Let_def)
qed

text \<open>A cell of the screen arrives whole when its coordinates have 16 bits.\<close>

lemma putc_at_arrives:
  assumes "col < 0x10000" "row < 0x10000"
  shows "handle_svc P env u (user_putc_at col row c fg bg) k =
    bind_out (on_fb (fb_putc_at (font P) col row c fg bg) k) (svc_leave P (call_ctx u [push_bit 16 col OR row, ucast c, fg, bg]))"
proof -
  have c: "col AND mask 16 = col" and r: "row AND mask 16 = row"
    using assms by (intro mask_small, simp add: word_less_nat_alt)+
  have "drop_bit 16 (push_bit 16 col OR row) = col"
  proof (rule bit_word_eqI)
    fix n assume "n < LENGTH(32)"
    have "\<not> bit row (16 + n)" using arg_cong [OF r, of "\<lambda>w. bit w (16 + n)"] by (simp add: bit_simps)
    moreover have "bit col n \<Longrightarrow> n < 16" using arg_cong [OF c, of "\<lambda>w. bit w n"] by (simp add: bit_simps)
    ultimately show "bit (drop_bit 16 (push_bit 16 col OR row)) n = bit col n" by (auto simp: bit_simps)
  qed
  moreover have "(push_bit 16 col OR row) AND 0xFFFF = row"
  proof -
    have "(push_bit 16 col OR row) AND mask 16 = row"
    proof (rule bit_word_eqI)
      fix n assume "n < LENGTH(32)"
      have "bit row n \<Longrightarrow> n < 16" using arg_cong [OF r, of "\<lambda>w. bit w n"] by (simp add: bit_simps)
      then show "bit ((push_bit 16 col OR row) AND mask 16) n = bit row n" by (auto simp: bit_simps)
    qed
    then show ?thesis by (simp add: mask_eq_exp_minus_1)
  qed
  ultimately show ?thesis by (simp add: svc_simps user_putc_at_def sys_fb_putc_def svc_fb_putc_def ucast_byte)
qed

text \<open>A call that suspends its caller hands the processor to the next runnable process, with the whole of its own registers
  kept; the caller's first register will be the result.\<close>

lemma svc_leave_switches:
  assumes "suspended (kproc k (current_proc (k_sched k))) \<noteq> 0" "sched_pick_next (k_sched (save_context u v k)) = nxt" "nxt \<noteq> 0"
    "nxt \<noteq> current_proc (k_sched k)"
  shows "\<exists>k'. svc_leave P u (Svc_returns v, k) = done_with (To_process (ctx (kproc k nxt))) k' \<and>
    current_proc (k_sched k') = nxt \<and> ttbr0 k' = virt_to_phys (kpb P) (pgd (kproc k nxt)) \<and>
    ctx (kproc k' (current_proc (k_sched k))) = u\<lparr>ctx_r := (ctx_r u)[0 := v]\<rparr>"
  using assms by (simp add: svc_leave_def Let_def save_context_def on_proc_def kproc_def upd_proc_def context_switch_def mmu_set_proc_table_def)

end
