(* ===== verification/Leg_Matrix.thy ===== *)
theory Leg_Matrix
  imports Leg_Usercalls Leg_Stdlib "HOL-Library.Stream"
begin

text \<open>
  The program \<^verbatim>\<open>src/usr/matrix.c\<close>: columns of falling characters, drawn with system calls. The state holds the static
  arrays, the replies that the random number call will give, and the calls made so far.
\<close>

section \<open>State\<close>

abbreviation (input) MX_COLS :: nat where "MX_COLS \<equiv> 100"
abbreviation (input) MX_ROWS :: u32 where "MX_ROWS \<equiv> 75"
abbreviation (input) TRAIL_LEN :: u32 where "TRAIL_LEN \<equiv> 16"
abbreviation (input) BRIGHT_GREEN :: u32 where "BRIGHT_GREEN \<equiv> 0x00CCFFCC"
abbreviation (input) MED_GREEN :: u32 where "MED_GREEN \<equiv> 0x0000CC00"
abbreviation (input) DIM_GREEN :: u32 where "DIM_GREEN \<equiv> 0x00006600"
abbreviation (input) FAINT_GREEN :: u32 where "FAINT_GREEN \<equiv> 0x00003300"
abbreviation (input) MX_GREEN :: u32 where "MX_GREEN \<equiv> 0x0000FF00"
abbreviation (input) MX_BLACK :: u32 where "MX_BLACK \<equiv> 0"

record drop_t =
  d_speed :: u32
  d_tick :: u32
  d_y :: u8
  d_len :: u8
  d_active :: bool

record matrix =
  drops :: "drop_t list"
  grid :: "u8 list list"
  mx_rand :: "u32 stream"
  mx_calls :: "user_call list"

definition ucall :: "user_call \<Rightarrow> matrix \<Rightarrow> matrix" where
  "ucall c s = s\<lparr>mx_calls := mx_calls s @ [c]\<rparr>"

definition rand32 :: "matrix \<Rightarrow> u32 \<times> matrix" where
  "rand32 s = (shd (mx_rand s), (ucall sys_rand s)\<lparr>mx_rand := stl (mx_rand s)\<rparr>)"

definition rand_below :: "u32 \<Rightarrow> matrix \<Rightarrow> u32 \<times> matrix" where
  "rand_below bound s = (let (r, s) = rand32 s in (r mod bound, s))"

definition upd_drop :: "nat \<Rightarrow> (drop_t \<Rightarrow> drop_t) \<Rightarrow> matrix \<Rightarrow> matrix" where
  "upd_drop c f s = s\<lparr>drops := (drops s)[c := f (drops s ! c)]\<rparr>"

definition set_cell :: "nat \<Rightarrow> u32 \<Rightarrow> u8 \<Rightarrow> matrix \<Rightarrow> matrix" where
  "set_cell c r x s = s\<lparr>grid := (grid s)[c := (grid s ! c)[unat r := x]]\<rparr>"

definition mx_cell :: "matrix \<Rightarrow> nat \<Rightarrow> u32 \<Rightarrow> u8" where
  "mx_cell s c r = grid s ! c ! unat r"

section \<open>Operations\<close>

definition rand_char :: "matrix \<Rightarrow> u8 \<times> matrix" where
  "rand_char s =
     (let (r, s) = rand_below 63 s
      in (if r < 10 then ucast (0x30 + r) else if r < 36 then ucast (0x41 + (r - 10)) else ucast (0x21 + (r - 36)), s))"

definition fade_color :: "u32 \<Rightarrow> u32" where
  "fade_color dist =
     (if dist = 0 then BRIGHT_GREEN else if dist = 1 then MX_GREEN else if dist \<le> 3 then MED_GREEN
      else if dist \<le> 6 then DIM_GREEN else if dist \<le> 10 then FAINT_GREEN else MX_BLACK)"

definition init_drop :: "nat \<Rightarrow> matrix \<Rightarrow> matrix" where
  "init_drop col s =
     (let s = upd_drop col (\<lambda>d. d\<lparr>d_y := 0\<rparr>) s;
          (r, s) = rand32 s; s = upd_drop col (\<lambda>d. d\<lparr>d_speed := 1 + r mod 3, d_tick := 0\<rparr>) s;
          (r, s) = rand32 s
      in upd_drop col (\<lambda>d. d\<lparr>d_len := ucast (8 + r mod (TRAIL_LEN + 1)), d_active := True\<rparr>) s)"

fun init_cells :: "nat \<Rightarrow> nat list \<Rightarrow> matrix \<Rightarrow> matrix" where
  "init_cells c [] s = s"
| "init_cells c (r # rs) s = (let (x, s) = rand_char s in init_cells c rs (set_cell c (w32 r) x s))"

definition init_column :: "nat \<Rightarrow> matrix \<Rightarrow> matrix" where
  "init_column c s =
     (let s = init_drop c s;
          (r, s) = rand32 s; s = upd_drop c (\<lambda>d. d\<lparr>d_y := ucast (r mod MX_ROWS)\<rparr>) s;
          (r, s) = rand32 s; s = upd_drop c (\<lambda>d. d\<lparr>d_active := r mod 3 \<noteq> 0\<rparr>) s
      in init_cells c [0..<unat MX_ROWS] s)"

definition init_drops :: "matrix \<Rightarrow> matrix" where
  "init_drops s = fold init_column [0..<MX_COLS] s"

fun redraw_trail :: "nat \<Rightarrow> u32 \<Rightarrow> nat list \<Rightarrow> matrix \<Rightarrow> matrix" where
  "redraw_trail c head [] s = s"
| "redraw_trail c head (d # ds) s =
     (if head < w32 d then s
      else let r = head - w32 d
           in if r \<ge> MX_ROWS then redraw_trail c head ds s
              else redraw_trail c head ds (ucall (user_putc_at (w32 c) r (mx_cell s c r) (fade_color (w32 d)) MX_BLACK) s))"

definition mutate :: "nat \<Rightarrow> u32 \<Rightarrow> matrix \<Rightarrow> matrix" where
  "mutate c head s =
     (if head \<ge> 2 \<and> head \<le> MX_ROWS
      then let (r, s) = rand32 s; mr = head - 2 + r mod 3
           in if mr < MX_ROWS then let (x, s) = rand_char s in set_cell c mr x s else s
      else s)"

definition draw_head :: "nat \<Rightarrow> u32 \<Rightarrow> matrix \<Rightarrow> matrix" where
  "draw_head c head s =
     (if head < MX_ROWS
      then let (x, s) = rand_char s; s = set_cell c head x s
           in ucall (user_putc_at (w32 c) head (mx_cell s c head) BRIGHT_GREEN MX_BLACK) s
      else s)"

definition erase_tail :: "nat \<Rightarrow> u32 \<Rightarrow> u32 \<Rightarrow> matrix \<Rightarrow> matrix" where
  "erase_tail c head len s =
     (let erase = (if head > len + 4 then head - len - 4 else 0)
      in if erase < MX_ROWS \<and> head > len + 4 then ucall (user_putc_at (w32 c) erase 0x20 MX_BLACK MX_BLACK) s else s)"

definition step_column :: "nat \<Rightarrow> matrix \<Rightarrow> matrix" where
  "step_column c s =
     (if \<not> d_active (drops s ! c)
      then let (r, s) = rand32 s in if r mod 40 = 0 then init_drop c s else s
      else
        let s = upd_drop c (\<lambda>d. d\<lparr>d_tick := d_tick d + 1\<rparr>) s
        in if d_tick (drops s ! c) < d_speed (drops s ! c) then s
           else
             let s = upd_drop c (\<lambda>d. d\<lparr>d_tick := 0, d_y := d_y d + 1\<rparr>) s;
                 head = ucast (d_y (drops s ! c)); len = ucast (d_len (drops s ! c))
             in if head > MX_ROWS + len then upd_drop c (\<lambda>d. d\<lparr>d_active := False\<rparr>) s
                else erase_tail c head len (redraw_trail c head [1..<unat len + 5] (draw_head c head (mutate c head s))))"

definition matrix_frame :: "matrix \<Rightarrow> matrix" where
  "matrix_frame s = fold step_column [0..<MX_COLS] s"

text \<open>The endless loop, on any beginning of the keys that its calls return.\<close>

fun matrix_loop :: "u8 list \<Rightarrow> matrix \<Rightarrow> matrix" where
  "matrix_loop [] s = s"
| "matrix_loop (key # keys) s =
     (let s = ucall sys_getchar_nb (matrix_frame s)
      in if key = 0x71 then s else matrix_loop keys (ucall (sys_sleep 50000) s))"

definition bss :: "u32 stream \<Rightarrow> matrix" where
  "bss rands = \<lparr>drops = replicate MX_COLS \<lparr>d_speed = 0, d_tick = 0, d_y = 0, d_len = 0, d_active = False\<rparr>,
     grid = replicate MX_COLS (replicate (unat MX_ROWS) 0), mx_rand = rands, mx_calls = []\<rparr>"

definition matrix_main :: "u32 \<Rightarrow> u64 \<Rightarrow> u32 stream \<Rightarrow> u8 list \<Rightarrow> matrix" where
  "matrix_main tbuf ticks rands keys =
     matrix_loop keys (init_drops (ucall (sys_fb_clear MX_BLACK) (ucall (sys_rand_seed (ucast ticks)) (ucall (sys_ticks tbuf) (bss rands)))))"

section \<open>Invariant\<close>

definition glyph :: "u8 \<Rightarrow> bool" where
  "glyph x \<longleftrightarrow> 0x20 \<le> x \<and> x \<le> 0x5A"

definition drop_ok :: "drop_t \<Rightarrow> bool" where
  "drop_ok d \<longleftrightarrow> 1 \<le> unat (d_speed d) \<and> unat (d_speed d) \<le> 3 \<and> unat (d_tick d) < unat (d_speed d) \<and>
     8 \<le> unat (d_len d) \<and> unat (d_len d) \<le> 24 \<and> unat (d_y d) \<le> 75 + unat (d_len d) + (if d_active d then 0 else 1)"

definition call_ok :: "user_call \<Rightarrow> bool" where
  "call_ok c \<longleftrightarrow> c \<in> {sys_rand, sys_getchar_nb, sys_sleep 50000, sys_fb_clear MX_BLACK} \<or> (\<exists>a. c = sys_ticks a) \<or> (\<exists>a. c = sys_rand_seed a)
     \<or> (\<exists>col row x fg. col < 100 \<and> row < 75 \<and> glyph x \<and> c = user_putc_at col row x fg MX_BLACK)"

definition sized :: "matrix \<Rightarrow> bool" where
  "sized s \<longleftrightarrow> length (drops s) = MX_COLS \<and> length (grid s) = MX_COLS \<and> list_all (\<lambda>g. length g = 75) (grid s)"

text \<open>The columns below \<open>n\<close> are in order.\<close>

definition mx_ok :: "nat \<Rightarrow> matrix \<Rightarrow> bool" where
  "mx_ok n s \<longleftrightarrow> sized s \<and> (\<forall>c < n. drop_ok (drops s ! c) \<and> list_all glyph (grid s ! c)) \<and> list_all call_ok (mx_calls s)"

lemma mx_ok_ucall: "mx_ok n s \<Longrightarrow> call_ok x \<Longrightarrow> mx_ok n (ucall x s)"
  by (simp add: mx_ok_def sized_def ucall_def)

lemma ucall_simps [simp]: "drops (ucall x s) = drops s" "grid (ucall x s) = grid s" "mx_rand (ucall x s) = mx_rand s"
  by (simp_all add: ucall_def)

lemma call_ok_simps [simp]: "call_ok sys_rand" "call_ok sys_getchar_nb" "call_ok (sys_sleep 50000)" "call_ok (sys_fb_clear MX_BLACK)"
  "call_ok (sys_ticks a)" "call_ok (sys_rand_seed b)"
  by (auto simp: call_ok_def)

lemma call_ok_putc: "c < MX_COLS \<Longrightarrow> r < MX_ROWS \<Longrightarrow> glyph x \<Longrightarrow> call_ok (user_putc_at (w32 c) r x fg MX_BLACK)"
proof -
  assume a: "c < MX_COLS" "r < MX_ROWS" "glyph x"
  have "w32 c < (100 :: u32)" using a(1) by (simp add: word_less_nat_alt unat_of_nat)
  then show ?thesis using a unfolding call_ok_def by blast
qed

lemma rand32_ok: "mx_ok n s \<Longrightarrow> mx_ok n (snd (rand32 s))"
  using mx_ok_ucall [of n s sys_rand] by (simp add: rand32_def mx_ok_def sized_def)

lemma rand32_simps [simp]: "drops (snd (rand32 s)) = drops s" "grid (snd (rand32 s)) = grid s"
  by (simp_all add: rand32_def)

lemma unat_mod_lt: "0 < unat (b :: u32) \<Longrightarrow> unat (r mod b) < unat b"
  by (simp add: unat_mod)

lemma rand_char_glyph: "glyph (fst (rand_char s))"
proof -
  define r where "r = shd (mx_rand s) mod 63"
  have r: "unat r < 63" unfolding r_def using unat_mod_lt [of 63 "shd (mx_rand s)"] by simp
  have f: "fst (rand_char s) = (if r < 10 then ucast (0x30 + r) else if r < 36 then ucast (0x41 + (r - 10)) else ucast (0x21 + (r - 36)))"
    by (simp add: rand_char_def rand_below_def rand32_def r_def Let_def)
  define k where "k = unat r"
  have rk: "r = w32 k" by (simp add: k_def)
  have "k < 63" using r by (simp add: k_def)
  then have "k \<in> set [0..<63]" by simp
  then show ?thesis unfolding f rk glyph_def by (simp add: upt_rec) (elim disjE; simp)
qed

lemma rand_char_ok: "mx_ok n s \<Longrightarrow> mx_ok n (snd (rand_char s))"
  using rand32_ok [of n s] by (simp add: rand_char_def rand_below_def split_beta Let_def)

lemma rand_char_simps [simp]: "drops (snd (rand_char s)) = drops s" "grid (snd (rand_char s)) = grid s"
  by (simp_all add: rand_char_def rand_below_def split_beta Let_def)

lemma upd_drop_simps [simp]: "grid (upd_drop c f s) = grid s" "mx_calls (upd_drop c f s) = mx_calls s"
  "length (drops (upd_drop c f s)) = length (drops s)" "c < length (drops s) \<Longrightarrow> drops (upd_drop c f s) ! c = f (drops s ! c)"
  by (simp_all add: upd_drop_def)

lemma upd_drop_ok: "mx_ok n s \<Longrightarrow> c < MX_COLS \<Longrightarrow> (c < n \<Longrightarrow> drop_ok (f (drops s ! c))) \<Longrightarrow> mx_ok n (upd_drop c f s)"
proof -
  assume a: "mx_ok n s" "c < MX_COLS" "c < n \<Longrightarrow> drop_ok (f (drops s ! c))"
  have "drop_ok ((drops s)[c := f (drops s ! c)] ! d)" if "d < n" for d
    using a that by (cases "d = c") (auto simp: mx_ok_def sized_def)
  then show ?thesis using a(1) by (simp add: mx_ok_def sized_def upd_drop_def)
qed

lemma set_cell_simps [simp]: "drops (set_cell c r x s) = drops s" "length (grid (set_cell c r x s)) = length (grid s)"
  by (simp_all add: set_cell_def)

lemma sized_set_cell: "sized s \<Longrightarrow> c < MX_COLS \<Longrightarrow> sized (set_cell c r x s)"
  by (auto simp: sized_def set_cell_def list_all_length nth_list_update)

lemma list_all_update: "list_all P xs \<Longrightarrow> P x \<Longrightarrow> list_all P (xs[i := x])"
  using set_update_subset_insert [of xs i x] by (auto simp: list_all_iff)

lemma set_cell_ok: "mx_ok n s \<Longrightarrow> c < MX_COLS \<Longrightarrow> glyph x \<Longrightarrow> mx_ok n (set_cell c r x s)"
proof -
  assume a: "mx_ok n s" "c < MX_COLS" "glyph x"
  have "list_all glyph ((grid s)[c := (grid s ! c)[unat r := x]] ! d)" if "d < n" for d
    using a that by (cases "d = c") (auto simp: mx_ok_def sized_def intro: list_all_update)
  then show ?thesis using sized_set_cell [of s c r x] a by (simp add: mx_ok_def set_cell_def)
qed

lemma mx_cell_glyph: "mx_ok MX_COLS s \<Longrightarrow> c < MX_COLS \<Longrightarrow> r < MX_ROWS \<Longrightarrow> glyph (mx_cell s c r)"
  by (auto simp: mx_ok_def sized_def mx_cell_def list_all_length word_less_nat_alt)


section \<open>The operations keep it\<close>

lemma redraw_trail_ok: "mx_ok MX_COLS s \<Longrightarrow> c < MX_COLS \<Longrightarrow> mx_ok MX_COLS (redraw_trail c head ds s)"
proof (induction ds arbitrary: s)
  case (Cons d ds)
  have "mx_ok MX_COLS (ucall (user_putc_at (w32 c) (head - w32 d) (mx_cell s c (head - w32 d)) fg MX_BLACK) s)"
    if "head - w32 d < MX_ROWS" for fg
    using Cons.prems that by (intro mx_ok_ucall call_ok_putc mx_cell_glyph)
  then show ?case using Cons by (simp add: Let_def not_le)
qed simp

lemma mutate_ok: "mx_ok n s \<Longrightarrow> c < MX_COLS \<Longrightarrow> mx_ok n (mutate c head s)"
  using set_cell_ok [OF rand_char_ok [OF rand32_ok] _ rand_char_glyph, of n s c] rand32_ok [of n s]
  by (simp add: mutate_def split_beta Let_def)

lemma draw_head_ok: "mx_ok MX_COLS s \<Longrightarrow> c < MX_COLS \<Longrightarrow> mx_ok MX_COLS (draw_head c head s)"
proof -
  assume s: "mx_ok MX_COLS s" and c: "c < MX_COLS"
  let ?s = "set_cell c head (fst (rand_char s)) (snd (rand_char s))"
  have o: "mx_ok MX_COLS ?s" by (rule set_cell_ok [OF rand_char_ok [OF s] c rand_char_glyph])
  then have "mx_ok MX_COLS (ucall (user_putc_at (w32 c) head (mx_cell ?s c head) BRIGHT_GREEN MX_BLACK) ?s)" if "head < MX_ROWS"
    using c that by (intro mx_ok_ucall call_ok_putc mx_cell_glyph)
  then show ?thesis using s by (simp add: draw_head_def split_beta Let_def)
qed

lemma erase_tail_ok: "mx_ok n s \<Longrightarrow> c < MX_COLS \<Longrightarrow> mx_ok n (erase_tail c head len s)"
  by (auto simp: erase_tail_def Let_def glyph_def intro!: mx_ok_ucall call_ok_putc)

text \<open>A drop that starts needs nothing of the old one.\<close>

lemma new_len: "unat (ucast (8 + (r :: u32) mod (TRAIL_LEN + 1)) :: u8) = 8 + unat r mod 17"
proof -
  have m: "unat (r mod 17) = unat r mod 17" by (simp add: unat_mod)
  have l: "unat r mod 17 < 17" by simp
  have "unat (8 + r mod 17) = 8 + unat r mod 17" using unat_add_no_wrap [of 8 "r mod 17"] m l by simp
  then show ?thesis using l by (simp add: unsigned_ucast_eq take_bit_nat_eq_self)
qed

lemma new_speed: "unat (1 + (r :: u32) mod 3) = 1 + unat r mod 3"
proof -
  have "unat (r mod 3) = unat r mod 3" by (simp add: unat_mod)
  then show ?thesis using unat_add_no_wrap [of 1 "r mod 3"] by simp
qed

lemma init_drop_keeps: "sized s \<Longrightarrow> list_all call_ok (mx_calls s) \<Longrightarrow> sized (init_drop c s) \<and> list_all call_ok (mx_calls (init_drop c s))
    \<and> grid (init_drop c s) = grid s \<and> (\<forall>d. d \<noteq> c \<longrightarrow> drops (init_drop c s) ! d = drops s ! d)"
  by (simp add: init_drop_def rand32_def upd_drop_def ucall_def sized_def Let_def)

lemma init_drop_new: "sized s \<Longrightarrow> c < MX_COLS \<Longrightarrow> drop_ok (drops (init_drop c s) ! c) \<and> d_y (drops (init_drop c s) ! c) = 0"
proof -
  assume s: "sized s" "c < MX_COLS"
  define r q where "r = shd (mx_rand s)" and "q = shd (stl (mx_rand s))"
  have "drops (init_drop c s) ! c = (drops s ! c)\<lparr>d_y := 0, d_speed := 1 + r mod 3, d_tick := 0,
      d_len := ucast (8 + q mod (TRAIL_LEN + 1)), d_active := True\<rparr>"
    using s by (simp add: init_drop_def rand32_def upd_drop_def ucall_def sized_def Let_def r_def q_def)
  moreover have "unat r mod 3 \<le> 2" "unat q mod 17 \<le> 16" by (simp_all flip: less_Suc_eq_le)
  ultimately show ?thesis using new_speed [of r] new_len [of q] by (simp add: drop_ok_def)
qed

lemma init_drop_ok: "mx_ok n s \<Longrightarrow> c < MX_COLS \<Longrightarrow> mx_ok n (init_drop c s)"
proof -
  assume s: "mx_ok n s" "c < MX_COLS"
  have z: "sized s" "list_all call_ok (mx_calls s)" using s(1) by (simp_all add: mx_ok_def)
  have "drop_ok (drops (init_drop c s) ! d)" if "d < n" for d
    using init_drop_keeps [OF z, of c] init_drop_new [OF z(1) s(2)] s(1) that by (cases "d = c") (simp_all add: mx_ok_def)
  then show ?thesis using init_drop_keeps [OF z, of c] s(1) by (simp add: mx_ok_def)
qed


text \<open>The loop over the rows of a column, on any number of them.\<close>

lemma init_cells_ok:
  assumes "mx_ok n s" "c < MX_COLS" "\<forall>r \<in> set rs. r < 75"
  shows "mx_ok n (init_cells c rs s) \<and> drops (init_cells c rs s) = drops s \<and>
    (\<forall>i < 75. glyph (grid s ! c ! i) \<or> i \<in> set rs \<longrightarrow> glyph (grid (init_cells c rs s) ! c ! i))"
  using assms
proof (induction rs arbitrary: s)
  case (Cons r rs)
  let ?s = "set_cell c (w32 r) (fst (rand_char s)) (snd (rand_char s))"
  have ok: "mx_ok n ?s" by (rule set_cell_ok [OF rand_char_ok [OF Cons.prems(1)] Cons.prems(2) rand_char_glyph])
  have r: "unat (w32 r) = r" using Cons.prems(3) by (simp add: unat_w32)
  have len: "length (grid s) = MX_COLS" "length (grid s ! c) = 75"
    using Cons.prems(1,2) by (auto simp: mx_ok_def sized_def list_all_length)
  have "glyph (grid ?s ! c ! i)" if "i < 75" "glyph (grid s ! c ! i) \<or> i = r" for i
    using that len Cons.prems(2) rand_char_glyph [of s] r by (cases "i = r") (simp_all add: set_cell_def)
  then show ?case using Cons.IH [OF ok Cons.prems(2)] Cons.prems(3) by (auto simp: split_beta Let_def)
qed simp

lemma init_column_ok: "mx_ok c s \<Longrightarrow> c < MX_COLS \<Longrightarrow> mx_ok (Suc c) (init_column c s)"
proof -
  assume s: "mx_ok c s" and c: "c < MX_COLS"
  define s1 where "s1 = init_drop c s"
  have s1: "mx_ok c s1" unfolding s1_def by (rule init_drop_ok [OF s c])
  have d1: "drop_ok (drops s1 ! c)" "d_y (drops s1 ! c) = 0" using init_drop_new [OF _ c, of s] s by (auto simp: s1_def mx_ok_def)
  define y where "y = shd (mx_rand s1)"
  define s2 where "s2 = upd_drop c (\<lambda>d. d\<lparr>d_y := ucast (y mod MX_ROWS)\<rparr>) (snd (rand32 s1))"
  have s2: "mx_ok c s2" unfolding s2_def by (rule upd_drop_ok [OF rand32_ok [OF s1] c]) simp
  have len1: "length (drops s1) = MX_COLS" using s1 by (simp add: mx_ok_def sized_def)
  have m: "unat (y mod 75) = unat y mod 75" "unat y mod 75 < 75" by (simp_all add: unat_mod)
  then have "unat (ucast (y mod 75) :: u8) < 75" by (simp add: unsigned_ucast_eq take_bit_nat_eq_self)
  then have d2: "drop_ok (drops s2 ! c)" "unat (d_y (drops s2 ! c)) < 75"
    using d1 len1 c by (simp_all add: s2_def drop_ok_def split: if_splits)
  define a where "a = shd (mx_rand s2)"
  define s3 where "s3 = upd_drop c (\<lambda>d. d\<lparr>d_active := a mod 3 \<noteq> 0\<rparr>) (snd (rand32 s2))"
  have s3: "mx_ok c s3" unfolding s3_def by (rule upd_drop_ok [OF rand32_ok [OF s2] c]) simp
  have len2: "length (drops s2) = MX_COLS" using s2 by (simp add: mx_ok_def sized_def)
  have d3: "drop_ok (drops s3 ! c)" using d2 len2 c by (simp add: s3_def drop_ok_def split: if_splits)
  have e: "init_column c s = init_cells c [0..<75] s3"
    by (simp add: init_column_def s3_def s2_def s1_def a_def y_def rand32_def split_beta Let_def)
  have rows: "\<forall>r \<in> set [0..<75]. r < (75 :: nat)" by simp
  note cells = init_cells_ok [OF s3 c rows, folded e]
  have "length (grid (init_column c s) ! c) = 75" using cells c by (auto simp: mx_ok_def sized_def list_all_length)
  moreover have "glyph (grid (init_column c s) ! c ! i)" if "i < 75" for i using cells that by simp
  ultimately have "list_all glyph (grid (init_column c s) ! c)" by (simp add: list_all_length)
  then show ?thesis using cells d3 by (auto simp: mx_ok_def less_Suc_eq)
qed

lemma init_drops_ok: "mx_ok 0 s \<Longrightarrow> mx_ok MX_COLS (init_drops s)"
proof -
  assume s: "mx_ok 0 s"
  have "mx_ok n (fold init_column [0..<n] s)" if "n \<le> MX_COLS" for n
    using that
  proof (induction n)
    case (Suc n)
    then show ?case using init_column_ok [of n "fold init_column [0..<n] s"] by simp
  qed (use s in simp)
  then show ?thesis by (simp only: init_drops_def order_refl)
qed

lemma step_column_ok: "mx_ok MX_COLS s \<Longrightarrow> c < MX_COLS \<Longrightarrow> mx_ok MX_COLS (step_column c s)"
proof -
  assume s: "mx_ok MX_COLS s" and c: "c < MX_COLS"
  let ?d = "drops s ! c"
  have d: "drop_ok ?d" and len: "length (drops s) = MX_COLS" using s c by (simp_all add: mx_ok_def sized_def)
  show ?thesis
  proof (cases "d_active ?d")
    case False
    then show ?thesis using rand32_ok [OF s] init_drop_ok [OF rand32_ok [OF s] c] by (simp add: step_column_def split_beta Let_def)
  next
    case True
    let ?s1 = "upd_drop c (\<lambda>d. d\<lparr>d_tick := d_tick d + 1\<rparr>) s"
    have len1: "length (drops ?s1) = MX_COLS" and d1: "drops ?s1 ! c = ?d\<lparr>d_tick := d_tick ?d + 1\<rparr>" using len c by simp_all
    have t: "unat (d_tick ?d + 1) = unat (d_tick ?d) + 1" using d unat_add_no_wrap [of "d_tick ?d" 1] by (simp add: drop_ok_def)
    show ?thesis
    proof (cases "d_tick ?d + 1 < d_speed ?d")
      case lt: True
      have "unat (d_tick ?d + 1) < unat (d_speed ?d)" using lt by (simp only: word_less_nat_alt)
      then have "drop_ok (?d\<lparr>d_tick := d_tick ?d + 1\<rparr>)" using d by (simp add: drop_ok_def)
      then have "mx_ok MX_COLS ?s1" using upd_drop_ok [OF s c] by simp
      then show ?thesis using True lt d1 by (simp add: step_column_def Let_def)
    next
      case ge: False
      let ?g = "\<lambda>d. d\<lparr>d_tick := 0, d_y := d_y d + 1\<rparr>"
      let ?s2 = "upd_drop c ?g ?s1" and ?e = "?d\<lparr>d_tick := 0, d_y := d_y ?d + 1\<rparr>"
      have d2: "drops ?s2 ! c = ?e" using len1 c d1 by simp
      have y: "unat (d_y ?d + 1) = unat (d_y ?d) + 1"
        using d True unat_add_lem [of "d_y ?d" 1] by (simp add: drop_ok_def)
      let ?h = "ucast (d_y ?e) :: u32" and ?l = "ucast (d_len ?e) :: u32"
      have "unat (75 + ?l) = 75 + unat (d_len ?d)"
        using unat_add_no_wrap [of 75 ?l] d by (simp add: drop_ok_def unat_radix)
      then have hl: "?h > MX_ROWS + ?l \<longleftrightarrow> unat (d_y ?d) + 1 > 75 + unat (d_len ?d)"
        by (simp add: word_less_nat_alt unat_radix y)
      show ?thesis
      proof (cases "?h > MX_ROWS + ?l")
        case out: True
        have e: "upd_drop c (\<lambda>d. d\<lparr>d_active := False\<rparr>) ?s2 = upd_drop c (\<lambda>d. (?g (d\<lparr>d_tick := d_tick d + 1\<rparr>))\<lparr>d_active := False\<rparr>) s"
          using len c by (simp add: upd_drop_def)
        have "drop_ok (?e\<lparr>d_active := False\<rparr>)" using d True y by (simp add: drop_ok_def)
        then have "mx_ok MX_COLS (upd_drop c (\<lambda>d. d\<lparr>d_active := False\<rparr>) ?s2)" unfolding e by (intro upd_drop_ok [OF s c]) simp
        moreover have "step_column c s = upd_drop c (\<lambda>d. d\<lparr>d_active := False\<rparr>) ?s2"
          using True ge out d1 d2 by (simp add: step_column_def Let_def)
        ultimately show ?thesis by simp
      next
        case on: False
        have e: "?s2 = upd_drop c (\<lambda>d. ?g (d\<lparr>d_tick := d_tick d + 1\<rparr>)) s" using len c by (simp add: upd_drop_def)
        have "drop_ok ?e" using d True y on hl by (simp add: drop_ok_def)
        then have ok: "mx_ok MX_COLS ?s2" unfolding e by (intro upd_drop_ok [OF s c]) simp
        have "step_column c s =
            erase_tail c ?h ?l (redraw_trail c ?h [1..<unat ?l + 5] (draw_head c ?h (mutate c ?h ?s2)))"
          using True ge on d1 d2 by (simp only: step_column_def Let_def) simp
        then show ?thesis by (simp only:) (intro erase_tail_ok redraw_trail_ok draw_head_ok mutate_ok ok c)
      qed
    qed
  qed
qed

lemma matrix_frame_ok: "mx_ok MX_COLS s \<Longrightarrow> mx_ok MX_COLS (matrix_frame s)"
proof -
  have "\<forall>c \<in> set cs. c < MX_COLS \<Longrightarrow> mx_ok MX_COLS s \<Longrightarrow> mx_ok MX_COLS (fold step_column cs s)" for cs
    by (induction cs arbitrary: s) (simp_all add: step_column_ok)
  then show "mx_ok MX_COLS s \<Longrightarrow> mx_ok MX_COLS (matrix_frame s)" by (simp add: matrix_frame_def)
qed

lemma matrix_loop_ok: "mx_ok MX_COLS s \<Longrightarrow> mx_ok MX_COLS (matrix_loop keys s)"
proof (induction keys arbitrary: s)
  case (Cons key keys)
  have "mx_ok MX_COLS (ucall sys_getchar_nb (matrix_frame s))" by (rule mx_ok_ucall [OF matrix_frame_ok [OF Cons.prems]]) simp
  then show ?case using Cons.IH [OF mx_ok_ucall] by (simp add: Let_def)
qed simp

section \<open>Properties\<close>

text \<open>C38: Whatever the random numbers, the clock and the keys, every call that the program makes is one of those it
  means to make: it draws only cells of the 100 x 75 grid, so that both coordinates arrive whole in the packed argument,
  with printable characters on black; and its drops always move within their bounds, so that the 8-bit row never
  wraps.\<close>

theorem matrix_stays_on_screen:
  "list_all call_ok (mx_calls (matrix_main tbuf ticks rands keys)) \<and>
   list_all drop_ok (drops (matrix_main tbuf ticks rands keys))"
proof -
  have "mx_ok 0 (bss rands)" by (simp add: mx_ok_def sized_def bss_def list_all_length)
  then have "mx_ok 0 (ucall (sys_fb_clear MX_BLACK) (ucall (sys_rand_seed (ucast ticks)) (ucall (sys_ticks tbuf) (bss rands))))"
    by (intro mx_ok_ucall) simp_all
  then have "mx_ok MX_COLS (matrix_main tbuf ticks rands keys)"
    unfolding matrix_main_def by (intro matrix_loop_ok init_drops_ok)
  then show ?thesis by (auto simp: mx_ok_def sized_def list_all_length)
qed

end
