(* ===== verification/Leg_Fonts.thy ===== *)
theory Leg_Fonts
  imports Leg_Fb
begin

text \<open>
  The two font tables of \<^verbatim>\<open>src/kernel/dev/fonts\<close>: for each of 256 characters eight rows of eight pixels. The console draws
  with \<^verbatim>\<open>sans_data\<close>. A table is written with one number for the eight bytes of a character, the first row on top.
\<close>

section \<open>The tables\<close>

definition sans_data :: "u64 list" where
  "sans_data = replicate 32 0 @ [
    0x0000000000000000, 0x1818181818001800, 0x6c6c240000000000, 0x6c6cfe6cfe6c6c00, 0x187ec07c06fc1800,
    0x00c6cc183066c600, 0x386c3876dccc7600, 0x0818300000000000, 0x0c18303030180c00, 0x30180c0c0c183000,
    0x00663cff3c660000, 0x0018187e18180000, 0x0000000000081830, 0x0000007e00000000, 0x0000000000181800,
    0x060c183060c08000, 0x7cc2c6cad2e27c00, 0x1838181818181800, 0x7c82021c3060fe00, 0x7c82023c02827c00,
    0x24448484fe040400, 0xfe80fc0202827c00, 0x3860c0fcc2c27c00, 0xfe060c183060c000, 0x7cc2c27cc2c27c00,
    0x7cc2c27e020c7800, 0x0018180000181800, 0x0018180000081830, 0x0c18306030180c00, 0x00007e007e000000,
    0x6030180c18306000, 0x7cc60c1818001800, 0x7cc6ded6dec07800, 0x3864c2c2fec2c200, 0x7c62627c62627c00,
    0x3c62c0c0c0623c00, 0x7864626262647800, 0x7e60607860607e00, 0x7e60607860606000, 0x3c62c0c0c6623e00,
    0xc2c2c2fec2c2c200, 0x1818181818181800, 0x04040404c4c47800, 0x62666c786c666200, 0x6060606060607e00,
    0xc6eefad2c2c2c200, 0xc2e2f2dacec6c200, 0x7cc2c2c2c2c27c00, 0x7c62627c60606000, 0x7cc2c2c2d2da7c06,
    0x7c62627c64626200, 0x7cc2e07c02c27c00, 0x7e18181818181800, 0xc2c2c2c2c2c27c00, 0xc2c2c2c264381000,
    0xc2c2c2d2fae6c200, 0xc2c2643864c2c200, 0x6262623c18181800, 0xfe060c183060fe00, 0x3c30303030303c00,
    0xc06030180c060200, 0x3c0c0c0c0c0c3c00, 0x10386cc600000000, 0x00000000000000ff, 0x30180c0000000000,
    0x000078047cc47c00, 0x6060607c62627c00, 0x00007cc2c0c27c00, 0x0c0c0c7ccccc7c00, 0x00007cc2fec07e00,
    0x386460f060606000, 0x000078c4c47c0478, 0x60606c7262626200, 0x1800181818181800, 0x060006060666663c,
    0x6060666c786c6600, 0x1818181818181c00, 0x0000ecd2d2c2c200, 0x00007c6262626200, 0x00007cc2c2c27c00,
    0x00007c62627c6060, 0x00007ccccc7c0c0c, 0x00007c6260606000, 0x00007cc07c06fc00, 0x10307c3030301800,
    0x0000c4c4c4c47c00, 0x0000c2c2c2643800, 0x0000c2c2d2fa6400, 0x0000c2643864c200, 0x0000c2c2c27e027c,
    0x0000fe0c1830fe00, 0x0e18187018180e00, 0x1818180018181800, 0x7018180e18187000, 0x00000076dc000000] @ replicate 129 0"

definition serif_data :: "u64 list" where
  "serif_data = replicate 32 0 @ [
    0x0000000000000000, 0x183c3c1818001800, 0x6c6c240000000000, 0x6c6cfe6cfe6c6c00, 0x187ec07c06fc1800,
    0x00c6cc183066c600, 0x386c3876dccc7600, 0x1818300000000000, 0x0c18303030180c00, 0x30180c0c0c183000,
    0x00663cff3c660000, 0x0018187e18180000, 0x0000000000181830, 0x0000007e00000000, 0x0000000000181800,
    0x060c183060c08000, 0x7cc6cedef6e67c00, 0x1838781818187e00, 0x7cc6061c3066fe00, 0x7cc6063c06c67c00,
    0x1c3c6cccfe0c1e00, 0xfec0fc0606c67c00, 0x3860c0fcc6c67c00, 0xfec60c1830303000, 0x7cc6c67cc6c67c00,
    0x7cc6c67e060c7800, 0x0018180000181800, 0x0018180000181830, 0x0c18306030180c00, 0x00007e007e000000,
    0x6030180c18306000, 0x7cc60c1818001800, 0x7cc6dededec07800, 0x386cc6c6fec6c600, 0xfc66667c6666fc00,
    0x3c66c0c0c0663c00, 0xf86c6666666cf800, 0xfe6268786862fe00, 0xfe6268786860f000, 0x3c66c0c0ce663e00,
    0xc6c6c6fec6c6c600, 0x3c18181818183c00, 0x1e0c0c0ccccc7800, 0xe6666c786c66e600, 0xf06060606266fe00,
    0xc6eefed6c6c6c600, 0xc6e6f6decec6c600, 0x7cc6c6c6c6c67c00, 0xfc66667c6060f000, 0x7cc6c6c6d6de7c06,
    0xfc66667c6c66e600, 0x7cc6e07c0ec67c00, 0x7e5a181818183c00, 0xc6c6c6c6c6c67c00, 0xc6c6c6c66c381000,
    0xc6c6c6d6feeec600, 0xc6c66c386cc6c600, 0x6666663c18183c00, 0xfec68c183266fe00, 0x3c30303030303c00,
    0xc06030180c060200, 0x3c0c0c0c0c0c3c00, 0x10386cc600000000, 0x00000000000000ff, 0x30180c0000000000,
    0x0000780c7ccc7600, 0xe060607c6666dc00, 0x00007cc6c0c67c00, 0x1c0c0c7ccccc7600, 0x00007cc6fec07c00,
    0x386c60f06060f000, 0x000076cccc7c0cf8, 0xe0606c766666e600, 0x1800381818183c00, 0x060006060666663c,
    0xe060666c786ce600, 0x3818181818183c00, 0x0000ccfed6c6c600, 0x0000dc6666666600, 0x00007cc6c6c67c00,
    0x0000dc66667c60f0, 0x000076cccc7c0c1e, 0x0000dc766060f000, 0x00007cc07c06fc00, 0x10307c3030341800,
    0x0000cccccccc7600, 0x0000c6c6c66c3800, 0x0000c6c6d6fe6c00, 0x0000c66c386cc600, 0x0000c6c6c67e06fc,
    0x0000fe8c1832fe00, 0x0e18187018180e00, 0x1818180018181800, 0x7018180e18187000, 0x76dc000000000000] @ replicate 129 0"

definition glyph_row :: "u64 \<Rightarrow> nat \<Rightarrow> u8" where
  "glyph_row w r = ucast (drop_bit (56 - 8 * r) w)"

text \<open>Byte \<open>i\<close> of a table, as the console indexes it.\<close>

definition font_of :: "u64 list \<Rightarrow> font" where
  "font_of tab i = glyph_row (tab ! (i div 8)) (i mod 8)"

section \<open>Legibility\<close>

abbreviation printable :: "u8 \<Rightarrow> bool" where
  "printable c \<equiv> 32 \<le> c \<and> c < 127"

lemma table_glyphs: "length xs = 95 \<Longrightarrow> map ((!) (replicate 32 0 @ xs @ ys)) [32..<127] = (xs :: u64 list)"
  by (intro nth_equalityI) (simp_all add: nth_append)

lemma table_blank: "length xs = 95 \<Longrightarrow> n < 256 \<Longrightarrow> n < 32 \<or> 127 \<le> n \<Longrightarrow> (replicate 32 0 @ xs @ replicate 129 (0 :: u64)) ! n = 0"
  by (auto simp: nth_append)

lemma distinct_words: "distinct (map unat ws) \<Longrightarrow> distinct (ws :: u64 list)"
  by (simp add: distinct_map)

lemma fonts_distinct:
  "distinct (map ((!) sans_data) [32..<127])" "distinct (map ((!) serif_data) [32..<127])"
  unfolding sans_data_def serif_data_def
  by (subst table_glyphs, simp, rule distinct_words, simp)+

lemma pixel_bit:
  assumes "c < 8"
  shows "(b :: u8) AND drop_bit c 0x80 \<noteq> 0 \<longleftrightarrow> bit b (7 - c)"
proof -
  have "c = 0 \<or> c = 1 \<or> c = 2 \<or> c = 3 \<or> c = 4 \<or> c = 5 \<or> c = 6 \<or> c = 7" using assms by linarith
  then have "drop_bit c (0x80 :: u8) = push_bit (7 - c) 1" by (elim disjE) simp_all
  then show ?thesis by (simp add: push_bit_eq_mult bit_iff_and_push_bit_not_eq_0)
qed

lemma rows_glyph:
  assumes "\<forall>r < 8. glyph_row v r = glyph_row w r"
  shows "v = w"
proof (rule bit_word_eqI)
  fix n assume "n < LENGTH(64)"
  then have n: "n < 64" by simp
  define r where "r = 7 - n div 8"
  have "n div 8 < 8" using n by simp
  then have r: "r < 8" "56 - 8 * r = 8 * (n div 8)" by (simp_all add: r_def)
  have "bit (glyph_row v r) (n mod 8) = bit (glyph_row w r) (n mod 8)" using assms r(1) by simp
  then show "bit v n = bit w n" by (simp add: glyph_row_def bit_simps r(2))
qed

lemma cells_determine:
  assumes "distinct (map ((!) tab) [32..<127])" "printable a" "printable b" "fg \<noteq> bg"
    and same: "\<forall>r < 8. \<forall>c < 8. cell_pix (font_of tab) (Glyph a fg bg) r c = cell_pix (font_of tab) (Glyph b fg bg) r c"
  shows "a = b"
proof -
  have "glyph_row (tab ! unat a) r = glyph_row (tab ! unat b) r" if r: "r < 8" for r
  proof (rule bit_word_eqI)
    fix n assume "n < LENGTH(8)"
    then have n: "n \<le> 7" "7 - n < 8" by simp_all
    have "(unat x * 8 + r) div 8 = unat x" "(unat x * 8 + r) mod 8 = r" for x :: u8 using r by simp_all
    then show "bit (glyph_row (tab ! unat a) r) n = bit (glyph_row (tab ! unat b) r) n"
      using same [rule_format, OF r n(2)] n(1) assms(4) pixel_bit [OF n(2)] by (auto simp: font_of_def split: if_splits)
  qed
  then have eq: "tab ! unat a = tab ! unat b" by (intro rows_glyph) simp
  have "unat a \<in> set [32..<127]" "unat b \<in> set [32..<127]"
    using assms(2,3) by (simp_all add: word_le_nat_alt word_less_nat_alt)
  then have "unat a = unat b" using assms(1) eq by (auto simp: distinct_map inj_on_def)
  then show ?thesis by (metis word_unat_eq_iff)
qed

text \<open>C40: The console is legible: where two printable characters, drawn in the same cell in the same two different colours,
  leave the same picture, they are the same character.\<close>

theorem console_legible:
  assumes "printable a" "printable b" "fg \<noteq> bg" "unat cx < 100" "unat cy < 75"
    and "draw_glyph (font_of sans_data) cx cy a fg bg fb = draw_glyph (font_of sans_data) cx cy b fg bg fb"
  shows "a = b"
proof (rule cells_determine [OF fonts_distinct(1) assms(1-3)], intro allI impI)
  fix r c :: nat assume rc: "r < 8" "c < 8"
  let ?y = "unat cy * 8 + r" and ?x = "unat cx * 8 + c"
  have yx: "?y < 600" "?x < 800" "?y div 8 = unat cy" "?y mod 8 = r" "?x div 8 = unat cx" "?x mod 8 = c"
    using assms(4,5) rc by simp_all
  note pix = draw_glyph_pix [OF assms(4,5) yx(1,2), of "font_of sans_data" _ fg bg fb, unfolded yx(3-6)]
  show "cell_pix (font_of sans_data) (Glyph a fg bg) r c = cell_pix (font_of sans_data) (Glyph b fg bg) r c"
    using pix [of a] pix [of b] assms(6) by simp
qed

theorem console_legible_witness:
  "draw_glyph (font_of sans_data) 5 7 0x4F 0xFFFFFF 0 fb0 \<noteq> draw_glyph (font_of sans_data) 5 7 0x30 0xFFFFFF 0 fb0"
  using console_legible [of "0x4F" "0x30" "0xFFFFFF" 0 5 7 fb0] by auto

lemma unprintable_blank:
  assumes "\<not> printable a" "r < 8" "c < 8"
  shows "cell_pix (font_of sans_data) (Glyph a fg bg) r c = bg"
proof -
  have "sans_data ! unat a = 0"
    unfolding sans_data_def using assms(1) unsigned_less [of a, where 'a = nat]
    by (intro table_blank) (auto simp: word_le_nat_alt word_less_nat_alt)
  moreover have "(unat a * 8 + r) div 8 = unat a" using assms(2) by simp
  ultimately show ?thesis by (simp add: font_of_def glyph_row_def)
qed

end
