(* ===== verification/Spec2Isabelle.thy ===== *)
theory Spec2Isabelle
  imports Leg_Pmm_Props Leg_Kheap_Theorems Leg_Mm_Init Leg_Scheduler_Props Leg_Cstring_Split Leg_Stdlib Leg_Uldivmod
    Leg_Kbd Leg_Mmu_Boot Leg_Dtb_Find Leg_Rng Leg_Fs_Props Leg_Syscall Leg_Bump Leg_Create_Demo
    Leg_Exit Leg_Kmain Leg_Stdio Leg_Matrix Leg_Fonts
begin

text \<open>
  A verification library for \<^verbatim>\<open>leg\<close>, a bare-metal ARMv7-A kernel.
\<close>

end
